(* ===== verification/Asn_Prelude.thy ===== *)
theory Asn_Prelude
  imports Main "HOL-Library.Word"
begin

unbundle bit_operations_syntax

text \<open>
  Shared ground of the development: the machine types of the runtime, bit strings
  (most significant bit first, as PER transmits them) and their numeric value, and the
  word lemmas that connect shifts and masks of the C code with division and remainder.
  The collection \<open>bitstr\<close> holds the equations on bit strings that the component
  proofs use.
\<close>

named_theorems bitstr \<open>equations on bit strings and their numeric values\<close>

type_synonym byte = "8 word"
type_synonym uint32 = "32 word"
type_synonym uintmax = "64 word"

text \<open>
  \<open>intmax_t\<close> and \<open>long\<close> are the same 64 bits read in two's complement
  (\<open>sint\<close>); \<open>uintmax_t\<close> and \<open>unsigned long\<close> are read by \<open>uint\<close>.
\<close>

type_synonym intmax = "64 word"

section \<open>Bit strings\<close>

primrec bl_nat :: "bool list \<Rightarrow> nat" where
  "bl_nat [] = 0"
| "bl_nat (b # bs) = of_bool b * 2 ^ length bs + bl_nat bs"

primrec nat_bl :: "nat \<Rightarrow> nat \<Rightarrow> bool list" where
  "nat_bl 0 v = []"
| "nat_bl (Suc n) v = odd (v div 2 ^ n) # nat_bl n v"

definition byte_bits :: "byte \<Rightarrow> bool list" where
  "byte_bits b = nat_bl 8 (unat b)"

definition bits_of :: "byte list \<Rightarrow> bool list" where
  "bits_of bs = concat (map byte_bits bs)"

lemma length_nat_bl [simp]: "length (nat_bl n v) = n"
  by (induction n) auto

lemma length_byte_bits [simp]: "length (byte_bits b) = 8"
  by (simp add: byte_bits_def)

lemma bits_of_simps [simp]:
  "bits_of [] = []"
  "bits_of (b # bs) = byte_bits b @ bits_of bs"
  "bits_of (xs @ ys) = bits_of xs @ bits_of ys"
  by (simp_all add: bits_of_def)

lemma length_bits_of [simp]: "length (bits_of bs) = 8 * length bs"
  by (induction bs) auto

lemma bl_nat_append: "bl_nat (xs @ ys) = bl_nat xs * 2 ^ length ys + bl_nat ys"
  by (induction xs) (auto simp: algebra_simps power_add)

lemma bl_nat_less: "bl_nat bs < 2 ^ length bs"
  by (induction bs) (auto simp: of_bool_def)

lemma nat_bl_mod: "n \<le> m \<Longrightarrow> nat_bl n (v mod 2 ^ m) = nat_bl n v"
proof (induction n)
  case 0
  then show ?case by simp
next
  case (Suc n)
  then have "odd (v mod 2 ^ m div 2 ^ n) = odd (v div 2 ^ n)"
    by (metis Suc_le_lessD bit_iff_odd bit_take_bit_iff take_bit_eq_mod)
  with Suc show ?case by simp
qed

lemma bl_nat_nat_bl [bitstr]: "bl_nat (nat_bl n v) = v mod 2 ^ n"
proof (induction n)
  case 0
  then show ?case by simp
next
  case (Suc n)
  have "v mod 2 ^ Suc n = 2 ^ n * (v div 2 ^ n mod 2) + v mod 2 ^ n"
    using mod_mult2_eq [of v "2 ^ n" 2] by (simp add: ac_simps)
  with Suc show ?case by (simp add: mod2_eq_if)
qed

lemma nat_bl_add: "nat_bl (m + n) v = nat_bl m (v div 2 ^ n) @ nat_bl n v"
  by (induction m) (auto simp: div_mult2_eq [symmetric] power_add mult.commute)

lemma nat_bl_bl_nat: "length bs = n \<Longrightarrow> nat_bl n (bl_nat bs) = bs"
proof (induction bs arbitrary: n)
  case Nil
  then show ?case by simp
next
  case (Cons b bs)
  then obtain m where n: "n = Suc m" and m: "length bs = m" by (cases n) auto
  have lt: "bl_nat bs < 2 ^ m" using bl_nat_less [of bs] m by simp
  have "nat_bl m (of_bool b * 2 ^ m + bl_nat bs) = nat_bl m ((of_bool b * 2 ^ m + bl_nat bs) mod 2 ^ m)"
    by (rule nat_bl_mod [symmetric]) simp
  also have "(of_bool b * 2 ^ m + bl_nat bs) mod 2 ^ m = bl_nat bs" using lt by simp
  also have "nat_bl m (bl_nat bs) = bs" using Cons.IH m by simp
  finally have "nat_bl m (of_bool b * 2 ^ m + bl_nat bs) = bs" .
  moreover have "odd ((of_bool b * 2 ^ m + bl_nat bs) div 2 ^ m) = b"
    using lt by simp
  ultimately show ?case by (simp add: n m)
qed

lemma bl_nat_take_drop:
  assumes "n \<le> off" "off \<le> length bs"
  shows "bl_nat (take n (drop (off - n) bs)) = bl_nat bs div 2 ^ (length bs - off) mod 2 ^ n"
proof -
  let ?a = "take (off - n) bs" and ?b = "take n (drop (off - n) bs)" and ?c = "drop off bs"
  have "drop (off - n) bs = ?b @ drop n (drop (off - n) bs)" by (rule append_take_drop_id [symmetric])
  then have "bs = ?a @ ?b @ ?c"
    using assms by (metis add.commute append_take_drop_id drop_drop le_add_diff_inverse2)
  moreover have lb: "length ?b = n" and lc: "length ?c = length bs - off" using assms by auto
  ultimately have "bl_nat bs = (bl_nat ?a * 2 ^ n + bl_nat ?b) * 2 ^ (length bs - off) + bl_nat ?c"
    by (metis bl_nat_append add.assoc append_assoc)
  moreover have "bl_nat ?c < 2 ^ (length bs - off)" using bl_nat_less [of ?c] lc by simp
  moreover have "bl_nat ?b < 2 ^ n" using bl_nat_less [of ?b] lb by simp
  ultimately show ?thesis by simp
qed

lemma bl_nat_byte_bits [bitstr]: "bl_nat (byte_bits b) = unat b"
proof -
  have "unat b < 2 ^ 8" using unsigned_less [of b] by simp
  then show ?thesis by (simp add: byte_bits_def bl_nat_nat_bl)
qed

lemma byte_bits_of_nat: "byte_bits (word_of_nat v) = nat_bl 8 v"
proof -
  have "unat (word_of_nat v :: byte) = v mod 2 ^ 8" by (simp add: unat_of_nat)
  then have "byte_bits (word_of_nat v) = nat_bl 8 (v mod 2 ^ 8)" by (simp only: byte_bits_def)
  then show ?thesis by (simp only: nat_bl_mod [OF order_refl])
qed

lemma byte_bits_inject: "byte_bits a = byte_bits b \<longleftrightarrow> a = b"
  by (metis bl_nat_byte_bits unsigned_word_eqI)

lemma bits_of_inject: "length xs = length ys \<Longrightarrow> bits_of xs = bits_of ys \<longleftrightarrow> xs = ys"
  by (induction xs ys rule: list_induct2) (auto simp: byte_bits_inject)

lemma take_bits_of: "take (8 * n) (bits_of bs) = bits_of (take n bs)"
proof (induction bs arbitrary: n)
  case (Cons b bs)
  then show ?case by (cases n) auto
qed simp

lemma drop_bits_of: "drop (8 * n) (bits_of bs) = bits_of (drop n bs)"
proof (induction bs arbitrary: n)
  case (Cons b bs)
  then show ?case by (cases n) auto
qed simp

lemma take_drop_octets:
  assumes "b + k \<le> length xs"
  shows "take k (drop b xs) = map (\<lambda>i. xs ! (b + i)) [0..<k]"
  using assms by (intro nth_equalityI) auto

text \<open>The octets of a bit string whose length is a multiple of eight.\<close>

fun octets_of :: "bool list \<Rightarrow> byte list" where
  "octets_of bs = (if length bs < 8 then [] else word_of_nat (bl_nat (take 8 bs)) # octets_of (drop 8 bs))"

declare octets_of.simps [simp del]

lemma octets_of_bits_of: "octets_of (bits_of bs) = bs"
proof (induction bs)
  case Nil
  then show ?case by (simp add: octets_of.simps)
next
  case (Cons b bs)
  then show ?case by (simp add: octets_of.simps [of "byte_bits b @ bits_of bs"] bl_nat_byte_bits)
qed

lemma bits_of_octets_of: "8 dvd length bs \<Longrightarrow> bits_of (octets_of bs) = bs"
proof (induction bs rule: octets_of.induct)
  case (1 bs)
  show ?case
  proof (cases "length bs < 8")
    case True
    with "1.prems" have "bs = []" by (metis dvd_imp_le leD length_0_conv neq0_conv)
    then show ?thesis by (simp add: octets_of.simps)
  next
    case False
    then have "8 dvd length (drop 8 bs)" using "1.prems" by (simp add: dvd_diff_nat)
    with "1.IH" False have "bits_of (octets_of (drop 8 bs)) = drop 8 bs" by simp
    moreover have "byte_bits (word_of_nat (bl_nat (take 8 bs))) = take 8 bs"
      using False by (simp add: byte_bits_of_nat nat_bl_bl_nat)
    ultimately show ?thesis using False by (simp add: octets_of.simps [of bs])
  qed
qed

lemma length_octets_of [simp]: "length (octets_of bs) = length bs div 8"
proof (induction bs rule: octets_of.induct)
  case (1 bs)
  show ?case
  proof (cases "length bs < 8")
    case True
    then show ?thesis by (simp add: octets_of.simps)
  next
    case False
    with 1 show ?thesis by (simp add: octets_of.simps [of bs] le_div_geq)
  qed
qed

section \<open>Words\<close>

lemma word_mask_and: "unat ((w :: 'a::len word) AND (push_bit n 1 - 1)) = unat w mod 2 ^ n"
proof -
  have "(push_bit n 1 - 1 :: 'a word) = mask n" by (simp add: mask_eq_exp_minus_1)
  then have "unat (w AND (push_bit n 1 - 1)) = unat (take_bit n w)" by (simp only: take_bit_eq_mask)
  also have "\<dots> = take_bit n (unat w)" by (rule unsigned_take_bit_eq)
  finally show ?thesis by (simp only: take_bit_eq_mod)
qed

lemma unat_drop_bit [simp]: "unat (drop_bit n (w :: 'a::len word)) = unat w div 2 ^ n"
proof -
  have "unat (drop_bit n w) = drop_bit n (take_bit LENGTH('a) (unat w))"
    by (rule unsigned_drop_bit_eq)
  also have "take_bit LENGTH('a) (unat w) = unat w"
    using unsigned_less [of w] by (simp add: take_bit_nat_eq_self)
  finally show ?thesis by (simp only: drop_bit_eq_div)
qed

lemma unat_push_bit: "unat (push_bit n (w :: 'a::len word)) = unat w * 2 ^ n mod 2 ^ LENGTH('a)"
proof -
  have "unat (push_bit n w) = take_bit LENGTH('a) (push_bit n (unat w))"
    by (rule unsigned_push_bit_eq)
  then show ?thesis by (simp only: take_bit_eq_mod push_bit_eq_mult)
qed

lemma unat_byte_less [simp]: "unat (b :: byte) < 256"
  using unsigned_less [of b] by simp

lemma or_shift_add:
  fixes x y :: "'a::linordered_euclidean_semiring_bit_operations"
  assumes "take_bit n y = y"
  shows "push_bit n x OR y = x * 2 ^ n + y"
proof -
  have "push_bit n x AND y = 0"
  proof (rule bit_eqI)
    fix m assume "possible_bit TYPE('a) m"
    have "bit y m \<Longrightarrow> m < n" using assms by (metis bit_take_bit_iff)
    then show "bit (push_bit n x AND y) m = bit 0 m" by (auto simp: bit_simps)
  qed
  then show ?thesis by (simp add: disjunctive_add_eq_or [symmetric] push_bit_eq_mult)
qed

lemma nat_or_shift: "y < 2 ^ n \<Longrightarrow> push_bit n x OR y = x * 2 ^ n + (y::nat)"
  by (rule or_shift_add) (simp add: take_bit_nat_eq_self)

lemma int_or_shift: "0 \<le> y \<Longrightarrow> y < 2 ^ n \<Longrightarrow> push_bit n x OR y = x * 2 ^ n + (y::int)"
  by (rule or_shift_add) (simp add: take_bit_int_eq_self)

lemma be_words:
  fixes a b c d :: uint32
  shows "unat a < 256 \<Longrightarrow> unat b < 256 \<Longrightarrow> unat (push_bit 8 a + b) = unat a * 2 ^ 8 + unat b"
    "unat a < 256 \<Longrightarrow> unat b < 256 \<Longrightarrow> unat c < 256 \<Longrightarrow>
      unat (push_bit 16 a + push_bit 8 b + c) = unat a * 2 ^ 16 + (unat b * 2 ^ 8 + unat c)"
    "unat a < 256 \<Longrightarrow> unat b < 256 \<Longrightarrow> unat c < 256 \<Longrightarrow> unat d < 256 \<Longrightarrow>
      unat (push_bit 24 a + push_bit 16 b + push_bit 8 c + d) =
        unat a * 2 ^ 24 + (unat b * 2 ^ 16 + (unat c * 2 ^ 8 + unat d))"
  by (simp_all add: unat_word_ariths unat_push_bit)

section \<open>Left-aligned bit strings\<close>

text \<open>Octets of a left-aligned bit string: padded with zero bits to a whole octet.\<close>

definition pad8 :: "bool list \<Rightarrow> bool list" where
  "pad8 bs = bs @ replicate ((8 - length bs mod 8) mod 8) False"

lemma pad8_amount: "n + (8 - n mod 8) mod 8 = 8 * ((n + 7) div (8::nat))"
proof -
  obtain q r where n: "n = 8 * q + r" and r: "r < 8"
    by (metis mult.commute div_mult_mod_eq mod_less_divisor zero_less_numeral)
  show ?thesis
  proof (cases "r = 0")
    case False
    then obtain s where "r = Suc s" by (cases r) auto
    then show ?thesis using r n by (simp, presburger)
  qed (use n in simp)
qed

lemma length_pad8 [simp]: "length (pad8 bs) = 8 * ((length bs + 7) div 8)"
  using pad8_amount [of "length bs"] by (simp add: pad8_def)

lemma bl_nat_replicate_False [simp]: "bl_nat (replicate k False) = 0"
  by (induction k) auto

lemma byte_of_nat_mod: "(word_of_nat (v mod 2 ^ 8) :: byte) = word_of_nat v"
  by (metis byte_bits_inject byte_bits_of_nat nat_bl_mod order_refl)

lemma byte_at:
  assumes "8 \<le> off" "off \<le> length bs"
  shows "(word_of_nat (bl_nat (take 8 (drop (off - 8) bs))) :: byte) = word_of_nat (bl_nat bs div 2 ^ (length bs - off))"
  using bl_nat_take_drop [OF assms] by (simp only: byte_of_nat_mod)

lemma octets_of_short:
  "length bs = 8 \<Longrightarrow> octets_of bs = [word_of_nat (bl_nat bs)]"
  "length bs = 16 \<Longrightarrow> octets_of bs = [word_of_nat (bl_nat bs div 2 ^ 8), word_of_nat (bl_nat bs)]"
  "length bs = 24 \<Longrightarrow> octets_of bs =
     [word_of_nat (bl_nat bs div 2 ^ 16), word_of_nat (bl_nat bs div 2 ^ 8), word_of_nat (bl_nat bs)]"
  using byte_at [of 8 bs] byte_at [of 16 bs] byte_at [of 24 bs]
  by (simp_all add: octets_of.simps)

lemma octets_of_append: "8 dvd length xs \<Longrightarrow> octets_of (xs @ ys) = octets_of xs @ octets_of ys"
proof (induction xs rule: octets_of.induct)
  case (1 xs)
  show ?case
  proof (cases "length xs < 8")
    case True
    with "1.prems" have "xs = []" by (metis dvd_imp_le leD length_0_conv neq0_conv)
    then show ?thesis by (simp add: octets_of.simps [of "[]"])
  next
    case False
    then have "8 dvd length (drop 8 xs)" using "1.prems" by (simp add: dvd_diff_nat)
    with 1 False show ?thesis by (simp add: octets_of.simps [of "xs @ ys"] octets_of.simps [of xs])
  qed
qed

lemma pad8_append: "8 dvd length xs \<Longrightarrow> pad8 (xs @ ys) = xs @ pad8 ys"
  by (auto simp: pad8_def mod_add_eq dvd_def)

lemma pad8_bits_of [simp]: "pad8 (bits_of bs) = bits_of bs"
  by (simp add: pad8_def)

lemma bl_nat_pad8: "bl_nat (pad8 bs) = bl_nat bs * 2 ^ ((8 - length bs mod 8) mod 8)"
  by (simp add: pad8_def bl_nat_append)

section \<open>Octets built from words\<close>

lemma take_nat_bl: "n \<le> m \<Longrightarrow> take n (nat_bl m v) = nat_bl n (v div 2 ^ (m - n))"
  using nat_bl_add [of n "m - n" v] by simp

lemma unat_keep_high:
  fixes b :: byte
  assumes "m \<le> 8" "x < 2 ^ m"
  shows "unat ((b AND NOT (push_bit m 1 - 1)) OR word_of_nat x) = unat b div 2 ^ m * 2 ^ m + x"
proof -
  have "b AND NOT (push_bit m 1 - 1) = push_bit m (drop_bit m b)"
    by (rule bit_word_eqI) (auto simp: bit_simps mask_eq_exp_minus_1 [symmetric])
  moreover have "x < 256" using assms power_increasing [of m 8 "2::nat"] by simp
  moreover have "unat b div 2 ^ m * 2 ^ m \<le> unat b" by simp
  then have "unat b div 2 ^ m * 2 ^ m < 256" using unat_byte_less [of b] by linarith
  ultimately have "unat ((b AND NOT (push_bit m 1 - 1)) OR word_of_nat x) = push_bit m (unat b div 2 ^ m) OR x"
    by (simp only: unsigned_or_eq unat_push_bit unat_drop_bit unat_of_nat) (simp add: push_bit_eq_mult)
  then show ?thesis using assms(2) by (simp add: nat_or_shift)
qed

lemma byte_bits_keep_high:
  assumes "q \<le> 8" "x < 2 ^ (8 - q)"
  shows "byte_bits ((b AND NOT (push_bit (8 - q) 1 - 1)) OR word_of_nat x) = take q (byte_bits b) @ nat_bl (8 - q) x"
proof -
  have "byte_bits ((b AND NOT (push_bit (8 - q) 1 - 1)) OR word_of_nat x)
      = nat_bl (q + (8 - q)) (unat b div 2 ^ (8 - q) * 2 ^ (8 - q) + x)"
    using assms by (simp only: byte_bits_def unat_keep_high diff_le_self le_add_diff_inverse)
  also have "\<dots> = nat_bl q (unat b div 2 ^ (8 - q)) @ nat_bl (8 - q) x"
    using assms(2) nat_bl_mod [of "8 - q" "8 - q" "unat b div 2 ^ (8 - q) * 2 ^ (8 - q) + x"]
    by (simp only: nat_bl_add) simp
  finally show ?thesis using assms(1) by (simp add: byte_bits_def take_nat_bl)
qed

lemma ucast_byte: "(ucast (w :: uint32) :: byte) = word_of_nat (unat w)"
  by simp

lemma nat_bl_octets:
  assumes "0 < k"
  shows "nat_bl (m + 8 * (k - 1)) v = nat_bl m (v div 2 ^ (8 * (k - 1))) @
    concat (map (\<lambda>i. nat_bl 8 (v div 2 ^ (8 * (k - 2 - i)))) [0..<k - 1])"
proof -
  have "nat_bl (8 * j) v = concat (map (\<lambda>i. nat_bl 8 (v div 2 ^ (8 * (j - 1 - i)))) [0..<j])" for j
  proof (induction j)
    case (Suc j)
    have "nat_bl (8 * Suc j) v = nat_bl 8 (v div 2 ^ (8 * j)) @ nat_bl (8 * j) v"
      using nat_bl_add [of 8 "8 * j" v] by simp
    moreover have "[0..<Suc j] = 0 # map Suc [0..<j]" by (simp add: upt_conv_Cons map_Suc_upt del: upt_Suc)
    ultimately show ?case using Suc by (simp add: comp_def)
  qed simp
  from this [of "k - 1"] show ?thesis by (simp add: nat_bl_add)
qed

lemma nat_bl_shift: "nat_bl (n + z) (v * 2 ^ z) = nat_bl n v @ replicate z False"
proof -
  have "nat_bl z (v * 2 ^ z) = replicate z False"
    using nat_bl_mod [of z z "v * 2 ^ z"] nat_bl_bl_nat [of "replicate z False" z] by simp
  then show ?thesis by (simp add: nat_bl_add)
qed

lemma unat_ucast_byte: "unat (ucast (b :: byte) :: uint32) = unat b"
  using unat_byte_less [of b] by (simp add: unsigned_ucast_eq take_bit_nat_eq_self del: unat_byte_less)

lemma unat_or_shift:
  fixes x y :: "'a::len word"
  assumes "unat y < 2 ^ n" "unat x * 2 ^ n < 2 ^ LENGTH('a)"
  shows "unat (push_bit n x OR y) = unat x * 2 ^ n + unat y"
proof -
  have "unat (push_bit n x OR y) = unat (push_bit n x) OR unat y" by (rule unsigned_or_eq)
  also have "unat (push_bit n x) = push_bit n (unat x)"
    using assms(2) by (subst unat_push_bit) (simp add: push_bit_eq_mult)
  finally show ?thesis using nat_or_shift [OF assms(1)] by simp
qed

lemma unat_or_octets:
  fixes a b c :: byte
  shows "unat (push_bit 8 (ucast a) OR ucast b :: uint32) = bl_nat (bits_of [a, b])"
    "unat (push_bit 16 (ucast a) OR push_bit 8 (ucast b) OR ucast c :: uint32) = bl_nat (bits_of [a, b, c])"
    "unat (push_bit 8 (push_bit 8 (ucast a) OR ucast b) OR ucast c :: uint32) = bl_nat (bits_of [a, b, c])"
proof -
  show two: "unat (push_bit 8 (ucast a) OR ucast b :: uint32) = bl_nat (bits_of [a, b])" for a b :: byte
    using unat_byte_less [of a] unat_byte_less [of b]
    by (subst unat_or_shift) (simp_all add: unat_ucast_byte bl_nat_append bitstr del: unat_byte_less)
  have lt: "unat a * 256 + unat b < 65536" "unat b * 256 + unat c < 65536"
    using unat_byte_less [of a] unat_byte_less [of b] unat_byte_less [of c] by linarith+
  show "unat (push_bit 8 (push_bit 8 (ucast a) OR ucast b) OR ucast c :: uint32) = bl_nat (bits_of [a, b, c])"
    using lt two [of a b] by (subst unat_or_shift) (simp_all add: unat_ucast_byte bl_nat_append bitstr)
  have "unat (push_bit 16 (ucast a) OR (push_bit 8 (ucast b) OR ucast c) :: uint32) = bl_nat (bits_of [a, b, c])"
    using lt two [of b c] by (subst unat_or_shift) (simp_all add: unat_ucast_byte bl_nat_append bitstr)
  then show "unat (push_bit 16 (ucast a) OR push_bit 8 (ucast b) OR ucast c :: uint32) = bl_nat (bits_of [a, b, c])"
    by (simp only: or.assoc)
qed

lemma nat_bl_of_octets:
  assumes "n \<le> 8 * length bs"
  shows "nat_bl n (bl_nat (bits_of bs) div 2 ^ (8 * length bs - n)) = take n (bits_of bs)"
  using take_nat_bl [OF assms, of "bl_nat (bits_of bs)"] nat_bl_bl_nat [of "bits_of bs"] by simp

lemma bits_of_mask_low:
  assumes "u < 8"
  shows "byte_bits (b AND push_bit u (NOT 0)) = take (8 - u) (byte_bits b) @ replicate u False"
proof -
  have "b AND push_bit u (NOT 0) = push_bit u (drop_bit u b)"
    by (rule bit_word_eqI) (auto simp: bit_simps)
  moreover have "unat b div 2 ^ u * 2 ^ u < 256"
    by (rule le_less_trans [OF _ unat_byte_less [of b]]) simp
  ultimately have "unat (b AND push_bit u (NOT 0)) = unat b div 2 ^ u * 2 ^ u"
    by (simp only: unat_push_bit unat_drop_bit) simp
  then show ?thesis
    using nat_bl_shift [of "8 - u" u "unat b div 2 ^ u"] assms
    by (simp add: byte_bits_def take_nat_bl)
qed

lemma nat_bl_split24:
  assumes "24 < n"
  shows "nat_bl 24 (v div 2 ^ (n - 24)) @ nat_bl (n - 24) v = nat_bl n v"
  using nat_bl_add [of 24 "n - 24" v] assms by simp

section \<open>Masks and signed ranges\<close>

lemma and_single_bit [bitstr]:
  "((x::int) AND 64 = 0) = even (x div 64)" "((x::int) AND 128 = 0) = even (x div 128)"
  using and_exp_eq_0_iff_not_bit [of x 6] and_exp_eq_0_iff_not_bit [of x 7] by (simp_all add: bit_iff_odd)

lemma and_low_bits [bitstr]:
  "(x::int) AND 63 = x mod 64" "x AND 127 = x mod 128" "(n::nat) AND 16383 = n mod 16384"
  using take_bit_eq_mask [of 6 x] take_bit_eq_mask [of 7 x] take_bit_eq_mask [of 14 n]
  by (simp_all add: mask_eq_exp_minus_1 take_bit_eq_mod)

lemma nat_or_high: "n < 0x8000 \<Longrightarrow> n OR 0x8000 = 0x8000 + (n::nat)" "n < 64 \<Longrightarrow> 0xC0 OR n = 0xC0 + (n::nat)"
  using nat_or_shift [of n 15 1] nat_or_shift [of n 6 3] by (simp_all add: or.commute push_bit_eq_mult)

lemma unat_nat32: "n < 2 ^ 32 \<Longrightarrow> unat (word_of_nat n :: uint32) = n"
  by (simp add: unat_of_nat)

lemma sint_bounds64: "- (2 ^ 63) \<le> sint (w :: 64 word)" "sint (w :: 64 word) < 2 ^ 63"
  using sint_ge [of w] sint_lt [of w] by simp_all

lemma uint_diff_signed:
  fixes a b :: "64 word"
  assumes "sint a \<le> sint b"
  shows "uint (b - a) = sint b - sint a"
proof -
  have "b - a = word_of_int (sint b - sint a)" by simp
  then have "uint (b - a) = take_bit 64 (sint b - sint a)" by (simp only: uint_word_of_int_eq) simp
  then show ?thesis using assms sint_bounds64 [of a] sint_bounds64 [of b]
    by (simp add: take_bit_int_eq_self_iff)
qed

lemma sint_add_unsigned:
  fixes a b :: "64 word"
  assumes "sint a + uint b < 2 ^ 63"
  shows "sint (b + a) = sint a + uint b"
proof -
  have "b + a = word_of_int (uint b + sint a)" by simp
  then have "sint (b + a) = signed_take_bit 63 (uint b + sint a)" by (simp only: sint_sbintrunc') simp
  moreover have "0 \<le> uint b" by simp
  ultimately show ?thesis using assms sint_bounds64 [of a]
    by (subst (asm) signed_take_bit_int_eq_self) linarith+
qed

lemma of_nat_unat_id: "word_of_nat (unat w) = (w :: 'a::len word)"
  by simp

end
