(* ===== verification/Bit_Input.thy ===== *)
theory Bit_Input
  imports Asn_Prelude
begin

unbundle bit_operations_syntax

text \<open>
  Reading bits: the input half of \<open>support/asn_bit_data.c\<close>. An
  \<open>asn_bit_data_t\<close> is a window into an octet buffer: the octet pointer (an offset
  into \<open>pd_octets\<close>), the bit offset of the next bit, the number of bits in the
  window and the number of bits moved so far. The only function that installs a
  \<open>refill\<close> callback, \<open>uper_open_type_get_complex\<close>, is marked unused and has no
  caller, so every stream of the program has \<open>refill == 0\<close> and the model has no
  such field. The abstract view of a stream is the bit string still to be read
  (\<open>src_bits\<close>); the lemmas show that the readers return its prefix as a number or
  as octets and drop it, and fail without moving when it is too short.
\<close>

record asn_bit_data =
  pd_octets :: "byte list"
  pd_buffer :: nat
  pd_nboff :: nat
  pd_nbits :: nat
  pd_moved :: nat

definition asn_bit_data_new_contiguous :: "byte list \<Rightarrow> nat \<Rightarrow> asn_bit_data" where
  "asn_bit_data_new_contiguous octs size_bits =
     (let size_bytes = (size_bits + 7) div 8
      in \<lparr>pd_octets = take size_bytes octs @ [0], pd_buffer = 0, pd_nboff = 0,
          pd_nbits = size_bits, pd_moved = 0\<rparr>)"

definition asn_get_undo :: "asn_bit_data \<Rightarrow> int \<Rightarrow> asn_bit_data" where
  "asn_get_undo pd nbits =
     (if int (pd_nboff pd) < nbits then pd
      else pd\<lparr>pd_nboff := nat (int (pd_nboff pd) - nbits),
              pd_moved := nat (int (pd_moved pd) - nbits)\<rparr>)"

text \<open>The position indicator is normalised so that less than eight bits are skipped.\<close>

definition pd_normalize :: "asn_bit_data \<Rightarrow> asn_bit_data" where
  "pd_normalize pd =
     (if pd_nboff pd \<ge> 8
      then pd\<lparr>pd_buffer := pd_buffer pd + pd_nboff pd div 8,
              pd_nbits := pd_nbits pd - (pd_nboff pd - pd_nboff pd mod 8),
              pd_nboff := pd_nboff pd mod 8\<rparr>
      else pd)"

definition pd_buf :: "asn_bit_data \<Rightarrow> nat \<Rightarrow> uint32" where
  "pd_buf pd i = ucast (pd_octets pd ! (pd_buffer pd + i))"

definition low_bits :: "uint32 \<Rightarrow> int \<Rightarrow> int" where
  "low_bits accum nbits = sint (accum AND (push_bit (nat nbits) 1 - 1))"

function asn_get_few_bits :: "asn_bit_data \<Rightarrow> int \<Rightarrow> int \<times> asn_bit_data" where
  "asn_get_few_bits pd nbits =
     (if nbits < 0 then (-1, pd)
      else let nleft = int (pd_nbits pd) - int (pd_nboff pd) in
      if nbits > nleft then (-1, pd)
      else
        let pd1 = pd_normalize pd;
            pd2 = pd1\<lparr>pd_moved := pd_moved pd1 + nat nbits, pd_nboff := pd_nboff pd1 + nat nbits\<rparr>;
            off = pd_nboff pd2;
            buf = pd_buf pd2
        in
        if off \<le> 8 then
          (low_bits (if nbits \<noteq> 0 then drop_bit (8 - off) (buf 0) else 0) nbits, pd2)
        else if off \<le> 16 then
          (low_bits (drop_bit (16 - off) (push_bit 8 (buf 0) + buf 1)) nbits, pd2)
        else if off \<le> 24 then
          (low_bits (drop_bit (24 - off) (push_bit 16 (buf 0) + push_bit 8 (buf 1) + buf 2)) nbits, pd2)
        else if off \<le> 31 then
          (low_bits (drop_bit (32 - off)
             (push_bit 24 (buf 0) + push_bit 16 (buf 1) + push_bit 8 (buf 2) + buf 3)) nbits, pd2)
        else if nbits \<le> 31 then
          let (v1, tpd) = asn_get_few_bits (asn_get_undo pd2 nbits) (nbits - 24);
              (v2, tpd') = asn_get_few_bits tpd 24
          in (low_bits (push_bit 24 (word_of_int v1) OR word_of_int v2) nbits, pd2)
        else (-1, asn_get_undo pd2 nbits))"
  by pat_completeness auto
termination
  by (relation "measure (\<lambda>(pd, nbits). nat nbits)") (auto simp: pd_normalize_def split: if_splits)

declare asn_get_few_bits.simps [simp del]

text \<open>
  The octets written through \<open>dst\<close> are returned as a list. The loop body that ends
  the transfer (fewer than 24 bits left) is \<open>asn_get_tail_bits\<close>; \<open>octet v k\<close> is
  the assignment of \<open>v >> k\<close> to an octet.
\<close>

definition octet :: "int \<Rightarrow> nat \<Rightarrow> byte" where
  "octet v k = word_of_int (drop_bit k v)"

definition asn_get_tail_bits :: "asn_bit_data \<Rightarrow> int \<Rightarrow> int \<times> byte list \<times> asn_bit_data" where
  "asn_get_tail_bits pd nbits =
     (case asn_get_few_bits pd nbits of (v, pd') \<Rightarrow>
        if v < 0 then (-1, [], pd')
        else
          let pad = (nbits mod 8 \<noteq> 0);
              v' = (if pad then push_bit (nat (8 - nbits mod 8)) v else v);
              n' = (if pad then nbits + (8 - nbits mod 8) else nbits)
          in (0, (if pad \<and> n' > 24 then [octet v' 24] else []) @
                 (if n' > 16 then [octet v' 16] else []) @
                 (if n' > 8 then [octet v' 8] else []) @ [octet v' 0], pd'))"

function asn_get_bits_loop :: "asn_bit_data \<Rightarrow> int \<Rightarrow> int \<times> byte list \<times> asn_bit_data" where
  "asn_get_bits_loop pd nbits =
     (if nbits = 0 then (0, [], pd)
      else if nbits \<ge> 24 then
        (case asn_get_few_bits pd 24 of (v, pd') \<Rightarrow>
           if v < 0 then (-1, [], pd')
           else (case asn_get_bits_loop pd' (nbits - 24) of (r, bs, pd'') \<Rightarrow>
                   (r, octet v 16 # octet v 8 # octet v 0 # bs, pd'')))
      else asn_get_tail_bits pd nbits)"
  by pat_completeness auto
termination
  by (relation "measure (\<lambda>(pd, nbits). nat nbits)") auto

declare asn_get_bits_loop.simps [simp del]

definition asn_get_many_bits :: "asn_bit_data \<Rightarrow> bool \<Rightarrow> int \<Rightarrow> int \<times> byte list \<times> asn_bit_data" where
  "asn_get_many_bits pd alright nbits =
     (if alright \<and> nbits mod 8 \<noteq> 0 then
        (case asn_get_few_bits pd (nbits mod 8) of (v, pd') \<Rightarrow>
           if v < 0 then (-1, [], pd')
           else (case asn_get_bits_loop pd' (nbits - nbits mod 8) of (r, bs, pd'') \<Rightarrow>
                   (r, octet v 0 # bs, pd'')))
      else asn_get_bits_loop pd nbits)"

section \<open>The stream of bits still to be read\<close>

definition pd_inv :: "asn_bit_data \<Rightarrow> bool" where
  "pd_inv pd \<longleftrightarrow> pd_nboff pd \<le> pd_nbits pd \<and>
     pd_buffer pd \<le> length (pd_octets pd) \<and>
     pd_nbits pd \<le> 8 * (length (pd_octets pd) - pd_buffer pd)"

definition src_bits :: "asn_bit_data \<Rightarrow> bool list" where
  "src_bits pd = take (pd_nbits pd - pd_nboff pd)
     (drop (pd_nboff pd) (bits_of (drop (pd_buffer pd) (pd_octets pd))))"

text \<open>The absolute bit position in the octet buffer.\<close>

definition pd_pos :: "asn_bit_data \<Rightarrow> nat" where
  "pd_pos pd = 8 * pd_buffer pd + pd_nboff pd"

text \<open>
  \<open>consumes pd bs pd'\<close>: the reader has taken the bits \<open>bs\<close> off the stream
  \<open>pd\<close>, leaving the stream \<open>pd'\<close> over the same octets.
\<close>

definition consumes :: "asn_bit_data \<Rightarrow> bool list \<Rightarrow> asn_bit_data \<Rightarrow> bool" where
  "consumes pd bs pd' \<longleftrightarrow> pd_inv pd \<and> pd_inv pd' \<and> src_bits pd = bs @ src_bits pd' \<and>
     pd_octets pd' = pd_octets pd \<and> pd_pos pd' = pd_pos pd + length bs \<and>
     pd_moved pd' = pd_moved pd + length bs"

definition pd_advance :: "asn_bit_data \<Rightarrow> nat \<Rightarrow> asn_bit_data" where
  "pd_advance pd n = (pd_normalize pd)\<lparr>pd_moved := pd_moved (pd_normalize pd) + n,
     pd_nboff := pd_nboff (pd_normalize pd) + n\<rparr>"

lemma length_src_bits: "pd_inv pd \<Longrightarrow> length (src_bits pd) = pd_nbits pd - pd_nboff pd"
  by (auto simp: src_bits_def pd_inv_def)

lemma consumes_refl: "pd_inv pd \<Longrightarrow> consumes pd [] pd"
  by (simp add: consumes_def)

lemma consumes_trans: "consumes p xs q \<Longrightarrow> consumes q ys r \<Longrightarrow> consumes p (xs @ ys) r"
  by (auto simp: consumes_def)

lemma consumesD:
  assumes "consumes pd bs pd'"
  shows "pd_inv pd" "pd_inv pd'" "src_bits pd = bs @ src_bits pd'"
  using assms by (auto simp: consumes_def)

section \<open>Reading a few bits\<close>

lemma low_bits_eq:
  assumes "0 \<le> n" "n \<le> 31"
  shows "low_bits a n = int (unat a mod 2 ^ nat n)"
proof -
  let ?w = "a AND (push_bit (nat n) 1 - 1)"
  have u: "unat ?w = unat a mod 2 ^ nat n" by (rule word_mask_and)
  have "unat a mod 2 ^ nat n < 2 ^ nat n" by simp
  also have "(2::nat) ^ nat n \<le> 2 ^ 31" using assms by (intro power_increasing) auto
  finally have "uint ?w < 2 ^ 31" using u by (simp add: uint_nat)
  moreover have "- (2 ^ 31) \<le> uint ?w" by (rule order_trans [of _ 0]) simp_all
  ultimately have "signed_take_bit 31 (uint ?w) = uint ?w" by (rule signed_take_bit_int_eq_self [rotated])
  then have "sint ?w = uint ?w" by (simp add: sint_uint)
  also have "uint ?w = int (unat ?w)" by (rule uint_nat)
  finally show ?thesis by (simp only: low_bits_def u)
qed

lemma pd_normalize_facts:
  assumes "pd_inv pd"
  shows "pd_inv (pd_normalize pd)" "src_bits (pd_normalize pd) = src_bits pd"
    "pd_octets (pd_normalize pd) = pd_octets pd" "pd_pos (pd_normalize pd) = pd_pos pd"
    "pd_moved (pd_normalize pd) = pd_moved pd" "pd_nboff (pd_normalize pd) < 8"
proof -
  have m: "pd_nboff pd mod 8 + 8 * (pd_nboff pd div 8) = pd_nboff pd" by simp
  have "drop (pd_nboff pd) (bits_of (drop (pd_buffer pd) (pd_octets pd)))
      = drop (pd_nboff pd mod 8) (drop (8 * (pd_nboff pd div 8)) (bits_of (drop (pd_buffer pd) (pd_octets pd))))"
    unfolding drop_drop m ..
  also have "\<dots> = drop (pd_nboff pd mod 8) (bits_of (drop (pd_buffer pd + pd_nboff pd div 8) (pd_octets pd)))"
    by (simp add: drop_bits_of add.commute)
  finally have d: "drop (pd_nboff pd) (bits_of (drop (pd_buffer pd) (pd_octets pd))) =
    drop (pd_nboff pd mod 8) (bits_of (drop (pd_buffer pd + pd_nboff pd div 8) (pd_octets pd)))" .
  have e: "pd_nbits pd - (pd_nboff pd - pd_nboff pd mod 8) - pd_nboff pd mod 8 = pd_nbits pd - pd_nboff pd"
    using mod_less_eq_dividend [of "pd_nboff pd" 8] by linarith
  show "src_bits (pd_normalize pd) = src_bits pd"
  proof (cases "8 \<le> pd_nboff pd")
    case True
    then show ?thesis by (simp add: src_bits_def pd_normalize_def d e del: drop_drop)
  qed (simp add: pd_normalize_def)
  show "pd_inv (pd_normalize pd)"
    using assms m unfolding pd_normalize_def pd_inv_def by (simp, linarith)
qed (auto simp: pd_normalize_def pd_pos_def)

text \<open>The octets a window of \<open>k\<close> octets holds, read as one big-endian number.\<close>

lemma window_value:
  assumes "pd_inv pd" "pd_nboff pd + n \<le> pd_nbits pd" "pd_nboff pd + n \<le> 8 * k"
    "pd_buffer pd + k \<le> length (pd_octets pd)"
  shows "bl_nat (take n (src_bits pd)) =
    bl_nat (bits_of (take k (drop (pd_buffer pd) (pd_octets pd)))) div 2 ^ (8 * k - (pd_nboff pd + n)) mod 2 ^ n"
proof -
  let ?B = "drop (pd_buffer pd) (pd_octets pd)" and ?o = "pd_nboff pd"
  have len: "length (bits_of (take k ?B)) = 8 * k" using assms(4) by simp
  have "take n (src_bits pd) = take n (drop ?o (bits_of ?B))"
    using assms(2) by (simp add: src_bits_def min_def)
  also have "\<dots> = take n (drop ?o (take (8 * k) (bits_of ?B)))"
    using assms(3) by (simp add: drop_take min_def)
  also have "\<dots> = take n (drop (?o + n - n) (bits_of (take k ?B)))" by (simp add: take_bits_of)
  finally show ?thesis
    using bl_nat_take_drop [of n "?o + n" "bits_of (take k ?B)"] assms(3) len by simp
qed

lemma unat_pd_buf: "unat (pd_buf pd i) = unat (pd_octets pd ! (pd_buffer pd + i))"
  using unat_byte_less [of "pd_octets pd ! (pd_buffer pd + i)"]
  by (simp add: pd_buf_def unsigned_ucast_eq take_bit_nat_eq_self del: unat_byte_less)

lemma length_src_normalized:
  assumes "pd_inv pd"
  shows "length (src_bits pd) = pd_nbits (pd_normalize pd) - pd_nboff (pd_normalize pd)"
  using length_src_bits [of "pd_normalize pd"] pd_normalize_facts [OF assms] by simp

lemma normalized_room:
  assumes "pd_inv pd" "n \<le> length (src_bits pd)"
  shows "pd_nboff (pd_normalize pd) + n \<le> pd_nbits (pd_normalize pd)"
  using assms(2) length_src_normalized [OF assms(1)] pd_normalize_facts(1) [OF assms(1)]
  unfolding pd_inv_def by linarith

lemma consumes_advance:
  assumes inv: "pd_inv pd" and n: "n \<le> length (src_bits pd)"
  shows "consumes pd (take n (src_bits pd)) (pd_advance pd n)"
proof -
  let ?p = "pd_normalize pd"
  note norm = pd_normalize_facts [OF inv]
  have room: "pd_nboff ?p + n \<le> pd_nbits ?p" using inv n by (rule normalized_room)
  have "drop n (src_bits ?p) = src_bits (pd_advance pd n)"
    using room by (simp add: src_bits_def pd_advance_def drop_take add.commute)
  then have "src_bits pd = take n (src_bits pd) @ src_bits (pd_advance pd n)"
    by (metis append_take_drop_id norm(2))
  moreover have "pd_inv (pd_advance pd n)"
    using norm(1) room by (simp add: pd_inv_def pd_advance_def)
  moreover have "pd_pos (pd_advance pd n) = pd_pos pd + n"
    using norm(4) by (simp add: pd_pos_def pd_advance_def)
  ultimately show ?thesis
    using inv n norm by (simp add: consumes_def pd_advance_def min_def)
qed

lemma src_bits_advance:
  "pd_inv pd \<Longrightarrow> n \<le> length (src_bits pd) \<Longrightarrow> src_bits (pd_advance pd n) = drop n (src_bits pd)"
  using consumes_advance [of pd n] unfolding consumes_def by (metis append_take_drop_id same_append_eq)

text \<open>Up to 31 bits past the last octet boundary are taken in one piece.\<close>

lemma get_few_bits_direct:
  assumes inv: "pd_inv pd" and n: "n \<le> length (src_bits pd)"
    and off: "pd_nboff (pd_normalize pd) + n \<le> 31"
  shows "asn_get_few_bits pd (int n) = (int (bl_nat (take n (src_bits pd))), pd_advance pd n)"
proof -
  let ?p = "pd_normalize pd" and ?q = "pd_advance pd n"
  let ?o = "pd_nboff (pd_normalize pd) + n"
  note norm = pd_normalize_facts [OF inv]
  have room: "?o \<le> pd_nbits ?p" using inv n by (rule normalized_room)
  have buf: "unat (pd_buf ?q i) = unat (pd_octets ?p ! (pd_buffer ?p + i))" for i
    by (simp add: unat_pd_buf pd_advance_def)
  have octs: "pd_nbits ?p \<le> 8 * (length (pd_octets ?p) - pd_buffer ?p)" "pd_buffer ?p \<le> length (pd_octets ?p)"
    using norm(1) by (simp_all add: pd_inv_def)
  have val: "bl_nat (take n (src_bits pd)) =
      bl_nat (bits_of (map (\<lambda>i. pd_octets ?p ! (pd_buffer ?p + i)) [0..<k])) div 2 ^ (8 * k - ?o) mod 2 ^ n"
    if "?o \<le> 8 * k" "8 * (k - 1) < ?o" for k
    using window_value [OF norm(1) room that(1)] that room octs norm(2)
    by (simp add: take_drop_octets)
  have lb: "low_bits a (int n) = int (unat a mod 2 ^ n)" for a
    using off by (simp add: low_bits_eq)
  have left: "\<not> int n > int (pd_nbits pd) - int (pd_nboff pd)"
    using n length_src_bits [OF inv] inv unfolding pd_inv_def by linarith
  have adv: "?p\<lparr>pd_moved := pd_moved ?p + n, pd_nboff := pd_nboff ?p + n\<rparr> = ?q"
    by (simp add: pd_advance_def)
  have qo: "pd_nboff ?q = ?o" by (simp add: pd_advance_def)
  note unf = asn_get_few_bits.simps [of pd "int n"] Let_def left adv qo lb
  consider "n = 0" | "n \<noteq> 0" "?o \<le> 8" | "8 < ?o" "?o \<le> 16" | "16 < ?o" "?o \<le> 24" | "24 < ?o"
    by linarith
  then show ?thesis
  proof cases
    case 1
    then show ?thesis using norm(6) left adv qo lb [of 0]
      by (simp add: asn_get_few_bits.simps [of pd 0] Let_def)
  next
    case 2
    then show ?thesis using val [of 1]
      by (simp add: unf buf bl_nat_append bitstr)
  next
    case 3
    then show ?thesis using val [of 2]
      by (simp add: unf be_words buf bl_nat_append bitstr upt_rec)
  next
    case 4
    then show ?thesis using val [of 3]
      by (simp add: unf be_words buf bl_nat_append bitstr upt_rec)
  next
    case 5
    then show ?thesis using val [of 4] off
      by (simp add: unf be_words buf bl_nat_append bitstr upt_rec numeral_3_eq_3)
  qed
qed

text \<open>Longer reads are split into the leading bits and the last 24.\<close>

lemma get_few_bits_split:
  assumes inv: "pd_inv pd" and n: "n \<le> length (src_bits pd)" "n \<le> 31"
    and off: "31 < pd_nboff (pd_normalize pd) + n"
  shows "asn_get_few_bits pd (int n) = (int (bl_nat (take n (src_bits pd))), pd_advance pd n)"
proof -
  let ?p = "pd_normalize pd" and ?q = "pd_advance pd n" and ?t = "pd_advance (pd_normalize pd) (n - 24)"
  let ?hi = "take (n - 24) (src_bits pd)" and ?lo = "take 24 (drop (n - 24) (src_bits pd))"
  note norm = pd_normalize_facts [OF inv]
  have n24: "24 < n" using off norm(6) by linarith
  have undo: "asn_get_undo ?q (int n) = ?p" by (simp add: asn_get_undo_def pd_advance_def)
  have pp: "pd_normalize ?p = ?p" using norm(6) by (simp add: pd_normalize_def)
  have "asn_get_few_bits ?p (int (n - 24)) = (int (bl_nat (take (n - 24) (src_bits ?p))), ?t)"
    by (rule get_few_bits_direct [OF norm(1)]) (use n norm pp in auto)
  then have g1: "asn_get_few_bits ?p (int n - 24) = (int (bl_nat ?hi), ?t)"
    using n24 norm(2) by (simp add: of_nat_diff)
  have t: "pd_inv ?t" "src_bits ?t = drop (n - 24) (src_bits pd)"
    using consumesD(2) [OF consumes_advance [OF norm(1), of "n - 24"]]
      src_bits_advance [OF norm(1), of "n - 24"] n norm(2) by simp_all
  have g2: "asn_get_few_bits ?t 24 = (int (bl_nat ?lo), pd_advance ?t 24)"
    using get_few_bits_direct [OF t(1), of 24] n n24 t pd_normalize_facts(6) [OF t(1)] by simp
  have len: "length ?lo = 24" "length ?hi = n - 24" using n n24 by simp_all
  have lt: "bl_nat ?lo < 2 ^ 24" "bl_nat ?hi < 2 ^ (n - 24)"
    using bl_nat_less [of ?lo] bl_nat_less [of ?hi] len by (simp_all only: )
  have "take n (src_bits pd) = ?hi @ ?lo"
    using n24 by (simp add: take_add [symmetric])
  then have v: "bl_nat (take n (src_bits pd)) = bl_nat ?hi * 2 ^ 24 + bl_nat ?lo"
    by (simp only: bl_nat_append len)
  have hi7: "bl_nat ?hi < 2 ^ 7"
    using lt(2) n(2) power_increasing [of "n - 24" 7 "2::nat"] by linarith
  have "unat (push_bit 24 (word_of_int (int (bl_nat ?hi))) OR word_of_int (int (bl_nat ?lo)) :: uint32)
      = push_bit 24 (bl_nat ?hi) OR bl_nat ?lo"
    using lt hi7 by (simp only: unsigned_or_eq unat_push_bit unat_of_nat of_int_of_nat_eq)
      (simp add: push_bit_eq_mult)
  moreover have "bl_nat (take n (src_bits pd)) < 2 ^ n"
    using bl_nat_less [of "take n (src_bits pd)"] n by simp
  ultimately have "low_bits (push_bit 24 (word_of_int (int (bl_nat ?hi))) OR word_of_int (int (bl_nat ?lo))) (int n)
      = int (bl_nat (take n (src_bits pd)))"
    using n lt(1) by (simp add: low_bits_eq nat_or_shift v)
  moreover have "\<not> int n > int (pd_nbits pd) - int (pd_nboff pd)"
    using n length_src_bits [OF inv] inv unfolding pd_inv_def by linarith
  moreover have "?p\<lparr>pd_moved := pd_moved ?p + n, pd_nboff := pd_nboff ?p + n\<rparr> = ?q"
    by (simp add: pd_advance_def)
  moreover have "pd_nboff ?q = pd_nboff ?p + n" by (simp add: pd_advance_def)
  ultimately show ?thesis
    using off n by (simp add: asn_get_few_bits.simps [of pd "int n"] Let_def undo g1 g2)
qed

lemma asn_get_few_bits_ok:
  assumes "pd_inv pd" "n \<le> length (src_bits pd)" "n \<le> 31"
  shows "asn_get_few_bits pd (int n) = (int (bl_nat (take n (src_bits pd))), pd_advance pd n)"
  using get_few_bits_direct [OF assms(1,2)] get_few_bits_split [OF assms]
  by (cases "pd_nboff (pd_normalize pd) + n \<le> 31") auto

lemma asn_get_few_bits_starved:
  assumes "pd_inv pd" "length (src_bits pd) < n"
  shows "asn_get_few_bits pd (int n) = (-1, pd)"
proof -
  have "int n > int (pd_nbits pd) - int (pd_nboff pd)"
    using assms length_src_bits [OF assms(1)] unfolding pd_inv_def by linarith
  then show ?thesis by (simp add: asn_get_few_bits.simps [of pd "int n"])
qed

text \<open>The form in which the decoders use the reader: the stream begins with the bits.\<close>

lemma get_few_bits_prefix:
  assumes "pd_inv pd" "src_bits pd = bs @ rest" "length bs = n" "n \<le> 31"
  obtains pd' where "asn_get_few_bits pd (int n) = (int (bl_nat bs), pd')" "consumes pd bs pd'"
    "src_bits pd' = rest"
proof
  have n: "n \<le> length (src_bits pd)" using assms by simp
  show "asn_get_few_bits pd (int n) = (int (bl_nat bs), pd_advance pd n)"
    using asn_get_few_bits_ok [OF assms(1) n assms(4)] assms by simp
  show "consumes pd bs (pd_advance pd n)"
    using consumes_advance [OF assms(1) n] assms by simp
  then show "src_bits (pd_advance pd n) = rest" using assms(2) by (simp add: consumes_def)
qed

lemma asn_get_few_bits_cases:
  assumes "pd_inv pd" "n \<le> 31"
  obtains (starved) "length (src_bits pd) < n" "asn_get_few_bits pd (int n) = (-1, pd)"
  | (got) bs pd' where "length bs = n" "asn_get_few_bits pd (int n) = (int (bl_nat bs), pd')"
      "consumes pd bs pd'"
proof (cases "length (src_bits pd) < n")
  case True
  then show ?thesis using asn_get_few_bits_starved [OF assms(1)] starved by blast
next
  case False
  then have n: "n \<le> length (src_bits pd)" by simp
  show ?thesis
    by (rule got [OF _ asn_get_few_bits_ok [OF assms(1) n assms(2)] consumes_advance [OF assms(1) n]])
      (use n in simp)
qed

lemma get_undo_few_bits:
  assumes "pd_inv pd" "n \<le> length (src_bits pd)" "n \<le> 31"
    "asn_get_few_bits pd (int n) = (v, pd')"
  shows "asn_get_undo pd' (int n) = pd_normalize pd"
proof -
  have "pd' = pd_advance pd n" using asn_get_few_bits_ok [OF assms(1-3)] assms(4) by simp
  then show ?thesis by (simp add: asn_get_undo_def pd_advance_def)
qed

section \<open>Reading many bits\<close>

lemma octet_of_nat: "octet (int v) k = word_of_nat (v div 2 ^ k)"
proof -
  have "drop_bit k (int v) = int (v div 2 ^ k)" by (simp add: drop_bit_eq_div zdiv_int)
  then show ?thesis by (simp only: octet_def of_int_of_nat_eq)
qed

lemma asn_get_tail_bits_ok:
  assumes "pd_inv pd" "n \<le> length (src_bits pd)" "0 < n" "n < 24"
  shows "asn_get_tail_bits pd (int n) = (0, octets_of (pad8 (take n (src_bits pd))), pd_advance pd n)"
proof -
  let ?bs = "take n (src_bits pd)"
  have len: "length ?bs = n" using assms by simp
  have g: "asn_get_few_bits pd (int n) = (int (bl_nat ?bs), pd_advance pd n)"
    using assms by (intro asn_get_few_bits_ok) auto
  have m: "int n mod 8 = int (n mod 8)" by (simp add: zmod_int)
  have shift: "(if int n mod 8 \<noteq> 0 then push_bit (nat (8 - int n mod 8)) (int (bl_nat ?bs)) else int (bl_nat ?bs))
      = int (bl_nat (pad8 ?bs))"
    unfolding m using len by (auto simp: bl_nat_pad8 push_bit_eq_mult nat_diff_distrib' simp flip: of_nat_diff)
  have size: "(if int n mod 8 \<noteq> 0 then int n + (8 - int n mod 8) else int n) = int (length (pad8 ?bs))"
    unfolding m using arg_cong [OF pad8_amount [of n], of int] len
    by (auto simp: of_nat_diff simp del: length_take)
  have "length (pad8 ?bs) = 8 \<or> length (pad8 ?bs) = 16 \<or> length (pad8 ?bs) = 24"
    using assms len by (simp del: length_take, presburger)
  then show ?thesis
    unfolding asn_get_tail_bits_def g Let_def prod.case shift size
    using octets_of_short [of "pad8 ?bs"] by (elim disjE) (simp_all add: octet_of_nat del: length_pad8)
qed

lemma asn_get_bits_loop_ok:
  assumes "pd_inv pd" "src_bits pd = bs @ rest"
  shows "\<exists>pd'. asn_get_bits_loop pd (int (length bs)) = (0, octets_of (pad8 bs), pd') \<and>
    consumes pd bs pd' \<and> src_bits pd' = rest"
  using assms
proof (induction "length bs" arbitrary: bs pd rule: less_induct)
  case less
  let ?n = "length bs"
  note unf = asn_get_bits_loop.simps [of pd "int (length bs)"]
  consider "?n = 0" | "0 < ?n" "?n < 24" | "24 \<le> ?n" by linarith
  then show ?case
  proof cases
    case 1
    then show ?thesis
      using less.prems consumes_refl [of pd]
      by (simp add: asn_get_bits_loop.simps [of pd 0] pad8_def octets_of.simps)
  next
    case 2
    then have n: "?n \<le> length (src_bits pd)" "take ?n (src_bits pd) = bs"
      using less.prems by simp_all
    have "asn_get_bits_loop pd (int ?n) = (0, octets_of (pad8 bs), pd_advance pd ?n)"
      using asn_get_tail_bits_ok [OF less.prems(1) n(1) 2] 2 n(2) by (simp add: unf)
    moreover have "consumes pd bs (pd_advance pd ?n)"
      using consumes_advance [OF less.prems(1) n(1)] n(2) by simp
    moreover have "src_bits (pd_advance pd ?n) = rest"
      using src_bits_advance [OF less.prems(1) n(1)] less.prems(2) by simp
    ultimately show ?thesis by blast
  next
    case 3
    let ?hd = "take 24 bs" and ?tl = "drop 24 bs"
    have len: "length ?hd = 24" "length ?tl = ?n - 24" using 3 by simp_all
    have "src_bits pd = ?hd @ (?tl @ rest)" using less.prems(2) by simp
    from get_few_bits_prefix [OF less.prems(1) this len(1)] obtain p where
      g: "asn_get_few_bits pd 24 = (int (bl_nat ?hd), p)" and c: "consumes pd ?hd p"
      and r: "src_bits p = ?tl @ rest" by auto
    have "length ?tl < ?n" using 3 by simp
    from less.hyps [OF this consumesD(2) [OF c] r] obtain pd' where
      l: "asn_get_bits_loop p (int (length ?tl)) = (0, octets_of (pad8 ?tl), pd')"
        "consumes p ?tl pd'" "src_bits pd' = rest" by blast
    have "octets_of (pad8 bs) = octets_of ?hd @ octets_of (pad8 ?tl)"
      using pad8_append [of ?hd ?tl] octets_of_append [of ?hd "pad8 ?tl"] len(1) by simp
    also have "octets_of ?hd = [octet (int (bl_nat ?hd)) 16, octet (int (bl_nat ?hd)) 8, octet (int (bl_nat ?hd)) 0]"
      using octets_of_short(3) [OF len(1)] by (simp add: octet_of_nat)
    finally have "asn_get_bits_loop pd (int ?n) = (0, octets_of (pad8 bs), pd')"
      using 3 l(1) len(2) by (auto simp: unf g of_nat_diff)
    moreover have "consumes pd bs pd'" using consumes_trans [OF c l(2)] by simp
    ultimately show ?thesis using l(3) by blast
  qed
qed

lemma asn_get_bits_loop_starved:
  assumes "pd_inv pd" "length (src_bits pd) < n"
  shows "fst (asn_get_bits_loop pd (int n)) = -1"
  using assms
proof (induction n arbitrary: pd rule: less_induct)
  case (less n)
  note unf = asn_get_bits_loop.simps [of pd "int n"]
  show ?case
  proof (cases "n < 24")
    case True
    then show ?thesis
      using less.prems by (simp add: unf asn_get_tail_bits_def asn_get_few_bits_starved)
  next
    case False
    have "(24::nat) \<le> 31" by simp
    with less.prems(1) show ?thesis
    proof (cases rule: asn_get_few_bits_cases)
      case starved
      then show ?thesis using False by (simp add: unf)
    next
      case (got bs p)
      then have "length (src_bits p) < n - 24" using less.prems(2) False by (auto simp: consumes_def)
      then have "fst (asn_get_bits_loop p (int (n - 24))) = -1"
        using less.IH [of "n - 24" p] got(3) False by (simp add: consumes_def)
      then show ?thesis using False got(2) by (auto simp: unf of_nat_diff split: prod.splits)
    qed
  qed
qed

lemma asn_get_many_bits_ok:
  assumes "pd_inv pd" "src_bits pd = bs @ rest"
  obtains pd' where "asn_get_many_bits pd False (int (length bs)) = (0, octets_of (pad8 bs), pd')"
    "consumes pd bs pd'" "src_bits pd' = rest"
  using asn_get_bits_loop_ok [OF assms] by (auto simp: asn_get_many_bits_def)

lemma asn_get_many_bits_octets:
  assumes "pd_inv pd" "src_bits pd = bits_of bs @ rest"
  obtains pd' where "asn_get_many_bits pd False (8 * int (length bs)) = (0, bs, pd')"
    "consumes pd (bits_of bs) pd'" "src_bits pd' = rest"
  using asn_get_many_bits_ok [OF assms] that by (auto simp: octets_of_bits_of)

lemma asn_get_many_bits_starved:
  assumes "pd_inv pd" "length (src_bits pd) < n"
  shows "fst (asn_get_many_bits pd False (int n)) = -1"
  using asn_get_bits_loop_starved [OF assms] by (simp add: asn_get_many_bits_def)

end
