(* ===== verification/Byte_Sinks.thy ===== *)
theory Byte_Sinks
  imports Asn_Prelude
begin

text \<open>
  The byte consumers (\<open>asn_app_consume_bytes_f\<close>) the encoders write to. A consumer is
  a function that is given octets and its key and returns a status and the new key. The
  \<open>void *\<close> key is the sum of the key structures the repository passes: none
  (\<open>ignore_output\<close>), the fixed buffer of \<open>uper_encode_to_buffer\<close>, the growing
  buffer of \<open>uper_encode_to_new_buffer\<close>, the element buffer of
  \<open>constr_SET_OF.c\<close> and the \<open>ByteBuffer\<close> of \<open>asn1c_wrapper.cpp\<close>.
  Allocation always succeeds in the model. The locale \<open>byte_consumer\<close> is the
  contract an encoder relies on, interpreted on each consumer; \<open>absorbs\<close> is what a
  total consumer guarantees for every sequence of calls.
\<close>

record enc_to_buf_arg =
  tb_buffer :: "byte list"
  tb_left :: nat

record enc_dyn_arg =
  dyn_buffer :: "byte list"
  dyn_allocated :: nat

record el_buffer =
  el_buf :: "byte list"
  el_bits_unused :: nat
  el_allocated :: nat

datatype op_key =
    Key_none
  | Key_to_buf enc_to_buf_arg
  | Key_dyn enc_dyn_arg
  | Key_el el_buffer
  | Key_vector "byte list"

type_synonym consume_bytes = "byte list \<Rightarrow> op_key \<Rightarrow> int \<times> op_key"

fun key_contents :: "op_key \<Rightarrow> byte list" where
  "key_contents Key_none = []"
| "key_contents (Key_to_buf a) = tb_buffer a"
| "key_contents (Key_dyn a) = dyn_buffer a"
| "key_contents (Key_el a) = el_buf a"
| "key_contents (Key_vector bs) = bs"

definition ignore_output :: consume_bytes where
  "ignore_output octs key = (0, key)"

definition encode_to_buffer_cb :: consume_bytes where
  "encode_to_buffer_cb octs key =
     (case key of
        Key_to_buf a \<Rightarrow>
          if tb_left a < length octs then (-1, key)
          else (0, Key_to_buf \<lparr>tb_buffer = tb_buffer a @ octs, tb_left = tb_left a - length octs\<rparr>)
      | _ \<Rightarrow> (-1, key))"

text \<open>The growth loop \<open>do new_size <<= 2; while (needed >= new_size)\<close>.\<close>

function grow_ge :: "nat \<Rightarrow> nat \<Rightarrow> nat" where
  "grow_ge needed new_size =
     (if new_size = 0 then 0
      else let n = new_size * 4 in if needed \<ge> n then grow_ge needed n else n)"
  by pat_completeness auto
termination
  by (relation "measure (\<lambda>(needed, new_size). needed - new_size)") auto

declare grow_ge.simps [simp del]

definition encode_dyn_cb :: consume_bytes where
  "encode_dyn_cb octs key =
     (case key of
        Key_dyn a \<Rightarrow>
          let needed = length (dyn_buffer a) + length octs;
              alloc = (if needed \<ge> dyn_allocated a
                       then grow_ge needed (if dyn_allocated a \<noteq> 0 then dyn_allocated a else 8)
                       else dyn_allocated a)
          in (0, Key_dyn \<lparr>dyn_buffer = dyn_buffer a @ octs, dyn_allocated = alloc\<rparr>)
      | _ \<Rightarrow> (-1, key))"

text \<open>The same loop with a strict comparison, \<open>while (needed > new_size)\<close>.\<close>

function grow_gt :: "nat \<Rightarrow> nat \<Rightarrow> nat" where
  "grow_gt needed new_size =
     (if new_size = 0 then 0
      else let n = new_size * 4 in if needed > n then grow_gt needed n else n)"
  by pat_completeness auto
termination
  by (relation "measure (\<lambda>(needed, new_size). needed - new_size)") auto

declare grow_gt.simps [simp del]

definition el_addbytes :: consume_bytes where
  "el_addbytes octs key =
     (case key of
        Key_el a \<Rightarrow>
          let needed = length (el_buf a) + length octs;
              alloc = (if needed > el_allocated a
                       then grow_gt needed (if el_allocated a \<noteq> 0 then el_allocated a else 8)
                       else el_allocated a)
          in (0, Key_el \<lparr>el_buf = el_buf a @ octs, el_bits_unused = el_bits_unused a,
                         el_allocated = alloc\<rparr>)
      | _ \<Rightarrow> (-1, key))"

definition write_buffer :: consume_bytes where
  "write_buffer octs key =
     (case key of Key_vector bs \<Rightarrow> (0, Key_vector (bs @ octs)) | _ \<Rightarrow> (-1, key))"

definition write_null :: consume_bytes where
  "write_null octs key = (0, key)"

section \<open>The contract of a consumer\<close>

text \<open>The calls of an encoder, stopped at the first refusal.\<close>

primrec feed :: "consume_bytes \<Rightarrow> byte list list \<Rightarrow> op_key \<Rightarrow> int \<times> op_key" where
  "feed cb [] k = (0, k)"
| "feed cb (x # xs) k = (case cb x k of (r, k') \<Rightarrow> if r < 0 then (-1, k') else feed cb xs k')"

locale byte_consumer =
  fixes cb :: consume_bytes and key_ok :: "op_key \<Rightarrow> bool"
  assumes accepts: "key_ok k \<Longrightarrow> cb octs k = (r, k') \<Longrightarrow> 0 \<le> r \<Longrightarrow>
      key_ok k' \<and> key_contents k' = key_contents k @ octs"
    and refuses: "key_ok k \<Longrightarrow> cb octs k = (r, k') \<Longrightarrow> r < 0 \<Longrightarrow> k' = k"
begin

lemma feed_contents:
  "key_ok k \<Longrightarrow> feed cb xs k = (r, k') \<Longrightarrow>
    \<exists>n \<le> length xs. key_contents k' = key_contents k @ concat (take n xs) \<and> (r = 0 \<longrightarrow> n = length xs)"
proof (induction xs arbitrary: k)
  case Nil
  then show ?case by simp
next
  case (Cons x xs)
  obtain s k1 where cb: "cb x k = (s, k1)" by fastforce
  show ?case
  proof (cases "s < 0")
    case True
    then have "k' = k" "r = -1" using Cons.prems cb refuses [OF Cons.prems(1) cb] by auto
    then show ?thesis by (intro exI [of _ 0]) simp
  next
    case False
    then have k1: "key_ok k1" "key_contents k1 = key_contents k @ x"
      using accepts [OF Cons.prems(1) cb] by auto
    have "feed cb xs k1 = (r, k')" using Cons.prems(2) False cb by simp
    from Cons.IH [OF k1(1) this] obtain n where
      "n \<le> length xs" "key_contents k' = key_contents k1 @ concat (take n xs)" "r = 0 \<longrightarrow> n = length xs"
      by blast
    then show ?thesis using k1(2) by (intro exI [of _ "Suc n"]) auto
  qed
qed

end

text \<open>A consumer that never refuses.\<close>

locale total_consumer = byte_consumer +
  assumes total: "key_ok k \<Longrightarrow> \<exists>k'. cb octs k = (0, k')"
begin

lemma feed_all: "key_ok k \<Longrightarrow> \<exists>k'. feed cb xs k = (0, k') \<and> key_contents k' = key_contents k @ concat xs"
proof (induction xs arbitrary: k)
  case (Cons x xs)
  obtain k1 where cb: "cb x k = (0, k1)" using total [OF Cons.prems] by blast
  have k1: "key_ok k1" "key_contents k1 = key_contents k @ x"
    using accepts [OF Cons.prems cb] by auto
  show ?case using Cons.IH [OF k1(1)] cb k1(2) by auto
qed simp

end

definition absorbs :: "consume_bytes \<Rightarrow> op_key \<Rightarrow> bool" where
  "absorbs cb k \<longleftrightarrow> (\<exists>I. I k \<and>
     (\<forall>k octs. I k \<longrightarrow> (\<exists>k'. cb octs k = (0, k') \<and> I k' \<and> key_contents k' = key_contents k @ octs)))"

lemma absorbsE:
  assumes "absorbs cb k"
  obtains k' where "cb octs k = (0, k')" "absorbs cb k'" "key_contents k' = key_contents k @ octs"
proof -
  from assms obtain I where I: "I k" and step: "\<And>k octs. I k \<Longrightarrow>
      \<exists>k'. cb octs k = (0, k') \<and> I k' \<and> key_contents k' = key_contents k @ octs"
    by (auto simp: absorbs_def)
  from step [OF I, of octs] obtain k' where
    k': "cb octs k = (0, k')" "I k'" "key_contents k' = key_contents k @ octs" by blast
  have "absorbs cb k'" unfolding absorbs_def using k'(2) step by blast
  with k' that show ?thesis by blast
qed

context total_consumer
begin

lemma ok_absorbs: "key_ok k \<Longrightarrow> absorbs cb k"
proof -
  assume "key_ok k"
  moreover have "\<exists>k'. cb octs k = (0, k') \<and> key_ok k' \<and> key_contents k' = key_contents k @ octs"
    if ok: "key_ok k" for k octs
  proof -
    obtain k' where "cb octs k = (0, k')" using total [OF ok] by blast
    then show ?thesis using accepts [OF ok] by auto
  qed
  ultimately show ?thesis unfolding absorbs_def by blast
qed

end

abbreviation is_dyn :: "op_key \<Rightarrow> bool" where "is_dyn k \<equiv> \<exists>a. k = Key_dyn a"
abbreviation is_el :: "op_key \<Rightarrow> bool" where "is_el k \<equiv> \<exists>a. k = Key_el a"
abbreviation is_vector :: "op_key \<Rightarrow> bool" where "is_vector k \<equiv> \<exists>a. k = Key_vector a"
abbreviation is_to_buf :: "op_key \<Rightarrow> bool" where "is_to_buf k \<equiv> \<exists>a. k = Key_to_buf a"

interpretation to_buf: byte_consumer encode_to_buffer_cb is_to_buf
  by unfold_locales (auto simp: encode_to_buffer_cb_def split: if_splits)

interpretation dyn: total_consumer encode_dyn_cb is_dyn
  by unfold_locales (auto simp: encode_dyn_cb_def Let_def)

interpretation el: total_consumer el_addbytes is_el
  by unfold_locales (auto simp: el_addbytes_def Let_def)

interpretation vector: total_consumer write_buffer is_vector
  by unfold_locales (auto simp: write_buffer_def)

section \<open>The buffers are large enough\<close>

lemma grow_ge_large: "0 < n \<Longrightarrow> needed < grow_ge needed n"
proof (induction needed n rule: grow_ge.induct)
  case (1 needed n)
  then show ?case by (subst grow_ge.simps) (auto simp: Let_def)
qed

lemma grow_gt_large: "0 < n \<Longrightarrow> needed \<le> grow_gt needed n"
proof (induction needed n rule: grow_gt.induct)
  case (1 needed n)
  then show ?case by (subst grow_gt.simps) (auto simp: Let_def)
qed

text \<open>
  The growing buffers never overflow. After \<open>encode_dyn_cb\<close> the
  allocation is strictly larger than the octets it holds (room for a terminator), and
  after \<open>_el_addbytes\<close> it is at least as large, whatever the previous allocation.
\<close>

theorem dynamic_buffers_fit:
  "(\<exists>b. encode_dyn_cb octs (Key_dyn a) = (0, Key_dyn b) \<and>
      dyn_buffer b = dyn_buffer a @ octs \<and> length (dyn_buffer b) < dyn_allocated b) \<and>
   (\<exists>d. el_addbytes octs (Key_el c) = (0, Key_el d) \<and>
      el_buf d = el_buf c @ octs \<and> length (el_buf d) \<le> el_allocated d)"
  using grow_ge_large [of "if dyn_allocated a \<noteq> 0 then dyn_allocated a else 8"]
    grow_gt_large [of "if el_allocated c \<noteq> 0 then el_allocated c else 8"]
  by (auto simp: encode_dyn_cb_def el_addbytes_def Let_def)

text \<open>
  \<open>uper_encode_to_buffer\<close> never writes past the caller's buffer. However
  many pieces the encoder hands over, the octets stored and the room left always add up to
  the buffer size, what is stored is a prefix of the output, and success means all of it.
\<close>

theorem encode_to_buffer_within_bounds:
  assumes "feed encode_to_buffer_cb xs (Key_to_buf \<lparr>tb_buffer = [], tb_left = bsize\<rparr>) = (r, Key_to_buf a)"
  shows "length (tb_buffer a) + tb_left a = bsize \<and>
    (\<exists>n \<le> length xs. tb_buffer a = concat (take n xs) \<and> (r = 0 \<longrightarrow> n = length xs))"
proof
  have "feed encode_to_buffer_cb xs (Key_to_buf b) = (r, Key_to_buf a) \<Longrightarrow>
      length (tb_buffer a) + tb_left a = length (tb_buffer b) + tb_left b" for b
    by (induction xs arbitrary: b) (auto simp: encode_to_buffer_cb_def split: if_splits)
  from this [OF assms] show "length (tb_buffer a) + tb_left a = bsize" by simp
  show "\<exists>n \<le> length xs. tb_buffer a = concat (take n xs) \<and> (r = 0 \<longrightarrow> n = length xs)"
    using to_buf.feed_contents [OF _ assms] by simp
qed

theorem encode_to_buffer_within_bounds_witness:
  "length (tb_buffer \<lparr>tb_buffer = [1, 2], tb_left = 1\<rparr>) + tb_left \<lparr>tb_buffer = [1, 2], tb_left = 1\<rparr> = 3"
proof -
  have "feed encode_to_buffer_cb [[1, 2], [3, 4]] (Key_to_buf \<lparr>tb_buffer = [], tb_left = 3\<rparr>) =
      (-1, Key_to_buf \<lparr>tb_buffer = [1, 2], tb_left = 1\<rparr>)"
    by (simp add: encode_to_buffer_cb_def)
  from encode_to_buffer_within_bounds [OF this] show ?thesis by simp
qed

end
