(* ===== verification/Bit_Output.thy ===== *)
theory Bit_Output
  imports Byte_Sinks
begin

unbundle bit_operations_syntax

text \<open>
  Writing bits: the output half of \<open>support/asn_bit_data.c\<close>. An
  \<open>asn_bit_outp_t\<close> collects bits in the 32 octets of \<open>tmpspace\<close> and hands
  complete octets to its consumer when the space runs out. \<open>po_buffer\<close> is the
  pointer into \<open>tmpspace\<close> (\<open>None\<close> for the null pointer of a zeroed
  structure). The abstract view of the writer is the bit string written so far
  (\<open>out_bits\<close>): the octets the consumer holds followed by the pending bits. The
  lemmas show that every writer appends exactly its bits to it, across flushes.
\<close>

record asn_bit_outp =
  po_buffer :: "nat option"
  po_nboff :: nat
  po_nbits :: nat
  po_tmpspace :: "byte list"
  po_output :: consume_bytes
  po_op_key :: op_key
  po_flushed_bytes :: nat

definition po_idx :: "asn_bit_outp \<Rightarrow> nat" where
  "po_idx po = (case po_buffer po of None \<Rightarrow> 0 | Some b \<Rightarrow> b)"

definition po_normalize :: "asn_bit_outp \<Rightarrow> asn_bit_outp" where
  "po_normalize po =
     (if po_nboff po \<ge> 8
      then po\<lparr>po_buffer := map_option (\<lambda>b. b + po_nboff po div 8) (po_buffer po),
              po_nbits := po_nbits po - (po_nboff po - po_nboff po mod 8),
              po_nboff := po_nboff po mod 8\<rparr>
      else po)"

text \<open>Flush whole-bytes output, if necessary: the status and the writer with room.\<close>

definition po_make_room :: "asn_bit_outp \<Rightarrow> nat \<Rightarrow> int \<times> asn_bit_outp" where
  "po_make_room po obits =
     (if po_nboff po + obits > po_nbits po then
        let po1 = po\<lparr>po_buffer := Some (po_idx po)\<rparr>;
            complete_bytes = po_idx po1
        in (case po_output po1 (take complete_bytes (po_tmpspace po1)) (po_op_key po1) of (r, key) \<Rightarrow>
              if r < 0 then (-1, po1\<lparr>po_op_key := key\<rparr>)
              else (0, po1\<lparr>po_op_key := key,
                 po_tmpspace := (if po_nboff po1 \<noteq> 0
                                 then (po_tmpspace po1)[0 := po_tmpspace po1 ! complete_bytes]
                                 else po_tmpspace po1),
                 po_buffer := Some 0, po_nbits := 8 * 32,
                 po_flushed_bytes := po_flushed_bytes po1 + complete_bytes\<rparr>))
      else (0, po))"

text \<open>The octets of \<open>bits\<close>, already shifted to the end of \<open>k\<close> octets, behind
  the meaningful bits of the first one.\<close>

definition store_octets :: "byte \<Rightarrow> nat \<Rightarrow> uint32 \<Rightarrow> nat \<Rightarrow> byte list" where
  "store_octets b0 nboff bits k =
     ((b0 AND NOT (push_bit (8 - nboff) 1 - 1)) OR ucast (drop_bit (8 * (k - 1)) bits)) #
     map (\<lambda>i. ucast (drop_bit (8 * (k - 2 - i)) bits)) [0..<k - 1]"

definition po_store :: "asn_bit_outp \<Rightarrow> uint32 \<Rightarrow> nat \<Rightarrow> nat \<Rightarrow> asn_bit_outp" where
  "po_store po bits off k =
     (let i = po_idx po; tmp = po_tmpspace po
      in po\<lparr>po_nboff := off,
            po_tmpspace := take i tmp @
              store_octets (tmp ! i) (po_nboff po) (push_bit (8 * k - off) bits) k @ drop (i + k) tmp\<rparr>)"

lemma po_make_room_nboff: "po_make_room po n = (r, po') \<Longrightarrow> po_nboff po' = po_nboff po"
  by (auto simp: po_make_room_def Let_def split: if_splits prod.splits)

lemma po_normalize_nboff: "po_nboff (po_normalize po) < 8"
  by (simp add: po_normalize_def)

lemma po_room_nboff: "(r, po') = po_make_room (po_normalize po) n \<Longrightarrow> po_nboff po' < 8"
  by (metis po_make_room_nboff po_normalize_nboff)

function asn_put_few_bits :: "asn_bit_outp \<Rightarrow> uint32 \<Rightarrow> int \<Rightarrow> int \<times> asn_bit_outp" where
  "asn_put_few_bits po bits obits =
     (if obits \<le> 0 \<or> obits \<ge> 32 then (if obits \<noteq> 0 then -1 else 0, po)
      else case po_make_room (po_normalize po) (nat obits) of (r, po2) \<Rightarrow>
        if r \<noteq> 0 then (-1, po2)
        else
          let off = po_nboff po2 + nat obits;
              bits1 = bits AND (push_bit (nat obits) 1 - 1)
          in
          if off \<le> 8 then (0, po_store po2 bits1 off 1)
          else if off \<le> 16 then (0, po_store po2 bits1 off 2)
          else if off \<le> 24 then (0, po_store po2 bits1 off 3)
          else if off \<le> 31 then (0, po_store po2 bits1 off 4)
          else
            (case asn_put_few_bits po2 (drop_bit (nat (obits - 24)) bits1) 24 of (r1, po3) \<Rightarrow>
               if r1 \<noteq> 0 then (-1, po3)
               else case asn_put_few_bits po3 bits1 (obits - 24) of (r2, po4) \<Rightarrow>
                 if r2 \<noteq> 0 then (-1, po4) else (0, po4)))"
  by pat_completeness auto
termination
  by (relation "measure (\<lambda>(po, bits, obits). nat obits)") (auto dest: po_room_nboff)

declare asn_put_few_bits.simps [simp del]

text \<open>
  \<open>src\<close> is the list of octets from the pointer on; \<open>put_tail_value\<close> is the value
  that the last round, with fewer than 24 bits left, builds from them.
\<close>

definition put_tail_value :: "byte list \<Rightarrow> int \<Rightarrow> uint32" where
  "put_tail_value src nbits =
     (let v0 = ucast (src ! 0);
          v1 = (if nbits > 8 then push_bit 8 v0 OR ucast (src ! 1) else v0);
          v2 = (if nbits > 16 then push_bit 8 v1 OR ucast (src ! 2) else v1)
      in if nbits mod 8 \<noteq> 0 then drop_bit (nat (8 - nbits mod 8)) v2 else v2)"

function asn_put_many_bits :: "asn_bit_outp \<Rightarrow> byte list \<Rightarrow> int \<Rightarrow> int \<times> asn_bit_outp" where
  "asn_put_many_bits po src nbits =
     (if nbits = 0 then (0, po)
      else if nbits \<ge> 24 then
        (case asn_put_few_bits po (push_bit 16 (ucast (src ! 0)) OR push_bit 8 (ucast (src ! 1)) OR ucast (src ! 2)) 24
         of (r, po') \<Rightarrow> if r \<noteq> 0 then (-1, po') else asn_put_many_bits po' (drop 3 src) (nbits - 24))
      else (case asn_put_few_bits po (put_tail_value src nbits) nbits of (r, po') \<Rightarrow>
              if r \<noteq> 0 then (-1, po') else (0, po')))"
  by pat_completeness auto
termination
  by (relation "measure (\<lambda>(po, src, nbits). nat nbits)") auto

declare asn_put_many_bits.simps [simp del]

definition asn_put_aligned_flush :: "asn_bit_outp \<Rightarrow> int \<times> asn_bit_outp" where
  "asn_put_aligned_flush po =
     (let unused_bits = (8 - po_nboff po mod 8) mod 8;
          complete_bytes = po_idx po + (po_nboff po + 7) div 8;
          j = po_idx po + po_nboff po div 8;
          tmp = (if unused_bits \<noteq> 0
                 then (po_tmpspace po)[j := (po_tmpspace po ! j) AND push_bit unused_bits (NOT 0)]
                 else po_tmpspace po)
      in (case po_output po (take complete_bytes tmp) (po_op_key po) of (r, key) \<Rightarrow>
            if r < 0 then (-1, po\<lparr>po_op_key := key, po_tmpspace := tmp\<rparr>)
            else (0, po\<lparr>po_op_key := key, po_tmpspace := tmp, po_buffer := Some 0, po_nboff := 0,
                        po_nbits := 8 * 32,
                        po_flushed_bytes := po_flushed_bytes po + complete_bytes\<rparr>)))"

section \<open>The bit string written so far\<close>

definition po_inv :: "asn_bit_outp \<Rightarrow> bool" where
  "po_inv po \<longleftrightarrow> length (po_tmpspace po) = 32 \<and> absorbs (po_output po) (po_op_key po) \<and>
     (case po_buffer po of
        None \<Rightarrow> po_nboff po = 0 \<and> po_nbits po = 0
      | Some b \<Rightarrow> b \<le> 32 \<and> po_nbits po = 8 * (32 - b) \<and> po_nboff po \<le> po_nbits po)"

definition pending :: "asn_bit_outp \<Rightarrow> bool list" where
  "pending po = take (8 * po_idx po + po_nboff po) (bits_of (po_tmpspace po))"

definition out_bits :: "asn_bit_outp \<Rightarrow> bool list" where
  "out_bits po = bits_of (key_contents (po_op_key po)) @ pending po"

text \<open>
  \<open>puts po bs po'\<close>: the writer has appended \<open>bs\<close>; the octets handed over since
  are counted in \<open>po_flushed_bytes\<close>.
\<close>

definition puts :: "asn_bit_outp \<Rightarrow> bool list \<Rightarrow> asn_bit_outp \<Rightarrow> bool" where
  "puts po bs po' \<longleftrightarrow> po_inv po \<and> po_inv po' \<and> out_bits po' = out_bits po @ bs \<and>
     po_output po' = po_output po \<and>
     po_flushed_bytes po' + length (key_contents (po_op_key po)) =
       po_flushed_bytes po + length (key_contents (po_op_key po'))"

lemma puts_refl: "po_inv po \<Longrightarrow> puts po [] po"
  by (simp add: puts_def)

lemma puts_trans: "puts p xs q \<Longrightarrow> puts q ys r \<Longrightarrow> puts p (xs @ ys) r"
  by (auto simp: puts_def)

lemma puts_inv: "puts p xs q \<Longrightarrow> po_inv q"
  by (simp add: puts_def)

lemma bits_of_store:
  assumes "0 < k" "q < 8" "unat bits < 2 ^ (8 * k - q)"
  shows "bits_of (store_octets b q bits k) = take q (byte_bits b) @ nat_bl (8 * k - q) (unat bits)"
proof -
  have e: "8 * k - q = (8 - q) + 8 * (k - 1)" using assms by (cases k) auto
  have "unat bits div 2 ^ (8 * (k - 1)) < 2 ^ (8 - q)"
    using assms(3) e by (simp add: div_less_iff_less_mult power_add mult.commute)
  then show ?thesis
    unfolding e nat_bl_octets [OF assms(1)] store_octets_def ucast_byte
    using assms(2) byte_bits_keep_high [of q "unat bits div 2 ^ (8 * (k - 1))" b]
    by (simp add: byte_bits_of_nat bits_of_def comp_def)
qed

lemma pending_split:
  assumes "length (po_tmpspace po) = 32" "po_idx po < 32" "po_nboff po < 8"
  shows "pending po = bits_of (take (po_idx po) (po_tmpspace po)) @
    take (po_nboff po) (byte_bits (po_tmpspace po ! po_idx po))"
proof -
  let ?b = "po_idx po" and ?t = "po_tmpspace po"
  have "?t = take ?b ?t @ ?t ! ?b # drop (Suc ?b) ?t"
    using assms by (simp add: id_take_nth_drop)
  then have "bits_of ?t = bits_of (take ?b ?t) @ byte_bits (?t ! ?b) @ bits_of (drop (Suc ?b) ?t)"
    by (metis bits_of_simps(2,3))
  then show ?thesis using assms by (simp add: pending_def)
qed

lemma po_normalize_puts:
  assumes inv: "po_inv po"
  shows "puts po [] (po_normalize po)"
proof -
  have "8 * (b + po_nboff po div 8) + po_nboff po mod 8 = 8 * b + po_nboff po" for b
    by (simp add: distrib_left add.assoc)
  then have "pending (po_normalize po) = pending po"
    using inv by (auto simp: pending_def po_normalize_def po_idx_def po_inv_def add.commute split: option.splits)
  moreover obtain q r where qr: "po_nboff po = 8 * q + r" "r < 8"
    by (metis mult.commute div_mult_mod_eq mod_less_divisor zero_less_numeral)
  then have "po_inv (po_normalize po)"
    using inv unfolding po_inv_def po_normalize_def
    by (cases "po_buffer po") auto
  ultimately show ?thesis using inv by (simp add: puts_def out_bits_def po_normalize_def)
qed

lemma po_make_room_puts:
  assumes inv: "po_inv po" and nb: "po_nboff po < 8" and n: "0 < n" "n \<le> 31"
  obtains po' where "po_make_room po n = (0, po')" "puts po [] po'"
    "po_nboff po' = po_nboff po" "po_nboff po' + n \<le> po_nbits po'"
proof (cases "po_nboff po + n > po_nbits po")
  case False
  with that [of po] inv show ?thesis by (simp add: po_make_room_def puts_refl)
next
  case True
  let ?b = "po_idx po" and ?t = "po_tmpspace po"
  have t: "length ?t = 32" and b: "?b \<le> 32" "po_nboff po \<noteq> 0 \<Longrightarrow> ?b < 32"
    using inv by (auto simp: po_inv_def po_idx_def split: option.splits)
  from inv obtain key where key: "po_output po (take ?b ?t) (po_op_key po) = (0, key)"
    "absorbs (po_output po) key" "key_contents key = key_contents (po_op_key po) @ take ?b ?t"
    by (auto simp: po_inv_def elim: absorbsE)
  let ?t' = "if po_nboff po \<noteq> 0 then ?t[0 := ?t ! ?b] else ?t"
  let ?po' = "po\<lparr>po_op_key := key, po_tmpspace := ?t', po_buffer := Some 0, po_nbits := 256,
     po_flushed_bytes := po_flushed_bytes po + ?b\<rparr>"
  have r: "po_make_room po n = (0, ?po')"
    using True key(1) by (simp add: po_make_room_def Let_def po_idx_def)
  have inv': "po_inv ?po'" using t nb key(2) by (simp add: po_inv_def)
  have "pending po = bits_of (take ?b ?t) @ pending ?po'"
  proof (cases "po_nboff po = 0")
    case True
    then show ?thesis by (simp add: pending_def po_idx_def take_bits_of)
  next
    case False
    have "pending ?po' = take (po_nboff po) (byte_bits (?t ! ?b))"
      using pending_split [of ?po'] t nb False by (simp add: po_idx_def)
    then show ?thesis using pending_split [OF t b(2) [OF False] nb] by simp
  qed
  then have "puts po [] ?po'"
    using inv inv' key(3) b(1) t by (simp add: puts_def out_bits_def)
  with r that nb n show ?thesis by simp
qed

lemma po_store_puts:
  assumes inv: "po_inv po" and nb: "po_nboff po < 8" and n: "0 < n" "n \<le> 31"
    and room: "po_nboff po + n \<le> po_nbits po"
    and k: "po_nboff po + n \<le> 8 * k" "8 * (k - 1) < po_nboff po + n" "k \<le> 4"
    and v: "unat bits < 2 ^ n"
  shows "puts po (nat_bl n (unat bits)) (po_store po bits (po_nboff po + n) k)"
proof -
  let ?o = "po_nboff po" and ?off = "po_nboff po + n" and ?t = "po_tmpspace po"
  obtain b where b: "po_buffer po = Some b" "po_nbits po = 8 * (32 - b)" "b \<le> 32" and t: "length ?t = 32"
    using inv n room by (auto simp: po_inv_def split: option.splits)
  have bk: "b + k \<le> 32" using room b k(2) by linarith
  have k0: "0 < k" using k(1) n by (cases k) auto
  let ?w = "push_bit (8 * k - ?off) bits"
  have "unat bits * 2 ^ (8 * k - ?off) < 2 ^ n * 2 ^ (8 * k - ?off)" using v by simp
  also have "\<dots> = 2 ^ (8 * k - ?o)" using k(1) by (simp flip: power_add)
  finally have lt: "unat bits * 2 ^ (8 * k - ?off) < 2 ^ (8 * k - ?o)" .
  also have "(2::nat) ^ (8 * k - ?o) \<le> 2 ^ 32" using k(3) by (intro power_increasing) auto
  finally have w: "unat ?w = unat bits * 2 ^ (8 * k - ?off)" by (simp add: unat_push_bit)
  let ?s = "store_octets (?t ! b) ?o ?w k"
  have "nat_bl (8 * k - ?o) (unat ?w) = nat_bl n (unat bits) @ replicate (8 * k - ?off) False"
    using nat_bl_shift [of n "8 * k - ?off" "unat bits"] k(1) w by simp
  then have s: "bits_of ?s = take ?o (byte_bits (?t ! b)) @ nat_bl n (unat bits) @ replicate (8 * k - ?off) False"
    using bits_of_store [OF k0 nb, of ?w "?t ! b"] lt w by simp
  have "length ?s = k" using k0 by (simp add: store_octets_def)
  moreover have st: "po_store po bits ?off k = po\<lparr>po_nboff := ?off, po_tmpspace := take b ?t @ ?s @ drop (b + k) ?t\<rparr>"
    using b(1) by (simp add: po_store_def po_idx_def Let_def)
  ultimately have "po_inv (po_store po bits ?off k)"
    using inv b t bk room by (simp add: po_inv_def)
  moreover have "pending (po_store po bits ?off k) = pending po @ nat_bl n (unat bits)"
    using pending_split [of po] b t bk k0 nb
    by (simp add: pending_def st po_idx_def s)
  ultimately show ?thesis using inv by (simp add: puts_def out_bits_def st)
qed

text \<open>
  One call after normalisation and flushing: either the bits go straight into the
  scratch octets, or they are put in two pieces, each of which does.
\<close>

lemma put_few_bits_unfold:
  assumes inv: "po_inv po" and n: "0 < n" "n \<le> 31"
  obtains po2 where "puts po [] po2" "po_nboff po2 < 8" "po_nboff po2 + n \<le> po_nbits po2"
    "po_nboff po2 + n \<le> 31 \<Longrightarrow> \<exists>k. asn_put_few_bits po bits (int n) =
        (0, po_store po2 (bits AND (push_bit n 1 - 1)) (po_nboff po2 + n) k) \<and>
        po_nboff po2 + n \<le> 8 * k \<and> 8 * (k - 1) < po_nboff po2 + n \<and> k \<le> 4"
    "31 < po_nboff po2 + n \<Longrightarrow> asn_put_few_bits po bits (int n) =
       (case asn_put_few_bits po2 (drop_bit (n - 24) (bits AND (push_bit n 1 - 1))) 24 of (r1, po3) \<Rightarrow>
          if r1 \<noteq> 0 then (-1, po3)
          else case asn_put_few_bits po3 (bits AND (push_bit n 1 - 1)) (int n - 24) of (r2, po4) \<Rightarrow>
            if r2 \<noteq> 0 then (-1, po4) else (0, po4))"
proof -
  have norm: "puts po [] (po_normalize po)" by (rule po_normalize_puts [OF inv])
  obtain po2 where r: "po_make_room (po_normalize po) n = (0, po2)" and
    room: "puts (po_normalize po) [] po2" "po_nboff po2 = po_nboff (po_normalize po)"
      "po_nboff po2 + n \<le> po_nbits po2"
    using po_make_room_puts [OF puts_inv [OF norm] po_normalize_nboff n] by metis
  note unf = asn_put_few_bits.simps [of po bits "int n"]
  show ?thesis
  proof (rule that [of po2])
    show "puts po [] po2" using puts_trans [OF norm room(1)] by simp
    show lt8: "po_nboff po2 < 8" using room(2) po_normalize_nboff by simp
    show "po_nboff po2 + n \<le> po_nbits po2" by (rule room(3))
    assume off: "po_nboff po2 + n \<le> 31"
    then consider "po_nboff po2 + n \<le> 8" | "8 < po_nboff po2 + n" "po_nboff po2 + n \<le> 16"
      | "16 < po_nboff po2 + n" "po_nboff po2 + n \<le> 24" | "24 < po_nboff po2 + n" by linarith
    then show "\<exists>k. asn_put_few_bits po bits (int n) =
        (0, po_store po2 (bits AND (push_bit n 1 - 1)) (po_nboff po2 + n) k) \<and>
        po_nboff po2 + n \<le> 8 * k \<and> 8 * (k - 1) < po_nboff po2 + n \<and> k \<le> 4"
    proof cases
      case 1
      then show ?thesis using n r by (intro exI [of _ 1]) (simp add: unf Let_def)
    next
      case 2
      then show ?thesis using n r by (intro exI [of _ 2]) (simp add: unf Let_def)
    next
      case 3
      then show ?thesis using n r by (intro exI [of _ 3]) (simp add: unf Let_def)
    next
      case 4
      then show ?thesis using n r off by (intro exI [of _ 4]) (simp add: unf Let_def)
    qed
  next
    assume off: "31 < po_nboff po2 + n"
    have "nat (int n - 24) = n - 24" by simp
    with off show "asn_put_few_bits po bits (int n) =
       (case asn_put_few_bits po2 (drop_bit (n - 24) (bits AND (push_bit n 1 - 1))) 24 of (r1, po3) \<Rightarrow>
          if r1 \<noteq> 0 then (-1, po3)
          else case asn_put_few_bits po3 (bits AND (push_bit n 1 - 1)) (int n - 24) of (r2, po4) \<Rightarrow>
            if r2 \<noteq> 0 then (-1, po4) else (0, po4))"
      using n r by (simp add: unf Let_def del: push_bit_of_1)
  qed
qed


lemma put_few_bits_direct:
  assumes "puts po [] po2" "po_nboff po2 < 8" "po_nboff po2 + n \<le> po_nbits po2" "0 < n" "n \<le> 31"
    "\<exists>k. asn_put_few_bits po bits (int n) =
        (0, po_store po2 (bits AND (push_bit n 1 - 1)) (po_nboff po2 + n) k) \<and>
        po_nboff po2 + n \<le> 8 * k \<and> 8 * (k - 1) < po_nboff po2 + n \<and> k \<le> 4"
  shows "\<exists>po'. asn_put_few_bits po bits (int n) = (0, po') \<and> puts po (nat_bl n (unat bits)) po'"
proof -
  let ?m = "bits AND (push_bit n 1 - 1)"
  from assms(6) obtain k where k: "asn_put_few_bits po bits (int n) = (0, po_store po2 ?m (po_nboff po2 + n) k)"
    "po_nboff po2 + n \<le> 8 * k" "8 * (k - 1) < po_nboff po2 + n" "k \<le> 4" by blast
  have m: "unat ?m = unat bits mod 2 ^ n" by (rule word_mask_and)
  then have "unat ?m < 2 ^ n" by simp
  from po_store_puts [OF puts_inv [OF assms(1)] assms(2,4,5,3) k(2-4) this]
  have "puts po2 (nat_bl n (unat bits)) (po_store po2 ?m (po_nboff po2 + n) k)"
    by (simp only: m nat_bl_mod [OF order_refl])
  from puts_trans [OF assms(1) this] k(1) show ?thesis by simp
qed

lemma put_few_bits_upto24:
  assumes "po_inv po" "0 < n" "n \<le> 24"
  shows "\<exists>po'. asn_put_few_bits po bits (int n) = (0, po') \<and> puts po (nat_bl n (unat bits)) po'"
proof -
  have n31: "n \<le> 31" using assms(3) by simp
  show ?thesis
  proof (rule put_few_bits_unfold [OF assms(1,2) n31, of bits])
    fix po2
    assume "puts po [] po2" "po_nboff po2 < 8" "po_nboff po2 + n \<le> po_nbits po2"
      and "po_nboff po2 + n \<le> 31 \<Longrightarrow> \<exists>k. asn_put_few_bits po bits (int n) =
        (0, po_store po2 (bits AND (push_bit n 1 - 1)) (po_nboff po2 + n) k) \<and>
        po_nboff po2 + n \<le> 8 * k \<and> 8 * (k - 1) < po_nboff po2 + n \<and> k \<le> 4"
    then show ?thesis using put_few_bits_direct [OF _ _ _ assms(2) n31] assms(3) by simp
  qed
qed

lemma asn_put_few_bits_ok:
  assumes "po_inv po" "n \<le> 31"
  shows "\<exists>po'. asn_put_few_bits po bits (int n) = (0, po') \<and> puts po (nat_bl n (unat bits)) po'"
proof (cases "n = 0")
  case True
  then show ?thesis using assms by (simp add: asn_put_few_bits.simps [of po bits 0] puts_refl)
next
  case False
  then have n0: "0 < n" by simp
  let ?m = "bits AND (push_bit n 1 - 1)"
  show ?thesis
  proof (rule put_few_bits_unfold [OF assms(1) n0 assms(2), of bits])
    fix po2
    assume p2: "puts po [] po2" "po_nboff po2 < 8" "po_nboff po2 + n \<le> po_nbits po2"
      and dir: "po_nboff po2 + n \<le> 31 \<Longrightarrow> \<exists>k. asn_put_few_bits po bits (int n) =
        (0, po_store po2 ?m (po_nboff po2 + n) k) \<and>
        po_nboff po2 + n \<le> 8 * k \<and> 8 * (k - 1) < po_nboff po2 + n \<and> k \<le> 4"
      and two: "31 < po_nboff po2 + n \<Longrightarrow> asn_put_few_bits po bits (int n) =
       (case asn_put_few_bits po2 (drop_bit (n - 24) ?m) 24 of (r1, po3) \<Rightarrow>
          if r1 \<noteq> 0 then (-1, po3)
          else case asn_put_few_bits po3 ?m (int n - 24) of (r2, po4) \<Rightarrow>
            if r2 \<noteq> 0 then (-1, po4) else (0, po4))"
    show ?thesis
    proof (cases "po_nboff po2 + n \<le> 31")
      case True
      then show ?thesis using put_few_bits_direct [OF p2 n0 assms(2) dir] by simp
    next
      case False
      then have n24: "24 < n" using p2(2) by linarith
      have h: "(0::nat) < 24" by simp
      have n7: "n - 24 \<le> 24" using assms(2) by simp
      from put_few_bits_upto24 [OF puts_inv [OF p2(1)] h order_refl, of "drop_bit (n - 24) ?m"]
      obtain po3 where p3: "asn_put_few_bits po2 (drop_bit (n - 24) ?m) 24 = (0, po3)"
        "puts po2 (nat_bl 24 (unat ?m div 2 ^ (n - 24))) po3"
        by (simp only: unat_drop_bit of_nat_numeral) blast
      obtain po4 where p4: "asn_put_few_bits po3 ?m (int n - 24) = (0, po4)"
        "puts po3 (nat_bl (n - 24) (unat ?m)) po4"
        using put_few_bits_upto24 [OF puts_inv [OF p3(2)], of "n - 24" ?m] n24 n7
        by (auto simp: of_nat_diff)
      have "unat ?m = unat bits mod 2 ^ n" by (rule word_mask_and)
      then have "nat_bl 24 (unat ?m div 2 ^ (n - 24)) @ nat_bl (n - 24) (unat ?m) = nat_bl n (unat bits)"
        by (simp only: nat_bl_split24 [OF n24] nat_bl_mod [OF order_refl])
      then have "puts po (nat_bl n (unat bits)) po4"
        using puts_trans [OF p2(1) puts_trans [OF p3(2) p4(2)]] by simp
      moreover have "asn_put_few_bits po bits (int n) = (0, po4)"
        using two False p3(1) p4(1) by simp
      ultimately show ?thesis by blast
    qed
  qed
qed

text \<open>Many bits: the first \<open>nbits\<close> bits of the octets.\<close>

text \<open>The last step of \<open>asn_put_many_bits\<close>: fewer than 24 bits are left.\<close>

lemma put_many_bits_tail:
  assumes "po_inv po" "0 < n" "n < 24" "n \<le> 8 * length src"
  shows "\<exists>po'. asn_put_many_bits po src (int n) = (0, po') \<and> puts po (take n (bits_of src)) po'"
proof -
  let ?k = "(n + 7) div 8"
  let ?v2 = "if int n > 16 then push_bit 8 (if int n > 8 then push_bit 8 (ucast (src ! 0)) OR ucast (src ! 1)
      else ucast (src ! 0)) OR ucast (src ! 2)
      else if int n > 8 then push_bit 8 (ucast (src ! 0)) OR ucast (src ! 1) else ucast (src ! 0) :: uint32"
  let ?v3 = "if int n mod 8 \<noteq> 0 then drop_bit (nat (8 - int n mod 8)) ?v2 else ?v2"
  have ks: "?k \<le> length src" using assms(4) by linarith
  have k: "?k = 1 \<and> n \<le> 8 \<or> ?k = 2 \<and> 8 < n \<and> n \<le> 16 \<or> ?k = 3 \<and> 16 < n"
    using assms by presburger
  have "take ?k src = map (\<lambda>i. src ! i) [0..<?k]" using ks take_drop_octets [of 0 ?k src] by simp
  then have v2: "unat ?v2 = bl_nat (bits_of (take ?k src))"
    using k unat_or_octets(1) [of "src ! 0" "src ! 1"] unat_or_octets(3) [of "src ! 0" "src ! 1" "src ! 2"]
    by (elim disjE) (simp_all add: unat_ucast_byte upt_rec bitstr numeral_2_eq_2)
  have m: "int n mod 8 = int (n mod 8)" by (simp add: zmod_int)
  have "8 * ?k - n = (8 - n mod 8) mod 8" using pad8_amount [of n] by linarith
  then have "unat ?v3 = bl_nat (bits_of (take ?k src)) div 2 ^ (8 * length (take ?k src) - n)"
    using ks v2 unfolding m by (auto simp: nat_diff_distrib' simp flip: of_nat_diff)
  moreover have "?v3 = put_tail_value src (int n)" by (simp only: put_tail_value_def Let_def)
  ultimately have v3: "unat (put_tail_value src (int n)) =
      bl_nat (bits_of (take ?k src)) div 2 ^ (8 * length (take ?k src) - n)" by simp
  have "nat_bl n (unat (put_tail_value src (int n))) = take n (bits_of (take ?k src))"
    using nat_bl_of_octets [of n "take ?k src"] ks v3 k by auto
  also have "\<dots> = take n (bits_of src)"
    using k by (auto simp: take_bits_of [symmetric] min_def)
  finally obtain po' where "asn_put_few_bits po (put_tail_value src (int n)) (int n) = (0, po')"
    "puts po (take n (bits_of src)) po'"
    using asn_put_few_bits_ok [OF assms(1), of n "put_tail_value src (int n)"] assms(3) by auto
  then show ?thesis
    using assms by (simp add: asn_put_many_bits.simps [of po src "int n"])
qed


lemma asn_put_many_bits_ok:
  assumes "po_inv po" "n \<le> 8 * length src"
  shows "\<exists>po'. asn_put_many_bits po src (int n) = (0, po') \<and> puts po (take n (bits_of src)) po'"
  using assms
proof (induction n arbitrary: po src rule: less_induct)
  case (less n)
  consider "n = 0" | "0 < n" "n < 24" | "24 \<le> n" by linarith
  then show ?case
  proof cases
    case 1
    then show ?thesis using less.prems by (simp add: asn_put_many_bits.simps [of po src 0] puts_refl)
  next
    case 2
    then show ?thesis using less.prems put_many_bits_tail by blast
  next
    case 3
    let ?v = "push_bit 16 (ucast (src ! 0)) OR push_bit 8 (ucast (src ! 1)) OR ucast (src ! 2) :: uint32"
    have room: "n - 24 \<le> 8 * length (drop 3 src)" using 3 less.prems(2) by simp
    have t3: "take 3 src = [src ! 0, src ! 1, src ! 2]"
      using take_drop_octets [of 0 3 src] 3 less.prems(2) by (simp add: upt_rec numeral_2_eq_2)
    have "nat_bl 24 (unat ?v) = bits_of [src ! 0, src ! 1, src ! 2]"
      unfolding unat_or_octets(2) by (rule nat_bl_bl_nat) simp
    then obtain po1 where p1: "asn_put_few_bits po ?v 24 = (0, po1)" "puts po (bits_of (take 3 src)) po1"
      using asn_put_few_bits_ok [OF less.prems(1), of 24 ?v] t3 by auto
    obtain po2 where p2: "asn_put_many_bits po1 (drop 3 src) (int (n - 24)) = (0, po2)"
      "puts po1 (take (n - 24) (bits_of (drop 3 src))) po2"
      using less.IH [of "n - 24" po1 "drop 3 src"] 3 room puts_inv [OF p1(2)] by auto
    have "take n (bits_of src) = bits_of (take 3 src) @ take (n - 24) (bits_of (drop 3 src))"
      using 3 take_add [of 24 "n - 24" "bits_of src"] take_bits_of [of 3 src] drop_bits_of [of 3 src] by simp
    then show ?thesis
      using 3 p1 p2 puts_trans [OF p1(2) p2(2)]
      by (auto simp: asn_put_many_bits.simps [of po src "int n"] of_nat_diff)
  qed
qed

lemma asn_put_octets_ok:
  assumes "po_inv po" "n \<le> length src"
  shows "\<exists>po'. asn_put_many_bits po src (8 * int n) = (0, po') \<and> puts po (bits_of (take n src)) po'"
  using asn_put_many_bits_ok [OF assms(1), of "8 * n" src] assms(2) by (simp add: take_bits_of)

text \<open>The pending bits, completed with zero bits to whole octets.\<close>

lemma pad_pending:
  assumes "length t = 32" "p \<le> 256"
  shows "bits_of (take ((p + 7) div 8)
      (if (8 - p mod 8) mod 8 \<noteq> 0 then t[p div 8 := (t ! (p div 8)) AND push_bit ((8 - p mod 8) mod 8) (NOT 0)] else t))
    = pad8 (take p (bits_of t))"
proof -
  obtain q r where p: "p = 8 * q + r" and r: "r < 8"
    by (metis mult.commute div_mult_mod_eq mod_less_divisor zero_less_numeral)
  show ?thesis
  proof (cases "r = 0")
    case True
    then show ?thesis using p assms by (simp add: take_bits_of)
  next
    case False
    then have "p + 7 = 8 * Suc q + (r - 1)" "r - 1 < 8" using p r by simp_all
    then have d: "(p + 7) div 8 = Suc q" "p div 8 = q" "p mod 8 = r"
      using p r by simp_all
    have q: "q < 32" using p assms(2) False by linarith
    let ?b = "t ! q AND push_bit (8 - r) (NOT 0)"
    have "take p (bits_of t) = bits_of (take q t) @ take r (byte_bits (t ! q))"
    proof -
      have "t = take q t @ t ! q # drop (Suc q) t" using q assms by (simp add: id_take_nth_drop)
      then have "bits_of t = bits_of (take q t) @ byte_bits (t ! q) @ bits_of (drop (Suc q) t)"
        by (metis bits_of_simps(2,3))
      then show ?thesis using p q r assms(1) by simp
    qed
    moreover have "take (Suc q) (t[q := ?b]) = take q t @ [?b]"
      using q assms(1) by (simp add: take_Suc_conv_app_nth)
    moreover have "byte_bits ?b = take r (byte_bits (t ! q)) @ replicate (8 - r) False"
      using bits_of_mask_low [of "8 - r" "t ! q"] False r by simp
    ultimately show ?thesis using d False r q assms(1) by (simp add: pad8_def)
  qed
qed

lemma asn_put_aligned_flush_ok:
  assumes inv: "po_inv po"
  shows "\<exists>po'. asn_put_aligned_flush po = (0, po') \<and> po_inv po' \<and> pending po' = [] \<and>
    bits_of (key_contents (po_op_key po')) = bits_of (key_contents (po_op_key po)) @ pad8 (pending po)"
proof -
  let ?p = "8 * po_idx po + po_nboff po" and ?t = "po_tmpspace po"
  let ?u = "(8 - po_nboff po mod 8) mod 8" and ?j = "po_idx po + po_nboff po div 8"
  let ?tmp = "if ?u \<noteq> 0 then ?t[?j := (?t ! ?j) AND push_bit ?u (NOT 0)] else ?t"
  have len: "length ?t = 32" and p: "?p \<le> 256"
    using inv by (auto simp: po_inv_def po_idx_def split: option.splits)
  have e: "(?p + 7) div 8 = po_idx po + (po_nboff po + 7) div 8" "?p div 8 = ?j" "?p mod 8 = po_nboff po mod 8"
    by (simp_all add: add.assoc)
  from pad_pending [OF len p] have t: "bits_of (take (po_idx po + (po_nboff po + 7) div 8) ?tmp) = pad8 (pending po)"
    unfolding e pending_def .
  from inv obtain key where key: "po_output po (take (po_idx po + (po_nboff po + 7) div 8) ?tmp) (po_op_key po) = (0, key)"
    "absorbs (po_output po) key"
    "key_contents key = key_contents (po_op_key po) @ take (po_idx po + (po_nboff po + 7) div 8) ?tmp"
    by (auto simp: po_inv_def elim: absorbsE)
  let ?po' = "po\<lparr>po_op_key := key, po_tmpspace := ?tmp, po_buffer := Some 0, po_nboff := 0, po_nbits := 256,
     po_flushed_bytes := po_flushed_bytes po + (po_idx po + (po_nboff po + 7) div 8)\<rparr>"
  have "asn_put_aligned_flush po = (0, ?po')"
    unfolding asn_put_aligned_flush_def Let_def key(1) by simp
  moreover have "po_inv ?po'" using key(2) len by (simp add: po_inv_def)
  moreover have "pending ?po' = []" by (simp add: pending_def po_idx_def)
  ultimately show ?thesis using key(3) t by (intro exI [of _ ?po']) simp
qed

end
