(* ===== verification/Bit_Stream.thy ===== *)
theory Bit_Stream
  imports Bit_Input Bit_Output
begin

unbundle bit_operations_syntax

text \<open>
  What an encoder and a decoder promise each other on the wire. \<open>writes\<close> says that
  an encoder appends given bits to every writer, \<open>reads\<close> that a decoder takes given
  bits off every stream that begins with them and returns a given result. The locale
  \<open>bit_codec\<close> is the contract of an encoder and decoder pair; the round trips over
  the writer, the flush and the reader are proved in it once, and the pairs of the
  runtime are its interpretations.
\<close>

definition writes :: "(asn_bit_outp \<Rightarrow> int \<times> asn_bit_outp) \<Rightarrow> bool list \<Rightarrow> bool" where
  "writes enc bs \<longleftrightarrow> (\<forall>po. po_inv po \<longrightarrow> (\<exists>po'. enc po = (0, po') \<and> puts po bs po'))"

definition reads :: "(asn_bit_data \<Rightarrow> 'r \<times> asn_bit_data) \<Rightarrow> bool list \<Rightarrow> 'r \<Rightarrow> bool" where
  "reads dec bs v \<longleftrightarrow> (\<forall>pd rest. pd_inv pd \<longrightarrow> src_bits pd = bs @ rest \<longrightarrow>
     (\<exists>pd'. dec pd = (v, pd') \<and> consumes pd bs pd' \<and> src_bits pd' = rest))"

lemma writesI: "(\<And>po. po_inv po \<Longrightarrow> \<exists>po'. enc po = (0, po') \<and> puts po bs po') \<Longrightarrow> writes enc bs"
  by (simp add: writes_def)

lemma readsI:
  "(\<And>pd rest. pd_inv pd \<Longrightarrow> src_bits pd = bs @ rest \<Longrightarrow>
     \<exists>pd'. dec pd = (v, pd') \<and> consumes pd bs pd' \<and> src_bits pd' = rest) \<Longrightarrow> reads dec bs v"
  by (simp add: reads_def)

lemma writesE:
  assumes "writes enc bs" "po_inv po"
  obtains po' where "enc po = (0, po')" "puts po bs po'" "po_inv po'"
  using assms puts_inv unfolding writes_def by blast

lemma readsE:
  assumes "reads dec bs v" "pd_inv pd" "src_bits pd = bs @ rest"
  obtains pd' where "dec pd = (v, pd')" "consumes pd bs pd'" "src_bits pd' = rest" "pd_inv pd'"
  using assms consumesD(2) unfolding reads_def by metis

text \<open>Encoders compose by concatenating their bits; a failing step stops the encoding.\<close>

definition then_put ::
  "(asn_bit_outp \<Rightarrow> int \<times> asn_bit_outp) \<Rightarrow> (asn_bit_outp \<Rightarrow> int \<times> asn_bit_outp) \<Rightarrow> asn_bit_outp \<Rightarrow> int \<times> asn_bit_outp" where
  "then_put f g po = (case f po of (r, po') \<Rightarrow> if r \<noteq> 0 then (-1, po') else g po')"

lemma then_put_writes:
  assumes "writes f xs" "writes g ys"
  shows "writes (then_put f g) (xs @ ys)"
proof (rule writesI)
  fix po assume "po_inv po"
  with assms(1) obtain p where p: "f po = (0, p)" "puts po xs p" "po_inv p" by (rule writesE)
  from assms(2) p(3) obtain q where q: "g p = (0, q)" "puts p ys q" by (rule writesE)
  show "\<exists>po'. then_put f g po = (0, po') \<and> puts po (xs @ ys) po'"
    using p q puts_trans [OF p(2) q(2)] by (simp add: then_put_def)
qed

lemma few_bits_writes: "n \<le> 31 \<Longrightarrow> writes (\<lambda>po. asn_put_few_bits po v (int n)) (nat_bl n (unat v))"
  by (rule writesI) (rule asn_put_few_bits_ok)

lemma few_bits_reads: "length bs \<le> 31 \<Longrightarrow> reads (\<lambda>pd. asn_get_few_bits pd (int (length bs))) bs (int (bl_nat bs))"
  by (rule readsI) (metis get_few_bits_prefix)

lemma few_int_writes:
  assumes "k \<le> 31" "0 \<le> n"
  shows "writes (\<lambda>po. asn_put_few_bits po (word_of_int n) (int k)) (nat_bl k (nat n))"
proof -
  have "word_of_int n = (word_of_nat (nat n) :: uint32)" using assms(2) by simp
  moreover have "nat_bl k (unat (word_of_nat (nat n) :: uint32)) = nat_bl k (nat n)"
    using assms(1) nat_bl_mod [of k 32 "nat n"] by (simp add: unat_of_nat)
  ultimately show ?thesis using few_bits_writes [OF assms(1), of "word_of_int n"] by simp
qed

lemma reads_bind:
  assumes f: "reads f xs a" and g: "reads (g a) ys v"
  shows "reads (\<lambda>pd. case f pd of (r, pd') \<Rightarrow> g r pd') (xs @ ys) v"
proof (rule readsI)
  fix pd rest assume pd: "pd_inv pd" "src_bits pd = (xs @ ys) @ rest"
  from f pd(1) pd(2) [unfolded append_assoc] obtain p where
    p: "f pd = (a, p)" "consumes pd xs p" "src_bits p = ys @ rest" "pd_inv p" by (rule readsE)
  from g p(4,3) obtain q where q: "g a p = (v, q)" "consumes p ys q" "src_bits q = rest" by (rule readsE)
  show "\<exists>pd'. (case f pd of (r, pd') \<Rightarrow> g r pd') = (v, pd') \<and> consumes pd (xs @ ys) pd' \<and> src_bits pd' = rest"
    using p q consumes_trans [OF p(2) q(2)] by simp
qed

lemma reads_return: "reads (\<lambda>pd. (v, pd)) [] v"
  by (rule readsI) (simp add: consumes_refl)

lemma flag_writes: "writes (\<lambda>po. asn_put_few_bits po (if b then 1 else 0) 1) [b]"
  using few_bits_writes [of 1 "if b then 1 else 0"] by (cases b) simp_all

lemma flag_reads: "reads (\<lambda>pd. asn_get_few_bits pd 1) [b] (if b then 1 else 0)"
  using few_bits_reads [of "[b]"] by (cases b) simp_all

lemma reads_cong: "reads f xs v \<Longrightarrow> f = g \<Longrightarrow> xs = ys \<Longrightarrow> v = w \<Longrightarrow> reads g ys w"
  by simp

lemma few_bits_at: "reads (\<lambda>pd. asn_get_few_bits pd (int n)) (nat_bl n v) (int (v mod 2 ^ n))" if "n \<le> 31"
  using few_bits_reads [of "nat_bl n v"] that by (simp add: bl_nat_nat_bl)

lemma reads_then:
  assumes "reads f xs a" "reads (g a) ys v" "dec = (\<lambda>pd. case f pd of (r, pd') \<Rightarrow> g r pd')" "bs = xs @ ys"
  shows "reads dec bs v"
  using reads_bind [of f xs a g ys v, OF assms(1,2)] assms(3,4) by simp

lemma put_few_nat: 
  assumes "po_inv po" "k \<le> 31" "unat v = n"
  obtains po' where "asn_put_few_bits po v (int k) = (0, po')" "puts po (nat_bl k n) po'"
  using asn_put_few_bits_ok [OF assms(1,2), of v] assms(3) by auto

lemma reads_flag:
  assumes "reads (g (if b then 1 else 0)) bs v"
  shows "reads (\<lambda>pd. case asn_get_few_bits pd 1 of (r, pd') \<Rightarrow> g r pd') (b # bs) v"
  using reads_then [where g = g, OF flag_reads [of b] assms refl refl] by simp

lemma reads_map:
  assumes "reads f bs v" "dec = (\<lambda>pd. case f pd of (r, pd') \<Rightarrow> (h r, pd'))" "w = h v"
  shows "reads dec bs w"
  using reads_then [where g = "\<lambda>r pd. (h r, pd)", OF assms(1) reads_return assms(2), of bs] assms(3) by simp

lemma writes_status: "writes f bs \<Longrightarrow> writes (\<lambda>po. case f po of (r, po') \<Rightarrow> (if r \<noteq> 0 then -1 else 0, po')) bs"
  by (auto simp: writes_def split_beta)

text \<open>
  A decoder is \<open>safe\<close> when on every well-formed stream, whatever its bits, it only
  moves forward inside the window: no error path leaves the stream or its octets.
\<close>

named_theorems safe \<open>decoders that stay inside their stream\<close>

definition safe_get :: "(asn_bit_data \<Rightarrow> 'r \<times> asn_bit_data) \<Rightarrow> bool" where
  "safe_get dec \<longleftrightarrow> (\<forall>pd. pd_inv pd \<longrightarrow> (\<exists>bs. consumes pd bs (snd (dec pd))))"

lemma safe_getI: "(\<And>pd. pd_inv pd \<Longrightarrow> \<exists>bs. consumes pd bs (snd (dec pd))) \<Longrightarrow> safe_get dec"
  by (simp add: safe_get_def)

lemma safe_getE:
  assumes "safe_get dec" "pd_inv pd"
  obtains bs where "consumes pd bs (snd (dec pd))" "pd_inv (snd (dec pd))"
  using assms consumesD(2) unfolding safe_get_def by blast

lemma safe_return [safe]: "safe_get (\<lambda>pd. (v, pd))"
  by (rule safe_getI) (auto intro: consumes_refl)

lemma safe_bind [safe]:
  assumes f: "safe_get f" and g: "\<And>r. safe_get (g r)"
  shows "safe_get (\<lambda>pd. case f pd of (r, pd') \<Rightarrow> g r pd')"
proof (rule safe_getI)
  fix pd assume "pd_inv pd"
  with f obtain bs where bs: "consumes pd bs (snd (f pd))" "pd_inv (snd (f pd))" by (rule safe_getE)
  from g bs(2) obtain cs where "consumes (snd (f pd)) cs (snd (g (fst (f pd)) (snd (f pd))))" by (rule safe_getE)
  with bs(1) show "\<exists>bs. consumes pd bs (snd (case f pd of (r, pd') \<Rightarrow> g r pd'))"
    by (auto simp: split_beta intro: consumes_trans)
qed

lemma safe_if [safe]: "(c \<Longrightarrow> safe_get f) \<Longrightarrow> (\<not> c \<Longrightarrow> safe_get g) \<Longrightarrow> safe_get (\<lambda>pd. if c then f pd else g pd)"
  by (cases c) simp_all

lemma safe_few_bits_upto_31: "n \<le> 31 \<Longrightarrow> safe_get (\<lambda>pd. asn_get_few_bits pd n)"
proof (rule safe_getI)
  fix pd assume n: "n \<le> 31" and pd: "pd_inv pd"
  show "\<exists>bs. consumes pd bs (snd (asn_get_few_bits pd n))"
  proof (cases "n < 0")
    case True
    then show ?thesis using consumes_refl [OF pd] by (subst asn_get_few_bits.simps) auto
  next
    case False
    then have "n = int (nat n)" "nat n \<le> 31" using n by auto
    with asn_get_few_bits_cases [OF pd this(2)] consumes_refl [OF pd] show ?thesis
      by (metis snd_conv)
  qed
qed

lemma safe_few_bits [safe]: "safe_get (\<lambda>pd. asn_get_few_bits pd n)"
proof (rule safe_getI)
  fix pd assume pd: "pd_inv pd"
  note nf = pd_normalize_facts [OF pd]
  show "\<exists>bs. consumes pd bs (snd (asn_get_few_bits pd n))"
  proof (cases "n \<le> 31")
    case True
    then show ?thesis using safe_few_bits_upto_31 pd unfolding safe_get_def by blast
  next
    case False
    have "asn_get_undo (pd_advance pd (nat n)) n = pd_normalize pd"
      using False by (simp add: asn_get_undo_def pd_advance_def)
    then have "asn_get_few_bits pd n = (-1, pd) \<or> asn_get_few_bits pd n = (-1, pd_normalize pd)"
      using False by (subst (1 2) asn_get_few_bits.simps) (auto simp: Let_def pd_advance_def)
    moreover have "consumes pd [] (pd_normalize pd)" using nf pd by (simp add: consumes_def)
    ultimately show ?thesis using consumes_refl [OF pd] by (metis snd_conv)
  qed
qed

lemma safe_case_pair [safe]: "(\<And>a b. safe_get (h a b)) \<Longrightarrow> safe_get (\<lambda>pd. case r of (a, b) \<Rightarrow> h a b pd)"
  by (cases r) simp

lemma safe_case_option [safe]: "safe_get f \<Longrightarrow> (\<And>a. safe_get (h a)) \<Longrightarrow> safe_get (\<lambda>pd. case r of None \<Rightarrow> f pd | Some a \<Rightarrow> h a pd)"
  by (cases r) simp_all

lemma safe_let [safe]: "safe_get (h x) \<Longrightarrow> safe_get (\<lambda>pd. let a = x in h a pd)"
  by simp

section \<open>Writers and readers at their start\<close>

definition new_outp :: "consume_bytes \<Rightarrow> op_key \<Rightarrow> asn_bit_outp" where
  "new_outp cb key = \<lparr>po_buffer = Some 0, po_nboff = 0, po_nbits = 8 * 32, po_tmpspace = replicate 32 0,
     po_output = cb, po_op_key = key, po_flushed_bytes = 0\<rparr>"

definition new_pd :: "byte list \<Rightarrow> nat \<Rightarrow> nat \<Rightarrow> asn_bit_data" where
  "new_pd octs skip_bits nbits =
     \<lparr>pd_octets = octs, pd_buffer = 0, pd_nboff = skip_bits, pd_nbits = nbits, pd_moved = 0\<rparr>"

lemma new_outp_inv [simp]: "absorbs cb key \<Longrightarrow> po_inv (new_outp cb key)"
  by (simp add: po_inv_def new_outp_def)

lemma new_outp_bits [simp]: "out_bits (new_outp cb key) = bits_of (key_contents key)"
  by (simp add: out_bits_def pending_def po_idx_def new_outp_def)

lemma new_pd_inv [simp]: "s \<le> n \<Longrightarrow> n \<le> 8 * length octs \<Longrightarrow> pd_inv (new_pd octs s n)"
  by (simp add: pd_inv_def new_pd_def)

lemma new_pd_bits [simp]: "src_bits (new_pd octs s n) = take (n - s) (drop s (bits_of octs))"
  by (simp add: src_bits_def new_pd_def)

section \<open>The contract of an encoder and a decoder\<close>

locale bit_codec =
  fixes enc :: "'a \<Rightarrow> asn_bit_outp \<Rightarrow> int \<times> asn_bit_outp"
    and dec :: "asn_bit_data \<Rightarrow> 'r \<times> asn_bit_data"
    and ok :: "'a \<Rightarrow> bool" and code :: "'a \<Rightarrow> bool list" and result :: "'a \<Rightarrow> 'r"
  assumes enc_writes: "ok v \<Longrightarrow> writes (enc v) (code v)"
    and dec_reads: "ok v \<Longrightarrow> reads dec (code v) (result v)"
begin

text \<open>Encode, flush, decode what the consumer received.\<close>

lemma wire_roundtrip:
  assumes "ok v" "absorbs cb key" "key_contents key = []"
  shows "\<exists>po po' pd'. enc v (new_outp cb key) = (0, po) \<and> asn_put_aligned_flush po = (0, po') \<and>
    (let octs = key_contents (po_op_key po')
     in bits_of octs = pad8 (code v) \<and>
        dec (new_pd octs 0 (8 * length octs)) = (result v, pd') \<and> pd_pos pd' = length (code v))"
proof -
  obtain po where po: "enc v (new_outp cb key) = (0, po)" "puts (new_outp cb key) (code v) po" "po_inv po"
    using writesE [OF enc_writes [OF assms(1)] new_outp_inv [OF assms(2)]] .
  have out: "out_bits po = code v" using po(2) assms(3) by (simp add: puts_def)
  obtain po' where po': "asn_put_aligned_flush po = (0, po')"
    "bits_of (key_contents (po_op_key po')) = bits_of (key_contents (po_op_key po)) @ pad8 (pending po)"
    using asn_put_aligned_flush_ok [OF po(3)] by blast
  let ?octs = "key_contents (po_op_key po')"
  have bits: "bits_of ?octs = pad8 (code v)"
    using po'(2) pad8_append [of "bits_of (key_contents (po_op_key po))" "pending po"] out
    by (simp add: out_bits_def)
  then have "src_bits (new_pd ?octs 0 (8 * length ?octs)) = code v @ replicate ((8 - length (code v) mod 8) mod 8) False"
    by (simp flip: length_bits_of) (simp add: pad8_def)
  then obtain pd' where "dec (new_pd ?octs 0 (8 * length ?octs)) = (result v, pd')"
    "consumes (new_pd ?octs 0 (8 * length ?octs)) (code v) pd'"
    using readsE [OF dec_reads [OF assms(1)]] by (metis new_pd_inv le0 order_refl)
  moreover from this(2) have "pd_pos pd' = length (code v)"
    by (simp add: consumes_def pd_pos_def new_pd_def)
  ultimately show ?thesis using po(1) po'(1) bits by (auto simp: Let_def)
qed

end

interpretation few_bits: bit_codec "\<lambda>v po. asn_put_few_bits po v (int n)"
  "\<lambda>pd. asn_get_few_bits pd (int n)" "\<lambda>v. n \<le> 31" "\<lambda>v. nat_bl n (unat v)"
  "\<lambda>v. int (unat v mod 2 ^ n)" for n
  using few_bits_reads [of "nat_bl n _"] by unfold_locales (auto simp: few_bits_writes bl_nat_nat_bl)

interpretation octets: bit_codec "\<lambda>src po. asn_put_many_bits po src (8 * int n)"
  "\<lambda>pd. case asn_get_many_bits pd False (8 * int n) of (r, bs, pd') \<Rightarrow> ((r, bs), pd')"
  "\<lambda>src. length src = n" bits_of "\<lambda>src. (0, src)" for n
proof unfold_locales
  fix src :: "byte list" assume n: "length src = n"
  then show "writes (\<lambda>po. asn_put_many_bits po src (8 * int n)) (bits_of src)"
    using asn_put_octets_ok [of _ n src] by (intro writesI) simp
  show "reads (\<lambda>pd. case asn_get_many_bits pd False (8 * int n) of (r, bs, pd') \<Rightarrow> ((r, bs), pd'))
      (bits_of src) (0, src)"
    using n asn_get_many_bits_octets [of _ src] by (intro readsI) (metis (no_types, lifting) case_prod_conv)
qed

section \<open>Sequences of fields\<close>

text \<open>A record of bit fields, each a value and its width, written and read in order.\<close>

primrec put_fields :: "(uint32 \<times> nat) list \<Rightarrow> asn_bit_outp \<Rightarrow> int \<times> asn_bit_outp" where
  "put_fields [] po = (0, po)"
| "put_fields (f # fs) po = then_put (\<lambda>po. asn_put_few_bits po (fst f) (int (snd f))) (put_fields fs) po"

primrec get_fields :: "nat list \<Rightarrow> asn_bit_data \<Rightarrow> int list \<times> asn_bit_data" where
  "get_fields [] pd = ([], pd)"
| "get_fields (n # ns) pd =
     (case asn_get_few_bits pd (int n) of (v, pd') \<Rightarrow>
        case get_fields ns pd' of (vs, pd'') \<Rightarrow> (v # vs, pd''))"

abbreviation field_ok :: "uint32 \<times> nat \<Rightarrow> bool" where
  "field_ok f \<equiv> snd f \<le> 31"

definition field_code :: "(uint32 \<times> nat) list \<Rightarrow> bool list" where
  "field_code fs = concat (map (\<lambda>(v, n). nat_bl n (unat v)) fs)"

lemma put_fields_writes: "list_all field_ok fs \<Longrightarrow> writes (put_fields fs) (field_code fs)"
proof (induction fs)
  case Nil
  then show ?case by (auto intro!: writesI puts_refl simp: field_code_def)
next
  case (Cons f fs)
  have "writes (then_put (\<lambda>po. asn_put_few_bits po (fst f) (int (snd f))) (put_fields fs))
      (nat_bl (snd f) (unat (fst f)) @ field_code fs)"
    using Cons by (intro then_put_writes few_bits_writes) auto
  then show ?case by (simp add: writes_def field_code_def split_beta)
qed

lemma get_fields_reads:
  "list_all field_ok fs \<Longrightarrow> reads (get_fields (map snd fs)) (field_code fs) (map (\<lambda>(v, n). int (unat v mod 2 ^ n)) fs)"
proof (induction fs)
  case Nil
  then show ?case by (auto intro!: readsI consumes_refl simp: field_code_def)
next
  case (Cons f fs)
  show ?case
  proof (rule readsI)
    fix pd rest assume pd: "pd_inv pd" "src_bits pd = field_code (f # fs) @ rest"
    then have "src_bits pd = nat_bl (snd f) (unat (fst f)) @ (field_code fs @ rest)"
      by (simp add: field_code_def split_beta)
    from few_bits.dec_reads [of "snd f" "fst f"] pd(1) this Cons.prems obtain p where
      p: "asn_get_few_bits pd (int (snd f)) = (int (unat (fst f) mod 2 ^ snd f), p)"
        "consumes pd (nat_bl (snd f) (unat (fst f))) p" "src_bits p = field_code fs @ rest" "pd_inv p"
      by (auto elim: readsE)
    from Cons.IH Cons.prems p(3,4) obtain q where
      q: "get_fields (map snd fs) p = (map (\<lambda>(v, n). int (unat v mod 2 ^ n)) fs, q)"
        "consumes p (field_code fs) q" "src_bits q = rest"
      by (auto elim: readsE)
    have "consumes pd (field_code (f # fs)) q"
      using consumes_trans [OF p(2) q(2)] by (simp add: field_code_def split_beta)
    then show "\<exists>pd'. get_fields (map snd (f # fs)) pd = (map (\<lambda>(v, n). int (unat v mod 2 ^ n)) (f # fs), pd') \<and>
        consumes pd (field_code (f # fs)) pd' \<and> src_bits pd' = rest"
      using p(1) q by (simp add: split_beta)
  qed
qed

interpretation fields: bit_codec put_fields "get_fields ns"
  "\<lambda>fs. list_all field_ok fs \<and> map snd fs = ns" field_code "map (\<lambda>(v, n). int (unat v mod 2 ^ n))" for ns
  using put_fields_writes get_fields_reads by unfold_locales auto

section \<open>Properties of the bit streams\<close>

text \<open>
  \<open>asn_get_few_bits\<close> on a well-formed stream. With enough bits left it returns
  the next \<open>n\<close> bits as a big-endian number and leaves the rest of the stream, the bit
  position and \<open>moved\<close> advanced by \<open>n\<close>; with too few it returns -1 and the
  stream is untouched.
\<close>

theorem asn_get_few_bits_correct:
  assumes "pd_inv pd" "n \<le> 31"
  shows "if n \<le> length (src_bits pd)
    then \<exists>pd'. asn_get_few_bits pd (int n) = (int (bl_nat (take n (src_bits pd))), pd') \<and>
      pd_inv pd' \<and> src_bits pd' = drop n (src_bits pd) \<and> pd_octets pd' = pd_octets pd \<and>
      pd_pos pd' = pd_pos pd + n \<and> pd_moved pd' = pd_moved pd + n
    else asn_get_few_bits pd (int n) = (-1, pd)"
  using asn_get_few_bits_ok [OF assms(1) _ assms(2)] consumes_advance [OF assms(1), of n]
    src_bits_advance [OF assms(1), of n] asn_get_few_bits_starved [OF assms(1), of n]
  by (auto simp: consumes_def min_def)

theorem asn_get_few_bits_correct_witness:
  "\<exists>pd'. asn_get_few_bits (new_pd [0xA5, 0x3C] 3 16) (int 9) = (int (bl_nat (take 9 (src_bits (new_pd [0xA5, 0x3C] 3 16)))), pd')"
proof -
  have "pd_inv (new_pd [0xA5, 0x3C] 3 16)" "9 \<le> length (src_bits (new_pd [0xA5, 0x3C] 3 16))" by simp_all
  moreover have "(9::nat) \<le> 31" by simp
  ultimately show ?thesis
    using asn_get_few_bits_correct [of "new_pd [0xA5, 0x3C] 3 16" 9] by (simp only: if_True) blast
qed

text \<open>
  \<open>asn_get_many_bits\<close> without right alignment copies the next \<open>n\<close> bits,
  left aligned and padded with zero bits to whole octets, and consumes exactly them; a
  stream with fewer bits is refused.
\<close>

theorem asn_get_many_bits_correct:
  assumes "pd_inv pd"
  shows "if n \<le> length (src_bits pd)
    then \<exists>pd'. asn_get_many_bits pd False (int n) = (0, octets_of (pad8 (take n (src_bits pd))), pd') \<and>
      consumes pd (take n (src_bits pd)) pd'
    else fst (asn_get_many_bits pd False (int n)) = -1"
proof (cases "n \<le> length (src_bits pd)")
  case True
  have "src_bits pd = take n (src_bits pd) @ drop n (src_bits pd)" by simp
  moreover have "length (take n (src_bits pd)) = n" using True by simp
  ultimately show ?thesis using asn_get_many_bits_ok [OF assms] True by (metis (no_types, lifting))
next
  case False
  then show ?thesis using asn_get_many_bits_starved [OF assms] by simp
qed

theorem asn_get_many_bits_correct_witness:
  "\<exists>pd'. asn_get_many_bits (new_pd [0xA5, 0x3C] 3 16) False (int 9) =
     (0, octets_of (pad8 (take 9 (src_bits (new_pd [0xA5, 0x3C] 3 16)))), pd')"
proof -
  have "pd_inv (new_pd [0xA5, 0x3C] 3 16)" "9 \<le> length (src_bits (new_pd [0xA5, 0x3C] 3 16))" by simp_all
  with asn_get_many_bits_correct [of "new_pd [0xA5, 0x3C] 3 16" 9] show ?thesis
    by (simp only: if_True) blast
qed

text \<open>
  \<open>asn_get_undo\<close> takes back the immediately preceding \<open>asn_get_few_bits\<close>:
  the stream of bits, the bit position and \<open>moved\<close> are what they were.
\<close>

theorem asn_get_undo_restores:
  assumes "pd_inv pd" "n \<le> length (src_bits pd)" "n \<le> 31" "asn_get_few_bits pd (int n) = (v, pd')"
  shows "src_bits (asn_get_undo pd' (int n)) = src_bits pd \<and> pd_inv (asn_get_undo pd' (int n)) \<and>
    pd_pos (asn_get_undo pd' (int n)) = pd_pos pd \<and> pd_moved (asn_get_undo pd' (int n)) = pd_moved pd"
  using get_undo_few_bits [OF assms] pd_normalize_facts [OF assms(1)] by simp

theorem asn_get_undo_restores_witness:
  "src_bits (asn_get_undo (snd (asn_get_few_bits (new_pd [0xA5, 0x3C] 3 16) (int 9))) (int 9)) =
     src_bits (new_pd [0xA5, 0x3C] 3 16)"
proof -
  have "pd_inv (new_pd [0xA5, 0x3C] 3 16)" "9 \<le> length (src_bits (new_pd [0xA5, 0x3C] 3 16))" "(9::nat) \<le> 31"
    by simp_all
  from asn_get_undo_restores [OF this prod.collapse [symmetric]] show ?thesis by blast
qed

text \<open>
  \<open>asn_put_few_bits\<close> succeeds on every well-formed writer whose consumer
  accepts, for up to 31 bits, and appends exactly the low \<open>n\<close> bits of the value to
  the bits written so far, whether or not the call flushes the scratch octets.
\<close>

theorem asn_put_few_bits_correct:
  assumes "po_inv po" "n \<le> 31"
  shows "\<exists>po'. asn_put_few_bits po v (int n) = (0, po') \<and> po_inv po' \<and>
    out_bits po' = out_bits po @ nat_bl n (unat v) \<and>
    8 * po_flushed_bytes po' + length (pending po') = 8 * po_flushed_bytes po + length (pending po) + n"
proof -
  obtain po' where p: "asn_put_few_bits po v (int n) = (0, po')" "puts po (nat_bl n (unat v)) po'"
    using asn_put_few_bits_ok [OF assms, of v] by blast
  then have "length (out_bits po') = length (out_bits po) + n" by (simp add: puts_def)
  then show ?thesis using p by (auto simp: puts_def out_bits_def)
qed

theorem asn_put_few_bits_correct_witness:
  "\<exists>po'. asn_put_few_bits (new_outp write_buffer (Key_vector [])) 5 (int 3) = (0, po') \<and>
     out_bits po' = nat_bl 3 5"
  using asn_put_few_bits_correct [OF new_outp_inv [OF vector.ok_absorbs, of "Key_vector []"], of 3 5] by auto

text \<open>
  C32: a sequence of bit fields written with \<open>asn_put_few_bits\<close>, flushed with
  \<open>asn_put_aligned_flush\<close> and read back with \<open>asn_get_few_bits\<close> from the
  octets the consumer received gives the values back, reduced to their widths, and ends
  at the bit position after the last field; the octets are the fields padded with zero
  bits.
\<close>

theorem bit_fields_roundtrip:
  assumes "list_all (\<lambda>f. snd f \<le> 31) fs" "absorbs cb key" "key_contents key = []"
  shows "\<exists>po po' pd'. put_fields fs (new_outp cb key) = (0, po) \<and> asn_put_aligned_flush po = (0, po') \<and>
    (let octs = key_contents (po_op_key po')
     in bits_of octs = pad8 (field_code fs) \<and>
        get_fields (map snd fs) (new_pd octs 0 (8 * length octs)) =
          (map (\<lambda>(v, n). int (unat v mod 2 ^ n)) fs, pd') \<and>
        pd_pos pd' = length (field_code fs))"
  using fields.wire_roundtrip [of fs "map snd fs"] assms by simp

theorem bit_fields_roundtrip_witness:
  "\<exists>po po' pd'. put_fields [(5, 3), (1000, 10), (0x7FFFFFFF, 31)] (new_outp write_buffer (Key_vector [])) = (0, po) \<and>
    asn_put_aligned_flush po = (0, po') \<and>
    get_fields [3, 10, 31] (new_pd (key_contents (po_op_key po')) 0 (8 * length (key_contents (po_op_key po')))) =
      ([5, 1000, 0x7FFFFFFF], pd')"
  using bit_fields_roundtrip [OF _ vector.ok_absorbs, of "[(5, 3), (1000, 10), (0x7FFFFFFF, 31)]" "Key_vector []"]
  by (simp add: Let_def) blast

end
