(* ===== verification/Uper_Support.thy ===== *)
theory Uper_Support
  imports Bit_Stream
begin

unbundle bit_operations_syntax

text \<open>
  The number and length encodings of unaligned PER: \<open>support/uper_support.c\<close>, in the
  order of the file, and the constraint records of \<open>support/per_support.h\<close>.
  \<open>ssize_t\<close> and \<open>int\<close> results are \<open>int\<close> with -1 for an error, out
  parameters are part of the result (an option where a status says whether they were
  written). The \<open>assert\<close>s of the range functions are proved, not assumed: the model
  has no abort.
\<close>

record asn_per_constraint =
  apc_semi_constrained :: bool
  apc_constrained :: bool
  apc_extensible :: bool
  range_bits :: int
  effective_bits :: int
  lower_bound :: intmax
  upper_bound :: intmax

record asn_per_constraints =
  pc_value :: asn_per_constraint
  pc_size :: asn_per_constraint
  pc_value2code :: "(nat \<Rightarrow> int) option"
  pc_code2value :: "(nat \<Rightarrow> int) option"

section \<open>Length determinants and small numbers\<close>

definition uper_get_length :: "asn_bit_data \<Rightarrow> int \<Rightarrow> nat \<Rightarrow> (int \<times> bool) \<times> asn_bit_data" where
  "uper_get_length pd ebits lb =
     (if ebits \<ge> 0 \<and> ebits \<le> 16 then
        (case asn_get_few_bits pd ebits of (v, pd') \<Rightarrow>
           ((if v \<ge> 0 then v + int lb else v, False), pd'))
      else
        (case asn_get_few_bits pd 8 of (v, pd') \<Rightarrow>
           if v AND 0x80 = 0 then ((v AND 0x7F, False), pd')
           else if v AND 0x40 = 0 then
             (case asn_get_few_bits pd' 8 of (w, pd'') \<Rightarrow> ((push_bit 8 (v AND 0x3f) OR w, False), pd''))
           else if v < 0 then ((-1, False), pd')
           else let m = v AND 0x3f
             in if m < 1 \<or> m > 4 then ((-1, False), pd') else ((16384 * m, True), pd')))"

definition uper_get_nslength :: "asn_bit_data \<Rightarrow> int \<times> asn_bit_data" where
  "uper_get_nslength pd =
     (case asn_get_few_bits pd 1 of (b, pd1) \<Rightarrow>
        if b = 0 then
          (case asn_get_few_bits pd1 6 of (v, pd2) \<Rightarrow> (if v + 1 \<le> 0 then -1 else v + 1, pd2))
        else
          (case uper_get_length pd1 (-1) 0 of ((l, repeat), pd2) \<Rightarrow>
             (if l \<ge> 0 \<and> \<not> repeat then l else -1, pd2)))"

definition uper_get_nsnnwn :: "asn_bit_data \<Rightarrow> int \<times> asn_bit_data" where
  "uper_get_nsnnwn pd =
     (case asn_get_few_bits pd 7 of (v, pd1) \<Rightarrow>
        if v AND 64 \<noteq> 0 then
          (case asn_get_few_bits pd1 2 of (w, pd2) \<Rightarrow>
             let v1 = push_bit 2 (v AND 63) OR w
             in if v1 AND 128 \<noteq> 0 then (-1, pd2)
                else if v1 = 0 then (0, pd2)
                else if v1 \<ge> 3 then (-1, pd2)
                else asn_get_few_bits pd2 (8 * v1))
        else (v, pd1))"

definition uper_put_nsnnwn :: "asn_bit_outp \<Rightarrow> int \<Rightarrow> int \<times> asn_bit_outp" where
  "uper_put_nsnnwn po n =
     (if n \<le> 63 then if n < 0 then (-1, po) else asn_put_few_bits po (word_of_int n) 7
      else if n < 256 * 65536 then
        let bytes = (if n < 256 then 1 else if n < 65536 then 2 else 3)
        in (case asn_put_few_bits po (word_of_int bytes) 8 of (r, po1) \<Rightarrow>
              if r \<noteq> 0 then (-1, po1) else asn_put_few_bits po1 (word_of_int n) (8 * bytes))
      else (-1, po))"

function uper_get_constrained_whole_number :: "asn_bit_data \<Rightarrow> int \<Rightarrow> uintmax option \<times> asn_bit_data" where
  "uper_get_constrained_whole_number pd nbits =
     (if nbits \<le> 31 then
        (case asn_get_few_bits pd nbits of (half, pd1) \<Rightarrow>
           if half < 0 then (None, pd1) else (Some (word_of_int half), pd1))
      else if nbits > 64 then (None, pd)
      else
        (case asn_get_few_bits pd 31 of (half, pd1) \<Rightarrow>
           if half < 0 then (None, pd1)
           else (case uper_get_constrained_whole_number pd1 (nbits - 31) of
               (None, pd2) \<Rightarrow> (None, pd2)
             | (Some lhalf, pd2) \<Rightarrow> (Some (push_bit (nat (nbits - 31)) (word_of_int half) OR lhalf), pd2))))"
  by pat_completeness auto
termination
  by (relation "measure (\<lambda>(pd, nbits). nat nbits)") auto

declare uper_get_constrained_whole_number.simps [simp del]

function uper_put_constrained_whole_number_u :: "asn_bit_outp \<Rightarrow> uintmax \<Rightarrow> int \<Rightarrow> int \<times> asn_bit_outp" where
  "uper_put_constrained_whole_number_u po v nbits =
     (if nbits \<le> 31 then asn_put_few_bits po (ucast v) nbits
      else
        (case uper_put_constrained_whole_number_u po (drop_bit 31 v) (nbits - 31) of (r, po1) \<Rightarrow>
           if r \<noteq> 0 then (-1, po1) else asn_put_few_bits po1 (ucast v) 31))"
  by pat_completeness auto
termination
  by (relation "measure (\<lambda>(po, v, nbits). nat nbits)") auto

declare uper_put_constrained_whole_number_u.simps [simp del]

definition uper_put_length :: "asn_bit_outp \<Rightarrow> nat \<Rightarrow> (int \<times> bool) \<times> asn_bit_outp" where
  "uper_put_length po len =
     (if len \<le> 127 then
        (case asn_put_few_bits po (word_of_nat len) 8 of (r, po1) \<Rightarrow> ((if r \<noteq> 0 then -1 else int len, False), po1))
      else if len < 16384 then
        (case asn_put_few_bits po (word_of_nat len OR 0x8000) 16 of (r, po1) \<Rightarrow> ((if r \<noteq> 0 then -1 else int len, False), po1))
      else
        let eom = (len AND 16383 = 0);
            l = drop_bit 14 len;
            need_eom = (if l > 4 then False else eom);
            l' = (if l > 4 then 4 else l)
        in (case asn_put_few_bits po (0xC0 OR word_of_nat l') 8 of (r, po1) \<Rightarrow>
              ((if r \<noteq> 0 then -1 else int (push_bit 14 l'), need_eom), po1)))"

definition uper_put_nslength :: "asn_bit_outp \<Rightarrow> nat \<Rightarrow> int \<times> asn_bit_outp" where
  "uper_put_nslength po len =
     (if len \<le> 64 then
        if len = 0 then (-1, po)
        else (case asn_put_few_bits po (word_of_nat (len - 1)) 7 of (r, po1) \<Rightarrow> (if r \<noteq> 0 then -1 else 0, po1))
      else
        (case uper_put_length po len of ((r, need_eom), po1) \<Rightarrow>
           (if r \<noteq> int len \<or> need_eom then -1 else 0, po1)))"

section \<open>Ranges of signed numbers\<close>

definition imax_range :: "intmax \<Rightarrow> intmax \<Rightarrow> uintmax option" where
  "imax_range lb ub =
     (if (ub <s 0) = (lb <s 0) then Some (ub - lb)
      else if lb <s 0 then Some (1 + (ub + - (lb + 1)))
      else None)"

definition per_imax_range_rebase :: "intmax \<Rightarrow> intmax \<Rightarrow> intmax \<Rightarrow> uintmax option" where
  "per_imax_range_rebase v lb ub =
     (if v <s lb \<or> ub <s v then None
      else case imax_range lb ub of None \<Rightarrow> None
        | Some rng \<Rightarrow>
            if (v <s 0) = (lb <s 0) then Some (v - lb)
            else if v <s 0 then Some (1 + - (v + 1) + lb)
            else if lb <s 0 then Some (1 + - (lb + 1) + v)
            else None)"

definition per_long_range_rebase :: "intmax \<Rightarrow> intmax \<Rightarrow> intmax \<Rightarrow> uintmax option" where
  "per_long_range_rebase v lb ub = per_imax_range_rebase v lb ub"

definition INTMAX_MAX :: uintmax where
  "INTMAX_MAX = 0x7FFFFFFFFFFFFFFF"

definition per_imax_range_unrebase :: "uintmax \<Rightarrow> intmax \<Rightarrow> intmax \<Rightarrow> intmax option" where
  "per_imax_range_unrebase inp lb ub =
     (case imax_range lb ub of None \<Rightarrow> None
      | Some rng \<Rightarrow>
          if inp > rng then None
          else if inp \<le> INTMAX_MAX then Some (inp + lb)
          else Some ((lb + INTMAX_MAX + 1) + ((inp - INTMAX_MAX) - 1)))"

definition per_long_range_unrebase :: "uintmax \<Rightarrow> intmax \<Rightarrow> intmax \<Rightarrow> intmax option" where
  "per_long_range_unrebase inp lb ub = per_imax_range_unrebase inp lb ub"

section \<open>Length determinants on the wire\<close>

lemma length_octet_bits:
  fixes q :: int
  assumes "0 \<le> q" "q < 64"
  shows "(128 + q) AND 128 \<noteq> 0" "(128 + q) AND 64 = 0" "(128 + q) AND 63 = q"
    "(192 + q) AND 128 \<noteq> 0" "(192 + q) AND 64 \<noteq> 0" "(192 + q) AND 63 = q"
proof -
  have "(128 + q) div 128 = 1" "(128 + q) div 64 = 2" "(128 + q) mod 64 = q"
    "(192 + q) div 128 = 1" "(192 + q) div 64 = 3" "(192 + q) mod 64 = q"
    using assms int_div_pos_eq [of "128 + q" 128 1 q] int_div_pos_eq [of "128 + q" 64 2 q]
      int_mod_pos_eq [of "128 + q" 64 2 q] int_div_pos_eq [of "192 + q" 128 1 "64 + q"]
      int_div_pos_eq [of "192 + q" 64 3 q] int_mod_pos_eq [of "192 + q" 64 3 q] by simp_all
  then show "(128 + q) AND 128 \<noteq> 0" "(128 + q) AND 64 = 0" "(128 + q) AND 63 = q"
    "(192 + q) AND 128 \<noteq> 0" "(192 + q) AND 64 \<noteq> 0" "(192 + q) AND 63 = q"
    by (simp_all only: and_single_bit and_low_bits even_numeral odd_numeral odd_one not_False_eq_True)
qed

definition length_part :: "nat \<Rightarrow> nat" where
  "length_part n = (if n < 16384 then n else 16384 * min 4 (n div 16384))"

definition length_code :: "nat \<Rightarrow> bool list" where
  "length_code n =
     (if n \<le> 127 then nat_bl 8 n
      else if n < 16384 then nat_bl 16 (0x8000 + n)
      else nat_bl 8 (0xC0 + min 4 (n div 16384)))"

lemma uper_put_length_ok:
  assumes "po_inv po"
  shows "\<exists>po'. uper_put_length po n =
    ((int (length_part n), 16384 \<le> n \<and> n div 16384 \<le> 4 \<and> n mod 16384 = 0), po') \<and> puts po (length_code n) po'"
proof -
  consider "n \<le> 127" | "127 < n" "n < 16384" | "16384 \<le> n" by linarith
  then show ?thesis
  proof cases
    case 1
    obtain po' where "asn_put_few_bits po (word_of_nat n) (int 8) = (0, po')" "puts po (nat_bl 8 n) po'"
      by (rule put_few_nat [OF assms, of 8 "word_of_nat n" n]) (use 1 in \<open>auto simp: unat_nat32\<close>)
    with 1 show ?thesis by (simp add: uper_put_length_def length_part_def length_code_def)
  next
    case 2
    have "unat (word_of_nat n OR 0x8000 :: uint32) = 0x8000 + n"
      using 2 by (simp add: unsigned_or_eq unat_nat32 nat_or_high)
    then obtain po' where "asn_put_few_bits po (word_of_nat n OR 0x8000) (int 16) = (0, po')"
      "puts po (nat_bl 16 (0x8000 + n)) po'"
      by (rule put_few_nat [OF assms, of 16, rotated]) simp_all
    with 2 show ?thesis by (simp add: uper_put_length_def length_part_def length_code_def)
  next
    case 3
    let ?l = "min 4 (n div 16384)"
    have "unat (0xC0 OR word_of_nat ?l :: uint32) = 0xC0 + ?l"
      by (simp add: unsigned_or_eq unat_nat32 nat_or_high min_def)
    then obtain po' where "asn_put_few_bits po (0xC0 OR word_of_nat ?l) (int 8) = (0, po')"
      "puts po (nat_bl 8 (0xC0 + ?l)) po'"
      by (rule put_few_nat [OF assms, of 8, rotated]) simp_all
    with 3 show ?thesis
      by (auto simp: uper_put_length_def length_part_def length_code_def and_low_bits drop_bit_eq_div push_bit_eq_mult Let_def min_def)
  qed
qed

lemma uper_put_length_eom:
  assumes "po_inv po"
  shows "\<exists>po'. uper_put_length po n = ((int (length_part n), 16384 \<le> n \<and> length_part n = n), po') \<and>
    puts po (length_code n) po'"
proof -
  have "(16384 \<le> n \<and> n div 16384 \<le> 4 \<and> n mod 16384 = 0) = (16384 \<le> n \<and> length_part n = n)"
    by (auto simp: length_part_def min_def) (metis mod_mult_self1_is_0)
  with uper_put_length_ok [OF assms, of n] show ?thesis by simp
qed

lemma uper_get_length_reads:
  assumes "ebits < 0 \<or> 16 < ebits"
  shows "reads (\<lambda>pd. uper_get_length pd ebits lb) (length_code n) (int (length_part n), 16384 \<le> n)"
proof -
  define rest where "rest = (\<lambda>v pd'. if v AND 0x80 = 0 then ((v AND 0x7F, False), pd')
           else if v AND 0x40 = 0 then
             (case asn_get_few_bits pd' 8 of (w, pd'') \<Rightarrow> ((push_bit 8 (v AND 0x3f) OR w, False), pd''))
           else if v < 0 then ((-1, False), pd')
           else let m = v AND 0x3f
             in if m < 1 \<or> m > 4 then ((-1, False), pd') else ((16384 * m, True), pd'))"
  have dec: "(\<lambda>pd. uper_get_length pd ebits lb) = (\<lambda>pd. case asn_get_few_bits pd (int 8) of (v, pd') \<Rightarrow> rest v pd')"
    using assms by (auto simp: uper_get_length_def rest_def)
  consider "n \<le> 127" | "127 < n" "n < 16384" | "16384 \<le> n" by linarith
  then show ?thesis
  proof cases
    case 1
    then have "rest (int (n mod 2 ^ 8)) = (\<lambda>pd. ((int n, False), pd))"
      by (auto simp: rest_def bitstr)
    with 1 show ?thesis
      by (intro reads_then [OF few_bits_at [of 8 n] _ dec, of "[]"])
        (auto simp: length_code_def length_part_def reads_return)
  next
    case 2
    have hd: "(0x8000 + n) div 2 ^ 8 mod 2 ^ 8 = 0x80 + n div 256" using 2 by simp
    have split: "nat_bl 16 (0x8000 + n) = nat_bl 8 ((0x8000 + n) div 2 ^ 8) @ nat_bl 8 (0x8000 + n)"
      using nat_bl_add [of 8 8] by simp
    have "reads (rest (int (0x80 + n div 256))) (nat_bl 8 (0x8000 + n)) (int n, False)"
    proof (rule reads_then [where g = "\<lambda>r pd'. ((push_bit 8 (int (n div 256)) OR r, False), pd')",
          OF few_bits_at [of 8 "0x8000 + n"]])
      have "int (n div 256) * 2 ^ 8 + int (n mod 256) = int n" by (simp add: zdiv_int zmod_int)
      moreover have "push_bit 8 (int (n div 256)) OR int (n mod 256) = int (n div 256) * 2 ^ 8 + int (n mod 256)"
        by (rule int_or_shift) simp_all
      moreover have "(32768 + n) mod 256 = n mod 256" using mod_mult_self4 [of 256 128 n] by simp
      ultimately show "reads (\<lambda>pd'. ((push_bit 8 (int (n div 256)) OR int ((0x8000 + n) mod 2 ^ 8), False), pd')) [] (int n, False)"
        using reads_return by simp
      show "rest (int (0x80 + n div 256)) = (\<lambda>pd. case asn_get_few_bits pd (int 8) of
          (r, pd') \<Rightarrow> ((push_bit 8 (int (n div 256)) OR r, False), pd'))"
        using 2 length_octet_bits [of "int (n div 256)"] by (simp add: rest_def)
    qed auto
    with 2 show ?thesis
      by (intro reads_then [OF few_bits_at [of 8 "(0x8000 + n) div 2 ^ 8", unfolded hd] _ dec])
        (auto simp: length_code_def length_part_def split)
  next
    case 3
    define l where "l = min 4 (n div 16384)"
    have l: "1 \<le> l" "l \<le> 4" using 3 by (auto simp: l_def Suc_le_eq div_greater_zero_iff)
    then have "rest (int ((0xC0 + l) mod 2 ^ 8)) = (\<lambda>pd. ((16384 * int l, True), pd))"
      using length_octet_bits [of "int l"] by (auto simp: rest_def Let_def)
    with 3 l show ?thesis
      by (intro reads_then [OF few_bits_at [of 8 "0xC0 + l"] _ dec, of "[]"])
        (auto simp: length_code_def length_part_def reads_return l_def)
  qed
qed
section \<open>Codecs of the PER numbers\<close>

lemma constrained_whole_number_writes:
  "writes (\<lambda>po. uper_put_constrained_whole_number_u po v (int n)) (nat_bl n (unat v))"
proof (induction n arbitrary: v rule: less_induct)
  case (less n)
  show ?case
  proof (cases "n \<le> 31")
    case True
    then have "nat_bl n (unat v) = nat_bl n (unat (ucast v :: uint32))"
      using nat_bl_mod [of n 32 "unat v"] by (simp add: unsigned_ucast_eq take_bit_eq_mod)
    with True show ?thesis
      using few_bits_writes [of n "ucast v"] by (simp add: uper_put_constrained_whole_number_u.simps)
  next
    case False
    have "writes (\<lambda>po. uper_put_constrained_whole_number_u po (drop_bit 31 v) (int (n - 31)))
        (nat_bl (n - 31) (unat v div 2 ^ 31))"
      using less [of "n - 31" "drop_bit 31 v"] False by simp
    moreover have "writes (\<lambda>po. asn_put_few_bits po (ucast v) (int 31)) (nat_bl 31 (unat v))"
      using few_bits_writes [of 31 "ucast v"] nat_bl_mod [of 31 32 "unat v"]
      by (simp add: unsigned_ucast_eq take_bit_eq_mod)
    ultimately have "writes (then_put (\<lambda>po. uper_put_constrained_whole_number_u po (drop_bit 31 v) (int (n - 31)))
        (\<lambda>po. asn_put_few_bits po (ucast v) (int 31))) (nat_bl n (unat v))"
      using nat_bl_add [of "n - 31" 31 "unat v"] False then_put_writes by fastforce
    then show ?thesis using False
      by (simp add: then_put_def [abs_def] uper_put_constrained_whole_number_u.simps [of _ v "int n"] of_nat_diff)
  qed
qed

lemma constrained_whole_number_reads:
  "n \<le> 64 \<Longrightarrow> reads (\<lambda>pd. uper_get_constrained_whole_number pd (int n)) (nat_bl n v) (Some (word_of_nat (v mod 2 ^ n)))"
proof (induction n rule: less_induct)
  case (less n)
  show ?case
  proof (cases "n \<le> 31")
    case True
    show ?thesis
      by (rule reads_then [where g = "\<lambda>half pd. if half < 0 then (None, pd) else (Some (word_of_int half), pd)",
            OF few_bits_at [OF True, of v]])
        (use True reads_return in \<open>auto simp: uper_get_constrained_whole_number.simps fun_eq_iff\<close>)
  next
    case False
    define k where "k = n - 31"
    have k: "k \<le> 33" "0 < k" "n = 31 + k" using False less.prems by (auto simp: k_def)
    let ?h = "v div 2 ^ k mod 2 ^ 31"
    let ?join = "push_bit k (word_of_nat ?h) OR word_of_nat (v mod 2 ^ k) :: uintmax"
    have "unat (word_of_nat ?h :: uintmax) = ?h" "unat (word_of_nat (v mod 2 ^ k) :: uintmax) = v mod 2 ^ k"
      using k power_increasing [of k 33 "2::nat"]
      by (auto simp: unat_of_nat intro!: mod_less order_less_le_trans [OF mod_less_divisor])
    moreover have "?h * 2 ^ k < 2 ^ 31 * 2 ^ k" by simp
    then have "?h * 2 ^ k < 2 ^ 64" using k power_increasing [of "31 + k" 64 "2::nat"]
      by (simp only: power_add) linarith
    ultimately have "unat ?join = ?h * 2 ^ k + v mod 2 ^ k" by (subst unat_or_shift) simp_all
    also have "\<dots> = v mod 2 ^ n"
      using k mod_mult2_eq [of v "2 ^ k" "2 ^ 31"] by (simp add: power_add mult.commute)
    finally have "word_of_nat (unat ?join) = (word_of_nat (v mod 2 ^ n) :: uintmax)" by (rule arg_cong)
    then have join: "?join = word_of_nat (v mod 2 ^ n)" by (simp only: of_nat_unat_id)
    let ?g = "\<lambda>half pd1. if half < 0 then (None, pd1)
           else (case uper_get_constrained_whole_number pd1 (int k) of
               (None, pd2) \<Rightarrow> (None, pd2)
             | (Some lhalf, pd2) \<Rightarrow> (Some (push_bit k (word_of_int half) OR lhalf), pd2))"
    have "reads (?g (int ?h)) (nat_bl k v) (Some (word_of_nat (v mod 2 ^ n)))"
      by (rule reads_then [where ys = "[]" and g = "\<lambda>r pd. case r of None \<Rightarrow> (None, pd) |
            Some l \<Rightarrow> (Some (push_bit k (word_of_int (int ?h)) OR l), pd)", OF less.IH [of k]])
        (use k join reads_return in \<open>auto simp: fun_eq_iff split: prod.splits option.splits\<close>)
    then show ?thesis
      by (rule reads_then [where g = ?g, OF few_bits_at [of 31 "v div 2 ^ k", OF order_refl]])
        (use k nat_bl_add [of 31 k v] in \<open>auto simp: uper_get_constrained_whole_number.simps [of _ "31 + int k"] cong: option.case_cong prod.case_cong if_cong\<close>)
  qed
qed

interpretation whole_number: bit_codec "\<lambda>v po. uper_put_constrained_whole_number_u po v (int n)"
  "\<lambda>pd. uper_get_constrained_whole_number pd (int n)" "\<lambda>v. n \<le> 64 \<and> unat v < 2 ^ n" "\<lambda>v. nat_bl n (unat v)" Some for n
  using constrained_whole_number_writes constrained_whole_number_reads by unfold_locales (auto, metis mod_less of_nat_unat_id)

text \<open>The status of \<open>uper_put_length\<close> for a length it can write in one piece.\<close>

definition put_length_status :: "nat \<Rightarrow> asn_bit_outp \<Rightarrow> int \<times> asn_bit_outp" where
  "put_length_status len po = (case uper_put_length po len of ((r, need_eom), po1) \<Rightarrow> (if r < 0 then -1 else 0, po1))"

lemma put_length_writes: "writes (put_length_status n) (length_code n)"
proof (rule writesI)
  fix po assume "po_inv po"
  from uper_put_length_ok [OF this, of n] show "\<exists>po'. put_length_status n po = (0, po') \<and> puts po (length_code n) po'"
    by (auto simp: put_length_status_def)
qed

interpretation length_determinant: bit_codec put_length_status "\<lambda>pd. uper_get_length pd (-1) 0"
  "\<lambda>n. True" length_code "\<lambda>n. (int (length_part n), 16384 \<le> n)"
  using put_length_writes uper_get_length_reads by unfold_locales auto

lemma nslength_writes: "0 < n \<Longrightarrow> n \<le> 64 \<Longrightarrow> writes (\<lambda>po. uper_put_nslength po n) (nat_bl 7 (n - 1))"
  by (rule writesI, rule put_few_nat [of _ 7 "word_of_nat (n - 1)" "n - 1"])
    (auto simp: uper_put_nslength_def unat_nat32 simp del: of_nat_diff)

lemma nslength_reads:
  assumes "0 < n" "n \<le> 64"
  shows "reads uper_get_nslength (nat_bl 7 (n - 1)) (int n)"
proof -
  let ?tail = "\<lambda>pd1. case asn_get_few_bits pd1 (int 6) of (v, pd2) \<Rightarrow> (if v + 1 \<le> 0 then -1 else v + 1, pd2)"
  have tail: "reads ?tail (nat_bl 6 (n - 1)) (int n)"
    by (rule reads_then [where g = "\<lambda>v pd. (if v + 1 \<le> 0 then -1 else v + 1, pd)", OF few_bits_at [of 6 "n - 1"]])
      (use assms in \<open>auto intro!: reads_return\<close>)
  have 1: "reads (\<lambda>pd. asn_get_few_bits pd (int 1)) (nat_bl 1 ((n - 1) div 2 ^ 6)) 0"
    using few_bits_at [of 1 "(n - 1) div 2 ^ 6"] assms by simp
  have split: "nat_bl 7 (n - 1) = nat_bl 1 ((n - 1) div 2 ^ 6) @ nat_bl 6 (n - 1)"
    unfolding nat_bl_add [symmetric] by (simp only: one_plus_numeral semiring_norm)
  show ?thesis
    by (rule reads_then [where g = "\<lambda>b pd1. if b = 0 then ?tail pd1 else
          (case uper_get_length pd1 (-1) 0 of ((l, repeat), pd2) \<Rightarrow> (if l \<ge> 0 \<and> \<not> repeat then l else -1, pd2))",
          OF 1 _ _ split]) (simp only: simp_thms if_True tail, simp add: uper_get_nslength_def fun_eq_iff split_beta)
qed

interpretation normally_small_length: bit_codec "\<lambda>n po. uper_put_nslength po n" uper_get_nslength
  "\<lambda>n. 0 < n \<and> n \<le> 64" "\<lambda>n. nat_bl 7 (n - 1)" int
  using nslength_writes nslength_reads by unfold_locales auto

lemma nsnnwn_writes: "n \<le> 63 \<Longrightarrow> writes (\<lambda>po. uper_put_nsnnwn po (int n)) (nat_bl 7 n)"
  by (rule writesI, rule put_few_nat [of _ 7 "word_of_nat n" n]) (auto simp: uper_put_nsnnwn_def unat_nat32)

lemma nsnnwn_small:
  assumes "n mod 128 \<le> 63"
  shows "reads uper_get_nsnnwn (nat_bl 7 n) (int (n mod 128))"
  by (rule reads_then [where g = "\<lambda>v pd1. if v AND 64 \<noteq> 0 then
          (case asn_get_few_bits pd1 2 of (w, pd2) \<Rightarrow>
             let v1 = push_bit 2 (v AND 63) OR w
             in if v1 AND 128 \<noteq> 0 then (-1, pd2)
                else if v1 = 0 then (0, pd2)
                else if v1 \<ge> 3 then (-1, pd2)
                else asn_get_few_bits pd2 (8 * v1))
        else (v, pd1)", OF few_bits_at [of 7 n]])
    (use assms in \<open>auto simp: uper_get_nsnnwn_def and_single_bit fun_eq_iff intro!: reads_return\<close>)

interpretation normally_small_number: bit_codec "\<lambda>n po. uper_put_nsnnwn po (int n)" uper_get_nsnnwn
  "\<lambda>n. n \<le> 63" "nat_bl 7" int
proof unfold_locales
  fix n :: nat assume n: "n \<le> 63"
  then show "writes (\<lambda>po. uper_put_nsnnwn po (int n)) (nat_bl 7 n)" by (rule nsnnwn_writes)
  from n show "reads uper_get_nsnnwn (nat_bl 7 n) (int n)" using nsnnwn_small [of n] by simp
qed
definition nsnnwn_bytes :: "nat \<Rightarrow> nat" where
  "nsnnwn_bytes n = (if n < 256 then 1 else if n < 65536 then 2 else 3)"

lemma nsnnwn_large_writes:
  assumes "64 \<le> n" "n < 256 * 65536"
  shows "writes (\<lambda>po. uper_put_nsnnwn po (int n)) (nat_bl 8 (nsnnwn_bytes n) @ nat_bl (8 * nsnnwn_bytes n) n)"
proof -
  let ?b = "nsnnwn_bytes n"
  have b: "?b \<le> 3" by (simp add: nsnnwn_bytes_def)
  have "writes (then_put (\<lambda>po. asn_put_few_bits po (word_of_int (int ?b)) (int 8))
      (\<lambda>po. asn_put_few_bits po (word_of_int (int n)) (int (8 * ?b)))) (nat_bl 8 ?b @ nat_bl (8 * ?b) n)"
    using b few_int_writes [of 8 "int ?b"] few_int_writes [of "8 * ?b" "int n"]
    by (intro then_put_writes) (simp_all del: of_int_of_nat_eq of_nat_mult)
  moreover have "then_put (\<lambda>po. asn_put_few_bits po (word_of_int (int ?b)) (int 8))
      (\<lambda>po. asn_put_few_bits po (word_of_int (int n)) (int (8 * ?b))) = (\<lambda>po. uper_put_nsnnwn po (int n))"
    using assms by (auto simp: fun_eq_iff then_put_def uper_put_nsnnwn_def nsnnwn_bytes_def Let_def split_beta)
  ultimately show ?thesis by simp
qed

section \<open>The readers stay inside their stream\<close>

lemma safe_get_length [safe]: "safe_get (\<lambda>pd. uper_get_length pd e lb)"
  unfolding uper_get_length_def by (intro safe)

lemma safe_get_nslength [safe]: "safe_get uper_get_nslength"
  unfolding uper_get_nslength_def [abs_def] by (intro safe)

lemma safe_get_nsnnwn [safe]: "safe_get uper_get_nsnnwn"
  unfolding uper_get_nsnnwn_def [abs_def] by (intro safe)

lemma safe_get_whole_number [safe]: "safe_get (\<lambda>pd. uper_get_constrained_whole_number pd n)"
proof (induction "nat n" arbitrary: n rule: less_induct)
  case less
  then show ?case by (subst uper_get_constrained_whole_number.simps) (intro safe less, simp_all)
qed

section \<open>Ranges are exact\<close>

lemma imax_range_ok:
  assumes "lb \<le>s ub"
  shows "imax_range lb ub = Some (ub - lb)"
  using assms by (auto simp: imax_range_def word_sless_alt word_sle_eq)

lemma rebase_ok:
  "per_imax_range_rebase v lb ub = (if lb \<le>s v \<and> v \<le>s ub then Some (v - lb) else None)"
proof (cases "lb \<le>s v \<and> v \<le>s ub")
  case True
  then have "lb \<le>s ub" by (simp add: word_sle_eq)
  then show ?thesis using True imax_range_ok [of lb ub]
    by (auto simp: per_imax_range_rebase_def word_sless_alt word_sle_eq)
next
  case False
  then show ?thesis by (auto simp: per_imax_range_rebase_def word_sless_alt word_sle_eq)
qed

lemma unrebase_ok:
  assumes "lb \<le>s ub"
  shows "per_imax_range_unrebase u lb ub = (if u \<le> ub - lb then Some (u + lb) else None)"
  using imax_range_ok [OF assms] by (auto simp: per_imax_range_unrebase_def INTMAX_MAX_def not_less)

section \<open>Properties of the PER number encodings\<close>

text \<open>
  The range functions are exact on the whole 64-bit range. Rebasing a value to its lower
  bound gives the true difference, without wrap-around, precisely for the values inside the
  bounds; the inverse gives the value back and refuses every offset past the upper bound.
\<close>

theorem range_rebase_exact:
  assumes "sint lb \<le> sint ub"
  shows "(case per_imax_range_rebase v lb ub of
      Some u \<Rightarrow> sint lb \<le> sint v \<and> sint v \<le> sint ub \<and> uint u = sint v - sint lb \<and>
                per_imax_range_unrebase u lb ub = Some v
    | None \<Rightarrow> sint v < sint lb \<or> sint ub < sint v) \<and>
   (case per_imax_range_unrebase u lb ub of
      Some w \<Rightarrow> sint w = sint lb + uint u \<and> per_imax_range_rebase w lb ub = Some u
    | None \<Rightarrow> sint ub - sint lb < uint u)"
proof (intro conjI)
  have le: "lb \<le>s ub" using assms by (simp add: word_sle_eq)
  have ub: "uint (ub - lb) = sint ub - sint lb" using assms by (rule uint_diff_signed)
  show "case per_imax_range_rebase v lb ub of
      Some u \<Rightarrow> sint lb \<le> sint v \<and> sint v \<le> sint ub \<and> uint u = sint v - sint lb \<and>
                per_imax_range_unrebase u lb ub = Some v
    | None \<Rightarrow> sint v < sint lb \<or> sint ub < sint v"
  proof (cases "lb \<le>s v \<and> v \<le>s ub")
    case True
    then have "uint (v - lb) = sint v - sint lb" by (simp add: uint_diff_signed word_sle_eq)
    with True ub show ?thesis by (simp add: rebase_ok unrebase_ok [OF le] word_sle_eq word_le_def)
  next
    case False
    then show ?thesis by (auto simp: rebase_ok word_sle_eq)
  qed
  show "case per_imax_range_unrebase u lb ub of
      Some w \<Rightarrow> sint w = sint lb + uint u \<and> per_imax_range_rebase w lb ub = Some u
    | None \<Rightarrow> sint ub - sint lb < uint u"
  proof (cases "u \<le> ub - lb")
    case True
    then have "sint lb + uint u \<le> sint ub" using ub by (simp add: word_le_def)
    moreover from this have "sint (u + lb) = sint lb + uint u"
      using sint_bounds64 [of ub] by (intro sint_add_unsigned) linarith
    ultimately show ?thesis using True by (simp add: rebase_ok unrebase_ok [OF le] word_sle_eq)
  next
    case False
    then show ?thesis using ub by (simp add: unrebase_ok [OF le] word_le_def)
  qed
qed
theorem range_rebase_exact_witness:
  "per_imax_range_rebase 5 (- 9223372036854775808) 9223372036854775807 = Some 9223372036854775813 \<and>
   per_imax_range_unrebase 9223372036854775813 (- 9223372036854775808) 9223372036854775807 = Some 5"
proof -
  have "sint (- 9223372036854775808 :: intmax) \<le> sint (9223372036854775807 :: intmax)" by simp
  from range_rebase_exact [OF this, of 5 9223372036854775813] show ?thesis
    by (simp add: rebase_ok word_sle_eq)
qed

text \<open>
  The length determinant round trip for every length. \<open>uper_put_length\<close> returns
  the part of the length it has announced (all of it below 16K, otherwise up to four 16K
  fragments), asks for an end-of-message octet exactly when that part is everything, and
  \<open>uper_get_length\<close> reads the same part back and asks to be repeated exactly for
  fragments.
\<close>

theorem length_determinant_roundtrip:
  assumes "absorbs cb key" "key_contents key = []"
  shows "\<exists>po po' pd'. uper_put_length (new_outp cb key) n =
      ((int (length_part n), 16384 \<le> n \<and> length_part n = n), po) \<and>
    asn_put_aligned_flush po = (0, po') \<and>
    (let octs = key_contents (po_op_key po')
     in uper_get_length (new_pd octs 0 (8 * length octs)) (-1) 0 = ((int (length_part n), 16384 \<le> n), pd'))"
proof -
  from uper_put_length_eom [OF new_outp_inv [OF assms(1)], of n] obtain po where
    "uper_put_length (new_outp cb key) n = ((int (length_part n), 16384 \<le> n \<and> length_part n = n), po)"
    by blast
  then show ?thesis
    using length_determinant.wire_roundtrip [OF TrueI assms, of n] by (auto simp: put_length_status_def Let_def)
qed

theorem length_determinant_roundtrip_witness:
  "\<exists>po po' pd'. uper_put_length (new_outp write_buffer (Key_vector [])) 40000 = ((32768, False), po) \<and>
    asn_put_aligned_flush po = (0, po') \<and>
    uper_get_length (new_pd (key_contents (po_op_key po')) 0 (8 * length (key_contents (po_op_key po')))) (-1) 0 =
      ((32768, True), pd')"
  using length_determinant_roundtrip [OF vector.ok_absorbs, of "Key_vector []" 40000]
  by (simp add: length_part_def Let_def)

text \<open>
  Constrained whole numbers of up to 64 bits survive the wire. The encoder splits the
  number into 31-bit pieces, most significant first, and the decoder joins them again.
\<close>

theorem whole_number_roundtrip:
  assumes "n \<le> 64" "unat v < 2 ^ n" "absorbs cb key" "key_contents key = []"
  shows "\<exists>po po' pd'. uper_put_constrained_whole_number_u (new_outp cb key) v (int n) = (0, po) \<and>
    asn_put_aligned_flush po = (0, po') \<and>
    (let octs = key_contents (po_op_key po')
     in bits_of octs = pad8 (nat_bl n (unat v)) \<and>
        uper_get_constrained_whole_number (new_pd octs 0 (8 * length octs)) (int n) = (Some v, pd') \<and> pd_pos pd' = n)"
  using whole_number.wire_roundtrip [of n v cb key] assms by simp

theorem whole_number_roundtrip_witness:
  "\<exists>po po' pd'. uper_put_constrained_whole_number_u (new_outp write_buffer (Key_vector [])) 0xFEDCBA9876543210 (int 64) = (0, po) \<and>
    asn_put_aligned_flush po = (0, po') \<and>
    uper_get_constrained_whole_number (new_pd (key_contents (po_op_key po')) 0 (8 * length (key_contents (po_op_key po')))) (int 64) =
      (Some 0xFEDCBA9876543210, pd')"
  using whole_number_roundtrip [of 64 "0xFEDCBA9876543210" write_buffer "Key_vector []"] vector.ok_absorbs [of "Key_vector []"]
  by (auto simp: Let_def)

text \<open>
  Normally small numbers up to 63 and normally small lengths from 1 to 64 take seven
  bits and are read back exactly.
\<close>

theorem normally_small_roundtrip:
  assumes "n \<le> 63"
  shows "writes (\<lambda>po. uper_put_nsnnwn po (int n)) (nat_bl 7 n) \<and> reads uper_get_nsnnwn (nat_bl 7 n) (int n) \<and>
    writes (\<lambda>po. uper_put_nslength po (n + 1)) (nat_bl 7 n) \<and> reads uper_get_nslength (nat_bl 7 n) (int (n + 1))"
  using assms normally_small_number.enc_writes [of n] normally_small_number.dec_reads [of n]
    normally_small_length.enc_writes [of "n + 1"] normally_small_length.dec_reads [of "n + 1"] by simp

theorem normally_small_roundtrip_witness:
  "reads uper_get_nsnnwn (nat_bl 7 42) 42 \<and> reads uper_get_nslength (nat_bl 7 42) 43"
  using normally_small_roundtrip [of 42] by simp

text \<open>
  Above 63 the encoder and the decoder of normally small numbers disagree.
  \<open>uper_put_nsnnwn\<close> writes the octet count and the value without the leading one bit
  that announces this form, so \<open>uper_get_nsnnwn\<close> takes the first seven bits for the
  number and returns 0 or 1.
\<close>

theorem nsnnwn_large_misread:
  assumes "64 \<le> n" "n < 256 * 65536"
  shows "\<exists>code rest. writes (\<lambda>po. uper_put_nsnnwn po (int n)) (code @ rest) \<and>
     reads uper_get_nsnnwn code (if n < 256 then 0 else 1) \<and> length code = 7"
proof (intro exI conjI)
  let ?b = "nsnnwn_bytes n"
  have "nat_bl 8 ?b = nat_bl 7 (?b div 2) @ nat_bl 1 ?b" using nat_bl_add [of 7 1 ?b] by simp
  then show "writes (\<lambda>po. uper_put_nsnnwn po (int n)) (nat_bl 7 (?b div 2) @ nat_bl 1 ?b @ nat_bl (8 * ?b) n)"
    using nsnnwn_large_writes [OF assms] by simp
  show "reads uper_get_nsnnwn (nat_bl 7 (?b div 2)) (if n < 256 then 0 else 1)"
    using nsnnwn_small [of "?b div 2"]
    by (cases "n < 256"; cases "n < 65536") (simp_all add: nsnnwn_bytes_def)
qed simp

theorem nsnnwn_large_misread_witness:
  "\<exists>code rest. writes (\<lambda>po. uper_put_nsnnwn po (int 64)) (code @ rest) \<and> reads uper_get_nsnnwn code 0"
  using nsnnwn_large_misread [of 64] by auto

text \<open>
  The same omission for normally small lengths: a length from 65 to 127 is written
  without the leading one bit by \<open>uper_put_nslength\<close>, and \<open>uper_get_nslength\<close>
  reads half of it plus one.
\<close>

theorem nslength_large_misread:
  assumes "65 \<le> n" "n \<le> 127"
  shows "\<exists>code rest. writes (\<lambda>po. uper_put_nslength po n) (code @ rest) \<and>
     reads uper_get_nslength code (int (n div 2 + 1)) \<and> length code = 7"
proof (intro exI conjI)
  have "nat_bl 8 n = nat_bl 7 (n div 2) @ nat_bl 1 n" using nat_bl_add [of 7 1 n] by simp
  moreover have "writes (\<lambda>po. uper_put_nslength po n) (nat_bl 8 n)"
  proof (rule writesI)
    fix po assume "po_inv po"
    from uper_put_length_ok [OF this, of n] show "\<exists>po'. uper_put_nslength po n = (0, po') \<and> puts po (nat_bl 8 n) po'"
      using assms by (auto simp: uper_put_nslength_def length_part_def length_code_def)
  qed
  ultimately show "writes (\<lambda>po. uper_put_nslength po n) (nat_bl 7 (n div 2) @ nat_bl 1 n)" by simp
  show "reads uper_get_nslength (nat_bl 7 (n div 2)) (int (n div 2 + 1))"
    using nslength_reads [of "n div 2 + 1"] assms by simp
qed simp
theorem nslength_large_misread_witness:
  "\<exists>code rest. writes (\<lambda>po. uper_put_nslength po 100) (code @ rest) \<and> reads uper_get_nslength code (int (100 div 2 + 1))"
  using nslength_large_misread [of 100] by auto

end
