(* ===== verification/Uper_Fragments.thy ===== *)
theory Uper_Fragments
  imports Uper_Support
begin

unbundle bit_operations_syntax

text \<open>
  The fragmented octet strings of unaligned PER: a length determinant and that many
  octets, repeated while the determinant announces a 16K fragment. The decoder loop is the
  \<open>do ... while(repeat)\<close> of \<open>INTEGER_decode_uper\<close> and
  \<open>uper_open_type_get_simple\<close>, the encoder loop the one of
  \<open>INTEGER_encode_uper\<close>, \<open>uper_open_type_put\<close> and
  \<open>OCTET_STRING_encode_uper\<close>. The lemmas on \<open>pd_left\<close>, the number of bits
  left, are what makes every such loop end.
\<close>

section \<open>Bits left in a stream\<close>

definition pd_left :: "asn_bit_data \<Rightarrow> nat" where
  "pd_left pd = pd_nbits pd - pd_nboff pd"

lemma few_bits_stream:
  "snd (asn_get_few_bits pd n) =
     (if n < 0 \<or> n > int (pd_nbits pd) - int (pd_nboff pd) then pd
      else if pd_nboff (pd_normalize pd) + nat n \<le> 31 \<or> n \<le> 31 then pd_advance pd (nat n)
      else asn_get_undo (pd_advance pd (nat n)) n)"
  by (subst asn_get_few_bits.simps) (simp add: Let_def pd_advance_def case_prod_unfold del: asn_get_few_bits.simps)

lemma normalize_left: "pd_nboff pd \<le> pd_nbits pd \<Longrightarrow> pd_left (pd_normalize pd) = pd_left pd"
proof -
  assume le: "pd_nboff pd \<le> pd_nbits pd"
  then have "pd_nboff pd - pd_nboff pd mod 8 \<le> pd_nbits pd" by linarith
  then show ?thesis using le mod_less_eq_dividend [of "pd_nboff pd" 8]
    by (simp add: pd_left_def pd_normalize_def)
qed

lemma advance_left: "pd_nboff pd + n \<le> pd_nbits pd \<Longrightarrow> pd_left (pd_advance pd n) = pd_left pd - n"
  using normalize_left [of pd] by (simp add: pd_advance_def pd_left_def)

lemma few_bits_left:
  "pd_left (snd (asn_get_few_bits pd n)) \<le> pd_left pd"
  "0 \<le> fst (asn_get_few_bits pd n) \<Longrightarrow> 0 < n \<Longrightarrow> n \<le> 31 \<Longrightarrow> pd_left (snd (asn_get_few_bits pd n)) < pd_left pd"
proof -
  have undo: "pd_left (asn_get_undo (pd_advance pd (nat n)) n) = pd_left (pd_normalize pd)" if "0 \<le> n"
    using that by (simp add: asn_get_undo_def pd_advance_def pd_left_def)
  have adv: "pd_left (pd_advance pd (nat n)) = pd_left pd - nat n"
    if "0 \<le> n" "n \<le> int (pd_nbits pd) - int (pd_nboff pd)"
    using that by (intro advance_left) linarith
  show "pd_left (snd (asn_get_few_bits pd n)) \<le> pd_left pd"
    unfolding few_bits_stream using undo adv normalize_left [of pd] by auto
  have "n \<le> int (pd_nbits pd) - int (pd_nboff pd)" if "0 \<le> fst (asn_get_few_bits pd n)"
    using that by (subst (asm) asn_get_few_bits.simps) (auto simp: Let_def split: if_splits)
  then show "0 \<le> fst (asn_get_few_bits pd n) \<Longrightarrow> 0 < n \<Longrightarrow> n \<le> 31 \<Longrightarrow> pd_left (snd (asn_get_few_bits pd n)) < pd_left pd"
    unfolding few_bits_stream using adv by (auto simp: pd_left_def)
qed

lemma tail_bits_left: "pd_left (snd (snd (asn_get_tail_bits pd n))) \<le> pd_left pd"
  using few_bits_left(1) [of pd n]
  by (simp add: asn_get_tail_bits_def case_prod_unfold Let_def)

lemma bits_loop_left: "pd_left (snd (snd (asn_get_bits_loop pd n))) \<le> pd_left pd"
proof (induction pd n rule: asn_get_bits_loop.induct)
  case (1 pd n)
  let ?p = "snd (asn_get_few_bits pd 24)"
  have few: "pd_left ?p \<le> pd_left pd" by (rule few_bits_left(1))
  have "pd_left (snd (snd (asn_get_bits_loop ?p (n - 24)))) \<le> pd_left ?p"
    if "n \<noteq> 0" "24 \<le> n" "\<not> fst (asn_get_few_bits pd 24) < 0"
    using "1.IH" [OF that(1,2), of "fst (asn_get_few_bits pd 24)" ?p] that(3) by simp
  with few tail_bits_left [of pd n] show ?case
    unfolding asn_get_bits_loop.simps [of pd n] by (auto simp: case_prod_unfold)
qed

lemma many_bits_left: "pd_left (snd (snd (asn_get_many_bits pd al n))) \<le> pd_left pd"
proof -
  have "pd_left (snd (asn_get_few_bits pd m)) \<le> pd_left pd" for m
    by (rule few_bits_left(1))
  then show ?thesis
    using bits_loop_left [of pd n] bits_loop_left order_trans by (fastforce simp: asn_get_many_bits_def case_prod_unfold)
qed

lemma get_length_left:
  "pd_left (snd (uper_get_length pd e lb)) \<le> pd_left pd"
  "snd (fst (uper_get_length pd e lb)) \<Longrightarrow> pd_left (snd (uper_get_length pd e lb)) < pd_left pd"
proof -
  have few: "pd_left (snd (asn_get_few_bits q m)) \<le> pd_left q" for q m
    by (rule few_bits_left(1))
  have less: "pd_left (snd (asn_get_few_bits pd 8)) < pd_left pd" if "\<not> fst (asn_get_few_bits pd 8) < 0"
    using few_bits_left(2) [of pd 8] that by simp
  show "pd_left (snd (uper_get_length pd e lb)) \<le> pd_left pd"
    using few [of pd] order_trans [OF few few] by (simp add: uper_get_length_def case_prod_unfold Let_def)
  show "snd (fst (uper_get_length pd e lb)) \<Longrightarrow> pd_left (snd (uper_get_length pd e lb)) < pd_left pd"
    using less by (auto simp: uper_get_length_def case_prod_unfold Let_def split: if_splits)
qed

section \<open>The loops\<close>

function uper_get_octets :: "asn_bit_data \<Rightarrow> byte list \<Rightarrow> byte list option \<times> asn_bit_data" where
  "uper_get_octets pd buf =
     (case uper_get_length pd (-1) 0 of ((len, repeat), pd1) \<Rightarrow>
        if len < 0 then (None, pd1)
        else case asn_get_many_bits pd1 False (8 * len) of (ret, bs, pd2) \<Rightarrow>
          if ret < 0 then (None, pd2)
          else if repeat then uper_get_octets pd2 (buf @ bs)
          else (Some (buf @ bs), pd2))"
  by pat_completeness auto
termination
proof (relation "measure (\<lambda>(pd, buf). pd_left pd)")
  fix pd len_rep pd1 len rep mb ret bp bs pd2 and buf :: "byte list"
  assume h: "(len_rep, pd1) = uper_get_length pd (-1) 0" "(len, rep) = len_rep"
    "(ret, bp) = asn_get_many_bits pd1 False (8 * len)" "(bs, pd2) = bp" rep
  have "pd_left pd1 < pd_left pd"
    using get_length_left(2) [of pd "-1" 0] h(1,2,5) by (metis fst_conv snd_conv)
  moreover have "pd_left pd2 \<le> pd_left pd1"
    using many_bits_left [of pd1 False "8 * len"] h(3,4) by (metis snd_conv)
  ultimately show "((pd2, buf @ bs), pd, buf) \<in> measure (\<lambda>(pd, buf). pd_left pd)" by simp
qed simp

declare uper_get_octets.simps [simp del]

lemma put_length_progress:
  assumes "((r, eom), po') = uper_put_length po n" "\<not> r < 0" "nat r < n"
  shows "0 < nat r"
proof -
  have "0 < drop_bit 14 n" if "16384 \<le> n" using that by (simp add: drop_bit_eq_div div_greater_zero_iff)
  then show ?thesis using assms
    by (auto simp: uper_put_length_def case_prod_unfold Let_def push_bit_eq_mult split: if_splits)
qed

function uper_put_octets :: "asn_bit_outp \<Rightarrow> byte list \<Rightarrow> int \<times> asn_bit_outp" where
  "uper_put_octets po buf =
     (case uper_put_length po (length buf) of ((mayEncode, need_eom), po1) \<Rightarrow>
        if mayEncode < 0 then (-1, po1)
        else case asn_put_many_bits po1 buf (8 * mayEncode) of (r, po2) \<Rightarrow>
          if r \<noteq> 0 then (-1, po2)
          else if need_eom then
            (case uper_put_length po2 0 of ((r0, e0), po3) \<Rightarrow>
               if r0 \<noteq> 0 then (-1, po3)
               else if drop (nat mayEncode) buf = [] then (0, po3)
               else uper_put_octets po3 (drop (nat mayEncode) buf))
          else if drop (nat mayEncode) buf = [] then (0, po2)
          else uper_put_octets po2 (drop (nat mayEncode) buf))"
  by pat_completeness auto
termination
  by (relation "measure (\<lambda>(po, buf). length buf)") (auto dest!: put_length_progress)

declare uper_put_octets.simps [simp del]

section \<open>Fragments on the wire\<close>

function frag_code :: "byte list \<Rightarrow> bool list" where
  "frag_code bs = length_code (length bs) @ bits_of (take (length_part (length bs)) bs) @
     (if 16384 \<le> length bs then frag_code (drop (length_part (length bs)) bs) else [])"
  by pat_completeness auto
termination
  by (relation "measure length") (auto simp: length_part_def Suc_le_eq div_greater_zero_iff)

declare frag_code.simps [simp del]

lemma length_part_le: "length_part n \<le> n"
proof -
  have "16384 * min 4 (n div 16384) \<le> 16384 * (n div 16384)" by simp
  also have "\<dots> \<le> n" by (rule times_div_less_eq_dividend)
  finally show ?thesis by (simp add: length_part_def)
qed

lemma length_part_pos: "0 < n \<Longrightarrow> 0 < length_part n"
  by (auto simp: length_part_def Suc_le_eq div_greater_zero_iff)

lemma put_octets_writes: "writes (\<lambda>po. uper_put_octets po bs) (frag_code bs)"
proof (induction bs rule: length_induct)
  case (1 bs)
  define k where "k = length_part (length bs)"
  have k: "k \<le> length bs" "0 < length bs \<Longrightarrow> 0 < k" using length_part_le length_part_pos by (auto simp: k_def)
  have short: "length (drop k bs) < length bs" if "0 < length bs" using k(2) [OF that] that by simp
  have rest: "writes (\<lambda>po. uper_put_octets po (drop k bs)) (frag_code (drop k bs))" if "k < length bs"
    by (rule "1.IH" [rule_format]) (use that short in linarith)
  have nofrag: "k = length bs" if "\<not> 16384 \<le> length bs" using that by (simp add: k_def length_part_def)
  have nil: "frag_code [] = length_code 0" by (subst frag_code.simps) (simp add: length_part_def)
  show ?case
  proof (rule writesI)
    fix po assume "po_inv po"
    from uper_put_length_eom [OF this, of "length bs"] obtain p1 where
      p1: "uper_put_length po (length bs) = ((int k, 16384 \<le> length bs \<and> k = length bs), p1)"
        "puts po (length_code (length bs)) p1" unfolding k_def by blast
    from asn_put_octets_ok [OF puts_inv [OF p1(2)] k(1)] obtain p2 where
      p2: "asn_put_many_bits p1 bs (8 * int k) = (0, p2)" "puts p1 (bits_of (take k bs)) p2" by blast
    note p02 = puts_trans [OF p1(2) p2(2)]
    show "\<exists>po'. uper_put_octets po bs = (0, po') \<and> puts po (frag_code bs) po'"
    proof (cases "k < length bs")
      case True
      then obtain p3 where p3: "uper_put_octets p2 (drop k bs) = (0, p3)" "puts p2 (frag_code (drop k bs)) p3"
        using rest puts_inv [OF p2(2)] by (auto elim: writesE)
      have "puts po (frag_code bs) p3"
        using puts_trans [OF p02 p3(2)] True nofrag by (subst frag_code.simps) (auto simp: k_def)
      with True p1 p2 p3 show ?thesis by (subst uper_put_octets.simps) simp
    next
      case False
      then have all: "k = length bs" using k(1) by simp
      show ?thesis
      proof (cases "16384 \<le> length bs")
        case True
        from uper_put_length_eom [OF puts_inv [OF p2(2)], of 0] obtain p3 where
          p3: "uper_put_length p2 0 = ((0, False), p3)" "puts p2 (length_code 0) p3" by (auto simp: length_part_def)
        have "puts po (frag_code bs) p3"
          using puts_trans [OF p02 p3(2)] True all nil by (subst frag_code.simps) (simp add: k_def)
        with True all p1 p2 p3 show ?thesis by (subst uper_put_octets.simps) simp
      next
        case False
        have "puts po (frag_code bs) p2" using p02 False all by (subst frag_code.simps) (simp add: k_def)
        with False all p1 p2 show ?thesis by (subst uper_put_octets.simps) simp
      qed
    qed
  qed
qed

lemma get_octets_reads: "reads (\<lambda>pd. uper_get_octets pd buf) (frag_code bs) (Some (buf @ bs))"
proof (induction bs arbitrary: buf rule: length_induct)
  case (1 bs)
  define k where "k = length_part (length bs)"
  have k: "k \<le> length bs" "0 < length bs \<Longrightarrow> 0 < k" using length_part_le length_part_pos by (auto simp: k_def)
  have short: "length (drop k bs) < length bs" if "0 < length bs" using k(2) [OF that] that by simp
  show ?case
  proof (rule readsI)
    fix pd rest assume pd: "pd_inv pd" "src_bits pd = frag_code bs @ rest"
    let ?tail = "if 16384 \<le> length bs then frag_code (drop k bs) else []"
    from pd(2) have "src_bits pd = length_code (length bs) @ (bits_of (take k bs) @ ?tail @ rest)"
      by (subst (asm) frag_code.simps) (simp add: k_def)
    from uper_get_length_reads [of "-1" 0 "length bs"] pd(1) this obtain p1 where
      p1: "uper_get_length pd (-1) 0 = ((int k, 16384 \<le> length bs), p1)" "consumes pd (length_code (length bs)) p1"
        "src_bits p1 = bits_of (take k bs) @ (?tail @ rest)" "pd_inv p1"
      unfolding k_def by (auto elim!: readsE)
    obtain p2 where p2: "asn_get_many_bits p1 False (8 * int (length (take k bs))) = (0, take k bs, p2)"
        "consumes p1 (bits_of (take k bs)) p2" "src_bits p2 = ?tail @ rest"
      by (rule asn_get_many_bits_octets [OF p1(4,3)])
    have p2': "asn_get_many_bits p1 False (8 * int k) = (0, take k bs, p2)" using p2(1) k(1) by simp
    note c02 = consumes_trans [OF p1(2) p2(2)]
    show "\<exists>pd'. uper_get_octets pd buf = (Some (buf @ bs), pd') \<and> consumes pd (frag_code bs) pd' \<and> src_bits pd' = rest"
    proof (cases "16384 \<le> length bs")
      case True
      have "reads (\<lambda>pd. uper_get_octets pd (buf @ take k bs)) (frag_code (drop k bs)) (Some ((buf @ take k bs) @ drop k bs))"
        by (rule "1.IH" [rule_format]) (use True short in linarith)
      from readsE [OF this consumesD(2) [OF p2(2)], of rest] p2(3) True obtain p3 where
        p3: "uper_get_octets p2 (buf @ take k bs) = (Some ((buf @ take k bs) @ drop k bs), p3)"
          "consumes p2 (frag_code (drop k bs)) p3" "src_bits p3 = rest" by auto
      have "consumes pd (frag_code bs) p3"
        using consumes_trans [OF c02 p3(2)] True by (subst frag_code.simps) (simp add: k_def)
      with True p1(1) p2' p3 show ?thesis by (subst uper_get_octets.simps) simp
    next
      case False
      then have "take k bs = bs" by (simp add: k_def length_part_def)
      moreover have "consumes pd (frag_code bs) p2" using c02 False by (subst frag_code.simps) (simp add: k_def)
      ultimately show ?thesis using False p1(1) p2' p2(3) by (subst uper_get_octets.simps) simp
    qed
  qed
qed

interpretation fragments: bit_codec "\<lambda>bs po. uper_put_octets po bs" "\<lambda>pd. uper_get_octets pd []"
  "\<lambda>bs. True" frag_code Some
  using put_octets_writes get_octets_reads [of "[]"] by unfold_locales simp_all

section \<open>The loops stay inside their stream\<close>

definition moves :: "asn_bit_data \<Rightarrow> asn_bit_data \<Rightarrow> bool" where
  "moves pd pd' \<longleftrightarrow> (\<exists>bs. consumes pd bs pd')"

lemma moves_trans: "moves a b \<Longrightarrow> moves b c \<Longrightarrow> moves a c"
  unfolding moves_def by (blast intro: consumes_trans)

lemma moves_inv: "moves a b \<Longrightarrow> pd_inv b"
  unfolding moves_def using consumesD(2) by blast

lemma safe_get_moves: "safe_get f \<longleftrightarrow> (\<forall>pd. pd_inv pd \<longrightarrow> moves pd (snd (f pd)))"
  by (simp add: safe_get_def moves_def)

lemma few_bits_moves: "pd_inv pd \<Longrightarrow> moves pd (snd (asn_get_few_bits pd n))"
  using safe_few_bits [of n] by (simp add: safe_get_moves)

lemma bits_loop_moves: "pd_inv pd \<Longrightarrow> moves pd (snd (snd (asn_get_bits_loop pd n)))"
proof (induction pd n rule: asn_get_bits_loop.induct)
  case (1 pd n)
  let ?p = "snd (asn_get_few_bits pd 24)"
  have few: "moves pd ?p" using few_bits_moves "1.prems" .
  have refl: "moves pd pd" using consumes_refl "1.prems" unfolding moves_def by blast
  have "moves ?p (snd (snd (asn_get_bits_loop ?p (n - 24))))"
    if "n \<noteq> 0" "24 \<le> n" "\<not> fst (asn_get_few_bits pd 24) < 0"
    using "1.IH" [OF that(1,2), of "fst (asn_get_few_bits pd 24)" ?p] that(3) moves_inv [OF few] by simp
  with few refl few_bits_moves [OF "1.prems", of n] show ?case
    unfolding asn_get_bits_loop.simps [of pd n]
    by (auto simp: case_prod_unfold asn_get_tail_bits_def Let_def intro: moves_trans)
qed

lemma many_bits_moves: "pd_inv pd \<Longrightarrow> moves pd (snd (snd (asn_get_many_bits pd al n)))"
  using bits_loop_moves few_bits_moves moves_inv moves_trans
  by (simp add: asn_get_many_bits_def case_prod_unfold) blast

lemma safe_many_bits [safe]:
  assumes "\<And>r bs. safe_get (g r bs)"
  shows "safe_get (\<lambda>pd. case asn_get_many_bits pd al n of (r, bs, pd') \<Rightarrow> g r bs pd')"
  using assms many_bits_moves moves_inv moves_trans
  unfolding safe_get_moves case_prod_unfold by blast

lemma safe_get_octets [safe]: "safe_get (\<lambda>pd. uper_get_octets pd buf)"
proof -
  have "moves pd (snd (uper_get_octets pd buf))" if "pd_inv pd" for pd
    using that
  proof (induction pd buf rule: uper_get_octets.induct)
    case (1 pd buf)
    let ?l = "uper_get_length pd (-1) 0"
    let ?m = "asn_get_many_bits (snd ?l) False (8 * fst (fst ?l))"
    have l: "moves pd (snd ?l)" using safe_get_length [of "-1" 0] "1.prems" by (simp add: safe_get_moves)
    have m: "moves (snd ?l) (snd (snd ?m))" by (rule many_bits_moves [OF moves_inv [OF l]])
    have "moves (snd (snd ?m)) (snd (uper_get_octets (snd (snd ?m)) (buf @ fst (snd ?m))))"
      if "\<not> fst (fst ?l) < 0" "\<not> fst ?m < 0" "snd (fst ?l)"
      by (rule "1.IH" [OF prod.collapse prod.collapse that(1) prod.collapse prod.collapse that(2,3) moves_inv [OF m]])
    with l m show ?case
      unfolding uper_get_octets.simps [of pd buf] by (auto simp: case_prod_unfold intro: moves_trans)
  qed
  then show ?thesis by (simp add: safe_get_moves)
qed

end
