(* ===== verification/Asn_Integer.thy ===== *)
theory Asn_Integer
  imports Uper_Support
begin

unbundle bit_operations_syntax

text \<open>
  \<open>support/INTEGER.c\<close>: the arbitrary-length INTEGER (big-endian two's complement
  octets), its conversions to and from the machine integers, the decimal parsers and the
  comparison, in the order of the file. An \<open>INTEGER_t\<close> is the octets behind its
  \<open>buf\<close> pointer, \<open>None\<close> for a null pointer; \<open>size\<close> is their number. The
  abstract value is \<open>be_int\<close>.
\<close>

type_synonym INTEGER_t = "byte list option"

section \<open>Conversions\<close>

record asn_INTEGER_enum_map =
  nat_value :: intmax
  enum_name :: string

record asn_INTEGER_specifics =
  value2enum :: "asn_INTEGER_enum_map list"
  enum2value :: "nat list"
  map_extension :: int
  strict_enumeration :: bool
  field_width :: nat
  field_unsigned :: bool

definition compar_value2enum :: "intmax \<Rightarrow> asn_INTEGER_enum_map \<Rightarrow> int" where
  "compar_value2enum a el =
     (let b = nat_value el in if a <s b then -1 else if a = b then 0 else 1)"

text \<open>
  The C library's \<open>bsearch\<close>: the halving search between \<open>lo\<close> and \<open>hi\<close> with
  the comparison of the key against a table entry.
\<close>

function bsearch :: "('e \<Rightarrow> int) \<Rightarrow> 'e list \<Rightarrow> nat \<Rightarrow> nat \<Rightarrow> nat option" where
  "bsearch cmp tab lo hi =
     (if lo < hi then
        let mid = (lo + hi) div 2; c = cmp (tab ! mid)
        in if c < 0 then bsearch cmp tab lo mid
           else if c > 0 then bsearch cmp tab (mid + 1) hi
           else Some mid
      else None)"
  by pat_completeness auto
termination
  by (relation "measure (\<lambda>(cmp, tab, lo, hi). hi - lo)") auto

declare bsearch.simps [simp del]

definition INTEGER_map_value2enum :: "asn_INTEGER_specifics option \<Rightarrow> intmax \<Rightarrow> asn_INTEGER_enum_map option" where
  "INTEGER_map_value2enum specs v =
     (case specs of None \<Rightarrow> None
      | Some sp \<Rightarrow>
          if length (value2enum sp) = 0 then None
          else map_option (\<lambda>i. value2enum sp ! i)
            (bsearch (compar_value2enum v) (value2enum sp) 0 (length (value2enum sp))))"

definition shift_in :: "uintmax \<Rightarrow> byte \<Rightarrow> uintmax" where
  "shift_in v b = push_bit 8 v OR ucast b"

definition asn_integer_convert :: "byte list \<Rightarrow> intmax" where
  "asn_integer_convert bs = foldl shift_in (if drop_bit 7 (bs ! 0) \<noteq> 0 then -1 else 0) bs"

text \<open>Skip the insignificant leading octets, never the last one.\<close>

fun skip_insignificant :: "byte list \<Rightarrow> byte list" where
  "skip_insignificant (b # c # bs) =
     (if b = 0 \<and> c AND 0x80 = 0 \<or> b = 0xff \<and> c AND 0x80 \<noteq> 0
      then skip_insignificant (c # bs) else b # c # bs)"
| "skip_insignificant bs = bs"

definition asn_INTEGER2imax :: "INTEGER_t \<Rightarrow> intmax option" where
  "asn_INTEGER2imax iptr =
     (case iptr of None \<Rightarrow> None
      | Some buf \<Rightarrow>
          let b = (if length buf > 8 then skip_insignificant buf else buf)
          in if length b > 8 then None
             else if b = [] then Some 0
             else Some (asn_integer_convert b))"

fun skip_zeroes :: "byte list \<Rightarrow> byte list option" where
  "skip_zeroes bs =
     (if length bs > 8 then if bs ! 0 \<noteq> 0 then None else skip_zeroes (tl bs) else Some bs)"

declare skip_zeroes.simps [simp del]

definition asn_INTEGER2umax :: "INTEGER_t \<Rightarrow> uintmax option" where
  "asn_INTEGER2umax iptr =
     (case iptr of None \<Rightarrow> None
      | Some buf \<Rightarrow> (case skip_zeroes buf of None \<Rightarrow> None | Some b \<Rightarrow> Some (foldl shift_in 0 b)))"

text \<open>
  The octets of a 64-bit value from the most significant one: what the pointer walk over
  the bytes of \<open>value\<close> visits on either byte order, and what the shifts of
  \<open>asn_umax2INTEGER\<close> store.
\<close>

definition be_octets :: "uintmax \<Rightarrow> byte list" where
  "be_octets v = map (\<lambda>i. ucast (drop_bit (8 * (7 - i)) v)) [0..<8]"

definition asn_imax2INTEGER :: "intmax \<Rightarrow> INTEGER_t" where
  "asn_imax2INTEGER v = Some (skip_insignificant (be_octets v))"

definition asn_umax2INTEGER :: "uintmax \<Rightarrow> INTEGER_t" where
  "asn_umax2INTEGER v =
     (if v \<le> drop_bit 1 (NOT 0) then asn_imax2INTEGER v else Some (0 # be_octets v))"

definition asn_INTEGER2long :: "INTEGER_t \<Rightarrow> intmax option" where
  "asn_INTEGER2long iptr =
     (case asn_INTEGER2imax iptr of
        Some v \<Rightarrow> if sint v < - (2 ^ 63) \<or> sint v > 2 ^ 63 - 1 then None else Some v
      | None \<Rightarrow> None)"

definition asn_INTEGER2ulong :: "INTEGER_t \<Rightarrow> uintmax option" where
  "asn_INTEGER2ulong iptr =
     (case asn_INTEGER2umax iptr of
        Some v \<Rightarrow> if uint v > 2 ^ 64 - 1 then None else Some v
      | None \<Rightarrow> None)"

definition asn_long2INTEGER :: "intmax \<Rightarrow> INTEGER_t" where
  "asn_long2INTEGER v = asn_imax2INTEGER v"

definition asn_ulong2INTEGER :: "uintmax \<Rightarrow> INTEGER_t" where
  "asn_ulong2INTEGER v = asn_imax2INTEGER v"

definition asn_int642INTEGER :: "64 word \<Rightarrow> INTEGER_t" where
  "asn_int642INTEGER v = Some (skip_insignificant (be_octets v))"

definition asn_uint642INTEGER :: "64 word \<Rightarrow> INTEGER_t" where
  "asn_uint642INTEGER v =
     (if v \<le> INTMAX_MAX then asn_int642INTEGER v else Some (0 # be_octets v))"

section \<open>Decimal numbers\<close>

text \<open>
  The parsers read \<open>str\<close> up to \<open>*end\<close>, here a list of characters; the result is
  the code, the offset stored in \<open>*end\<close> and the number stored through the pointer,
  when one is stored. \<open>strtox_loop\<close> is the loop the two parsers share up to the
  boundary constants (the unsigned one has no sign).
\<close>

datatype asn_strtox_result =
    ASN_STRTOX_ERROR_RANGE | ASN_STRTOX_ERROR_INVAL | ASN_STRTOX_EXPECT_MORE
  | ASN_STRTOX_OK | ASN_STRTOX_EXTRA_DATA

definition is_digit :: "char \<Rightarrow> bool" where
  "is_digit c \<longleftrightarrow> 0x30 \<le> (of_char c :: int) \<and> (of_char c :: int) \<le> 0x39"

fun strtox_loop :: "int \<Rightarrow> int \<Rightarrow> int \<Rightarrow> int \<Rightarrow> nat \<Rightarrow> string \<Rightarrow> asn_strtox_result \<times> nat \<times> int option" where
  "strtox_loop upper_boundary last_digit_max sign v pos [] = (ASN_STRTOX_OK, pos, Some (sign * v))"
| "strtox_loop upper_boundary last_digit_max sign v pos (c # cs) =
     (if is_digit c then
        let d = of_char c - 0x30
        in if v < upper_boundary then
             strtox_loop upper_boundary last_digit_max sign (v * 10 + d) (pos + 1) cs
           else if v = upper_boundary then
             if d \<le> last_digit_max then
               let (sign', v') = (if sign > 0 then (sign, v * 10 + d) else (1, - v * 10 - d))
               in (case cs of
                     [] \<Rightarrow> (ASN_STRTOX_OK, pos + 1, Some (sign' * v'))
                   | c' # _ \<Rightarrow> if is_digit c' then (ASN_STRTOX_ERROR_RANGE, pos + 1, None)
                               else (ASN_STRTOX_EXTRA_DATA, pos + 1, Some (sign' * v')))
             else (ASN_STRTOX_ERROR_RANGE, pos, None)
           else (ASN_STRTOX_ERROR_RANGE, pos, None)
      else (ASN_STRTOX_EXTRA_DATA, pos, Some (sign * v)))"

definition asn_strtoimax_lim :: "string \<Rightarrow> asn_strtox_result \<times> nat \<times> int option" where
  "asn_strtoimax_lim str =
     (let asn1_intmax_max = 2 ^ 63 - 1;
          upper_boundary = asn1_intmax_max div 10;
          last_digit_max = asn1_intmax_max mod 10
      in case str of
           [] \<Rightarrow> (ASN_STRTOX_ERROR_INVAL, length str, None)
         | c # cs \<Rightarrow>
             if c = CHR ''-'' then
               if cs = [] then (ASN_STRTOX_EXPECT_MORE, 1, None)
               else strtox_loop upper_boundary (last_digit_max + 1) (-1) 0 1 cs
             else if c = CHR ''+'' then
               if cs = [] then (ASN_STRTOX_EXPECT_MORE, 1, None)
               else strtox_loop upper_boundary last_digit_max 1 0 1 cs
             else strtox_loop upper_boundary last_digit_max 1 0 0 str)"

definition asn_strtoumax_lim :: "string \<Rightarrow> asn_strtox_result \<times> nat \<times> int option" where
  "asn_strtoumax_lim str =
     (let asn1_uintmax_max = 2 ^ 64 - 1;
          upper_boundary = asn1_uintmax_max div 10;
          last_digit_max = asn1_uintmax_max mod 10
      in case str of
           [] \<Rightarrow> (ASN_STRTOX_ERROR_INVAL, length str, None)
         | c # cs \<Rightarrow>
             if c = CHR ''-'' then (ASN_STRTOX_ERROR_INVAL, length str, None)
             else if c = CHR ''+'' then
               if cs = [] then (ASN_STRTOX_EXPECT_MORE, 1, None)
               else strtox_loop upper_boundary last_digit_max 1 0 1 cs
             else strtox_loop upper_boundary last_digit_max 1 0 0 str)"

text \<open>The \<open>long\<close> variants check the range of \<open>long\<close> on the parsed number.\<close>

definition asn_strtol_lim :: "string \<Rightarrow> asn_strtox_result \<times> nat \<times> int option" where
  "asn_strtol_lim str =
     (case asn_strtoimax_lim str of
        (code, endp, Some v) \<Rightarrow>
          if v \<ge> - (2 ^ 63) \<and> v \<le> 2 ^ 63 - 1 then (code, endp, Some v)
          else (ASN_STRTOX_ERROR_RANGE, endp, None)
      | (code, endp, None) \<Rightarrow> (code, endp, None))"

definition asn_strtoul_lim :: "string \<Rightarrow> asn_strtox_result \<times> nat \<times> int option" where
  "asn_strtoul_lim str =
     (case asn_strtoumax_lim str of
        (code, endp, Some v) \<Rightarrow>
          if v \<le> 2 ^ 64 - 1 then (code, endp, Some v) else (ASN_STRTOX_ERROR_RANGE, endp, None)
      | (code, endp, None) \<Rightarrow> (code, endp, None))"

section \<open>Comparison\<close>

text \<open>
  The result is \<open>None\<close> where the code reads through \<open>buf\<close> although \<open>size\<close> is
  zero. The C library's \<open>memcmp\<close> is its sign.
\<close>

fun memcmp :: "byte list \<Rightarrow> byte list \<Rightarrow> int" where
  "memcmp (a # as) (b # bs) = (if a < b then -1 else if b < a then 1 else memcmp as bs)"
| "memcmp _ _ = 0"

definition octets_sign :: "byte list \<Rightarrow> int" where
  "octets_sign bs = (if bs ! 0 AND 0x80 \<noteq> 0 then -1 else 1)"

abbreviation int_octets :: "INTEGER_t \<Rightarrow> byte list" where
  "int_octets st \<equiv> (case st of None \<Rightarrow> [] | Some bs \<Rightarrow> bs)"

definition INTEGER_compare :: "INTEGER_t option \<Rightarrow> INTEGER_t option \<Rightarrow> int option" where
  "INTEGER_compare aptr bptr =
     (case (aptr, bptr) of
        (Some a, Some b) \<Rightarrow>
          let abuf = int_octets a; bbuf = int_octets b
          in if abuf \<noteq> [] \<and> bbuf \<noteq> [] then
               let sign_a = octets_sign abuf; sign_b = octets_sign bbuf
               in if sign_a < sign_b then Some (-1)
                  else if sign_a > sign_b then Some 1
                  else if length abuf < length bbuf then Some (-1 * sign_a)
                  else if length abuf > length bbuf then Some (1 * sign_b)
                  else Some (sign_a * memcmp abuf bbuf)
             else if abuf \<noteq> [] then Some (1 * octets_sign abuf)
             else if bbuf \<noteq> [] then None
             else Some 0
      | (None, None) \<Rightarrow> Some 0
      | (None, Some _) \<Rightarrow> Some (-1)
      | (Some _, None) \<Rightarrow> Some 1)"

section \<open>The value of an INTEGER\<close>

definition be_nat :: "byte list \<Rightarrow> nat" where
  "be_nat bs = bl_nat (bits_of bs)"

definition be_neg :: "byte list \<Rightarrow> bool" where
  "be_neg bs \<longleftrightarrow> bs \<noteq> [] \<and> 128 \<le> unat (bs ! 0)"

definition be_int :: "byte list \<Rightarrow> int" where
  "be_int bs = int (be_nat bs) - (if be_neg bs then 2 ^ (8 * length bs) else 0)"

lemma be_nat_simps [simp]: "be_nat [] = 0" "be_nat (b # bs) = unat b * 2 ^ (8 * length bs) + be_nat bs"
  by (simp_all add: be_nat_def bl_nat_append bl_nat_byte_bits)

lemma be_nat_less: "be_nat bs < 2 ^ (8 * length bs)"
  using bl_nat_less [of "bits_of bs"] by (simp add: be_nat_def)

lemma be_neg_Cons [simp]: "be_neg (b # bs) \<longleftrightarrow> 128 \<le> unat b"
  by (simp add: be_neg_def)

lemma be_int_bounds:
  assumes "bs \<noteq> []"
  shows "- (2 ^ (8 * length bs - 1)) \<le> be_int bs" "be_int bs < 2 ^ (8 * length bs - 1)"
proof -
  from assms obtain b cs where bs: "bs = b # cs" by (cases bs) auto
  define P where "P = (2 ^ (8 * length cs) :: nat)"
  define x where "x = unat b * P"
  have c: "be_nat cs < P" unfolding P_def by (rule be_nat_less)
  have e: "(2::int) ^ (8 * length bs - 1) = 128 * int P" "(2::int) ^ (8 * length bs) = 256 * int P"
    by (simp_all add: bs P_def power_add numeral_eq_Suc)
  have v: "be_int bs = int x + int (be_nat cs) - (if 128 \<le> unat b then 256 * int P else 0)"
    unfolding be_int_def e(2) by (simp add: bs x_def P_def)
  have "128 * P \<le> x" if "128 \<le> unat b" using that by (simp add: x_def)
  moreover have "x \<le> 127 * P" if "\<not> 128 \<le> unat b" using that by (simp add: x_def)
  moreover have "x \<le> 255 * P" using unat_byte_less [of b] unfolding x_def by (intro mult_right_mono) linarith+
  ultimately show "- (2 ^ (8 * length bs - 1)) \<le> be_int bs" "be_int bs < 2 ^ (8 * length bs - 1)"
    using c unfolding e v by (auto simp del: unat_byte_less)
qed

lemma shift_in_add: "shift_in v b = v * 2 ^ 8 + word_of_nat (unat b)"
proof -
  have "push_bit 8 v AND ucast b = 0"
    by (rule bit_word_eqI) (auto simp: bit_simps dest: bit_imp_le_length)
  then have "shift_in v b = push_bit 8 v + ucast b" by (simp add: shift_in_def disjunctive_add_eq_or)
  then show ?thesis by (simp add: push_bit_eq_mult)
qed

lemma foldl_shift_in: "foldl shift_in v bs = v * 2 ^ (8 * length bs) + word_of_nat (be_nat bs)"
proof (induction bs arbitrary: v)
  case (Cons b bs)
  then show ?case by (simp add: shift_in_add algebra_simps power_add)
qed simp

lemma unat_high_bit: "drop_bit 7 (b :: byte) \<noteq> 0 \<longleftrightarrow> 128 \<le> unat b" "(b AND 0x80 = 0) \<longleftrightarrow> unat b < 128"
proof -
  have "drop_bit 7 b = 0 \<longleftrightarrow> unat (drop_bit 7 b) = 0" by (simp add: unat_eq_zero del: unat_drop_bit)
  then show "drop_bit 7 b \<noteq> 0 \<longleftrightarrow> 128 \<le> unat b" by (simp add: div_eq_0_iff not_less)
  have "(b AND 2 ^ 7 = 0) = (\<not> bit b 7)" by (rule and_exp_eq_0_iff_not_bit)
  moreover have "bit b 7 = bit (unat b) 7" by (simp add: bit_unsigned_iff)
  then have "bit b 7 = odd (unat b div 2 ^ 7)" by (simp only: bit_iff_odd)
  moreover have "unat b div 128 < 2" using unat_byte_less [of b] by (simp add: div_less_iff_less_mult)
  then have "unat b div 128 = 0 \<or> unat b div 128 = 1" by linarith
  moreover have "unat b div 128 = 0 \<longleftrightarrow> unat b < 128" by (simp add: div_eq_0_iff)
  ultimately show "(b AND 0x80 = 0) \<longleftrightarrow> unat b < 128" by auto
qed

lemma integer_convert_value:
  assumes "bs \<noteq> []"
  shows "asn_integer_convert bs = word_of_int (be_int bs)"
  unfolding asn_integer_convert_def foldl_shift_in unat_high_bit
  using assms by (cases bs) (simp_all add: be_int_def)

lemma skip_insignificant_value:
  "be_int (skip_insignificant bs) = be_int bs" "skip_insignificant bs = [] \<longleftrightarrow> bs = []"
  "length (skip_insignificant bs) \<le> length bs"
proof (induction bs rule: skip_insignificant.induct)
  case (1 b c bs)
  have u: "uint b = int k" if "unat b = k" for k using that by auto
  have "be_int (c # bs) = be_int (b # c # bs)"
    if "unat b = 0 \<and> unat c < 128 \<or> unat b = 255 \<and> \<not> unat c < 128"
    using that u [of 0] u [of 255] by (auto simp: be_int_def algebra_simps power_add)
  moreover have "unat b = 255" if "b = 0xff" using that by simp
  moreover have "unat b = 0" if "b = 0" using that by simp
  ultimately show "be_int (skip_insignificant (b # c # bs)) = be_int (b # c # bs)"
    "skip_insignificant (b # c # bs) = [] \<longleftrightarrow> b # c # bs = []"
    "length (skip_insignificant (b # c # bs)) \<le> length (b # c # bs)"
    using 1 by (auto simp: unat_high_bit)
qed auto

text \<open>Minimal encodings: no leading octet can be dropped.\<close>

definition minimal :: "byte list \<Rightarrow> bool" where
  "minimal bs \<longleftrightarrow> bs \<noteq> [] \<and>
     (length bs > 1 \<longrightarrow> \<not> (unat (bs ! 0) = 0 \<and> unat (bs ! 1) < 128 \<or> unat (bs ! 0) = 255 \<and> 128 \<le> unat (bs ! 1)))"

lemma skip_insignificant_minimal: "bs \<noteq> [] \<Longrightarrow> minimal (skip_insignificant bs)"
proof (induction bs rule: skip_insignificant.induct)
  case (1 b c bs)
  have "b = 0xff" if "unat b = 255" using that by (intro unsigned_word_eqI [where ?'a = nat]) simp
  moreover have "b = 0" if "unat b = 0" using that by (simp add: unat_eq_zero)
  ultimately show ?case using 1 by (auto simp: minimal_def unat_high_bit)
qed (auto simp: minimal_def)

lemma minimal_large:
  assumes "minimal bs" "length bs = Suc (Suc k)"
  shows "be_int bs < - (2 ^ (8 * k + 7)) \<or> 2 ^ (8 * k + 7) \<le> be_int bs"
proof -
  obtain b c cs where bs: "bs = b # c # cs" "length cs = k" using assms(2) by (auto simp: length_Suc_conv)
  define P where "P = (2 ^ (8 * k) :: nat)"
  define x where "x = (256 * unat b + unat c) * P"
  have n: "be_nat cs < P" using be_nat_less [of cs] bs by (simp add: P_def)
  have e: "(2::int) ^ (8 * k + 7) = 128 * int P" "(2::int) ^ (8 * length bs) = 65536 * int P"
    by (simp_all add: bs P_def power_add)
  have v: "be_int bs = int x + int (be_nat cs) - (if 128 \<le> unat b then 65536 * int P else 0)"
    unfolding be_int_def e(2) by (simp add: bs x_def P_def algebra_simps power_add)
  have m: "\<not> (unat b = 0 \<and> unat c < 128 \<or> unat b = 255 \<and> 128 \<le> unat c)" using assms(1) by (simp add: minimal_def bs)
  show ?thesis
  proof (cases "128 \<le> unat b")
    case True
    then have "256 * unat b + unat c \<le> 65536 - 129" using m unat_byte_less [of b] unat_byte_less [of c] by linarith
    then have "x \<le> (65536 - 129) * P" unfolding x_def by (intro mult_right_mono) linarith+
    then show ?thesis using True n unfolding v e by simp
  next
    case False
    then have "128 \<le> 256 * unat b + unat c" using m by linarith
    then have "128 * P \<le> x" unfolding x_def by (intro mult_right_mono) linarith+
    then show ?thesis using False unfolding v e by simp
  qed
qed

section \<open>What the conversions compute\<close>

lemma sint_word_of_int64: "- (2 ^ 63) \<le> x \<Longrightarrow> x < 2 ^ 63 \<Longrightarrow> sint (word_of_int x :: 64 word) = x"
proof -
  assume "- (2 ^ 63) \<le> x" "x < 2 ^ 63"
  moreover have "sint (word_of_int x :: 64 word) = signed_take_bit 63 x" by (simp only: sint_sbintrunc') simp
  ultimately show ?thesis by (simp only: signed_take_bit_int_eq_self)
qed

lemma INTEGER2imax_value:
  assumes "buf \<noteq> []"
  shows "asn_INTEGER2imax (Some buf) =
    (if - (2 ^ 63) \<le> be_int buf \<and> be_int buf < 2 ^ 63 then Some (word_of_int (be_int buf)) else None)"
proof -
  define b where "b = (if length buf > 8 then skip_insignificant buf else buf)"
  have b: "be_int b = be_int buf" "b \<noteq> []"
    using assms by (auto simp: b_def skip_insignificant_value)
  have eq: "asn_INTEGER2imax (Some buf) = (if length b > 8 then None else Some (word_of_int (be_int buf)))"
    using b by (simp add: asn_INTEGER2imax_def b_def [symmetric] Let_def integer_convert_value)
  show ?thesis
  proof (cases "length b > 8")
    case True
    then have "minimal b" using skip_insignificant_minimal [OF assms] by (auto simp: b_def split: if_splits)
    define k where "k = length b - 2"
    then have k: "length b = Suc (Suc k)" "7 \<le> k" using True by auto
    from \<open>minimal b\<close> k(1) have "be_int b < - (2 ^ (8 * k + 7)) \<or> 2 ^ (8 * k + 7) \<le> be_int b" by (simp add: minimal_large)
    moreover have "(2::int) ^ 63 \<le> 2 ^ (8 * k + 7)" using k(2) by (intro power_increasing) auto
    ultimately show ?thesis using True b(1) eq by auto
  next
    case False
    then have "(2::int) ^ (8 * length b - 1) \<le> 2 ^ 63" by (intro power_increasing) auto
    then show ?thesis using False eq be_int_bounds [OF b(2)] b(1) by auto
  qed
qed

lemma be_octets_bits: "bits_of (be_octets v) = nat_bl 64 (unat v)"
proof -
  have "bits_of (be_octets v) = concat (map (\<lambda>i. nat_bl 8 (unat v div 2 ^ (8 * (7 - i)))) [0..<8])"
    by (simp add: be_octets_def bits_of_def byte_bits_def comp_def unsigned_ucast_eq take_bit_eq_mod nat_bl_mod [of 8 8, simplified])
  then show ?thesis using nat_bl_octets [of 9 0 "unat v"] by simp
qed

lemma be_octets_value: "be_nat (be_octets v) = unat v" "length (be_octets v) = 8" "be_int (be_octets v) = sint v"
proof -
  show n: "be_nat (be_octets v) = unat v"
    using unsigned_less [of v, where ?'a = nat] by (simp add: be_nat_def be_octets_bits bl_nat_nat_bl)
  show l: "length (be_octets v) = 8" by (simp add: be_octets_def)
  then have "be_octets v \<noteq> []" by auto
  from be_int_bounds [OF this] l have "- (2 ^ 63) \<le> be_int (be_octets v)" "be_int (be_octets v) < 2 ^ 63" by simp_all
  then have "sint (word_of_int (be_int (be_octets v)) :: 64 word) = be_int (be_octets v)" by (rule sint_word_of_int64)
  moreover have "word_of_int (be_int (be_octets v)) = v" by (simp add: be_int_def n l)
  ultimately show "be_int (be_octets v) = sint v" by simp
qed

lemma imax2INTEGER_value:
  obtains bs where "asn_imax2INTEGER v = Some bs" "be_int bs = sint v" "minimal bs" "length bs \<le> 8"
  using skip_insignificant_value [of "be_octets v"] skip_insignificant_minimal [of "be_octets v"]
    be_octets_value [of v] by (fastforce simp: asn_imax2INTEGER_def)

lemma skip_zeroes_value:
  "skip_zeroes bs = (if be_nat bs < 2 ^ 64 then Some (drop (length bs - 8) bs) else None) \<and>
   (be_nat bs < 2 ^ 64 \<longrightarrow> be_nat (drop (length bs - 8) bs) = be_nat bs)"
proof (induction bs rule: skip_zeroes.induct)
  case (1 bs)
  show ?case
  proof (cases "length bs > 8")
    case False
    then have "(2::nat) ^ (8 * length bs) \<le> 2 ^ 64" by (intro power_increasing) auto
    then have "be_nat bs < 2 ^ 64" using be_nat_less [of bs] by linarith
    with False show ?thesis by (simp add: skip_zeroes.simps)
  next
    case True
    then obtain b cs where bs: "bs = b # cs" by (cases bs) auto
    show ?thesis
    proof (cases "b = 0")
      case False
      then have "1 \<le> unat b" by (simp add: Suc_le_eq unat_gt_0)
      then have "2 ^ (8 * length cs) \<le> be_nat bs" using bs by (simp add: trans_le_add1)
      moreover have "(2::nat) ^ 64 \<le> 2 ^ (8 * length cs)" using True bs by (intro power_increasing) auto
      ultimately have "\<not> be_nat bs < 2 ^ 64" by linarith
      then show ?thesis using True False bs by (simp add: skip_zeroes.simps)
    next
      case True
      have "length cs - 7 = Suc (length cs - 8)" using bs \<open>length bs > 8\<close> by simp
      then show ?thesis using True 1 [OF \<open>length bs > 8\<close>] bs \<open>length bs > 8\<close>
        by (auto simp: skip_zeroes.simps [of "0 # cs"])
    qed
  qed
qed

lemma INTEGER2umax_value:
  "asn_INTEGER2umax (Some buf) = (if be_nat buf < 2 ^ 64 then Some (word_of_nat (be_nat buf)) else None)"
  using skip_zeroes_value [of buf] by (auto simp: asn_INTEGER2umax_def foldl_shift_in)

lemma be_int_nonneg: "0 \<le> be_int bs \<Longrightarrow> int (be_nat bs) = be_int bs"
  using be_nat_less [of bs] by (auto simp: be_int_def split: if_splits simp flip: of_nat_less_iff)

lemma half_max: "(drop_bit 1 (NOT 0) :: 64 word) = 0x7FFFFFFFFFFFFFFF"
  by (simp add: mask_eq_exp_minus_1)

lemma uint_sint_small: "(v::64 word) \<le> drop_bit 1 (NOT 0) \<Longrightarrow> sint v = uint v"
proof -
  assume "v \<le> drop_bit 1 (NOT 0)"
  then have "unat v \<le> 2 ^ 63 - 1" unfolding half_max by (simp add: word_le_nat_alt)
  then have "unat v < 2 ^ 63" by simp
  then have "int (unat v) < int (2 ^ 63)" by (simp only: of_nat_less_iff)
  then have "uint v < 2 ^ 63" by simp
  moreover have "- (2 ^ 63) \<le> uint v" by (rule order_trans [OF _ uint_ge_0]) simp
  ultimately show ?thesis using sint_word_of_int64 [of "uint v"] by simp
qed

lemma umax2INTEGER_value:
  obtains bs where "asn_umax2INTEGER v = Some bs" "be_int bs = uint v" "be_nat bs = unat v" "minimal bs"
proof (cases "v \<le> drop_bit 1 (NOT 0)")
  case True
  obtain bs where bs: "asn_imax2INTEGER v = Some bs" "be_int bs = sint v" "minimal bs" by (rule imax2INTEGER_value)
  moreover have "be_int bs = uint v" using bs(2) uint_sint_small [OF True] by simp
  moreover from this be_int_nonneg [of bs] have "int (be_nat bs) = uint v" by simp
  then have "be_nat bs = unat v" by (metis nat_int nat_uint_eq)
  ultimately show ?thesis using True that by (simp add: asn_umax2INTEGER_def)
next
  case False
  then have v: "2 ^ 63 \<le> unat v" unfolding half_max by (simp add: word_le_nat_alt)
  have "sint v < 0"
  proof (rule ccontr)
    assume "\<not> sint v < 0"
    then have "int (unat v) < 2 ^ 63"
      using be_int_nonneg [of "be_octets v"] be_octets_value [of v] sint_bounds64 [of v] by simp
    then have "int (unat v) < int (2 ^ 63)" by simp
    with v show False by (simp only: of_nat_less_iff)
  qed
  with be_octets_value(3) [of v, symmetric] have "be_neg (be_octets v)"
    by (simp add: be_int_def split: if_splits)
  then have "128 \<le> unat (be_octets v ! 0)" by (simp add: be_neg_def)
  with False show ?thesis
    using that [of "0 # be_octets v"] be_octets_value [of v]
    by (auto simp: asn_umax2INTEGER_def be_int_def minimal_def)
qed

section \<open>What the parsers accept\<close>

definition digit_val :: "char \<Rightarrow> int" where
  "digit_val c = of_char c - 0x30"

definition dec_val :: "string \<Rightarrow> int" where
  "dec_val ds = foldl (\<lambda>v c. v * 10 + digit_val c) 0 ds"

lemma digit_val_range: "is_digit c \<Longrightarrow> 0 \<le> digit_val c \<and> digit_val c \<le> 9"
  by (auto simp: is_digit_def digit_val_def)

lemma dec_foldl: "foldl (\<lambda>v c. v * 10 + digit_val c) v ds = v * 10 ^ length ds + dec_val ds"
proof (induction ds arbitrary: v)
  case (Cons c ds)
  have "dec_val (c # ds) = digit_val c * 10 ^ length ds + dec_val ds"
    using Cons [of "digit_val c"] by (simp add: dec_val_def)
  then show ?case using Cons [of "v * 10 + digit_val c"] by (simp add: algebra_simps)
qed (simp add: dec_val_def)

lemma dec_val_Cons: "dec_val (c # ds) = digit_val c * 10 ^ length ds + dec_val ds"
  using dec_foldl [of "digit_val c" ds] by (simp add: dec_val_def)

lemma dec_val_nonneg: "list_all is_digit ds \<Longrightarrow> 0 \<le> dec_val ds"
  by (induction ds) (auto simp: dec_val_Cons dec_val_def [of "[]"] digit_val_range)

lemma digits_takeWhile: "list_all is_digit (takeWhile is_digit cs)"
  by (induction cs) auto

text \<open>The value after reading digits \<open>ds\<close> onto \<open>v\<close> is at least \<open>v\<close> grown tenfold per digit.\<close>

lemma acc_grows:
  assumes "0 \<le> v" "list_all is_digit ds"
  shows "v \<le> v * 10 ^ length ds + dec_val ds"
  using assms dec_val_nonneg [OF assms(2)] mult_left_mono [of 1 "10 ^ length ds" v] by simp

lemma strtox_loop_value:
  fixes M v :: int and cs :: string
  assumes ub: "M = 10 * ub + ldm" "0 < ub" "0 \<le> ldm" "ldm < 9" and sign: "sign = 1 \<or> sign = -1"
    and v: "0 \<le> v" "v \<le> M"
  defines "ds \<equiv> takeWhile is_digit cs"
  defines "n \<equiv> v * 10 ^ length ds + dec_val ds"
  shows "(n \<le> M \<longrightarrow> strtox_loop ub ldm sign v pos cs =
            (if length ds = length cs then ASN_STRTOX_OK else ASN_STRTOX_EXTRA_DATA, pos + length ds, Some (sign * n))) \<and>
         (M < n \<longrightarrow> (\<exists>p. strtox_loop ub ldm sign v pos cs = (ASN_STRTOX_ERROR_RANGE, p, None)))"
  unfolding ds_def n_def using v
proof (induction cs arbitrary: v pos)
  case Nil
  then show ?case by (simp add: dec_val_def)
next
  case (Cons c cs)
  let ?ds = "takeWhile is_digit cs"
  note dig = digits_takeWhile [of cs]
  show ?case
  proof (cases "is_digit c")
    case False
    then show ?thesis using Cons.prems by (simp add: dec_val_def)
  next
    case True
    let ?d = "of_char c - 0x30 :: int"
    have d: "0 \<le> ?d" "?d \<le> 9" using digit_val_range [OF True] by (simp_all add: digit_val_def)
    have n: "v * 10 ^ length (takeWhile is_digit (c # cs)) + dec_val (takeWhile is_digit (c # cs)) =
      (v * 10 + ?d) * 10 ^ length ?ds + dec_val ?ds"
      using True by (simp add: dec_val_Cons digit_val_def algebra_simps)
    have grow: "v * 10 + ?d \<le> (v * 10 + ?d) * 10 ^ length ?ds + dec_val ?ds"
      using acc_grows [OF _ dig, of "v * 10 + ?d"] Cons.prems d by simp
    consider "v < ub" | "v = ub" "?d \<le> ldm" | "v = ub" "ldm < ?d" | "ub < v" by linarith
    then show ?thesis
    proof cases
      case 1
      then have "v * 10 + ?d \<le> M" using d ub by linarith
      with 1 True Cons.IH [of "v * 10 + ?d" "pos + 1"] Cons.prems d show ?thesis unfolding n by (simp add: Let_def)
    next
      case 2
      show ?thesis
      proof (cases cs)
        case Nil
        then show ?thesis using 2 True sign ub unfolding n by (auto simp: dec_val_def algebra_simps)
      next
        case (Cons e es)
        have "M < (v * 10 + ?d) * 10 ^ length ?ds + dec_val ?ds" if "is_digit e"
        proof -
          let ?es = "takeWhile is_digit es"
          have "(v * 10 + ?d) * 10 \<le> (v * 10 + ?d) * 10 ^ length ?ds"
            by (rule mult_left_mono) (use that Cons Cons.prems d in simp_all)
          moreover have "M < v * 100 + x * 10" if "0 \<le> x" for x using 2(1) ub that by linarith
          from this [OF d(1)] have "M < (v * 10 + ?d) * 10" by (simp add: algebra_simps)
          ultimately show ?thesis using dec_val_nonneg [OF dig] by linarith
        qed
        moreover have "?ds = []" if "\<not> is_digit e" using that Cons by simp
        ultimately show ?thesis using 2 True sign ub Cons unfolding n by (auto simp: dec_val_def algebra_simps)
      qed
    next
      case 3
      then have "M < (v * 10 + ?d) * 10 ^ length ?ds + dec_val ?ds" using grow ub by linarith
      then show ?thesis using 3 True unfolding n by simp
    next
      case 4
      then have "M < (v * 10 + ?d) * 10 ^ length ?ds + dec_val ?ds" using grow ub d by linarith
      then show ?thesis using 4 True unfolding n by simp
    qed
  qed
qed

definition strtox_fits :: "bool \<Rightarrow> int \<Rightarrow> bool" where
  "strtox_fits neg n \<longleftrightarrow> (if neg then n \<le> 2 ^ 63 else n \<le> 2 ^ 63 - 1)"

lemma strtoimax_number:
  fixes cs :: string
  defines "ds \<equiv> takeWhile is_digit cs"
  assumes "cs \<noteq> []" "sg = (if neg then ''-'' else if pl then ''+'' else [])"
    "neg \<or> pl \<or> cs ! 0 \<notin> {CHR ''-'', CHR ''+''}"
  shows "if strtox_fits neg (dec_val ds)
    then asn_strtoimax_lim (sg @ cs) =
      (if length ds = length cs then ASN_STRTOX_OK else ASN_STRTOX_EXTRA_DATA, length sg + length ds,
       Some (if neg then - dec_val ds else dec_val ds))
    else \<exists>p. asn_strtoimax_lim (sg @ cs) = (ASN_STRTOX_ERROR_RANGE, p, None)"
proof -
  have n: "asn_strtoimax_lim (sg @ cs) = strtox_loop 922337203685477580 8 (-1) 0 1 cs" if neg
    using that assms(2,3) by (simp add: asn_strtoimax_lim_def)
  have p: "asn_strtoimax_lim (sg @ cs) = strtox_loop 922337203685477580 7 1 0 (length sg) cs" if "\<not> neg"
    using that assms(2-) by (cases cs) (auto simp: asn_strtoimax_lim_def simp del: strtox_loop.simps)
  show ?thesis
  proof (cases neg)
    case True
    from strtox_loop_value [of "2 ^ 63" 922337203685477580 8 "-1" 0 cs 1]
    show ?thesis using True n assms(3) unfolding ds_def strtox_fits_def by auto
  next
    case False
    from strtox_loop_value [of "2 ^ 63 - 1" 922337203685477580 7 1 0 cs "length sg"]
    show ?thesis using False p unfolding ds_def strtox_fits_def by auto
  qed
qed

lemma strtoumax_number:
  fixes cs :: string
  defines "ds \<equiv> takeWhile is_digit cs"
  assumes "cs \<noteq> []" "sg = (if pl then ''+'' else [])" "pl \<or> cs ! 0 \<notin> {CHR ''-'', CHR ''+''}"
  shows "if dec_val ds \<le> 2 ^ 64 - 1
    then asn_strtoumax_lim (sg @ cs) =
      (if length ds = length cs then ASN_STRTOX_OK else ASN_STRTOX_EXTRA_DATA, length sg + length ds, Some (dec_val ds))
    else \<exists>p. asn_strtoumax_lim (sg @ cs) = (ASN_STRTOX_ERROR_RANGE, p, None)"
proof -
  have "asn_strtoumax_lim (sg @ cs) = strtox_loop 1844674407370955161 5 1 0 (length sg) cs"
    using assms(2-) by (cases cs) (auto simp: asn_strtoumax_lim_def simp del: strtox_loop.simps)
  with strtox_loop_value [of "2 ^ 64 - 1" 1844674407370955161 5 1 0 cs "length sg"]
  show ?thesis unfolding ds_def by auto
qed

section \<open>Comparison and enumeration tables\<close>

lemma memcmp_value: "length as = length bs \<Longrightarrow> memcmp as bs = sgn (int (be_nat as) - int (be_nat bs))"
proof (induction as bs rule: memcmp.induct)
  case (1 a as b bs)
  then have l: "length as = length bs" by simp
  let ?P = "2 ^ (8 * length bs) :: nat"
  have n: "be_nat as < ?P" "be_nat bs < ?P" using be_nat_less [of as] be_nat_less [of bs] l by simp_all
  consider "a < b" | "b < a" | "a = b" by fastforce
  then show ?case
  proof cases
    case 1
    then have "unat a + 1 \<le> unat b" by (simp add: word_less_nat_alt)
    then have "(unat a + 1) * ?P \<le> unat b * ?P" by (rule mult_right_mono) simp
    then have "be_nat (a # as) < be_nat (b # bs)" using n l by simp
    then have "int (be_nat (a # as)) - int (be_nat (b # bs)) < 0" by linarith
    with 1 show ?thesis by (simp only: sgn_neg memcmp.simps if_True)
  next
    case 2
    then have "unat b + 1 \<le> unat a" by (simp add: word_less_nat_alt)
    then have "(unat b + 1) * ?P \<le> unat a * ?P" by (rule mult_right_mono) simp
    then have "be_nat (b # bs) < be_nat (a # as)" using n l by simp
    then have "int (be_nat (a # as)) - int (be_nat (b # bs)) > 0" by linarith
    moreover have "\<not> a < b" using 2 by simp
    ultimately show ?thesis using 2 by (simp only: sgn_pos memcmp.simps if_True if_False)
  next
    case 3
    then show ?thesis using 1 l by simp
  qed
qed auto

lemma octets_sign_neg: "bs \<noteq> [] \<Longrightarrow> octets_sign bs = (if be_neg bs then -1 else 1)"
  by (simp add: octets_sign_def be_neg_def unat_high_bit)

lemma be_neg_iff: "be_neg bs \<longleftrightarrow> be_int bs < 0"
  using be_nat_less [of bs] by (auto simp: be_int_def simp flip: of_nat_less_iff)

lemma longer_minimal:
  assumes "minimal bs" "as \<noteq> []" "length as < length bs"
  shows "\<not> be_neg as \<Longrightarrow> \<not> be_neg bs \<Longrightarrow> be_int as < be_int bs" "be_neg as \<Longrightarrow> be_neg bs \<Longrightarrow> be_int bs < be_int as"
proof -
  define k where "k = length bs - 2"
  have k: "length bs = Suc (Suc k)" using assms(2,3) by (cases as) (auto simp: k_def)
  then have "(2::int) ^ (8 * length as - 1) \<le> 2 ^ (8 * k + 7)"
    using assms(3) by (intro power_increasing) auto
  moreover note minimal_large [OF assms(1) k] be_int_bounds [OF assms(2)]
  moreover have "(0::int) < 2 ^ (8 * k + 7)" by simp
  ultimately show "\<not> be_neg as \<Longrightarrow> \<not> be_neg bs \<Longrightarrow> be_int as < be_int bs" "be_neg as \<Longrightarrow> be_neg bs \<Longrightarrow> be_int bs < be_int as"
    unfolding be_neg_iff by linarith+
qed

lemma INTEGER_compare_order:
  assumes "minimal as" "minimal bs"
  shows "\<exists>r. INTEGER_compare (Some (Some as)) (Some (Some bs)) = Some r \<and>
    sgn r = (if be_neg as \<and> be_neg bs \<and> length as = length bs then -1 else 1) * sgn (be_int as - be_int bs)"
proof -
  have ne: "as \<noteq> []" "bs \<noteq> []" using assms by (auto simp: minimal_def)
  note cmp = INTEGER_compare_def Let_def ne octets_sign_neg
  consider "be_neg as" "\<not> be_neg bs" | "\<not> be_neg as" "be_neg bs"
    | "be_neg as = be_neg bs" "length as < length bs" | "be_neg as = be_neg bs" "length bs < length as"
    | "be_neg as = be_neg bs" "length as = length bs" by linarith
  then show ?thesis
  proof cases
    case 1
    then have "be_int as - be_int bs < 0" by (simp add: be_neg_iff)
    with 1 show ?thesis by (simp add: cmp)
  next
    case 2
    then have "be_int as - be_int bs > 0" by (simp add: be_neg_iff)
    with 2 show ?thesis by (simp add: cmp)
  next
    case 3
    then show ?thesis using longer_minimal [OF assms(2) ne(1)] by (cases "be_neg as") (simp_all add: cmp)
  next
    case 4
    then show ?thesis using longer_minimal [OF assms(1) ne(2)] by (cases "be_neg as") (simp_all add: cmp)
  next
    case 5
    then have "be_int as - be_int bs = int (be_nat as) - int (be_nat bs)" by (simp add: be_int_def)
    with 5 show ?thesis using memcmp_value [OF 5(2)] by (cases "be_neg bs") (simp_all add: cmp sgn_mult)
  qed
qed

lemma bsearch_sound: "bsearch cmp tab lo hi = Some i \<Longrightarrow> lo \<le> i \<and> i < hi \<and> cmp (tab ! i) = 0"
proof (induction cmp tab lo hi rule: bsearch.induct)
  case (1 cmp tab lo hi)
  show ?case
    using "1.prems" "1.IH" by (subst (asm) bsearch.simps) (fastforce simp: Let_def split: if_splits)
qed

lemma bsearch_complete:
  assumes "\<And>i. i < k \<Longrightarrow> cmp (tab ! i) > 0" "\<And>i. k < i \<Longrightarrow> i < length tab \<Longrightarrow> cmp (tab ! i) < 0" "cmp (tab ! k) = 0"
  shows "lo \<le> k \<Longrightarrow> k < hi \<Longrightarrow> hi \<le> length tab \<Longrightarrow> bsearch cmp tab lo hi = Some k"
  using assms
proof (induction cmp tab lo hi rule: bsearch.induct)
  case (1 cmp tab lo hi)
  let ?mid = "(lo + hi) div 2"
  have mid: "lo \<le> ?mid" "?mid < hi" "lo < hi" using 1 by auto
  consider "?mid < k" | "?mid = k" | "k < ?mid" by linarith
  then show ?case
  proof cases
    case 1
    then have "cmp (tab ! ?mid) > 0" using "1.prems"(4) by simp
    moreover from this have "bsearch cmp tab (?mid + 1) hi = Some k"
      using "1.IH"(2) [OF mid(3) refl refl] "1.prems" mid 1 by simp
    ultimately show ?thesis using mid by (subst bsearch.simps) (simp add: Let_def)
  next
    case 2
    then show ?thesis using "1.prems" mid by (subst bsearch.simps) (simp add: Let_def)
  next
    case 3
    then have "cmp (tab ! ?mid) < 0" using "1.prems" mid by simp
    moreover from this have "bsearch cmp tab lo ?mid = Some k"
      using "1.IH"(1) [OF mid(3) refl refl] "1.prems" mid 3 by simp
    ultimately show ?thesis using mid by (subst bsearch.simps) (simp add: Let_def)
  qed
qed

lemma map_value2enum_iff:
  assumes "sorted_wrt (\<lambda>x y. sint (nat_value x) < sint (nat_value y)) (value2enum sp)"
  shows "INTEGER_map_value2enum (Some sp) v = Some el \<longleftrightarrow> el \<in> set (value2enum sp) \<and> nat_value el = v"
proof
  assume "INTEGER_map_value2enum (Some sp) v = Some el"
  then obtain i where i: "bsearch (compar_value2enum v) (value2enum sp) 0 (length (value2enum sp)) = Some i" "el = value2enum sp ! i"
    by (auto simp: INTEGER_map_value2enum_def split: if_splits)
  from bsearch_sound [OF i(1)] i(2) show "el \<in> set (value2enum sp) \<and> nat_value el = v"
    by (auto simp: compar_value2enum_def Let_def split: if_splits)
next
  assume el: "el \<in> set (value2enum sp) \<and> nat_value el = v"
  then obtain k where k: "k < length (value2enum sp)" "value2enum sp ! k = el" by (auto simp: in_set_conv_nth)
  have "bsearch (compar_value2enum v) (value2enum sp) 0 (length (value2enum sp)) = Some k"
  proof (rule bsearch_complete)
    fix i assume "i < k"
    with assms k have "sint (nat_value (value2enum sp ! i)) < sint v" using el by (auto simp: sorted_wrt_iff_nth_less)
    then show "compar_value2enum v (value2enum sp ! i) > 0" by (auto simp: compar_value2enum_def word_sless_alt Let_def)
  next
    fix i assume "k < i" "i < length (value2enum sp)"
    with assms k have "sint v < sint (nat_value (value2enum sp ! i))" using el by (auto simp: sorted_wrt_iff_nth_less)
    then show "compar_value2enum v (value2enum sp ! i) < 0" by (auto simp: compar_value2enum_def word_sless_alt Let_def)
  qed (use k el in \<open>auto simp: compar_value2enum_def word_sless_alt\<close>)
  then show "INTEGER_map_value2enum (Some sp) v = Some el" using k by (auto simp: INTEGER_map_value2enum_def)
qed
lemma minimal_unique:
  assumes "minimal as" "minimal bs" "be_int as = be_int bs"
  shows "as = bs"
proof -
  have ne: "as \<noteq> []" "bs \<noteq> []" using assms by (auto simp: minimal_def)
  have neg: "be_neg as = be_neg bs" using assms(3) by (simp add: be_neg_iff)
  have len: "length as = length bs"
    using longer_minimal [OF assms(2) ne(1)] longer_minimal [OF assms(1) ne(2)] neg assms(3)
    by (metis less_irrefl linorder_neqE_nat)
  with neg assms(3) have "be_nat as = be_nat bs" by (auto simp: be_int_def split: if_splits)
  then have "bits_of as = bits_of bs"
    using len by (metis be_nat_def nat_bl_bl_nat length_bits_of)
  with len show ?thesis by (simp add: bits_of_inject)
qed

lemma imax2INTEGER_minimal: "minimal bs \<Longrightarrow> be_int bs = sint v \<Longrightarrow> asn_imax2INTEGER v = Some bs"
  by (metis imax2INTEGER_value minimal_unique)

lemma nonneg_words:
  fixes a b :: "64 word"
  assumes "0 \<le> sint a" "0 \<le> sint b"
  shows "(a < b) = (a <s b)"
proof -
  have "sint w = uint w" if "0 \<le> sint w" for w :: "64 word"
    using that be_int_nonneg [of "be_octets w"] be_octets_value [of w] by simp
  with assms show ?thesis by (simp add: word_less_def word_sless_alt)
qed

lemma nonneg_uint: "0 \<le> sint (w :: 64 word) \<Longrightarrow> uint w = sint w"
  using be_int_nonneg [of "be_octets w"] be_octets_value [of w] by simp

lemma INTEGER2umax_nonneg:
  assumes "0 \<le> be_int st" "be_int st < 2 ^ 63"
  shows "asn_INTEGER2umax (Some st) = Some (word_of_int (be_int st))"
proof -
  have n: "int (be_nat st) = be_int st" using assms(1) by (rule be_int_nonneg)
  then have "int (be_nat st) < 2 ^ 64" using assms(2) by simp
  then have "be_nat st < 2 ^ 64" by (metis of_nat_less_iff of_nat_numeral of_nat_power)
  moreover have "word_of_int (be_int st) = (word_of_nat (be_nat st) :: 64 word)" by (simp flip: n)
  ultimately show ?thesis by (simp add: INTEGER2umax_value)
qed

section \<open>Conversions as a contract\<close>

text \<open>
  A pair of conversions between a machine integer and an INTEGER: the octets written are
  minimal and carry the value, and octets that carry a value of the type give it back.
\<close>

locale integer_conversion =
  fixes to_INTEGER :: "64 word \<Rightarrow> INTEGER_t" and of_INTEGER :: "INTEGER_t \<Rightarrow> 64 word option"
    and machine_value :: "64 word \<Rightarrow> int"
  assumes to_value: "\<exists>bs. to_INTEGER v = Some bs \<and> minimal bs \<and> be_int bs = machine_value v"
    and of_value: "minimal bs \<Longrightarrow> be_int bs = machine_value v \<Longrightarrow> of_INTEGER (Some bs) = Some v"
begin

lemma conversion_roundtrip: "of_INTEGER (to_INTEGER v) = Some v"
  by (metis to_value of_value)

lemma to_INTEGER_injective: "to_INTEGER v = to_INTEGER w \<Longrightarrow> v = w"
  by (metis conversion_roundtrip option.inject)

end

lemma int642INTEGER_imax: "asn_int642INTEGER = asn_imax2INTEGER"
  by (simp add: fun_eq_iff asn_int642INTEGER_def asn_imax2INTEGER_def)

lemma uint642INTEGER_umax: "asn_uint642INTEGER = asn_umax2INTEGER"
  unfolding fun_eq_iff asn_uint642INTEGER_def asn_umax2INTEGER_def int642INTEGER_imax half_max INTMAX_MAX_def by simp

lemma INTEGER2long_imax: "asn_INTEGER2long = asn_INTEGER2imax"
proof -
  have "\<not> (sint v < - (2 ^ 63) \<or> sint v > 2 ^ 63 - 1)" for v :: intmax using sint_bounds64 [of v] by simp
  then show ?thesis by (simp add: fun_eq_iff asn_INTEGER2long_def split: option.splits)
qed

lemma INTEGER2ulong_umax: "asn_INTEGER2ulong = asn_INTEGER2umax"
proof -
  have "\<not> uint v > 2 ^ 64 - 1" for v :: uintmax using unsigned_less [of v, where ?'a = int] by simp
  then show ?thesis by (simp add: fun_eq_iff asn_INTEGER2ulong_def split: option.splits)
qed

interpretation imax_conv: integer_conversion asn_imax2INTEGER asn_INTEGER2imax sint
proof unfold_locales
  fix v :: "64 word" and bs :: "byte list"
  show "\<exists>bs. asn_imax2INTEGER v = Some bs \<and> minimal bs \<and> be_int bs = sint v"
    by (metis imax2INTEGER_value)
  assume "minimal bs" "be_int bs = sint v"
  then show "asn_INTEGER2imax (Some bs) = Some v"
    using INTEGER2imax_value [of bs] sint_bounds64 [of v] by (simp add: minimal_def)
qed

interpretation umax_conv: integer_conversion asn_umax2INTEGER asn_INTEGER2umax uint
proof unfold_locales
  fix v :: "64 word" and bs :: "byte list"
  show "\<exists>bs. asn_umax2INTEGER v = Some bs \<and> minimal bs \<and> be_int bs = uint v"
    by (metis umax2INTEGER_value)
  assume "minimal bs" "be_int bs = uint v"
  then have "int (be_nat bs) = uint v" using be_int_nonneg [of bs] by simp
  then have "be_nat bs = unat v" by (metis nat_int nat_uint_eq)
  then show "asn_INTEGER2umax (Some bs) = Some v"
    using unsigned_less [of v, where ?'a = nat] by (simp add: INTEGER2umax_value)
qed

interpretation long_conv: integer_conversion asn_long2INTEGER asn_INTEGER2long sint
  using imax_conv.to_value imax_conv.of_value
  by unfold_locales (simp_all add: asn_long2INTEGER_def INTEGER2long_imax)

interpretation int64_conv: integer_conversion asn_int642INTEGER asn_INTEGER2imax sint
  using imax_conv.to_value imax_conv.of_value by unfold_locales (simp_all add: int642INTEGER_imax)

interpretation uint64_conv: integer_conversion asn_uint642INTEGER asn_INTEGER2umax uint
  using umax_conv.to_value umax_conv.of_value by unfold_locales (simp_all add: uint642INTEGER_umax)

section \<open>Properties of INTEGER\<close>

text \<open>
  The machine integer conversions lose nothing. Every 64-bit value written with
  \<open>asn_imax2INTEGER\<close>, \<open>asn_long2INTEGER\<close>, \<open>asn_int642INTEGER\<close>,
  \<open>asn_umax2INTEGER\<close> or \<open>asn_uint642INTEGER\<close> becomes a minimal two's complement
  octet string with that value and is read back unchanged.
\<close>

theorem integer_conversions_roundtrip:
  "(\<exists>bs. asn_imax2INTEGER v = Some bs \<and> minimal bs \<and> be_int bs = sint v) \<and>
   (\<exists>bs. asn_umax2INTEGER v = Some bs \<and> minimal bs \<and> be_int bs = uint v) \<and>
   asn_INTEGER2imax (asn_imax2INTEGER v) = Some v \<and> asn_INTEGER2long (asn_long2INTEGER v) = Some v \<and>
   asn_INTEGER2imax (asn_int642INTEGER v) = Some v \<and> asn_INTEGER2umax (asn_umax2INTEGER v) = Some v \<and>
   asn_INTEGER2umax (asn_uint642INTEGER v) = Some v"
  using imax_conv.to_value umax_conv.to_value imax_conv.conversion_roundtrip long_conv.conversion_roundtrip
    int64_conv.conversion_roundtrip umax_conv.conversion_roundtrip uint64_conv.conversion_roundtrip by blast

text \<open>
  \<open>asn_INTEGER2imax\<close> accepts exactly the INTEGERs whose value fits 64 bits, of
  any length and however many redundant leading octets they have, and returns that value;
  every other one is a range error.
\<close>

theorem INTEGER2imax_exact:
  assumes "buf \<noteq> []"
  shows "case asn_INTEGER2imax (Some buf) of
      Some v \<Rightarrow> sint v = be_int buf
    | None \<Rightarrow> be_int buf < - (2 ^ 63) \<or> 2 ^ 63 \<le> be_int buf"
  using INTEGER2imax_value [OF assms] sint_word_of_int64 [of "be_int buf"] by (auto split: option.splits if_splits)

theorem INTEGER2imax_exact_witness:
  "asn_INTEGER2imax (Some [0xff, 0xff, 0xff, 0xff, 0xff, 0xff, 0xff, 0xff, 0xff, 0x80]) = Some (- 128)"
proof -
  let ?buf = "[0xff, 0xff, 0xff, 0xff, 0xff, 0xff, 0xff, 0xff, 0xff, 0x80] :: byte list"
  have "be_int ?buf = - 128" by (simp add: be_int_def)
  with INTEGER2imax_exact [of ?buf] obtain v where "asn_INTEGER2imax (Some ?buf) = Some v" "sint v = - 128"
    by (auto split: option.splits)
  moreover from this(2) have "word_of_int (sint v) = (word_of_int (- 128) :: 64 word)" by (rule arg_cong)
  then have "v = - 128" by simp
  ultimately show ?thesis by simp
qed

text \<open>
  \<open>asn_INTEGER2umax\<close> reads the octets as an unsigned number, of any length with
  redundant zero octets, and refuses exactly the numbers of more than 64 bits.
\<close>

theorem INTEGER2umax_exact:
  "case asn_INTEGER2umax (Some buf) of Some v \<Rightarrow> unat v = be_nat buf | None \<Rightarrow> 2 ^ 64 \<le> be_nat buf"
  by (simp add: INTEGER2umax_value unat_of_nat)

text \<open>
  An \<open>unsigned long\<close> of 2^63 or more does not survive
  \<open>asn_ulong2INTEGER\<close>: it is stored through the signed conversion as a negative
  INTEGER.
\<close>

theorem ulong2INTEGER_negative:
  assumes "2 ^ 63 \<le> uint v"
  shows "\<exists>bs. asn_ulong2INTEGER v = Some bs \<and> be_int bs = uint v - 2 ^ 64 \<and> be_int bs < 0"
proof -
  obtain bs where bs: "asn_imax2INTEGER v = Some bs" "be_int bs = sint v" by (rule imax2INTEGER_value)
  have "uint v < 2 ^ 64" using unsigned_less [of v, where ?'a = int] by simp
  with assms have "sint (word_of_int (uint v - 2 ^ 64) :: 64 word) = uint v - 2 ^ 64"
    by (intro sint_word_of_int64) simp_all
  moreover have "word_of_int (uint v - 2 ^ 64) = v" by simp
  ultimately have "sint v = uint v - 2 ^ 64" by (simp only:)
  with bs \<open>uint v < 2 ^ 64\<close> show ?thesis by (simp add: asn_ulong2INTEGER_def)
qed

theorem ulong2INTEGER_negative_witness:
  "asn_INTEGER2ulong (asn_ulong2INTEGER 0xFFFFFFFFFFFFFFFF) = Some 0xFF \<and>
   (\<exists>bs. asn_ulong2INTEGER 0xFFFFFFFFFFFFFFFF = Some bs \<and> be_int bs < 0)"
proof (rule conjI)
  show "asn_INTEGER2ulong (asn_ulong2INTEGER 0xFFFFFFFFFFFFFFFF) = Some 0xFF" by code_simp
  show "\<exists>bs. asn_ulong2INTEGER 0xFFFFFFFFFFFFFFFF = Some bs \<and> be_int bs < 0"
    using ulong2INTEGER_negative [of "0xFFFFFFFFFFFFFFFF"] by auto
qed

text \<open>
  \<open>asn_strtoimax_lim\<close> on an optional sign and at least one more character. The
  number is the maximal run of digits; it is returned exactly, with its sign and the
  position after it, when it fits 64 bits (the most negative number included), with a
  code that says whether characters are left; a number that does not fit is a range error.
\<close>

theorem strtoimax_exact:
  assumes "cs \<noteq> []" "sg = (if neg then ''-'' else if pl then ''+'' else [])"
    "neg \<or> pl \<or> cs ! 0 \<notin> {CHR ''-'', CHR ''+''}"
  shows "let ds = takeWhile is_digit cs; n = (if neg then - dec_val ds else dec_val ds)
    in if - (2 ^ 63) \<le> n \<and> n \<le> 2 ^ 63 - 1
       then asn_strtoimax_lim (sg @ cs) =
         (if length ds = length cs then ASN_STRTOX_OK else ASN_STRTOX_EXTRA_DATA, length sg + length ds, Some n)
       else \<exists>p. asn_strtoimax_lim (sg @ cs) = (ASN_STRTOX_ERROR_RANGE, p, None)"
proof -
  have "0 \<le> dec_val (takeWhile is_digit cs)" by (rule dec_val_nonneg [OF digits_takeWhile])
  then show ?thesis using strtoimax_number [OF assms] unfolding Let_def strtox_fits_def by (cases neg) auto
qed

theorem strtoimax_exact_witness:
  "asn_strtoimax_lim ''-9223372036854775808;'' = (ASN_STRTOX_EXTRA_DATA, 20, Some (- 9223372036854775808)) \<and>
   (\<exists>p. asn_strtoimax_lim ''9223372036854775808'' = (ASN_STRTOX_ERROR_RANGE, p, None))"
  using strtoimax_exact [of "''9223372036854775808;''" "''-''" True True]
    strtoimax_exact [of "''9223372036854775808''" "[]" False False]
  by (simp add: Let_def is_digit_def dec_val_def digit_val_def)

text \<open>
  \<open>INTEGER_compare\<close> on minimal INTEGERs orders by value, except for two negative
  numbers with equally many octets: there the sign is inverted, so the larger number
  compares as the smaller one.
\<close>

theorem INTEGER_compare_sign:
  assumes "minimal as" "minimal bs"
  shows "\<exists>r. INTEGER_compare (Some (Some as)) (Some (Some bs)) = Some r \<and>
    sgn r = (if be_int as < 0 \<and> be_int bs < 0 \<and> length as = length bs
             then sgn (be_int bs - be_int as) else sgn (be_int as - be_int bs))"
  using INTEGER_compare_order [OF assms] by (auto simp: be_neg_iff sgn_minus [symmetric] simp del: sgn_minus)

theorem INTEGER_compare_sign_witness:
  "be_int [0xff] = - 1 \<and> be_int [0xfe] = - 2 \<and>
   (\<exists>r. INTEGER_compare (Some (Some [0xff])) (Some (Some [0xfe])) = Some r \<and> r < 0)"
proof -
  have v: "be_int [0xff] = - 1" "be_int [0xfe] = - 2" by (simp_all add: be_int_def)
  have "minimal [0xff]" "minimal [0xfe]" by (simp_all add: minimal_def)
  from INTEGER_compare_sign [OF this] show ?thesis unfolding v by (auto simp: sgn_if split: if_splits)
qed

text \<open>
  Looking up an enumeration value. On a table sorted by value, as the generated
  tables are, \<open>INTEGER_map_value2enum\<close> finds exactly the entry with that value.
\<close>

theorem map_value2enum_exact:
  assumes "sorted_wrt (\<lambda>x y. sint (nat_value x) < sint (nat_value y)) (value2enum sp)"
  shows "INTEGER_map_value2enum (Some sp) v = Some el \<longleftrightarrow> el \<in> set (value2enum sp) \<and> nat_value el = v"
  using map_value2enum_iff [OF assms] .

theorem map_value2enum_exact_witness:
  "INTEGER_map_value2enum (Some \<lparr>value2enum = [\<lparr>nat_value = - 1, enum_name = ''a''\<rparr>, \<lparr>nat_value = 7, enum_name = ''b''\<rparr>],
      enum2value = [], map_extension = 0, strict_enumeration = True, field_width = 0, field_unsigned = False\<rparr>) 7 =
    Some \<lparr>nat_value = 7, enum_name = ''b''\<rparr>"
  by (subst map_value2enum_exact) simp_all

end
