(* ===== verification/Uper_Primitives.thy ===== *)
theory Uper_Primitives
  imports Uper_Fragments Asn_Integer
begin

unbundle bit_operations_syntax

text \<open>
  The unaligned PER codecs of the primitive types: \<open>BOOLEAN_uper.c\<close>,
  \<open>NULL_uper.c\<close>, \<open>INTEGER_uper.c\<close>, \<open>NativeInteger_uper.c\<close>,
  \<open>NativeEnumerated_uper.c\<close> and \<open>ENUMERATED_uper.c\<close>. A decoder returns its
  \<open>rval\<close>, the decoded structure and \<open>rval.consumed\<close> when the code is
  \<open>RC_OK\<close>, and the stream. An encoder returns \<open>er.encoded\<close>, 0 from \<open>ASN__ENCODED_OK\<close> and -1
  from \<open>ASN__ENCODE_FAILED\<close>, and the writer. A structure pointer that may be null is
  an option; so are the type's specifics and constraints.
\<close>

datatype 'a dec_rval = RC_OK 'a nat | RC_WMORE | RC_FAIL

definition value_constraint ::
  "asn_per_constraints option \<Rightarrow> asn_per_constraints option \<Rightarrow> asn_per_constraint option" where
  "value_constraint td_constraints constraints =
     map_option pc_value (case constraints of None \<Rightarrow> td_constraints | Some c \<Rightarrow> Some c)"

definition is_unsigned :: "asn_INTEGER_specifics option \<Rightarrow> bool" where
  "is_unsigned specs = (case specs of None \<Rightarrow> False | Some s \<Rightarrow> field_unsigned s)"

section \<open>BOOLEAN and NULL\<close>

definition BOOLEAN_decode_uper :: "asn_bit_data \<Rightarrow> int dec_rval \<times> asn_bit_data" where
  "BOOLEAN_decode_uper pd =
     (case asn_get_few_bits pd 1 of (b, pd') \<Rightarrow>
        (if b = 1 then RC_OK 1 1 else if b = 0 then RC_OK 0 1 else RC_WMORE, pd'))"

definition BOOLEAN_encode_uper :: "int option \<Rightarrow> asn_bit_outp \<Rightarrow> int \<times> asn_bit_outp" where
  "BOOLEAN_encode_uper st po =
     (case st of None \<Rightarrow> (-1, po)
      | Some b \<Rightarrow> (case asn_put_few_bits po (if b \<noteq> 0 then 1 else 0) 1 of (r, po') \<Rightarrow> (if r \<noteq> 0 then -1 else 0, po')))"

definition NULL_decode_uper :: "asn_bit_data \<Rightarrow> unit dec_rval \<times> asn_bit_data" where
  "NULL_decode_uper pd = (RC_OK () 0, pd)"

definition NULL_encode_uper :: "asn_bit_outp \<Rightarrow> int \<times> asn_bit_outp" where
  "NULL_encode_uper po = (0, po)"

section \<open>INTEGER\<close>

text \<open>The constrained whole number of \<open>INTEGER_decode_uper\<close>, with \<open>range_bits >= 0\<close>.\<close>

definition INTEGER_decode_range ::
  "asn_INTEGER_specifics option \<Rightarrow> asn_per_constraint \<Rightarrow> asn_bit_data \<Rightarrow> INTEGER_t dec_rval \<times> asn_bit_data" where
  "INTEGER_decode_range specs ct pd =
     (if range_bits ct > 64 then (RC_FAIL, pd)
      else case uper_get_constrained_whole_number pd (range_bits ct) of
          (None, pd') \<Rightarrow> (RC_WMORE, pd')
        | (Some uvalue, pd') \<Rightarrow>
            if is_unsigned specs then (RC_OK (asn_umax2INTEGER (uvalue + lower_bound ct)) 0, pd')
            else (case per_imax_range_unrebase uvalue (lower_bound ct) (upper_bound ct) of
                None \<Rightarrow> (RC_FAIL, pd')
              | Some svalue \<Rightarrow> (RC_OK (asn_imax2INTEGER svalue) 0, pd')))"

text \<open>The octets of an unconstrained or semi-constrained number, and the lower bound added to them.\<close>

definition INTEGER_decode_octets :: "asn_per_constraint option \<Rightarrow> asn_bit_data \<Rightarrow> INTEGER_t dec_rval \<times> asn_bit_data" where
  "INTEGER_decode_octets ct pd =
     (case uper_get_octets pd (case ct of None \<Rightarrow> [] | Some c \<Rightarrow> if apc_semi_constrained c then [0] else []) of
        (None, pd') \<Rightarrow> (RC_WMORE, pd')
      | (Some buf, pd') \<Rightarrow>
          (case ct of None \<Rightarrow> (RC_OK (Some buf) 0, pd')
           | Some c \<Rightarrow>
               if lower_bound c \<noteq> 0 then
                 (case asn_INTEGER2long (Some buf) of
                    None \<Rightarrow> (RC_FAIL, pd')
                  | Some value \<Rightarrow> (RC_OK (asn_imax2INTEGER (value + lower_bound c)) 0, pd'))
               else (RC_OK (Some buf) 0, pd')))"

definition has_flags :: "asn_per_constraint \<Rightarrow> bool" where
  "has_flags ct \<longleftrightarrow> apc_semi_constrained ct \<or> apc_constrained ct \<or> apc_extensible ct"

definition INTEGER_decode_body ::
  "asn_INTEGER_specifics option \<Rightarrow> asn_per_constraint option \<Rightarrow> asn_bit_data \<Rightarrow> INTEGER_t dec_rval \<times> asn_bit_data" where
  "INTEGER_decode_body specs ct pd =
     (case ct of
        Some c \<Rightarrow> if has_flags c \<and> range_bits c \<ge> 0 then INTEGER_decode_range specs c pd else INTEGER_decode_octets ct pd
      | None \<Rightarrow> INTEGER_decode_octets None pd)"

definition INTEGER_decode_uper ::
  "asn_INTEGER_specifics option \<Rightarrow> asn_per_constraints option \<Rightarrow> asn_per_constraints option \<Rightarrow>
   asn_bit_data \<Rightarrow> INTEGER_t dec_rval \<times> asn_bit_data" where
  "INTEGER_decode_uper specs td_constraints constraints pd =
     (case value_constraint td_constraints constraints of
        Some c \<Rightarrow>
          if apc_extensible c then
            (case asn_get_few_bits pd 1 of (inext, pd') \<Rightarrow>
               if inext < 0 then (RC_WMORE, pd')
               else INTEGER_decode_body specs (if inext \<noteq> 0 then None else Some c) pd')
          else INTEGER_decode_body specs (Some c) pd
      | None \<Rightarrow> INTEGER_decode_body specs None pd)"

text \<open>The value to encode and whether it lies outside the root; \<open>None\<close> if it does not fit.\<close>

definition INTEGER_value_inext ::
  "asn_INTEGER_specifics option \<Rightarrow> asn_per_constraint \<Rightarrow> INTEGER_t \<Rightarrow> (64 word \<times> bool) option" where
  "INTEGER_value_inext specs ct st =
     (if is_unsigned specs then
        (case asn_INTEGER2umax st of None \<Rightarrow> None
         | Some u \<Rightarrow> Some (u,
             if apc_semi_constrained ct then u < lower_bound ct
             else if range_bits ct \<ge> 0 then u < lower_bound ct \<or> u > upper_bound ct
             else False))
      else
        (case asn_INTEGER2imax st of None \<Rightarrow> None
         | Some s \<Rightarrow> Some (s,
             if apc_semi_constrained ct then s <s lower_bound ct
             else if range_bits ct \<ge> 0 then s <s lower_bound ct \<or> upper_bound ct <s s
             else False)))"

definition INTEGER_encode_range ::
  "asn_INTEGER_specifics option \<Rightarrow> asn_per_constraint \<Rightarrow> 64 word \<Rightarrow> asn_bit_outp \<Rightarrow> int \<times> asn_bit_outp" where
  "INTEGER_encode_range specs ct value po =
     (case (if is_unsigned specs
            then if lower_bound ct > upper_bound ct \<or> value < lower_bound ct \<or> value > upper_bound ct
                 then None else Some (value - lower_bound ct)
            else per_imax_range_rebase value (lower_bound ct) (upper_bound ct)) of
        None \<Rightarrow> (-1, po)
      | Some v \<Rightarrow>
          (case uper_put_constrained_whole_number_u po v (range_bits ct) of (r, po') \<Rightarrow>
             (if r \<noteq> 0 then -1 else 0, po')))"

text \<open>An INTEGER is not empty here, so the loop over its octets runs at least once.\<close>

definition INTEGER_encode_tail ::
  "asn_INTEGER_specifics option \<Rightarrow> asn_per_constraint option \<Rightarrow> 64 word \<Rightarrow> byte list \<Rightarrow> asn_bit_outp \<Rightarrow> int \<times> asn_bit_outp" where
  "INTEGER_encode_tail specs ct value buf po =
     (case ct of
        Some c \<Rightarrow>
          if range_bits c \<ge> 0 then INTEGER_encode_range specs c value po
          else if lower_bound c \<noteq> 0 then (-1, po)
          else uper_put_octets po buf
      | None \<Rightarrow> uper_put_octets po buf)"

definition INTEGER_encode_uper ::
  "asn_INTEGER_specifics option \<Rightarrow> asn_per_constraints option \<Rightarrow> asn_per_constraints option \<Rightarrow>
   INTEGER_t option \<Rightarrow> asn_bit_outp \<Rightarrow> int \<times> asn_bit_outp" where
  "INTEGER_encode_uper specs td_constraints constraints sptr po =
     (case sptr of None \<Rightarrow> (-1, po)
      | Some st \<Rightarrow>
          if int_octets st = [] then (-1, po)
          else case value_constraint td_constraints constraints of
              None \<Rightarrow> INTEGER_encode_tail specs None 0 (int_octets st) po
            | Some ct \<Rightarrow>
                (case INTEGER_value_inext specs ct st of None \<Rightarrow> (-1, po)
                 | Some (value, inext) \<Rightarrow>
                     if apc_extensible ct then
                       (case asn_put_few_bits po (if inext then 1 else 0) 1 of (r, po') \<Rightarrow>
                          if r \<noteq> 0 then (-1, po')
                          else INTEGER_encode_tail specs (if inext then None else Some ct) value (int_octets st) po')
                     else if inext then (-1, po)
                     else INTEGER_encode_tail specs (Some ct) value (int_octets st) po))"

section \<open>NativeInteger\<close>

definition NativeInteger_decode_uper ::
  "asn_INTEGER_specifics option \<Rightarrow> asn_per_constraints option \<Rightarrow> asn_per_constraints option \<Rightarrow>
   asn_bit_data \<Rightarrow> 64 word dec_rval \<times> asn_bit_data" where
  "NativeInteger_decode_uper specs td_constraints constraints pd =
     (case INTEGER_decode_uper specs td_constraints constraints pd of (rval, pd') \<Rightarrow>
        (case rval of
           RC_OK tmpint consumed \<Rightarrow>
             (case (if is_unsigned specs then asn_INTEGER2ulong tmpint else asn_INTEGER2long tmpint) of
                None \<Rightarrow> RC_FAIL | Some native \<Rightarrow> RC_OK native consumed)
         | RC_WMORE \<Rightarrow> RC_WMORE | RC_FAIL \<Rightarrow> RC_FAIL, pd'))"

definition NativeInteger_encode_uper ::
  "asn_INTEGER_specifics option \<Rightarrow> asn_per_constraints option \<Rightarrow> asn_per_constraints option \<Rightarrow>
   64 word option \<Rightarrow> asn_bit_outp \<Rightarrow> int \<times> asn_bit_outp" where
  "NativeInteger_encode_uper specs td_constraints constraints sptr po =
     (case sptr of None \<Rightarrow> (-1, po)
      | Some native \<Rightarrow>
          INTEGER_encode_uper specs td_constraints constraints
            (Some (if is_unsigned specs then asn_ulong2INTEGER native else asn_long2INTEGER native)) po)"

section \<open>Enumerations\<close>

definition root_count :: "asn_INTEGER_specifics \<Rightarrow> int" where
  "root_count specs = (if map_extension specs \<noteq> 0 then map_extension specs - 1 else int (length (value2enum specs)))"

definition NativeEnumerated_compar_value2enum :: "intmax \<Rightarrow> asn_INTEGER_enum_map \<Rightarrow> int" where
  "NativeEnumerated_compar_value2enum a b =
     (if a = nat_value b then 0 else if a <s nat_value b then -1 else 1)"

definition NativeEnumerated_decode_index ::
  "asn_INTEGER_specifics \<Rightarrow> asn_per_constraint option \<Rightarrow> asn_bit_data \<Rightarrow> int dec_rval \<times> asn_bit_data" where
  "NativeEnumerated_decode_index specs ct pd =
     (if (case ct of None \<Rightarrow> False | Some c \<Rightarrow> range_bits c \<ge> 0) then
        (case asn_get_few_bits pd (range_bits (the ct)) of (value, pd') \<Rightarrow>
           (if value < 0 then RC_WMORE else if value \<ge> root_count specs then RC_FAIL else RC_OK value 0, pd'))
      else if map_extension specs = 0 then (RC_FAIL, pd)
      else (case uper_get_nsnnwn pd of (value, pd') \<Rightarrow>
              (if value < 0 then RC_WMORE
               else let v = value + (map_extension specs - 1)
                 in if v \<ge> int (length (value2enum specs)) then RC_FAIL else RC_OK v 0, pd')))"

definition NativeEnumerated_decode_uper ::
  "asn_INTEGER_specifics option \<Rightarrow> asn_per_constraints option \<Rightarrow> asn_per_constraints option \<Rightarrow>
   asn_bit_data \<Rightarrow> 64 word dec_rval \<times> asn_bit_data" where
  "NativeEnumerated_decode_uper specs td_constraints constraints pd =
     (case value_constraint td_constraints constraints of None \<Rightarrow> (RC_FAIL, pd)
      | Some ct \<Rightarrow> (case specs of None \<Rightarrow> (RC_FAIL, pd)
         | Some sp \<Rightarrow>
             (case (if apc_extensible ct then
                      (case asn_get_few_bits pd 1 of (inext, pd') \<Rightarrow>
                         if inext < 0 then (RC_WMORE, pd')
                         else NativeEnumerated_decode_index sp (if inext \<noteq> 0 then None else Some ct) pd')
                    else NativeEnumerated_decode_index sp (Some ct) pd) of (rval, pd') \<Rightarrow>
                (case rval of RC_OK value _ \<Rightarrow> RC_OK (nat_value (value2enum sp ! nat value)) 0
                 | RC_WMORE \<Rightarrow> RC_WMORE | RC_FAIL \<Rightarrow> RC_FAIL, pd'))))"

definition NativeEnumerated_encode_index ::
  "asn_INTEGER_specifics \<Rightarrow> asn_per_constraint option \<Rightarrow> bool \<Rightarrow> int \<Rightarrow> asn_bit_outp \<Rightarrow> int \<times> asn_bit_outp" where
  "NativeEnumerated_encode_index specs ct inext value po =
     (if (case ct of None \<Rightarrow> False | Some c \<Rightarrow> range_bits c \<ge> 0) then
        (case asn_put_few_bits po (word_of_int value) (range_bits (the ct)) of (r, po') \<Rightarrow> (if r \<noteq> 0 then -1 else 0, po'))
      else if map_extension specs = 0 then (-1, po)
      else (case uper_put_nsnnwn po (value - (if inext then map_extension specs - 1 else 0)) of (r, po') \<Rightarrow>
              (if r \<noteq> 0 then -1 else 0, po')))"

definition NativeEnumerated_encode_uper ::
  "asn_INTEGER_specifics option \<Rightarrow> asn_per_constraints option \<Rightarrow> asn_per_constraints option \<Rightarrow>
   64 word option \<Rightarrow> asn_bit_outp \<Rightarrow> int \<times> asn_bit_outp" where
  "NativeEnumerated_encode_uper specs td_constraints constraints sptr po =
     (case (sptr, specs, value_constraint td_constraints constraints) of
        (Some native, Some sp, Some ct) \<Rightarrow>
          (case bsearch (NativeEnumerated_compar_value2enum native) (value2enum sp) 0 (length (value2enum sp)) of
             None \<Rightarrow> (-1, po)
           | Some i \<Rightarrow>
               let value = int i;
                   inext = (range_bits ct \<ge> 0 \<and> value \<ge> root_count sp)
               in if apc_extensible ct then
                    (case asn_put_few_bits po (if inext then 1 else 0) 1 of (r, po') \<Rightarrow>
                       if r \<noteq> 0 then (-1, po')
                       else NativeEnumerated_encode_index sp (if inext then None else Some ct) inext value po')
                  else if inext then (-1, po)
                  else NativeEnumerated_encode_index sp (Some ct) inext value po)
      | _ \<Rightarrow> (-1, po))"

definition ENUMERATED_decode_uper ::
  "asn_INTEGER_specifics option \<Rightarrow> asn_per_constraints option \<Rightarrow> asn_per_constraints option \<Rightarrow>
   asn_bit_data \<Rightarrow> INTEGER_t dec_rval \<times> asn_bit_data" where
  "ENUMERATED_decode_uper specs td_constraints constraints pd =
     (case NativeEnumerated_decode_uper specs td_constraints constraints pd of (rval, pd') \<Rightarrow>
        (case rval of RC_OK value consumed \<Rightarrow> RC_OK (asn_long2INTEGER value) consumed
         | RC_WMORE \<Rightarrow> RC_WMORE | RC_FAIL \<Rightarrow> RC_FAIL, pd'))"

definition ENUMERATED_encode_uper ::
  "asn_INTEGER_specifics option \<Rightarrow> asn_per_constraints option \<Rightarrow> asn_per_constraints option \<Rightarrow>
   INTEGER_t \<Rightarrow> asn_bit_outp \<Rightarrow> int \<times> asn_bit_outp" where
  "ENUMERATED_encode_uper specs td_constraints constraints st po =
     (case asn_INTEGER2long st of
        None \<Rightarrow> (-1, po)
      | Some value \<Rightarrow> NativeEnumerated_encode_uper specs td_constraints constraints (Some value) po)"

section \<open>Codes of integers\<close>

definition wf_value_ct :: "asn_per_constraint \<Rightarrow> bool" where
  "wf_value_ct ct \<longleftrightarrow>
     (if range_bits ct \<ge> 0
      then range_bits ct \<le> 64 \<and> has_flags ct \<and> \<not> apc_semi_constrained ct \<and>
           sint (lower_bound ct) \<le> sint (upper_bound ct) \<and>
           sint (upper_bound ct) - sint (lower_bound ct) < 2 ^ nat (range_bits ct)
      else lower_bound ct = 0)"

definition in_root :: "asn_per_constraint \<Rightarrow> int \<Rightarrow> bool" where
  "in_root ct x \<longleftrightarrow>
     (if apc_semi_constrained ct then sint (lower_bound ct) \<le> x
      else range_bits ct \<ge> 0 \<longrightarrow> sint (lower_bound ct) \<le> x \<and> x \<le> sint (upper_bound ct))"

definition root_code :: "asn_per_constraint \<Rightarrow> byte list \<Rightarrow> bool list" where
  "root_code ct st =
     (if range_bits ct \<ge> 0 then nat_bl (nat (range_bits ct)) (nat (be_int st - sint (lower_bound ct)))
      else frag_code st)"

definition integer_code :: "asn_per_constraint option \<Rightarrow> byte list \<Rightarrow> bool list" where
  "integer_code c st =
     (case c of None \<Rightarrow> frag_code st
      | Some ct \<Rightarrow>
          if apc_extensible ct
          then if in_root ct (be_int st) then False # root_code ct st else True # frag_code st
          else root_code ct st)"

definition integer_ok :: "bool \<Rightarrow> asn_per_constraint option \<Rightarrow> byte list \<Rightarrow> bool" where
  "integer_ok u c st \<longleftrightarrow> minimal st \<and>
     (case c of None \<Rightarrow> True
      | Some ct \<Rightarrow> wf_value_ct ct \<and> - (2 ^ 63) \<le> be_int st \<and> be_int st < 2 ^ 63 \<and>
          (u \<longrightarrow> 0 \<le> be_int st \<and> 0 \<le> sint (lower_bound ct) \<and> 0 \<le> sint (upper_bound ct)) \<and>
          (in_root ct (be_int st) \<or> apc_extensible ct))"

definition integer_result :: "asn_per_constraint option \<Rightarrow> byte list \<Rightarrow> byte list" where
  "integer_result c st =
     (case c of None \<Rightarrow> st
      | Some ct \<Rightarrow> if apc_semi_constrained ct \<and> range_bits ct < 0 \<and> in_root ct (be_int st) then 0 # st else st)"

lemma value_inext_ok:
  assumes "integer_ok (is_unsigned specs) (Some ct) st"
  shows "INTEGER_value_inext specs ct (Some st) = Some (word_of_int (be_int st), \<not> in_root ct (be_int st))"
proof -
  let ?w = "word_of_int (be_int st) :: 64 word"
  have st: "st \<noteq> []" "- (2 ^ 63) \<le> be_int st" "be_int st < 2 ^ 63"
    using assms by (simp_all add: integer_ok_def minimal_def)
  have w: "sint ?w = be_int st" using st(2,3) by (rule sint_word_of_int64)
  show ?thesis
  proof (cases "is_unsigned specs")
    case True
    then have n: "0 \<le> be_int st" "0 \<le> sint (lower_bound ct)" "0 \<le> sint (upper_bound ct)"
      using assms by (simp_all add: integer_ok_def)
    have "asn_INTEGER2umax (Some st) = Some ?w" using n(1) st(3) by (rule INTEGER2umax_nonneg)
    then show ?thesis using True w n nonneg_words [of ?w "lower_bound ct"] nonneg_words [of "upper_bound ct" ?w]
      by (auto simp: INTEGER_value_inext_def in_root_def word_sless_alt)
  next
    case False
    then show ?thesis using st w INTEGER2imax_value [OF st(1)]
      by (auto simp: INTEGER_value_inext_def in_root_def word_sless_alt)
  qed
qed

lemma encode_range_writes:
  assumes "integer_ok (is_unsigned specs) (Some ct) st" "in_root ct (be_int st)" "0 \<le> range_bits ct"
  shows "writes (INTEGER_encode_range specs ct (word_of_int (be_int st))) (root_code ct st)"
proof -
  let ?w = "word_of_int (be_int st) :: 64 word"
  have st: "- (2 ^ 63) \<le> be_int st" "be_int st < 2 ^ 63" and wf: "wf_value_ct ct"
    using assms(1) by (simp_all add: integer_ok_def)
  have w: "sint ?w = be_int st" using st by (rule sint_word_of_int64)
  have r: "sint (lower_bound ct) \<le> sint ?w" "sint ?w \<le> sint (upper_bound ct)"
    using assms(2,3) wf w by (auto simp: in_root_def wf_value_ct_def)
  have u: "uint (?w - lower_bound ct) = be_int st - sint (lower_bound ct)"
    using uint_diff_signed [OF r(1)] w by simp
  have v: "(if is_unsigned specs
       then if lower_bound ct > upper_bound ct \<or> ?w < lower_bound ct \<or> ?w > upper_bound ct
            then None else Some (?w - lower_bound ct)
       else per_imax_range_rebase ?w (lower_bound ct) (upper_bound ct)) = Some (?w - lower_bound ct)"
  proof (cases "is_unsigned specs")
    case True
    then have n: "0 \<le> sint ?w" "0 \<le> sint (lower_bound ct)" "0 \<le> sint (upper_bound ct)"
      using assms(1) w by (simp_all add: integer_ok_def)
    show ?thesis using True r by (simp add: word_less_def nonneg_uint [OF n(1)] nonneg_uint [OF n(2)] nonneg_uint [OF n(3)])
  next
    case False
    then show ?thesis using r by (simp add: rebase_ok word_sle_eq)
  qed
  have "unat (?w - lower_bound ct) = nat (be_int st - sint (lower_bound ct))"
    using u by (metis nat_uint_eq)
  then have "writes (\<lambda>po. uper_put_constrained_whole_number_u po (?w - lower_bound ct) (range_bits ct)) (root_code ct st)"
    using constrained_whole_number_writes [of "?w - lower_bound ct" "nat (range_bits ct)"] assms(3)
    by (simp add: root_code_def)
  then show ?thesis unfolding INTEGER_encode_range_def v option.case by (rule writes_status)
qed

lemma encode_tail_writes:
  assumes "integer_ok (is_unsigned specs) (Some ct) st" "in_root ct (be_int st)"
  shows "writes (INTEGER_encode_tail specs (Some ct) (word_of_int (be_int st)) st) (root_code ct st)"
proof (cases "0 \<le> range_bits ct")
  case True
  then have "INTEGER_encode_tail specs (Some ct) v st = INTEGER_encode_range specs ct v" for v
    by (simp add: fun_eq_iff INTEGER_encode_tail_def)
  with encode_range_writes [OF assms True] show ?thesis by simp
next
  case False
  then have "INTEGER_encode_tail specs (Some ct) v st = (\<lambda>po. uper_put_octets po st)" for v
    using assms(1) by (simp add: fun_eq_iff INTEGER_encode_tail_def integer_ok_def wf_value_ct_def)
  with False put_octets_writes [of st] show ?thesis by (simp add: root_code_def)
qed

lemma INTEGER_encode_writes:
  assumes "integer_ok (is_unsigned specs) (value_constraint tc c) st"
  shows "writes (INTEGER_encode_uper specs tc c (Some (Some st))) (integer_code (value_constraint tc c) st)"
proof (cases "value_constraint tc c")
  case None
  then have "INTEGER_encode_uper specs tc c (Some (Some st)) = (\<lambda>po. uper_put_octets po st)"
    using assms by (simp add: fun_eq_iff INTEGER_encode_uper_def INTEGER_encode_tail_def integer_ok_def minimal_def)
  with None put_octets_writes [of st] show ?thesis by (simp add: integer_code_def)
next
  case (Some ct)
  let ?i = "in_root ct (be_int st)" let ?w = "word_of_int (be_int st) :: 64 word"
  have ok: "integer_ok (is_unsigned specs) (Some ct) st" using assms Some by simp
  then have ne: "st \<noteq> []" "in_root ct (be_int st) \<or> apc_extensible ct"
    by (simp_all add: integer_ok_def minimal_def)
  have enc: "INTEGER_encode_uper specs tc c (Some (Some st)) =
    (if apc_extensible ct
     then then_put (\<lambda>po. asn_put_few_bits po (if \<not> ?i then 1 else 0) 1)
            (INTEGER_encode_tail specs (if \<not> ?i then None else Some ct) ?w st)
     else INTEGER_encode_tail specs (Some ct) ?w st)"
    using Some value_inext_ok [OF ok] ne
    by (auto simp: fun_eq_iff INTEGER_encode_uper_def then_put_def split_beta)
  have frag: "INTEGER_encode_tail specs None ?w st = (\<lambda>po. uper_put_octets po st)"
    by (simp add: fun_eq_iff INTEGER_encode_tail_def)
  show ?thesis
  proof (cases "apc_extensible ct")
    case True
    have "writes (INTEGER_encode_tail specs (if \<not> ?i then None else Some ct) ?w st)
        (if ?i then root_code ct st else frag_code st)"
      using encode_tail_writes [OF ok] put_octets_writes [of st] frag by simp
    from then_put_writes [OF flag_writes [of "\<not> ?i"] this] True Some show ?thesis
      by (cases ?i) (simp_all add: enc integer_code_def)
  next
    case False
    then have ?i using ok by (simp add: integer_ok_def)
    with False Some encode_tail_writes [OF ok] show ?thesis by (simp add: enc integer_code_def)
  qed
qed

lemma decode_octets_reads:
  assumes "case ct of None \<Rightarrow> True | Some c \<Rightarrow> lower_bound c = 0"
  shows "reads (INTEGER_decode_octets ct) (frag_code st)
    (RC_OK (Some ((case ct of None \<Rightarrow> [] | Some c \<Rightarrow> if apc_semi_constrained c then [0] else []) @ st)) 0)"
  by (rule reads_map [OF get_octets_reads, where h = "\<lambda>r. case r of None \<Rightarrow> RC_WMORE | Some buf \<Rightarrow> RC_OK (Some buf) 0"])
    (use assms in \<open>auto simp: fun_eq_iff INTEGER_decode_octets_def split: option.splits prod.splits\<close>)

lemma decode_range_reads:
  assumes ok: "integer_ok (is_unsigned specs) (Some ct) st" and root: "in_root ct (be_int st)" and r: "0 \<le> range_bits ct"
  shows "reads (INTEGER_decode_range specs ct) (root_code ct st) (RC_OK (Some st) 0)"
proof -
  let ?w = "word_of_int (be_int st) :: 64 word" let ?n = "nat (range_bits ct)" let ?lb = "lower_bound ct"
  have st: "minimal st" "- (2 ^ 63) \<le> be_int st" "be_int st < 2 ^ 63" and wf: "wf_value_ct ct"
    using ok by (simp_all add: integer_ok_def)
  have w: "sint ?w = be_int st" using st(2,3) by (rule sint_word_of_int64)
  have b: "sint ?lb \<le> be_int st" "be_int st \<le> sint (upper_bound ct)" "?n \<le> 64"
    "sint (upper_bound ct) - sint ?lb < 2 ^ ?n"
    using root r wf by (auto simp: in_root_def wf_value_ct_def)
  define k where "k = nat (be_int st - sint ?lb)"
  have "int k < 2 ^ ?n" using b by (simp add: k_def)
  then have k: "k < 2 ^ ?n" by (metis of_nat_less_iff of_nat_numeral of_nat_power)
  have kw: "word_of_nat k = ?w - ?lb" using b(1) by (simp add: k_def)
  have "reads (\<lambda>pd. uper_get_constrained_whole_number pd (range_bits ct)) (root_code ct st) (Some (?w - ?lb))"
    using constrained_whole_number_reads [OF b(3), of k] k r by (simp add: root_code_def k_def [symmetric] kw)
  moreover have "per_imax_range_unrebase (?w - ?lb) ?lb (upper_bound ct) = Some ?w"
  proof -
    have "uint (?w - ?lb) \<le> uint (upper_bound ct - ?lb)"
      using uint_diff_signed [of ?lb ?w] uint_diff_signed [of ?lb "upper_bound ct"] w b by simp
    moreover have "?lb \<le>s upper_bound ct" using b by (simp add: word_sle_eq)
    ultimately show ?thesis by (simp add: unrebase_ok word_le_def)
  qed
  moreover have "asn_umax2INTEGER ?w = Some st" if "is_unsigned specs"
  proof -
    have "0 \<le> be_int st" using that ok by (simp add: integer_ok_def)
    then have "sint ?w = uint ?w" using nonneg_uint [of ?w] w by simp
    then show ?thesis by (metis umax2INTEGER_value minimal_unique st(1) w)
  qed
  moreover have "asn_imax2INTEGER ?w = Some st" using imax2INTEGER_minimal [OF st(1)] w by simp
  ultimately show ?thesis
    by (elim reads_map [where h = "\<lambda>r. case r of None \<Rightarrow> RC_WMORE | Some uvalue \<Rightarrow>
            if is_unsigned specs then RC_OK (asn_umax2INTEGER (uvalue + ?lb)) 0
            else (case per_imax_range_unrebase uvalue ?lb (upper_bound ct) of
                None \<Rightarrow> RC_FAIL | Some svalue \<Rightarrow> RC_OK (asn_imax2INTEGER svalue) 0)"])
      (use b(3) in \<open>auto simp: fun_eq_iff INTEGER_decode_range_def split: option.splits prod.splits\<close>)
qed

lemma decode_body_reads:
  assumes "integer_ok (is_unsigned specs) (Some ct) st" "in_root ct (be_int st)"
  shows "reads (INTEGER_decode_body specs (Some ct)) (root_code ct st)
    (RC_OK (Some (if apc_semi_constrained ct \<and> range_bits ct < 0 then 0 # st else st)) 0)"
proof (cases "0 \<le> range_bits ct")
  case True
  then have "INTEGER_decode_body specs (Some ct) = INTEGER_decode_range specs ct"
    using assms(1) by (simp add: fun_eq_iff INTEGER_decode_body_def integer_ok_def wf_value_ct_def)
  with decode_range_reads [OF assms True] True show ?thesis by simp
next
  case False
  then have "INTEGER_decode_body specs (Some ct) = INTEGER_decode_octets (Some ct)"
    by (simp add: fun_eq_iff INTEGER_decode_body_def)
  moreover have "lower_bound ct = 0" using False assms(1) by (simp add: integer_ok_def wf_value_ct_def)
  ultimately show ?thesis using decode_octets_reads [of "Some ct" st] False
    by (cases "apc_semi_constrained ct") (simp_all add: root_code_def)
qed

lemma INTEGER_decode_reads:
  assumes "integer_ok (is_unsigned specs) (value_constraint tc c) st"
  shows "reads (INTEGER_decode_uper specs tc c) (integer_code (value_constraint tc c) st)
    (RC_OK (Some (integer_result (value_constraint tc c) st)) 0)"
proof (cases "value_constraint tc c")
  case None
  then have "INTEGER_decode_uper specs tc c = INTEGER_decode_octets None"
    by (simp add: fun_eq_iff INTEGER_decode_uper_def INTEGER_decode_body_def)
  with None decode_octets_reads [of None st] show ?thesis by (simp add: integer_code_def integer_result_def)
next
  case (Some ct)
  let ?i = "in_root ct (be_int st)"
  have ok: "integer_ok (is_unsigned specs) (Some ct) st" using assms Some by simp
  let ?body = "\<lambda>inext. INTEGER_decode_body specs (if inext \<noteq> 0 then None else Some ct)"
  have ext: "INTEGER_decode_uper specs tc c = (\<lambda>pd. case asn_get_few_bits pd 1 of (inext, pd') \<Rightarrow>
      (if inext < 0 then (RC_WMORE, pd') else ?body inext pd'))" if "apc_extensible ct"
    using that Some by (simp add: fun_eq_iff INTEGER_decode_uper_def)
  have none: "INTEGER_decode_body specs None = INTEGER_decode_octets None"
    by (simp add: fun_eq_iff INTEGER_decode_body_def)
  consider "apc_extensible ct" ?i | "apc_extensible ct" "\<not> ?i" | "\<not> apc_extensible ct" ?i
    using ok by (auto simp: integer_ok_def)
  then show ?thesis
  proof cases
    case 1
    then show ?thesis using Some decode_body_reads [OF ok]
      by (intro reads_then [OF flag_reads [of False] _ ext])
        (simp_all add: integer_code_def integer_result_def)
  next
    case 2
    then show ?thesis using Some decode_octets_reads [of None st] none
      by (intro reads_then [OF flag_reads [of True] _ ext])
        (simp_all add: integer_code_def integer_result_def)
  next
    case 3
    then have "INTEGER_decode_uper specs tc c = INTEGER_decode_body specs (Some ct)"
      using Some by (simp add: fun_eq_iff INTEGER_decode_uper_def)
    then show ?thesis using 3 Some decode_body_reads [OF ok] by (simp add: integer_code_def integer_result_def)
  qed
qed

interpretation integer_uper: bit_codec "\<lambda>st. INTEGER_encode_uper specs tc c (Some (Some st))"
  "INTEGER_decode_uper specs tc c" "integer_ok (is_unsigned specs) (value_constraint tc c)"
  "integer_code (value_constraint tc c)" "\<lambda>st. RC_OK (Some (integer_result (value_constraint tc c) st)) 0" for specs tc c
  using INTEGER_encode_writes INTEGER_decode_reads by unfold_locales

section \<open>Codes of the other primitive types\<close>

interpretation boolean_uper: bit_codec "\<lambda>b. BOOLEAN_encode_uper (Some b)" BOOLEAN_decode_uper
  "\<lambda>b. True" "\<lambda>b. [b \<noteq> 0]" "\<lambda>b. RC_OK (if b \<noteq> 0 then 1 else 0) 1"
proof unfold_locales
  fix b :: int
  show "writes (BOOLEAN_encode_uper (Some b)) [b \<noteq> 0]"
    using writes_status [OF flag_writes [of "b \<noteq> 0"]] by (simp add: BOOLEAN_encode_uper_def [abs_def])
  show "reads BOOLEAN_decode_uper [b \<noteq> 0] (RC_OK (if b \<noteq> 0 then 1 else 0) 1)"
    by (rule reads_map [OF flag_reads, where h = "\<lambda>v. if v = 1 then RC_OK 1 1 else if v = 0 then RC_OK 0 1 else RC_WMORE"])
      (auto simp: BOOLEAN_decode_uper_def [abs_def])
qed

interpretation null_uper: bit_codec "\<lambda>_. NULL_encode_uper" NULL_decode_uper "\<lambda>_. True" "\<lambda>_. []" "\<lambda>u. RC_OK u 0"
  by unfold_locales (auto simp: writes_def reads_def NULL_encode_uper_def NULL_decode_uper_def puts_refl consumes_refl)

definition native_octets :: "64 word \<Rightarrow> byte list" where
  "native_octets v = skip_insignificant (be_octets v)"

lemma native_octets_value: "minimal (native_octets v)" "be_int (native_octets v) = sint v"
  "asn_imax2INTEGER v = Some (native_octets v)"
  using imax2INTEGER_value [of v] by (auto simp: native_octets_def asn_imax2INTEGER_def)

definition native_ok :: "bool \<Rightarrow> asn_per_constraint option \<Rightarrow> 64 word \<Rightarrow> bool" where
  "native_ok u c v \<longleftrightarrow> integer_ok u c (native_octets v) \<and> (u \<longrightarrow> 0 \<le> sint v)"

lemma native_ok_iff:
  "native_ok u c v \<longleftrightarrow> (u \<longrightarrow> 0 \<le> sint v) \<and>
     (case c of None \<Rightarrow> True
      | Some ct \<Rightarrow> wf_value_ct ct \<and> (u \<longrightarrow> 0 \<le> sint (lower_bound ct) \<and> 0 \<le> sint (upper_bound ct)) \<and>
          (in_root ct (sint v) \<or> apc_extensible ct))"
  using native_octets_value [of v] sint_bounds64 [of v]
  by (auto simp: native_ok_def integer_ok_def split: option.splits)

lemma integer_result_value:
  assumes "integer_ok u c st"
  shows "be_int (integer_result c st) = be_int st" "integer_result c st \<noteq> []"
proof -
  have "be_int (0 # st) = be_int st" if "c = Some ct" "apc_semi_constrained ct" "range_bits ct < 0" "in_root ct (be_int st)" for ct
  proof -
    have "0 \<le> be_int st" using assms that by (simp add: integer_ok_def wf_value_ct_def in_root_def)
    from be_int_nonneg [OF this] show ?thesis by (simp add: be_int_def [of "0 # st"])
  qed
  then show "be_int (integer_result c st) = be_int st"
    by (auto simp: integer_result_def split: option.splits)
  show "integer_result c st \<noteq> []" using assms by (auto simp: integer_result_def integer_ok_def minimal_def split: option.splits)
qed

interpretation native_integer_uper: bit_codec "\<lambda>v. NativeInteger_encode_uper specs tc c (Some v)"
  "NativeInteger_decode_uper specs tc c" "native_ok (is_unsigned specs) (value_constraint tc c)"
  "\<lambda>v. integer_code (value_constraint tc c) (native_octets v)" "\<lambda>v. RC_OK v 0" for specs tc c
proof unfold_locales
  fix v assume "native_ok (is_unsigned specs) (value_constraint tc c) v"
  then have ok: "integer_ok (is_unsigned specs) (value_constraint tc c) (native_octets v)"
    and u: "is_unsigned specs \<Longrightarrow> 0 \<le> sint v" by (simp_all add: native_ok_def)
  let ?st = "integer_result (value_constraint tc c) (native_octets v)"
  show "writes (NativeInteger_encode_uper specs tc c (Some v)) (integer_code (value_constraint tc c) (native_octets v))"
    using INTEGER_encode_writes [OF ok]
    by (simp add: NativeInteger_encode_uper_def [abs_def] asn_ulong2INTEGER_def asn_long2INTEGER_def native_octets_value)
  have st: "be_int ?st = sint v" "?st \<noteq> []" using integer_result_value [OF ok] native_octets_value by simp_all
  have "asn_INTEGER2long (Some ?st) = Some v"
    using st INTEGER2imax_value [OF st(2)] sint_bounds64 [of v] by (simp add: INTEGER2long_imax)
  moreover have "asn_INTEGER2ulong (Some ?st) = Some v" if "is_unsigned specs"
    using u [OF that] st sint_bounds64 [of v] INTEGER2umax_nonneg [of ?st] by (simp add: INTEGER2ulong_umax)
  ultimately show "reads (NativeInteger_decode_uper specs tc c) (integer_code (value_constraint tc c) (native_octets v)) (RC_OK v 0)"
    by (intro reads_map [OF INTEGER_decode_reads [OF ok], where h = "\<lambda>rval. case rval of
           RC_OK tmpint consumed \<Rightarrow> (case (if is_unsigned specs then asn_INTEGER2ulong tmpint else asn_INTEGER2long tmpint) of
                None \<Rightarrow> RC_FAIL | Some native \<Rightarrow> RC_OK native consumed)
         | RC_WMORE \<Rightarrow> RC_WMORE | RC_FAIL \<Rightarrow> RC_FAIL"])
      (simp_all add: NativeInteger_decode_uper_def [abs_def])
qed

subsection \<open>Enumerations by index\<close>

definition enum_ok :: "asn_INTEGER_specifics \<Rightarrow> asn_per_constraint \<Rightarrow> nat \<Rightarrow> bool" where
  "enum_ok sp ct i \<longleftrightarrow>
     sorted_wrt (\<lambda>x y. sint (nat_value x) < sint (nat_value y)) (value2enum sp) \<and> i < length (value2enum sp) \<and>
     0 \<le> range_bits ct \<and> range_bits ct \<le> 31 \<and> root_count sp \<le> 2 ^ nat (range_bits ct) \<and>
     (int i < root_count sp \<or>
      apc_extensible ct \<and> map_extension sp \<noteq> 0 \<and> 0 \<le> root_count sp \<and> int i - root_count sp \<le> 63)"

definition enum_code :: "asn_INTEGER_specifics \<Rightarrow> asn_per_constraint \<Rightarrow> nat \<Rightarrow> bool list" where
  "enum_code sp ct i =
     (let root = nat_bl (nat (range_bits ct)) i
      in if apc_extensible ct
         then if int i < root_count sp then False # root else True # nat_bl 7 (nat (int i - root_count sp))
         else root)"

lemma enum_compar: "NativeEnumerated_compar_value2enum = compar_value2enum"
  by (auto simp: fun_eq_iff NativeEnumerated_compar_value2enum_def compar_value2enum_def Let_def word_sless_alt)

lemma enum_bsearch:
  assumes "sorted_wrt (\<lambda>x y. sint (nat_value x) < sint (nat_value y)) tab" "i < length tab"
  shows "bsearch (NativeEnumerated_compar_value2enum (nat_value (tab ! i))) tab 0 (length tab) = Some i"
  unfolding enum_compar
proof (rule bsearch_complete)
  fix j assume "j < i"
  with assms have "sint (nat_value (tab ! j)) < sint (nat_value (tab ! i))" by (auto simp: sorted_wrt_iff_nth_less)
  then show "compar_value2enum (nat_value (tab ! i)) (tab ! j) > 0" by (auto simp: compar_value2enum_def word_sless_alt Let_def)
next
  fix j assume "i < j" "j < length tab"
  with assms have "sint (nat_value (tab ! i)) < sint (nat_value (tab ! j))" by (auto simp: sorted_wrt_iff_nth_less)
  then show "compar_value2enum (nat_value (tab ! i)) (tab ! j) < 0" by (auto simp: compar_value2enum_def word_sless_alt Let_def)
qed (use assms in \<open>auto simp: compar_value2enum_def word_sless_alt\<close>)

lemma enum_ok_bits: "enum_ok sp ct i \<Longrightarrow> nat (range_bits ct) \<le> 31"
  unfolding enum_ok_def by linarith

lemma enum_index_writes:
  assumes "enum_ok sp ct i"
  shows "int i < root_count sp \<Longrightarrow> writes (NativeEnumerated_encode_index sp (Some ct) False (int i)) (nat_bl (nat (range_bits ct)) i)"
    "\<not> int i < root_count sp \<Longrightarrow> writes (NativeEnumerated_encode_index sp None True (int i)) (nat_bl 7 (nat (int i - root_count sp)))"
proof -
  show "int i < root_count sp \<Longrightarrow> writes (NativeEnumerated_encode_index sp (Some ct) False (int i)) (nat_bl (nat (range_bits ct)) i)"
    using writes_status [OF few_int_writes [of "nat (range_bits ct)" "int i"]] enum_ok_bits [OF assms] assms
    by (simp add: enum_ok_def NativeEnumerated_encode_index_def [abs_def] del: of_int_of_nat_eq)
  show "\<not> int i < root_count sp \<Longrightarrow> writes (NativeEnumerated_encode_index sp None True (int i)) (nat_bl 7 (nat (int i - root_count sp)))"
    using writes_status [OF nsnnwn_writes [of "nat (int i - root_count sp)"]] assms
    by (auto simp: enum_ok_def root_count_def NativeEnumerated_encode_index_def [abs_def])
qed

lemma enum_index_reads:
  assumes "enum_ok sp ct i"
  shows "int i < root_count sp \<Longrightarrow> reads (NativeEnumerated_decode_index sp (Some ct)) (nat_bl (nat (range_bits ct)) i) (RC_OK (int i) 0)"
    "\<not> int i < root_count sp \<Longrightarrow> reads (NativeEnumerated_decode_index sp None) (nat_bl 7 (nat (int i - root_count sp))) (RC_OK (int i) 0)"
proof -
  assume r: "int i < root_count sp"
  have "int i < 2 ^ nat (range_bits ct)" using assms r unfolding enum_ok_def by linarith
  then have "i < 2 ^ nat (range_bits ct)" by (metis of_nat_less_iff of_nat_numeral of_nat_power)
  then have "reads (\<lambda>pd. asn_get_few_bits pd (range_bits ct)) (nat_bl (nat (range_bits ct)) i) (int i)"
    using few_bits_at [OF enum_ok_bits [OF assms], of i] assms by (simp add: enum_ok_def)
  then show "reads (NativeEnumerated_decode_index sp (Some ct)) (nat_bl (nat (range_bits ct)) i) (RC_OK (int i) 0)"
    by (rule reads_map [where h = "\<lambda>value. if value < 0 then RC_WMORE else if value \<ge> root_count sp then RC_FAIL else RC_OK value 0"])
      (use r assms in \<open>auto simp: NativeEnumerated_decode_index_def [abs_def] enum_ok_def\<close>)
next
  assume r: "\<not> int i < root_count sp"
  then have e: "map_extension sp \<noteq> 0" "root_count sp = map_extension sp - 1" "int i - root_count sp \<le> 63"
    "i < length (value2enum sp)" using assms by (auto simp: enum_ok_def root_count_def)
  have "reads uper_get_nsnnwn (nat_bl 7 (nat (int i - root_count sp))) (int i - root_count sp)"
    using nsnnwn_small [of "nat (int i - root_count sp)"] e(3) r by simp
  then show "reads (NativeEnumerated_decode_index sp None) (nat_bl 7 (nat (int i - root_count sp))) (RC_OK (int i) 0)"
    by (rule reads_map [where h = "\<lambda>value. if value < 0 then RC_WMORE
               else let v = value + (map_extension sp - 1)
                 in if v \<ge> int (length (value2enum sp)) then RC_FAIL else RC_OK v 0"])
      (use r e in \<open>auto simp: NativeEnumerated_decode_index_def [abs_def]\<close>)
qed

lemma enum_encode_writes:
  assumes "enum_ok sp ct i" "value_constraint tc c = Some ct"
  shows "writes (NativeEnumerated_encode_uper (Some sp) tc c (Some (nat_value (value2enum sp ! i)))) (enum_code sp ct i)"
proof -
  let ?out = "\<not> int i < root_count sp"
  have bs: "bsearch (NativeEnumerated_compar_value2enum (nat_value (value2enum sp ! i))) (value2enum sp) 0 (length (value2enum sp)) = Some i"
    using assms(1) by (intro enum_bsearch) (simp_all add: enum_ok_def)
  have enc: "NativeEnumerated_encode_uper (Some sp) tc c (Some (nat_value (value2enum sp ! i))) =
    (if apc_extensible ct
     then then_put (\<lambda>po. asn_put_few_bits po (if ?out then 1 else 0) 1)
            (NativeEnumerated_encode_index sp (if ?out then None else Some ct) ?out (int i))
     else NativeEnumerated_encode_index sp (Some ct) False (int i))"
    using assms bs
    by (auto simp: fun_eq_iff NativeEnumerated_encode_uper_def then_put_def Let_def split_beta enum_ok_def not_less)
  show ?thesis
  proof (cases "apc_extensible ct")
    case True
    have "writes (NativeEnumerated_encode_index sp (if ?out then None else Some ct) ?out (int i))
        (if ?out then nat_bl 7 (nat (int i - root_count sp)) else nat_bl (nat (range_bits ct)) i)"
      using enum_index_writes [OF assms(1)] by simp
    from then_put_writes [OF flag_writes [of ?out] this] True show ?thesis
      by (cases ?out) (simp_all add: enc enum_code_def)
  next
    case False
    then show ?thesis using enum_index_writes [OF assms(1)] assms(1) by (simp add: enc enum_code_def enum_ok_def)
  qed
qed

lemma enum_decode_reads:
  assumes "enum_ok sp ct i" "value_constraint tc c = Some ct"
  shows "reads (NativeEnumerated_decode_uper (Some sp) tc c) (enum_code sp ct i) (RC_OK (nat_value (value2enum sp ! i)) 0)"
proof -
  let ?out = "\<not> int i < root_count sp"
  let ?ix = "\<lambda>pd. if apc_extensible ct then
        (case asn_get_few_bits pd 1 of (inext, pd') \<Rightarrow>
           if inext < 0 then (RC_WMORE, pd')
           else NativeEnumerated_decode_index sp (if inext \<noteq> 0 then None else Some ct) pd')
      else NativeEnumerated_decode_index sp (Some ct) pd"
  have "reads ?ix (enum_code sp ct i) (RC_OK (int i) 0)"
  proof (cases "apc_extensible ct")
    case True
    note ix = enum_index_reads [OF assms(1)]
    let ?g = "\<lambda>inext pd'. if inext < 0 then (RC_WMORE, pd')
           else NativeEnumerated_decode_index sp (if inext \<noteq> 0 then None else Some ct) pd'"
    show ?thesis
    proof (cases "int i < root_count sp")
      case r: True
      then show ?thesis using reads_flag [of ?g False, OF _] ix(1) True by (simp add: enum_code_def)
    next
      case r: False
      then show ?thesis using reads_flag [of ?g True, OF _] ix(2) True by (simp add: enum_code_def)
    qed
  next
    case False
    then show ?thesis using enum_index_reads [OF assms(1)] assms(1) by (simp add: enum_code_def enum_ok_def)
  qed
  then show ?thesis
    by (rule reads_map [where h = "\<lambda>rval. case rval of RC_OK value _ \<Rightarrow> RC_OK (nat_value (value2enum sp ! nat value)) 0
                 | RC_WMORE \<Rightarrow> RC_WMORE | RC_FAIL \<Rightarrow> RC_FAIL"])
      (use assms(2) in \<open>simp_all add: NativeEnumerated_decode_uper_def [abs_def]\<close>)
qed

lemma ENUMERATED_encode_writes:
  assumes "enum_ok sp ct i" "value_constraint tc c = Some ct"
  shows "writes (ENUMERATED_encode_uper (Some sp) tc c (asn_long2INTEGER (nat_value (value2enum sp ! i)))) (enum_code sp ct i)"
  using enum_encode_writes [OF assms] long_conv.conversion_roundtrip
  by (simp add: ENUMERATED_encode_uper_def [abs_def])

lemma ENUMERATED_decode_reads:
  assumes "enum_ok sp ct i" "value_constraint tc c = Some ct"
  shows "reads (ENUMERATED_decode_uper (Some sp) tc c) (enum_code sp ct i)
    (RC_OK (asn_long2INTEGER (nat_value (value2enum sp ! i))) 0)"
  by (rule reads_map [OF enum_decode_reads [OF assms], where h = "\<lambda>rval. case rval of
      RC_OK value consumed \<Rightarrow> RC_OK (asn_long2INTEGER value) consumed | RC_WMORE \<Rightarrow> RC_WMORE | RC_FAIL \<Rightarrow> RC_FAIL"])
    (simp_all add: ENUMERATED_decode_uper_def [abs_def])

interpretation native_enumerated_uper: bit_codec
  "\<lambda>i. NativeEnumerated_encode_uper (Some sp) tc c (Some (nat_value (value2enum sp ! i)))"
  "NativeEnumerated_decode_uper (Some sp) tc c" "\<lambda>i. value_constraint tc c = Some ct \<and> enum_ok sp ct i"
  "enum_code sp ct" "\<lambda>i. RC_OK (nat_value (value2enum sp ! i)) 0" for sp tc c ct
  using enum_encode_writes enum_decode_reads by unfold_locales auto

interpretation enumerated_uper: bit_codec
  "\<lambda>i. ENUMERATED_encode_uper (Some sp) tc c (asn_long2INTEGER (nat_value (value2enum sp ! i)))"
  "ENUMERATED_decode_uper (Some sp) tc c" "\<lambda>i. value_constraint tc c = Some ct \<and> enum_ok sp ct i"
  "enum_code sp ct" "\<lambda>i. RC_OK (asn_long2INTEGER (nat_value (value2enum sp ! i))) 0" for sp tc c ct
  using ENUMERATED_encode_writes ENUMERATED_decode_reads by unfold_locales auto

section \<open>The decoders stay inside their stream\<close>

lemma safe_BOOLEAN [safe]: "safe_get BOOLEAN_decode_uper"
  unfolding BOOLEAN_decode_uper_def [abs_def] by (intro safe)

lemma safe_NULL [safe]: "safe_get NULL_decode_uper"
  unfolding NULL_decode_uper_def [abs_def] by (intro safe)

lemma safe_INTEGER_body [safe]: "safe_get (INTEGER_decode_body specs ct)"
  unfolding INTEGER_decode_body_def [abs_def] INTEGER_decode_range_def [abs_def] INTEGER_decode_octets_def [abs_def]
  by (intro safe)

lemma safe_INTEGER [safe]: "safe_get (INTEGER_decode_uper specs tc c)"
  unfolding INTEGER_decode_uper_def [abs_def] by (intro safe)

lemma safe_NativeInteger [safe]: "safe_get (NativeInteger_decode_uper specs tc c)"
  unfolding NativeInteger_decode_uper_def [abs_def] by (intro safe)

lemma safe_NativeEnumerated_index [safe]: "safe_get (NativeEnumerated_decode_index sp ct)"
  unfolding NativeEnumerated_decode_index_def [abs_def] by (intro safe)

lemma safe_NativeEnumerated [safe]: "safe_get (NativeEnumerated_decode_uper specs tc c)"
  unfolding NativeEnumerated_decode_uper_def [abs_def] by (intro safe)

lemma safe_ENUMERATED [safe]: "safe_get (ENUMERATED_decode_uper specs tc c)"
  unfolding ENUMERATED_decode_uper_def [abs_def] by (intro safe)

section \<open>Properties of the primitive codecs\<close>

text \<open>
  C33: a NativeInteger survives the wire under every well-formed constraint: fully
  constrained, extensible inside or outside the root, semi-constrained from zero or
  unconstrained, signed or unsigned below 2^63.
\<close>

theorem NativeInteger_uper_roundtrip:
  assumes "native_ok (is_unsigned specs) (value_constraint tc c) v" "absorbs cb key" "key_contents key = []"
  shows "\<exists>po po' pd'. NativeInteger_encode_uper specs tc c (Some v) (new_outp cb key) = (0, po) \<and>
    asn_put_aligned_flush po = (0, po') \<and>
    (let octs = key_contents (po_op_key po')
     in bits_of octs = pad8 (integer_code (value_constraint tc c) (native_octets v)) \<and>
        NativeInteger_decode_uper specs tc c (new_pd octs 0 (8 * length octs)) = (RC_OK v 0, pd') \<and>
        pd_pos pd' = length (integer_code (value_constraint tc c) (native_octets v)))"
  using native_integer_uper.wire_roundtrip [OF assms] .

definition example_ct :: asn_per_constraint where
  "example_ct = \<lparr>apc_semi_constrained = False, apc_constrained = True, apc_extensible = True,
     range_bits = 8, effective_bits = 8, lower_bound = - 10, upper_bound = 200\<rparr>"

definition example_cts :: "asn_per_constraint \<Rightarrow> asn_per_constraints" where
  "example_cts ct = \<lparr>pc_value = ct, pc_size = ct, pc_value2code = None, pc_code2value = None\<rparr>"

theorem NativeInteger_uper_roundtrip_witness:
  "\<exists>po po' pd'. NativeInteger_encode_uper None (Some (example_cts example_ct)) None (Some 77)
      (new_outp write_buffer (Key_vector [])) = (0, po) \<and>
    asn_put_aligned_flush po = (0, po') \<and>
    NativeInteger_decode_uper None (Some (example_cts example_ct)) None
      (new_pd (key_contents (po_op_key po')) 0 (8 * length (key_contents (po_op_key po')))) = (RC_OK 77 0, pd')"
proof -
  have "native_ok (is_unsigned None) (value_constraint (Some (example_cts example_ct)) None) 77"
    by (simp add: native_ok_iff value_constraint_def example_cts_def example_ct_def wf_value_ct_def in_root_def
        is_unsigned_def has_flags_def)
  from NativeInteger_uper_roundtrip [OF this vector.ok_absorbs, of "Key_vector []"] show ?thesis
    by (simp add: Let_def) blast
qed

text \<open>
  Enumerations survive the wire. The value is written as its index in the sorted table,
  as a root index or, in an extension, as a normally small number, and decoded to the same
  value.
\<close>

theorem NativeEnumerated_uper_roundtrip:
  assumes "value_constraint tc c = Some ct" "enum_ok sp ct i" "absorbs cb key" "key_contents key = []"
  shows "\<exists>po po' pd'. NativeEnumerated_encode_uper (Some sp) tc c (Some (nat_value (value2enum sp ! i))) (new_outp cb key) = (0, po) \<and>
    asn_put_aligned_flush po = (0, po') \<and>
    (let octs = key_contents (po_op_key po')
     in bits_of octs = pad8 (enum_code sp ct i) \<and>
        NativeEnumerated_decode_uper (Some sp) tc c (new_pd octs 0 (8 * length octs)) =
          (RC_OK (nat_value (value2enum sp ! i)) 0, pd') \<and>
        pd_pos pd' = length (enum_code sp ct i))"
  using native_enumerated_uper.wire_roundtrip [of tc c ct sp i] assms by simp

definition example_enum :: asn_INTEGER_specifics where
  "example_enum = \<lparr>value2enum = map (\<lambda>n. \<lparr>nat_value = n, enum_name = ''e''\<rparr>) [- 3, 0, 5, 9],
     enum2value = [], map_extension = 3, strict_enumeration = True, field_width = 0, field_unsigned = False\<rparr>"

theorem NativeEnumerated_uper_roundtrip_witness:
  "\<exists>po po' pd'. NativeEnumerated_encode_uper (Some example_enum) (Some (example_cts example_ct)) None (Some 9)
      (new_outp write_buffer (Key_vector [])) = (0, po) \<and>
    asn_put_aligned_flush po = (0, po') \<and>
    NativeEnumerated_decode_uper (Some example_enum) (Some (example_cts example_ct)) None
      (new_pd (key_contents (po_op_key po')) 0 (8 * length (key_contents (po_op_key po')))) = (RC_OK 9 0, pd')"
proof -
  have "value_constraint (Some (example_cts example_ct)) None = Some example_ct"
    by (simp add: value_constraint_def example_cts_def)
  moreover have "enum_ok example_enum example_ct 3"
    by (simp add: enum_ok_def example_enum_def example_ct_def root_count_def)
  ultimately show ?thesis
    using NativeEnumerated_uper_roundtrip [OF _ _ vector.ok_absorbs, of _ _ example_ct example_enum 3 "Key_vector []"]
    by (simp add: Let_def example_enum_def) blast
qed

text \<open>
  Unsigned numbers near 2^64 are encoded as other numbers. For a NativeInteger with the
  full unsigned range a value whose 64 bits read as -128 to -1 is written as a number below
  256: \<open>asn_ulong2INTEGER\<close> has dropped the leading octets as sign octets.
\<close>

theorem NativeInteger_unsigned_truncated:
  assumes "- 128 \<le> sint v" "sint v < 0" "is_unsigned specs" "value_constraint tc c = Some ct"
    "apc_constrained ct" "\<not> apc_semi_constrained ct" "\<not> apc_extensible ct"
    "range_bits ct = 64" "lower_bound ct = 0" "upper_bound ct = -1"
  shows "writes (NativeInteger_encode_uper specs tc c (Some v)) (nat_bl 64 (nat (sint v + 256)))"
proof -
  let ?st = "[word_of_int (sint v)] :: byte list"
  define u where "u = nat (sint v + 256)"
  have u: "u < 256" "128 \<le> u" "int u = sint v + 256" using assms(1,2) by (simp_all add: u_def)
  have "word_of_int (sint v) = (word_of_int (int u) :: byte)" using u(3) by simp
  then have b: "unat (word_of_int (sint v) :: byte) = u" using u(1) by (simp add: unat_of_nat)
  have "minimal ?st" by (simp add: minimal_def)
  moreover have "be_int ?st = sint v" using b u by (simp add: be_int_def be_neg_def be_nat_def bl_nat_byte_bits)
  ultimately have st: "asn_imax2INTEGER v = Some ?st" by (rule imax2INTEGER_minimal)
  have n: "be_nat ?st = u" using b by (simp add: be_nat_def bl_nat_byte_bits)
  have umax: "asn_INTEGER2umax (Some ?st) = Some (word_of_nat u)"
    using n u(1) by (simp add: INTEGER2umax_value)
  have "INTEGER_encode_uper specs tc c (Some (Some ?st)) = (\<lambda>po. case uper_put_constrained_whole_number_u po (word_of_nat u) (int 64) of (r, po') \<Rightarrow>
             (if r \<noteq> 0 then -1 else 0, po'))"
    using assms(3-) umax
    by (simp add: fun_eq_iff INTEGER_encode_uper_def INTEGER_value_inext_def INTEGER_encode_tail_def INTEGER_encode_range_def split_beta)
  then have "NativeInteger_encode_uper specs tc c (Some v) = (\<lambda>po. case uper_put_constrained_whole_number_u po (word_of_nat u) (int 64) of (r, po') \<Rightarrow>
             (if r \<noteq> 0 then -1 else 0, po'))"
    using assms(3) st by (simp add: NativeInteger_encode_uper_def [abs_def] asn_ulong2INTEGER_def)
  moreover have "unat (word_of_nat u :: 64 word) = u" using u(1) by (simp add: unat_of_nat)
  ultimately show ?thesis
    using writes_status [OF constrained_whole_number_writes [of "word_of_nat u" 64]] by (simp add: u_def)
qed

theorem NativeInteger_unsigned_truncated_witness:
  "writes (NativeInteger_encode_uper (Some (example_enum\<lparr>field_unsigned := True\<rparr>))
     (Some (example_cts (example_ct\<lparr>apc_extensible := False, range_bits := 64, lower_bound := 0, upper_bound := -1\<rparr>))) None
     (Some 0xFFFFFFFFFFFFFFFF)) (nat_bl 64 255)"
  using NativeInteger_unsigned_truncated [of "0xFFFFFFFFFFFFFFFF" "Some (example_enum\<lparr>field_unsigned := True\<rparr>)"
      "Some (example_cts (example_ct\<lparr>apc_extensible := False, range_bits := 64, lower_bound := 0, upper_bound := -1\<rparr>))" None
      "example_ct\<lparr>apc_extensible := False, range_bits := 64, lower_bound := 0, upper_bound := -1\<rparr>"]
  by (simp add: is_unsigned_def value_constraint_def example_cts_def example_ct_def example_enum_def)

end
