(* ===== verification/Fragment_Loops.thy ===== *)
theory Fragment_Loops
  imports Uper_Primitives
begin

text \<open>
  The fragmentation loops of \<open>OCTET_STRING_uper.c\<close>, \<open>BIT_STRING_uper.c\<close>,
  \<open>constr_SET_OF_uper.c\<close> and \<open>constr_SEQUENCE_OF_uper.c\<close> have one shape: a length
  determinant, the units it announces, and again while the determinant was that of a
  fragment. \<open>put_fragments\<close> and \<open>get_fragments\<close> are these loops over the unit
  writer and the unit reader of the type. The locales \<open>fragment_writer\<close> and
  \<open>fragment_reader\<close> state what the units promise and prove the loops once.
\<close>

section \<open>The loops\<close>

text \<open>
  The encoder's loop: \<open>advance k d\<close> is the data after the first \<open>k\<close> units
  (\<open>buf += may_save * bpc\<close>), \<open>n\<close> the number of units left.
\<close>

function put_fragments ::
  "(nat \<Rightarrow> 'd \<Rightarrow> asn_bit_outp \<Rightarrow> int \<times> asn_bit_outp) \<Rightarrow> (nat \<Rightarrow> 'd \<Rightarrow> 'd) \<Rightarrow> nat \<Rightarrow> 'd \<Rightarrow> asn_bit_outp \<Rightarrow> int \<times> asn_bit_outp" where
  "put_fragments chunk advance n d po =
     (case uper_put_length po n of ((may_save, need_eom), po1) \<Rightarrow>
        if may_save < 0 then (-1, po1)
        else case chunk (nat may_save) d po1 of (ret, po2) \<Rightarrow>
          if ret \<noteq> 0 then (-1, po2)
          else if need_eom then
            (case uper_put_length po2 0 of ((r0, e0), po3) \<Rightarrow>
               if r0 \<noteq> 0 then (-1, po3)
               else if n - nat may_save = 0 then (0, po3)
               else put_fragments chunk advance (n - nat may_save) (advance (nat may_save) d) po3)
          else if n - nat may_save = 0 then (0, po2)
          else put_fragments chunk advance (n - nat may_save) (advance (nat may_save) d) po2)"
  by pat_completeness auto
termination
  by (relation "measure (\<lambda>(chunk, advance, n, d, po). n)") (auto dest!: put_length_progress)

declare put_fragments.simps [simp del]

text \<open>
  The decoder's loop. A unit reader never gives bits back to the stream
  (lemma \<open>get_fragments_unfold\<close>), so the comparison of the bits left, which makes
  the recursion well-founded for an arbitrary reader, never fails.
\<close>

function get_fragments ::
  "(nat \<Rightarrow> 'a \<Rightarrow> asn_bit_data \<Rightarrow> 'a dec_rval \<times> asn_bit_data) \<Rightarrow> int \<Rightarrow> nat \<Rightarrow> 'a \<Rightarrow> asn_bit_data \<Rightarrow> 'a dec_rval \<times> asn_bit_data" where
  "get_fragments chunk ebits lb acc pd =
     (case uper_get_length pd ebits lb of ((raw_len, repeat), pd1) \<Rightarrow>
        if raw_len < 0 then (RC_WMORE, pd1)
        else case chunk (nat raw_len) acc pd1 of (rv, pd2) \<Rightarrow>
          (case rv of
             RC_OK acc' c \<Rightarrow>
               if \<not> repeat then (RC_OK acc' 0, pd2)
               else if pd_left pd2 \<le> pd_left pd1 then get_fragments chunk ebits lb acc' pd2
               else (RC_FAIL, pd2)
           | RC_WMORE \<Rightarrow> (RC_WMORE, pd2)
           | RC_FAIL \<Rightarrow> (RC_FAIL, pd2)))"
  by pat_completeness auto
termination
proof (relation "measure (\<lambda>(chunk, ebits, lb, acc, pd). pd_left pd)", goal_cases)
  case 1
  show ?case by simp
next
  case (2 chunk ebits lb acc pd x pd1 raw_len repeat xa pd2 acc' c)
  from 2(1,2,6) have "pd_left pd1 < pd_left pd"
    using get_length_left(2) [of pd ebits lb] by (metis fst_conv snd_conv)
  with 2 show ?case by simp
qed

declare get_fragments.simps [simp del]

lemma consumes_left: "consumes pd bs pd' \<Longrightarrow> pd_left pd' \<le> pd_left pd"
  using consumesD [of pd bs pd'] length_src_bits [of pd] length_src_bits [of pd'] by (simp add: pd_left_def)

lemma moves_left: "moves pd pd' \<Longrightarrow> pd_left pd' \<le> pd_left pd"
  unfolding moves_def using consumes_left by blast

text \<open>Over readers that stay inside the stream the loop is the code's loop.\<close>

lemma get_fragments_unfold:
  assumes "pd_inv pd" "\<And>k a. safe_get (chunk k a)"
  shows "get_fragments chunk ebits lb acc pd =
     (case uper_get_length pd ebits lb of ((raw_len, repeat), pd1) \<Rightarrow>
        if raw_len < 0 then (RC_WMORE, pd1)
        else case chunk (nat raw_len) acc pd1 of (rv, pd2) \<Rightarrow>
          (case rv of
             RC_OK acc' c \<Rightarrow> if repeat then get_fragments chunk ebits lb acc' pd2 else (RC_OK acc' 0, pd2)
           | RC_WMORE \<Rightarrow> (RC_WMORE, pd2)
           | RC_FAIL \<Rightarrow> (RC_FAIL, pd2)))"
proof -
  let ?l = "uper_get_length pd ebits lb"
  let ?c = "chunk (nat (fst (fst ?l))) acc (snd ?l)"
  have "moves pd (snd ?l)" using safe_get_length assms(1) by (simp add: safe_get_moves)
  then have "moves (snd ?l) (snd ?c)" using assms(2) moves_inv by (simp add: safe_get_moves)
  then have "pd_left (snd ?c) \<le> pd_left (snd ?l)" by (rule moves_left)
  then show ?thesis
    by (subst get_fragments.simps) (auto simp: split_beta split: dec_rval.split)
qed

lemma safe_get_fragments [safe]:
  assumes "\<And>k a. safe_get (chunk k a)"
  shows "safe_get (get_fragments chunk ebits lb acc)"
proof -
  have "moves pd (snd (get_fragments chunk ebits lb acc pd))" if "pd_inv pd" for pd
    using that assms
  proof (induction chunk ebits lb acc pd rule: get_fragments.induct)
    case (1 chunk ebits lb acc pd)
    let ?l = "uper_get_length pd ebits lb"
    let ?c = "chunk (nat (fst (fst ?l))) acc (snd ?l)"
    have l: "moves pd (snd ?l)" using safe_get_length "1.prems"(1) by (simp add: safe_get_moves)
    then have c: "moves (snd ?l) (snd ?c)" using "1.prems"(2) moves_inv by (simp add: safe_get_moves)
    have left: "pd_left (snd ?c) \<le> pd_left (snd ?l)" using c by (rule moves_left)
    have "moves (snd ?c) (snd (get_fragments chunk ebits lb a (snd ?c)))"
      if "\<not> fst (fst ?l) < 0" "fst ?c = RC_OK a n" "\<not> \<not> snd (fst ?l)" for a n
      by (rule "1.IH" [OF prod.collapse prod.collapse that(1) prod.collapse that(2,3) left moves_inv [OF c] "1.prems"(2)])
    then have "moves pd (snd (get_fragments chunk ebits lb a (snd ?c)))"
      if "\<not> fst (fst ?l) < 0" "fst ?c = RC_OK a n" "snd (fst ?l)" for a n
      using that moves_trans [OF moves_trans [OF l c]] by simp
    then show ?case
      unfolding get_fragments.simps [of chunk ebits lb acc pd] split_beta
      using l moves_trans [OF l c] by (simp split: dec_rval.split) blast
  qed
  then show ?thesis by (simp add: safe_get_moves)
qed

section \<open>Units on the wire\<close>

function unit_frags :: "bool list list \<Rightarrow> bool list" where
  "unit_frags us = length_code (length us) @ concat (take (length_part (length us)) us) @
     (if 16384 \<le> length us then unit_frags (drop (length_part (length us)) us) else [])"
  by pat_completeness auto
termination
  by (relation "measure length") (auto simp: length_part_def Suc_le_eq div_greater_zero_iff)

declare unit_frags.simps [simp del]

lemma length_part_dvd: "length_part n < n \<Longrightarrow> 16384 dvd length_part n"
  by (simp add: length_part_def split: if_splits)

locale fragment_writer =
  fixes chunk :: "nat \<Rightarrow> 'd \<Rightarrow> asn_bit_outp \<Rightarrow> int \<times> asn_bit_outp"
    and advance :: "nat \<Rightarrow> 'd \<Rightarrow> 'd"
    and holds :: "'d \<Rightarrow> bool list list \<Rightarrow> bool"
  assumes chunk_writes: "holds d us \<Longrightarrow> k \<le> length us \<Longrightarrow> writes (chunk k d) (concat (take k us))"
    and advance_holds: "holds d us \<Longrightarrow> 16384 dvd k \<Longrightarrow> k \<le> length us \<Longrightarrow> holds (advance k d) (drop k us)"
begin

lemma put_fragments_writes:
  "holds d us \<Longrightarrow> writes (put_fragments chunk advance (length us) d) (unit_frags us)"
proof (induction us arbitrary: d rule: length_induct)
  case (1 us)
  define k where "k = length_part (length us)"
  have k: "k \<le> length us" "0 < length us \<Longrightarrow> 0 < k" using length_part_le length_part_pos by (auto simp: k_def)
  have rest: "writes (put_fragments chunk advance (length us - k) (advance k d)) (unit_frags (drop k us))" if "k < length us"
  proof -
    have "holds (advance k d) (drop k us)"
      using advance_holds [OF "1.prems" _ k(1)] length_part_dvd that by (simp add: k_def)
    moreover have "length (drop k us) < length us" using that k(2) by (metis diff_less gr_zeroI length_drop not_less_zero)
    ultimately show ?thesis using "1.IH" by (metis length_drop)
  qed
  have nil: "unit_frags [] = length_code 0" by (subst unit_frags.simps) (simp add: length_part_def)
  show ?case
  proof (rule writesI)
    fix po assume "po_inv po"
    from uper_put_length_eom [OF this, of "length us"] obtain p1 where
      p1: "uper_put_length po (length us) = ((int k, 16384 \<le> length us \<and> k = length us), p1)"
        "puts po (length_code (length us)) p1" unfolding k_def by blast
    from chunk_writes [OF "1.prems" k(1)] puts_inv [OF p1(2)] obtain p2 where
      p2: "chunk k d p1 = (0, p2)" "puts p1 (concat (take k us)) p2" "po_inv p2" by (rule writesE)
    note p02 = puts_trans [OF p1(2) p2(2)]
    consider "k < length us" | "k = length us" "16384 \<le> length us" | "k = length us" "\<not> 16384 \<le> length us"
      using k(1) by linarith
    then show "\<exists>po'. put_fragments chunk advance (length us) d po = (0, po') \<and> puts po (unit_frags us) po'"
    proof cases
      case 1
      then have big: "16384 \<le> length us" by (simp add: k_def length_part_def split: if_splits)
      from rest [OF 1] p2(3) obtain p3 where
        p3: "put_fragments chunk advance (length us - k) (advance k d) p2 = (0, p3)" "puts p2 (unit_frags (drop k us)) p3"
        by (rule writesE)
      have "puts po (unit_frags us) p3"
        using puts_trans [OF p02 p3(2)] big by (subst unit_frags.simps) (simp add: k_def)
      with 1 p1 p2 p3 show ?thesis by (subst put_fragments.simps) simp
    next
      case 2
      from uper_put_length_eom [OF p2(3), of 0] obtain p3 where
        p3: "uper_put_length p2 0 = ((0, False), p3)" "puts p2 (length_code 0) p3" by (auto simp: length_part_def)
      have "puts po (unit_frags us) p3"
        using puts_trans [OF p02 p3(2)] 2 nil by (subst unit_frags.simps) (simp add: k_def)
      with 2 p1 p2 p3 show ?thesis by (subst put_fragments.simps) simp
    next
      case 3
      have "puts po (unit_frags us) p2" using p02 3 by (subst unit_frags.simps) (simp add: k_def)
      with 3 p1 p2 show ?thesis by (subst put_fragments.simps) simp
    qed
  qed
qed

end

locale fragment_reader =
  fixes chunk :: "nat \<Rightarrow> 'a \<Rightarrow> asn_bit_data \<Rightarrow> 'a dec_rval \<times> asn_bit_data"
    and collected :: "'u list \<Rightarrow> 'a"
    and code :: "'u \<Rightarrow> bool list" and ok :: "'u \<Rightarrow> bool"
  assumes chunk_safe: "safe_get (chunk k a)"
    and chunk_reads: "list_all ok us \<Longrightarrow> list_all ok vs \<Longrightarrow> 16384 dvd length us \<Longrightarrow>
      \<exists>c. reads (chunk (length vs) (collected us)) (concat (map code vs)) (RC_OK (collected (us @ vs)) c)"
begin

text \<open>One size-constrained field and its units.\<close>

lemma get_sized_reads:
  assumes "list_all ok us" "0 \<le> ebits" "ebits \<le> 16" "lb \<le> length us" "length us - lb < 2 ^ nat ebits"
  shows "reads (get_fragments chunk ebits lb (collected []))
    (nat_bl (nat ebits) (length us - lb) @ concat (map code us)) (RC_OK (collected us) 0)"
proof (rule readsI)
  fix pd rest assume pd: "pd_inv pd" "src_bits pd = (nat_bl (nat ebits) (length us - lb) @ concat (map code us)) @ rest"
  have "reads (\<lambda>pd. asn_get_few_bits pd (int (nat ebits))) (nat_bl (nat ebits) (length us - lb)) (int (length us - lb))"
    using few_bits_at [of "nat ebits" "length us - lb"] assms by simp
  with pd obtain p1 where p1: "asn_get_few_bits pd ebits = (int (length us - lb), p1)"
      "consumes pd (nat_bl (nat ebits) (length us - lb)) p1" "src_bits p1 = concat (map code us) @ rest" "pd_inv p1"
    using assms(2) by (auto elim!: readsE)
  then have l: "uper_get_length pd ebits lb = ((int (length us), False), p1)"
    using assms by (simp add: uper_get_length_def)
  from chunk_reads [of "[]" us] assms(1) obtain c where
    "reads (chunk (length us) (collected [])) (concat (map code us)) (RC_OK (collected us) c)" by auto
  from this p1(4,3) obtain p2 where p2: "chunk (length us) (collected []) p1 = (RC_OK (collected us) c, p2)"
    "consumes p1 (concat (map code us)) p2" "src_bits p2 = rest" by (rule readsE)
  have "get_fragments chunk ebits lb (collected []) pd = (RC_OK (collected us) 0, p2)"
    using l p2(1) by (subst get_fragments.simps) simp
  with consumes_trans [OF p1(2) p2(2)] p2(3) show "\<exists>pd'. get_fragments chunk ebits lb (collected []) pd = (RC_OK (collected us) 0, pd') \<and>
    consumes pd (nat_bl (nat ebits) (length us - lb) @ concat (map code us)) pd' \<and> src_bits pd' = rest" by blast
qed

lemma get_fragments_reads:
  assumes "ebits < 0 \<or> 16 < ebits"
  shows "list_all ok us \<Longrightarrow> list_all ok vs \<Longrightarrow> 16384 dvd length us \<Longrightarrow>
    reads (get_fragments chunk ebits lb (collected us)) (unit_frags (map code vs)) (RC_OK (collected (us @ vs)) 0)"
proof (induction vs arbitrary: us rule: length_induct)
  case (1 vs)
  define k where "k = length_part (length vs)"
  have k: "k \<le> length vs" "0 < length vs \<Longrightarrow> 0 < k" using length_part_le length_part_pos by (auto simp: k_def)
  let ?tk = "take k vs" and ?dr = "drop k vs"
  have oks: "list_all ok ?tk" "list_all ok ?dr"
    using "1.prems"(2) by (metis append_take_drop_id list_all_append)+
  let ?tail = "if 16384 \<le> length vs then unit_frags (map code ?dr) else []"
  have code: "unit_frags (map code vs) = length_code (length vs) @ concat (map code ?tk) @ ?tail"
    by (subst unit_frags.simps) (simp add: k_def take_map drop_map)
  from chunk_reads [OF "1.prems"(1) oks(1) "1.prems"(3)] k(1) obtain c where
    c: "reads (chunk k (collected us)) (concat (map code ?tk)) (RC_OK (collected (us @ ?tk)) c)" by auto
  show ?case
  proof (rule readsI)
    fix pd rest assume pd: "pd_inv pd" "src_bits pd = unit_frags (map code vs) @ rest"
    from uper_get_length_reads [OF assms, of lb "length vs"] pd obtain p1 where
      p1: "uper_get_length pd ebits lb = ((int k, 16384 \<le> length vs), p1)" "consumes pd (length_code (length vs)) p1"
        "src_bits p1 = concat (map code ?tk) @ (?tail @ rest)" "pd_inv p1"
      unfolding k_def code by (auto elim!: readsE simp: k_def)
    from c p1(4,3) obtain p2 where p2: "chunk k (collected us) p1 = (RC_OK (collected (us @ ?tk)) c, p2)"
      "consumes p1 (concat (map code ?tk)) p2" "src_bits p2 = ?tail @ rest" "pd_inv p2" by (rule readsE)
    note c02 = consumes_trans [OF p1(2) p2(2)]
    note unfold = get_fragments_unfold [OF pd(1) chunk_safe]
    show "\<exists>pd'. get_fragments chunk ebits lb (collected us) pd = (RC_OK (collected (us @ vs)) 0, pd') \<and>
      consumes pd (unit_frags (map code vs)) pd' \<and> src_bits pd' = rest"
    proof (cases "16384 \<le> length vs")
      case True
      then have "16384 dvd k" by (simp add: k_def length_part_def)
      then have "16384 dvd length (us @ ?tk)" using "1.prems"(3) k(1) by simp
      moreover have "list_all ok (us @ ?tk)" using "1.prems"(1) oks(1) by simp
      moreover have "length ?dr < length vs" using True k(2) by (metis diff_less gr_zeroI length_drop not_numeral_le_zero)
      ultimately have "reads (get_fragments chunk ebits lb (collected (us @ ?tk))) (unit_frags (map code ?dr)) (RC_OK (collected ((us @ ?tk) @ ?dr)) 0)"
        using "1.IH" oks(2) by blast
      from this p2(4) p2(3) [unfolded if_P [OF True]] obtain p3 where
        p3: "get_fragments chunk ebits lb (collected (us @ ?tk)) p2 = (RC_OK (collected ((us @ ?tk) @ ?dr)) 0, p3)"
          "consumes p2 (unit_frags (map code ?dr)) p3" "src_bits p3 = rest" by (rule readsE)
      have "consumes pd (unit_frags (map code vs)) p3"
        using consumes_trans [OF c02 p3(2)] True by (simp add: code)
      with True p1(1) p2(1) p3 show ?thesis by (subst unfold) simp
    next
      case False
      then have "?tk = vs" by (simp add: k_def length_part_def)
      moreover have "consumes pd (unit_frags (map code vs)) p2" using c02 False by (simp add: code)
      ultimately show ?thesis using False p1(1) p2 by (subst unfold) simp
    qed
  qed
qed

end

end
