(* ===== verification/Octet_String.thy ===== *)
theory Octet_String
  imports Fragment_Loops
begin

unbundle bit_operations_syntax

text \<open>
  OCTET STRING and the restricted character strings: construction, comparison and the
  character packing of \<open>OCTET_STRING.c\<close>, and the unaligned PER codec of
  \<open>OCTET_STRING_uper.c\<close>. An \<open>OCTET_STRING_t\<close> is the octets behind its
  \<open>buf\<close>, \<open>None\<close> for a null pointer. Decoders fill a fresh structure.
  \<open>unit_bits\<close> is an \<open>int\<close>; where the code reads it as unsigned a negative
  one is large. A shift count outside a word's width is undefined in C and reduced
  modulo the width here; the tables asn1c generates have \<open>unit_bits\<close> from 1 to 32.
\<close>

type_synonym OCTET_STRING_t = "byte list option"

datatype asn_OS_Subvariant = ASN_OSUBV_ANY | ASN_OSUBV_BIT | ASN_OSUBV_STR | ASN_OSUBV_U16 | ASN_OSUBV_U32

section \<open>Construction and comparison\<close>

definition strlen :: "byte list \<Rightarrow> nat" where
  "strlen str = length (takeWhile (\<lambda>b. b \<noteq> 0) str)"

text \<open>\<open>str\<close> is the memory from the pointer on; the status and the structure are returned.\<close>

definition OCTET_STRING_fromBuf :: "OCTET_STRING_t option \<Rightarrow> byte list option \<Rightarrow> int \<Rightarrow> int \<times> OCTET_STRING_t option" where
  "OCTET_STRING_fromBuf st str len =
     (if st = None \<or> (str = None \<and> len \<noteq> 0) then (-1, st)
      else case str of
          None \<Rightarrow> (0, Some None)
        | Some s \<Rightarrow>
            let n = (if len < 0 then strlen s else nat len)
            in (0, Some (Some (take n s))))"

definition OCTET_STRING_new_fromBuf :: "byte list option \<Rightarrow> int \<Rightarrow> OCTET_STRING_t option" where
  "OCTET_STRING_new_fromBuf str len =
     (if str \<noteq> None then
        (case OCTET_STRING_fromBuf (Some None) str len of (r, st) \<Rightarrow> if r \<noteq> 0 then None else st)
      else Some None)"

definition OCTET_STRING_compare :: "OCTET_STRING_t option \<Rightarrow> OCTET_STRING_t option \<Rightarrow> int" where
  "OCTET_STRING_compare aptr bptr =
     (case (aptr, bptr) of
        (Some a, Some b) \<Rightarrow>
          let abuf = int_octets a; bbuf = int_octets b;
              common_prefix_size = (if length abuf \<le> length bbuf then length abuf else length bbuf);
              ret = memcmp (take common_prefix_size abuf) (take common_prefix_size bbuf)
          in if ret = 0 then
               if length abuf < length bbuf then -1
               else if length abuf > length bbuf then 1
               else 0
             else if ret < 0 then -1 else 1
      | (None, None) \<Rightarrow> 0
      | (None, Some _) \<Rightarrow> -1
      | (Some _, None) \<Rightarrow> 1)"

section \<open>Packing characters\<close>

definition char_octets :: "nat \<Rightarrow> uint32 \<Rightarrow> byte list" where
  "char_octets bpc ch =
     (if bpc = 1 then [ucast ch]
      else if bpc = 2 then [ucast (drop_bit 8 ch), ucast ch]
      else if bpc = 4 then [ucast (drop_bit 24 ch), ucast (drop_bit 16 ch), ucast (drop_bit 8 ch), ucast ch]
      else replicate bpc 0)"

definition char_value :: "nat \<Rightarrow> byte list \<Rightarrow> uint32 option" where
  "char_value bpc buf =
     (if bpc = 1 then Some (ucast (buf ! 0))
      else if bpc = 2 then Some (push_bit 8 (ucast (buf ! 0)) OR ucast (buf ! 1))
      else if bpc = 4 then Some (push_bit 24 (ucast (buf ! 0)) OR push_bit 16 (ucast (buf ! 1)) OR
                                 push_bit 8 (ucast (buf ! 2)) OR ucast (buf ! 3))
      else None)"

text \<open>X.691, 27.5.4: whether every character up to \<open>ub\<close> is coded as it is.\<close>

definition coded_as_is :: "intmax \<Rightarrow> int \<Rightarrow> bool" where
  "coded_as_is ub unit_bits \<longleftrightarrow> ub \<le> push_bit (nat ((unit_bits - 1) mod 64)) 2"

primrec get_mapped_characters ::
  "(nat \<Rightarrow> int) \<Rightarrow> nat \<Rightarrow> int \<Rightarrow> nat \<Rightarrow> asn_bit_data \<Rightarrow> (int \<times> byte list) \<times> asn_bit_data" where
  "get_mapped_characters code2value bpc unit_bits 0 pd = ((0, []), pd)"
| "get_mapped_characters code2value bpc unit_bits (Suc n) pd =
     (case asn_get_few_bits pd unit_bits of (code, pd1) \<Rightarrow>
        if code < 0 then ((-1, []), pd1)
        else let value = code2value (nat code)
          in if value < 0 then ((1, []), pd1)
             else case get_mapped_characters code2value bpc unit_bits n pd1 of ((r, bs), pd2) \<Rightarrow>
               ((r, char_octets bpc (word_of_int value) @ bs), pd2))"

primrec get_shifted_characters ::
  "intmax \<Rightarrow> intmax \<Rightarrow> nat \<Rightarrow> int \<Rightarrow> nat \<Rightarrow> asn_bit_data \<Rightarrow> (int \<times> byte list) \<times> asn_bit_data" where
  "get_shifted_characters lb ub bpc unit_bits 0 pd = ((0, []), pd)"
| "get_shifted_characters lb ub bpc unit_bits (Suc n) pd =
     (case asn_get_few_bits pd unit_bits of (code, pd1) \<Rightarrow>
        let ch = (word_of_int (code + sint lb) :: uint32)
        in if code < 0 then ((-1, []), pd1)
           else if sint ch > sint ub then ((1, []), pd1)
           else case get_shifted_characters lb ub bpc unit_bits n pd1 of ((r, bs), pd2) \<Rightarrow>
             ((r, char_octets bpc ch @ bs), pd2))"

definition get_plain_characters ::
  "intmax \<Rightarrow> intmax \<Rightarrow> nat \<Rightarrow> int \<Rightarrow> nat \<Rightarrow> asn_bit_data \<Rightarrow> (int \<times> byte list) \<times> asn_bit_data" where
  "get_plain_characters lb ub bpc unit_bits units pd =
     (if lb = 0 \<and> unit_bits = 8 * int bpc then
        (case asn_get_many_bits pd False (unit_bits * int units) of (r, bs, pd') \<Rightarrow> ((r, bs), pd'))
      else get_shifted_characters lb ub bpc unit_bits units pd)"

definition OCTET_STRING_per_get_characters ::
  "nat \<Rightarrow> nat \<Rightarrow> int \<Rightarrow> intmax \<Rightarrow> intmax \<Rightarrow> asn_per_constraints option \<Rightarrow> asn_bit_data \<Rightarrow> (int \<times> byte list) \<times> asn_bit_data" where
  "OCTET_STRING_per_get_characters units bpc unit_bits lb ub pc pd =
     (if coded_as_is ub unit_bits then get_plain_characters 0 ub bpc unit_bits units pd
      else case Option.bind pc pc_code2value of
          Some code2value \<Rightarrow>
            if unit_bits > 16 \<or> unit_bits < 0 then ((1, []), pd)
            else get_mapped_characters code2value bpc unit_bits units pd
        | None \<Rightarrow> get_plain_characters lb ub bpc unit_bits units pd)"

primrec put_mapped_characters ::
  "(nat \<Rightarrow> int) \<Rightarrow> nat \<Rightarrow> int \<Rightarrow> nat \<Rightarrow> byte list \<Rightarrow> asn_bit_outp \<Rightarrow> int \<times> asn_bit_outp" where
  "put_mapped_characters value2code bpc unit_bits 0 buf po = (0, po)"
| "put_mapped_characters value2code bpc unit_bits (Suc n) buf po =
     (case char_value bpc buf of None \<Rightarrow> (-1, po)
      | Some value \<Rightarrow>
          let code = value2code (unat value)
          in if code < 0 then (-1, po)
             else case asn_put_few_bits po (word_of_int code) unit_bits of (r, po1) \<Rightarrow>
               if r \<noteq> 0 then (-1, po1) else put_mapped_characters value2code bpc unit_bits n (drop bpc buf) po1)"

text \<open>\<open>ub\<close> is the code's \<open>ub -= lb\<close>.\<close>

primrec put_shifted_characters ::
  "intmax \<Rightarrow> intmax \<Rightarrow> nat \<Rightarrow> int \<Rightarrow> nat \<Rightarrow> byte list \<Rightarrow> asn_bit_outp \<Rightarrow> int \<times> asn_bit_outp" where
  "put_shifted_characters lb ub bpc unit_bits 0 buf po = (0, po)"
| "put_shifted_characters lb ub bpc unit_bits (Suc n) buf po =
     (case char_value bpc buf of None \<Rightarrow> (-1, po)
      | Some value \<Rightarrow>
          let ch = (word_of_int (uint value - sint lb) :: uint32)
          in if sint ch < 0 \<or> sint ch > sint ub then (-1, po)
             else case asn_put_few_bits po ch unit_bits of (r, po1) \<Rightarrow>
               if r \<noteq> 0 then (-1, po1) else put_shifted_characters lb ub bpc unit_bits n (drop bpc buf) po1)"

definition put_plain_characters ::
  "intmax \<Rightarrow> intmax \<Rightarrow> nat \<Rightarrow> int \<Rightarrow> nat \<Rightarrow> byte list \<Rightarrow> asn_bit_outp \<Rightarrow> int \<times> asn_bit_outp" where
  "put_plain_characters lb ub bpc unit_bits units buf po =
     (if lb = 0 \<and> unit_bits = 8 * int bpc then asn_put_many_bits po buf (unit_bits * int units)
      else put_shifted_characters lb (ub - lb) bpc unit_bits units buf po)"

text \<open>
  After the loop over mapped characters the code goes on with \<open>buf\<close> at the end of
  the characters: the shortcut, if it applies, would write the octets behind them; the
  last loop does nothing.
\<close>

definition OCTET_STRING_per_put_characters ::
  "nat \<Rightarrow> byte list \<Rightarrow> nat \<Rightarrow> int \<Rightarrow> intmax \<Rightarrow> intmax \<Rightarrow> asn_per_constraints option \<Rightarrow> asn_bit_outp \<Rightarrow> int \<times> asn_bit_outp" where
  "OCTET_STRING_per_put_characters units buf bpc unit_bits lb ub pc po =
     (if coded_as_is ub unit_bits then put_plain_characters 0 ub bpc unit_bits units buf po
      else case Option.bind pc pc_value2code of
          Some value2code \<Rightarrow>
            (case put_mapped_characters value2code bpc unit_bits units buf po of (r, po1) \<Rightarrow>
               if r \<noteq> 0 then (-1, po1)
               else if lb = 0 \<and> unit_bits = 8 * int bpc
               then asn_put_many_bits po1 (drop (units * bpc) buf) (unit_bits * int units)
               else (0, po1))
        | None \<Rightarrow> put_plain_characters lb ub bpc unit_bits units buf po)"

section \<open>The codec\<close>

definition asn_DEF_OCTET_STRING_constraints :: asn_per_constraints where
  "asn_DEF_OCTET_STRING_constraints =
     \<lparr>pc_value = \<lparr>apc_semi_constrained = False, apc_constrained = True, apc_extensible = False,
        range_bits = 8, effective_bits = 8, lower_bound = 0, upper_bound = 255\<rparr>,
      pc_size = \<lparr>apc_semi_constrained = True, apc_constrained = False, apc_extensible = False,
        range_bits = -1, effective_bits = -1, lower_bound = 0, upper_bound = 0\<rparr>,
      pc_value2code = None, pc_code2value = None\<rparr>"

definition per_constraints ::
  "asn_per_constraints option \<Rightarrow> asn_per_constraints option \<Rightarrow> asn_per_constraints option" where
  "per_constraints td_constraints constraints = (case constraints of None \<Rightarrow> td_constraints | Some c \<Rightarrow> Some c)"

definition octet_constraints :: "asn_per_constraints option \<Rightarrow> asn_per_constraints" where
  "octet_constraints pc = (case pc of None \<Rightarrow> asn_DEF_OCTET_STRING_constraints | Some p \<Rightarrow> p)"

definition bytes_per_character :: "asn_OS_Subvariant option \<Rightarrow> nat option" where
  "bytes_per_character specs =
     (case (case specs of None \<Rightarrow> ASN_OSUBV_STR | Some subvariant \<Rightarrow> subvariant) of
        ASN_OSUBV_STR \<Rightarrow> Some 1 | ASN_OSUBV_U16 \<Rightarrow> Some 2 | ASN_OSUBV_U32 \<Rightarrow> Some 4 | _ \<Rightarrow> None)"

definition character_bits :: "asn_per_constraint \<Rightarrow> nat \<Rightarrow> int" where
  "character_bits cval bpc = (if apc_constrained cval then range_bits cval else 8 * int bpc)"

text \<open>
  One round of the decoder's loop. A length of zero with a buffer at hand ends the loop;
  \<open>uper_get_length\<close> never announces a further fragment with it.
\<close>

definition octet_chunk ::
  "nat \<Rightarrow> int \<Rightarrow> asn_per_constraint \<Rightarrow> asn_per_constraints option \<Rightarrow> nat \<Rightarrow> OCTET_STRING_t \<Rightarrow>
   asn_bit_data \<Rightarrow> OCTET_STRING_t dec_rval \<times> asn_bit_data" where
  "octet_chunk bpc unit_bits cval pc raw_len st pd =
     (if raw_len = 0 \<and> st \<noteq> None then (RC_OK st 0, pd)
      else case OCTET_STRING_per_get_characters raw_len bpc unit_bits (lower_bound cval) (upper_bound cval) pc pd of
        ((ret, bs), pd') \<Rightarrow>
          (if ret > 0 then RC_FAIL else if ret < 0 then RC_WMORE else RC_OK (Some (int_octets st @ bs)) 0, pd'))"

definition OCTET_STRING_decode_body ::
  "nat \<Rightarrow> int \<Rightarrow> asn_per_constraint \<Rightarrow> asn_per_constraint \<Rightarrow> asn_per_constraints option \<Rightarrow>
   asn_bit_data \<Rightarrow> OCTET_STRING_t dec_rval \<times> asn_bit_data" where
  "OCTET_STRING_decode_body bpc unit_bits cval csiz pc pd =
     (if effective_bits csiz = 0 then
        (case OCTET_STRING_per_get_characters (unat (upper_bound csiz)) bpc unit_bits
                (lower_bound cval) (upper_bound cval) pc pd of ((ret, bs), pd') \<Rightarrow>
           (if ret > 0 then RC_FAIL else if ret < 0 then RC_WMORE
            else RC_OK (Some bs) (nat (unit_bits * sint (upper_bound csiz))), pd'))
      else get_fragments (octet_chunk bpc unit_bits cval pc) (effective_bits csiz) (unat (lower_bound csiz))
             (if effective_bits csiz \<ge> 0 then Some [] else None) pd)"

definition OCTET_STRING_decode_uper ::
  "asn_OS_Subvariant option \<Rightarrow> asn_per_constraints option \<Rightarrow> asn_per_constraints option \<Rightarrow>
   asn_bit_data \<Rightarrow> OCTET_STRING_t dec_rval \<times> asn_bit_data" where
  "OCTET_STRING_decode_uper specs td_constraints constraints pd =
     (let pc = per_constraints td_constraints constraints;
          cval = pc_value (octet_constraints pc);
          csiz = pc_size (octet_constraints pc)
      in case bytes_per_character specs of
          None \<Rightarrow> (RC_FAIL, pd)
        | Some bpc \<Rightarrow>
            if apc_extensible csiz then
              (case asn_get_few_bits pd 1 of (inext, pd') \<Rightarrow>
                 if inext < 0 then (RC_WMORE, pd')
                 else if inext \<noteq> 0
                 then OCTET_STRING_decode_body bpc (8 * int bpc) cval (pc_size asn_DEF_OCTET_STRING_constraints) pc pd'
                 else OCTET_STRING_decode_body bpc (character_bits cval bpc) cval csiz pc pd')
            else OCTET_STRING_decode_body bpc (character_bits cval bpc) cval csiz pc pd)"

definition put_octet_fragments ::
  "nat \<Rightarrow> int \<Rightarrow> asn_per_constraint \<Rightarrow> asn_per_constraints option \<Rightarrow> nat \<Rightarrow> byte list \<Rightarrow> asn_bit_outp \<Rightarrow> int \<times> asn_bit_outp" where
  "put_octet_fragments bpc unit_bits cval pc size_in_units buf =
     put_fragments (\<lambda>k d. OCTET_STRING_per_put_characters k d bpc unit_bits (lower_bound cval) (upper_bound cval) pc)
       (\<lambda>k. drop (k * bpc)) size_in_units buf"

definition put_sized_octets ::
  "nat \<Rightarrow> int \<Rightarrow> asn_per_constraint \<Rightarrow> asn_per_constraint \<Rightarrow> asn_per_constraints option \<Rightarrow> nat \<Rightarrow> byte list \<Rightarrow>
   asn_bit_outp \<Rightarrow> int \<times> asn_bit_outp" where
  "put_sized_octets bpc unit_bits cval csiz pc size_in_units buf po =
     (case asn_put_few_bits po (word_of_int (int size_in_units - sint (lower_bound csiz))) (effective_bits csiz) of (ret, po1) \<Rightarrow>
        if ret \<noteq> 0 then (-1, po1)
        else case OCTET_STRING_per_put_characters size_in_units buf bpc unit_bits
               (lower_bound cval) (upper_bound cval) pc po1 of (ret, po2) \<Rightarrow>
          (if ret \<noteq> 0 then -1 else 0, po2))"

definition OCTET_STRING_encode_uper ::
  "asn_OS_Subvariant option \<Rightarrow> asn_per_constraints option \<Rightarrow> asn_per_constraints option \<Rightarrow>
   OCTET_STRING_t option \<Rightarrow> asn_bit_outp \<Rightarrow> int \<times> asn_bit_outp" where
  "OCTET_STRING_encode_uper specs td_constraints constraints sptr po =
     (case sptr of None \<Rightarrow> (-1, po)
      | Some st \<Rightarrow>
          let buf = int_octets st;
              pc = per_constraints td_constraints constraints;
              cval = pc_value (octet_constraints pc);
              csiz = pc_size (octet_constraints pc);
              ct_extensible = apc_extensible csiz
          in case bytes_per_character specs of
              None \<Rightarrow> (-1, po)
            | Some bpc \<Rightarrow>
                if length buf mod bpc \<noteq> 0 then (-1, po)
                else
                  let size_in_units = length buf div bpc;
                      out = (effective_bits csiz \<ge> 0 \<and>
                             (int size_in_units < sint (lower_bound csiz) \<or> int size_in_units > sint (upper_bound csiz)));
                      body = (if out then put_octet_fragments bpc (8 * int bpc) cval pc size_in_units buf
                              else if effective_bits csiz \<ge> 0
                              then put_sized_octets bpc (character_bits cval bpc) cval csiz pc size_in_units buf
                              else put_octet_fragments bpc (character_bits cval bpc) cval pc size_in_units buf)
                  in if ct_extensible then
                       (case asn_put_few_bits po (if out then 1 else 0) 1 of (r, po1) \<Rightarrow>
                          if r \<noteq> 0 then (-1, po1) else body po1)
                     else if out then (-1, po)
                     else body po)"

section \<open>Characters and their octets\<close>

definition char_width :: "nat \<Rightarrow> bool" where
  "char_width bpc \<longleftrightarrow> bpc = 1 \<or> bpc = 2 \<or> bpc = 4"

lemma char_widthD: "char_width bpc \<Longrightarrow> 0 < bpc \<and> bpc \<le> 4"
  by (auto simp: char_width_def)

lemma be_nat_word: "length u \<le> 4 \<Longrightarrow> unat (word_of_nat (be_nat u) :: uint32) = be_nat u"
proof -
  assume "length u \<le> 4"
  then have "(2::nat) ^ (8 * length u) \<le> 2 ^ 32" by (intro power_increasing) simp_all
  with be_nat_less [of u] show ?thesis by (intro unat_nat32) (rule less_le_trans)
qed

lemma octet_bits: "byte_bits (ucast (drop_bit k (w :: uint32))) = nat_bl 8 (unat w div 2 ^ k)"
  unfolding ucast_byte unat_drop_bit by (rule byte_bits_of_nat)

lemma bits_of_char_octets: "char_width bpc \<Longrightarrow> bits_of (char_octets bpc w) = nat_bl (8 * bpc) (unat w)"
  using octet_bits [of 0 w] octet_bits [of _ w] nat_bl_add [of 8 8 "unat w"] nat_bl_add [of 8 16 "unat w"] nat_bl_add [of 8 24 "unat w"]
  by (auto simp: char_width_def char_octets_def)

lemma length_char_octets [simp]: "length (char_octets bpc w) = bpc"
  by (simp add: char_octets_def)

lemma char_octets_be_nat:
  assumes "char_width bpc" "length u = bpc"
  shows "char_octets bpc (word_of_nat (be_nat u)) = u"
proof -
  have "bits_of (char_octets bpc (word_of_nat (be_nat u))) = bits_of u"
    using assms char_widthD [OF assms(1)] nat_bl_bl_nat [of "bits_of u" "8 * bpc"]
    by (simp add: bits_of_char_octets be_nat_word) (simp add: be_nat_def)
  then show ?thesis using assms(2) by (simp add: bits_of_inject)
qed

lemma unat_or_four:
  fixes a b c d :: byte
  shows "unat (push_bit 24 (ucast a) OR push_bit 16 (ucast b) OR push_bit 8 (ucast c) OR ucast d :: uint32) = be_nat [a, b, c, d]"
proof -
  have bound: "be_nat [b, c, d] < 2 ^ 24" using be_nat_less [of "[b, c, d]"] by simp
  have "unat (push_bit 24 (ucast a) OR (push_bit 16 (ucast b) OR push_bit 8 (ucast c) OR ucast d) :: uint32) = be_nat [a, b, c, d]"
    using unat_or_octets(2) [of b c d, folded be_nat_def] bound unat_byte_less [of a]
    by (subst unat_or_shift) (simp_all add: unat_ucast_byte del: unat_byte_less)
  then show ?thesis by (simp only: or.assoc)
qed

lemma char_value_be_nat:
  assumes "char_width bpc" "length u = bpc"
  shows "char_value bpc (u @ rest) = Some (word_of_nat (be_nat u))"
proof -
  have eq: "w = word_of_nat (be_nat u)" if "unat w = be_nat u" for w :: uint32
    using that by (metis of_nat_unat_id)
  consider a where "u = [a]" "bpc = 1" | a b where "u = [a, b]" "bpc = 2" | a b c d where "u = [a, b, c, d]" "bpc = 4"
    using assms by (auto simp: char_width_def numeral_eq_Suc length_Suc_conv)
  then show ?thesis
  proof cases
    case 1
    then show ?thesis by (simp add: char_value_def eq unat_ucast_byte)
  next
    case 2
    then show ?thesis using eq unat_or_octets(1) [of a b, folded be_nat_def] by (simp add: char_value_def)
  next
    case 3
    then show ?thesis using eq unat_or_four [of a b c d] by (simp add: char_value_def)
  qed
qed

text \<open>The number a character is coded as, and the characters a constraint can code.\<close>

definition char_index :: "int \<Rightarrow> intmax \<Rightarrow> intmax \<Rightarrow> asn_per_constraints option \<Rightarrow> nat \<Rightarrow> nat" where
  "char_index unit_bits lb ub pc v =
     (if coded_as_is ub unit_bits then v
      else case Option.bind pc pc_value2code of Some f \<Rightarrow> nat (f v) | None \<Rightarrow> nat (int v - sint lb))"

definition char_ok :: "nat \<Rightarrow> int \<Rightarrow> intmax \<Rightarrow> intmax \<Rightarrow> asn_per_constraints option \<Rightarrow> byte list \<Rightarrow> bool" where
  "char_ok bpc unit_bits lb ub pc u \<longleftrightarrow> length u = bpc \<and>
     (let v = be_nat u
      in if coded_as_is ub unit_bits
         then unit_bits = 8 * int bpc \<or>
           (1 \<le> unit_bits \<and> unit_bits \<le> 31 \<and> v < 2 ^ nat unit_bits \<and> int v \<le> sint ub)
         else case (Option.bind pc pc_value2code, Option.bind pc pc_code2value) of
             (Some f, Some g) \<Rightarrow> 1 \<le> unit_bits \<and> unit_bits \<le> 16 \<and> (lb = 0 \<longrightarrow> unit_bits \<noteq> 8 * int bpc) \<and>
               0 \<le> f v \<and> f v < 2 ^ nat unit_bits \<and> g (nat (f v)) = int v
           | (None, None) \<Rightarrow> 1 \<le> unit_bits \<and> unit_bits \<le> 31 \<and> (lb = 0 \<longrightarrow> unit_bits \<noteq> 8 * int bpc) \<and>
               0 \<le> sint lb \<and> sint lb \<le> int v \<and> int v \<le> sint ub \<and> int v - sint lb < 2 ^ nat unit_bits \<and> v < 2 ^ 31
           | _ \<Rightarrow> False)"

definition char_code :: "int \<Rightarrow> intmax \<Rightarrow> intmax \<Rightarrow> asn_per_constraints option \<Rightarrow> byte list \<Rightarrow> bool list" where
  "char_code unit_bits lb ub pc u = nat_bl (nat unit_bits) (char_index unit_bits lb ub pc (be_nat u))"

lemma sint_small32: "0 \<le> x \<Longrightarrow> x < 2 ^ 31 \<Longrightarrow> sint (word_of_int x :: uint32) = x"
  by (simp add: sint_sbintrunc' signed_take_bit_int_eq_self)

lemma uint_be_nat: "length u \<le> 4 \<Longrightarrow> uint (word_of_nat (be_nat u) :: uint32) = int (be_nat u)"
  by (metis be_nat_word uint_nat)

definition shifted_ok :: "intmax \<Rightarrow> intmax \<Rightarrow> nat \<Rightarrow> nat \<Rightarrow> byte list \<Rightarrow> bool" where
  "shifted_ok lb ub bpc n u \<longleftrightarrow> length u = bpc \<and> sint lb \<le> int (be_nat u) \<and> int (be_nat u) \<le> sint ub \<and>
     0 \<le> sint lb \<and> int (be_nat u) - sint lb < 2 ^ n \<and> be_nat u < 2 ^ 31"

abbreviation shifted_code :: "intmax \<Rightarrow> nat \<Rightarrow> byte list \<Rightarrow> bool list" where
  "shifted_code lb n u \<equiv> nat_bl n (nat (int (be_nat u) - sint lb))"

lemma put_shifted_writes:
  assumes "char_width bpc" "n \<le> 31" "list_all (shifted_ok lb ub bpc n) us"
  shows "writes (put_shifted_characters lb (ub - lb) bpc (int n) (length us) (concat us @ rest)) (concat (map (shifted_code lb n) us))"
  using assms(3)
proof (induction us)
  case Nil
  then show ?case by (auto intro: writesI puts_refl)
next
  case (Cons u us)
  then have u: "length u = bpc" "0 \<le> int (be_nat u) - sint lb" "int (be_nat u) - sint lb < 2 ^ 31"
    "int (be_nat u) - sint lb \<le> sint ub - sint lb" "0 \<le> sint lb" "sint lb \<le> sint ub"
    by (auto simp: shifted_ok_def)
  have diff: "sint (ub - lb) = sint ub - sint lb"
    using u(5,6) sint_bounds64 [of ub] by (simp add: sint_word_ariths signed_take_bit_int_eq_self)
  have "put_shifted_characters lb (ub - lb) bpc (int n) (length (u # us)) (concat (u # us) @ rest) =
    then_put (\<lambda>po. asn_put_few_bits po (word_of_int (int (be_nat u) - sint lb)) (int n))
      (put_shifted_characters lb (ub - lb) bpc (int n) (length us) (concat us @ rest))"
    using u char_value_be_nat [OF assms(1) u(1)] char_widthD [OF assms(1)] sint_small32 [OF u(2,3)] diff
    by (simp add: fun_eq_iff then_put_def uint_be_nat split_beta)
  with then_put_writes [OF few_int_writes [OF assms(2) u(2)] Cons.IH] Cons.prems show ?case by simp
qed

lemma get_shifted_reads:
  assumes "char_width bpc" "n \<le> 31" "list_all (shifted_ok lb ub bpc n) us"
  shows "reads (get_shifted_characters lb ub bpc (int n) (length us)) (concat (map (shifted_code lb n) us)) (0, concat us)"
  using assms(3)
proof (induction us)
  case Nil
  then show ?case using reads_return [of "(0, [])"] by simp
next
  case (Cons u us)
  then have u: "length u = bpc" "sint lb \<le> int (be_nat u)" "int (be_nat u) \<le> sint ub" "be_nat u < 2 ^ 31"
    "int (be_nat u) - sint lb < 2 ^ n" by (auto simp: shifted_ok_def)
  let ?c = "nat (int (be_nat u) - sint lb)"
  have c: "?c < 2 ^ n" using u(2,5) by (simp add: nat_less_iff)
  have few: "reads (\<lambda>pd. asn_get_few_bits pd (int n)) (shifted_code lb n u) (int ?c)"
    using few_bits_at [OF assms(2), of ?c] c by simp
  let ?rec = "get_shifted_characters lb ub bpc (int n) (length us)"
  have rest: "reads (\<lambda>pd1. case ?rec pd1 of ((r, bs), pd2) \<Rightarrow> ((r, u @ bs), pd2)) (concat (map (shifted_code lb n) us)) (0, u @ concat us)"
    by (rule reads_map [where h = "\<lambda>(r, bs). (r, u @ bs)" and f = ?rec])
      (use Cons in \<open>auto simp: fun_eq_iff split_beta\<close>)
  have ch: "char_octets bpc (word_of_int (int (be_nat u))) = u" using char_octets_be_nat [OF assms(1) u(1)] by simp
  have s: "sint (word_of_int (int (be_nat u)) :: uint32) = int (be_nat u)" using u(4) by (intro sint_small32) simp_all
  show ?case
    by (rule reads_then [where g = "\<lambda>code pd1. let ch = (word_of_int (code + sint lb) :: uint32)
        in if code < 0 then ((-1, []), pd1)
           else if sint ch > sint ub then ((1, []), pd1)
           else case ?rec pd1 of ((r, bs), pd2) \<Rightarrow> ((r, char_octets bpc ch @ bs), pd2)", OF few])
      (use rest ch s u(2,3) in \<open>simp_all add: Let_def fun_eq_iff\<close>)
qed

lemma put_mapped_writes:
  assumes "char_width bpc" "n \<le> 31" "list_all (\<lambda>u. length u = bpc \<and> 0 \<le> f (be_nat u)) us"
  shows "writes (put_mapped_characters f bpc (int n) (length us) (concat us @ rest)) (concat (map (\<lambda>u. nat_bl n (nat (f (be_nat u)))) us))"
  using assms(3)
proof (induction us)
  case Nil
  then show ?case by (auto intro: writesI puts_refl)
next
  case (Cons u us)
  then have u: "length u = bpc" "0 \<le> f (be_nat u)" by auto
  have "put_mapped_characters f bpc (int n) (length (u # us)) (concat (u # us) @ rest) =
    then_put (\<lambda>po. asn_put_few_bits po (word_of_int (f (be_nat u))) (int n))
      (put_mapped_characters f bpc (int n) (length us) (concat us @ rest))"
    using u char_value_be_nat [OF assms(1) u(1)] be_nat_word [of u] char_widthD [OF assms(1)]
    by (simp add: fun_eq_iff then_put_def split_beta)
  with then_put_writes [OF few_int_writes [OF assms(2) u(2)] Cons.IH] Cons.prems show ?case by simp
qed

lemma get_mapped_reads:
  assumes "char_width bpc" "n \<le> 31"
    "list_all (\<lambda>u. length u = bpc \<and> 0 \<le> f (be_nat u) \<and> f (be_nat u) < 2 ^ n \<and> g (nat (f (be_nat u))) = int (be_nat u)) us"
  shows "reads (get_mapped_characters g bpc (int n) (length us)) (concat (map (\<lambda>u. nat_bl n (nat (f (be_nat u)))) us)) (0, concat us)"
  using assms(3)
proof (induction us)
  case Nil
  then show ?case using reads_return [of "(0, [])"] by simp
next
  case (Cons u us)
  then have u: "length u = bpc" "0 \<le> f (be_nat u)" "f (be_nat u) < 2 ^ n" "g (nat (f (be_nat u))) = int (be_nat u)" by auto
  let ?c = "nat (f (be_nat u))"
  have few: "reads (\<lambda>pd. asn_get_few_bits pd (int n)) (nat_bl n ?c) (int ?c)"
    using few_bits_at [OF assms(2), of ?c] u(2,3) by (simp add: nat_less_iff)
  let ?rec = "get_mapped_characters g bpc (int n) (length us)"
  have rest: "reads (\<lambda>pd1. case ?rec pd1 of ((r, bs), pd2) \<Rightarrow> ((r, u @ bs), pd2)) (concat (map (\<lambda>u. nat_bl n (nat (f (be_nat u)))) us)) (0, u @ concat us)"
    by (rule reads_map [where h = "\<lambda>(r, bs). (r, u @ bs)" and f = ?rec])
      (use Cons in \<open>auto simp: fun_eq_iff split_beta\<close>)
  have ch: "char_octets bpc (word_of_int (int (be_nat u))) = u" using char_octets_be_nat [OF assms(1) u(1)] by simp
  show ?case
    by (rule reads_then [where g = "\<lambda>code pd1. if code < 0 then ((-1, []), pd1)
        else let value = g (nat code)
          in if value < 0 then ((1, []), pd1)
             else case ?rec pd1 of ((r, bs), pd2) \<Rightarrow> ((r, char_octets bpc (word_of_int value) @ bs), pd2)", OF few])
      (use rest ch u(2,4) in \<open>simp_all add: Let_def fun_eq_iff\<close>)
qed

lemma length_concat_chars: "list_all (\<lambda>u. length u = bpc) us \<Longrightarrow> length (concat us) = length us * bpc"
  by (induction us) auto

lemma bits_of_concat: "bits_of (concat us) = concat (map bits_of us)"
  by (induction us) simp_all

lemma bits_of_char: "bits_of u = nat_bl (8 * length u) (be_nat u)"
  using nat_bl_bl_nat [of "bits_of u"] by (simp add: be_nat_def)

text \<open>The three ways a character is coded.\<close>

lemma char_ok_cases:
  assumes "char_ok bpc unit_bits lb ub pc u"
  obtains (octets) "coded_as_is ub unit_bits" "unit_bits = 8 * int bpc"
  | (plain) "coded_as_is ub unit_bits" "unit_bits \<noteq> 8 * int bpc" "1 \<le> unit_bits" "unit_bits \<le> 31"
  | (mapped) f g where "\<not> coded_as_is ub unit_bits" "Option.bind pc pc_value2code = Some f" "Option.bind pc pc_code2value = Some g"
      "1 \<le> unit_bits" "unit_bits \<le> 16" "lb = 0 \<longrightarrow> unit_bits \<noteq> 8 * int bpc"
  | (shifted) "\<not> coded_as_is ub unit_bits" "Option.bind pc pc_value2code = None" "Option.bind pc pc_code2value = None"
      "1 \<le> unit_bits" "unit_bits \<le> 31" "lb = 0 \<longrightarrow> unit_bits \<noteq> 8 * int bpc"
  using assms
  by (cases "Option.bind pc pc_value2code"; cases "Option.bind pc pc_code2value"; cases "unit_bits = 8 * int bpc")
    (auto simp: char_ok_def Let_def split: if_splits)

lemma char_ok_octets:
  assumes "list_all (char_ok bpc unit_bits lb ub pc) us" "coded_as_is ub unit_bits" "unit_bits = 8 * int bpc"
  shows "list_all (\<lambda>u. length u = bpc) us" "concat (map (char_code unit_bits lb ub pc) us) = bits_of (concat us)"
proof -
  show "list_all (\<lambda>u. length u = bpc) us" using assms(1) by (simp add: list_all_iff char_ok_def)
  then have "map (char_code unit_bits lb ub pc) us = map bits_of us"
    using assms(2,3) by (auto simp: list_all_iff char_code_def char_index_def bits_of_char nat_mult_distrib)
  then show "concat (map (char_code unit_bits lb ub pc) us) = bits_of (concat us)" by (simp only: bits_of_concat)
qed

lemma char_ok_plain:
  assumes "list_all (char_ok bpc (int n) lb ub pc) us" "coded_as_is ub (int n)" "n \<noteq> 8 * bpc"
  shows "list_all (shifted_ok 0 ub bpc n) us" "map (char_code (int n) lb ub pc) us = map (shifted_code 0 n) us"
proof -
  have "be_nat u < 2 ^ 31" if "be_nat u < 2 ^ n" "n \<le> 31" for u
    using that power_increasing [of n 31 "2::nat"] by linarith
  then show "list_all (shifted_ok 0 ub bpc n) us"
    using assms(1,2,3) by (auto simp: list_all_iff char_ok_def Let_def shifted_ok_def of_nat_less_numeral_power_cancel_iff)
  show "map (char_code (int n) lb ub pc) us = map (shifted_code 0 n) us"
    using assms(2) by (simp add: char_code_def char_index_def)
qed

lemma char_ok_shifted:
  assumes "list_all (char_ok bpc (int n) lb ub pc) us" "\<not> coded_as_is ub (int n)"
    "Option.bind pc pc_value2code = None" "Option.bind pc pc_code2value = None"
  shows "list_all (shifted_ok lb ub bpc n) us" "map (char_code (int n) lb ub pc) us = map (shifted_code lb n) us"
  using assms by (auto simp: list_all_iff char_ok_def Let_def shifted_ok_def char_code_def char_index_def)

lemma char_ok_mapped:
  assumes "list_all (char_ok bpc (int n) lb ub pc) us" "\<not> coded_as_is ub (int n)"
    "Option.bind pc pc_value2code = Some f" "Option.bind pc pc_code2value = Some g"
  shows "list_all (\<lambda>u. length u = bpc \<and> 0 \<le> f (be_nat u)) us"
    "list_all (\<lambda>u. length u = bpc \<and> 0 \<le> f (be_nat u) \<and> f (be_nat u) < 2 ^ n \<and> g (nat (f (be_nat u))) = int (be_nat u)) us"
    "map (char_code (int n) lb ub pc) us = map (\<lambda>u. nat_bl n (nat (f (be_nat u)))) us"
  using assms by (auto simp: list_all_iff char_ok_def Let_def char_code_def char_index_def)

lemma few_bits_width:
  assumes "1 \<le> b" "b \<le> 31"
  obtains n where "b = int n" "n \<le> 31"
  using that [of "nat b"] assms by simp

lemma put_all_characters:
  assumes "char_width bpc" "list_all (char_ok bpc unit_bits lb ub pc) us"
  shows "writes (OCTET_STRING_per_put_characters (length us) (concat us @ rest) bpc unit_bits lb ub pc)
    (concat (map (char_code unit_bits lb ub pc) us))"
proof (cases us)
  case Nil
  then have "OCTET_STRING_per_put_characters (length us) (concat us @ rest) bpc unit_bits lb ub pc = (\<lambda>po. (0, po))"
    by (simp add: fun_eq_iff OCTET_STRING_per_put_characters_def put_plain_characters_def asn_put_many_bits.simps split: option.split)
  with Nil show ?thesis by (auto intro: writesI puts_refl)
next
  case (Cons v vs)
  then have "char_ok bpc unit_bits lb ub pc v" using assms(2) by simp
  then show ?thesis
  proof (cases rule: char_ok_cases)
    case octets
    note c = char_ok_octets [OF assms(2) octets]
    have "writes (\<lambda>po. asn_put_many_bits po (concat us @ rest) (8 * int (length us * bpc))) (bits_of (concat us))"
      using asn_put_octets_ok [of _ "length us * bpc" "concat us @ rest"] length_concat_chars [OF c(1)]
      by (intro writesI) simp
    with c octets show ?thesis
      by (simp add: OCTET_STRING_per_put_characters_def [abs_def] put_plain_characters_def [abs_def] ac_simps)
  next
    case plain
    then obtain n where n: "unit_bits = int n" "n \<le> 31" "n \<noteq> 8 * bpc" by (auto elim: few_bits_width)
    note c = char_ok_plain [OF assms(2) [unfolded n(1)] plain(1) [unfolded n(1)] n(3)]
    have "OCTET_STRING_per_put_characters (length us) (concat us @ rest) bpc unit_bits lb ub pc = put_shifted_characters 0 (ub - 0) bpc (int n) (length us) (concat us @ rest)"
      using plain n(1) by (auto simp: fun_eq_iff OCTET_STRING_per_put_characters_def put_plain_characters_def)
    with put_shifted_writes [OF assms(1) n(2) c(1), of rest] c(2) n(1) show ?thesis by (simp only:)
  next
    case (mapped f g)
    then obtain n where n: "unit_bits = int n" "n \<le> 31" by (auto elim: few_bits_width)
    note c = char_ok_mapped [OF assms(2) [unfolded n(1)] mapped(1) [unfolded n(1)] mapped(2,3)]
    have "OCTET_STRING_per_put_characters (length us) (concat us @ rest) bpc unit_bits lb ub pc =
      (\<lambda>po. case put_mapped_characters f bpc (int n) (length us) (concat us @ rest) po of (r, po') \<Rightarrow> (if r \<noteq> 0 then -1 else 0, po'))"
      using mapped n(1) by (auto simp: fun_eq_iff OCTET_STRING_per_put_characters_def split_beta)
    with writes_status [OF put_mapped_writes [OF assms(1) n(2) c(1), of rest]] c(3) n(1) show ?thesis by (simp cong: map_cong)
  next
    case shifted
    then obtain n where n: "unit_bits = int n" "n \<le> 31" by (auto elim: few_bits_width)
    note c = char_ok_shifted [OF assms(2) [unfolded n(1)] shifted(1) [unfolded n(1)] shifted(2,3)]
    have "OCTET_STRING_per_put_characters (length us) (concat us @ rest) bpc unit_bits lb ub pc = put_shifted_characters lb (ub - lb) bpc (int n) (length us) (concat us @ rest)"
      using shifted n(1) by (auto simp: fun_eq_iff OCTET_STRING_per_put_characters_def put_plain_characters_def)
    with put_shifted_writes [OF assms(1) n(2) c(1), of rest] c(2) n(1) show ?thesis by (simp only:)
  qed
qed

lemma get_all_characters:
  assumes "char_width bpc" "list_all (char_ok bpc unit_bits lb ub pc) us" "us \<noteq> []"
  shows "reads (OCTET_STRING_per_get_characters (length us) bpc unit_bits lb ub pc)
    (concat (map (char_code unit_bits lb ub pc) us)) (0, concat us)"
proof -
  obtain v where "char_ok bpc unit_bits lb ub pc v" using assms(2,3) by (cases us) auto
  then show ?thesis
  proof (cases rule: char_ok_cases)
    case octets
    note c = char_ok_octets [OF assms(2) octets]
    have "reads (\<lambda>pd. case asn_get_many_bits pd False (8 * int (length us * bpc)) of (r, bs, pd') \<Rightarrow> ((r, bs), pd'))
        (bits_of (concat us)) (0, concat us)"
      using octets.dec_reads [OF length_concat_chars [OF c(1)]] .
    with c octets show ?thesis
      by (simp add: OCTET_STRING_per_get_characters_def [abs_def] get_plain_characters_def [abs_def] ac_simps)
  next
    case plain
    then obtain n where n: "unit_bits = int n" "n \<le> 31" "n \<noteq> 8 * bpc" by (auto elim: few_bits_width)
    note c = char_ok_plain [OF assms(2) [unfolded n(1)] plain(1) [unfolded n(1)] n(3)]
    have "OCTET_STRING_per_get_characters (length us) bpc unit_bits lb ub pc = get_shifted_characters 0 ub bpc (int n) (length us)"
      using plain n(1) by (auto simp: fun_eq_iff OCTET_STRING_per_get_characters_def get_plain_characters_def)
    with get_shifted_reads [OF assms(1) n(2) c(1)] c(2) n(1) show ?thesis by (simp only:)
  next
    case (mapped f g)
    then obtain n where n: "unit_bits = int n" "n \<le> 31" by (auto elim: few_bits_width)
    note c = char_ok_mapped [OF assms(2) [unfolded n(1)] mapped(1) [unfolded n(1)] mapped(2,3)]
    from get_mapped_reads [OF assms(1) n(2) c(2)] c(3) mapped n show ?thesis
      by (simp add: OCTET_STRING_per_get_characters_def [abs_def] cong: map_cong)
  next
    case shifted
    then obtain n where n: "unit_bits = int n" "n \<le> 31" by (auto elim: few_bits_width)
    note c = char_ok_shifted [OF assms(2) [unfolded n(1)] shifted(1) [unfolded n(1)] shifted(2,3)]
    have "OCTET_STRING_per_get_characters (length us) bpc unit_bits lb ub pc = get_shifted_characters lb ub bpc (int n) (length us)"
      using shifted n(1) by (auto simp: fun_eq_iff OCTET_STRING_per_get_characters_def get_plain_characters_def)
    with get_shifted_reads [OF assms(1) n(2) c(1)] c(2) n(1) show ?thesis by (simp only:)
  qed
qed

section \<open>The decoder stays inside its stream\<close>

lemma safe_mapped [safe]: "safe_get (get_mapped_characters f bpc ub n)"
  by (induction n) (simp_all add: safe Let_def)

lemma safe_shifted [safe]: "safe_get (get_shifted_characters lb ub bpc n k)"
  by (induction k) (simp_all add: safe Let_def)

lemma safe_per_get_characters [safe]: "safe_get (OCTET_STRING_per_get_characters units bpc ubits lb ub pc)"
  unfolding OCTET_STRING_per_get_characters_def [abs_def] get_plain_characters_def [abs_def] by (intro safe)

lemma safe_octet_chunk [safe]: "safe_get (octet_chunk bpc ubits cval pc k st)"
  unfolding octet_chunk_def [abs_def] by (intro safe)

lemma safe_OCTET_STRING [safe]: "safe_get (OCTET_STRING_decode_uper specs tc c)"
  unfolding OCTET_STRING_decode_uper_def [abs_def] OCTET_STRING_decode_body_def [abs_def] by (intro safe)

section \<open>The wire format of OCTET STRING\<close>

text \<open>The width of a unit is usable for a table of characters.\<close>

definition units_ok :: "int \<Rightarrow> intmax \<Rightarrow> asn_per_constraints option \<Rightarrow> bool" where
  "units_ok unit_bits ub pc \<longleftrightarrow> coded_as_is ub unit_bits \<or> Option.bind pc pc_code2value = None \<or> (0 \<le> unit_bits \<and> unit_bits \<le> 16)"

lemma get_no_characters:
  "units_ok unit_bits ub pc \<Longrightarrow> OCTET_STRING_per_get_characters 0 bpc unit_bits lb ub pc pd = ((0, []), pd)"
  by (auto simp: units_ok_def OCTET_STRING_per_get_characters_def get_plain_characters_def asn_get_many_bits_def
      asn_get_bits_loop.simps split: option.split)

lemma get_characters_reads:
  assumes "char_width bpc" "units_ok unit_bits ub pc" "list_all (char_ok bpc unit_bits lb ub pc) us"
  shows "reads (OCTET_STRING_per_get_characters (length us) bpc unit_bits lb ub pc)
    (concat (map (char_code unit_bits lb ub pc) us)) (0, concat us)"
proof (cases "us = []")
  case True
  have "OCTET_STRING_per_get_characters 0 bpc unit_bits lb ub pc = (\<lambda>pd. ((0, []), pd))"
    by (rule ext) (rule get_no_characters [OF assms(2)])
  with True show ?thesis using reads_return [of "(0, [])"] by simp
qed (rule get_all_characters [OF assms(1,3)])

interpretation octet_writer: fragment_writer "\<lambda>k d. OCTET_STRING_per_put_characters k d bpc unit_bits lb ub pc"
  "\<lambda>k. drop (k * bpc)" "\<lambda>d cs. \<exists>us. char_width bpc \<and> list_all (char_ok bpc unit_bits lb ub pc) us \<and>
     d = concat us \<and> cs = map (char_code unit_bits lb ub pc) us" for bpc unit_bits lb ub pc
proof (unfold_locales, goal_cases)
  case (1 d cs k)
  then obtain us where us: "char_width bpc" "list_all (char_ok bpc unit_bits lb ub pc) us" "d = concat us"
    "cs = map (char_code unit_bits lb ub pc) us" "k \<le> length us" by auto
  have "list_all (char_ok bpc unit_bits lb ub pc) (take k us)" using us(2) by (metis append_take_drop_id list_all_append)
  from put_all_characters [OF us(1) this, of "concat (drop k us)"] us(3-) show ?case
    by (simp add: take_map flip: concat_append)
next
  case (2 d cs k)
  then obtain us where us: "char_width bpc" "list_all (char_ok bpc unit_bits lb ub pc) us" "d = concat us"
    "cs = map (char_code unit_bits lb ub pc) us" "k \<le> length us" by auto
  have ok: "list_all (char_ok bpc unit_bits lb ub pc) (take k us)" "list_all (char_ok bpc unit_bits lb ub pc) (drop k us)"
    using us(2) by (metis append_take_drop_id list_all_append)+
  then have "length (concat (take k us)) = k * bpc"
    using length_concat_chars [of bpc "take k us"] us(5) by (simp add: list_all_iff char_ok_def)
  then have "drop (k * bpc) d = concat (drop k us)"
    using us(3) by (metis append_eq_conv_conj append_take_drop_id concat_append)
  with ok(2) us(1,4) show ?case by (auto simp: drop_map)
qed

interpretation octet_reader: fragment_reader "octet_chunk bpc unit_bits cval pc" "\<lambda>us. Some (concat us)"
  "char_code unit_bits (lower_bound cval) (upper_bound cval) pc"
  "\<lambda>u. char_width bpc \<and> char_ok bpc unit_bits (lower_bound cval) (upper_bound cval) pc u" for bpc unit_bits cval pc
proof (unfold_locales, goal_cases)
  case (1 k a)
  show ?case by (rule safe_octet_chunk)
next
  case (2 us vs)
  show ?case
  proof (cases "vs = []")
    case True
    then show ?thesis using reads_return [of "RC_OK (Some (concat us)) 0"] by (simp add: octet_chunk_def [abs_def]) blast
  next
    case False
    with 2 have "char_width bpc" "list_all (char_ok bpc unit_bits (lower_bound cval) (upper_bound cval) pc) vs"
      by (cases vs; simp add: list_all_iff)+
    from get_all_characters [OF this False]
    have "reads (octet_chunk bpc unit_bits cval pc (length vs) (Some (concat us)))
      (concat (map (char_code unit_bits (lower_bound cval) (upper_bound cval) pc) vs)) (RC_OK (Some (concat us @ concat vs)) 0)"
      by (rule reads_map [where h = "\<lambda>(ret, bs). if ret > 0 then RC_FAIL else if ret < 0 then RC_WMORE
            else RC_OK (Some (concat us @ bs)) 0"])
        (use False in \<open>auto simp: fun_eq_iff octet_chunk_def split_beta\<close>)
    then show ?thesis by auto
  qed
qed

lemma octet_fragments_None:
  assumes "units_ok unit_bits (upper_bound cval) pc"
  shows "get_fragments (octet_chunk bpc unit_bits cval pc) ebits lb None = get_fragments (octet_chunk bpc unit_bits cval pc) ebits lb (Some [])"
proof -
  have "octet_chunk bpc unit_bits cval pc k None pd = octet_chunk bpc unit_bits cval pc k (Some []) pd" for k pd
    using get_no_characters [OF assms] by (simp add: octet_chunk_def split_beta)
  then show ?thesis by (intro ext) (simp only: get_fragments.simps [where acc = None] get_fragments.simps [where acc = "Some []"])
qed

definition octets_out :: "asn_per_constraint \<Rightarrow> nat \<Rightarrow> bool" where
  "octets_out csiz n \<longleftrightarrow> effective_bits csiz \<ge> 0 \<and> (int n < sint (lower_bound csiz) \<or> int n > sint (upper_bound csiz))"

definition size_ok :: "asn_per_constraint \<Rightarrow> bool" where
  "size_ok csiz \<longleftrightarrow> (effective_bits csiz \<ge> 0 \<longrightarrow> effective_bits csiz \<le> 16 \<and> 0 \<le> sint (lower_bound csiz) \<and>
     sint (lower_bound csiz) \<le> sint (upper_bound csiz) \<and>
     sint (upper_bound csiz) - sint (lower_bound csiz) < 2 ^ nat (effective_bits csiz))"

definition unit_width :: "asn_per_constraints option \<Rightarrow> nat \<Rightarrow> nat \<Rightarrow> int" where
  "unit_width pc bpc n =
     (if octets_out (pc_size (octet_constraints pc)) n then 8 * int bpc
      else character_bits (pc_value (octet_constraints pc)) bpc)"

definition octets_ok :: "asn_per_constraints option \<Rightarrow> nat \<Rightarrow> byte list list \<Rightarrow> bool" where
  "octets_ok pc bpc us \<longleftrightarrow>
     (let cval = pc_value (octet_constraints pc); csiz = pc_size (octet_constraints pc); w = unit_width pc bpc (length us)
      in char_width bpc \<and> size_ok csiz \<and> (octets_out csiz (length us) \<longrightarrow> apc_extensible csiz) \<and>
         units_ok w (upper_bound cval) pc \<and> list_all (char_ok bpc w (lower_bound cval) (upper_bound cval) pc) us)"

definition octets_code :: "asn_per_constraints option \<Rightarrow> nat \<Rightarrow> byte list list \<Rightarrow> bool list" where
  "octets_code pc bpc us =
     (let cval = pc_value (octet_constraints pc); csiz = pc_size (octet_constraints pc); n = length us;
          cs = map (char_code (unit_width pc bpc n) (lower_bound cval) (upper_bound cval) pc) us
      in (if apc_extensible csiz then [octets_out csiz n] else []) @
         (if effective_bits csiz \<ge> 0 \<and> \<not> octets_out csiz n
          then nat_bl (nat (effective_bits csiz)) (n - nat (sint (lower_bound csiz))) @ concat cs
          else unit_frags cs))"

definition octets_consumed :: "asn_per_constraints option \<Rightarrow> nat \<Rightarrow> nat \<Rightarrow> nat" where
  "octets_consumed pc bpc n =
     (let csiz = pc_size (octet_constraints pc)
      in if effective_bits csiz = 0 \<and> \<not> octets_out csiz n then nat (unit_width pc bpc n * sint (upper_bound csiz)) else 0)"


lemma concat_units:
  assumes "octets_ok pc bpc us"
  shows "length (concat us) mod bpc = 0" "length (concat us) div bpc = length us" "char_width bpc"
proof -
  have "list_all (\<lambda>u. length u = bpc) us" "char_width bpc"
    using assms by (auto simp: octets_ok_def Let_def list_all_iff char_ok_def)
  then show "length (concat us) mod bpc = 0" "length (concat us) div bpc = length us" "char_width bpc"
    using length_concat_chars [of bpc us] char_widthD by auto
qed

lemma put_sized_octets_writes:
  assumes "char_width bpc" "list_all (char_ok bpc w (lower_bound cval) (upper_bound cval) pc) us"
    "size_ok csiz" "effective_bits csiz \<ge> 0" "\<not> octets_out csiz (length us)"
  shows "writes (put_sized_octets bpc w cval csiz pc (length us) (concat us))
    (nat_bl (nat (effective_bits csiz)) (length us - nat (sint (lower_bound csiz))) @
     concat (map (char_code w (lower_bound cval) (upper_bound cval) pc) us))"
proof -
  let ?n = "int (length us) - sint (lower_bound csiz)"
  have n: "0 \<le> ?n" "0 \<le> sint (lower_bound csiz)" using assms(3-5) by (auto simp: octets_out_def size_ok_def)
  then have nat: "nat ?n = length us - nat (sint (lower_bound csiz))" by (simp add: nat_diff_distrib)
  have k: "nat (effective_bits csiz) \<le> 31" using assms(3,4) by (simp add: size_ok_def nat_le_iff)
  have few: "writes (\<lambda>po. asn_put_few_bits po (word_of_int ?n) (effective_bits csiz)) (nat_bl (nat (effective_bits csiz)) (nat ?n))"
    using few_int_writes [OF k n(1)] assms(4) by simp
  have "put_sized_octets bpc w cval csiz pc (length us) (concat us) =
    then_put (\<lambda>po. asn_put_few_bits po (word_of_int ?n) (effective_bits csiz))
      (\<lambda>po. case OCTET_STRING_per_put_characters (length us) (concat us) bpc w (lower_bound cval) (upper_bound cval) pc po
        of (r, po') \<Rightarrow> (if r \<noteq> 0 then -1 else 0, po'))"
    by (auto simp: fun_eq_iff put_sized_octets_def then_put_def split_beta)
  with then_put_writes [OF few writes_status [OF put_all_characters [OF assms(1,2), of "[]"]]] nat
  show ?thesis by simp
qed

lemma OCTET_STRING_encode_writes:
  assumes "bytes_per_character specs = Some bpc" "octets_ok (per_constraints tc c) bpc us"
  shows "writes (OCTET_STRING_encode_uper specs tc c (Some (Some (concat us)))) (octets_code (per_constraints tc c) bpc us)"
proof -
  define pc where "pc = per_constraints tc c"
  define cval where "cval = pc_value (octet_constraints pc)"
  define csiz where "csiz = pc_size (octet_constraints pc)"
  define w where "w = unit_width pc bpc (length us)"
  let ?out = "octets_out csiz (length us)" and ?cs = "map (char_code w (lower_bound cval) (upper_bound cval) pc) us"
  have ok: "char_width bpc" "size_ok csiz" "?out \<longrightarrow> apc_extensible csiz"
    "list_all (char_ok bpc w (lower_bound cval) (upper_bound cval) pc) us"
    using assms(2) by (simp_all add: octets_ok_def Let_def pc_def cval_def csiz_def w_def)
  define body where "body = (if effective_bits csiz \<ge> 0 \<and> \<not> ?out then put_sized_octets bpc w cval csiz pc (length us) (concat us)
    else put_octet_fragments bpc w cval pc (length us) (concat us))"
  define bits where "bits = (if effective_bits csiz \<ge> 0 \<and> \<not> ?out
      then nat_bl (nat (effective_bits csiz)) (length us - nat (sint (lower_bound csiz))) @ concat ?cs else unit_frags ?cs)"
  have "writes (put_octet_fragments bpc w cval pc (length us) (concat us)) (unit_frags ?cs)"
    using octet_writer.put_fragments_writes [of bpc w "lower_bound cval" "upper_bound cval" pc "concat us" ?cs] ok(1,4)
    unfolding put_octet_fragments_def by auto
  with put_sized_octets_writes [OF ok(1,4,2)]
  have body: "writes body bits" by (simp add: body_def bits_def)
  have code: "octets_code (per_constraints tc c) bpc us = (if apc_extensible csiz then [?out] else []) @ bits"
    by (simp only: octets_code_def Let_def bits_def w_def cval_def csiz_def pc_def)
  have enc: "OCTET_STRING_encode_uper specs tc c (Some (Some (concat us))) =
    (if apc_extensible csiz then then_put (\<lambda>po. asn_put_few_bits po (if ?out then 1 else 0) 1) body else body)"
    using assms(1) concat_units [OF assms(2)] ok(3)
    by (auto simp: fun_eq_iff OCTET_STRING_encode_uper_def then_put_def body_def w_def unit_width_def
        cval_def csiz_def pc_def octets_out_def Let_def split_beta)
  show ?thesis
    using then_put_writes [OF flag_writes [of ?out] body] body by (simp add: enc code)
qed

lemma OCTET_STRING_body_reads:
  assumes "char_width bpc" "units_ok w (upper_bound cval) pc" "list_all (char_ok bpc w (lower_bound cval) (upper_bound cval) pc) us"
    "size_ok csiz" "\<not> octets_out csiz (length us)"
  shows "reads (OCTET_STRING_decode_body bpc w cval csiz pc)
    (if effective_bits csiz \<ge> 0 then nat_bl (nat (effective_bits csiz)) (length us - nat (sint (lower_bound csiz))) @
        concat (map (char_code w (lower_bound cval) (upper_bound cval) pc) us)
     else unit_frags (map (char_code w (lower_bound cval) (upper_bound cval) pc) us))
    (RC_OK (Some (concat us)) (if effective_bits csiz = 0 then nat (w * sint (upper_bound csiz)) else 0))"
proof -
  let ?code = "char_code w (lower_bound cval) (upper_bound cval) pc"
  have us: "list_all (\<lambda>u. char_width bpc \<and> char_ok bpc w (lower_bound cval) (upper_bound cval) pc u) us"
    using assms(1,3) by (simp add: list_all_iff)
  have lb: "unat (lower_bound csiz) = nat (sint (lower_bound csiz))" if "effective_bits csiz \<ge> 0"
    using nonneg_uint [of "lower_bound csiz"] that assms(4) by (simp add: size_ok_def flip: nat_uint_eq)
  consider "effective_bits csiz < 0" | "effective_bits csiz = 0" | "effective_bits csiz > 0" by linarith
  then show ?thesis
  proof cases
    case 1
    have "OCTET_STRING_decode_body bpc w cval csiz pc =
      get_fragments (octet_chunk bpc w cval pc) (effective_bits csiz) (unat (lower_bound csiz)) (Some [])"
      using 1 octet_fragments_None [OF assms(2)] by (simp add: fun_eq_iff OCTET_STRING_decode_body_def)
    with octet_reader.get_fragments_reads [where us = "[]" and vs = us and ebits = "effective_bits csiz"] us 1 show ?thesis by simp
  next
    case 2
    then have n: "length us = unat (upper_bound csiz)" 
      using assms(4,5) nonneg_uint [of "upper_bound csiz"] by (auto simp: size_ok_def octets_out_def simp flip: nat_uint_eq)
    have "reads (OCTET_STRING_decode_body bpc w cval csiz pc) (concat (map ?code us))
        (RC_OK (Some (concat us)) (nat (w * sint (upper_bound csiz))))"
      by (rule reads_map [where h = "\<lambda>(ret, bs). if ret > 0 then RC_FAIL else if ret < 0 then RC_WMORE
            else RC_OK (Some bs) (nat (w * sint (upper_bound csiz)))", OF get_characters_reads [OF assms(1-3)]])
        (use 2 n in \<open>simp_all add: fun_eq_iff OCTET_STRING_decode_body_def split_beta\<close>)
    with 2 show ?thesis by simp
  next
    case 3
    have le: "nat (sint (lower_bound csiz)) \<le> length us"
      using assms(4,5) 3 by (auto simp: size_ok_def octets_out_def nat_le_iff)
    then have "int (length us - nat (sint (lower_bound csiz))) < int (2 ^ nat (effective_bits csiz))"
      using assms(4,5) 3 by (auto simp: size_ok_def octets_out_def of_nat_diff)
    then have "length us - nat (sint (lower_bound csiz)) < 2 ^ nat (effective_bits csiz)" by (simp only: of_nat_less_iff)
    with le octet_reader.get_sized_reads [where ebits = "effective_bits csiz" and lb = "unat (lower_bound csiz)", OF us] 3 assms(4) lb
    show ?thesis by (simp add: OCTET_STRING_decode_body_def [abs_def] size_ok_def)
  qed
qed

lemma octet_default_size:
  "size_ok (pc_size asn_DEF_OCTET_STRING_constraints)" "\<not> octets_out (pc_size asn_DEF_OCTET_STRING_constraints) n"
  "effective_bits (pc_size asn_DEF_OCTET_STRING_constraints) = -1"
  by (simp_all add: size_ok_def octets_out_def asn_DEF_OCTET_STRING_constraints_def)

lemma OCTET_STRING_decode_reads:
  assumes "bytes_per_character specs = Some bpc" "octets_ok (per_constraints tc c) bpc us"
  shows "reads (OCTET_STRING_decode_uper specs tc c) (octets_code (per_constraints tc c) bpc us)
    (RC_OK (Some (concat us)) (octets_consumed (per_constraints tc c) bpc (length us)))"
proof -
  define pc where "pc = per_constraints tc c"
  define cval where "cval = pc_value (octet_constraints pc)"
  define csiz where "csiz = pc_size (octet_constraints pc)"
  define w where "w = unit_width pc bpc (length us)"
  let ?out = "octets_out csiz (length us)" and ?cs = "map (char_code w (lower_bound cval) (upper_bound cval) pc) us"
  let ?res = "RC_OK (Some (concat us)) (octets_consumed pc bpc (length us))"
  have ok: "char_width bpc" "units_ok w (upper_bound cval) pc" "list_all (char_ok bpc w (lower_bound cval) (upper_bound cval) pc) us"
    "size_ok csiz" "?out \<longrightarrow> apc_extensible csiz"
    using assms(2) by (simp_all add: octets_ok_def Let_def pc_def cval_def csiz_def w_def)
  define bits where "bits = (if effective_bits csiz \<ge> 0 \<and> \<not> ?out
      then nat_bl (nat (effective_bits csiz)) (length us - nat (sint (lower_bound csiz))) @ concat ?cs else unit_frags ?cs)"
  define csiz' where "csiz' = (if ?out then pc_size asn_DEF_OCTET_STRING_constraints else csiz)"
  have body: "reads (OCTET_STRING_decode_body bpc w cval csiz' pc) bits ?res"
    using OCTET_STRING_body_reads [OF ok(1-3), of csiz'] octet_default_size ok(4)
    by (auto simp: csiz'_def bits_def octets_consumed_def Let_def csiz_def w_def cong: if_cong)
  have w: "w = (if ?out then 8 * int bpc else character_bits cval bpc)"
    by (simp add: w_def unit_width_def csiz_def cval_def)
  have dec: "OCTET_STRING_decode_uper specs tc c =
    (if apc_extensible csiz then
       (\<lambda>pd. case asn_get_few_bits pd 1 of (inext, pd') \<Rightarrow>
          (if inext < 0 then (RC_WMORE, pd')
           else if inext \<noteq> 0
           then OCTET_STRING_decode_body bpc (8 * int bpc) cval (pc_size asn_DEF_OCTET_STRING_constraints) pc pd'
           else OCTET_STRING_decode_body bpc (character_bits cval bpc) cval csiz pc pd'))
     else OCTET_STRING_decode_body bpc (character_bits cval bpc) cval csiz pc)"
    using assms(1) by (simp add: fun_eq_iff OCTET_STRING_decode_uper_def Let_def pc_def cval_def csiz_def split_beta)
  let ?g = "\<lambda>(inext :: int) pd'. if inext < 0 then (RC_WMORE, pd')
           else if inext \<noteq> 0
           then OCTET_STRING_decode_body bpc (8 * int bpc) cval (pc_size asn_DEF_OCTET_STRING_constraints) pc pd'
           else OCTET_STRING_decode_body bpc (character_bits cval bpc) cval csiz pc pd'"
  have code: "octets_code pc bpc us = (if apc_extensible csiz then [?out] else []) @ bits"
    by (simp only: octets_code_def Let_def bits_def w_def cval_def csiz_def)
  have "reads (?g (if ?out then 1 else 0)) bits ?res" using body by (cases ?out) (simp_all add: csiz'_def w)
  then have "reads (\<lambda>pd. case asn_get_few_bits pd 1 of (r, pd') \<Rightarrow> ?g r pd') (?out # bits) ?res" by (rule reads_flag)
  then show ?thesis using body ok(5) w by (cases ?out) (simp_all add: dec code csiz'_def flip: pc_def)
qed

interpretation octet_string_uper: bit_codec
  "\<lambda>us. OCTET_STRING_encode_uper specs tc c (Some (Some (concat us)))" "OCTET_STRING_decode_uper specs tc c"
  "\<lambda>us. bytes_per_character specs = Some bpc \<and> octets_ok (per_constraints tc c) bpc us"
  "octets_code (per_constraints tc c) bpc"
  "\<lambda>us. RC_OK (Some (concat us)) (octets_consumed (per_constraints tc c) bpc (length us))" for specs tc c bpc
  using OCTET_STRING_encode_writes OCTET_STRING_decode_reads by unfold_locales auto


section \<open>Comparison\<close>

text \<open>The order on octet strings: by the first octet that differs, a proper prefix first.\<close>

fun octets_less :: "byte list \<Rightarrow> byte list \<Rightarrow> bool" where
  "octets_less _ [] = False"
| "octets_less [] (_ # _) = True"
| "octets_less (a # as) (b # bs) = (a < b \<or> (a = b \<and> octets_less as bs))"

lemma memcmp_prefix:
  "(let n = (if length as \<le> length bs then length as else length bs); ret = memcmp (take n as) (take n bs)
    in if ret = 0 then if length as < length bs then -1 else if length as > length bs then 1 else 0
       else if ret < 0 then -1 else 1) = (if as = bs then 0 else if octets_less as bs then -1 else (1::int))"
proof (induction as bs rule: octets_less.induct)
  case (3 a as b bs)
  then show ?case by (cases "a = b") (auto simp: Let_def split: if_splits)
qed simp_all

section \<open>Properties of octet strings\<close>

text \<open>
  C34: octet and character strings survive the wire. For every size constraint (fixed,
  bounded, extensible inside or outside the root, unbounded with fragmentation from 16K
  units on) and every character constraint (octets as they are, narrower units, shifted by
  the lower bound, mapped through the tables of the type) the encoder writes the defined
  bits and the decoder gives the same octets back.
\<close>

theorem OCTET_STRING_uper_roundtrip:
  assumes "bytes_per_character specs = Some bpc" "octets_ok (per_constraints tc c) bpc us"
    "absorbs cb key" "key_contents key = []"
  shows "\<exists>po po' pd'. OCTET_STRING_encode_uper specs tc c (Some (Some (concat us))) (new_outp cb key) = (0, po) \<and>
    asn_put_aligned_flush po = (0, po') \<and>
    (let octs = key_contents (po_op_key po')
     in bits_of octs = pad8 (octets_code (per_constraints tc c) bpc us) \<and>
        OCTET_STRING_decode_uper specs tc c (new_pd octs 0 (8 * length octs)) =
          (RC_OK (Some (concat us)) (octets_consumed (per_constraints tc c) bpc (length us)), pd') \<and>
        pd_pos pd' = length (octets_code (per_constraints tc c) bpc us))"
  using octet_string_uper.wire_roundtrip [of specs bpc tc c us] assms by simp

definition example_ia5 :: asn_per_constraints where
  "example_ia5 = \<lparr>pc_value = \<lparr>apc_semi_constrained = False, apc_constrained = True, apc_extensible = False,
        range_bits = 7, effective_bits = 7, lower_bound = 0, upper_bound = 127\<rparr>,
      pc_size = \<lparr>apc_semi_constrained = False, apc_constrained = True, apc_extensible = True,
        range_bits = 4, effective_bits = 4, lower_bound = 1, upper_bound = 16\<rparr>,
      pc_value2code = None, pc_code2value = None\<rparr>"

theorem OCTET_STRING_uper_roundtrip_witness:
  "\<exists>po po' pd'. OCTET_STRING_encode_uper None (Some example_ia5) None (Some (Some [0x41, 0x7A])) (new_outp write_buffer (Key_vector [])) = (0, po) \<and>
    asn_put_aligned_flush po = (0, po') \<and>
    OCTET_STRING_decode_uper None (Some example_ia5) None
      (new_pd (key_contents (po_op_key po')) 0 (8 * length (key_contents (po_op_key po')))) = (RC_OK (Some [0x41, 0x7A]) 0, pd')"
proof -
  have "octets_ok (per_constraints (Some example_ia5) None) 1 [[0x41], [0x7A]]"
    by (simp add: octets_ok_def per_constraints_def octet_constraints_def example_ia5_def unit_width_def octets_out_def
        character_bits_def char_width_def size_ok_def units_ok_def coded_as_is_def char_ok_def)
  from OCTET_STRING_uper_roundtrip [OF _ this vector.ok_absorbs, of None "Key_vector []"] show ?thesis
    by (simp add: bytes_per_character_def octets_consumed_def per_constraints_def octet_constraints_def example_ia5_def Let_def) blast
qed

text \<open>
  A character equal to 2^n under an upper bound of 2^n and n-bit units is coded as 0.
  The test for characters coded as they are admits an upper bound one too large.
\<close>

theorem character_off_by_one:
  assumes "1 \<le> n" "n \<le> 7"
  shows "writes (OCTET_STRING_per_put_characters 1 [2 ^ n] 1 (int n) 1 (2 ^ n) pc) (nat_bl n 0)"
proof -
  have n: "n \<in> {1, 2, 3, 4, 5, 6, 7}" using assms(1,2) by auto
  have "writes (\<lambda>po. asn_put_few_bits po (word_of_int (2 ^ n)) (int n)) (nat_bl n (nat (2 ^ n)))"
    using assms(2) by (intro few_int_writes) simp_all
  moreover have "nat_bl n (nat (2 ^ n)) = nat_bl n 0" using nat_bl_mod [of n n "2 ^ n"] by (simp add: nat_power_eq)
  moreover have "OCTET_STRING_per_put_characters 1 [2 ^ n] 1 (int n) 1 (2 ^ n) pc =
    (\<lambda>po. case asn_put_few_bits po (word_of_int (2 ^ n)) (int n) of (r, po') \<Rightarrow> (if r \<noteq> 0 then -1 else 0, po'))"
    using n by (auto simp: fun_eq_iff OCTET_STRING_per_put_characters_def coded_as_is_def put_plain_characters_def char_value_def split_beta)
  ultimately show ?thesis using writes_status by simp
qed

theorem character_off_by_one_witness:
  "writes (OCTET_STRING_per_put_characters 1 [2 ^ 7] 1 (int 7) 1 (2 ^ 7) None) (nat_bl 7 0)"
  by (rule character_off_by_one) simp_all

text \<open>
  \<open>OCTET_STRING_compare\<close> is the lexicographic order on octets: 0 exactly for equal
  strings, -1 when the first is smaller, 1 when it is larger; an absent string comes first.
\<close>

theorem OCTET_STRING_compare_lexicographic:
  "OCTET_STRING_compare (Some a) (Some b) =
     (if int_octets a = int_octets b then 0 else if octets_less (int_octets a) (int_octets b) then -1 else 1) \<and>
   OCTET_STRING_compare None (Some b) = -1 \<and> OCTET_STRING_compare (Some a) None = 1 \<and> OCTET_STRING_compare None None = 0"
  using memcmp_prefix [of "int_octets a" "int_octets b"] by (simp add: OCTET_STRING_compare_def Let_def)

end
