(* ===== verification/Bit_String.thy ===== *)
theory Bit_String
  imports Octet_String
begin

unbundle bit_operations_syntax

text \<open>
  BIT STRING: \<open>BIT_STRING_constraint\<close>, \<open>BIT_STRING__compactify\<close> and
  \<open>BIT_STRING_compare\<close> of \<open>BIT_STRING.c\<close> and the unaligned PER codec of
  \<open>BIT_STRING_uper.c\<close>. A compacted string shares the octets of the original with a
  smaller size; the model keeps the octets up to that size.
\<close>

record BIT_STRING_t =
  bs_buf :: "byte list option"
  bits_unused :: int

abbreviation bs_octets :: "BIT_STRING_t \<Rightarrow> byte list" where
  "bs_octets st \<equiv> int_octets (bs_buf st)"

section \<open>Constraint check, trailing zero bits and comparison\<close>

definition BIT_STRING_constraint :: "BIT_STRING_t option \<Rightarrow> int" where
  "BIT_STRING_constraint sptr =
     (case sptr of
        None \<Rightarrow> -1
      | Some st \<Rightarrow>
          (case bs_buf st of
             None \<Rightarrow> -1
           | Some buf \<Rightarrow>
               if (length buf = 0 \<and> bits_unused st \<noteq> 0) \<or> bits_unused st < 0 \<or> bits_unused st > 7 then -1 else 0))"

fun last_data_octet :: "byte list \<Rightarrow> nat \<Rightarrow> nat" where
  "last_data_octet buf b = (if b > 0 \<and> buf ! b = 0 then last_data_octet buf (b - 1) else b)"

declare last_data_octet.simps [simp del]

definition unused_bits :: "byte \<Rightarrow> int" where
  "unused_bits b =
     (let v = b AND (- b);
          u1 = (if v AND 0x0F \<noteq> 0 then 7 - 4 else 7);
          u2 = (if v AND 0x33 \<noteq> 0 then u1 - 2 else u1)
      in if v AND 0x55 \<noteq> 0 then u2 - 1 else u2)"

definition BIT_STRING_compactify :: "BIT_STRING_t \<Rightarrow> BIT_STRING_t" where
  "BIT_STRING_compactify st =
     (let buf = bs_octets st
      in if length buf = 0 then st
         else let b = last_data_octet buf (length buf - 1)
           in if buf ! b \<noteq> 0 then \<lparr>bs_buf = Some (take (b + 1) buf), bits_unused = unused_bits (buf ! b)\<rparr>
              else \<lparr>bs_buf = Some (take b buf), bits_unused = 0\<rparr>)"

text \<open>Both arguments are dereferenced, so neither is null.\<close>

definition BIT_STRING_compare :: "BIT_STRING_t \<Rightarrow> BIT_STRING_t \<Rightarrow> int" where
  "BIT_STRING_compare aptr bptr =
     (let a = BIT_STRING_compactify aptr; b = BIT_STRING_compactify bptr;
          abuf = bs_octets a; bbuf = bs_octets b;
          common_prefix_size = (if length abuf \<le> length bbuf then length abuf else length bbuf);
          ret = memcmp (take common_prefix_size abuf) (take common_prefix_size bbuf)
      in if ret = 0 then
           if length abuf < length bbuf then -1
           else if length abuf > length bbuf then 1
           else if bits_unused a > bits_unused b then -1
           else if bits_unused a < bits_unused b then 1
           else 0
         else ret)"

section \<open>The codec\<close>

definition asn_DEF_BIT_STRING_constraint_size :: asn_per_constraint where
  "asn_DEF_BIT_STRING_constraint_size =
     \<lparr>apc_semi_constrained = True, apc_constrained = False, apc_extensible = False,
      range_bits = -1, effective_bits = -1, lower_bound = 0, upper_bound = 0\<rparr>"

definition bit_size_constraint :: "asn_per_constraints option \<Rightarrow> asn_per_constraint" where
  "bit_size_constraint pc = (case pc of None \<Rightarrow> asn_DEF_BIT_STRING_constraint_size | Some p \<Rightarrow> pc_size p)"

definition is_bit_variant :: "asn_OS_Subvariant option \<Rightarrow> bool" where
  "is_bit_variant specs = (case specs of None \<Rightarrow> True | Some subvariant \<Rightarrow> subvariant = ASN_OSUBV_BIT)"

definition bit_chunk :: "nat \<Rightarrow> BIT_STRING_t \<Rightarrow> asn_bit_data \<Rightarrow> BIT_STRING_t dec_rval \<times> asn_bit_data" where
  "bit_chunk raw_len st pd =
     (if raw_len = 0 \<and> bs_buf st \<noteq> None then (RC_OK st 0, pd)
      else let len_bits = int raw_len;
               unused = (if len_bits AND 7 \<noteq> 0 then 8 - (len_bits AND 7) else bits_unused st)
        in case asn_get_many_bits pd False len_bits of (ret, bs, pd') \<Rightarrow>
          (if ret < 0 then RC_WMORE
           else RC_OK \<lparr>bs_buf = Some (bs_octets st @ bs), bits_unused = unused\<rparr> 0, pd'))"

definition BIT_STRING_decode_body :: "asn_per_constraint \<Rightarrow> asn_bit_data \<Rightarrow> BIT_STRING_t dec_rval \<times> asn_bit_data" where
  "BIT_STRING_decode_body csiz pd =
     (if effective_bits csiz = 0 then
        (case asn_get_many_bits pd False (sint (upper_bound csiz)) of (ret, bs, pd') \<Rightarrow>
           (if ret < 0 then RC_WMORE
            else RC_OK \<lparr>bs_buf = Some bs, bits_unused = (8 - (sint (upper_bound csiz) AND 7)) AND 7\<rparr>
              (nat (sint (upper_bound csiz))), pd'))
      else get_fragments bit_chunk (effective_bits csiz) (unat (lower_bound csiz))
             \<lparr>bs_buf = (if effective_bits csiz \<ge> 0 then Some [] else None), bits_unused = 0\<rparr> pd)"

definition BIT_STRING_decode_uper ::
  "asn_OS_Subvariant option \<Rightarrow> asn_per_constraints option \<Rightarrow> asn_per_constraints option \<Rightarrow>
   asn_bit_data \<Rightarrow> BIT_STRING_t dec_rval \<times> asn_bit_data" where
  "BIT_STRING_decode_uper specs td_constraints constraints pd =
     (let csiz = bit_size_constraint (per_constraints td_constraints constraints)
      in if \<not> is_bit_variant specs then (RC_FAIL, pd)
         else if apc_extensible csiz then
           (case asn_get_few_bits pd 1 of (inext, pd') \<Rightarrow>
              if inext < 0 then (RC_WMORE, pd')
              else BIT_STRING_decode_body (if inext \<noteq> 0 then asn_DEF_BIT_STRING_constraint_size else csiz) pd')
         else BIT_STRING_decode_body csiz pd)"

text \<open>The trailer: zero bits in pieces of at most 16 octets.\<close>

function put_zero_bits :: "nat \<Rightarrow> asn_bit_outp \<Rightarrow> int \<times> asn_bit_outp" where
  "put_zero_bits trailing_zero_bits po =
     (if trailing_zero_bits > 0 then
        if trailing_zero_bits > 8 * 16 then
          (case asn_put_many_bits po (replicate 16 0) (8 * 16) of (ret, po1) \<Rightarrow>
             if ret \<noteq> 0 then (-1, po1) else put_zero_bits (trailing_zero_bits - 8 * 16) po1)
        else (case asn_put_many_bits po (replicate 16 0) (int trailing_zero_bits) of (ret, po1) \<Rightarrow>
                (if ret \<noteq> 0 then -1 else 0, po1))
      else (0, po))"
  by pat_completeness auto
termination by (relation "measure fst") auto

declare put_zero_bits.simps [simp del]

definition put_sized_bits :: "asn_per_constraint \<Rightarrow> nat \<Rightarrow> byte list \<Rightarrow> asn_bit_outp \<Rightarrow> int \<times> asn_bit_outp" where
  "put_sized_bits csiz size_in_bits buf po =
     (let add_trailer = (int size_in_bits < sint (lower_bound csiz))
      in case asn_put_few_bits po (word_of_int (if add_trailer then 0 else int size_in_bits - sint (lower_bound csiz)))
            (effective_bits csiz) of (ret, po1) \<Rightarrow>
        if ret \<noteq> 0 then (-1, po1)
        else case asn_put_many_bits po1 buf (int size_in_bits) of (ret, po2) \<Rightarrow>
          if ret \<noteq> 0 then (-1, po2)
          else if add_trailer then put_zero_bits (nat (sint (lower_bound csiz) - int size_in_bits)) po2
          else (0, po2))"

definition BIT_STRING_encode_uper ::
  "asn_OS_Subvariant option \<Rightarrow> asn_per_constraints option \<Rightarrow> asn_per_constraints option \<Rightarrow>
   BIT_STRING_t option \<Rightarrow> asn_bit_outp \<Rightarrow> int \<times> asn_bit_outp" where
  "BIT_STRING_encode_uper specs td_constraints constraints sptr po =
     (case sptr of None \<Rightarrow> (-1, po)
      | Some st0 \<Rightarrow>
          if \<not> is_bit_variant specs then (-1, po)
          else if (bs_octets st0 = [] \<and> bits_unused st0 \<noteq> 0) \<or> bits_unused st0 AND NOT 7 \<noteq> 0 then (-1, po)
          else
            let csiz = bit_size_constraint (per_constraints td_constraints constraints);
                ct_extensible = apc_extensible csiz;
                st = BIT_STRING_compactify st0;
                buf = bs_octets st;
                size_in_bits = nat (8 * int (length buf) - bits_unused st);
                out = (effective_bits csiz \<ge> 0 \<and> int size_in_bits > sint (upper_bound csiz));
                body = (if effective_bits csiz \<ge> 0 \<and> \<not> out then put_sized_bits csiz size_in_bits buf
                        else put_fragments (\<lambda>k d po. asn_put_many_bits po d (int k)) (\<lambda>k. drop (k div 8)) size_in_bits buf)
            in if ct_extensible then
                 (case asn_put_few_bits po (if out then 1 else 0) 1 of (r, po1) \<Rightarrow>
                    if r \<noteq> 0 then (-1, po1) else body po1)
               else if out then (-1, po)
               else body po)"

section \<open>Trailing zero bits\<close>

definition strip_zeros :: "bool list \<Rightarrow> bool list" where
  "strip_zeros bs = rev (dropWhile Not (rev bs))"

definition bs_bits :: "BIT_STRING_t \<Rightarrow> bool list" where
  "bs_bits st = take (nat (8 * int (length (bs_octets st)) - bits_unused st)) (bits_of (bs_octets st))"

lemma strip_zeros_False: "strip_zeros (bs @ replicate n False) = strip_zeros bs"
proof -
  have "dropWhile Not (replicate n False @ ys) = dropWhile Not ys" for ys by (induction n) simp_all
  then show ?thesis by (simp add: strip_zeros_def)
qed

lemma strip_zeros_append: "strip_zeros ys \<noteq> [] \<Longrightarrow> strip_zeros (xs @ ys) = xs @ strip_zeros ys"
  by (auto simp: strip_zeros_def dropWhile_append)

lemma strip_zeros_pad: "bs = strip_zeros bs @ replicate (length bs - length (strip_zeros bs)) False"
proof -
  have "takeWhile Not (rev bs) = replicate (length (takeWhile Not (rev bs))) False"
    by (metis (mono_tags) replicate_length_same set_takeWhileD)
  moreover have "bs = strip_zeros bs @ rev (takeWhile Not (rev bs))"
    by (metis strip_zeros_def rev_append rev_rev_ident takeWhile_dropWhile_id)
  moreover from this have "length bs = length (strip_zeros bs) + length (takeWhile Not (rev bs))"
    by (metis length_append length_rev)
  ultimately show ?thesis by (metis add_diff_cancel_left' rev_replicate)
qed

lemma lowest_one_bit: "push_bit k (2 * j + 1) AND - push_bit k (2 * j + 1) = (push_bit k 1 :: 'a::len word)"
proof -
  have "- (2 * j + 1) = NOT (2 * j)" by (simp add: not_eq_complement)
  then have neg: "- push_bit k (2 * j + 1) = push_bit k (NOT (2 * j))"
    by (metis minus_mult_left push_bit_eq_mult)
  have "2 * j + 1 = 2 * j OR 1" by (simp add: or_one_eq)
  moreover have "(2 * j OR 1) AND NOT (2 * j) = 1"
    by (rule bit_word_eqI) (auto simp: bit_simps bit_double_iff)
  ultimately show ?thesis unfolding neg push_bit_and [symmetric] by (simp only:)
qed

lemma odd_part: "0 < n \<Longrightarrow> \<exists>k j. n = (2 * j + 1) * 2 ^ k" for n :: nat
proof (induction n rule: less_induct)
  case (less n)
  show ?case
  proof (cases "odd n")
    case True
    then obtain j where "n = 2 * j + 1" by (rule oddE)
    then have "n = (2 * j + 1) * 2 ^ 0" by simp
    then show ?thesis by blast
  next
    case False
    then obtain m where m: "n = 2 * m" by auto
    then have "m < n" "0 < m" using less.prems by auto
    then obtain k j where "m = (2 * j + 1) * 2 ^ k" using less.IH by blast
    with m have "n = (2 * j + 1) * 2 ^ Suc k" by simp
    then show ?thesis by blast
  qed
qed

lemma strip_zeros_odd: "odd v \<Longrightarrow> strip_zeros (nat_bl (Suc n) v) = nat_bl (Suc n) v"
  using nat_bl_add [of n 1 v] by (simp add: strip_zeros_def)

lemma unused_bits_correct:
  assumes "b \<noteq> 0"
  shows "0 \<le> unused_bits b" "unused_bits b \<le> 7" "strip_zeros (byte_bits b) = take (8 - nat (unused_bits b)) (byte_bits b)"
    "strip_zeros (byte_bits b) \<noteq> []"
proof -
  obtain k j where n: "unat b = (2 * j + 1) * 2 ^ k" using odd_part [of "unat b"] assms by (auto simp: unat_gt_0)
  have "2 ^ k < (2::nat) ^ 8" using unat_byte_less [of b] n by (simp add: add_increasing)
  then have k: "k < 8" by (rule power_less_imp_less_exp [rotated]) simp
  have "b = word_of_nat ((2 * j + 1) * 2 ^ k)" using n by (metis of_nat_unat_id)
  then have "b = push_bit k (2 * word_of_nat j + 1)" by (simp add: push_bit_eq_mult distrib_right)
  then have "b AND - b = push_bit k 1" using lowest_one_bit by (simp only:)
  moreover have "k \<in> {0, 1, 2, 3, 4, 5, 6, 7}" using k by auto
  ultimately have u: "unused_bits b = int k" by (auto simp: unused_bits_def)
  then show "0 \<le> unused_bits b" "unused_bits b \<le> 7" using k by simp_all
  obtain m where m: "8 - k = Suc m" using k by (metis Suc_diff_Suc)
  have bits: "byte_bits b = nat_bl (8 - k) (2 * j + 1) @ replicate k False"
    using nat_bl_shift [of "8 - k" k "2 * j + 1"] k n by (simp add: byte_bits_def)
  have "strip_zeros (nat_bl (8 - k) (2 * j + 1)) = nat_bl (8 - k) (2 * j + 1)"
    using strip_zeros_odd [of "2 * j + 1" m] m by simp
  then have "strip_zeros (byte_bits b) = nat_bl (8 - k) (2 * j + 1)" by (simp only: bits strip_zeros_False)
  then show "strip_zeros (byte_bits b) = take (8 - nat (unused_bits b)) (byte_bits b)" "strip_zeros (byte_bits b) \<noteq> []"
    using bits u m by simp_all
qed

lemma last_data_octet_correct:
  "last_data_octet buf b \<le> b" "buf ! last_data_octet buf b \<noteq> 0 \<or> last_data_octet buf b = 0"
  "last_data_octet buf b < i \<Longrightarrow> i \<le> b \<Longrightarrow> buf ! i = 0"
proof (induction buf b rule: last_data_octet.induct)
  case (1 buf b)
  { case 1 show ?case using "1.IH"(1) by (subst last_data_octet.simps) auto }
  { case 2 show ?case using "1.IH"(2) by (subst (1 2) last_data_octet.simps) auto }
  { case 3
    then show ?case using "1.IH"(3) by (cases "i = b") (auto simp: last_data_octet.simps [of buf b] split: if_splits) }
qed

lemma bits_of_zeros: "bits_of (replicate n 0) = replicate (8 * n) False"
proof (induction n)
  case (Suc n)
  have "byte_bits 0 = replicate 8 False" by code_simp
  with Suc show ?case by (simp flip: replicate_add)
qed simp

text \<open>What is left are the octets up to the last non-zero one, and in it the bits up to the last one bit.\<close>

lemma compactify_correct:
  fixes st :: BIT_STRING_t
  defines "c \<equiv> BIT_STRING_compactify st"
  assumes "bs_octets st = [] \<longrightarrow> bits_unused st = 0"
  shows "bs_bits c = strip_zeros (bits_of (bs_octets st))" "0 \<le> bits_unused c" "bits_unused c \<le> 7"
    "bs_octets c = [] \<longrightarrow> bits_unused c = 0"
proof -
  let ?buf = "bs_octets st"
  have "bs_bits c = strip_zeros (bits_of ?buf) \<and> 0 \<le> bits_unused c \<and> bits_unused c \<le> 7 \<and> (bs_octets c = [] \<longrightarrow> bits_unused c = 0)"
  proof (cases "?buf = []")
    case True
    then show ?thesis using assms by (simp add: BIT_STRING_compactify_def bs_bits_def strip_zeros_def)
  next
    case False
    define b where "b = last_data_octet ?buf (length ?buf - 1)"
    have b: "b < length ?buf" using last_data_octet_correct(1) [of ?buf "length ?buf - 1"] False
      by (metis b_def diff_less le_less_trans length_greater_0_conv zero_less_one)
    have c: "c = (if ?buf ! b \<noteq> 0 then \<lparr>bs_buf = Some (take (b + 1) ?buf), bits_unused = unused_bits (?buf ! b)\<rparr>
        else \<lparr>bs_buf = Some (take b ?buf), bits_unused = 0\<rparr>)"
      using False by (simp add: c_def BIT_STRING_compactify_def b_def Let_def)
    have "drop (Suc b) ?buf = replicate (length ?buf - Suc b) 0"
      using last_data_octet_correct(3) [of ?buf "length ?buf - 1"] by (intro nth_equalityI) (auto simp: b_def)
    then have split: "?buf = take b ?buf @ ?buf ! b # replicate (length ?buf - Suc b) 0" using id_take_nth_drop [OF b] by simp
    then have bits: "bits_of ?buf = (bits_of (take b ?buf) @ byte_bits (?buf ! b)) @ replicate (8 * (length ?buf - Suc b)) False"
      by (metis append_assoc bits_of_simps(2,3) bits_of_zeros)
    then have strip: "strip_zeros (bits_of ?buf) = strip_zeros (bits_of (take b ?buf) @ byte_bits (?buf ! b))"
      by (simp only: strip_zeros_False)
    show ?thesis
    proof (cases "?buf ! b = 0")
      case True
      then have "b = 0" using last_data_octet_correct(2) [of ?buf "length ?buf - 1"] by (auto simp: b_def)
      moreover have "strip_zeros (byte_bits 0) = []" by code_simp
      ultimately show ?thesis using True strip by (simp add: c bs_bits_def)
    next
      case nz: False
      note u = unused_bits_correct [OF nz]
      have "strip_zeros (bits_of (take b ?buf) @ byte_bits (?buf ! b)) = bits_of (take b ?buf) @ take (8 - nat (unused_bits (?buf ! b))) (byte_bits (?buf ! b))"
        using u(3) strip_zeros_append [OF u(4)] by simp
      moreover have "bs_bits c = take (8 * b + (8 - nat (unused_bits (?buf ! b)))) (bits_of (take b ?buf) @ byte_bits (?buf ! b))"
      proof -
        have "nat (8 * int (Suc b) - unused_bits (?buf ! b)) = 8 * b + (8 - nat (unused_bits (?buf ! b)))"
          using u(1,2) by (auto simp: nat_eq_iff of_nat_diff)
        moreover have "take (Suc b) ?buf = take b ?buf @ [?buf ! b]" using b by (simp add: take_Suc_conv_app_nth)
        ultimately show ?thesis using nz b by (simp add: c bs_bits_def min_absorb2)
      qed
      ultimately show ?thesis using u nz b strip by (auto simp: c take_append min_absorb2)
    qed
  qed
  then show "bs_bits c = strip_zeros (bits_of (bs_octets st))" "0 \<le> bits_unused c" "bits_unused c \<le> 7"
    "bs_octets c = [] \<longrightarrow> bits_unused c = 0" by blast+
qed

section \<open>The wire format of BIT STRING\<close>

definition bit_string :: "bool list \<Rightarrow> BIT_STRING_t" where
  "bit_string bits = \<lparr>bs_buf = Some (octets_of (pad8 bits)), bits_unused = (8 - int (length bits) mod 8) mod 8\<rparr>"

lemma int_and_7: "(x :: int) AND 7 = x mod 8"
  using take_bit_eq_mask [of 3 x] by (simp add: mask_eq_exp_minus_1 take_bit_eq_mod)

lemma fragment_octets: "16384 dvd n \<Longrightarrow> 8 dvd (n::nat)"
  by (rule dvd_trans [of 8 16384]) simp_all

lemma concat_bits: "concat (map (\<lambda>b. [b]) bs) = bs"
  by (induction bs) simp_all

interpretation bit_writer: fragment_writer "\<lambda>k d po. asn_put_many_bits po d (int k)" "\<lambda>k. drop (k div 8)"
  "\<lambda>d us. \<exists>bits. us = map (\<lambda>b. [b]) bits \<and> length bits \<le> 8 * length d \<and> bits = take (length bits) (bits_of d)"
proof (unfold_locales, goal_cases)
  case (1 d us k)
  then obtain bits where b: "us = map (\<lambda>b. [b]) bits" "length bits \<le> 8 * length d" "bits = take (length bits) (bits_of d)" "k \<le> length bits"
    by auto
  then have "concat (take k us) = take k (bits_of d)" by (metis concat_bits min.absorb1 take_map take_take)
  then show ?case using asn_put_many_bits_ok [of _ k d] b by (intro writesI) simp
next
  case (2 d us k)
  then obtain bits where b: "us = map (\<lambda>b. [b]) bits" "length bits \<le> 8 * length d" "bits = take (length bits) (bits_of d)" "k \<le> length bits"
    by auto
  have k: "8 * (k div 8) = k" using fragment_octets [OF 2(2)] by simp
  let ?rest = "drop k bits"
  have "bits_of (drop (k div 8) d) = drop k (bits_of d)" using drop_bits_of [of "k div 8" d] k by simp
  then have "?rest = take (length ?rest) (bits_of (drop (k div 8) d))" using b(3) by (metis drop_take length_drop)
  moreover have "length ?rest \<le> 8 * length (drop (k div 8) d)" using b(2) k by (simp add: diff_mult_distrib2)
  ultimately show ?case using b(1) drop_map [of k "\<lambda>b. [b]" bits] by blast
qed

lemma bit_string_append:
  assumes "8 dvd length us"
  shows "octets_of (pad8 (us @ vs)) = octets_of (pad8 us) @ octets_of (pad8 vs)"
    "(length (us @ vs)) mod 8 = length vs mod 8"
proof -
  have "pad8 us = us" using assms by (auto simp: pad8_def elim!: dvdE)
  then show "octets_of (pad8 (us @ vs)) = octets_of (pad8 us) @ octets_of (pad8 vs)"
    using pad8_append [OF assms] octets_of_append [OF assms] by simp
  show "(length (us @ vs)) mod 8 = length vs mod 8" using assms by (auto elim!: dvdE)
qed

lemma many_bits_reads:
  "reads (\<lambda>pd. case asn_get_many_bits pd False (int (length bs)) of (r, octs, pd') \<Rightarrow> ((r, octs), pd')) bs (0, octets_of (pad8 bs))"
proof (rule readsI)
  fix pd rest assume "pd_inv pd" "src_bits pd = bs @ rest"
  then obtain pd' where "asn_get_many_bits pd False (int (length bs)) = (0, octets_of (pad8 bs), pd')"
    "consumes pd bs pd'" "src_bits pd' = rest" by (rule asn_get_many_bits_ok)
  then show "\<exists>pd'. (case asn_get_many_bits pd False (int (length bs)) of (r, octs, pd') \<Rightarrow> ((r, octs), pd')) =
      ((0, octets_of (pad8 bs)), pd') \<and> consumes pd bs pd' \<and> src_bits pd' = rest" by simp
qed

lemma safe_bit_chunk [safe]: "safe_get (bit_chunk k st)"
  unfolding bit_chunk_def [abs_def] by (intro safe)

lemma safe_BIT_STRING [safe]: "safe_get (BIT_STRING_decode_uper specs tc c)"
  unfolding BIT_STRING_decode_uper_def [abs_def] BIT_STRING_decode_body_def [abs_def] by (intro safe)

interpretation bit_reader: fragment_reader bit_chunk bit_string "\<lambda>b. [b]" "\<lambda>_. True"
proof (unfold_locales, goal_cases)
  case (1 k a)
  show ?case by (rule safe_bit_chunk)
next
  case (2 us vs)
  then have dvd: "8 dvd length us" by (intro fragment_octets)
  show ?case
  proof (cases "vs = []")
    case True
    then show ?thesis using reads_return [of "RC_OK (bit_string us) 0"] by (simp add: bit_chunk_def [abs_def] bit_string_def) blast
  next
    case False
    define r where "r = int (length vs) mod 8"
    have r: "0 \<le> r" "r < 8" by (simp_all add: r_def)
    have "int (length us) mod 8 = 0" "int (length (us @ vs)) mod 8 = r"
      using dvd by (auto simp: r_def elim!: dvdE)
    then have unused: "bits_unused (bit_string us) = 0" "bits_unused (bit_string (us @ vs)) = (if r = 0 then 0 else 8 - r)"
      using r by (auto simp: bit_string_def zmod_zminus1_eq_if)
    moreover have "bs_buf (bit_string us) = Some (octets_of (pad8 us))" by (simp add: bit_string_def)
    ultimately have "bit_chunk (length vs) (bit_string us) = (\<lambda>pd. case (case asn_get_many_bits pd False (int (length vs)) of (r, octs, pd') \<Rightarrow> ((r, octs), pd'))
        of (q, pd') \<Rightarrow> ((\<lambda>(ret, bs). if ret < 0 then RC_WMORE
          else RC_OK \<lparr>bs_buf = Some (octets_of (pad8 us) @ bs), bits_unused = bits_unused (bit_string (us @ vs))\<rparr> 0) q, pd'))"
      using False by (simp add: fun_eq_iff bit_chunk_def split_beta int_and_7 Let_def flip: r_def)
    then have "reads (bit_chunk (length vs) (bit_string us)) vs
        (RC_OK \<lparr>bs_buf = Some (octets_of (pad8 us) @ octets_of (pad8 vs)), bits_unused = bits_unused (bit_string (us @ vs))\<rparr> 0)"
      by (rule reads_map [OF many_bits_reads [of vs]]) simp
    then have "reads (bit_chunk (length vs) (bit_string us)) vs (RC_OK (bit_string (us @ vs)) 0)"
      using bit_string_append(1) [OF dvd, of vs] by (simp add: bit_string_def)
    then show ?thesis by (auto simp: concat_bits)
  qed
qed

definition sent_bits :: "asn_per_constraint \<Rightarrow> BIT_STRING_t \<Rightarrow> bool list" where
  "sent_bits csiz st =
     (let bits = strip_zeros (bits_of (bs_octets st))
      in if effective_bits csiz \<ge> 0 then bits @ replicate (nat (sint (lower_bound csiz)) - length bits) False else bits)"

definition bits_out :: "asn_per_constraint \<Rightarrow> BIT_STRING_t \<Rightarrow> bool" where
  "bits_out csiz st \<longleftrightarrow> effective_bits csiz \<ge> 0 \<and> int (length (strip_zeros (bits_of (bs_octets st)))) > sint (upper_bound csiz)"

definition bits_ok :: "asn_per_constraint \<Rightarrow> BIT_STRING_t \<Rightarrow> bool" where
  "bits_ok csiz st \<longleftrightarrow> size_ok csiz \<and> (bits_out csiz st \<longrightarrow> apc_extensible csiz) \<and>
     0 \<le> bits_unused st \<and> bits_unused st \<le> 7 \<and> (bs_octets st = [] \<longrightarrow> bits_unused st = 0)"

definition bits_code :: "asn_per_constraint \<Rightarrow> BIT_STRING_t \<Rightarrow> bool list" where
  "bits_code csiz st =
     (let sent = sent_bits csiz st
      in (if apc_extensible csiz then [bits_out csiz st] else []) @
         (if effective_bits csiz \<ge> 0 \<and> \<not> bits_out csiz st
          then nat_bl (nat (effective_bits csiz)) (length sent - nat (sint (lower_bound csiz))) @ sent
          else unit_frags (map (\<lambda>b. [b]) sent)))"

lemma put_zero_bits_writes: "writes (put_zero_bits n) (replicate n False)"
proof (induction n rule: less_induct)
  case (less n)
  have zeros: "writes (\<lambda>po. asn_put_many_bits po (replicate 16 0) (int k)) (replicate k False)" if "k \<le> 128" for k
    using asn_put_many_bits_ok [of _ k "replicate 16 0"] that bits_of_zeros [of 16] by (intro writesI) simp
  consider "n = 0" | "0 < n" "n \<le> 128" | "128 < n" by linarith
  then show ?case
  proof cases
    case 1
    then show ?thesis by (auto simp: put_zero_bits.simps intro: writesI puts_refl)
  next
    case 2
    have "put_zero_bits n = (\<lambda>po. case asn_put_many_bits po (replicate 16 0) (int n) of (r, po') \<Rightarrow> (if r \<noteq> 0 then -1 else 0, po'))"
      using 2 by (simp add: fun_eq_iff put_zero_bits.simps [of n])
    with writes_status [OF zeros [OF 2(2)]] show ?thesis by simp
  next
    case 3
    have "put_zero_bits n = then_put (\<lambda>po. asn_put_many_bits po (replicate 16 0) (int 128)) (put_zero_bits (n - 128))"
      using 3 by (simp add: fun_eq_iff put_zero_bits.simps [of n] then_put_def split_beta)
    moreover have "writes (put_zero_bits (n - 128)) (replicate (n - 128) False)" using less 3 by simp
    moreover have "replicate n False = replicate 128 False @ replicate (n - 128) False" using 3 by (simp flip: replicate_add)
    ultimately show ?thesis using then_put_writes [OF zeros [of 128], of "put_zero_bits (n - 128)"] by simp
  qed
qed

lemma put_sized_bits_writes:
  assumes "size_ok csiz" "effective_bits csiz \<ge> 0" "n \<le> 8 * length buf"
    "bits = take n (bits_of buf) @ replicate (nat (sint (lower_bound csiz)) - n) False"
  shows "writes (put_sized_bits csiz n buf)
    (nat_bl (nat (effective_bits csiz)) (length bits - nat (sint (lower_bound csiz))) @ bits)"
proof -
  let ?lb = "sint (lower_bound csiz)"
  let ?v = "if int n < ?lb then 0 else int n - ?lb"
  have lb: "0 \<le> ?lb" "nat (effective_bits csiz) \<le> 31" using assms(1,2) by (simp_all add: size_ok_def nat_le_iff)
  have len: "length bits - nat ?lb = nat ?v" using assms(3,4) lb(1) by (auto simp: min_absorb2)
  have few: "writes (\<lambda>po. asn_put_few_bits po (word_of_int ?v) (effective_bits csiz)) (nat_bl (nat (effective_bits csiz)) (nat ?v))"
    using few_int_writes [OF lb(2), of ?v] assms(2) by simp
  have many: "writes (\<lambda>po. asn_put_many_bits po buf (int n)) (take n (bits_of buf))"
    by (rule writesI) (rule asn_put_many_bits_ok [OF _ assms(3)])
  have zeros: "writes (if int n < ?lb then put_zero_bits (nat (?lb - int n)) else (\<lambda>po. (0, po))) (replicate (nat ?lb - n) False)"
    using put_zero_bits_writes [of "nat ?lb - n"] by (auto simp: nat_diff_distrib intro!: writesI puts_refl)
  have "put_sized_bits csiz n buf = then_put (\<lambda>po. asn_put_few_bits po (word_of_int ?v) (effective_bits csiz))
    (then_put (\<lambda>po. asn_put_many_bits po buf (int n)) (if int n < ?lb then put_zero_bits (nat (?lb - int n)) else (\<lambda>po. (0, po))))"
    by (auto simp: fun_eq_iff put_sized_bits_def then_put_def Let_def split_beta)
  with then_put_writes [OF few then_put_writes [OF many zeros]] len assms(4) show ?thesis by simp
qed

lemma unused_and: "(u :: int) AND NOT 7 = 0 \<longleftrightarrow> 0 \<le> u \<and> u \<le> 7"
proof -
  have "u AND NOT (mask 3) = push_bit 3 (drop_bit 3 u)" by (rule bit_eqI) (auto simp: bit_simps)
  moreover have "mask 3 = (7 :: int)" by code_simp
  ultimately have "u AND NOT 7 = push_bit 3 (drop_bit 3 u)" by (simp only:)
  then show ?thesis by (auto simp: push_bit_eq_mult drop_bit_eq_div zdiv_eq_0_iff)
qed

lemma BIT_STRING_encode_writes:
  assumes "is_bit_variant specs" "csiz = bit_size_constraint (per_constraints tc c)" "bits_ok csiz st"
  shows "writes (BIT_STRING_encode_uper specs tc c (Some st)) (bits_code csiz st)"
proof -
  define bits where "bits = strip_zeros (bits_of (bs_octets st))"
  define cst where "cst = BIT_STRING_compactify st"
  let ?buf = "bs_octets cst" and ?out = "bits_out csiz st"
  have ok: "size_ok csiz" "?out \<longrightarrow> apc_extensible csiz" "0 \<le> bits_unused st" "bits_unused st \<le> 7" "bs_octets st = [] \<longrightarrow> bits_unused st = 0"
    using assms(3) by (auto simp: bits_ok_def)
  note c = compactify_correct [OF ok(5), folded cst_def bits_def]
  define n where "n = nat (8 * int (length ?buf) - bits_unused cst)"
  have n: "n \<le> 8 * length ?buf" "bits = take n (bits_of ?buf)" "length bits = n"
    using c by (auto simp: n_def bs_bits_def min_absorb2 nat_le_iff)
  define body where "body = (if effective_bits csiz \<ge> 0 \<and> \<not> ?out then put_sized_bits csiz n ?buf
    else put_fragments (\<lambda>k d po. asn_put_many_bits po d (int k)) (\<lambda>k. drop (k div 8)) n ?buf)"
  define sent where "sent = sent_bits csiz st"
  have sent: "sent = (if effective_bits csiz \<ge> 0 then take n (bits_of ?buf) @ replicate (nat (sint (lower_bound csiz)) - n) False else bits)"
    using n by (simp add: sent_def sent_bits_def Let_def flip: bits_def)
  have out: "?out \<longleftrightarrow> effective_bits csiz \<ge> 0 \<and> int n > sint (upper_bound csiz)"
    using n(3) by (simp add: bits_out_def flip: bits_def)
  then have "nat (sint (lower_bound csiz)) - n = 0" if ?out using that ok(1) by (auto simp: size_ok_def)
  then have frag: "sent = bits" if "\<not> (effective_bits csiz \<ge> 0 \<and> \<not> ?out)" using that sent n(2) by auto
  have "writes (put_fragments (\<lambda>k d po. asn_put_many_bits po d (int k)) (\<lambda>k. drop (k div 8)) n ?buf) (unit_frags (map (\<lambda>b. [b]) bits))"
    using bit_writer.put_fragments_writes [OF exI [of _ bits], of "map (\<lambda>b. [b]) bits" ?buf] n by simp
  then have body: "writes body (if effective_bits csiz \<ge> 0 \<and> \<not> ?out
      then nat_bl (nat (effective_bits csiz)) (length sent - nat (sint (lower_bound csiz))) @ sent else unit_frags (map (\<lambda>b. [b]) sent))"
    using put_sized_bits_writes [OF ok(1) _ n(1), of sent] sent frag by (simp add: body_def)
  have "\<not> (bs_octets st = [] \<and> bits_unused st \<noteq> 0)" "\<not> bits_unused st AND NOT 7 \<noteq> 0" using ok(3-5) unused_and by auto
  then have enc: "BIT_STRING_encode_uper specs tc c (Some st) =
    (if apc_extensible csiz then then_put (\<lambda>po. asn_put_few_bits po (if ?out then 1 else 0) 1) body else body)"
    using assms(1) ok(2) unfolding out body_def n_def cst_def
    by (auto simp: fun_eq_iff BIT_STRING_encode_uper_def then_put_def Let_def split_beta simp flip: assms(2))
  have code: "bits_code csiz st = (if apc_extensible csiz then [?out] else []) @ (if effective_bits csiz \<ge> 0 \<and> \<not> ?out
      then nat_bl (nat (effective_bits csiz)) (length sent - nat (sint (lower_bound csiz))) @ sent else unit_frags (map (\<lambda>b. [b]) sent))"
    by (simp add: bits_code_def Let_def sent_def)
  show ?thesis using then_put_writes [OF flag_writes [of ?out] body] body by (simp add: enc code)
qed

lemma bit_fragments_None:
  "get_fragments bit_chunk ebits lb \<lparr>bs_buf = None, bits_unused = 0\<rparr> = get_fragments bit_chunk ebits lb (bit_string [])"
proof -
  have "bit_chunk k \<lparr>bs_buf = None, bits_unused = 0\<rparr> pd = bit_chunk k (bit_string []) pd" for k pd
  proof (cases "k = 0")
    case True
    then show ?thesis by (simp add: bit_chunk_def bit_string_def pad8_def octets_of.simps asn_get_many_bits_def asn_get_bits_loop.simps)
  next
    case False
    then show ?thesis by (simp add: bit_chunk_def bit_string_def pad8_def octets_of.simps split_beta Let_def)
  qed
  then show ?thesis
    by (intro ext) (simp only: get_fragments.simps [where acc = "\<lparr>bs_buf = None, bits_unused = 0\<rparr>"] get_fragments.simps [where acc = "bit_string []"])
qed

lemma bit_string_unused: "bits_unused (bit_string bits) = (8 - (int (length bits) AND 7)) AND 7"
  by (simp add: bit_string_def int_and_7)

lemma BIT_STRING_body_reads:
  assumes "size_ok csiz" "effective_bits csiz \<ge> 0 \<longrightarrow> sint (lower_bound csiz) \<le> int (length bits) \<and> int (length bits) \<le> sint (upper_bound csiz)"
  shows "reads (BIT_STRING_decode_body csiz)
    (if effective_bits csiz \<ge> 0 then nat_bl (nat (effective_bits csiz)) (length bits - nat (sint (lower_bound csiz))) @ bits
     else unit_frags (map (\<lambda>b. [b]) bits))
    (RC_OK (bit_string bits) (if effective_bits csiz = 0 then nat (sint (upper_bound csiz)) else 0))"
proof -
  have lb: "unat (lower_bound csiz) = nat (sint (lower_bound csiz))" if "effective_bits csiz \<ge> 0"
    using nonneg_uint [of "lower_bound csiz"] that assms(1) by (simp add: size_ok_def flip: nat_uint_eq)
  consider "effective_bits csiz < 0" | "effective_bits csiz = 0" | "effective_bits csiz > 0" by linarith
  then show ?thesis
  proof cases
    case 1
    then have "BIT_STRING_decode_body csiz = get_fragments bit_chunk (effective_bits csiz) (unat (lower_bound csiz)) (bit_string [])"
      by (simp add: fun_eq_iff BIT_STRING_decode_body_def bit_fragments_None)
    with bit_reader.get_fragments_reads [where us = "[]" and vs = bits and ebits = "effective_bits csiz"] 1
    show ?thesis by (simp add: list_all_iff)
  next
    case 2
    then have n: "sint (upper_bound csiz) = int (length bits)" using assms by (auto simp: size_ok_def)
    have "reads (BIT_STRING_decode_body csiz) bits (RC_OK (bit_string bits) (length bits))"
      by (rule reads_map [OF many_bits_reads [of bits], where h = "\<lambda>(ret, bs). if ret < 0 then RC_WMORE
            else RC_OK \<lparr>bs_buf = Some bs, bits_unused = (8 - (int (length bits) AND 7)) AND 7\<rparr> (length bits)"])
        (use 2 n in \<open>simp_all add: fun_eq_iff BIT_STRING_decode_body_def split_beta bit_string_def int_and_7\<close>)
    with 2 n show ?thesis by simp
  next
    case 3
    have le: "nat (sint (lower_bound csiz)) \<le> length bits" using assms 3 by (auto simp: size_ok_def nat_le_iff)
    then have "int (length bits - nat (sint (lower_bound csiz))) < int (2 ^ nat (effective_bits csiz))"
      using assms 3 by (auto simp: size_ok_def of_nat_diff)
    then have "length bits - nat (sint (lower_bound csiz)) < 2 ^ nat (effective_bits csiz)" by (simp only: of_nat_less_iff)
    moreover have "BIT_STRING_decode_body csiz = get_fragments bit_chunk (effective_bits csiz) (unat (lower_bound csiz)) (bit_string [])"
      using 3 by (simp add: fun_eq_iff BIT_STRING_decode_body_def bit_string_def pad8_def octets_of.simps)
    ultimately show ?thesis
      using le bit_reader.get_sized_reads [where ebits = "effective_bits csiz" and lb = "unat (lower_bound csiz)" and us = bits] 3 assms(1) lb
      by (simp add: size_ok_def concat_bits list_all_iff)
  qed
qed

lemma bits_default_size:
  "size_ok asn_DEF_BIT_STRING_constraint_size" "effective_bits asn_DEF_BIT_STRING_constraint_size = -1"
  by (simp_all add: size_ok_def asn_DEF_BIT_STRING_constraint_size_def)

lemma BIT_STRING_decode_reads:
  assumes "is_bit_variant specs" "csiz = bit_size_constraint (per_constraints tc c)" "bits_ok csiz st"
  shows "reads (BIT_STRING_decode_uper specs tc c) (bits_code csiz st)
    (RC_OK (bit_string (sent_bits csiz st)) (if effective_bits csiz = 0 \<and> \<not> bits_out csiz st then nat (sint (upper_bound csiz)) else 0))"
proof -
  define sent where "sent = sent_bits csiz st"
  let ?out = "bits_out csiz st"
  let ?res = "RC_OK (bit_string sent) (if effective_bits csiz = 0 \<and> \<not> ?out then nat (sint (upper_bound csiz)) else 0)"
  have ok: "size_ok csiz" "?out \<longrightarrow> apc_extensible csiz" using assms(3) by (auto simp: bits_ok_def)
  define csiz' where "csiz' = (if ?out then asn_DEF_BIT_STRING_constraint_size else csiz)"
  define code where "code = (if effective_bits csiz \<ge> 0 \<and> \<not> ?out
      then nat_bl (nat (effective_bits csiz)) (length sent - nat (sint (lower_bound csiz))) @ sent else unit_frags (map (\<lambda>b. [b]) sent))"
  have "effective_bits csiz \<ge> 0 \<and> \<not> ?out \<longrightarrow> sint (lower_bound csiz) \<le> int (length sent) \<and> int (length sent) \<le> sint (upper_bound csiz)"
    using ok(1) by (auto simp: sent_def sent_bits_def Let_def bits_out_def size_ok_def)
  then have body: "reads (BIT_STRING_decode_body csiz') code ?res"
    using BIT_STRING_body_reads [of csiz' sent] bits_default_size ok(1)
    by (auto simp: csiz'_def code_def cong: if_cong)
  let ?g = "\<lambda>(inext :: int) pd'. if inext < 0 then (RC_WMORE, pd')
     else BIT_STRING_decode_body (if inext \<noteq> 0 then asn_DEF_BIT_STRING_constraint_size else csiz) pd'"
  have dec: "BIT_STRING_decode_uper specs tc c =
    (if apc_extensible csiz then (\<lambda>pd. case asn_get_few_bits pd 1 of (inext, pd') \<Rightarrow> ?g inext pd') else BIT_STRING_decode_body csiz)"
    using assms(1) by (simp add: fun_eq_iff BIT_STRING_decode_uper_def Let_def split_beta flip: assms(2))
  have "reads (?g (if ?out then 1 else 0)) code ?res" using body by (cases ?out) (simp_all add: csiz'_def)
  then have "reads (\<lambda>pd. case asn_get_few_bits pd 1 of (r, pd') \<Rightarrow> ?g r pd') (?out # code) ?res" by (rule reads_flag)
  moreover have "bits_code csiz st = (if apc_extensible csiz then [?out] else []) @ code"
    by (simp add: bits_code_def Let_def sent_def code_def)
  ultimately show ?thesis using body ok(2) by (cases ?out) (simp_all add: dec csiz'_def flip: sent_def)
qed

interpretation bit_string_uper: bit_codec
  "\<lambda>st. BIT_STRING_encode_uper specs tc c (Some st)" "BIT_STRING_decode_uper specs tc c"
  "\<lambda>st. is_bit_variant specs \<and> csiz = bit_size_constraint (per_constraints tc c) \<and> bits_ok csiz st" "bits_code csiz"
  "\<lambda>st. RC_OK (bit_string (sent_bits csiz st)) (if effective_bits csiz = 0 \<and> \<not> bits_out csiz st then nat (sint (upper_bound csiz)) else 0)"
  for specs tc c csiz
  using BIT_STRING_encode_writes BIT_STRING_decode_reads by unfold_locales blast+

section \<open>Properties of bit strings\<close>

text \<open>
  \<open>BIT_STRING__compactify\<close> removes exactly the trailing zero bits: the bits of
  the result are those of the octets up to the last one bit, its padding is between 0 and 7
  bits and it passes the generic constraint check.
\<close>

theorem BIT_STRING_compactify_strips:
  assumes "BIT_STRING_constraint (Some st) = 0"
  shows "bs_bits (BIT_STRING_compactify st) = strip_zeros (bits_of (bs_octets st)) \<and>
    BIT_STRING_constraint (Some (BIT_STRING_compactify st)) = 0"
proof (intro conjI)
  from assms have "bs_octets st = [] \<longrightarrow> bits_unused st = 0" "bs_buf st \<noteq> None"
    by (auto simp: BIT_STRING_constraint_def split: option.splits if_splits)
  note c = compactify_correct [OF this(1)] and this(2)
  then show "bs_bits (BIT_STRING_compactify st) = strip_zeros (bits_of (bs_octets st))" by blast
  have "bs_buf (BIT_STRING_compactify st) \<noteq> None"
    using \<open>bs_buf st \<noteq> None\<close> by (simp add: BIT_STRING_compactify_def Let_def)
  with c show "BIT_STRING_constraint (Some (BIT_STRING_compactify st)) = 0"
    by (auto simp: BIT_STRING_constraint_def)
qed

theorem BIT_STRING_compactify_strips_witness:
  "bs_bits (BIT_STRING_compactify \<lparr>bs_buf = Some [0x81, 0x40, 0x00], bits_unused = 3\<rparr>) =
     strip_zeros (bits_of [0x81, 0x40, 0x00])"
  using BIT_STRING_compactify_strips [of "\<lparr>bs_buf = Some [0x81, 0x40, 0x00], bits_unused = 3\<rparr>"]
  by (simp add: BIT_STRING_constraint_def)

text \<open>
  C35: bit strings survive the wire up to trailing zero bits. The bits sent are those up to
  the last one bit, completed with zero bits to the lower bound of the size; the decoder
  returns exactly them, left aligned with the right number of unused bits. Sizes are fixed,
  bounded, extended or fragmented.
\<close>

theorem BIT_STRING_uper_roundtrip:
  assumes "is_bit_variant specs" "csiz = bit_size_constraint (per_constraints tc c)" "bits_ok csiz st"
    "absorbs cb key" "key_contents key = []"
  shows "\<exists>po po' pd' consumed. BIT_STRING_encode_uper specs tc c (Some st) (new_outp cb key) = (0, po) \<and>
    asn_put_aligned_flush po = (0, po') \<and>
    (let octs = key_contents (po_op_key po')
     in bits_of octs = pad8 (bits_code csiz st) \<and>
        BIT_STRING_decode_uper specs tc c (new_pd octs 0 (8 * length octs)) = (RC_OK (bit_string (sent_bits csiz st)) consumed, pd') \<and>
        strip_zeros (sent_bits csiz st) = strip_zeros (bits_of (bs_octets st)))"
proof -
  have "strip_zeros (strip_zeros bs) = strip_zeros bs" for bs by (metis strip_zeros_False strip_zeros_pad)
  then have "strip_zeros (sent_bits csiz st) = strip_zeros (bits_of (bs_octets st))"
    by (simp add: sent_bits_def Let_def strip_zeros_False)
  with bit_string_uper.wire_roundtrip [of specs csiz tc c st] assms show ?thesis by (simp add: Let_def) blast
qed

theorem BIT_STRING_uper_roundtrip_witness:
  "\<exists>po po' pd' consumed. BIT_STRING_encode_uper None None None (Some \<lparr>bs_buf = Some [0xA0, 0x80], bits_unused = 4\<rparr>) (new_outp write_buffer (Key_vector [])) = (0, po) \<and>
    asn_put_aligned_flush po = (0, po') \<and>
    BIT_STRING_decode_uper None None None (new_pd (key_contents (po_op_key po')) 0 (8 * length (key_contents (po_op_key po')))) =
      (RC_OK (bit_string (sent_bits (bit_size_constraint None) \<lparr>bs_buf = Some [0xA0, 0x80], bits_unused = 4\<rparr>)) consumed, pd')"
proof -
  have "bits_ok (bit_size_constraint None) \<lparr>bs_buf = Some [0xA0, 0x80], bits_unused = 4\<rparr>"
    by (simp add: bits_ok_def bit_size_constraint_def bits_default_size bits_out_def)
  from BIT_STRING_uper_roundtrip [OF _ _ this vector.ok_absorbs, of None None None "Key_vector []"] show ?thesis
    by (simp add: is_bit_variant_def per_constraints_def Let_def) blast
qed

lemma memcmp_zero: "length as = length bs \<Longrightarrow> memcmp as bs = 0 \<longleftrightarrow> as = bs"
  by (induction as bs rule: memcmp.induct) auto

lemma compactify_padding:
  fixes st :: BIT_STRING_t
  defines "c \<equiv> BIT_STRING_compactify st"
  assumes "bs_octets st = [] \<longrightarrow> bits_unused st = 0"
  shows "bits_of (bs_octets c) = bs_bits c @ replicate (nat (bits_unused c)) False" "nat (bits_unused c) < 8"
proof -
  note c = compactify_correct [OF assms(2), folded c_def]
  let ?s = "strip_zeros (bits_of (bs_octets st))" and ?n = "8 * length (bs_octets c)"
  show u: "nat (bits_unused c) < 8" using c(3) by linarith
  have "nat (bits_unused c) \<le> ?n" using c(3,4) u by (cases "bs_octets c") auto
  moreover have "length ?s = ?n - nat (bits_unused c)"
    using arg_cong [OF c(1), of length] c(2) by (simp add: bs_bits_def nat_diff_distrib' nat_mult_distrib min_absorb2)
  ultimately have len: "length ?s = ?n - nat (bits_unused c)" "nat (bits_unused c) \<le> ?n" by simp_all
  have "\<exists>rest. bs_octets st = bs_octets c @ rest"
    by (simp add: c_def BIT_STRING_compactify_def Let_def) (metis append_take_drop_id)
  then obtain rest where rest: "bs_octets st = bs_octets c @ rest" ..
  have "bits_of (bs_octets c) = take ?n (bits_of (bs_octets st))" using rest by simp
  also have "\<dots> = take ?n (?s @ replicate (length (bits_of (bs_octets st)) - length ?s) False)"
    using strip_zeros_pad [of "bits_of (bs_octets st)"] by (rule arg_cong)
  also have "\<dots> = ?s @ replicate (nat (bits_unused c)) False"
    using len rest by simp
  finally show "bits_of (bs_octets c) = bs_bits c @ replicate (nat (bits_unused c)) False" using c(1) by simp
qed

text \<open>
  \<open>BIT_STRING_compare\<close> identifies exactly the bit strings that differ in trailing
  zero bits only.
\<close>

theorem BIT_STRING_compare_equal:
  assumes "BIT_STRING_constraint (Some a) = 0" "BIT_STRING_constraint (Some b) = 0"
  shows "BIT_STRING_compare a b = 0 \<longleftrightarrow> strip_zeros (bits_of (bs_octets a)) = strip_zeros (bits_of (bs_octets b))"
proof -
  have wf: "bs_octets x = [] \<longrightarrow> bits_unused x = 0" if "BIT_STRING_constraint (Some x) = 0" for x
    using that by (auto simp: BIT_STRING_constraint_def split: option.splits if_splits)
  define ca cb where "ca = BIT_STRING_compactify a" and "cb = BIT_STRING_compactify b"
  note a = compactify_correct [OF wf [OF assms(1)], folded ca_def] compactify_padding [OF wf [OF assms(1)], folded ca_def]
  note b = compactify_correct [OF wf [OF assms(2)], folded cb_def] compactify_padding [OF wf [OF assms(2)], folded cb_def]
  have "BIT_STRING_compare a b = 0 \<longleftrightarrow> bs_octets ca = bs_octets cb \<and> bits_unused ca = bits_unused cb"
    using memcmp_zero [of "bs_octets ca" "bs_octets cb"]
    by (auto simp: BIT_STRING_compare_def Let_def simp flip: ca_def cb_def)
  also have "\<dots> \<longleftrightarrow> bs_bits ca = bs_bits cb"
  proof
    assume eq: "bs_bits ca = bs_bits cb"
    have la: "8 * length (bs_octets ca) = length (bs_bits ca) + nat (bits_unused ca)" using a(5) by (metis length_append length_bits_of length_replicate)
    have lb: "8 * length (bs_octets cb) = length (bs_bits cb) + nat (bits_unused cb)" using b(5) by (metis length_append length_bits_of length_replicate)
    have "u = v" if "8 * x = s + u" "8 * y = s + v" "u < 8" "v < 8" for s u v x y :: nat
      using that by (cases x y rule: linorder_cases) linarith+
    from this [OF la lb [folded eq] a(6) b(6)] have "nat (bits_unused ca) = nat (bits_unused cb)" .
    then have "bits_unused ca = bits_unused cb" using a(2) b(2) by simp
    moreover from this have "bits_of (bs_octets ca) = bits_of (bs_octets cb)" using a(5) b(5) eq by simp
    moreover from this have "length (bs_octets ca) = length (bs_octets cb)" by (metis length_bits_of nat_mult_eq_cancel1 zero_less_numeral)
    ultimately show "bs_octets ca = bs_octets cb \<and> bits_unused ca = bits_unused cb" using bits_of_inject by blast
  qed (simp add: bs_bits_def)
  finally show ?thesis using a(1) b(1) by simp
qed

theorem BIT_STRING_compare_equal_witness:
  "BIT_STRING_compare \<lparr>bs_buf = Some [0xA0], bits_unused = 4\<rparr> \<lparr>bs_buf = Some [0xA0, 0], bits_unused = 0\<rparr> = 0 \<longleftrightarrow>
     strip_zeros (bits_of [0xA0]) = strip_zeros (bits_of [0xA0, 0])"
  using BIT_STRING_compare_equal [of "\<lparr>bs_buf = Some [0xA0], bits_unused = 4\<rparr>" "\<lparr>bs_buf = Some [0xA0, 0], bits_unused = 0\<rparr>"]
  by (simp add: BIT_STRING_constraint_def)

end
