(* ===== verification/Uper_Codec.thy ===== *)
theory Uper_Codec
  imports Uper_Primitives
begin

unbundle bit_operations_syntax

text \<open>
  Complete encodings and open types: \<open>uper_encoder.c\<close>, \<open>uper_decoder.c\<close>,
  \<open>uper_opentype.c\<close>, \<open>uper_sot_suck\<close> of \<open>per_opentype.c\<close> and the PER
  entry points of \<open>asn1c_wrapper.cpp\<close>. A type descriptor is, as far as these
  functions use it, its two PER operations; both take the constraints of the member the
  type is used for. The stack check of the codec context and the allocation of memory
  always succeed here. \<open>uper_open_type_get_complex\<close> and its helpers are not
  called by the code.
\<close>

record 'v asn_TYPE_descriptor =
  op_uper_decoder :: "(asn_per_constraints option \<Rightarrow> asn_bit_data \<Rightarrow> 'v dec_rval \<times> asn_bit_data) option"
  op_uper_encoder :: "(asn_per_constraints option \<Rightarrow> 'v option \<Rightarrow> asn_bit_outp \<Rightarrow> int \<times> asn_bit_outp) option"

text \<open>
  A member of a constructed type, or the element of a list. A member that is an open type
  has a function that selects, from the members already decoded, the index of a variant and
  its type; \<open>memb_variants\<close> counts the variants and \<open>memb_variant\<close> is the
  value that has one of them set. The default functions compare with and set the default
  value; setting it may fail.
\<close>

record 'v asn_TYPE_member =
  memb_type :: "'v asn_TYPE_descriptor"
  memb_constraints :: "asn_per_constraints option"
  memb_pointer :: bool
  memb_open_type :: bool
  memb_type_selector :: "('v option list \<Rightarrow> nat \<times> 'v asn_TYPE_descriptor) option"
  memb_variants :: nat
  memb_variant :: "nat \<Rightarrow> 'v \<Rightarrow> 'v"
  memb_optional :: nat
  memb_default_cmp :: "('v \<Rightarrow> int) option"
  memb_default_set :: "'v option option"

abbreviation memb_decode :: "'v asn_TYPE_member \<Rightarrow> asn_bit_data \<Rightarrow> 'v dec_rval \<times> asn_bit_data" where
  "memb_decode elm \<equiv> the (op_uper_decoder (memb_type elm)) (memb_constraints elm)"

abbreviation memb_encode :: "'v asn_TYPE_member \<Rightarrow> 'v \<Rightarrow> asn_bit_outp \<Rightarrow> int \<times> asn_bit_outp" where
  "memb_encode elm v \<equiv> the (op_uper_encoder (memb_type elm)) (memb_constraints elm) (Some v)"

section \<open>Encoding\<close>

definition uper_encode_flush_outp :: "asn_bit_outp \<Rightarrow> int \<times> op_key" where
  "uper_encode_flush_outp po =
     (if po_nboff po = 0 \<and> po_buffer po = Some 0 then (0, po_op_key po)
      else
        let j = po_idx po + po_nboff po div 8;
            partial = (po_nboff po AND 0x07 \<noteq> 0);
            tmp = (if partial
                   then (po_tmpspace po)[j := (po_tmpspace po ! j) AND push_bit (8 - (po_nboff po AND 0x07)) 0xff]
                   else po_tmpspace po)
        in po_output po (take (if partial then j + 1 else j) tmp) (po_op_key po))"

definition uper_encode ::
  "'v asn_TYPE_descriptor \<Rightarrow> asn_per_constraints option \<Rightarrow> 'v option \<Rightarrow> consume_bytes option \<Rightarrow> op_key \<Rightarrow> int \<times> op_key" where
  "uper_encode td constraints sptr cb app_key =
     (case op_uper_encoder td of
        None \<Rightarrow> (-1, app_key)
      | Some encoder \<Rightarrow>
          (case encoder constraints sptr (new_outp (case cb of None \<Rightarrow> ignore_output | Some f \<Rightarrow> f) app_key) of (encoded, po) \<Rightarrow>
             if encoded \<noteq> -1 then
               let bits_to_flush = 8 * po_idx po + po_nboff po
               in (case uper_encode_flush_outp po of (r, key) \<Rightarrow>
                     if r \<noteq> 0 then (-1, key) else (int (8 * po_flushed_bytes po + bits_to_flush), key))
             else (-1, po_op_key po)))"

definition uper_encode_to_buffer ::
  "'v asn_TYPE_descriptor \<Rightarrow> asn_per_constraints option \<Rightarrow> 'v option \<Rightarrow> nat \<Rightarrow> int \<times> op_key" where
  "uper_encode_to_buffer td constraints sptr buffer_size =
     uper_encode td constraints sptr (Some encode_to_buffer_cb) (Key_to_buf \<lparr>tb_buffer = [], tb_left = buffer_size\<rparr>)"

definition uper_encode_to_new_buffer ::
  "'v asn_TYPE_descriptor \<Rightarrow> asn_per_constraints option \<Rightarrow> 'v option \<Rightarrow> int \<times> byte list" where
  "uper_encode_to_new_buffer td constraints sptr =
     (case uper_encode td constraints sptr (Some encode_dyn_cb) (Key_dyn \<lparr>dyn_buffer = [], dyn_allocated = 0\<rparr>) of (encoded, key) \<Rightarrow>
        if encoded = -1 then (-1, [])
        else if encoded = 0 then (1, [0])
        else (drop_bit 3 (encoded + 7), key_contents key))"

section \<open>Decoding\<close>

definition uper_decode ::
  "'v asn_TYPE_descriptor \<Rightarrow> byte list \<Rightarrow> int \<Rightarrow> int \<Rightarrow> 'v dec_rval" where
  "uper_decode td buffer skip_bits unused_bits =
     (if skip_bits < 0 \<or> skip_bits > 7 \<or> unused_bits < 0 \<or> unused_bits > 7 \<or> (unused_bits > 0 \<and> length buffer = 0)
      then RC_FAIL
      else
        let pd = new_pd buffer (nat skip_bits) (8 * length buffer - nat unused_bits)
        in if pd_nboff pd > pd_nbits pd then RC_FAIL
           else case op_uper_decoder td of
               None \<Rightarrow> RC_FAIL
             | Some decoder \<Rightarrow>
                 (case decoder None pd of (rval, pd') \<Rightarrow>
                    (case rval of
                       RC_OK v _ \<Rightarrow> RC_OK v (8 * pd_buffer pd' + pd_nboff pd' - nat skip_bits)
                     | RC_WMORE \<Rightarrow> RC_WMORE | RC_FAIL \<Rightarrow> RC_FAIL)))"

definition uper_decode_complete :: "'v asn_TYPE_descriptor \<Rightarrow> byte list \<Rightarrow> 'v dec_rval" where
  "uper_decode_complete td buffer =
     (case uper_decode td buffer 0 0 of
        RC_OK v consumed \<Rightarrow>
          if consumed \<noteq> 0 then RC_OK v (drop_bit 3 (consumed + 7))
          else if buffer \<noteq> [] then if buffer ! 0 = 0 then RC_OK v 1 else RC_FAIL
          else RC_WMORE
      | RC_WMORE \<Rightarrow> RC_WMORE | RC_FAIL \<Rightarrow> RC_FAIL)"

section \<open>Open types\<close>

text \<open>The loop of \<open>uper_open_type_put\<close> is that of \<open>uper_put_octets\<close>; every \<open>break\<close> leaves \<open>size\<close> positive.\<close>

definition uper_open_type_put ::
  "'v asn_TYPE_descriptor \<Rightarrow> asn_per_constraints option \<Rightarrow> 'v option \<Rightarrow> asn_bit_outp \<Rightarrow> int \<times> asn_bit_outp" where
  "uper_open_type_put td constraints sptr po =
     (case uper_encode_to_new_buffer td constraints sptr of (n, buf) \<Rightarrow>
        if n \<le> 0 then (-1, po) else uper_put_octets po (take (nat n) buf))"

definition uper_open_type_get ::
  "'v asn_TYPE_descriptor \<Rightarrow> asn_per_constraints option \<Rightarrow> asn_bit_data \<Rightarrow> 'v dec_rval \<times> asn_bit_data" where
  "uper_open_type_get td constraints pd =
     (case uper_get_octets pd [] of
        (None, pd') \<Rightarrow> (RC_WMORE, pd')
      | (Some buf, pd') \<Rightarrow>
          (case the (op_uper_decoder td) constraints (new_pd buf 0 (8 * length buf)) of (rv, spd) \<Rightarrow>
             (case rv of
                RC_OK v consumed \<Rightarrow>
                  let padding = pd_nbits spd - pd_nboff spd
                  in if (padding > 0 \<and> padding < 8 \<or> pd_nboff spd = 0 \<and> pd_nbits spd = 8 \<and> pd_buffer spd = 0) \<and>
                        fst (asn_get_few_bits spd (int padding)) = 0
                     then RC_OK v consumed
                     else if padding \<ge> 8 then RC_FAIL
                     else RC_OK v consumed
              | _ \<Rightarrow> RC_FAIL, pd')))"

function uper_sot_suck_loop :: "asn_bit_data \<Rightarrow> asn_bit_data" where
  "uper_sot_suck_loop pd = (case asn_get_few_bits pd 1 of (b, pd') \<Rightarrow> if b \<ge> 0 then uper_sot_suck_loop pd' else pd')"
  by pat_completeness auto
termination
proof (relation "measure pd_left", goal_cases)
  case (2 pd b pd')
  then show ?case using few_bits_left(2) [of pd 1] by (metis fst_conv in_measure one_le_numeral snd_conv zero_less_one)
qed simp

declare uper_sot_suck_loop.simps [simp del]

definition uper_sot_suck :: "asn_bit_data \<Rightarrow> unit dec_rval \<times> asn_bit_data" where
  "uper_sot_suck pd = (let pd' = uper_sot_suck_loop pd in (RC_OK () (pd_moved pd'), pd'))"

definition uper_open_type_skip :: "asn_bit_data \<Rightarrow> int \<times> asn_bit_data" where
  "uper_open_type_skip pd =
     (case uper_open_type_get \<lparr>op_uper_decoder = Some (\<lambda>_. uper_sot_suck), op_uper_encoder = None\<rparr> None pd of (rv, pd') \<Rightarrow>
        (case rv of RC_OK _ _ \<Rightarrow> 0 | _ \<Rightarrow> -1, pd'))"

section \<open>The wrapper's entry points\<close>

text \<open>\<open>None\<close> is the exception the wrapper throws.\<close>

definition size_per :: "'v asn_TYPE_descriptor \<Rightarrow> 'v \<Rightarrow> nat option" where
  "size_per td t =
     (case uper_encode td None (Some t) (Some write_null) Key_none of (encoded, _) \<Rightarrow>
        if encoded < 0 then None else Some (nat (encoded + 7) div 8))"

definition encode_per :: "'v asn_TYPE_descriptor \<Rightarrow> 'v \<Rightarrow> byte list option" where
  "encode_per td t =
     (case uper_encode td None (Some t) (Some write_buffer) (Key_vector []) of (encoded, key) \<Rightarrow>
        if encoded = -1 then None else Some (key_contents key))"

definition decode_per :: "'v asn_TYPE_descriptor \<Rightarrow> byte list \<Rightarrow> bool \<times> 'v option" where
  "decode_per td buffer =
     (case uper_decode_complete td buffer of RC_OK v _ \<Rightarrow> (True, Some v) | _ \<Rightarrow> (False, None))"

section \<open>Complete encodings\<close>

lemma nat_and_7: "(n :: nat) AND 7 = n mod 8"
  using take_bit_eq_mask [of 3 n] by (simp add: mask_eq_exp_minus_1 take_bit_eq_mod)

lemma flush_outp_ok:
  assumes "po_inv po"
  obtains key where "uper_encode_flush_outp po = (0, key)" "absorbs (po_output po) key"
    "bits_of (key_contents key) = bits_of (key_contents (po_op_key po)) @ pad8 (pending po)"
proof (cases "po_nboff po = 0 \<and> po_buffer po = Some 0")
  case True
  then show ?thesis using that [of "po_op_key po"] assms
    by (simp add: uper_encode_flush_outp_def po_inv_def pending_def po_idx_def pad8_def)
next
  case False
  let ?n = "po_nboff po mod 8" and ?j = "po_idx po + po_nboff po div 8"
  let ?u = "(8 - ?n) mod 8" and ?t = "po_tmpspace po"
  let ?tmp = "if ?u \<noteq> 0 then ?t[?j := (?t ! ?j) AND push_bit ?u (NOT 0)] else ?t"
  let ?c = "po_idx po + (po_nboff po + 7) div 8"
  have n: "?n < 8" by simp
  have u: "?u \<noteq> 0 \<longleftrightarrow> ?n \<noteq> 0" "?n \<noteq> 0 \<Longrightarrow> ?u = 8 - ?n" using n by (cases "?n = 0"; simp)+
  have "po_nboff po + 7 = (?n + 7) + po_nboff po div 8 * 8" by simp
  then have "(po_nboff po + 7) div 8 = po_nboff po div 8 + (?n + 7) div 8"
    by (metis add.commute div_mult_self1 zero_neq_numeral)
  moreover have "(m + 7) div 8 = (if m \<noteq> 0 then 1 else 0)" if "m < 8" for m :: nat using that by (auto intro: div_nat_eqI)
  ultimately have c: "(if ?n \<noteq> 0 then ?j + 1 else ?j) = ?c" using n by simp
  have ff: "(0xff :: byte) = NOT 0" by code_simp
  have tmp: "(if ?n \<noteq> 0 then ?t[?j := (?t ! ?j) AND push_bit (8 - ?n) 0xff] else ?t) = ?tmp"
    using u by (simp add: ff del: bit.compl_zero)
  have call: "uper_encode_flush_outp po = po_output po (take ?c ?tmp) (po_op_key po)"
    unfolding uper_encode_flush_outp_def if_not_P [OF False] Let_def nat_and_7 tmp c ..
  from assms obtain key where key: "po_output po (take ?c ?tmp) (po_op_key po) = (0, key)" "absorbs (po_output po) key"
    "key_contents key = key_contents (po_op_key po) @ take ?c ?tmp" by (auto simp: po_inv_def elim: absorbsE)
  from asn_put_aligned_flush_ok [OF assms] obtain po' where
    "asn_put_aligned_flush po = (0, po')" "bits_of (key_contents (po_op_key po')) = bits_of (key_contents (po_op_key po)) @ pad8 (pending po)"
    by blast
  moreover from this(1) have "po_op_key po' = key"
    unfolding asn_put_aligned_flush_def Let_def key(1) by (auto simp: asn_bit_outp.defs)
  ultimately show ?thesis using that key(1,2) call by simp
qed

lemma uper_encode_ok:
  assumes "op_uper_encoder td = Some enc" "writes (enc pc (Some v)) bs" "absorbs cb key" "key_contents key = []"
  obtains key' where "uper_encode td pc (Some v) (Some cb) key = (int (length bs), key')" "bits_of (key_contents key') = pad8 bs"
proof -
  have inv: "po_inv (new_outp cb key)" using assms(3) by simp
  from assms(2) inv obtain po where po: "enc pc (Some v) (new_outp cb key) = (0, po)" "puts (new_outp cb key) bs po" "po_inv po"
    by (rule writesE)
  obtain key' where key': "uper_encode_flush_outp po = (0, key')"
    "bits_of (key_contents key') = bits_of (key_contents (po_op_key po)) @ pad8 (pending po)" by (rule flush_outp_ok [OF po(3)])
  have out: "out_bits po = bs" using po(2) assms(4) by (simp add: puts_def)
  have flushed: "po_flushed_bytes po = length (key_contents (po_op_key po))"
    using po(2) assms(4) by (simp add: puts_def new_outp_def)
  have "8 * po_idx po + po_nboff po \<le> 8 * length (po_tmpspace po)"
    using po(3) by (auto simp: po_inv_def po_idx_def split: option.splits)
  then have "length (pending po) = 8 * po_idx po + po_nboff po" by (simp add: pending_def)
  then have len: "8 * po_flushed_bytes po + (8 * po_idx po + po_nboff po) = length bs"
    using out flushed by (auto simp: out_bits_def)
  have "bits_of (key_contents key') = pad8 bs"
    using key'(2) pad8_append [of "bits_of (key_contents (po_op_key po))" "pending po"] out by (simp add: out_bits_def)
  moreover have "uper_encode td pc (Some v) (Some cb) key = (int (length bs), key')"
    using assms(1) po(1) key'(1) len by (simp add: uper_encode_def)
  ultimately show ?thesis using that by blast
qed

lemma encode_to_new_buffer_ok:
  assumes "op_uper_encoder td = Some enc" "writes (enc pc (Some v)) bs"
  shows "uper_encode_to_new_buffer td pc (Some v) =
    (if bs = [] then (1, [0]) else (int ((length bs + 7) div 8), octets_of (pad8 bs)))"
proof -
  obtain key' where k: "uper_encode td pc (Some v) (Some encode_dyn_cb) (Key_dyn \<lparr>dyn_buffer = [], dyn_allocated = 0\<rparr>) = (int (length bs), key')"
    "bits_of (key_contents key') = pad8 bs"
    using uper_encode_ok [OF assms dyn.ok_absorbs, of "Key_dyn \<lparr>dyn_buffer = [], dyn_allocated = 0\<rparr>"] by auto
  have "drop_bit 3 (int (length bs) + 7) = int ((length bs + 7) div 8)" by (simp add: drop_bit_eq_div zdiv_int)
  moreover have "key_contents key' = octets_of (pad8 bs)" using k(2) by (metis octets_of_bits_of)
  ultimately show ?thesis using k(1) by (simp add: uper_encode_to_new_buffer_def)
qed

lemma pad8_nonempty: "bs \<noteq> [] \<Longrightarrow> 0 < (length bs + 7) div 8"
  by (cases bs) (auto simp: Suc_le_eq div_greater_zero_iff)

section \<open>Open types\<close>

definition open_code :: "bool list \<Rightarrow> bool list" where
  "open_code bs = frag_code (if bs = [] then [0] else octets_of (pad8 bs))"

lemma open_put_writes:
  assumes "op_uper_encoder td = Some enc" "writes (enc pc (Some v)) bs"
  shows "writes (uper_open_type_put td pc (Some v)) (open_code bs)"
proof -
  have "uper_open_type_put td pc (Some v) = (\<lambda>po. uper_put_octets po (if bs = [] then [0] else octets_of (pad8 bs)))"
    using encode_to_new_buffer_ok [OF assms] pad8_nonempty [of bs]
    by (auto simp: fun_eq_iff uper_open_type_put_def simp del: div_eq_0_iff)
  then show ?thesis using put_octets_writes by (simp add: open_code_def)
qed

text \<open>
  The check of the padding: up to seven bits of padding are accepted whatever they are, a
  whole octet only when it is zero and nothing precedes it.
\<close>

lemma open_get_padded:
  assumes dec: "op_uper_decoder td = Some dec" "reads (dec pc) bs (RC_OK r c)"
    and buf: "bits_of buf = bs @ pad" and pad: "length pad < 8 \<or> bs = [] \<and> pad = replicate 8 False"
  shows "reads (uper_open_type_get td pc) (frag_code buf) (RC_OK r c)"
proof -
  let ?spd = "new_pd buf 0 (8 * length buf)"
  have "src_bits ?spd = bs @ pad" using buf by (simp flip: length_bits_of)
  from dec(2) _ this obtain spd where spd: "dec pc ?spd = (RC_OK r c, spd)" "consumes ?spd bs spd" "src_bits spd = pad" "pd_inv spd"
    by (rule readsE) simp
  have left: "pd_nbits spd - pd_nboff spd = length pad" using length_src_bits [OF spd(4)] spd(3) by simp
  have "pd_nboff spd = 0 \<and> pd_buffer spd = 0 \<and> pd_nbits spd = 8 \<and> fst (asn_get_few_bits spd 8) = 0" if "\<not> length pad < 8"
  proof -
    have p: "bs = []" "pad = replicate 8 False" using pad that by auto
    moreover have "fst (asn_get_few_bits spd 8) = 0"
      using readsE [OF few_bits_reads [of "replicate 8 False"] spd(4), of "[]"] spd(3) p(2) by force
    ultimately show ?thesis using spd(2,4) left by (auto simp: consumes_def pd_pos_def new_pd_def)
  qed
  then have result: "(case the (op_uper_decoder td) pc ?spd of (rv, spd) \<Rightarrow>
       (case rv of RC_OK v consumed \<Rightarrow>
          let padding = pd_nbits spd - pd_nboff spd
          in if (padding > 0 \<and> padding < 8 \<or> pd_nboff spd = 0 \<and> pd_nbits spd = 8 \<and> pd_buffer spd = 0) \<and>
                fst (asn_get_few_bits spd (int padding)) = 0
             then RC_OK v consumed else if padding \<ge> 8 then RC_FAIL else RC_OK v consumed
        | _ \<Rightarrow> RC_FAIL)) = RC_OK r c"
    using dec(1) spd(1) left pad by (cases "length pad < 8") (auto simp: Let_def)
  show ?thesis
  proof (rule readsI)
    fix pd rest assume "pd_inv pd" "src_bits pd = frag_code buf @ rest"
    with fragments.dec_reads obtain pd' where pd': "uper_get_octets pd [] = (Some buf, pd')"
      "consumes pd (frag_code buf) pd'" "src_bits pd' = rest" by (auto elim: readsE)
    have "uper_open_type_get td pc pd = (RC_OK r c, pd')"
      using result pd'(1) by (simp add: uper_open_type_get_def split_beta)
    with pd' show "\<exists>pd'. uper_open_type_get td pc pd = (RC_OK r c, pd') \<and> consumes pd (frag_code buf) pd' \<and> src_bits pd' = rest"
      by blast
  qed
qed

lemma open_get_reads:
  assumes "op_uper_decoder td = Some dec" "reads (dec pc) bs (RC_OK r c)"
  shows "reads (uper_open_type_get td pc) (open_code bs) (RC_OK r c)"
proof (cases "bs = []")
  case True
  have "bits_of [0] = [] @ replicate 8 False" by code_simp
  with open_get_padded [OF assms [unfolded True], of "[0]" "replicate 8 False"] True show ?thesis by (simp add: open_code_def)
next
  case False
  have "bits_of (octets_of (pad8 bs)) = bs @ replicate ((8 - length bs mod 8) mod 8) False"
    using bits_of_octets_of [of "pad8 bs"] by (simp only: pad8_def [of bs, symmetric] length_pad8 dvd_triv_left)
  from open_get_padded [OF assms this] False show ?thesis by (simp add: open_code_def)
qed

lemma safe_open_type_get [safe]: "safe_get (uper_open_type_get td pc)"
  unfolding uper_open_type_get_def [abs_def] by (intro safe)

lemma safe_open_type_skip [safe]: "safe_get uper_open_type_skip"
  unfolding uper_open_type_skip_def [abs_def] by (intro safe)


lemma sot_suck_all: "pd_inv pd \<Longrightarrow> moves pd (uper_sot_suck_loop pd) \<and> src_bits (uper_sot_suck_loop pd) = []"
proof (induction pd rule: uper_sot_suck_loop.induct)
  case (1 pd)
  let ?r = "asn_get_few_bits pd 1"
  have m: "moves pd (snd ?r)" using few_bits_moves [OF "1.prems"] .
  show ?case
  proof (cases "src_bits pd")
    case Nil
    then have "?r = (-1, pd)" using asn_get_few_bits_starved [OF "1.prems", of 1] by simp
    then show ?thesis using Nil m by (subst (1 2) uper_sot_suck_loop.simps) simp
  next
    case (Cons b bs)
    from readsE [OF flag_reads [of b] "1.prems", of bs] Cons obtain pd' where
      r: "?r = (if b then 1 else 0, pd')" "pd_inv pd'" by auto
    with "1.IH" [OF r(1) [symmetric]] m show ?thesis
      by (subst (1 2) uper_sot_suck_loop.simps) (auto intro: moves_trans)
  qed
qed

lemma open_skip_reads: "reads uper_open_type_skip (open_code bs) 0"
proof -
  let ?td = "\<lparr>op_uper_decoder = Some (\<lambda>_. uper_sot_suck), op_uper_encoder = None\<rparr> :: unit asn_TYPE_descriptor"
  let ?buf = "if bs = [] then [0] else octets_of (pad8 bs)"
  let ?spd = "uper_sot_suck_loop (new_pd ?buf 0 (8 * length ?buf))"
  have s: "moves (new_pd ?buf 0 (8 * length ?buf)) ?spd" "src_bits ?spd = []"
    using sot_suck_all [of "new_pd ?buf 0 (8 * length ?buf)"] by simp_all
  have left: "pd_nbits ?spd - pd_nboff ?spd = 0" using length_src_bits [OF moves_inv [OF s(1)]] s(2) by simp
  have "reads (uper_open_type_get ?td None) (open_code bs) (RC_OK () (pd_moved ?spd))"
    unfolding open_code_def
  proof (rule readsI)
    fix pd rest assume "pd_inv pd" "src_bits pd = frag_code ?buf @ rest"
    with fragments.dec_reads obtain pd' where "uper_get_octets pd [] = (Some ?buf, pd')"
      "consumes pd (frag_code ?buf) pd'" "src_bits pd' = rest" by (auto elim: readsE)
    moreover from this(1) left have "uper_open_type_get ?td None pd = (RC_OK () (pd_moved ?spd), pd')"
      unfolding uper_open_type_get_def by (simp add: uper_sot_suck_def Let_def)
    ultimately show "\<exists>pd'. uper_open_type_get ?td None pd = (RC_OK () (pd_moved ?spd), pd') \<and>
        consumes pd (frag_code ?buf) pd' \<and> src_bits pd' = rest" by blast
  qed
  then show ?thesis
    by (rule reads_map [where h = "\<lambda>rv. case rv of RC_OK _ _ \<Rightarrow> 0 | _ \<Rightarrow> -1"]) (simp_all add: uper_open_type_skip_def [abs_def])
qed

section \<open>Complete decoding\<close>

lemma uper_decode_ok:
  assumes "op_uper_decoder td = Some dec" "reads (dec None) bs (RC_OK r c)" "bits_of octs = pad8 bs"
  shows "uper_decode td octs 0 0 = RC_OK r (length bs)"
proof -
  have "src_bits (new_pd octs 0 (8 * length octs)) = bs @ replicate ((8 - length bs mod 8) mod 8) False"
    using assms(3) by (simp flip: length_bits_of) (simp add: pad8_def)
  from readsE [OF assms(2) _ this] obtain pd' where
    "dec None (new_pd octs 0 (8 * length octs)) = (RC_OK r c, pd')" "consumes (new_pd octs 0 (8 * length octs)) bs pd'" by auto
  moreover from this(2) have "8 * pd_buffer pd' + pd_nboff pd' = length bs" by (simp add: consumes_def pd_pos_def new_pd_def)
  ultimately show ?thesis using assms(1) by (simp add: uper_decode_def Let_def) (simp add: new_pd_def)
qed

lemma encode_per_ok:
  assumes "op_uper_encoder td = Some enc" "writes (enc None (Some v)) bs"
  shows "encode_per td v = Some (octets_of (pad8 bs))"
proof -
  obtain key' where "uper_encode td None (Some v) (Some write_buffer) (Key_vector []) = (int (length bs), key')" "bits_of (key_contents key') = pad8 bs"
    using uper_encode_ok [OF assms vector.ok_absorbs, of "Key_vector []"] by auto
  moreover from this(2) have "key_contents key' = octets_of (pad8 bs)" by (metis octets_of_bits_of)
  ultimately show ?thesis by (simp add: encode_per_def)
qed

lemma decode_per_ok:
  assumes "op_uper_decoder td = Some dec" "reads (dec None) bs (RC_OK r c)" "bs \<noteq> []"
  shows "decode_per td (octets_of (pad8 bs)) = (True, Some r)"
proof -
  have "bits_of (octets_of (pad8 bs)) = pad8 bs" by (rule bits_of_octets_of) simp
  from uper_decode_ok [OF assms(1,2) this] show ?thesis using assms(3) by (simp add: decode_per_def uper_decode_complete_def)
qed


section \<open>Properties of complete encodings\<close>

definition boolean_td :: "int asn_TYPE_descriptor" where
  "boolean_td = \<lparr>op_uper_decoder = Some (\<lambda>_. BOOLEAN_decode_uper), op_uper_encoder = Some (\<lambda>_. BOOLEAN_encode_uper)\<rparr>"

definition null_td :: "unit asn_TYPE_descriptor" where
  "null_td = \<lparr>op_uper_decoder = Some (\<lambda>_. NULL_decode_uper), op_uper_encoder = Some (\<lambda>_ _. NULL_encode_uper)\<rparr>"

text \<open>
  An open type field accepts any padding of fewer than eight bits. The value decodes
  although the padding bits are not zero; the check meant to reject them falls through to
  success.
\<close>

theorem open_type_padding_unchecked:
  assumes "op_uper_decoder td = Some dec" "reads (dec pc) bs (RC_OK r c)" "bits_of buf = bs @ pad" "length pad < 8"
  shows "reads (uper_open_type_get td pc) (frag_code buf) (RC_OK r c)"
  using open_get_padded [OF assms(1-3)] assms(4) by blast

theorem open_type_padding_unchecked_witness:
  "reads (uper_open_type_get boolean_td None) (frag_code [0xC1]) (RC_OK 1 1)"
proof -
  have "reads BOOLEAN_decode_uper [True] (RC_OK 1 1)" using boolean_uper.dec_reads [of 1] by simp
  moreover have "bits_of [0xC1] = [True] @ [True, False, False, False, False, False, True]" by code_simp
  ultimately show ?thesis
    by (intro open_type_padding_unchecked [where dec = "\<lambda>_. BOOLEAN_decode_uper" and bs = "[True]" and
          pad = "[True, False, False, False, False, False, True]"]) (simp_all add: boolean_td_def)
qed

text \<open>
  C38: a value whose encoding has no bits cannot be sent alone. \<open>encode_per\<close> returns
  an empty buffer, without the zero octet that a complete encoding needs, and
  \<open>decode_per\<close> rejects the empty buffer.
\<close>

theorem empty_encoding_rejected:
  assumes "op_uper_encoder td = Some enc" "writes (enc None (Some v)) []"
    "op_uper_decoder td = Some dec" "reads (dec None) [] (RC_OK v c)"
  shows "encode_per td v = Some [] \<and> decode_per td [] = (False, None)"
  using encode_per_ok [OF assms(1,2)] uper_decode_ok [OF assms(3,4), of "[]"]
  by (simp add: pad8_def octets_of.simps decode_per_def uper_decode_complete_def)

theorem empty_encoding_rejected_witness: "encode_per null_td () = Some [] \<and> decode_per null_td [] = (False, None)"
proof (rule empty_encoding_rejected)
  show "op_uper_encoder null_td = Some (\<lambda>_ _. NULL_encode_uper)" "op_uper_decoder null_td = Some (\<lambda>_. NULL_decode_uper)"
    by (simp_all add: null_td_def)
  show "writes NULL_encode_uper []" "reads NULL_decode_uper [] (RC_OK () 0)"
    using null_uper.enc_writes null_uper.dec_reads by simp_all
qed

end
