(* ===== verification/Uper_Collections.thy ===== *)
theory Uper_Collections
  imports Octet_String Uper_Codec "HOL-Library.Multiset"
begin

unbundle bit_operations_syntax

text \<open>
  SET OF and SEQUENCE OF in unaligned PER: \<open>SET_OF_decode_uper\<close>, which decodes both,
  \<open>SET_OF_encode_uper\<close> and \<open>SEQUENCE_OF_encode_uper\<close>, with the sorted encoding of
  \<open>constr_SET_OF.c\<close> and the array of \<open>asn_SET_OF.c\<close>. A list is its array of
  pointers, \<open>None\<close> for a null pointer. The C library's \<open>qsort\<close> is an insertion
  sort over the code's comparison; the order of elements that compare equal is not
  specified by the library.
\<close>

section \<open>The array of elements\<close>

record 'v asn_anonymous_set =
  as_array :: "'v option list"
  as_count :: nat
  as_size :: nat

text \<open>Slots of the array that were allocated and never written are \<open>None\<close>, and so is the null pointer.\<close>

definition asn_set_add :: "'v asn_anonymous_set option \<Rightarrow> 'v option \<Rightarrow> int \<times> 'v asn_anonymous_set option" where
  "asn_set_add aso ptr =
     (case (aso, ptr) of
        (Some as, Some p) \<Rightarrow>
          let as1 = (if as_count as = as_size as then
                       let newsize = (if as_size as \<noteq> 0 then push_bit 1 (as_size as) else 4)
                       in as\<lparr>as_array := as_array as @ replicate (newsize - length (as_array as)) None, as_size := newsize\<rparr>
                     else as)
          in (0, Some (as1\<lparr>as_array := (as_array as1)[as_count as1 := Some p], as_count := as_count as1 + 1\<rparr>))
      | _ \<Rightarrow> (-1, aso))"

definition asn_set_del :: "'v asn_anonymous_set \<Rightarrow> int \<Rightarrow> 'v asn_anonymous_set" where
  "asn_set_del as number =
     (if number < 0 \<or> number \<ge> int (as_count as) then as
      else as\<lparr>as_array := (as_array as)[nat number := as_array as ! (as_count as - 1)], as_count := as_count as - 1\<rparr>)"

definition asn_set_empty :: "'v asn_anonymous_set \<Rightarrow> 'v asn_anonymous_set" where
  "asn_set_empty as = as\<lparr>as_array := [], as_count := 0, as_size := 0\<rparr>"

section \<open>Decoding\<close>

definition size_constraint ::
  "asn_per_constraints option \<Rightarrow> asn_per_constraints option \<Rightarrow> asn_per_constraint option" where
  "size_constraint td_constraints constraints = map_option pc_size (per_constraints td_constraints constraints)"

definition sized :: "asn_per_constraint option \<Rightarrow> bool" where
  "sized ct = (case ct of None \<Rightarrow> False | Some c \<Rightarrow> effective_bits c \<ge> 0)"

primrec get_elements ::
  "'v asn_TYPE_member \<Rightarrow> nat \<Rightarrow> nat \<Rightarrow> 'v list \<Rightarrow> asn_bit_data \<Rightarrow> 'v list dec_rval \<times> asn_bit_data" where
  "get_elements elm nelems 0 lst pd = (RC_OK lst 0, pd)"
| "get_elements elm nelems (Suc i) lst pd =
     (case memb_decode elm pd of (rv, pd') \<Rightarrow>
        (case rv of
           RC_OK v consumed \<Rightarrow>
             if consumed = 0 \<and> nelems > 200 then (RC_FAIL, pd') else get_elements elm nelems i (lst @ [v]) pd'
         | RC_WMORE \<Rightarrow> (RC_WMORE, pd')
         | RC_FAIL \<Rightarrow> (RC_FAIL, pd')))"

definition SET_OF_decode_body ::
  "'v asn_TYPE_member \<Rightarrow> asn_per_constraint option \<Rightarrow> asn_bit_data \<Rightarrow> 'v list dec_rval \<times> asn_bit_data" where
  "SET_OF_decode_body elm ct pd =
     (if sized ct then
        (case asn_get_few_bits pd (effective_bits (the ct)) of (nelems, pd1) \<Rightarrow>
           if nelems < 0 then (RC_WMORE, pd1)
           else let n = nelems + sint (lower_bound (the ct))
             in if n < 0 then get_fragments (\<lambda>k. get_elements elm k k) (-1) 0 [] pd1
                else get_elements elm (nat n) (nat n) [] pd1)
      else get_fragments (\<lambda>k. get_elements elm k k) (-1) 0 [] pd)"

definition SET_OF_decode_uper ::
  "'v asn_TYPE_member \<Rightarrow> asn_per_constraints option \<Rightarrow> asn_per_constraints option \<Rightarrow>
   asn_bit_data \<Rightarrow> 'v list dec_rval \<times> asn_bit_data" where
  "SET_OF_decode_uper elm td_constraints constraints pd =
     (let ct = size_constraint td_constraints constraints
      in if (case ct of None \<Rightarrow> False | Some c \<Rightarrow> apc_extensible c) then
           (case asn_get_few_bits pd 1 of (value, pd') \<Rightarrow>
              if value < 0 then (RC_WMORE, pd')
              else SET_OF_decode_body elm (if value \<noteq> 0 then None else ct) pd')
         else SET_OF_decode_body elm ct pd)"

section \<open>Encoding\<close>

fun put_elements :: "'v asn_TYPE_member \<Rightarrow> nat \<Rightarrow> 'v option list \<Rightarrow> asn_bit_outp \<Rightarrow> int \<times> asn_bit_outp" where
  "put_elements elm 0 lst po = (0, po)"
| "put_elements elm (Suc k) (Some v # lst) po =
     (case memb_encode elm v po of (encoded, po') \<Rightarrow> if encoded = -1 then (-1, po') else put_elements elm k lst po')"
| "put_elements elm (Suc k) _ po = (-1, po)"

text \<open>
  The part \<open>SET_OF_encode_uper\<close> and \<open>SEQUENCE_OF_encode_uper\<close> share. First
  the extension bit and the count of a size in the root: the status and the constraint that
  is left in force.
\<close>

definition put_count :: "asn_per_constraint option \<Rightarrow> nat \<Rightarrow> asn_bit_outp \<Rightarrow> int \<times> asn_bit_outp" where
  "put_count ct list_count po =
     (if sized ct then
        (case asn_put_few_bits po (word_of_int (int list_count - sint (lower_bound (the ct)))) (effective_bits (the ct)) of (r, po1) \<Rightarrow>
           (if r \<noteq> 0 then -1 else 0, po1))
      else (0, po))"

definition put_list_size ::
  "asn_per_constraint option \<Rightarrow> nat \<Rightarrow> asn_bit_outp \<Rightarrow> (int \<times> asn_per_constraint option) \<times> asn_bit_outp" where
  "put_list_size ct list_count po =
     (case ct of
        None \<Rightarrow> ((0, None), po)
      | Some c \<Rightarrow>
          let not_in_root = (int list_count < sint (lower_bound c) \<or> int list_count > sint (upper_bound c))
          in if apc_extensible c then
               (case asn_put_few_bits po (if not_in_root then 1 else 0) 1 of (r, po1) \<Rightarrow>
                  if r \<noteq> 0 then ((-1, ct), po1)
                  else let ct' = (if not_in_root then None else ct)
                    in case put_count ct' list_count po1 of (r, po2) \<Rightarrow> ((r, ct'), po2))
             else if not_in_root \<and> effective_bits c \<ge> 0 then ((-1, ct), po)
             else (case put_count ct list_count po of (r, po1) \<Rightarrow> ((r, ct), po1)))"

text \<open>Then the elements: \<open>chunk\<close> writes the next elements of \<open>d\<close>.\<close>

definition put_list ::
  "(nat \<Rightarrow> 'd \<Rightarrow> asn_bit_outp \<Rightarrow> int \<times> asn_bit_outp) \<Rightarrow> (nat \<Rightarrow> 'd \<Rightarrow> 'd) \<Rightarrow> asn_per_constraint option \<Rightarrow> nat \<Rightarrow> 'd \<Rightarrow>
   asn_bit_outp \<Rightarrow> int \<times> asn_bit_outp" where
  "put_list chunk advance ct list_count d po =
     (case put_list_size ct list_count po of ((r, ct'), po1) \<Rightarrow>
        if r \<noteq> 0 then (-1, po1)
        else if sized ct' then
          if list_count = 0 then (0, po1)
          else (case chunk list_count d po1 of (r, po2) \<Rightarrow> (if r \<noteq> 0 then -1 else 0, po2))
        else if list_count = 0 then
          (case uper_put_length po1 0 of ((r, _), po2) \<Rightarrow> (if r \<noteq> 0 then -1 else 0, po2))
        else put_fragments chunk advance list_count d po1)"

definition SEQUENCE_OF_encode_uper ::
  "'v asn_TYPE_member \<Rightarrow> asn_per_constraints option \<Rightarrow> asn_per_constraints option \<Rightarrow>
   'v option list option \<Rightarrow> asn_bit_outp \<Rightarrow> int \<times> asn_bit_outp" where
  "SEQUENCE_OF_encode_uper elm td_constraints constraints sptr po =
     (case sptr of
        None \<Rightarrow> (-1, po)
      | Some lst \<Rightarrow> put_list (put_elements elm) drop (size_constraint td_constraints constraints) (length lst) lst po)"

text \<open>The assertions on the unused bits hold for what \<open>uper_encode\<close> delivers.\<close>

definition el_buf_cmp :: "el_buffer \<Rightarrow> el_buffer \<Rightarrow> int" where
  "el_buf_cmp a b =
     (let common_len = (if length (el_buf a) < length (el_buf b) then length (el_buf a) else length (el_buf b));
          ret = memcmp (take common_len (el_buf a)) (take common_len (el_buf b))
      in if ret = 0 then
           if length (el_buf a) < length (el_buf b) then -1
           else if length (el_buf a) > length (el_buf b) then 1
           else 0
         else ret)"

primrec insert_el :: "el_buffer \<Rightarrow> el_buffer list \<Rightarrow> el_buffer list" where
  "insert_el e [] = [e]"
| "insert_el e (x # xs) = (if el_buf_cmp e x \<le> 0 then e # x # xs else x # insert_el e xs)"

definition qsort_els :: "el_buffer list \<Rightarrow> el_buffer list" where
  "qsort_els els = foldr insert_el els []"

text \<open>The key stays the element's buffer, so this is that buffer with its unused bits set.\<close>

definition encode_el :: "'v asn_TYPE_member \<Rightarrow> 'v \<Rightarrow> el_buffer option" where
  "encode_el elm v =
     (case uper_encode (memb_type elm) (memb_constraints elm) (Some v) (Some el_addbytes)
         (Key_el \<lparr>el_buf = [], el_bits_unused = 0, el_allocated = 0\<rparr>) of (encoded, key) \<Rightarrow>
        if encoded < 0 then None
        else Some \<lparr>el_buf = key_contents key, el_bits_unused = (8 - nat encoded mod 8) AND 0x7,
               el_allocated = (case key of Key_el e \<Rightarrow> el_allocated e | _ \<Rightarrow> 0)\<rparr>)"

primrec encode_els :: "'v asn_TYPE_member \<Rightarrow> 'v option list \<Rightarrow> el_buffer list option" where
  "encode_els elm [] = Some []"
| "encode_els elm (m # ms) =
     (case m of None \<Rightarrow> None
      | Some v \<Rightarrow> (case encode_el elm v of None \<Rightarrow> None
          | Some e \<Rightarrow> (case encode_els elm ms of None \<Rightarrow> None | Some es \<Rightarrow> Some (e # es))))"

definition SET_OF_encode_sorted :: "'v asn_TYPE_member \<Rightarrow> 'v option list \<Rightarrow> el_buffer list option" where
  "SET_OF_encode_sorted elm lst = map_option qsort_els (encode_els elm lst)"

text \<open>A failing write only ends the inner loop of the code.\<close>

fun put_encoded_els :: "nat \<Rightarrow> el_buffer list \<Rightarrow> asn_bit_outp \<Rightarrow> int \<times> asn_bit_outp" where
  "put_encoded_els 0 els po = (0, po)"
| "put_encoded_els (Suc k) [] po = (0, po)"
| "put_encoded_els (Suc k) (e # els) po =
     (case asn_put_many_bits po (el_buf e) (8 * int (length (el_buf e)) - int (el_bits_unused e)) of (r, po') \<Rightarrow>
        if r < 0 then (0, po') else put_encoded_els k els po')"

text \<open>
  The code does not check that the sorted encoding succeeded: with a null array and
  elements to write it dereferences the null pointer, here the result \<open>None\<close>.
\<close>

definition SET_OF_encode_uper ::
  "'v asn_TYPE_member \<Rightarrow> asn_per_constraints option \<Rightarrow> asn_per_constraints option \<Rightarrow>
   'v option list option \<Rightarrow> asn_bit_outp \<Rightarrow> (int \<times> asn_bit_outp) option" where
  "SET_OF_encode_uper elm td_constraints constraints sptr po =
     (case sptr of
        None \<Rightarrow> Some (-1, po)
      | Some lst \<Rightarrow>
          let ct = size_constraint td_constraints constraints
          in case SET_OF_encode_sorted elm lst of
             Some els \<Rightarrow> Some (put_list put_encoded_els drop ct (length lst) els po)
           | None \<Rightarrow>
               (case put_list_size ct (length lst) po of ((r, ct'), po1) \<Rightarrow>
                  if r \<noteq> 0 then Some (-1, po1)
                  else if sized ct' then None
                  else (case uper_put_length po1 (length lst) of ((may_encode, _), po2) \<Rightarrow>
                          if may_encode < 0 then Some (-1, po2) else None)))"

section \<open>Lists of elements on the wire\<close>

definition list_out :: "asn_per_constraint \<Rightarrow> nat \<Rightarrow> bool" where
  "list_out c n \<longleftrightarrow> int n < sint (lower_bound c) \<or> int n > sint (upper_bound c)"

definition list_ok :: "asn_per_constraint option \<Rightarrow> nat \<Rightarrow> bool" where
  "list_ok ct n \<longleftrightarrow> (case ct of None \<Rightarrow> True | Some c \<Rightarrow> size_ok c \<and> (effective_bits c \<ge> 0 \<and> list_out c n \<longrightarrow> apc_extensible c))"

definition list_code :: "asn_per_constraint option \<Rightarrow> bool list list \<Rightarrow> bool list" where
  "list_code ct cs =
     (case ct of
        None \<Rightarrow> unit_frags cs
      | Some c \<Rightarrow> (if apc_extensible c then [list_out c (length cs)] else []) @
          (if effective_bits c \<ge> 0 \<and> \<not> list_out c (length cs)
           then nat_bl (nat (effective_bits c)) (length cs - nat (sint (lower_bound c))) @ concat cs
           else unit_frags cs))"

lemma unit_frags_short: "length us < 16384 \<Longrightarrow> unit_frags us = length_code (length us) @ concat us"
  by (subst unit_frags.simps) (simp add: length_part_def)

lemma get_fragments_single:
  assumes "n < 16384" "reads (chunk n acc) bits (RC_OK acc' c)"
  shows "reads (get_fragments chunk (-1) lb acc) (length_code n @ bits) (RC_OK acc' 0)"
proof (rule readsI)
  fix pd rest assume pd: "pd_inv pd" "src_bits pd = (length_code n @ bits) @ rest"
  from readsE [OF uper_get_length_reads [of "-1" lb n] pd(1), of "bits @ rest"] pd(2) assms(1) obtain p1 where
    p1: "uper_get_length pd (-1) lb = ((int n, False), p1)" "consumes pd (length_code n) p1" "src_bits p1 = bits @ rest" "pd_inv p1"
    by (auto simp: length_part_def)
  from assms(2) p1(4,3) obtain p2 where p2: "chunk n acc p1 = (RC_OK acc' c, p2)" "consumes p1 bits p2" "src_bits p2 = rest"
    by (rule readsE)
  have "get_fragments chunk (-1) lb acc pd = (RC_OK acc' 0, p2)" using p1(1) p2(1) by (subst get_fragments.simps) simp
  with consumes_trans [OF p1(2) p2(2)] p2(3) show "\<exists>pd'. get_fragments chunk (-1) lb acc pd = (RC_OK acc' 0, pd') \<and>
    consumes pd (length_code n @ bits) pd' \<and> src_bits pd' = rest" by blast
qed

text \<open>A writer of units makes a list writer.\<close>

context fragment_writer
begin

lemma put_list_writes:
  assumes "holds d us" "list_ok ct (length us)"
  shows "writes (put_list chunk advance ct (length us) d) (list_code ct us)"
proof -
  let ?n = "length us"
  have all: "writes (\<lambda>po. case chunk ?n d po of (r, po2) \<Rightarrow> (if r \<noteq> 0 then -1 else 0, po2)) (concat us)"
    using writes_status [OF chunk_writes [OF assms(1) order_refl]] by simp
  have frags: "writes (\<lambda>po. if ?n = 0 then (case uper_put_length po 0 of ((r, _), po2) \<Rightarrow> (if r \<noteq> 0 then -1 else 0, po2))
      else put_fragments chunk advance ?n d po) (unit_frags us)"
  proof (cases "us = []")
    case True
    have "unit_frags [] = length_code 0" by (subst unit_frags.simps) (simp add: length_part_def)
    moreover have "writes (\<lambda>po. case uper_put_length po 0 of ((r, _), po2) \<Rightarrow> (if r \<noteq> 0 then -1 else 0, po2)) (length_code 0)"
      using uper_put_length_eom [of _ 0] by (intro writesI) (force simp: length_part_def)
    ultimately show ?thesis using True by simp
  qed (use put_fragments_writes [OF assms(1)] in simp)
  define body where "body = (\<lambda>ct' po. if sized ct' then if ?n = 0 then (0, po)
        else (case chunk ?n d po of (r, po2) \<Rightarrow> (if r \<noteq> 0 then -1 else 0, po2))
      else if ?n = 0 then (case uper_put_length po 0 of ((r, _), po2) \<Rightarrow> (if r \<noteq> 0 then -1 else 0, po2))
      else put_fragments chunk advance ?n d po)"
  have none: "writes (body None) (unit_frags us)" using frags by (simp add: body_def sized_def)
  show ?thesis
  proof (cases ct)
    case None
    then have "put_list chunk advance ct ?n d = body None" by (simp add: fun_eq_iff put_list_def put_list_size_def body_def sized_def)
    with none None show ?thesis by (simp add: list_code_def)
  next
    case (Some c)
    let ?out = "list_out c ?n"
    have ok: "size_ok c" "effective_bits c \<ge> 0 \<and> ?out \<longrightarrow> apc_extensible c" using assms(2) Some by (auto simp: list_ok_def)
    define rooted where "rooted = then_put (put_count (Some c) ?n) (body (Some c))"
    define code where "code = (if effective_bits c \<ge> 0 then nat_bl (nat (effective_bits c)) (?n - nat (sint (lower_bound c))) @ concat us else unit_frags us)"
    have root: "writes rooted code" if "effective_bits c \<ge> 0 \<longrightarrow> \<not> ?out"
    proof (cases "effective_bits c \<ge> 0")
      case True
      let ?v = "int ?n - sint (lower_bound c)"
      have v: "0 \<le> ?v" "nat (effective_bits c) \<le> 31" "nat ?v = ?n - nat (sint (lower_bound c))"
        using True that ok(1) by (auto simp: list_out_def size_ok_def nat_le_iff nat_diff_distrib)
      have "writes (put_count (Some c) ?n) (nat_bl (nat (effective_bits c)) (nat ?v))"
        using writes_status [OF few_int_writes [OF v(2,1)]] True by (simp add: put_count_def [abs_def] sized_def)
      moreover have "writes (body (Some c)) (concat us)"
      proof (cases "us = []")
        case True
        then show ?thesis using \<open>effective_bits c \<ge> 0\<close> by (auto simp: body_def sized_def intro: writesI puts_refl)
      qed (use all True in \<open>simp add: body_def sized_def\<close>)
      ultimately show ?thesis using then_put_writes v(3) True by (simp add: rooted_def code_def)
    next
      case False
      have "writes (put_count (Some c) ?n) []" using False by (auto simp: put_count_def [abs_def] sized_def intro: writesI puts_refl)
      from then_put_writes [OF this, of "body (Some c)"] frags False show ?thesis
        by (simp add: rooted_def code_def body_def sized_def)
    qed
    have eq: "put_list chunk advance (Some c) ?n d = (if apc_extensible c
      then then_put (\<lambda>po. asn_put_few_bits po (if ?out then 1 else 0) 1) (if ?out then body None else rooted) else rooted)"
      using ok(2)
      by (auto simp: fun_eq_iff put_list_def put_list_size_def rooted_def then_put_def body_def Let_def split_beta
          list_out_def put_count_def sized_def)
    show ?thesis
    proof (cases "apc_extensible c")
      case True
      have "writes (if ?out then body None else rooted) (if ?out then unit_frags us else code)" using none root by simp
      from then_put_writes [OF flag_writes [of ?out] this] show ?thesis
        using True Some by (cases ?out) (auto simp: eq list_code_def code_def)
    next
      case False
      then show ?thesis using root ok(2) Some by (auto simp: eq list_code_def code_def)
    qed
  qed
qed

end

text \<open>
  The decoder gives up on more than 200 elements whose decoder reports that it has consumed
  nothing.
\<close>

definition elements_ok :: "('v \<Rightarrow> bool) \<Rightarrow> ('v \<Rightarrow> nat) \<Rightarrow> 'v list \<Rightarrow> bool" where
  "elements_ok ok used vs \<longleftrightarrow> list_all ok vs \<and> (length vs \<le> 200 \<or> (\<forall>v\<in>set vs. used v \<noteq> 0))"

text \<open>
  What the type of the elements promises: its decoder stays inside the stream, and then
  that its encoder and decoder agree.
\<close>

locale element_reader =
  fixes elm :: "'v asn_TYPE_member"
  assumes elm_safe: "safe_get (memb_decode elm)"
begin

lemma get_elements_safe: "safe_get (get_elements elm n i lst)"
proof (induction i arbitrary: lst)
  case 0
  then show ?case by (simp add: safe)
next
  case (Suc i)
  have "safe_get (\<lambda>pd'. case rv of RC_OK v consumed \<Rightarrow> if consumed = 0 \<and> n > 200 then (RC_FAIL, pd') else get_elements elm n i (lst @ [v]) pd'
         | RC_WMORE \<Rightarrow> (RC_WMORE, pd') | RC_FAIL \<Rightarrow> (RC_FAIL, pd'))" for rv
  proof (cases rv)
    case (RC_OK v consumed)
    show ?thesis unfolding RC_OK dec_rval.case by (intro safe_if safe_return Suc.IH)
  qed (simp_all add: safe_return)
  from safe_bind [OF elm_safe this] show ?case by simp
qed

lemma SET_OF_decode_safe: "safe_get (SET_OF_decode_uper elm tc c)"
  unfolding SET_OF_decode_uper_def [abs_def] SET_OF_decode_body_def [abs_def]
  by (intro safe get_elements_safe)

end

locale element_codec = element_reader elm for elm :: "'v asn_TYPE_member" +
  fixes code :: "'v \<Rightarrow> bool list" and res :: "'v \<Rightarrow> 'v" and used :: "'v \<Rightarrow> nat" and ok :: "'v \<Rightarrow> bool"
  assumes elm_writes: "ok v \<Longrightarrow> writes (memb_encode elm v) (code v)"
    and elm_reads: "ok v \<Longrightarrow> reads (memb_decode elm) (code v) (RC_OK (res v) (used v))"
    and elm_ops: "op_uper_encoder (memb_type elm) \<noteq> None" "op_uper_decoder (memb_type elm) \<noteq> None"
begin

lemma get_elements_reads:
  "list_all ok vs \<Longrightarrow> n \<le> 200 \<or> (\<forall>v\<in>set vs. used v \<noteq> 0) \<Longrightarrow>
    reads (get_elements elm n (length vs) lst) (concat (map code vs)) (RC_OK (lst @ map res vs) 0)"
proof (induction vs arbitrary: lst)
  case Nil
  then show ?case using reads_return [of "RC_OK lst 0"] by simp
next
  case (Cons v vs)
  let ?g = "\<lambda>rv pd'. case rv of RC_OK v consumed \<Rightarrow> if consumed = 0 \<and> n > 200 then (RC_FAIL, pd') else get_elements elm n (length vs) (lst @ [v]) pd'
         | RC_WMORE \<Rightarrow> (RC_WMORE, pd') | RC_FAIL \<Rightarrow> (RC_FAIL, pd')"
  have v: "reads (memb_decode elm) (code v) (RC_OK (res v) (used v))" using Cons.prems(1) elm_reads by simp
  have "\<not> (used v = 0 \<and> n > 200)" using Cons.prems(2) by auto
  moreover have "reads (get_elements elm n (length vs) (lst @ [res v])) (concat (map code vs)) (RC_OK ((lst @ [res v]) @ map res vs) 0)"
    using Cons by (intro Cons.IH) auto
  ultimately have "reads (?g (RC_OK (res v) (used v))) (concat (map code vs)) (RC_OK (lst @ map res (v # vs)) 0)"
    by (auto simp: fun_eq_iff cong: if_cong)
  then show ?case by (rule reads_then [where g = ?g, OF v]) (simp_all add: fun_eq_iff)
qed

lemma put_elements_writes:
  "list_all ok vs \<Longrightarrow> writes (put_elements elm (length vs) (map Some vs @ rest)) (concat (map code vs))"
proof (induction vs)
  case Nil
  then show ?case by (auto intro: writesI puts_refl)
next
  case (Cons v vs)
  show ?case
  proof (rule writesI)
    fix po assume "po_inv po"
    with elm_writes [of v] Cons.prems obtain p where p: "memb_encode elm v po = (0, p)" "puts po (code v) p" "po_inv p"
      by (auto elim: writesE)
    from Cons p(3) obtain q where "put_elements elm (length vs) (map Some vs @ rest) p = (0, q)" "puts p (concat (map code vs)) q"
      by (auto elim: writesE)
    with p puts_trans [OF p(2)] show "\<exists>po'. put_elements elm (length (v # vs)) (map Some (v # vs) @ rest) po = (0, po') \<and> puts po (concat (map code (v # vs))) po'"
      by auto
  qed
qed

end

sublocale element_codec \<subseteq> big: fragment_reader "\<lambda>k. get_elements elm k k" "map res" code "\<lambda>v. ok v \<and> used v \<noteq> 0"
proof (unfold_locales, goal_cases)
  case (1 k a)
  show ?case by (rule get_elements_safe)
next
  case (2 us vs)
  then have "list_all ok vs" "\<forall>v\<in>set vs. used v \<noteq> 0" by (auto simp: list_all_iff)
  then show ?case using get_elements_reads [of vs "length vs" "map res us"] by auto
qed

sublocale element_codec \<subseteq> seq: fragment_writer "put_elements elm" drop
  "\<lambda>lst us. \<exists>vs. lst = map Some vs \<and> list_all ok vs \<and> us = map code vs"
proof (unfold_locales, goal_cases)
  case (1 d us k)
  then obtain vs where vs: "d = map Some vs" "list_all ok vs" "us = map code vs" "k \<le> length vs" by auto
  have "list_all ok (take k vs)" using vs(2) by (metis append_take_drop_id list_all_append)
  from put_elements_writes [OF this, of "map Some (drop k vs)"] vs show ?case
    by (simp add: take_map min_absorb2 flip: map_append)
next
  case (2 d us k)
  then obtain vs where vs: "d = map Some vs" "list_all ok vs" "us = map code vs" by auto
  have "list_all ok (drop k vs)" using vs(2) by (metis append_take_drop_id list_all_append)
  with vs show ?case by (auto simp: drop_map)
qed

context element_codec
begin

lemma list_fragments_reads:
  assumes "elements_ok ok used vs"
  shows "reads (get_fragments (\<lambda>k. get_elements elm k k) (-1) 0 []) (unit_frags (map code vs)) (RC_OK (map res vs) 0)"
proof (cases "length vs \<le> 200")
  case True
  then have "reads (get_elements elm (length vs) (length vs) []) (concat (map code vs)) (RC_OK (map res vs) 0)"
    using get_elements_reads [of vs "length vs" "[]"] assms by (simp add: elements_ok_def)
  with True show ?thesis using get_fragments_single [of "length vs" "\<lambda>k. get_elements elm k k"] by (simp add: unit_frags_short)
next
  case False
  then have "list_all (\<lambda>v. ok v \<and> used v \<noteq> 0) vs" using assms by (auto simp: elements_ok_def list_all_iff)
  then show ?thesis using big.get_fragments_reads [where us = "[]" and vs = vs and ebits = "-1" and lb = 0] by simp
qed

lemma list_body_reads:
  assumes "elements_ok ok used vs" "case ct of None \<Rightarrow> True | Some c \<Rightarrow> size_ok c \<and> (effective_bits c \<ge> 0 \<longrightarrow> \<not> list_out c (length vs))"
  shows "reads (SET_OF_decode_body elm ct) (if sized ct
      then nat_bl (nat (effective_bits (the ct))) (length vs - nat (sint (lower_bound (the ct)))) @ concat (map code vs)
      else unit_frags (map code vs)) (RC_OK (map res vs) 0)"
proof (cases "sized ct")
  case True
  then obtain c where c: "ct = Some c" "effective_bits c \<ge> 0" by (auto simp: sized_def split: option.splits)
  let ?lb = "sint (lower_bound c)" and ?k = "nat (effective_bits c)"
  have b: "0 \<le> ?lb" "?lb \<le> int (length vs)" "?k \<le> 31" "int (length vs) - ?lb < 2 ^ ?k"
    using assms(2) c by (auto simp: size_ok_def list_out_def nat_le_iff)
  have "int (length vs - nat ?lb) < int (2 ^ ?k)" using b by (simp add: of_nat_diff nat_le_iff)
  then have "length vs - nat ?lb < 2 ^ ?k" by (simp only: of_nat_less_iff)
  then have few: "reads (\<lambda>pd. asn_get_few_bits pd (effective_bits c)) (nat_bl ?k (length vs - nat ?lb)) (int (length vs - nat ?lb))"
    using few_bits_at [OF b(3), of "length vs - nat ?lb"] c(2) by simp
  have n: "nat (int (length vs - nat ?lb) + ?lb) = length vs" using b(1,2) by (simp add: of_nat_diff nat_le_iff)
  have els: "reads (get_elements elm (length vs) (length vs) []) (concat (map code vs)) (RC_OK (map res vs) 0)"
    using get_elements_reads [of vs "length vs" "[]"] assms(1) by (simp add: elements_ok_def)
  show ?thesis
    unfolding if_P [OF True] c(1) option.sel
    by (rule reads_then [where g = "\<lambda>nelems pd1. if nelems < 0 then (RC_WMORE, pd1)
           else let n = nelems + ?lb in if n < 0 then get_fragments (\<lambda>k. get_elements elm k k) (-1) 0 [] pd1
                else get_elements elm (nat n) (nat n) [] pd1", OF few])
      (use els n b c True in \<open>simp_all add: fun_eq_iff SET_OF_decode_body_def Let_def split_beta\<close>)
next
  case False
  then show ?thesis using list_fragments_reads [OF assms(1)] by (simp add: SET_OF_decode_body_def [abs_def])
qed

lemma SET_OF_decode_reads:
  assumes "elements_ok ok used vs" "ct = size_constraint tc c" "list_ok ct (length vs)"
  shows "reads (SET_OF_decode_uper elm tc c) (list_code ct (map code vs)) (RC_OK (map res vs) 0)"
proof (cases ct)
  case None
  with list_body_reads [OF assms(1), of None] assms(2) show ?thesis
    by (simp add: SET_OF_decode_uper_def [abs_def] list_code_def sized_def)
next
  case (Some d)
  let ?out = "list_out d (length vs)" and ?r = "RC_OK (map res vs) 0"
  let ?g = "\<lambda>(value :: int) pd'. if value < 0 then (RC_WMORE, pd') else SET_OF_decode_body elm (if value \<noteq> 0 then None else Some d) pd'"
  have ok: "size_ok d" "effective_bits d \<ge> 0 \<and> ?out \<longrightarrow> apc_extensible d" using assms(3) Some by (auto simp: list_ok_def)
  define bits where "bits = (if effective_bits d \<ge> 0 \<and> \<not> ?out
    then nat_bl (nat (effective_bits d)) (length vs - nat (sint (lower_bound d))) @ concat (map code vs) else unit_frags (map code vs))"
  have body: "reads (SET_OF_decode_body elm (if ?out \<and> apc_extensible d then None else ct)) bits ?r"
    using list_body_reads [OF assms(1), of None] list_body_reads [OF assms(1), of ct] ok Some
    by (auto simp: bits_def sized_def split: if_splits)
  have code: "list_code ct (map code vs) = (if apc_extensible d then [?out] else []) @ bits"
    by (simp add: list_code_def Some bits_def)
  show ?thesis
  proof (cases "apc_extensible d")
    case True
    have "reads (?g (if ?out then 1 else 0)) bits ?r" using body True Some by (cases ?out) simp_all
    then have "reads (\<lambda>pd. case asn_get_few_bits pd 1 of (r, pd') \<Rightarrow> ?g r pd') (?out # bits) ?r" by (rule reads_flag)
    with True show ?thesis unfolding code by (simp add: SET_OF_decode_uper_def [abs_def] Some flip: assms(2))
  next
    case False
    with body show ?thesis unfolding code by (simp add: SET_OF_decode_uper_def [abs_def] Some flip: assms(2))
  qed
qed

lemma SEQUENCE_OF_encode_writes:
  assumes "list_all ok vs" "ct = size_constraint tc c" "list_ok ct (length vs)"
  shows "writes (SEQUENCE_OF_encode_uper elm tc c (Some (map Some vs))) (list_code ct (map code vs))"
  using seq.put_list_writes [of "map Some vs" "map code vs" ct] assms
  by (auto simp: SEQUENCE_OF_encode_uper_def [abs_def])

end

section \<open>Sorted encodings\<close>

definition el_bits :: "el_buffer \<Rightarrow> bool list" where
  "el_bits e = take (8 * length (el_buf e) - el_bits_unused e) (bits_of (el_buf e))"

definition el_ok :: "el_buffer \<Rightarrow> bool" where
  "el_ok e \<longleftrightarrow> bits_of (el_buf e) = el_bits e @ replicate (el_bits_unused e) False \<and> el_bits_unused e < 8"

definition el_le :: "el_buffer \<Rightarrow> el_buffer \<Rightarrow> bool" where
  "el_le a b \<longleftrightarrow> el_buf a = el_buf b \<or> octets_less (el_buf a) (el_buf b)"

lemma octets_less_trans: "octets_less as bs \<Longrightarrow> octets_less bs cs \<Longrightarrow> octets_less as cs"
proof (induction as bs arbitrary: cs rule: octets_less.induct)
  case (2 b bs)
  then show ?case by (cases cs) auto
next
  case (3 a as b bs)
  then show ?case by (cases cs) auto
qed simp

lemma octets_less_total: "octets_less as bs \<or> as = bs \<or> octets_less bs as"
proof (induction as bs rule: octets_less.induct)
  case (1 as)
  then show ?case by (cases as) auto
qed auto

lemma el_le_trans: "el_le a b \<Longrightarrow> el_le b c \<Longrightarrow> el_le a c"
  using octets_less_trans by (auto simp: el_le_def)

lemma el_buf_cmp_le: "el_buf_cmp a b \<le> 0 \<longleftrightarrow> el_le a b"
proof -
  have "el_buf_cmp a b \<le> 0 \<longleftrightarrow> (let n = (if length (el_buf a) \<le> length (el_buf b) then length (el_buf a) else length (el_buf b));
     ret = memcmp (take n (el_buf a)) (take n (el_buf b))
    in if ret = 0 then if length (el_buf a) < length (el_buf b) then -1 else if length (el_buf a) > length (el_buf b) then 1 else 0
       else if ret < 0 then -1 else (1::int)) \<le> 0"
    by (auto simp: el_buf_cmp_def Let_def)
  then show ?thesis unfolding memcmp_prefix by (auto simp: el_le_def)
qed

lemma set_insert_el: "set (insert_el e xs) = insert e (set xs)"
  by (induction xs) auto

lemma insert_el_sorted: "sorted_wrt el_le xs \<Longrightarrow> sorted_wrt el_le (insert_el e xs)"
proof (induction xs)
  case (Cons x xs)
  have "el_le x e" if "\<not> el_le e x" using that octets_less_total by (auto simp: el_le_def)
  with Cons show ?case by (auto simp: el_buf_cmp_le set_insert_el intro: el_le_trans)
qed simp

lemma qsort_els_sorted: "sorted_wrt el_le (qsort_els els)"
  by (induction els) (simp_all add: qsort_els_def insert_el_sorted)

lemma insert_el_map: "\<exists>ws'. mset ws' = add_mset v (mset ws) \<and> insert_el (f v) (map f ws) = map f ws'"
proof (induction ws)
  case Nil
  show ?case by (intro exI [of _ "[v]"]) simp
next
  case (Cons w ws)
  then obtain ws' where ws': "mset ws' = add_mset v (mset ws)" "insert_el (f v) (map f ws) = map f ws'" by blast
  show ?case
  proof (cases "el_buf_cmp (f v) (f w) \<le> 0")
    case True
    then show ?thesis by (intro exI [of _ "v # w # ws"]) simp
  next
    case False
    then show ?thesis using ws' by (intro exI [of _ "w # ws'"]) simp
  qed
qed

lemma qsort_els_map: "\<exists>ws. mset ws = mset vs \<and> qsort_els (map f vs) = map f ws"
proof (induction vs)
  case Nil
  show ?case by (intro exI [of _ "[]"]) (simp add: qsort_els_def)
next
  case (Cons v vs)
  then obtain ws where "mset ws = mset vs" "qsort_els (map f vs) = map f ws" by blast
  moreover obtain ws' where "mset ws' = add_mset v (mset ws)" "insert_el (f v) (map f ws) = map f ws'" using insert_el_map [of v ws f] by blast
  ultimately show ?case by (intro exI [of _ ws']) (simp add: qsort_els_def)
qed

interpretation sorted_els: fragment_writer put_encoded_els drop "\<lambda>els us. list_all el_ok els \<and> us = map el_bits els"
proof (unfold_locales, goal_cases)
  case (1 els us k)
  have el: "writes (\<lambda>po. asn_put_many_bits po (el_buf e) (8 * int (length (el_buf e)) - int (el_bits_unused e))) (el_bits e)" if "el_ok e" for e
  proof -
    have "8 * length (el_buf e) = length (el_bits e) + el_bits_unused e"
      using that unfolding el_ok_def by (metis length_append length_bits_of length_replicate)
    then have "8 * int (length (el_buf e)) - int (el_bits_unused e) = int (8 * length (el_buf e) - el_bits_unused e)" by linarith
    then show ?thesis unfolding el_bits_def by (intro writesI) (simp only:, rule asn_put_many_bits_ok, simp_all)
  qed
  have "k \<le> length xs \<Longrightarrow> list_all el_ok xs \<Longrightarrow> writes (put_encoded_els k xs) (concat (take k (map el_bits xs)))" for k xs
  proof (induction xs arbitrary: k)
    case Nil
    then show ?case by (auto intro: writesI puts_refl)
  next
    case (Cons e els)
    show ?case
    proof (cases k)
      case 0
      then show ?thesis by (auto intro: writesI puts_refl)
    next
      case (Suc j)
      show ?thesis
      proof (rule writesI)
        fix po assume "po_inv po"
        with el [of e] Cons.prems(2) obtain p where p: "asn_put_many_bits po (el_buf e) (8 * int (length (el_buf e)) - int (el_bits_unused e)) = (0, p)"
          "puts po (el_bits e) p" "po_inv p" by (auto elim: writesE)
        from Cons.IH [of j] Cons.prems Suc p(3) obtain q where
          "put_encoded_els j els p = (0, q)" "puts p (concat (take j (map el_bits els))) q" by (auto elim: writesE)
        with p puts_trans [OF p(2)] Suc show "\<exists>po'. put_encoded_els k (e # els) po = (0, po') \<and> puts po (concat (take k (map el_bits (e # els)))) po'"
          by auto
      qed
    qed
  qed
  with 1 show ?case by simp
next
  case (2 els us k)
  then show ?case by (metis append_take_drop_id drop_map list_all_append)
qed

lemma mod_8_unused:
  fixes n :: nat
  shows "(8 - n mod 8) AND 0x7 = (8 - n mod 8) mod 8"
  by (simp add: nat_and_7)

context element_codec
begin

lemma encode_el_ok:
  assumes "ok v"
  shows "\<exists>e. encode_el elm v = Some e \<and> el_ok e \<and> el_bits e = code v"
proof -
  let ?key = "Key_el \<lparr>el_buf = [], el_bits_unused = 0, el_allocated = 0\<rparr>" and ?bs = "code v"
  let ?u = "(8 - length ?bs mod 8) mod 8"
  from elm_ops(1) obtain enc where enc: "op_uper_encoder (memb_type elm) = Some enc" by blast
  have w: "writes (enc (memb_constraints elm) (Some v)) ?bs" using elm_writes [OF assms] enc by simp
  obtain key' where k: "uper_encode (memb_type elm) (memb_constraints elm) (Some v) (Some el_addbytes) ?key = (int (length ?bs), key')"
    "bits_of (key_contents key') = pad8 ?bs"
    using uper_encode_ok [OF enc w el.ok_absorbs, of ?key] by auto
  define e where "e = \<lparr>el_buf = key_contents key', el_bits_unused = (8 - length ?bs mod 8) AND 0x7,
    el_allocated = (case key' of Key_el e \<Rightarrow> el_allocated e | _ \<Rightarrow> 0)\<rparr>"
  have "encode_el elm v = Some e" using k(1) by (simp add: encode_el_def e_def)
  moreover have len: "8 * length (el_buf e) - el_bits_unused e = length ?bs"
    using arg_cong [OF k(2), of length] by (simp add: e_def mod_8_unused pad8_def)
  then have bits: "el_bits e = ?bs" using k(2) by (simp add: el_bits_def e_def pad8_def)
  moreover have "el_ok e" using k(2) by (simp add: el_ok_def bits) (simp add: e_def mod_8_unused pad8_def)
  ultimately show ?thesis by blast
qed

definition el_of :: "'v \<Rightarrow> el_buffer" where
  "el_of v = the (encode_el elm v)"

lemma el_of:
  assumes "ok v"
  shows "encode_el elm v = Some (el_of v)" "el_ok (el_of v)" "el_bits (el_of v) = code v"
  using encode_el_ok [OF assms] by (auto simp: el_of_def)

lemma encode_els_ok: "list_all ok vs \<Longrightarrow> encode_els elm (map Some vs) = Some (map el_of vs)"
  by (induction vs) (simp_all add: el_of)

lemma SET_OF_encode_sorted_ok:
  assumes "list_all ok vs"
  obtains ws where "mset ws = mset vs" "SET_OF_encode_sorted elm (map Some vs) = Some (map el_of ws)"
    "sorted_wrt (\<lambda>v w. el_le (el_of v) (el_of w)) ws"
proof -
  obtain ws where ws: "mset ws = mset vs" "qsort_els (map el_of vs) = map el_of ws" using qsort_els_map [of vs el_of] by blast
  have "sorted_wrt el_le (map el_of ws)" using qsort_els_sorted [of "map el_of vs"] ws(2) by simp
  with that [OF ws(1)] ws(2) encode_els_ok [OF assms] show ?thesis by (simp add: SET_OF_encode_sorted_def sorted_wrt_map)
qed

lemma SET_OF_encode_writes:
  assumes "elements_ok ok used vs" "ct = size_constraint tc c" "list_ok ct (length vs)"
  obtains ws where "mset ws = mset vs" "sorted_wrt (\<lambda>v w. el_le (el_of v) (el_of w)) ws"
    "SET_OF_encode_uper elm tc c (Some (map Some vs)) = (\<lambda>po. Some (put_list put_encoded_els drop ct (length vs) (map el_of ws) po))"
    "writes (put_list put_encoded_els drop ct (length vs) (map el_of ws)) (list_code ct (map code ws))"
proof -
  have vs: "list_all ok vs" using assms(1) by (simp add: elements_ok_def)
  from SET_OF_encode_sorted_ok [OF vs] obtain ws where ws: "mset ws = mset vs" "SET_OF_encode_sorted elm (map Some vs) = Some (map el_of ws)"
    "sorted_wrt (\<lambda>v w. el_le (el_of v) (el_of w)) ws" .
  have okw: "list_all ok ws" using vs mset_eq_setD [OF ws(1)] by (simp add: list_all_iff)
  have len: "length ws = length vs" using ws(1) by (metis size_mset)
  have "map el_bits (map el_of ws) = map code ws" using okw el_of(3) by (simp add: list_all_iff)
  moreover have "list_all el_ok (map el_of ws)" using okw el_of(2) by (simp add: list_all_iff)
  ultimately have "writes (put_list put_encoded_els drop ct (length vs) (map el_of ws)) (list_code ct (map code ws))"
    using sorted_els.put_list_writes [of "map el_of ws" "map code ws" ct] assms(3) len by simp
  with that [OF ws(1,3)] ws(2) assms(2) show ?thesis by (simp add: SET_OF_encode_uper_def fun_eq_iff)
qed

lemma elements_ok_perm: "mset ws = mset vs \<Longrightarrow> elements_ok ok used vs \<Longrightarrow> elements_ok ok used ws"
  by (metis elements_ok_def list_all_iff mset_eq_length mset_eq_setD)

end

subsection \<open>The sorted encoding is canonical\<close>

lemma el_le_antisym: "el_le a b \<Longrightarrow> el_le b a \<Longrightarrow> el_buf a = el_buf b"
proof -
  have "\<not> octets_less xs xs" for xs
  proof (induction xs)
    case (Cons x xs)
    then show ?case by simp
  qed simp
  then show "el_le a b \<Longrightarrow> el_le b a \<Longrightarrow> el_buf a = el_buf b"
    using octets_less_trans [of "el_buf a" "el_buf b" "el_buf a"] by (auto simp: el_le_def)
qed

lemma sorted_els_unique:
  assumes "sorted_wrt el_le as" "sorted_wrt el_le bs" "mset (map el_buf as) = mset (map el_buf bs)"
  shows "map el_buf as = map el_buf bs"
  using assms
proof (induction as arbitrary: bs)
  case (Cons a as)
  then obtain b bs' where bs: "bs = b # bs'" by (cases bs) auto
  have "set (map el_buf (a # as)) = set (map el_buf bs)" using Cons.prems(3) by (rule mset_eq_setD)
  then have sets: "insert (el_buf a) (el_buf ` set as) = el_buf ` set bs" by simp
  then have "el_buf a \<in> el_buf ` set bs" by blast
  then have "el_le b a" using Cons.prems(2) bs by (auto simp: el_le_def)
  moreover have "el_buf b \<in> insert (el_buf a) (el_buf ` set as)" unfolding sets bs by simp
  then have "el_le a b" using Cons.prems(1) by (auto simp: el_le_def)
  ultimately have "el_buf a = el_buf b" by (intro el_le_antisym)
  with Cons.IH [of bs'] Cons.prems bs show ?case by auto
qed simp

text \<open>A reader that stops by itself has a prefix-free code.\<close>

lemma reads_prefix_free:
  assumes "reads dec cs r" "reads dec ds s" "cs @ xs = ds @ ys"
  shows "cs = ds"
proof -
  define octs pad where "octs = octets_of (pad8 (cs @ xs))" and "pad = replicate ((8 - length (cs @ xs) mod 8) mod 8) False"
  have b: "bits_of octs = pad8 (cs @ xs)" unfolding octs_def by (rule bits_of_octets_of) simp
  have s: "src_bits (new_pd octs 0 (8 * length octs)) = bits_of octs" by (simp flip: length_bits_of)
  have all: "src_bits (new_pd octs 0 (8 * length octs)) = (cs @ xs) @ pad" unfolding s b by (simp add: pad8_def pad_def)
  then have src: "src_bits (new_pd octs 0 (8 * length octs)) = cs @ xs @ pad" by (simp only: append_assoc)
  from readsE [OF assms(1) _ src] obtain p where p: "dec (new_pd octs 0 (8 * length octs)) = (r, p)"
    "consumes (new_pd octs 0 (8 * length octs)) cs p" by auto
  have "src_bits (new_pd octs 0 (8 * length octs)) = ds @ ys @ pad"
    using all unfolding assms(3) append_assoc .
  from readsE [OF assms(2) _ this] obtain q where "dec (new_pd octs 0 (8 * length octs)) = (s, q)"
    "consumes (new_pd octs 0 (8 * length octs)) ds q" by auto
  with p have "length cs = length ds" by (simp add: consumes_def)
  with assms(3) show ?thesis by (simp add: append_eq_append_conv)
qed

context element_codec
begin

lemma el_buf_code:
  assumes "ok v" "ok w" "el_buf (el_of v) = el_buf (el_of w)"
  shows "code v = code w"
proof -
  have "code v @ replicate (el_bits_unused (el_of v)) False = code w @ replicate (el_bits_unused (el_of w)) False"
    using el_of(2,3) [OF assms(1)] el_of(2,3) [OF assms(2)] assms(3) by (simp add: el_ok_def)
  with reads_prefix_free [OF elm_reads [OF assms(1)] elm_reads [OF assms(2)]] show ?thesis by blast
qed

lemma sorted_codes_unique:
  assumes "list_all ok vs" "mset ws = mset vs" "sorted_wrt (\<lambda>v w. el_le (el_of v) (el_of w)) vs" "sorted_wrt (\<lambda>v w. el_le (el_of v) (el_of w)) ws"
  shows "map code vs = map code ws"
proof -
  have "mset (map (\<lambda>v. el_buf (el_of v)) ws) = mset (map (\<lambda>v. el_buf (el_of v)) vs)" using assms(2) by (simp only: mset_map)
  then have eq: "map (\<lambda>v. el_buf (el_of v)) vs = map (\<lambda>v. el_buf (el_of v)) ws"
    using sorted_els_unique [of "map el_of vs" "map el_of ws"] assms(3,4) by (simp add: sorted_wrt_map comp_def)
  have ok: "list_all ok ws" using assms(1) mset_eq_setD [OF assms(2)] by (simp add: list_all_iff)
  have *: "map (\<lambda>v. el_buf (el_of v)) vs = map (\<lambda>v. el_buf (el_of v)) ws \<Longrightarrow> list_all ok vs \<Longrightarrow> list_all ok ws \<Longrightarrow> map code vs = map code ws" for vs ws
  proof (induction vs arbitrary: ws)
    case (Cons v vs)
    then obtain w ws' where ws: "ws = w # ws'" by (cases ws) auto
    have "code v = code w" by (rule el_buf_code) (use Cons.prems ws in simp_all)
    moreover have "map code vs = map code ws'" by (rule Cons.IH) (use Cons.prems ws in simp_all)
    ultimately show ?case using ws by simp
  qed simp
  show ?thesis by (rule * [OF eq assms(1) ok])
qed

end

sublocale element_codec \<subseteq> sequence_of: bit_codec "\<lambda>vs. SEQUENCE_OF_encode_uper elm tc c (Some (map Some vs))" "SET_OF_decode_uper elm tc c"
  "\<lambda>vs. elements_ok ok used vs \<and> list_ok (size_constraint tc c) (length vs)" "\<lambda>vs. list_code (size_constraint tc c) (map code vs)"
  "\<lambda>vs. RC_OK (map res vs) 0" for tc c
  by unfold_locales (use SEQUENCE_OF_encode_writes SET_OF_decode_reads elements_ok_def in blast)+

section \<open>The array refines a list\<close>

definition set_inv :: "'v asn_anonymous_set \<Rightarrow> bool" where
  "set_inv as \<longleftrightarrow> as_count as \<le> as_size as \<and> length (as_array as) = as_size as \<and> None \<notin> set (take (as_count as) (as_array as))"

definition set_list :: "'v asn_anonymous_set \<Rightarrow> 'v list" where
  "set_list as = map the (take (as_count as) (as_array as))"

datatype 'v set_op = Set_add "'v option" | Set_del int | Set_empty

primrec set_op_step :: "'v set_op \<Rightarrow> 'v asn_anonymous_set \<Rightarrow> 'v asn_anonymous_set" where
  "set_op_step (Set_add p) as = the (snd (asn_set_add (Some as) p))"
| "set_op_step (Set_del n) as = asn_set_del as n"
| "set_op_step Set_empty as = asn_set_empty as"

text \<open>The abstract operations: append, replace by the last element and drop it, clear.\<close>

primrec list_op_step :: "'v set_op \<Rightarrow> 'v list \<Rightarrow> 'v list" where
  "list_op_step (Set_add p) xs = (case p of None \<Rightarrow> xs | Some v \<Rightarrow> xs @ [v])"
| "list_op_step (Set_del n) xs = (if n < 0 \<or> n \<ge> int (length xs) then xs else butlast (xs[nat n := last xs]))"
| "list_op_step Set_empty xs = []"

lemma set_inv_length: "set_inv as \<Longrightarrow> length (set_list as) = as_count as"
  by (simp add: set_inv_def set_list_def)

lemma asn_set_add_step:
  assumes "set_inv as"
  shows "\<exists>as'. asn_set_add (Some as) (Some p) = (0, Some as') \<and> set_inv as' \<and> set_list as' = set_list as @ [p]"
proof -
  define grown where "grown = (if as_count as = as_size as then
      let newsize = (if as_size as \<noteq> 0 then push_bit 1 (as_size as) else 4)
      in as\<lparr>as_array := as_array as @ replicate (newsize - length (as_array as)) None, as_size := newsize\<rparr> else as)"
  have g: "as_count grown = as_count as" "take (as_count as) (as_array grown) = take (as_count as) (as_array as)"
    "length (as_array grown) = as_size grown" "as_count as < as_size grown"
    using assms by (auto simp: grown_def set_inv_def Let_def push_bit_eq_mult)
  define as' where "as' = grown\<lparr>as_array := (as_array grown)[as_count grown := Some p], as_count := as_count grown + 1\<rparr>"
  have "take (as_count as') (as_array as') = take (as_count as) (as_array as) @ [Some p]"
    using g by (simp add: as'_def take_Suc_conv_app_nth)
  moreover from this have "set_inv as'" using assms g by (simp add: set_inv_def) (simp add: as'_def)
  moreover have "asn_set_add (Some as) (Some p) = (0, Some as')"
    by (simp add: asn_set_add_def as'_def grown_def Let_def)
  ultimately show ?thesis by (auto simp: set_list_def)
qed

lemma asn_set_del_step:
  assumes "set_inv as"
  shows "set_inv (asn_set_del as n) \<and> set_list (asn_set_del as n) = list_op_step (Set_del n) (set_list as)"
proof (cases "n < 0 \<or> n \<ge> int (as_count as)")
  case True
  then show ?thesis using assms set_inv_length [OF assms] by (simp add: asn_set_del_def)
next
  case False
  let ?xs = "take (as_count as) (as_array as)"
  have c: "as_count as \<le> length (as_array as)" "nat n < as_count as" using assms False by (auto simp: set_inv_def)
  then have ne: "?xs \<noteq> []" by auto
  have last: "last ?xs = as_array as ! (as_count as - 1)" unfolding last_conv_nth [OF ne] using c by (simp add: min_absorb2)
  have eq: "take (as_count as - 1) ((as_array as)[nat n := as_array as ! (as_count as - 1)]) = butlast (?xs[nat n := last ?xs])"
    unfolding last using c by (simp add: butlast_conv_take take_update_swap min_absorb1)
  have "set (butlast (?xs[nat n := last ?xs])) \<subseteq> set ?xs"
    using ne set_update_subset_insert [of ?xs "nat n" "last ?xs"] in_set_butlastD last_in_set [OF ne] by fast
  then have "set_inv (asn_set_del as n)" using assms False eq by (auto simp: asn_set_del_def set_inv_def)
  moreover have "set_list (asn_set_del as n) = butlast ((set_list as)[nat n := last (set_list as)])"
    using False eq ne by (simp add: asn_set_del_def set_list_def map_butlast map_update last_map)
  ultimately show ?thesis using False set_inv_length [OF assms] by simp
qed

lemma set_op_refines:
  assumes "set_inv as"
  shows "set_inv (set_op_step x as) \<and> set_list (set_op_step x as) = list_op_step x (set_list as)"
proof (cases x)
  case (Set_add p)
  show ?thesis
  proof (cases p)
    case None
    then show ?thesis using Set_add assms by (simp add: asn_set_add_def)
  next
    case (Some v)
    with asn_set_add_step [OF assms, of v] Set_add show ?thesis by auto
  qed
next
  case (Set_del n)
  then show ?thesis using asn_set_del_step [OF assms] by simp
next
  case Set_empty
  then show ?thesis by (simp add: asn_set_empty_def set_inv_def set_list_def)
qed

text \<open>
  The array of elements refines a list. From an empty array, every sequence of
  additions, deletions and clearings keeps the count within the allocated size and has the
  effect of the abstract operations; rejected arguments leave the array unchanged.
\<close>

theorem asn_set_refines_list:
  "let as = fold set_op_step xs \<lparr>as_array = [], as_count = 0, as_size = 0\<rparr>
   in set_inv as \<and> set_list as = fold list_op_step xs []"
proof -
  have "set_inv as \<Longrightarrow> set_inv (fold set_op_step xs as) \<and> set_list (fold set_op_step xs as) = fold list_op_step xs (set_list as)" for as :: "'a asn_anonymous_set"
    by (induction xs arbitrary: as) (simp_all add: set_op_refines)
  from this [of "\<lparr>as_array = [], as_count = 0, as_size = 0\<rparr>"] show ?thesis by (simp add: set_inv_def set_list_def Let_def)
qed

context element_codec
begin

lemmas SEQUENCE_OF_wire = sequence_of.wire_roundtrip

lemma SET_OF_wire:
  assumes "elements_ok ok used vs" "list_ok (size_constraint tc c) (length vs)" "absorbs cb key" "key_contents key = []"
  obtains ws po po' pd' where "mset ws = mset vs" "sorted_wrt (\<lambda>v w. el_le (el_of v) (el_of w)) ws"
    "SET_OF_encode_uper elm tc c (Some (map Some vs)) (new_outp cb key) = Some (0, po)" "asn_put_aligned_flush po = (0, po')"
    "let octs = key_contents (po_op_key po')
     in bits_of octs = pad8 (list_code (size_constraint tc c) (map code ws)) \<and>
        SET_OF_decode_uper elm tc c (new_pd octs 0 (8 * length octs)) = (RC_OK (map res ws) 0, pd') \<and>
        pd_pos pd' = length (list_code (size_constraint tc c) (map code ws))"
proof -
  let ?ct = "size_constraint tc c"
  from SET_OF_encode_writes [OF assms(1) refl assms(2)] obtain ws f where ws: "mset ws = mset vs"
    "sorted_wrt (\<lambda>v w. el_le (el_of v) (el_of w)) ws" "SET_OF_encode_uper elm tc c (Some (map Some vs)) = (\<lambda>po. Some (f po))"
    "writes f (list_code ?ct (map code ws))" by metis
  have "elements_ok ok used ws" "length ws = length vs" using elements_ok_perm [OF ws(1) assms(1)] ws(1) by (auto dest: mset_eq_length)
  then have "reads (SET_OF_decode_uper elm tc c) (list_code ?ct (map code ws)) (RC_OK (map res ws) 0)"
    using SET_OF_decode_reads [OF _ refl] assms(2) by simp
  with ws(4) have "bit_codec (\<lambda>_ :: unit. f) (SET_OF_decode_uper elm tc c) (\<lambda>_. True) (\<lambda>_. list_code ?ct (map code ws)) (\<lambda>_. RC_OK (map res ws) 0)"
    by unfold_locales
  from bit_codec.wire_roundtrip [OF this TrueI assms(3,4)] show ?thesis using that [OF ws(1,2)] ws(3) by auto
qed

end

text \<open>The protection against lists of nothing.\<close>

context element_codec
begin

lemma long_list_fails:
  assumes "list_all ok (v # vs)" "used v = 0" "size_constraint tc c = None" "200 < length (v # vs)" "length (v # vs) < 16384"
    "pd_inv pd" "src_bits pd = list_code None (map code (v # vs)) @ rest"
  shows "fst (SET_OF_decode_uper elm tc c pd) = RC_FAIL"
proof -
  let ?n = "length (v # vs)"
  have src: "src_bits pd = length_code ?n @ code v @ concat (map code vs) @ rest"
    using assms(5,7) by (simp add: list_code_def unit_frags_short)
  with readsE [OF uper_get_length_reads [of "-1" 0 ?n] assms(6)] assms(5) obtain p1 where
    p1: "uper_get_length pd (-1) 0 = ((int ?n, False), p1)" "src_bits p1 = code v @ concat (map code vs) @ rest" "pd_inv p1"
    by (auto simp: length_part_def)
  from readsE [OF elm_reads p1(3,2)] assms(1,2) obtain p2 where "memb_decode elm p1 = (RC_OK (res v) 0, p2)" by auto
  then have fail: "get_elements elm ?n ?n [] p1 = (RC_FAIL, p2)" using assms(4) by simp
  have "fst (SET_OF_decode_uper elm tc c pd) = RC_FAIL" if "uper_get_length pd (-1) 0 = ((int n, False), p1)" "get_elements elm n n [] p1 = (RC_FAIL, p2)" for n
    using that assms(3) by (simp add: SET_OF_decode_uper_def SET_OF_decode_body_def sized_def) (subst get_fragments.simps, simp)
  from this [OF p1(1) fail] show ?thesis .
qed

end

lemma padded_source:
  "src_bits (new_pd (octets_of (pad8 bs)) 0 (8 * length (octets_of (pad8 bs)))) = bs @ replicate ((8 - length bs mod 8) mod 8) False"
proof -
  have "bits_of (octets_of (pad8 bs)) = pad8 bs" by (rule bits_of_octets_of) simp
  then show ?thesis by (simp flip: length_bits_of) (simp add: pad8_def)
qed

section \<open>Properties of the collections\<close>

definition native_td :: "asn_INTEGER_specifics option \<Rightarrow> asn_per_constraints option \<Rightarrow> 64 word asn_TYPE_descriptor" where
  "native_td specs tc = \<lparr>op_uper_decoder = Some (\<lambda>c. NativeInteger_decode_uper specs tc c),
     op_uper_encoder = Some (\<lambda>c v. NativeInteger_encode_uper specs tc c v)\<rparr>"

definition plain_elm :: "'v asn_TYPE_descriptor \<Rightarrow> asn_per_constraints option \<Rightarrow> 'v asn_TYPE_member" where
  "plain_elm td c = \<lparr>memb_type = td, memb_constraints = c, memb_pointer = True, memb_open_type = False,
     memb_type_selector = None, memb_variants = 0, memb_variant = (\<lambda>_ v. v),
     memb_optional = 0, memb_default_cmp = None, memb_default_set = None\<rparr>"

interpretation native_element: element_codec "plain_elm (native_td specs tc) c" "\<lambda>v. integer_code (value_constraint tc c) (native_octets v)"
  "\<lambda>v. v" "\<lambda>v. 0" "native_ok (is_unsigned specs) (value_constraint tc c)" for specs tc c
  by unfold_locales
    (simp_all add: plain_elm_def native_td_def native_integer_uper.enc_writes native_integer_uper.dec_reads safe_NativeInteger)

interpretation boolean_element: element_codec "plain_elm boolean_td None" "\<lambda>v. [v \<noteq> 0]" "\<lambda>v. if v \<noteq> 0 then 1 else 0" "\<lambda>v. 1" "\<lambda>v. True"
  using boolean_uper.enc_writes boolean_uper.dec_reads safe_BOOLEAN by unfold_locales (simp_all add: plain_elm_def boolean_td_def)

text \<open>
  A SEQUENCE OF survives the wire. For elements of any type that keeps its codec
  contract and every well-formed size constraint, fixed, variable, extensible or absent, the
  decoder returns the elements in their order and stops where the encoder stopped. The list
  has at most 200 elements, or elements whose decoder reports what it consumed.
\<close>

theorem SEQUENCE_OF_uper_roundtrip:
  assumes "element_codec elm code res used ok" "elements_ok ok used vs" "list_ok (size_constraint tc c) (length vs)"
    "absorbs cb key" "key_contents key = []"
  shows "\<exists>po po' pd'. SEQUENCE_OF_encode_uper elm tc c (Some (map Some vs)) (new_outp cb key) = (0, po) \<and>
    asn_put_aligned_flush po = (0, po') \<and>
    (let octs = key_contents (po_op_key po')
     in bits_of octs = pad8 (list_code (size_constraint tc c) (map code vs)) \<and>
        SET_OF_decode_uper elm tc c (new_pd octs 0 (8 * length octs)) = (RC_OK (map res vs) 0, pd') \<and>
        pd_pos pd' = length (list_code (size_constraint tc c) (map code vs)))"
  using element_codec.SEQUENCE_OF_wire [OF assms(1) _ assms(4,5), of vs tc c] assms(2,3) by simp

definition example_sizes :: asn_per_constraints where
  "example_sizes = example_cts \<lparr>apc_semi_constrained = False, apc_constrained = True, apc_extensible = False,
     range_bits = 3, effective_bits = 3, lower_bound = 0, upper_bound = 7\<rparr>"

definition example_elm :: "64 word asn_TYPE_member" where
  "example_elm = plain_elm (native_td None None) (Some (example_cts example_ct))"

lemma example_elements:
  "elements_ok (native_ok (is_unsigned None) (value_constraint None (Some (example_cts example_ct)))) (\<lambda>v. 0) [5, - 10, 200]"
  "list_ok (size_constraint (Some example_sizes) None) (length ([5, - 10, 200] :: 64 word list))"
  "element_codec example_elm (\<lambda>v. integer_code (value_constraint None (Some (example_cts example_ct))) (native_octets v))
     (\<lambda>v. v) (\<lambda>v. 0) (native_ok (is_unsigned None) (value_constraint None (Some (example_cts example_ct))))"
proof -
  show "elements_ok (native_ok (is_unsigned None) (value_constraint None (Some (example_cts example_ct)))) (\<lambda>v. 0) [5, - 10, 200]"
    by (simp add: elements_ok_def native_ok_iff value_constraint_def example_cts_def example_ct_def wf_value_ct_def in_root_def
        is_unsigned_def has_flags_def)
  show "list_ok (size_constraint (Some example_sizes) None) (length ([5, - 10, 200] :: 64 word list))"
    by (simp add: list_ok_def size_constraint_def per_constraints_def example_sizes_def example_cts_def size_ok_def list_out_def)
qed (unfold example_elm_def, rule native_element.element_codec_axioms)

theorem SEQUENCE_OF_uper_roundtrip_witness:
  "\<exists>po po' pd'. SEQUENCE_OF_encode_uper example_elm (Some example_sizes) None (Some (map Some [5, - 10, 200]))
      (new_outp write_buffer (Key_vector [])) = (0, po) \<and> asn_put_aligned_flush po = (0, po') \<and>
    SET_OF_decode_uper example_elm (Some example_sizes) None
      (new_pd (key_contents (po_op_key po')) 0 (8 * length (key_contents (po_op_key po')))) = (RC_OK [5, - 10, 200] 0, pd')"
  using SEQUENCE_OF_uper_roundtrip [OF example_elements(3,1,2) vector.ok_absorbs, of "Key_vector []"] by (simp add: Let_def) blast

text \<open>
  A SET OF survives the wire as a set. The decoder returns a permutation of the
  elements, the one the encoder sorted by the encodings.
\<close>

theorem SET_OF_uper_roundtrip:
  assumes "element_codec elm code res used ok" "elements_ok ok used vs" "list_ok (size_constraint tc c) (length vs)"
    "absorbs cb key" "key_contents key = []"
  shows "\<exists>ws po po' pd'. mset ws = mset vs \<and> SET_OF_encode_uper elm tc c (Some (map Some vs)) (new_outp cb key) = Some (0, po) \<and>
    asn_put_aligned_flush po = (0, po') \<and>
    (let octs = key_contents (po_op_key po')
     in bits_of octs = pad8 (list_code (size_constraint tc c) (map code ws)) \<and>
        SET_OF_decode_uper elm tc c (new_pd octs 0 (8 * length octs)) = (RC_OK (map res ws) 0, pd') \<and>
        pd_pos pd' = length (list_code (size_constraint tc c) (map code ws)))"
  by (rule element_codec.SET_OF_wire [OF assms]) blast

theorem SET_OF_uper_roundtrip_witness:
  "\<exists>ws po po' pd'. mset ws = {#5, - 10, 200#} \<and> SET_OF_encode_uper example_elm (Some example_sizes) None (Some (map Some [5, - 10, 200]))
      (new_outp write_buffer (Key_vector [])) = Some (0, po) \<and> asn_put_aligned_flush po = (0, po') \<and>
    SET_OF_decode_uper example_elm (Some example_sizes) None
      (new_pd (key_contents (po_op_key po')) 0 (8 * length (key_contents (po_op_key po')))) = (RC_OK ws 0, pd')"
  using SET_OF_uper_roundtrip [OF example_elements(3,1,2) vector.ok_absorbs, of "Key_vector []"] by (simp add: Let_def) blast

text \<open>
  C36: the encoding of a SET OF is canonical. Two lists with the same elements in different
  orders are written as the same octets. The lists are such that the decoder accepts them as
  well: of a length the size constraint allows, and of at most 200 elements if one of them is decoded
  without reporting that it consumed anything.
\<close>

theorem SET_OF_uper_canonical:
  assumes codec: "element_codec elm code res used ok" and vs: "elements_ok ok used vs" "list_ok (size_constraint tc c) (length vs)"
    and perm: "mset us = mset vs" and sink: "absorbs cb key" "key_contents key = []"
  shows "\<exists>po po' qo qo'. SET_OF_encode_uper elm tc c (Some (map Some vs)) (new_outp cb key) = Some (0, po) \<and>
    asn_put_aligned_flush po = (0, po') \<and> SET_OF_encode_uper elm tc c (Some (map Some us)) (new_outp cb key) = Some (0, qo) \<and>
    asn_put_aligned_flush qo = (0, qo') \<and> key_contents (po_op_key po') = key_contents (po_op_key qo')"
proof -
  have us: "elements_ok ok used us" "length us = length vs"
    using element_codec.elements_ok_perm [OF codec perm vs(1)] perm by (auto dest: mset_eq_length)
  obtain ws po po' where ws: "mset ws = mset vs"
    "sorted_wrt (\<lambda>v w. el_le (element_codec.el_of elm v) (element_codec.el_of elm w)) ws"
    "SET_OF_encode_uper elm tc c (Some (map Some vs)) (new_outp cb key) = Some (0, po)" "asn_put_aligned_flush po = (0, po')"
    "bits_of (key_contents (po_op_key po')) = pad8 (list_code (size_constraint tc c) (map code ws))"
    by (rule element_codec.SET_OF_wire [OF codec vs sink]) (auto simp: Let_def)
  obtain xs qo qo' where xs: "mset xs = mset us"
    "sorted_wrt (\<lambda>v w. el_le (element_codec.el_of elm v) (element_codec.el_of elm w)) xs"
    "SET_OF_encode_uper elm tc c (Some (map Some us)) (new_outp cb key) = Some (0, qo)" "asn_put_aligned_flush qo = (0, qo')"
    "bits_of (key_contents (po_op_key qo')) = pad8 (list_code (size_constraint tc c) (map code xs))"
    by (rule element_codec.SET_OF_wire [OF codec us(1) _ sink, of tc c]) (use vs(2) us(2) in \<open>auto simp: Let_def\<close>)
  have "list_all ok ws" using vs(1) mset_eq_setD [OF ws(1)] by (simp add: elements_ok_def list_all_iff)
  from element_codec.sorted_codes_unique [OF codec this _ ws(2) xs(2)] have "map code ws = map code xs" using ws(1) xs(1) perm by simp
  then have "bits_of (key_contents (po_op_key po')) = bits_of (key_contents (po_op_key qo'))" using ws(5) xs(5) by simp
  then have "key_contents (po_op_key po') = key_contents (po_op_key qo')" by (metis octets_of_bits_of)
  with ws(3,4) xs(3,4) show ?thesis by blast
qed

theorem SET_OF_uper_canonical_witness:
  "\<exists>po po' qo qo'. SET_OF_encode_uper example_elm (Some example_sizes) None (Some (map Some [5, - 10, 200]))
      (new_outp write_buffer (Key_vector [])) = Some (0, po) \<and> asn_put_aligned_flush po = (0, po') \<and>
    SET_OF_encode_uper example_elm (Some example_sizes) None (Some (map Some [200, 5, - 10]))
      (new_outp write_buffer (Key_vector [])) = Some (0, qo) \<and> asn_put_aligned_flush qo = (0, qo') \<and>
    key_contents (po_op_key po') = key_contents (po_op_key qo')"
proof -
  have "mset [200, 5, - 10 :: 64 word] = mset [5, - 10, 200]" by simp
  from SET_OF_uper_canonical [OF example_elements(3,1,2) this vector.ok_absorbs, of "Key_vector []"] show ?thesis by simp
qed

text \<open>
  C37: a SEQUENCE OF without a size constraint and with more than 200, but fewer than 16384
  elements cannot be read back when the decoder of the elements reports that it consumed
  nothing for the first one, as the decoders of integers, strings and constructed types do. Its
  encoder writes the list; the decoder, which SEQUENCE OF shares with SET OF, gets these bits and fails.
\<close>

theorem long_list_rejected:
  assumes "element_codec elm code res used ok" "list_all ok (v # vs)" "used v = 0"
    "size_constraint tc c = None" "200 < length (v # vs)" "length (v # vs) < 16384"
    "pd_inv pd" "src_bits pd = list_code None (map code (v # vs)) @ rest"
  shows "writes (SEQUENCE_OF_encode_uper elm tc c (Some (map Some (v # vs)))) (list_code None (map code (v # vs))) \<and>
    fst (SET_OF_decode_uper elm tc c pd) = RC_FAIL"
  using element_codec.SEQUENCE_OF_encode_writes [OF assms(1,2) assms(4) [symmetric]] element_codec.long_list_fails [OF assms]
  by (simp add: list_ok_def)

theorem long_list_rejected_witness:
  "let vs = replicate 300 (7 :: 64 word); pd = new_pd (octets_of (pad8 (list_code None (map (\<lambda>v. integer_code None (native_octets v)) vs)))) 0
       (8 * length (octets_of (pad8 (list_code None (map (\<lambda>v. integer_code None (native_octets v)) vs)))))
   in fst (SET_OF_decode_uper (plain_elm (native_td None None) None) None None pd) = RC_FAIL"
proof -
  let ?elm = "plain_elm (native_td None None) None" and ?vs = "replicate 299 (7 :: 64 word)"
  define bits where "bits = list_code None (map (\<lambda>v. integer_code None (native_octets v)) (7 # ?vs))"
  define octs where "octs = octets_of (pad8 bits)"
  have ok: "list_all (native_ok (is_unsigned None) (value_constraint None None)) (7 # ?vs)"
    by (simp add: list_all_iff native_ok_iff value_constraint_def is_unsigned_def)
  have src: "src_bits (new_pd octs 0 (8 * length octs)) = bits @ replicate ((8 - length bits mod 8) mod 8) False"
    unfolding octs_def by (rule padded_source)
  have "fst (SET_OF_decode_uper ?elm None None (new_pd octs 0 (8 * length octs))) = RC_FAIL"
    using long_list_rejected [OF native_element.element_codec_axioms [of None None None] ok refl,
        where tc = None and c = None and pd = "new_pd octs 0 (8 * length octs)" and rest = "replicate ((8 - length bits mod 8) mod 8) False"] src
    by (simp add: value_constraint_def size_constraint_def per_constraints_def bits_def)
  moreover have "7 # ?vs = replicate 300 7" by (simp add: numeral_eq_Suc)
  ultimately show ?thesis by (simp add: Let_def octs_def bits_def)
qed

lemma encode_els_fails: "m \<in> set lst \<Longrightarrow> m = None \<or> encode_el elm (the m) = None \<Longrightarrow> encode_els elm lst = None"
  by (induction lst) (auto split: option.splits)

lemma put_list_size_ok:
  assumes "list_ok ct n" "po_inv po"
  obtains ct' po' where "put_list_size ct n po = ((0, ct'), po')" "po_inv po'"
proof -
  have count: "\<exists>po'. put_count d n q = (0, po') \<and> po_inv po'" if "po_inv q" "case d of None \<Rightarrow> True | Some c \<Rightarrow> size_ok c \<and> (effective_bits c \<ge> 0 \<longrightarrow> \<not> list_out c n)" for d q
  proof (cases "sized d")
    case True
    then obtain c where c: "d = Some c" "effective_bits c \<ge> 0" by (auto simp: sized_def split: option.splits)
    with that(2) have "0 \<le> int n - sint (lower_bound c)" "nat (effective_bits c) \<le> 31"
      by (auto simp: size_ok_def list_out_def nat_le_iff)
    from writesE [OF few_int_writes [OF this(2,1)] that(1)] obtain p where
      "asn_put_few_bits q (word_of_int (int n - sint (lower_bound c))) (effective_bits c) = (0, p)" "po_inv p" using c(2) by auto
    with True c show ?thesis by (simp add: put_count_def)
  qed (use that(1) in \<open>simp add: put_count_def\<close>)
  show ?thesis
  proof (cases ct)
    case None
    then show ?thesis using that [of None po] assms(2) by (simp add: put_list_size_def)
  next
    case (Some c)
    have ok: "size_ok c" "effective_bits c \<ge> 0 \<and> list_out c n \<longrightarrow> apc_extensible c" using assms(1) Some by (auto simp: list_ok_def)
    show ?thesis
    proof (cases "apc_extensible c")
      case True
      from writesE [OF flag_writes [of "list_out c n"] assms(2)] obtain p where
        p: "asn_put_few_bits po (if list_out c n then 1 else 0) 1 = (0, p)" "po_inv p" by auto
      with count [OF p(2), of "if list_out c n then None else ct"] ok(1) Some obtain q where
        "put_count (if list_out c n then None else ct) n p = (0, q)" "po_inv q" by (auto split: if_splits)
      with p(1) Some True that [of "if list_out c n then None else ct" q] show ?thesis
        by (simp add: put_list_size_def Let_def list_out_def cong: if_cong)
    next
      case False
      with count [OF assms(2), of ct] ok Some obtain q where "put_count ct n po = (0, q)" "po_inv q" by auto
      with Some False ok that [of ct q] show ?thesis by (auto simp: put_list_size_def Let_def list_out_def)
    qed
  qed
qed

text \<open>
  A SET OF with an element that cannot be encoded crashes the encoder. When an element
  is a null pointer or violates its constraint, the sorted encoding is a null pointer that
  the encoder dereferences, where SEQUENCE OF reports the failure.
\<close>

theorem SET_OF_encode_null_dereference:
  assumes "m \<in> set lst" "m = None \<or> encode_el elm (the m) = None" "list_ok (size_constraint tc c) (length lst)" "po_inv po"
  shows "SET_OF_encode_uper elm tc c (Some lst) po = None"
proof -
  have none: "SET_OF_encode_sorted elm lst = None" using encode_els_fails [OF assms(1,2)] by (simp add: SET_OF_encode_sorted_def)
  obtain ct' p where p: "put_list_size (size_constraint tc c) (length lst) po = ((0, ct'), p)" "po_inv p"
    using put_list_size_ok [OF assms(3,4)] .
  obtain k e q where "uper_put_length p (length lst) = ((int k, e), q)" using uper_put_length_ok [OF p(2), of "length lst"] by blast
  with none p(1) show ?thesis by (simp add: SET_OF_encode_uper_def Let_def)
qed

theorem SET_OF_encode_null_dereference_witness:
  "SET_OF_encode_uper example_elm (Some example_sizes) None (Some [Some 5, None, Some 200]) (new_outp write_buffer (Key_vector [])) = None"
  using SET_OF_encode_null_dereference [of None "[Some 5, None, Some 200]" example_elm "Some example_sizes" None] example_elements(2)
    new_outp_inv [OF vector.ok_absorbs, of "Key_vector []"] by simp

end
