(* ===== verification/Uper_Constructed.thy ===== *)
theory Uper_Constructed
  imports Uper_Codec
begin

unbundle bit_operations_syntax

text \<open>
  SEQUENCE, CHOICE and open types in unaligned PER: \<open>constr_SEQUENCE_uper.c\<close>,
  \<open>constr_CHOICE_uper.c\<close> and \<open>OPEN_TYPE_uper.c\<close>, with the presence index of
  \<open>constr_CHOICE.c\<close>. The structure of a SEQUENCE is the list of its member slots:
  \<open>None\<close> is the null pointer of a member kept by pointer, or the zeroed storage of an
  inline member that was not decoded. A CHOICE is its presence index, counted from 1, and
  the slot of the member it selects. The encoders of the members return 0 or -1, so the
  status of the whole is 0 where the code returns that of its last member.
\<close>

section \<open>Descriptors\<close>

record asn_SEQUENCE_specifics =
  oms :: "nat list"
  roms_count :: nat
  aoms_count :: nat
  first_extension :: int

record asn_CHOICE_specifics =
  to_canonical_order :: "nat list option"
  from_canonical_order :: "nat list option"
  ext_start :: int

record 'v choice =
  present_idx :: nat
  chosen :: "'v option"

section \<open>Presence of a variant\<close>

definition CHOICE_variant_get_presence :: "'v choice \<Rightarrow> nat" where
  "CHOICE_variant_get_presence st = present_idx st"

definition CHOICE_variant_set_presence :: "nat \<Rightarrow> 'v choice option \<Rightarrow> nat \<Rightarrow> int \<times> 'v choice option" where
  "CHOICE_variant_set_presence elements_count sptr present =
     (case sptr of
        None \<Rightarrow> (-1, None)
      | Some st \<Rightarrow>
          if present > elements_count then (-1, sptr)
          else if present = present_idx st then (0, sptr)
          else if present_idx st \<noteq> 0 then (0, Some \<lparr>present_idx = present, chosen = None\<rparr>)
          else (0, Some (st\<lparr>present_idx := present\<rparr>)))"

section \<open>Open types\<close>

text \<open>The member's own storage is inline and zeroed before; the result is the structure with the variant set.\<close>

definition OPEN_TYPE_uper_get ::
  "'v asn_TYPE_member \<Rightarrow> 'v option list \<Rightarrow> asn_bit_data \<Rightarrow> 'v choice dec_rval \<times> asn_bit_data" where
  "OPEN_TYPE_uper_get elm sptr pd =
     (if \<not> memb_open_type elm then (RC_FAIL, pd)
      else case memb_type_selector elm of
          None \<Rightarrow> (RC_FAIL, pd)
        | Some type_selector \<Rightarrow>
            (case type_selector sptr of (presence_index, type_descriptor) \<Rightarrow>
               if presence_index = 0 then (RC_FAIL, pd)
               else
                 (case uper_open_type_get type_descriptor None pd of (rv, pd') \<Rightarrow>
                    (case rv of
                       RC_OK inner consumed \<Rightarrow>
                         (case CHOICE_variant_set_presence (memb_variants elm) (Some \<lparr>present_idx = 0, chosen = Some inner\<rparr>) presence_index of
                            (r, st) \<Rightarrow> (if r = 0 then RC_OK (the st) consumed else RC_FAIL, pd'))
                     | RC_WMORE \<Rightarrow> (RC_WMORE, pd')
                     | RC_FAIL \<Rightarrow> (RC_FAIL, pd')))))"

definition OPEN_TYPE_encode_uper ::
  "'v asn_TYPE_member list \<Rightarrow> 'v choice \<Rightarrow> asn_bit_outp \<Rightarrow> int \<times> asn_bit_outp" where
  "OPEN_TYPE_encode_uper elements sptr po =
     (let present = CHOICE_variant_get_presence sptr
      in if present = 0 \<or> present > length elements then (-1, po)
         else
           let elm = elements ! (present - 1)
           in if memb_pointer elm \<and> chosen sptr = None then (-1, po)
              else (case uper_open_type_put (memb_type elm) None (chosen sptr) po of (r, po') \<Rightarrow> (if r < 0 then -1 else 0, po')))"

section \<open>SEQUENCE\<close>

subsection \<open>Decoding\<close>

definition root_end :: "'v asn_TYPE_member list \<Rightarrow> asn_SEQUENCE_specifics \<Rightarrow> nat" where
  "root_end elements specs = (if first_extension specs < 0 then length elements else nat (first_extension specs))"

definition get_member :: "'v asn_TYPE_member \<Rightarrow> 'v option list \<Rightarrow> asn_bit_data \<Rightarrow> 'v dec_rval \<times> asn_bit_data" where
  "get_member elm st pd =
     (if memb_open_type elm then
        (case OPEN_TYPE_uper_get elm st pd of (rv, pd') \<Rightarrow>
           (case rv of
              RC_OK c consumed \<Rightarrow> RC_OK (memb_variant elm (present_idx c) (the (chosen c))) consumed
            | RC_WMORE \<Rightarrow> RC_WMORE | RC_FAIL \<Rightarrow> RC_FAIL, pd'))
      else memb_decode elm pd)"

primrec get_root_members ::
  "'v asn_TYPE_member list \<Rightarrow> 'v option list \<Rightarrow> asn_bit_data \<Rightarrow> asn_bit_data \<Rightarrow> 'v option list dec_rval \<times> asn_bit_data" where
  "get_root_members [] st opmd pd = (RC_OK st 0, pd)"
| "get_root_members (elm # elms) st opmd pd =
     (case (if memb_optional elm \<noteq> 0 then asn_get_few_bits opmd 1 else (1, opmd)) of (present, opmd') \<Rightarrow>
        if present = 0 then
          (case memb_default_set elm of
             None \<Rightarrow> get_root_members elms (st @ [None]) opmd' pd
           | Some None \<Rightarrow> (RC_FAIL, pd)
           | Some (Some v) \<Rightarrow> get_root_members elms (st @ [Some v]) opmd' pd)
        else
          (case get_member elm st pd of (rv, pd') \<Rightarrow>
             (case rv of
                RC_OK v _ \<Rightarrow> get_root_members elms (st @ [Some v]) opmd' pd'
              | RC_WMORE \<Rightarrow> (RC_WMORE, pd')
              | RC_FAIL \<Rightarrow> (RC_FAIL, pd'))))"

text \<open>The slots and what is left of the presence bit-map.\<close>

primrec get_extensions ::
  "'v asn_TYPE_member list \<Rightarrow> 'v option list \<Rightarrow> asn_bit_data \<Rightarrow> asn_bit_data \<Rightarrow> ('v option list \<times> asn_bit_data) dec_rval \<times> asn_bit_data" where
  "get_extensions [] st epmd pd = (RC_OK (st, epmd) 0, pd)"
| "get_extensions (elm # elms) st epmd pd =
     (case asn_get_few_bits epmd 1 of (present, epmd') \<Rightarrow>
        if present < 0 then (RC_OK (st @ replicate (length (elm # elms)) None, epmd') 0, pd)
        else if present = 0 then get_extensions elms (st @ [None]) epmd' pd
        else
          (case uper_open_type_get (memb_type elm) (memb_constraints elm) pd of (rv, pd') \<Rightarrow>
             (case rv of
                RC_OK v _ \<Rightarrow> get_extensions elms (st @ [Some v]) epmd' pd'
              | RC_WMORE \<Rightarrow> (RC_WMORE, pd')
              | RC_FAIL \<Rightarrow> (RC_FAIL, pd'))))"

lemma flag_left: "(b, pd') = asn_get_few_bits pd 1 \<Longrightarrow> b \<noteq> -1 \<Longrightarrow> pd_left pd' < pd_left pd"
proof -
  have "fst (asn_get_few_bits pd 1) = -1 \<or> 0 \<le> fst (asn_get_few_bits pd 1)"
    by (subst (1 2) asn_get_few_bits.simps) (auto simp: Let_def low_bits_eq split_beta)
  then show "(b, pd') = asn_get_few_bits pd 1 \<Longrightarrow> b \<noteq> -1 \<Longrightarrow> pd_left pd' < pd_left pd"
    using few_bits_left(2) [of pd 1] by (metis fst_conv snd_conv one_le_numeral zero_less_one)
qed

function skip_extensions :: "asn_bit_data \<Rightarrow> asn_bit_data \<Rightarrow> int \<times> asn_bit_data" where
  "skip_extensions epmd pd =
     (case asn_get_few_bits epmd 1 of (present, epmd') \<Rightarrow>
        if present = -1 then (0, pd)
        else if present = 0 then skip_extensions epmd' pd
        else (case uper_open_type_skip pd of (r, pd') \<Rightarrow> if r \<noteq> 0 then (-1, pd') else skip_extensions epmd' pd'))"
  by pat_completeness auto
termination
  by (relation "measure (\<lambda>(epmd, pd). pd_left epmd)") (simp, auto intro: flag_left)

declare skip_extensions.simps [simp del]

definition get_extension_additions ::
  "'v asn_TYPE_member list \<Rightarrow> 'v option list \<Rightarrow> asn_bit_data \<Rightarrow> 'v option list dec_rval \<times> asn_bit_data" where
  "get_extension_additions elms st pd =
     (case uper_get_nslength pd of (bmlength, pd1) \<Rightarrow>
        if bmlength < 0 then (RC_WMORE, pd1)
        else
          (case asn_get_many_bits pd1 False bmlength of (r, epres, pd2) \<Rightarrow>
             if r \<noteq> 0 then (RC_WMORE, pd2)
             else
               (case get_extensions elms st (new_pd epres 0 (nat bmlength)) pd2 of (rv, pd3) \<Rightarrow>
                  (case rv of
                     RC_OK (st', epmd) _ \<Rightarrow>
                       (case skip_extensions epmd pd3 of (r, pd4) \<Rightarrow> if r \<noteq> 0 then (RC_WMORE, pd4) else (RC_OK st' 0, pd4))
                   | RC_WMORE \<Rightarrow> (RC_WMORE, pd3)
                   | RC_FAIL \<Rightarrow> (RC_FAIL, pd3)))))"

primrec fill_defaults :: "'v asn_TYPE_member list \<Rightarrow> nat list \<Rightarrow> 'v option list \<Rightarrow> 'v option list option" where
  "fill_defaults elements [] st = Some st"
| "fill_defaults elements (edx # edxs) st =
     (let elm = elements ! edx
      in case memb_default_set elm of
           None \<Rightarrow> fill_defaults elements edxs st
         | Some def \<Rightarrow>
             if \<not> memb_pointer elm \<or> st ! edx \<noteq> None then fill_defaults elements edxs st
             else case def of None \<Rightarrow> None | Some v \<Rightarrow> fill_defaults elements edxs (st[edx := Some v]))"

definition SEQUENCE_decode_uper ::
  "'v asn_TYPE_member list \<Rightarrow> asn_SEQUENCE_specifics \<Rightarrow> asn_bit_data \<Rightarrow> 'v option list dec_rval \<times> asn_bit_data" where
  "SEQUENCE_decode_uper elements specs pd =
     (case (if first_extension specs < 0 then (0, pd) else asn_get_few_bits pd 1) of (extpresent, pd1) \<Rightarrow>
        if extpresent < 0 then (RC_WMORE, pd1)
        else
          (case (if roms_count specs \<noteq> 0 then asn_get_many_bits pd1 False (int (roms_count specs)) else (0, [], pd1)) of (r, opres, pd2) \<Rightarrow>
             if r \<noteq> 0 then (RC_WMORE, pd2)
             else
               let roots = take (root_end elements specs) elements; exts = drop (root_end elements specs) elements
               in (case get_root_members roots [] (new_pd opres 0 (roms_count specs)) pd2 of (rv, pd3) \<Rightarrow>
                     (case rv of
                        RC_OK st _ \<Rightarrow>
                          (case (if extpresent \<noteq> 0 then get_extension_additions exts st pd3
                                 else (RC_OK (st @ replicate (length exts) None) 0, pd3)) of (rv, pd4) \<Rightarrow>
                             (case rv of
                                RC_OK st' _ \<Rightarrow>
                                  (if first_extension specs \<ge> 0 then
                                     (case fill_defaults elements (take (aoms_count specs) (drop (roms_count specs) (oms specs))) st' of
                                        None \<Rightarrow> RC_FAIL | Some st'' \<Rightarrow> RC_OK st'' 0)
                                   else RC_OK st' 0, pd4)
                              | RC_WMORE \<Rightarrow> (RC_WMORE, pd4)
                              | RC_FAIL \<Rightarrow> (RC_FAIL, pd4)))
                      | RC_WMORE \<Rightarrow> (RC_WMORE, pd3)
                      | RC_FAIL \<Rightarrow> (RC_FAIL, pd3)))))"

subsection \<open>Encoding\<close>

definition member_present :: "'v asn_TYPE_member \<Rightarrow> 'v option \<Rightarrow> bool" where
  "member_present elm slot = (if memb_pointer elm then slot \<noteq> None else True)"

definition member_default :: "'v asn_TYPE_member \<Rightarrow> 'v option \<Rightarrow> bool" where
  "member_default elm slot = (case (memb_default_cmp elm, slot) of (Some default_value_cmp, Some v) \<Rightarrow> default_value_cmp v = 0 | _ \<Rightarrow> False)"

text \<open>The outputs are optional: the first takes the presence bits, the second the open types.\<close>

primrec handle_extensions_loop ::
  "('v asn_TYPE_member \<times> 'v option) list \<Rightarrow> nat \<Rightarrow> nat \<Rightarrow> asn_bit_outp option \<Rightarrow> asn_bit_outp option \<Rightarrow>
   int \<times> asn_bit_outp option \<times> asn_bit_outp option" where
  "handle_extensions_loop [] exts_present exts_count po1 po2 = (if exts_present \<noteq> 0 then int exts_count else 0, po1, po2)"
| "handle_extensions_loop (m # ms) exts_present exts_count po1 po2 =
     (case m of (elm, slot) \<Rightarrow>
        let present = member_present elm slot
        in (case (case po1 of None \<Rightarrow> (0, None)
                  | Some po \<Rightarrow> (case asn_put_few_bits po (if present then 1 else 0) 1 of (r, po') \<Rightarrow> (r, Some po'))) of (r1, po1') \<Rightarrow>
              if r1 \<noteq> 0 then (-1, po1', po2)
              else
                (case (case po2 of None \<Rightarrow> (0, None)
                       | Some po \<Rightarrow> if present
                           then (case uper_open_type_put (memb_type elm) (memb_constraints elm) slot po of (r, po') \<Rightarrow> (r, Some po'))
                           else (0, Some po)) of (r2, po2') \<Rightarrow>
                   if r2 \<noteq> 0 then (-1, po1', po2')
                   else handle_extensions_loop ms (exts_present + (if present then 1 else 0)) (exts_count + 1) po1' po2')))"

definition SEQUENCE_handle_extensions ::
  "'v asn_TYPE_member list \<Rightarrow> asn_SEQUENCE_specifics \<Rightarrow> 'v option list \<Rightarrow> asn_bit_outp option \<Rightarrow> asn_bit_outp option \<Rightarrow>
   int \<times> asn_bit_outp option \<times> asn_bit_outp option" where
  "SEQUENCE_handle_extensions elements specs st po1 po2 =
     (if first_extension specs < 0 then (0, po1, po2)
      else handle_extensions_loop (drop (nat (first_extension specs)) (zip elements st)) 0 0 po1 po2)"

primrec put_presence :: "('v asn_TYPE_member \<times> 'v option) list \<Rightarrow> asn_bit_outp \<Rightarrow> int \<times> asn_bit_outp" where
  "put_presence [] po = (0, po)"
| "put_presence (m # ms) po =
     (case m of (elm, slot) \<Rightarrow>
        (case asn_put_few_bits po (if member_present elm slot \<and> \<not> member_default elm slot then 1 else 0) 1 of (r, po') \<Rightarrow>
           if r \<noteq> 0 then (-1, po') else put_presence ms po'))"

primrec put_root_members :: "('v asn_TYPE_member \<times> 'v option) list \<Rightarrow> asn_bit_outp \<Rightarrow> int \<times> asn_bit_outp" where
  "put_root_members [] po = (0, po)"
| "put_root_members (m # ms) po =
     (case m of (elm, slot) \<Rightarrow>
        if memb_pointer elm \<and> slot = None then
          if memb_optional elm \<noteq> 0 then put_root_members ms po else (-1, po)
        else if member_default elm slot then put_root_members ms po
        else (case the (op_uper_encoder (memb_type elm)) (memb_constraints elm) slot po of (encoded, po') \<Rightarrow>
                if encoded = -1 then (-1, po') else put_root_members ms po'))"

definition SEQUENCE_encode_uper ::
  "'v asn_TYPE_member list \<Rightarrow> asn_SEQUENCE_specifics \<Rightarrow> 'v option list option \<Rightarrow> asn_bit_outp \<Rightarrow> int \<times> asn_bit_outp" where
  "SEQUENCE_encode_uper elements specs sptr po =
     (case sptr of
        None \<Rightarrow> (-1, po)
      | Some st \<Rightarrow>
          let n_extensions = fst (SEQUENCE_handle_extensions elements specs st None None)
          in (case (if first_extension specs < 0 then (0, po) else asn_put_few_bits po (if n_extensions \<noteq> 0 then 1 else 0) 1) of (r, po1) \<Rightarrow>
                if r \<noteq> 0 then (-1, po1)
                else
                  (case put_presence (map (\<lambda>edx. (elements ! edx, st ! edx)) (take (roms_count specs) (oms specs))) po1 of (r, po2) \<Rightarrow>
                     if r \<noteq> 0 then (-1, po2)
                     else
                       (case put_root_members (take (root_end elements specs) (zip elements st)) po2 of (r, po3) \<Rightarrow>
                          if r \<noteq> 0 then (-1, po3)
                          else if n_extensions = 0 then (0, po3)
                          else
                            (case uper_put_nslength po3 (nat n_extensions) of (r, po4) \<Rightarrow>
                               if r \<noteq> 0 then (-1, po4)
                               else
                                 (case SEQUENCE_handle_extensions elements specs st (Some po4) None of (n, po5, _) \<Rightarrow>
                                    if n \<noteq> n_extensions then (-1, the po5)
                                    else
                                      (case SEQUENCE_handle_extensions elements specs st None (Some (the po5)) of (n, _, po6) \<Rightarrow>
                                         (if n \<noteq> n_extensions then -1 else 0, the po6))))))))"

section \<open>CHOICE\<close>

definition ranged :: "asn_per_constraint option \<Rightarrow> bool" where
  "ranged ct = (case ct of None \<Rightarrow> False | Some c \<Rightarrow> range_bits c \<ge> 0)"

definition get_choice_index ::
  "'v asn_TYPE_member list \<Rightarrow> asn_CHOICE_specifics \<Rightarrow> asn_per_constraint option \<Rightarrow> asn_bit_data \<Rightarrow> nat dec_rval \<times> asn_bit_data" where
  "get_choice_index elements specs ct pd =
     (if ranged ct then
        (case asn_get_few_bits pd (range_bits (the ct)) of (value, pd') \<Rightarrow>
           (if value < 0 then RC_WMORE
            else if value > sint (upper_bound (the ct)) then RC_FAIL
            else RC_OK (nat value) 0, pd'))
      else if ext_start specs = -1 then (RC_FAIL, pd)
      else
        (case uper_get_nsnnwn pd of (value, pd') \<Rightarrow>
           (if value < 0 then RC_WMORE
            else if value + ext_start specs \<ge> int (length elements) then RC_FAIL
            else RC_OK (nat (value + ext_start specs)) 0, pd')))"

definition get_chosen ::
  "'v asn_TYPE_member list \<Rightarrow> asn_CHOICE_specifics \<Rightarrow> bool \<Rightarrow> nat \<Rightarrow> asn_bit_data \<Rightarrow> 'v choice dec_rval \<times> asn_bit_data" where
  "get_chosen elements specs rooted value pd =
     (let idx = (case from_canonical_order specs of None \<Rightarrow> value | Some order \<Rightarrow> order ! value);
          elm = elements ! idx
      in (case (if rooted then memb_decode elm pd
                else uper_open_type_get (memb_type elm) (memb_constraints elm) pd) of (rv, pd') \<Rightarrow>
            (case rv of
               RC_OK v consumed \<Rightarrow> RC_OK \<lparr>present_idx = idx + 1, chosen = Some v\<rparr> consumed
             | RC_WMORE \<Rightarrow> RC_WMORE | RC_FAIL \<Rightarrow> RC_FAIL, pd')))"

definition CHOICE_decode_uper ::
  "'v asn_TYPE_member list \<Rightarrow> asn_CHOICE_specifics \<Rightarrow> asn_per_constraints option \<Rightarrow> asn_per_constraints option \<Rightarrow>
   asn_bit_data \<Rightarrow> 'v choice dec_rval \<times> asn_bit_data" where
  "CHOICE_decode_uper elements specs td_constraints constraints pd =
     (let ct = value_constraint td_constraints constraints
      in case (case ct of
                 None \<Rightarrow> (0, pd)
               | Some c \<Rightarrow> if apc_extensible c then asn_get_few_bits pd 1 else (0, pd)) of (value, pd1) \<Rightarrow>
           if value < 0 then (RC_WMORE, pd1)
           else
             let ct' = (if value \<noteq> 0 then None else ct)
             in (case get_choice_index elements specs ct' pd1 of (rv, pd2) \<Rightarrow>
                   (case rv of
                      RC_OK value _ \<Rightarrow> get_chosen elements specs (ranged ct') value pd2
                    | RC_WMORE \<Rightarrow> (RC_WMORE, pd2)
                    | RC_FAIL \<Rightarrow> (RC_FAIL, pd2))))"

definition put_chosen ::
  "'v asn_TYPE_member \<Rightarrow> asn_CHOICE_specifics \<Rightarrow> asn_per_constraint option \<Rightarrow> nat \<Rightarrow> 'v option \<Rightarrow> asn_bit_outp \<Rightarrow> int \<times> asn_bit_outp" where
  "put_chosen elm specs ct present_enc slot po =
     (if memb_pointer elm \<and> slot = None then (-1, po)
      else if ranged ct then
        (case asn_put_few_bits po (word_of_nat present_enc) (range_bits (the ct)) of (r, po1) \<Rightarrow>
           if r \<noteq> 0 then (-1, po1)
           else the (op_uper_encoder (memb_type elm)) (memb_constraints elm) slot po1)
      else if ext_start specs = -1 then (-1, po)
      else
        (case uper_put_nsnnwn po (int present_enc - ext_start specs) of (r, po1) \<Rightarrow>
           if r \<noteq> 0 then (-1, po1)
           else (case uper_open_type_put (memb_type elm) (memb_constraints elm) slot po1 of (r, po2) \<Rightarrow> (if r \<noteq> 0 then -1 else 0, po2))))"

definition CHOICE_encode_uper ::
  "'v asn_TYPE_member list \<Rightarrow> asn_CHOICE_specifics \<Rightarrow> asn_per_constraints option \<Rightarrow> asn_per_constraints option \<Rightarrow>
   'v choice option \<Rightarrow> asn_bit_outp \<Rightarrow> int \<times> asn_bit_outp" where
  "CHOICE_encode_uper elements specs td_constraints constraints sptr po =
     (case sptr of
        None \<Rightarrow> (-1, po)
      | Some st \<Rightarrow>
          if present_idx st = 0 \<or> present_idx st > length elements then (-1, po)
          else
            let ct = value_constraint td_constraints constraints;
                present = present_idx st - 1;
                present_enc = (case to_canonical_order specs of None \<Rightarrow> present | Some order \<Rightarrow> order ! present);
                out = (ranged ct \<and> (int present_enc < sint (lower_bound (the ct)) \<or> int present_enc > sint (upper_bound (the ct))))
            in if out \<and> \<not> apc_extensible (the ct) then (-1, po)
               else
                 (case (if out then asn_put_few_bits po 1 1
                        else if (case ct of None \<Rightarrow> False | Some c \<Rightarrow> apc_extensible c) then asn_put_few_bits po 0 1
                        else (0, po)) of (r, po1) \<Rightarrow>
                    if r \<noteq> 0 then (-1, po1)
                    else put_chosen (elements ! present) specs (if out then None else ct) present_enc (chosen st) po1))"

section \<open>Decoding stays inside the stream\<close>

lemma safe_case_rval [safe]:
  "(\<And>v k. safe_get (f v k)) \<Longrightarrow> safe_get g \<Longrightarrow> safe_get h \<Longrightarrow>
    safe_get (\<lambda>pd. case rv of RC_OK v k \<Rightarrow> f v k pd | RC_WMORE \<Rightarrow> g pd | RC_FAIL \<Rightarrow> h pd)"
  by (cases rv) simp_all

lemma safe_OPEN_TYPE [safe]: "safe_get (OPEN_TYPE_uper_get elm st)"
  unfolding OPEN_TYPE_uper_get_def [abs_def] by (intro safe)

lemma safe_get_member: "memb_open_type elm \<or> safe_get (memb_decode elm) \<Longrightarrow> safe_get (get_member elm st)"
  unfolding get_member_def [abs_def] by (intro safe) auto

lemma safe_root_members: "\<forall>elm\<in>set elms. memb_open_type elm \<or> safe_get (memb_decode elm) \<Longrightarrow> safe_get (get_root_members elms st opmd)"
proof (induction elms arbitrary: st opmd)
  case Nil
  then show ?case by (simp add: safe)
next
  case (Cons elm elms)
  have IH: "safe_get (get_root_members elms s p)" for s p using Cons by simp
  have "memb_open_type elm \<or> safe_get (memb_decode elm)" using Cons.prems by simp
  then show ?case by (simp only: get_root_members.simps) (intro safe IH safe_get_member)
qed

lemma safe_extensions [safe]: "safe_get (get_extensions elms st epmd)"
proof (induction elms arbitrary: st epmd)
  case Nil
  then show ?case by (simp add: safe)
next
  case (Cons elm elms)
  then show ?case by (simp only: get_extensions.simps) (intro safe)
qed

lemma safe_skip_extensions [safe]: "safe_get (skip_extensions epmd)"
proof (induction "pd_left epmd" arbitrary: epmd rule: less_induct)
  case less
  let ?r = "asn_get_few_bits epmd 1"
  have "safe_get (skip_extensions (snd ?r))" if "fst ?r \<noteq> -1" using that flag_left [of "fst ?r" "snd ?r" epmd] by (intro less) simp
  then have "safe_get (\<lambda>pd. if fst ?r = -1 then (0, pd) else if fst ?r = 0 then skip_extensions (snd ?r) pd
     else (case uper_open_type_skip pd of (r, pd') \<Rightarrow> if r \<noteq> 0 then (-1, pd') else skip_extensions (snd ?r) pd'))"
    by (intro safe) auto
  moreover have "skip_extensions epmd = (\<lambda>pd. if fst ?r = -1 then (0, pd) else if fst ?r = 0 then skip_extensions (snd ?r) pd
     else (case uper_open_type_skip pd of (r, pd') \<Rightarrow> if r \<noteq> 0 then (-1, pd') else skip_extensions (snd ?r) pd'))"
    by (rule ext) (subst skip_extensions.simps, simp add: split_beta)
  ultimately show ?case by simp
qed

lemma safe_extension_additions [safe]: "safe_get (get_extension_additions elms st)"
  unfolding get_extension_additions_def [abs_def] by (intro safe)

lemma safe_SEQUENCE:
  assumes "\<forall>elm\<in>set elements. memb_open_type elm \<or> safe_get (memb_decode elm)"
  shows "safe_get (SEQUENCE_decode_uper elements specs)"
proof -
  have roots: "safe_get (get_root_members (take n elements) st opmd)" for n st opmd
    using assms by (intro safe_root_members) (meson in_set_takeD)
  define g where "g = (\<lambda>(extpresent :: int) (r :: int) opres pd2. if r \<noteq> 0 then (RC_WMORE, pd2) else
     let roots = take (root_end elements specs) elements; exts = drop (root_end elements specs) elements
     in (case get_root_members roots [] (new_pd opres 0 (roms_count specs)) pd2 of (rv, pd3) \<Rightarrow>
           (case rv of
              RC_OK st _ \<Rightarrow>
                (case (if extpresent \<noteq> 0 then get_extension_additions exts st pd3
                       else (RC_OK (st @ replicate (length exts) None) 0, pd3)) of (rv, pd4) \<Rightarrow>
                   (case rv of
                      RC_OK st' _ \<Rightarrow>
                        (if first_extension specs \<ge> 0 then
                           (case fill_defaults elements (take (aoms_count specs) (drop (roms_count specs) (oms specs))) st' of
                              None \<Rightarrow> RC_FAIL | Some st'' \<Rightarrow> RC_OK st'' 0)
                         else RC_OK st' 0, pd4)
                    | RC_WMORE \<Rightarrow> (RC_WMORE, pd4)
                    | RC_FAIL \<Rightarrow> (RC_FAIL, pd4)))
            | RC_WMORE \<Rightarrow> (RC_WMORE, pd3)
            | RC_FAIL \<Rightarrow> (RC_FAIL, pd3))))"
  have g: "safe_get (g e r os)" for e r os unfolding g_def by (intro safe roots)
  have "SEQUENCE_decode_uper elements specs = (\<lambda>pd. case (if first_extension specs < 0 then (0, pd) else asn_get_few_bits pd 1) of (extpresent, pd1) \<Rightarrow>
     if extpresent < 0 then (RC_WMORE, pd1) else
     if roms_count specs \<noteq> 0 then (case asn_get_many_bits pd1 False (int (roms_count specs)) of (r, opres, pd2) \<Rightarrow> g extpresent r opres pd2)
     else g extpresent 0 [] pd1)"
    by (rule ext) (simp add: SEQUENCE_decode_uper_def g_def split_beta)
  moreover have "safe_get \<dots>" by (intro safe g)
  ultimately show ?thesis by simp
qed

lemma safe_bind_result:
  assumes f: "safe_get f" and g: "\<And>pd. safe_get (g (fst (f pd)))"
  shows "safe_get (\<lambda>pd. case f pd of (r, pd') \<Rightarrow> g r pd')"
proof (rule safe_getI)
  fix pd assume "pd_inv pd"
  with f obtain bs where bs: "consumes pd bs (snd (f pd))" "pd_inv (snd (f pd))" by (rule safe_getE)
  from g [of pd] bs(2) obtain cs where "consumes (snd (f pd)) cs (snd (g (fst (f pd)) (snd (f pd))))" by (rule safe_getE)
  with bs(1) show "\<exists>bs. consumes pd bs (snd (case f pd of (r, pd') \<Rightarrow> g r pd'))"
    by (auto simp: split_beta intro: consumes_trans)
qed

definition choice_wf :: "'v asn_TYPE_member list \<Rightarrow> asn_CHOICE_specifics \<Rightarrow> asn_per_constraint option \<Rightarrow> bool" where
  "choice_wf elements specs ct \<longleftrightarrow>
     (case ct of None \<Rightarrow> True | Some c \<Rightarrow> range_bits c \<ge> 0 \<longrightarrow> range_bits c \<le> 31 \<and> lower_bound c = 0 \<and>
        0 \<le> sint (upper_bound c) \<and> sint (upper_bound c) < int (length elements) \<and> sint (upper_bound c) < 2 ^ nat (range_bits c)) \<and>
     ext_start specs \<ge> -1 \<and>
     (case (from_canonical_order specs, to_canonical_order specs) of
        (None, None) \<Rightarrow> True
      | (Some order, Some order') \<Rightarrow> length order = length elements \<and> length order' = length elements \<and>
          list_all (\<lambda>i. order ! i < length elements \<and> order' ! i < length elements \<and> order ! (order' ! i) = i) [0..<length elements]
      | _ \<Rightarrow> False)"

lemma safe_CHOICE:
  assumes "\<forall>elm\<in>set elements. safe_get (memb_decode elm)" "choice_wf elements specs (value_constraint tc c)"
  shows "safe_get (CHOICE_decode_uper elements specs tc c)"
proof -
  have idx: "(case from_canonical_order specs of None \<Rightarrow> n | Some order \<Rightarrow> order ! n) < length elements" if "n < length elements" for n
    using that assms(2) by (auto simp: choice_wf_def list_all_iff split: option.splits)
  have chosen: "safe_get (get_chosen elements specs rooted n)" if "n < length elements" for rooted n
  proof -
    from idx [OF that] assms(1) have "safe_get (memb_decode (elements ! (case from_canonical_order specs of None \<Rightarrow> n | Some order \<Rightarrow> order ! n)))" by simp
    then show ?thesis unfolding get_chosen_def [abs_def] Let_def by (intro safe)
  qed
  have idx_safe: "safe_get (get_choice_index elements specs ct)" for ct
    unfolding get_choice_index_def [abs_def] by (intro safe)
  have index: "n < length elements" if "fst (get_choice_index elements specs ct pd) = RC_OK n k" "ct = None \<or> ct = value_constraint tc c" for ct pd n k
    using that assms(2)
    by (auto simp: get_choice_index_def choice_wf_def ranged_def split_beta split: if_splits option.splits)
  define rest where "rest = (\<lambda>ct' pd1. case get_choice_index elements specs ct' pd1 of (rv, pd2) \<Rightarrow>
     (case rv of RC_OK value (k :: nat) \<Rightarrow> get_chosen elements specs (ranged ct') value pd2 | RC_WMORE \<Rightarrow> (RC_WMORE, pd2) | RC_FAIL \<Rightarrow> (RC_FAIL, pd2)))"
  have "safe_get (rest ct')" if "ct' = None \<or> ct' = value_constraint tc c" for ct'
    unfolding rest_def
  proof (rule safe_bind_result [OF idx_safe])
    fix pd
    show "safe_get (\<lambda>pd2. case fst (get_choice_index elements specs ct' pd) of RC_OK value (k :: nat) \<Rightarrow> get_chosen elements specs (ranged ct') value pd2
        | RC_WMORE \<Rightarrow> (RC_WMORE, pd2) | RC_FAIL \<Rightarrow> (RC_FAIL, pd2))"
      by (cases "fst (get_choice_index elements specs ct' pd)") (auto simp: safe_return intro: chosen index [OF _ that])
  qed
  then have rests: "safe_get (rest (if x \<noteq> 0 then None else value_constraint tc c))" for x :: int by simp
  have "CHOICE_decode_uper elements specs tc c = (\<lambda>pd. case (case value_constraint tc c of None \<Rightarrow> (0, pd)
      | Some c \<Rightarrow> if apc_extensible c then asn_get_few_bits pd 1 else (0, pd)) of (value, pd1) \<Rightarrow>
      if value < 0 then (RC_WMORE, pd1) else rest (if value \<noteq> 0 then None else value_constraint tc c) pd1)"
    unfolding CHOICE_decode_uper_def [abs_def] rest_def Let_def ..
  moreover have "safe_get \<dots>" by (intro safe rests)
  ultimately show ?thesis by simp
qed

section \<open>What the members put on the wire\<close>

text \<open>A type conveys a value: the bits it writes for it and the value it reads back.\<close>

definition conveys :: "'v asn_TYPE_descriptor \<Rightarrow> asn_per_constraints option \<Rightarrow> 'v \<Rightarrow> bool list \<Rightarrow> 'v \<Rightarrow> nat \<Rightarrow> bool" where
  "conveys td c v bs r used \<longleftrightarrow>
     (\<exists>enc dec. op_uper_encoder td = Some enc \<and> op_uper_decoder td = Some dec \<and>
        writes (enc c (Some v)) bs \<and> reads (dec c) bs (RC_OK r used))"

definition member_conveys :: "'v asn_TYPE_member \<Rightarrow> 'v option list \<Rightarrow> 'v \<Rightarrow> bool list \<Rightarrow> 'v \<Rightarrow> bool" where
  "member_conveys elm st v bs r \<longleftrightarrow>
     writes (the (op_uper_encoder (memb_type elm)) (memb_constraints elm) (Some v)) bs \<and>
     (\<exists>used. reads (get_member elm st) bs (RC_OK r used))"

lemma member_conveysI:
  assumes "conveys (memb_type elm) (memb_constraints elm) v bs r used" "\<not> memb_open_type elm"
  shows "member_conveys elm st v bs r"
  using assms by (auto simp: conveys_def member_conveys_def get_member_def [abs_def])

text \<open>
  A root member with its presence bit, its bits and the slot the decoder leaves, given the
  slots decoded before it.
\<close>

inductive root_code :: "'v asn_TYPE_member \<Rightarrow> 'v option list \<Rightarrow> 'v option \<Rightarrow> bool list \<Rightarrow> bool list \<Rightarrow> 'v option \<Rightarrow> bool" where
  mandatory: "memb_optional elm = 0 \<Longrightarrow> memb_default_cmp elm = None \<Longrightarrow> member_conveys elm st v bs r \<Longrightarrow>
    root_code elm st (Some v) [] bs (Some r)"
| present: "memb_optional elm \<noteq> 0 \<Longrightarrow> \<not> member_default elm (Some v) \<Longrightarrow> member_conveys elm st v bs r \<Longrightarrow>
    root_code elm st (Some v) [True] bs (Some r)"
| absent: "memb_optional elm \<noteq> 0 \<Longrightarrow> memb_pointer elm \<Longrightarrow> memb_default_set elm = None \<Longrightarrow>
    root_code elm st None [False] [] None"
| absent_default: "memb_optional elm \<noteq> 0 \<Longrightarrow> memb_pointer elm \<Longrightarrow> memb_default_set elm = Some (Some d) \<Longrightarrow>
    root_code elm st None [False] [] (Some d)"
| default: "memb_optional elm \<noteq> 0 \<Longrightarrow> member_default elm (Some v) \<Longrightarrow> memb_default_set elm = Some (Some d) \<Longrightarrow>
    root_code elm st (Some v) [False] [] (Some d)"

inductive root_codes ::
  "'v asn_TYPE_member list \<Rightarrow> 'v option list \<Rightarrow> 'v option list \<Rightarrow> bool list \<Rightarrow> bool list \<Rightarrow> 'v option list \<Rightarrow> bool" where
  none: "root_codes [] st [] [] [] []"
| one_more: "root_code elm st slot fl bs r \<Longrightarrow> root_codes elms (st @ [r]) slots fls bss rs \<Longrightarrow>
    root_codes (elm # elms) st (slot # slots) (fl @ fls) (bs @ bss) (r # rs)"

lemma root_codes_length: "root_codes elms st slots fls bss rs \<Longrightarrow> length slots = length elms \<and> length rs = length elms"
  by (induction rule: root_codes.induct) simp_all

lemma next_flag:
  assumes "pd_inv pd" "src_bits pd = b # bs"
  obtains pd' where "asn_get_few_bits pd 1 = (if b then 1 else 0, pd')" "pd_inv pd'" "src_bits pd' = bs"
  using readsE [OF flag_reads [of b] assms(1), of bs] assms(2) by auto

lemma root_members_reads:
  "root_codes elms st slots fls bss rs \<Longrightarrow> pd_inv opmd \<Longrightarrow> src_bits opmd = fls @ rest \<Longrightarrow>
    reads (get_root_members elms st opmd) bss (RC_OK (st @ rs) 0)"
proof (induction arbitrary: opmd rule: root_codes.induct)
  case (none st)
  then show ?case using reads_return [of "RC_OK st 0"] by simp
next
  case (one_more elm st slot fl bs r elms slots fls bss rs)
  let ?g = "\<lambda>opmd' rv pd'. case rv of RC_OK v _ \<Rightarrow> get_root_members elms (st @ [Some v]) opmd' pd'
     | RC_WMORE \<Rightarrow> (RC_WMORE, pd') | RC_FAIL \<Rightarrow> (RC_FAIL, pd')"
  have IH: "reads (get_root_members elms (st @ [r]) p) bss (RC_OK (st @ r # rs) 0)" if "pd_inv p" "src_bits p = fls @ rest" for p
    using one_more.IH [OF that] by simp
  have sent: "reads (\<lambda>pd. case get_member elm st pd of (rv, pd') \<Rightarrow> ?g p rv pd') (bs @ bss) (RC_OK (st @ r # rs) 0)"
    if "member_conveys elm st v bs w" "r = Some w" "pd_inv p" "src_bits p = fls @ rest" for v w p
  proof -
    from that(1) obtain used where "reads (get_member elm st) bs (RC_OK w used)" by (auto simp: member_conveys_def)
    moreover have "reads (?g p (RC_OK w used)) bss (RC_OK (st @ r # rs) 0)" using IH [OF that(3,4)] that(2) by simp
    ultimately show ?thesis by (rule reads_then) simp_all
  qed
  from one_more.hyps(1) show ?case
  proof cases
    case (mandatory v w)
    have "reads (\<lambda>pd. case get_member elm st pd of (rv, pd') \<Rightarrow> ?g opmd rv pd') (bs @ bss) (RC_OK (st @ r # rs) 0)"
      using mandatory one_more.prems by (intro sent [of v w]) simp_all
    then show ?thesis using mandatory by simp
  next
    case (present v w)
    with one_more.prems obtain p where p: "asn_get_few_bits opmd 1 = (1, p)" "pd_inv p" "src_bits p = fls @ rest"
      using next_flag [of opmd True "fls @ rest"] by auto
    have "reads (\<lambda>pd. case get_member elm st pd of (rv, pd') \<Rightarrow> ?g p rv pd') (bs @ bss) (RC_OK (st @ r # rs) 0)"
      using present p by (intro sent [of v w]) simp_all
    then show ?thesis using p(1) present by simp
  next
    case absent
    with one_more.prems obtain p where p: "asn_get_few_bits opmd 1 = (0, p)" "pd_inv p" "src_bits p = fls @ rest"
      using next_flag [of opmd False "fls @ rest"] by auto
    from IH [OF p(2,3)] show ?thesis using p(1) absent by simp
  next
    case (absent_default d)
    with one_more.prems obtain p where p: "asn_get_few_bits opmd 1 = (0, p)" "pd_inv p" "src_bits p = fls @ rest"
      using next_flag [of opmd False "fls @ rest"] by auto
    from IH [OF p(2,3)] show ?thesis using p(1) absent_default by simp
  next
    case (default v d)
    with one_more.prems obtain p where p: "asn_get_few_bits opmd 1 = (0, p)" "pd_inv p" "src_bits p = fls @ rest"
      using next_flag [of opmd False "fls @ rest"] by auto
    from IH [OF p(2,3)] show ?thesis using p(1) default by simp
  qed
qed

text \<open>Writing a list of bits and members.\<close>

lemma writes_nothing: "writes (\<lambda>po. (0, po)) []"
  by (auto intro: writesI puts_refl)

lemma writes_step:
  assumes "writes f bs" "writes g cs"
  shows "writes (\<lambda>po. case f po of (r, po') \<Rightarrow> if r \<noteq> 0 then (-1, po') else g po') (bs @ cs)"
    "writes (\<lambda>po. case f po of (r, po') \<Rightarrow> if r = -1 then (-1, po') else g po') (bs @ cs)"
proof -
  have steps: "\<exists>p q. f po = (0, p) \<and> g p = (0, q) \<and> puts po (bs @ cs) q" if "po_inv po" for po
  proof -
    from assms(1) that obtain p where p: "f po = (0, p)" "puts po bs p" "po_inv p" by (rule writesE)
    from assms(2) p(3) obtain q where "g p = (0, q)" "puts p cs q" by (rule writesE)
    with p puts_trans [OF p(2)] show ?thesis by blast
  qed
  show "writes (\<lambda>po. case f po of (r, po') \<Rightarrow> if r \<noteq> 0 then (-1, po') else g po') (bs @ cs)"
    by (rule writesI) (use steps in fastforce)
  show "writes (\<lambda>po. case f po of (r, po') \<Rightarrow> if r = -1 then (-1, po') else g po') (bs @ cs)"
    by (rule writesI) (use steps in fastforce)
qed

lemma root_members_writes: "root_codes elms st slots fls bss rs \<Longrightarrow> writes (put_root_members (zip elms slots)) bss"
proof (induction rule: root_codes.induct)
  case (none st)
  then show ?case using writes_nothing by simp
next
  case (one_more elm st slot fl bs r elms slots fls bss rs)
  have sent: "writes (\<lambda>po. case the (op_uper_encoder (memb_type elm)) (memb_constraints elm) (Some v) po of (encoded, po') \<Rightarrow>
      if encoded = -1 then (-1, po') else put_root_members (zip elms slots) po') (bs @ bss)" if "member_conveys elm st v bs w" for v w
    using that one_more.IH by (intro writes_step) (simp_all add: member_conveys_def)
  from one_more.hyps(1) show ?case
  proof cases
    case (mandatory v w)
    then show ?thesis using sent by (simp add: member_default_def)
  next
    case (present v w)
    then show ?thesis using sent by simp
  qed (use one_more.IH in simp_all)
qed

lemma presence_writes:
  "root_codes elms st slots fls bss rs \<Longrightarrow> writes (put_presence (filter (\<lambda>(elm, _). 0 < memb_optional elm) (zip elms slots))) fls"
proof (induction rule: root_codes.induct)
  case (none st)
  then show ?case using writes_nothing by simp
next
  case (one_more elm st slot fl bs r elms slots fls bss rs)
  let ?rest = "put_presence (filter (\<lambda>(elm, _). 0 < memb_optional elm) (zip elms slots))"
  have flag: "writes (\<lambda>po. case asn_put_few_bits po (if b then 1 else 0) 1 of (r, po') \<Rightarrow> if r \<noteq> 0 then (-1, po') else ?rest po') ([b] @ fls)" for b
    by (rule writes_step(1) [OF flag_writes one_more.IH])
  from one_more.hyps(1) show ?case
  proof cases
    case (mandatory v w)
    then show ?thesis using one_more.IH by simp
  qed (use flag [of True] flag [of False] in \<open>simp_all add: member_present_def member_default_def\<close>)
qed

section \<open>Extension additions\<close>

inductive ext_codes ::
  "'v asn_TYPE_member list \<Rightarrow> 'v option list \<Rightarrow> bool list \<Rightarrow> bool list \<Rightarrow> 'v option list \<Rightarrow> bool" where
  ext_none: "ext_codes [] [] [] [] []"
| ext_absent: "memb_pointer elm \<Longrightarrow> ext_codes elms slots fls bss rs \<Longrightarrow>
    ext_codes (elm # elms) (None # slots) (False # fls) bss (None # rs)"
| ext_present: "conveys (memb_type elm) (memb_constraints elm) v bs r used \<Longrightarrow> ext_codes elms slots fls bss rs \<Longrightarrow>
    ext_codes (elm # elms) (Some v # slots) (True # fls) (open_code bs @ bss) (Some r # rs)"

lemma ext_codes_length: "ext_codes elms slots fls bss rs \<Longrightarrow> length slots = length elms \<and> length fls = length elms \<and> length rs = length elms"
  by (induction rule: ext_codes.induct) simp_all

lemma ext_codes_split:
  "ext_codes (elms1 @ elms2) slots fls bss rs \<Longrightarrow>
    \<exists>slots1 fls1 bss1 rs1 slots2 fls2 bss2 rs2. ext_codes elms1 slots1 fls1 bss1 rs1 \<and> ext_codes elms2 slots2 fls2 bss2 rs2 \<and>
      slots = slots1 @ slots2 \<and> fls = fls1 @ fls2 \<and> bss = bss1 @ bss2 \<and> rs = rs1 @ rs2"
proof (induction elms1 arbitrary: slots fls bss rs)
  case Nil
  then show ?case using ext_none by (metis append_Nil)
next
  case (Cons elm elms1)
  from Cons.prems have "ext_codes (elm # (elms1 @ elms2)) slots fls bss rs" by simp
  then show ?case
  proof cases
    case (ext_absent slots' fls' rs')
    from Cons.IH [OF ext_absent(5)] obtain s1 f1 b1 r1 s2 f2 b2 r2 where
      "ext_codes elms1 s1 f1 b1 r1" "ext_codes elms2 s2 f2 b2 r2" "slots' = s1 @ s2" "fls' = f1 @ f2" "bss = b1 @ b2" "rs' = r1 @ r2" by blast
    with ext_absent ext_codes.ext_absent [of elm elms1 s1 f1 b1 r1] show ?thesis
      by (intro exI [of _ "None # s1"] exI [of _ "False # f1"] exI [of _ b1] exI [of _ "None # r1"] exI [of _ s2] exI [of _ f2] exI [of _ b2] exI [of _ r2]) simp
  next
    case (ext_present v bs r used slots' fls' bss' rs')
    from Cons.IH [OF ext_present(6)] obtain s1 f1 b1 r1 s2 f2 b2 r2 where
      "ext_codes elms1 s1 f1 b1 r1" "ext_codes elms2 s2 f2 b2 r2" "slots' = s1 @ s2" "fls' = f1 @ f2" "bss' = b1 @ b2" "rs' = r1 @ r2" by blast
    with ext_present ext_codes.ext_present [of elm v bs r used elms1 s1 f1 b1 r1] show ?thesis
      by (intro exI [of _ "Some v # s1"] exI [of _ "True # f1"] exI [of _ "open_code bs @ b1"] exI [of _ "Some r # r1"] exI [of _ s2] exI [of _ f2] exI [of _ b2] exI [of _ r2]) simp
  qed
qed

subsection \<open>Writing\<close>

lemma extensions_count:
  "ext_codes elms slots fls bss rs \<Longrightarrow>
    handle_extensions_loop (zip elms slots) p c None None = (if p \<noteq> 0 \<or> True \<in> set fls then int (c + length elms) else 0, None, None)"
  by (induction arbitrary: p c rule: ext_codes.induct) (simp_all add: member_present_def)

lemma extensions_flags:
  "ext_codes elms slots fls bss rs \<Longrightarrow> po_inv po \<Longrightarrow>
    \<exists>po'. handle_extensions_loop (zip elms slots) p c (Some po) None =
      (if p \<noteq> 0 \<or> True \<in> set fls then int (c + length elms) else 0, Some po', None) \<and> puts po fls po'"
proof (induction arbitrary: p c po rule: ext_codes.induct)
  case ext_none
  then show ?case by (auto intro: puts_refl)
next
  case (ext_absent elm elms slots fls bss rs)
  from writesE [OF flag_writes [of False] ext_absent.prems] obtain q where
    q: "asn_put_few_bits po 0 1 = (0, q)" "puts po [False] q" "po_inv q" by auto
  from ext_absent.IH [OF q(3), of p "c + 1"] puts_trans [OF q(2)] q(1) ext_absent.hyps(1) show ?case
    by (fastforce simp: member_present_def)
next
  case (ext_present elm v bs r used elms slots fls bss rs)
  from writesE [OF flag_writes [of True] ext_present.prems] obtain q where
    q: "asn_put_few_bits po 1 1 = (0, q)" "puts po [True] q" "po_inv q" by auto
  from ext_present.IH [OF q(3), of "p + 1" "c + 1"] puts_trans [OF q(2)] q(1) show ?case
    by (fastforce simp: member_present_def)
qed

lemma extensions_values:
  "ext_codes elms slots fls bss rs \<Longrightarrow> po_inv po \<Longrightarrow>
    \<exists>po'. handle_extensions_loop (zip elms slots) p c None (Some po) =
      (if p \<noteq> 0 \<or> True \<in> set fls then int (c + length elms) else 0, None, Some po') \<and> puts po bss po'"
proof (induction arbitrary: p c po rule: ext_codes.induct)
  case ext_none
  then show ?case by (auto intro: puts_refl)
next
  case (ext_absent elm elms slots fls bss rs)
  from ext_absent.IH [OF ext_absent.prems, of p "c + 1"] ext_absent.hyps(1) show ?case by (fastforce simp: member_present_def)
next
  case (ext_present elm v bs r used elms slots fls bss rs)
  from ext_present.hyps(1) have "writes (uper_open_type_put (memb_type elm) (memb_constraints elm) (Some v)) (open_code bs)"
    by (auto simp: conveys_def intro: open_put_writes)
  from writesE [OF this ext_present.prems] obtain q where
    q: "uper_open_type_put (memb_type elm) (memb_constraints elm) (Some v) po = (0, q)" "puts po (open_code bs) q" "po_inv q" .
  from ext_present.IH [OF q(3), of "p + 1" "c + 1"] puts_trans [OF q(2)] q(1) show ?case
    by (fastforce simp: member_present_def)
qed

subsection \<open>Reading\<close>

lemma flags_end:
  assumes "pd_inv pd" "src_bits pd = []"
  shows "asn_get_few_bits pd 1 = (-1, pd)"
  using asn_get_few_bits_starved [OF assms(1), of 1] assms(2) by simp

lemma get_extensions_reads:
  "ext_codes elms slots fls bss rs \<Longrightarrow> pd_inv epmd \<Longrightarrow> src_bits epmd = fls @ rest \<Longrightarrow> rest = [] \<or> extra = [] \<Longrightarrow>
    \<exists>epmd'. pd_inv epmd' \<and> src_bits epmd' = rest \<and>
      reads (get_extensions (elms @ extra) st epmd) bss (RC_OK (st @ rs @ replicate (length extra) None, epmd') 0)"
proof (induction arbitrary: st epmd rule: ext_codes.induct)
  case ext_none
  show ?case
  proof (cases extra)
    case Nil
    then show ?thesis using ext_none reads_return [of "RC_OK (st, epmd) 0"] by (intro exI [of _ epmd]) simp
  next
    case (Cons m ms)
    with ext_none flags_end [of epmd] reads_return [of "RC_OK (st @ None # replicate (length ms) None, epmd) 0"] show ?thesis
      by (intro exI [of _ epmd]) simp
  qed
next
  case (ext_absent elm elms slots fls bss rs)
  from ext_absent.prems obtain p where p: "asn_get_few_bits epmd 1 = (0, p)" "pd_inv p" "src_bits p = fls @ rest"
    using next_flag [of epmd False "fls @ rest"] by auto
  from ext_absent.IH [OF p(2,3) ext_absent.prems(3), of "st @ [None]"] p(1) show ?case by simp
next
  case (ext_present elm v bs r used elms slots fls bss rs)
  from ext_present.prems obtain p where p: "asn_get_few_bits epmd 1 = (1, p)" "pd_inv p" "src_bits p = fls @ rest"
    using next_flag [of epmd True "fls @ rest"] by auto
  let ?g = "\<lambda>rv pd'. case rv of RC_OK v _ \<Rightarrow> get_extensions (elms @ extra) (st @ [Some v]) p pd'
     | RC_WMORE \<Rightarrow> (RC_WMORE, pd') | RC_FAIL \<Rightarrow> (RC_FAIL, pd')"
  from ext_present.IH [OF p(2,3) ext_present.prems(3), of "st @ [Some r]"] obtain q where
    q: "pd_inv q" "src_bits q = rest" "reads (get_extensions (elms @ extra) (st @ [Some r]) p) bss (RC_OK ((st @ [Some r]) @ rs @ replicate (length extra) None, q) 0)"
    by blast
  have "reads (uper_open_type_get (memb_type elm) (memb_constraints elm)) (open_code bs) (RC_OK r used)"
    using ext_present.hyps(1) by (auto simp: conveys_def intro: open_get_reads)
  moreover have "reads (?g (RC_OK r used)) bss (RC_OK (st @ Some r # rs @ replicate (length extra) None, q) 0)" using q(3) by simp
  ultimately have "reads (\<lambda>pd. case uper_open_type_get (memb_type elm) (memb_constraints elm) pd of (rv, pd') \<Rightarrow> ?g rv pd')
      (open_code bs @ bss) (RC_OK (st @ Some r # rs @ replicate (length extra) None, q) 0)" by (rule reads_then) simp_all
  with q(1,2) p(1) show ?case by (intro exI [of _ q]) simp
qed

lemma skip_extensions_reads:
  "ext_codes elms slots fls bss rs \<Longrightarrow> pd_inv epmd \<Longrightarrow> src_bits epmd = fls \<Longrightarrow> reads (skip_extensions epmd) bss 0"
proof (induction arbitrary: epmd rule: ext_codes.induct)
  case ext_none
  then have "skip_extensions epmd = (\<lambda>pd. (0, pd))" using flags_end [of epmd] by (intro ext) (subst skip_extensions.simps, simp)
  then show ?case using reads_return by simp
next
  case (ext_absent elm elms slots fls bss rs)
  from ext_absent.prems obtain p where p: "asn_get_few_bits epmd 1 = (0, p)" "pd_inv p" "src_bits p = fls"
    using next_flag [of epmd False fls] by auto
  have "skip_extensions epmd = skip_extensions p" using p(1) by (intro ext) (subst skip_extensions.simps, simp)
  with ext_absent.IH [OF p(2,3)] show ?case by simp
next
  case (ext_present elm v bs r used elms slots fls bss rs)
  from ext_present.prems obtain p where p: "asn_get_few_bits epmd 1 = (1, p)" "pd_inv p" "src_bits p = fls"
    using next_flag [of epmd True fls] by auto
  let ?g = "\<lambda>r pd'. if r \<noteq> 0 then (-1, pd') else skip_extensions p pd'"
  have "skip_extensions epmd = (\<lambda>pd. case uper_open_type_skip pd of (r, pd') \<Rightarrow> ?g r pd')"
    using p(1) by (intro ext) (subst skip_extensions.simps, simp)
  moreover have "reads (?g 0) bss 0" using ext_present.IH [OF p(2,3)] by simp
  ultimately show ?case by (simp only:) (rule reads_then [where g = ?g, OF open_skip_reads], simp_all)
qed

lemma padded_bits:
  "pd_inv (new_pd (octets_of (pad8 bs)) 0 (length bs))" "src_bits (new_pd (octets_of (pad8 bs)) 0 (length bs)) = bs"
proof -
  have b: "bits_of (octets_of (pad8 bs)) = pad8 bs" by (rule bits_of_octets_of) simp
  then have "8 * length (octets_of (pad8 bs)) = length (pad8 bs)" by (metis length_bits_of)
  then show "pd_inv (new_pd (octets_of (pad8 bs)) 0 (length bs))" by (intro new_pd_inv) (simp_all add: pad8_def)
  show "src_bits (new_pd (octets_of (pad8 bs)) 0 (length bs)) = bs" using b by (simp add: pad8_def)
qed

text \<open>
  The sender and the receiver may know different versions of the type: one list of
  additions is a prefix of the other.
\<close>

lemma additions_reads:
  assumes codes: "ext_codes sent slots fls bss rs" and n: "0 < length sent" "length sent \<le> 64"
    and versions: "known = sent @ extra \<or> sent = known @ extra"
  shows "reads (get_extension_additions known st) (nat_bl 7 (length sent - 1) @ fls @ bss)
    (RC_OK (st @ take (length known) rs @ replicate (length known - length sent) None) 0)"
proof (rule readsI)
  fix pd rest assume pd: "pd_inv pd" "src_bits pd = (nat_bl 7 (length sent - 1) @ fls @ bss) @ rest"
  let ?res = "st @ take (length known) rs @ replicate (length known - length sent) None"
  let ?epmd = "new_pd (octets_of (pad8 fls)) 0 (length fls)"
  have len: "length fls = length sent" "length rs = length sent" using ext_codes_length [OF codes] by simp_all
  from readsE [OF nslength_reads [OF n] pd(1), of "fls @ bss @ rest"] pd(2) obtain p1 where
    p1: "uper_get_nslength pd = (int (length fls), p1)" "consumes pd (nat_bl 7 (length sent - 1)) p1" "src_bits p1 = fls @ bss @ rest" "pd_inv p1"
    using len by auto
  obtain p2 where p2: "asn_get_many_bits p1 False (int (length fls)) = (0, octets_of (pad8 fls), p2)" "consumes p1 fls p2" "src_bits p2 = bss @ rest"
    using asn_get_many_bits_ok [OF p1(4,3)] .
  have inv2: "pd_inv p2" using consumesD(2) [OF p2(2)] .
  have "\<exists>epmd bss1 bss2. reads (get_extensions known st ?epmd) bss1 (RC_OK (?res, epmd) 0) \<and> reads (skip_extensions epmd) bss2 0 \<and> bss = bss1 @ bss2"
  proof (cases "known = sent @ extra")
    case True
    from get_extensions_reads [OF codes padded_bits(1), where rest = "[]" and extra = extra and st = st] padded_bits(2) [of fls] obtain epmd where
      "pd_inv epmd" "src_bits epmd = []" "reads (get_extensions (sent @ extra) st ?epmd) bss (RC_OK (st @ rs @ replicate (length extra) None, epmd) 0)" by auto
    moreover from this(1,2) have "reads (skip_extensions epmd) [] 0" using skip_extensions_reads [OF ext_none] by simp
    ultimately show ?thesis using True len by (intro exI [of _ epmd] exI [of _ bss] exI [of _ "[]"]) simp
  next
    case False
    then have sent: "sent = known @ extra" using versions by blast
    from ext_codes_split [OF codes [unfolded sent]] obtain s1 f1 b1 r1 s2 f2 b2 r2 where
      s: "ext_codes known s1 f1 b1 r1" "ext_codes extra s2 f2 b2 r2" "fls = f1 @ f2" "bss = b1 @ b2" "rs = r1 @ r2" by blast
    from get_extensions_reads [OF s(1) padded_bits(1) [of fls], where rest = f2 and extra = "[]" and st = st] padded_bits(2) [of fls] s(3) obtain epmd where
      e: "pd_inv epmd" "src_bits epmd = f2" "reads (get_extensions known st ?epmd) b1 (RC_OK (st @ r1, epmd) 0)" by auto
    from skip_extensions_reads [OF s(2) e(1,2)] e(3) show ?thesis
      using s ext_codes_length [OF s(1)] sent by (intro exI [of _ epmd] exI [of _ b1] exI [of _ b2]) simp
  qed
  then obtain epmd bss1 bss2 where r: "reads (get_extensions known st ?epmd) bss1 (RC_OK (?res, epmd) 0)" "reads (skip_extensions epmd) bss2 0" "bss = bss1 @ bss2"
    by blast
  from readsE [OF r(1) inv2, of "bss2 @ rest"] p2(3) r(3) obtain p3 where
    p3: "get_extensions known st ?epmd p2 = (RC_OK (?res, epmd) 0, p3)" "consumes p2 bss1 p3" "src_bits p3 = bss2 @ rest" "pd_inv p3" by auto
  from readsE [OF r(2) p3(4,3)] obtain p4 where p4: "skip_extensions epmd p3 = (0, p4)" "consumes p3 bss2 p4" "src_bits p4 = rest" .
  have "get_extension_additions known st pd = (RC_OK ?res 0, p4)"
    using p1(1) p2(1) p3(1) p4(1) by (simp add: get_extension_additions_def)
  moreover have "consumes pd (nat_bl 7 (length sent - 1) @ fls @ bss) p4"
    using consumes_trans [OF p1(2) consumes_trans [OF p2(2) consumes_trans [OF p3(2) p4(2)]]] r(3) by simp
  ultimately show "\<exists>pd'. get_extension_additions known st pd = (RC_OK ?res 0, pd') \<and>
      consumes pd (nat_bl 7 (length sent - 1) @ fls @ bss) pd' \<and> src_bits pd' = rest" using p4(3) by blast
qed

section \<open>SEQUENCE\<close>

definition seq_wf :: "'v asn_TYPE_member list \<Rightarrow> asn_SEQUENCE_specifics \<Rightarrow> bool" where
  "seq_wf elements specs \<longleftrightarrow> root_end elements specs \<le> length elements \<and> length elements - root_end elements specs \<le> 64 \<and>
     take (roms_count specs) (oms specs) = filter (\<lambda>i. 0 < memb_optional (elements ! i)) [0..<root_end elements specs] \<and>
     roms_count specs = length (filter (\<lambda>i. 0 < memb_optional (elements ! i)) [0..<root_end elements specs])"

definition sequence_code :: "asn_SEQUENCE_specifics \<Rightarrow> bool list \<Rightarrow> bool list \<Rightarrow> bool list \<Rightarrow> bool list \<Rightarrow> bool list" where
  "sequence_code specs fls bss efls ebss =
     (if first_extension specs < 0 then [] else [True \<in> set efls]) @ fls @ bss @
     (if True \<in> set efls then nat_bl 7 (length efls - 1) @ efls @ ebss else [])"

lemma optional_members:
  assumes "length st = length elements" "n \<le> length elements"
  shows "map (\<lambda>i. (elements ! i, st ! i)) (filter (\<lambda>i. 0 < memb_optional (elements ! i)) [0..<n]) =
    filter (\<lambda>(elm, _). 0 < memb_optional elm) (take n (zip elements st))"
  using assms(2)
proof (induction n)
  case (Suc n)
  then show ?case using assms(1) by (simp add: take_Suc_conv_app_nth)
qed simp

lemma SEQUENCE_encode_writes:
  assumes wf: "seq_wf elements specs" and n: "n = root_end elements specs"
    and root: "root_codes (take n elements) [] slots fls bss rs"
    and ext: "ext_codes (drop n elements) eslots efls ebss ers"
  shows "writes (SEQUENCE_encode_uper elements specs (Some (slots @ eslots))) (sequence_code specs fls bss efls ebss)"
proof -
  let ?st = "slots @ eslots" and ?any = "True \<in> set efls" and ?k = "length (drop n elements)"
  have len: "length slots = n" "length efls = ?k" "length ?st = length elements" and n_le: "n \<le> length elements" "?k \<le> 64"
    using root_codes_length [OF root] ext_codes_length [OF ext] wf n by (auto simp: seq_wf_def)
  have zips: "take n (zip elements ?st) = zip (take n elements) slots" "drop n (zip elements ?st) = zip (drop n elements) eslots"
    using len by (simp_all add: take_zip drop_zip)
  have handled: "SEQUENCE_handle_extensions elements specs ?st a b = (if first_extension specs < 0 then (0, a, b) else handle_extensions_loop (zip (drop n elements) eslots) 0 0 a b)" for a b
  proof (cases "first_extension specs < 0")
    case False
    then have "nat (first_extension specs) = n" using n by (simp add: root_end_def)
    with False show ?thesis by (simp add: SEQUENCE_handle_extensions_def zips)
  qed (simp add: SEQUENCE_handle_extensions_def)
  have none: "efls = []" if "first_extension specs < 0" using that n len by (simp add: root_end_def)
  have count: "fst (SEQUENCE_handle_extensions elements specs ?st None None) = (if ?any then int ?k else 0)"
    using handled extensions_count [OF ext, of 0 0] none by (cases "first_extension specs < 0") (simp_all del: length_drop)
  have pres: "map (\<lambda>edx. (elements ! edx, ?st ! edx)) (take (roms_count specs) (oms specs)) = filter (\<lambda>(elm, _). 0 < memb_optional elm) (zip (take n elements) slots)"
  proof -
    have "take (roms_count specs) (oms specs) = filter (\<lambda>i. 0 < memb_optional (elements ! i)) [0..<n]" using wf n unfolding seq_wf_def by blast
    then show ?thesis using optional_members [OF len(3) n_le(1)] zips by simp
  qed
  define tail where "tail = (\<lambda>po3. if \<not> ?any then (0 :: int, po3) else
      (case uper_put_nslength po3 ?k of (r, po4) \<Rightarrow> if r \<noteq> 0 then (-1, po4) else
        (case SEQUENCE_handle_extensions elements specs ?st (Some po4) None of (n, po5, _) \<Rightarrow>
           if n \<noteq> int ?k then (-1, the po5)
           else (case SEQUENCE_handle_extensions elements specs ?st None (Some (the po5)) of (n, _, po6) \<Rightarrow>
                   (if n \<noteq> int ?k then -1 else 0, the po6)))))"
  have tail: "writes tail (if ?any then nat_bl 7 (length efls - 1) @ efls @ ebss else [])"
  proof (cases ?any)
    case False
    then show ?thesis using writes_nothing by (simp add: tail_def)
  next
    case True
    have k: "0 < ?k" using True len(2) by (metis length_pos_if_in_set)
    have ne: "\<not> first_extension specs < 0" using none True by auto
    have "writes tail (nat_bl 7 (length efls - 1) @ efls @ ebss)"
    proof (rule writesI)
      fix po assume "po_inv po"
      from writesE [OF nslength_writes [OF k n_le(2)] this] obtain p where p: "uper_put_nslength po ?k = (0, p)" "puts po (nat_bl 7 (length efls - 1)) p" "po_inv p"
        using len(2) by auto
      from extensions_flags [OF ext p(3), of 0 0] True obtain q where
        q: "handle_extensions_loop (zip (drop n elements) eslots) 0 0 (Some p) None = (int ?k, Some q, None)" "puts p efls q" by (auto simp del: length_drop)
      from extensions_values [OF ext puts_inv [OF q(2)], of 0 0] True obtain s where
        s: "handle_extensions_loop (zip (drop n elements) eslots) 0 0 None (Some q) = (int ?k, None, Some s)" "puts q ebss s" by (auto simp del: length_drop)
      have "tail po = (0, s)" using True p(1) q(1) s(1) handled ne by (simp add: tail_def del: length_drop)
      with puts_trans [OF p(2) puts_trans [OF q(2) s(2)]] show "\<exists>po'. tail po = (0, po') \<and> puts po (nat_bl 7 (length efls - 1) @ efls @ ebss) po'" by blast
    qed
    with True show ?thesis by simp
  qed
  define body where "body = (\<lambda>po1. case put_presence (filter (\<lambda>(elm, _). 0 < memb_optional elm) (zip (take n elements) slots)) po1 of (r, po2) \<Rightarrow>
      if r \<noteq> 0 then (-1, po2) else (case put_root_members (zip (take n elements) slots) po2 of (r, po3) \<Rightarrow> if r \<noteq> 0 then (-1, po3) else tail po3))"
  have body: "writes body (fls @ bss @ (if ?any then nat_bl 7 (length efls - 1) @ efls @ ebss else []))"
    unfolding body_def by (intro writes_step(1) presence_writes [OF root] root_members_writes [OF root] tail)
  have eq: "SEQUENCE_encode_uper elements specs (Some ?st) = (\<lambda>po. case (if first_extension specs < 0 then (0, po) else asn_put_few_bits po (if ?any then 1 else 0) 1) of (r, po1) \<Rightarrow>
      if r \<noteq> 0 then (-1, po1) else body po1)"
  proof (cases ?any)
    case True
    then have "0 < ?k" using len(2) by (metis length_pos_if_in_set)
    then have ne0: "int ?k \<noteq> 0" by linarith
    have cnt: "fst (SEQUENCE_handle_extensions elements specs ?st None None) = int ?k" using True count by simp
    show ?thesis
      unfolding SEQUENCE_encode_uper_def [abs_def] option.case Let_def cnt nat_int pres n [symmetric] zips body_def tail_def
      by (simp only: ne0 True simp_thms if_True if_False)
  next
    case False
    have cnt: "fst (SEQUENCE_handle_extensions elements specs ?st None None) = 0" using False count by simp
    show ?thesis
      unfolding SEQUENCE_encode_uper_def [abs_def] option.case Let_def cnt pres n [symmetric] zips body_def tail_def
      by (simp only: False simp_thms if_True if_False)
  qed
  show ?thesis
  proof (cases "first_extension specs < 0")
    case True
    then show ?thesis using body none by (simp add: eq sequence_code_def)
  next
    case False
    then show ?thesis using writes_step(1) [OF flag_writes [of ?any] body] by (simp add: eq sequence_code_def)
  qed
qed

lemma root_flags_length:
  "root_codes elms st slots fls bss rs \<Longrightarrow> length fls = length (filter (\<lambda>elm. 0 < memb_optional elm) elms)"
proof (induction rule: root_codes.induct)
  case (one_more elm st slot fl bs r elms slots fls bss rs)
  from one_more.hyps(1) show ?case by cases (use one_more.IH in simp_all)
qed simp

text \<open>
  The decoder may know another version of the type, with the same root and with fewer or
  more extension additions.
\<close>

lemma SEQUENCE_decode_reads:
  assumes wf: "seq_wf elements specs" and n: "n = root_end elements specs"
    and root: "root_codes (take n elements) [] slots fls bss rs"
    and ext: "ext_codes sent eslots efls ebss ers" "length sent \<le> 64" "first_extension specs < 0 \<longrightarrow> sent = []"
    and versions: "drop n elements = sent @ extra \<or> sent = drop n elements @ extra"
    and st: "st = rs @ take (length (drop n elements)) ers @ replicate (length (drop n elements) - length sent) None"
    and filled: "(if first_extension specs \<ge> 0 then fill_defaults elements (take (aoms_count specs) (drop (roms_count specs) (oms specs))) st else Some st) = Some st'"
  shows "reads (SEQUENCE_decode_uper elements specs) (sequence_code specs fls bss efls ebss) (RC_OK st' 0)"
proof -
  let ?any = "True \<in> set efls" and ?exts = "drop n elements"
  have len: "length efls = length sent" "length ers = length sent" using ext_codes_length [OF ext(1)] by simp_all
  have roms: "roms_count specs = length fls"
  proof -
    have "length (filter (\<lambda>i. 0 < memb_optional (elements ! i)) [0..<n]) = length (filter (\<lambda>elm. 0 < memb_optional elm) (map ((!) elements) [0..<n]))"
      by (simp add: filter_map comp_def)
    moreover have "map ((!) elements) [0..<n] = take n elements" using wf n by (simp add: seq_wf_def list_eq_iff_nth_eq)
    moreover have "roms_count specs = length (filter (\<lambda>i. 0 < memb_optional (elements ! i)) [0..<n])" using wf n unfolding seq_wf_def by blast
    ultimately show ?thesis using root_flags_length [OF root] by simp
  qed
  define tail where "tail = (if ?any then nat_bl 7 (length efls - 1) @ efls @ ebss else [])"
  define exts where "exts = (\<lambda>e st pd. if e \<noteq> (0 :: int) then get_extension_additions ?exts st pd else (RC_OK (st @ replicate (length ?exts) None) 0, pd))"
  have exts: "reads (exts (if ?any then 1 else 0) rs) tail (RC_OK st 0)"
  proof (cases ?any)
    case True
    then have "0 < length sent" using len(1) by (metis length_pos_if_in_set)
    from additions_reads [OF ext(1) this ext(2) versions, of rs] True st show ?thesis by (simp add: exts_def tail_def len)
  next
    case False
    have "ext_codes s es fs bs rs \<Longrightarrow> True \<notin> set fs \<Longrightarrow> rs = replicate (length s) None" for s es fs bs and rs :: "'a option list"
      by (induction rule: ext_codes.induct) simp_all
    from this [OF ext(1) False] have "take (length ?exts) ers @ replicate (length ?exts - length sent) None = replicate (length ?exts) None"
      by (simp add: min_def flip: replicate_add)
    then show ?thesis using False reads_return [of "RC_OK st 0"] st by (simp add: exts_def tail_def)
  qed
  define body where "body = (\<lambda>extpresent pd1. case (if roms_count specs \<noteq> 0 then asn_get_many_bits pd1 False (int (roms_count specs)) else (0, [], pd1)) of (r, opres, pd2) \<Rightarrow>
     if r \<noteq> 0 then (RC_WMORE, pd2) else
     (case get_root_members (take n elements) [] (new_pd opres 0 (roms_count specs)) pd2 of (rv, pd3) \<Rightarrow>
        (case rv of RC_OK st _ \<Rightarrow>
           (case exts extpresent st pd3 of (rv, pd4) \<Rightarrow>
              (case rv of RC_OK st' _ \<Rightarrow>
                 (if first_extension specs \<ge> 0 then
                    (case fill_defaults elements (take (aoms_count specs) (drop (roms_count specs) (oms specs))) st' of
                       None \<Rightarrow> RC_FAIL | Some st'' \<Rightarrow> RC_OK st'' 0)
                  else RC_OK st' 0, pd4)
               | RC_WMORE \<Rightarrow> (RC_WMORE, pd4) | RC_FAIL \<Rightarrow> (RC_FAIL, pd4)))
         | RC_WMORE \<Rightarrow> (RC_WMORE, pd3) | RC_FAIL \<Rightarrow> (RC_FAIL, pd3))))"
  have body: "reads (body (if ?any then 1 else 0)) (fls @ bss @ tail) (RC_OK st' 0)"
  proof (rule readsI)
    fix pd rest assume pd: "pd_inv pd" "src_bits pd = (fls @ bss @ tail) @ rest"
    obtain p2 where p2: "(if roms_count specs \<noteq> 0 then asn_get_many_bits pd False (int (roms_count specs)) else (0, [], pd)) = (0, octets_of (pad8 fls), p2)"
      "consumes pd fls p2" "src_bits p2 = bss @ tail @ rest"
    proof (cases "fls = []")
      case True
      then show thesis using that [of pd] pd roms consumes_refl [OF pd(1)] by (simp add: pad8_def octets_of.simps)
    next
      case False
      from asn_get_many_bits_ok [OF pd(1), of fls "bss @ tail @ rest"] pd(2) obtain q where
        "asn_get_many_bits pd False (int (length fls)) = (0, octets_of (pad8 fls), q)" "consumes pd fls q" "src_bits q = bss @ tail @ rest" by auto
      then show thesis using that [of q] roms False by simp
    qed
    have "reads (get_root_members (take n elements) [] (new_pd (octets_of (pad8 fls)) 0 (length fls))) bss (RC_OK ([] @ rs) 0)"
      by (rule root_members_reads [OF root padded_bits(1), where rest = "[]"]) (simp only: padded_bits(2) append_Nil2)
    from readsE [OF this consumesD(2) [OF p2(2)] p2(3)] obtain p3 where
      p3: "get_root_members (take n elements) [] (new_pd (octets_of (pad8 fls)) 0 (length fls)) p2 = (RC_OK rs 0, p3)"
      "consumes p2 bss p3" "src_bits p3 = tail @ rest" "pd_inv p3" by auto
    from readsE [OF exts p3(4,3)] obtain p4 where
      p4: "exts (if ?any then 1 else 0) rs p3 = (RC_OK st 0, p4)" "consumes p3 tail p4" "src_bits p4 = rest" .
    have "body (if ?any then 1 else 0) pd = (RC_OK st' 0, p4)"
      unfolding body_def p2(1) using p3(1) p4(1) filled roms by (auto split: if_splits)
    with consumes_trans [OF p2(2) consumes_trans [OF p3(2) p4(2)]] p4(3)
    show "\<exists>pd'. body (if ?any then 1 else 0) pd = (RC_OK st' 0, pd') \<and> consumes pd (fls @ bss @ tail) pd' \<and> src_bits pd' = rest" by blast
  qed
  have eq: "SEQUENCE_decode_uper elements specs = (\<lambda>pd. case (if first_extension specs < 0 then (0, pd) else asn_get_few_bits pd 1) of (extpresent, pd1) \<Rightarrow>
      if extpresent < 0 then (RC_WMORE, pd1) else body extpresent pd1)"
    unfolding SEQUENCE_decode_uper_def [abs_def] body_def exts_def Let_def n ..
  have code: "sequence_code specs fls bss efls ebss = (if first_extension specs < 0 then [] else [?any]) @ fls @ bss @ tail"
    by (simp add: sequence_code_def tail_def)
  show ?thesis
  proof (cases "first_extension specs < 0")
    case True
    then have "\<not> ?any" using ext(3) len(1) by auto
    with body True show ?thesis unfolding eq code by simp
  next
    case False
    let ?g = "\<lambda>extpresent pd1. if extpresent < (0 :: int) then (RC_WMORE, pd1) else body extpresent pd1"
    have "reads (?g (if ?any then 1 else 0)) (fls @ bss @ tail) (RC_OK st' 0)" using body by (cases ?any) simp_all
    then have "reads (\<lambda>pd. case asn_get_few_bits pd 1 of (r, pd') \<Rightarrow> ?g r pd') (?any # fls @ bss @ tail) (RC_OK st' 0)"
      by (rule reads_flag [where g = ?g])
    with False show ?thesis unfolding eq code by simp
  qed
qed

section \<open>CHOICE\<close>

definition canonical_index :: "asn_CHOICE_specifics \<Rightarrow> nat \<Rightarrow> nat" where
  "canonical_index specs i = (case to_canonical_order specs of None \<Rightarrow> i | Some order \<Rightarrow> order ! i)"

definition in_choice_root :: "asn_per_constraint option \<Rightarrow> nat \<Rightarrow> bool" where
  "in_choice_root ct i \<longleftrightarrow> ranged ct \<and> int i \<le> sint (upper_bound (the ct))"

definition choice_ok :: "asn_CHOICE_specifics \<Rightarrow> asn_per_constraint option \<Rightarrow> nat \<Rightarrow> bool" where
  "choice_ok specs ct i \<longleftrightarrow> in_choice_root ct i \<or>
     (ranged ct \<longrightarrow> apc_extensible (the ct)) \<and> 0 \<le> ext_start specs \<and> ext_start specs \<le> int i \<and> int i - ext_start specs \<le> 63"

definition choice_code :: "asn_CHOICE_specifics \<Rightarrow> asn_per_constraint option \<Rightarrow> nat \<Rightarrow> bool list \<Rightarrow> bool list" where
  "choice_code specs ct i bs =
     (if (case ct of None \<Rightarrow> False | Some c \<Rightarrow> apc_extensible c) then [ranged ct \<and> \<not> in_choice_root ct i] else []) @
     (if in_choice_root ct i then nat_bl (nat (range_bits (the ct))) i @ bs
      else nat_bl 7 (nat (int i - ext_start specs)) @ open_code bs)"

lemma canonical_order:
  assumes "choice_wf elements specs ct" "i < length elements"
  shows "canonical_index specs i < length elements \<and>
    (case from_canonical_order specs of None \<Rightarrow> canonical_index specs i | Some order \<Rightarrow> order ! canonical_index specs i) = i"
proof (cases "from_canonical_order specs")
  case None
  then show ?thesis using assms by (simp add: choice_wf_def canonical_index_def split: option.splits)
next
  case (Some order)
  with assms(1) obtain order' where "to_canonical_order specs = Some order'"
    "\<forall>i < length elements. order ! i < length elements \<and> order' ! i < length elements \<and> order ! (order' ! i) = i"
    by (auto simp: choice_wf_def list_all_iff split: option.splits)
  then show ?thesis using Some assms(2) by (simp add: canonical_index_def)
qed

lemma CHOICE_encode_writes:
  assumes wf: "choice_wf elements specs ct" and ct: "ct = value_constraint tc c" and i: "i < length elements"
    and ok: "choice_ok specs ct (canonical_index specs i)"
    and conv: "conveys (memb_type (elements ! i)) (memb_constraints (elements ! i)) v bs r used"
  shows "writes (CHOICE_encode_uper elements specs tc c (Some \<lparr>present_idx = i + 1, chosen = Some v\<rparr>)) (choice_code specs ct (canonical_index specs i) bs)"
proof -
  let ?k = "canonical_index specs i" and ?elm = "elements ! i"
  define ext where "ext \<longleftrightarrow> (case ct of None \<Rightarrow> False | Some c \<Rightarrow> apc_extensible c)"
  define out where "out \<longleftrightarrow> ranged ct \<and> \<not> in_choice_root ct ?k"
  have lb: "sint (lower_bound (the ct)) = 0" if "ranged ct" using wf that by (auto simp: choice_wf_def ranged_def split: option.splits)
  then have out: "(ranged ct \<and> (int ?k < sint (lower_bound (the ct)) \<or> int ?k > sint (upper_bound (the ct)))) = out"
    by (auto simp: out_def in_choice_root_def)
  have ext: "apc_extensible (the ct) = ext" if "ranged ct" using that by (auto simp: ext_def ranged_def split: option.splits)
  then have not_out: "\<not> (out \<and> \<not> apc_extensible (the ct))" using ok by (auto simp: out_def choice_ok_def)
  have rooted: "writes (put_chosen ?elm specs ct ?k (Some v)) (nat_bl (nat (range_bits (the ct))) ?k @ bs)" if root: "in_choice_root ct ?k"
  proof -
    have b: "0 \<le> range_bits (the ct)" "nat (range_bits (the ct)) \<le> 31" "ranged ct" using wf root
      by (auto simp: choice_wf_def in_choice_root_def ranged_def nat_le_iff split: option.splits)
    from few_int_writes [OF b(2), of "int ?k"] b(1)
    have idx: "writes (\<lambda>po. asn_put_few_bits po (word_of_nat ?k) (range_bits (the ct))) (nat_bl (nat (range_bits (the ct))) ?k)" by simp
    have "writes (the (op_uper_encoder (memb_type ?elm)) (memb_constraints ?elm) (Some v)) bs" using conv by (auto simp: conveys_def)
    from writes_step(1) [OF idx this] b(3) show ?thesis by (simp add: put_chosen_def [abs_def])
  qed
  have opened: "writes (put_chosen ?elm specs (if out then None else ct) ?k (Some v)) (nat_bl 7 (nat (int ?k - ext_start specs)) @ open_code bs)"
    if ext: "\<not> in_choice_root ct ?k"
  proof -
    have b: "int (nat (int ?k - ext_start specs)) = int ?k - ext_start specs" "nat (int ?k - ext_start specs) \<le> 63" "ext_start specs \<noteq> -1"
      "\<not> ranged (if out then None else ct)" using ok ext by (auto simp: choice_ok_def nat_le_iff out_def ranged_def)
    from nsnnwn_writes [OF b(2)] b(1)
    have idx: "writes (\<lambda>po. uper_put_nsnnwn po (int ?k - ext_start specs)) (nat_bl 7 (nat (int ?k - ext_start specs)))" by simp
    have "writes (\<lambda>po. case uper_open_type_put (memb_type ?elm) (memb_constraints ?elm) (Some v) po of (r, po3) \<Rightarrow> (if r \<noteq> 0 then -1 else 0, po3)) (open_code bs)"
      using conv by (auto simp: conveys_def intro!: writes_status open_put_writes)
    from writes_step(1) [OF idx this] b(3,4) show ?thesis by (simp add: put_chosen_def [abs_def])
  qed
  define body where "body = (if in_choice_root ct ?k then nat_bl (nat (range_bits (the ct))) ?k @ bs else nat_bl 7 (nat (int ?k - ext_start specs)) @ open_code bs)"
  have body: "writes (put_chosen ?elm specs (if out then None else ct) ?k (Some v)) body"
    using rooted opened by (auto simp: body_def out_def)
  have eq: "CHOICE_encode_uper elements specs tc c (Some \<lparr>present_idx = i + 1, chosen = Some v\<rparr>) =
    (\<lambda>po. case (if out then asn_put_few_bits po 1 1 else if ext then asn_put_few_bits po 0 1 else (0, po)) of (r, po1) \<Rightarrow>
       if r \<noteq> 0 then (-1, po1) else put_chosen ?elm specs (if out then None else ct) ?k (Some v) po1)"
  proof -
    have "\<not> (i + 1 = 0 \<or> i + 1 > length elements)" using i by simp
    with not_out show ?thesis
      unfolding CHOICE_encode_uper_def [abs_def] option.case choice.select_convs Let_def add_diff_cancel_right'
        ct [symmetric] canonical_index_def [symmetric] out ext_def [symmetric]
      by (simp only: if_False)
  qed
  have code: "choice_code specs ct ?k bs = (if ext then [out] else []) @ body"
    by (simp add: choice_code_def ext_def out_def body_def)
  show ?thesis
  proof (cases ext)
    case True
    from writes_step(1) [OF flag_writes [of out] body] True show ?thesis unfolding eq code by (cases out) simp_all
  next
    case False
    then have "\<not> out" using ext not_out by (auto simp: out_def)
    with False body show ?thesis unfolding eq code by simp
  qed
qed

lemma get_chosen_reads:
  assumes "choice_wf elements specs ct" "i < length elements" "conveys (memb_type (elements ! i)) (memb_constraints (elements ! i)) v bs r used"
  shows "reads (get_chosen elements specs rooted (canonical_index specs i)) (if rooted then bs else open_code bs)
    (RC_OK \<lparr>present_idx = i + 1, chosen = Some r\<rparr> used)"
proof -
  let ?elm = "elements ! i"
  from assms(3) obtain dec where dec: "op_uper_decoder (memb_type ?elm) = Some dec" "reads (dec (memb_constraints ?elm)) bs (RC_OK r used)"
    by (auto simp: conveys_def)
  have "reads (\<lambda>pd. if rooted then memb_decode ?elm pd else uper_open_type_get (memb_type ?elm) (memb_constraints ?elm) pd)
      (if rooted then bs else open_code bs) (RC_OK r used)"
    using dec open_get_reads [OF dec] by simp
  then show ?thesis
    by (rule reads_map [where h = "\<lambda>rv. case rv of RC_OK v consumed \<Rightarrow> RC_OK \<lparr>present_idx = i + 1, chosen = Some v\<rparr> consumed
         | RC_WMORE \<Rightarrow> RC_WMORE | RC_FAIL \<Rightarrow> RC_FAIL"])
      (use canonical_order [OF assms(1,2)] in \<open>simp_all add: fun_eq_iff get_chosen_def Let_def\<close>)
qed

lemma get_choice_index_reads:
  assumes wf: "choice_wf elements specs ct" and k: "k < length elements" "choice_ok specs ct k"
  shows "in_choice_root ct k \<Longrightarrow> reads (get_choice_index elements specs ct) (nat_bl (nat (range_bits (the ct))) k) (RC_OK k 0)"
    "\<not> in_choice_root ct k \<Longrightarrow> reads (get_choice_index elements specs (if ranged ct then None else ct)) (nat_bl 7 (nat (int k - ext_start specs))) (RC_OK k 0)"
proof -
  assume root: "in_choice_root ct k"
  then have b: "0 \<le> range_bits (the ct)" "nat (range_bits (the ct)) \<le> 31" "ranged ct" "int k \<le> sint (upper_bound (the ct))"
      "sint (upper_bound (the ct)) < 2 ^ nat (range_bits (the ct))"
    using wf by (auto simp: choice_wf_def in_choice_root_def ranged_def nat_le_iff split: option.splits)
  have "int k < 2 ^ nat (range_bits (the ct))" using b(4,5) by (rule le_less_trans)
  then have "int k < int (2 ^ nat (range_bits (the ct)))" by (simp only: of_nat_power of_nat_numeral)
  then have "k < 2 ^ nat (range_bits (the ct))" by (simp only: of_nat_less_iff)
  with few_bits_at [OF b(2), of k] b(1)
  have "reads (\<lambda>pd. asn_get_few_bits pd (range_bits (the ct))) (nat_bl (nat (range_bits (the ct))) k) (int k)" by simp
  then show "reads (get_choice_index elements specs ct) (nat_bl (nat (range_bits (the ct))) k) (RC_OK k 0)"
    by (rule reads_map [where h = "\<lambda>x. if x < 0 then RC_WMORE else if x > sint (upper_bound (the ct)) then RC_FAIL else RC_OK (nat x) 0"])
      (use b in \<open>simp_all add: get_choice_index_def [abs_def]\<close>)
next
  assume ext: "\<not> in_choice_root ct k"
  then have b: "0 \<le> ext_start specs" "ext_start specs \<le> int k" "int k - ext_start specs \<le> 63" using k(2) by (auto simp: choice_ok_def)
  have "nat (int k - ext_start specs) \<le> 63" using b by simp
  then have "reads uper_get_nsnnwn (nat_bl 7 (nat (int k - ext_start specs))) (int (nat (int k - ext_start specs)))"
    by (rule normally_small_number.dec_reads)
  then show "reads (get_choice_index elements specs (if ranged ct then None else ct)) (nat_bl 7 (nat (int k - ext_start specs))) (RC_OK k 0)"
    by (rule reads_map [where h = "\<lambda>x. if x < 0 then RC_WMORE else if x + ext_start specs \<ge> int (length elements) then RC_FAIL else RC_OK (nat (x + ext_start specs)) 0"])
      (use b k(1) in \<open>auto simp: get_choice_index_def [abs_def] ranged_def\<close>)
qed

lemma CHOICE_decode_reads:
  assumes wf: "choice_wf elements specs ct" and ct: "ct = value_constraint tc c" and i: "i < length elements"
    and ok: "choice_ok specs ct (canonical_index specs i)"
    and conv: "conveys (memb_type (elements ! i)) (memb_constraints (elements ! i)) v bs r used"
  shows "reads (CHOICE_decode_uper elements specs tc c) (choice_code specs ct (canonical_index specs i) bs)
    (RC_OK \<lparr>present_idx = i + 1, chosen = Some r\<rparr> used)"
proof -
  let ?k = "canonical_index specs i" and ?r = "RC_OK \<lparr>present_idx = i + 1, chosen = Some r\<rparr> used"
  define root where "root = in_choice_root ct ?k"
  define out where "out \<longleftrightarrow> ranged ct \<and> \<not> root"
  define ext where "ext \<longleftrightarrow> (case ct of None \<Rightarrow> False | Some c \<Rightarrow> apc_extensible c)"
  have k: "?k < length elements" using canonical_order [OF wf i] by simp
  have out: "out \<Longrightarrow> ext" using ok by (auto simp: out_def root_def ext_def choice_ok_def ranged_def split: option.splits)
  have ranged: "ranged (if out then None else ct) = root" by (auto simp: out_def root_def ranged_def in_choice_root_def)
  define rest where "rest = (\<lambda>ct' pd1. case get_choice_index elements specs ct' pd1 of (rv, pd2) \<Rightarrow>
     (case rv of RC_OK x _ \<Rightarrow> get_chosen elements specs (ranged ct') x pd2 | RC_WMORE \<Rightarrow> (RC_WMORE, pd2) | RC_FAIL \<Rightarrow> (RC_FAIL, pd2)))"
  define body where "body = (if root then nat_bl (nat (range_bits (the ct))) ?k @ bs else nat_bl 7 (nat (int ?k - ext_start specs)) @ open_code bs)"
  have idx: "reads (get_choice_index elements specs (if out then None else ct))
      (if root then nat_bl (nat (range_bits (the ct))) ?k else nat_bl 7 (nat (int ?k - ext_start specs))) (RC_OK ?k 0)"
    using get_choice_index_reads [OF wf k ok] by (auto simp: out_def root_def)
  have body: "reads (rest (if out then None else ct)) body ?r"
    unfolding rest_def ranged
    by (rule reads_then [where g = "\<lambda>rv pd2. case rv of RC_OK x _ \<Rightarrow> get_chosen elements specs root x pd2 | RC_WMORE \<Rightarrow> (RC_WMORE, pd2) | RC_FAIL \<Rightarrow> (RC_FAIL, pd2)",
          OF idx _ refl, where ys = "if root then bs else open_code bs"])
      (use get_chosen_reads [OF wf i conv] in \<open>simp_all add: body_def\<close>)
  have code: "choice_code specs ct ?k bs = (if ext then [out] else []) @ body"
    by (simp add: choice_code_def ext_def out_def body_def root_def)
  have eq: "CHOICE_decode_uper elements specs tc c = (\<lambda>pd. case (case ct of None \<Rightarrow> (0, pd) | Some c \<Rightarrow> if apc_extensible c then asn_get_few_bits pd 1 else (0, pd)) of (x, pd1) \<Rightarrow>
      if x < 0 then (RC_WMORE, pd1) else rest (if x \<noteq> 0 then None else ct) pd1)"
    unfolding CHOICE_decode_uper_def [abs_def] rest_def Let_def ct ..
  show ?thesis
  proof (cases ext)
    case True
    then obtain d where d: "ct = Some d" "apc_extensible d" by (auto simp: ext_def split: option.splits)
    let ?g = "\<lambda>x pd1. if x < (0 :: int) then (RC_WMORE, pd1) else rest (if x \<noteq> 0 then None else ct) pd1"
    have "reads (?g (if out then 1 else 0)) body ?r" using body by (cases out) simp_all
    then have "reads (\<lambda>pd. case asn_get_few_bits pd 1 of (x, pd') \<Rightarrow> ?g x pd') (out # body) ?r" by (rule reads_flag [where g = ?g])
    with True d show ?thesis unfolding eq code by simp
  next
    case False
    with out have "\<not> out" by blast
    moreover have "(case ct of None \<Rightarrow> (0, pd) | Some c \<Rightarrow> if apc_extensible c then asn_get_few_bits pd 1 else (0, pd)) = (0, pd)" for pd
      using False by (auto simp: ext_def split: option.splits)
    ultimately show ?thesis using False body unfolding eq code by simp
  qed
qed

section \<open>Open types\<close>

lemma OPEN_TYPE_encode_writes:
  assumes "i < length elements" "conveys (memb_type (elements ! i)) None v bs r used"
  shows "writes (OPEN_TYPE_encode_uper elements \<lparr>present_idx = i + 1, chosen = Some v\<rparr>) (open_code bs)"
proof -
  have "writes (uper_open_type_put (memb_type (elements ! i)) None (Some v)) (open_code bs)"
    using assms(2) by (auto simp: conveys_def intro: open_put_writes)
  then have "writes (\<lambda>po. case uper_open_type_put (memb_type (elements ! i)) None (Some v) po of (r, po') \<Rightarrow> (if r < 0 then -1 else 0, po')) (open_code bs)"
    by (auto simp: writes_def split_beta)
  with assms(1) show ?thesis by (simp add: OPEN_TYPE_encode_uper_def [abs_def] CHOICE_variant_get_presence_def Let_def)
qed

lemma OPEN_TYPE_get_reads:
  assumes "memb_open_type elm" "memb_type_selector elm = Some sel" "sel st = (i + 1, td)" "i < memb_variants elm" "conveys td None v bs r used"
  shows "reads (OPEN_TYPE_uper_get elm st) (open_code bs) (RC_OK \<lparr>present_idx = i + 1, chosen = Some r\<rparr> used)"
proof -
  have "reads (uper_open_type_get td None) (open_code bs) (RC_OK r used)"
    using assms(5) by (auto simp: conveys_def intro: open_get_reads)
  then show ?thesis
    by (rule reads_map [where h = "\<lambda>rv. case rv of RC_OK inner consumed \<Rightarrow> RC_OK \<lparr>present_idx = i + 1, chosen = Some inner\<rparr> consumed
         | RC_WMORE \<Rightarrow> RC_WMORE | RC_FAIL \<Rightarrow> RC_FAIL"])
      (use assms(1-4) in \<open>auto simp: fun_eq_iff OPEN_TYPE_uper_get_def CHOICE_variant_set_presence_def split: dec_rval.splits prod.splits\<close>)
qed

end
