(* ===== verification/Asn_Types.thy ===== *)
theory Asn_Types
  imports Bit_String Uper_Collections Uper_Constructed
begin

text \<open>
  The ASN.1 types as the runtime sees them: descriptors that name the operations of their
  kind (the tables \<open>asn_OP_\<close>) and the members they are made of, down to the primitive
  types. A message is encoded and decoded by the operations calling one another through
  these tables. Types that refer to themselves have no finite description here; what is
  proved of one level holds for them too.
\<close>

section \<open>Descriptors and values\<close>

datatype asn_value =
    V_boolean int
  | V_null
  | V_integer INTEGER_t
  | V_native "64 word"
  | V_octets OCTET_STRING_t
  | V_bits BIT_STRING_t
  | V_list "asn_value option list"
  | V_struct "asn_value option list"
  | V_choice nat "asn_value option"

datatype asn_type =
    T_BOOLEAN
  | T_NULL
  | T_INTEGER "asn_INTEGER_specifics option" "asn_per_constraints option"
  | T_NativeInteger "asn_INTEGER_specifics option" "asn_per_constraints option"
  | T_ENUMERATED "asn_INTEGER_specifics option" "asn_per_constraints option"
  | T_NativeEnumerated "asn_INTEGER_specifics option" "asn_per_constraints option"
  | T_OCTET_STRING "asn_OS_Subvariant option" "asn_per_constraints option"
  | T_BIT_STRING "asn_OS_Subvariant option" "asn_per_constraints option"
  | T_SEQUENCE_OF asn_member "asn_per_constraints option"
  | T_SET_OF asn_member "asn_per_constraints option"
  | T_SEQUENCE "asn_member list" asn_SEQUENCE_specifics
  | T_CHOICE "asn_member list" asn_CHOICE_specifics "asn_per_constraints option"
  | T_OPEN_TYPE "asn_member list"
and asn_member =
  Member (m_type: asn_type) (m_constraints: "asn_per_constraints option") (m_pointer: bool)
    (m_selector: "(asn_value option list \<Rightarrow> nat) option") (m_optional: nat)
    (m_default_cmp: "(asn_value \<Rightarrow> int) option") (m_default_set: "asn_value option option")

text \<open>
  The operations of one kind work on their own structure. A value of another kind is no
  structure of the type; the encoder treats it like a null pointer.
\<close>

definition op_dec :: "('a \<Rightarrow> asn_value) \<Rightarrow> (asn_bit_data \<Rightarrow> 'a dec_rval \<times> asn_bit_data) \<Rightarrow> asn_bit_data \<Rightarrow> asn_value dec_rval \<times> asn_bit_data" where
  "op_dec wrap dec pd =
     (case dec pd of (rv, pd') \<Rightarrow>
        (case rv of RC_OK v consumed \<Rightarrow> RC_OK (wrap v) consumed | RC_WMORE \<Rightarrow> RC_WMORE | RC_FAIL \<Rightarrow> RC_FAIL, pd'))"

definition op_enc :: "(asn_value \<Rightarrow> 'a option) \<Rightarrow> ('a option \<Rightarrow> asn_bit_outp \<Rightarrow> int \<times> asn_bit_outp) \<Rightarrow> asn_value option \<Rightarrow> asn_bit_outp \<Rightarrow> int \<times> asn_bit_outp" where
  "op_enc unwrap enc sptr = enc (Option.bind sptr unwrap)"

fun as_boolean :: "asn_value \<Rightarrow> int option" where
  "as_boolean (V_boolean b) = Some b" | "as_boolean _ = None"

fun as_integer :: "asn_value \<Rightarrow> INTEGER_t option" where
  "as_integer (V_integer st) = Some st" | "as_integer _ = None"

fun as_native :: "asn_value \<Rightarrow> 64 word option" where
  "as_native (V_native v) = Some v" | "as_native _ = None"

fun as_octets :: "asn_value \<Rightarrow> OCTET_STRING_t option" where
  "as_octets (V_octets st) = Some st" | "as_octets _ = None"

fun as_bits :: "asn_value \<Rightarrow> BIT_STRING_t option" where
  "as_bits (V_bits st) = Some st" | "as_bits _ = None"

fun as_list :: "asn_value \<Rightarrow> asn_value option list option" where
  "as_list (V_list xs) = Some xs" | "as_list _ = None"

fun as_struct :: "asn_value \<Rightarrow> asn_value option list option" where
  "as_struct (V_struct xs) = Some xs" | "as_struct _ = None"

fun as_choice :: "asn_value \<Rightarrow> asn_value choice option" where
  "as_choice (V_choice i x) = Some \<lparr>present_idx = i, chosen = x\<rparr>" | "as_choice _ = None"

definition ops ::
  "(asn_per_constraints option \<Rightarrow> asn_bit_data \<Rightarrow> asn_value dec_rval \<times> asn_bit_data) \<Rightarrow>
   (asn_per_constraints option \<Rightarrow> asn_value option \<Rightarrow> asn_bit_outp \<Rightarrow> int \<times> asn_bit_outp) \<Rightarrow> asn_value asn_TYPE_descriptor" where
  "ops dec enc = \<lparr>op_uper_decoder = Some dec, op_uper_encoder = Some enc\<rparr>"

text \<open>
  The operations and the elements of a type. An open type has no decoder of its own, its
  SEQUENCE selects the variant. The encoder of a SET OF is unspecified where the code
  dereferences a null pointer.
\<close>

primrec asn_DEF :: "asn_type \<Rightarrow> asn_value asn_TYPE_descriptor \<times> asn_value asn_TYPE_member list"
  and asn_MBR :: "asn_member \<Rightarrow> asn_value asn_TYPE_member" where
  "asn_DEF T_BOOLEAN = (ops (\<lambda>_. op_dec V_boolean BOOLEAN_decode_uper) (\<lambda>_. op_enc as_boolean BOOLEAN_encode_uper), [])"
| "asn_DEF T_NULL = (ops (\<lambda>_. op_dec (\<lambda>_. V_null) NULL_decode_uper) (\<lambda>_ _. NULL_encode_uper), [])"
| "asn_DEF (T_INTEGER specs tc) =
     (ops (\<lambda>c. op_dec V_integer (INTEGER_decode_uper specs tc c)) (\<lambda>c. op_enc as_integer (INTEGER_encode_uper specs tc c)), [])"
| "asn_DEF (T_NativeInteger specs tc) =
     (ops (\<lambda>c. op_dec V_native (NativeInteger_decode_uper specs tc c)) (\<lambda>c. op_enc as_native (NativeInteger_encode_uper specs tc c)), [])"
| "asn_DEF (T_ENUMERATED specs tc) =
     (ops (\<lambda>c. op_dec V_integer (ENUMERATED_decode_uper specs tc c))
       (\<lambda>c. op_enc as_integer (\<lambda>sptr. ENUMERATED_encode_uper specs tc c (Option.bind sptr (\<lambda>st. st)))), [])"
| "asn_DEF (T_NativeEnumerated specs tc) =
     (ops (\<lambda>c. op_dec V_native (NativeEnumerated_decode_uper specs tc c)) (\<lambda>c. op_enc as_native (NativeEnumerated_encode_uper specs tc c)), [])"
| "asn_DEF (T_OCTET_STRING specs tc) =
     (ops (\<lambda>c. op_dec V_octets (OCTET_STRING_decode_uper specs tc c)) (\<lambda>c. op_enc as_octets (OCTET_STRING_encode_uper specs tc c)), [])"
| "asn_DEF (T_BIT_STRING specs tc) =
     (ops (\<lambda>c. op_dec V_bits (BIT_STRING_decode_uper specs tc c)) (\<lambda>c. op_enc as_bits (BIT_STRING_encode_uper specs tc c)), [])"
| "asn_DEF (T_SEQUENCE_OF m tc) =
     (ops (\<lambda>c. op_dec (\<lambda>vs. V_list (map Some vs)) (SET_OF_decode_uper (asn_MBR m) tc c))
       (\<lambda>c. op_enc as_list (SEQUENCE_OF_encode_uper (asn_MBR m) tc c)), [asn_MBR m])"
| "asn_DEF (T_SET_OF m tc) =
     (ops (\<lambda>c. op_dec (\<lambda>vs. V_list (map Some vs)) (SET_OF_decode_uper (asn_MBR m) tc c))
       (\<lambda>c. op_enc as_list (\<lambda>sptr po. the (SET_OF_encode_uper (asn_MBR m) tc c sptr po))), [asn_MBR m])"
| "asn_DEF (T_SEQUENCE ms specs) =
     (ops (\<lambda>_. op_dec V_struct (SEQUENCE_decode_uper (map asn_MBR ms) specs))
       (\<lambda>_. op_enc as_struct (SEQUENCE_encode_uper (map asn_MBR ms) specs)), map asn_MBR ms)"
| "asn_DEF (T_CHOICE ms specs tc) =
     (ops (\<lambda>c. op_dec (\<lambda>st. V_choice (present_idx st) (chosen st)) (CHOICE_decode_uper (map asn_MBR ms) specs tc c))
       (\<lambda>c. op_enc as_choice (CHOICE_encode_uper (map asn_MBR ms) specs tc c)), map asn_MBR ms)"
| "asn_DEF (T_OPEN_TYPE ms) =
     (\<lparr>op_uper_decoder = None,
        op_uper_encoder = Some (\<lambda>_ sptr. OPEN_TYPE_encode_uper (map asn_MBR ms) (the (Option.bind sptr as_choice)))\<rparr>, map asn_MBR ms)"
| "asn_MBR (Member ty c pointer selector optional default_cmp default_set) =
     (case asn_DEF ty of (td, elements) \<Rightarrow>
        \<lparr>memb_type = td, memb_constraints = c, memb_pointer = pointer, memb_open_type = (selector \<noteq> None),
         memb_type_selector = map_option (\<lambda>f st. (f st, memb_type (elements ! (f st - 1)))) selector,
         memb_variants = length elements, memb_variant = (\<lambda>i v. V_choice i (Some v)),
         memb_optional = optional, memb_default_cmp = default_cmp, memb_default_set = default_set\<rparr>)"

abbreviation td_of :: "asn_type \<Rightarrow> asn_value asn_TYPE_descriptor" where
  "td_of ty \<equiv> fst (asn_DEF ty)"

section \<open>Decoding any input\<close>

text \<open>
  A well-formed descriptor: the tables of its CHOICEs are in range and an open type occurs
  only as a member with a selector.
\<close>

primrec type_wf :: "asn_type \<Rightarrow> asn_per_constraints option \<Rightarrow> bool" and memb_wf :: "asn_member \<Rightarrow> bool" where
  "type_wf T_BOOLEAN c = True"
| "type_wf T_NULL c = True"
| "type_wf (T_INTEGER specs tc) c = True"
| "type_wf (T_NativeInteger specs tc) c = True"
| "type_wf (T_ENUMERATED specs tc) c = True"
| "type_wf (T_NativeEnumerated specs tc) c = True"
| "type_wf (T_OCTET_STRING specs tc) c = True"
| "type_wf (T_BIT_STRING specs tc) c = True"
| "type_wf (T_SEQUENCE_OF m tc) c = memb_wf m"
| "type_wf (T_SET_OF m tc) c = memb_wf m"
| "type_wf (T_SEQUENCE ms specs) c = list_all (\<lambda>(m, wf). m_selector m \<noteq> None \<or> wf) (zip ms (map memb_wf ms))"
| "type_wf (T_CHOICE ms specs tc) c = (choice_wf (map asn_MBR ms) specs (value_constraint tc c) \<and> list_all (\<lambda>wf. wf) (map memb_wf ms))"
| "type_wf (T_OPEN_TYPE ms) c = False"
| "memb_wf (Member ty c pointer selector optional default_cmp default_set) = type_wf ty c"

lemma safe_op_dec [safe]: "safe_get dec \<Longrightarrow> safe_get (op_dec wrap dec)"
  unfolding op_dec_def [abs_def] by (intro safe)

lemma asn_MBR_sel [simp]:
  "memb_type (asn_MBR m) = td_of (m_type m)" "memb_constraints (asn_MBR m) = m_constraints m"
  "memb_pointer (asn_MBR m) = m_pointer m" "memb_open_type (asn_MBR m) = (m_selector m \<noteq> None)"
  "memb_optional (asn_MBR m) = m_optional m" "memb_default_cmp (asn_MBR m) = m_default_cmp m"
  "memb_default_set (asn_MBR m) = m_default_set m"
  by (cases m; simp add: split_beta)+

lemma asn_MBR_open [simp]:
  "memb_type_selector (asn_MBR m) = map_option (\<lambda>f st. (f st, memb_type (snd (asn_DEF (m_type m)) ! (f st - 1)))) (m_selector m)"
  "memb_variants (asn_MBR m) = length (snd (asn_DEF (m_type m)))" "memb_variant (asn_MBR m) i v = V_choice i (Some v)"
  by (cases m; simp add: split_beta)+

lemma ops_sel [simp]: "op_uper_decoder (ops dec enc) = Some dec" "op_uper_encoder (ops dec enc) = Some enc"
  by (simp_all add: ops_def)

lemma list_all_zip_map: "list_all P (zip xs (map f xs)) \<longleftrightarrow> (\<forall>x\<in>set xs. P (x, f x))"
  by (induction xs) simp_all

lemma type_decoder_safe:
  "type_wf ty c \<Longrightarrow> op_uper_decoder (td_of ty) \<noteq> None \<and> safe_get (the (op_uper_decoder (td_of ty)) c)"
  "memb_wf m \<Longrightarrow> safe_get (memb_decode (asn_MBR m))"
proof (induction ty and m arbitrary: c and)
  case (T_SEQUENCE_OF m tc)
  then have "element_reader (asn_MBR m)" by unfold_locales simp
  then show ?case using element_reader.SET_OF_decode_safe [of "asn_MBR m" tc c] by (auto intro: safe)
next
  case (T_SET_OF m tc)
  then have "element_reader (asn_MBR m)" by unfold_locales simp
  then show ?case using element_reader.SET_OF_decode_safe [of "asn_MBR m" tc c] by (auto intro: safe)
next
  case (T_SEQUENCE ms specs)
  have "memb_open_type (asn_MBR m) \<or> safe_get (memb_decode (asn_MBR m))" if "m \<in> set ms" for m
    using T_SEQUENCE that by (auto simp: list_all_zip_map)
  then have "safe_get (SEQUENCE_decode_uper (map asn_MBR ms) specs)" by (intro safe_SEQUENCE) simp
  then show ?case by (auto intro: safe)
next
  case (T_CHOICE ms specs tc)
  then have "\<forall>elm\<in>set (map asn_MBR ms). safe_get (memb_decode elm)" by (auto simp: list_all_iff)
  then have "safe_get (CHOICE_decode_uper (map asn_MBR ms) specs tc c)" using T_CHOICE.prems by (intro safe_CHOICE) simp_all
  then show ?case by (auto intro: safe)
qed (auto intro: safe simp: split_beta)

text \<open>
  C2: decoding is memory safe on every input. For every well-formed type and every octet
  string, \<open>uper_decode\<close> ends; where it succeeds, the number of bits it reports is
  the number of bits read, never more than the buffer has after the skipped ones, and
  equal to the \<open>moved\<close> counter the code asserts.
\<close>

theorem uper_decode_safe:
  assumes "type_wf ty None" "uper_decode (td_of ty) buffer skip unused = RC_OK v consumed"
  shows "let pd' = snd (the (op_uper_decoder (td_of ty)) None (new_pd buffer (nat skip) (8 * length buffer - nat unused)))
    in consumed = pd_moved pd' \<and> int consumed + skip + unused \<le> 8 * int (length buffer) \<and> pd_octets pd' = buffer"
proof -
  let ?pd = "new_pd buffer (nat skip) (8 * length buffer - nat unused)"
  obtain dec where dec: "op_uper_decoder (td_of ty) = Some dec" "safe_get (dec None)"
    using type_decoder_safe(1) [OF assms(1)] by auto
  define pd' where "pd' = snd (dec None ?pd)"
  have args: "0 \<le> skip" "skip \<le> 7" "0 \<le> unused" "unused \<le> 7" "unused = 0 \<or> buffer \<noteq> []" "pd_nboff ?pd \<le> pd_nbits ?pd"
    using assms(2) by (auto simp: uper_decode_def Let_def split: if_splits)
  have consumed: "consumed = 8 * pd_buffer pd' + pd_nboff pd' - nat skip"
    using assms(2) args dec(1) by (auto simp: uper_decode_def pd'_def Let_def split: if_splits prod.splits dec_rval.splits)
  have le: "nat skip \<le> 8 * length buffer - nat unused" using args(6) by (simp add: new_pd_def)
  have inv: "pd_inv ?pd" using le by (intro new_pd_inv) simp_all
  from safe_getE [OF dec(2) inv] obtain bs where bs: "consumes ?pd bs pd'" unfolding pd'_def by blast
  have "length bs \<le> length (src_bits ?pd)" using bs by (simp add: consumes_def)
  then have "length bs \<le> 8 * length buffer - nat unused - nat skip" using length_src_bits [OF inv] by (simp add: new_pd_def)
  moreover have "pd_pos pd' = nat skip + length bs" "pd_moved pd' = length bs" "pd_octets pd' = buffer"
    using bs by (simp_all add: consumes_def pd_pos_def new_pd_def)
  moreover have "nat unused \<le> 8 * length buffer" using args(4,5) by (cases buffer) auto
  then have "length bs + nat skip + nat unused \<le> 8 * length buffer" using calculation(1) le by linarith
  then have "int consumed + skip + unused \<le> 8 * int (length buffer)"
    using consumed calculation(2) args(1,3) by (simp add: pd_pos_def)
  ultimately show ?thesis using consumed dec(1) by (simp add: Let_def pd_pos_def flip: pd'_def)
qed

definition example_speed :: asn_type where
  "example_speed = T_SEQUENCE
     [Member (T_NativeInteger None None) (Some (example_cts example_ct)) False None 0 None None,
      Member T_BOOLEAN None True None 1 None None]
     \<lparr>oms = [1], roms_count = 1, aoms_count = 0, first_extension = -1\<rparr>"

theorem uper_decode_safe_witness:
  "let pd' = snd (the (op_uper_decoder (td_of example_speed)) None (new_pd [0x95, 0xC0] 0 16))
   in 11 = pd_moved pd' \<and> int 11 + 0 + 0 \<le> 8 * int (length [0x95, 0xC0 :: byte]) \<and> pd_octets pd' = [0x95, 0xC0]"
proof -
  have "uper_decode (td_of example_speed) [0x95, 0xC0] 0 0 = RC_OK (V_struct [Some (V_native 77), Some (V_boolean 0)]) 11" by code_simp
  moreover have "type_wf example_speed None" by (simp add: example_speed_def)
  ultimately show ?thesis using uper_decode_safe [of example_speed "[0x95, 0xC0]" 0 0] by simp
qed

section \<open>The loops end\<close>

text \<open>
  The loop of the decoders as the code has it, with nothing but its own conditions:
  \<open>fragment_rounds chunk ebits lb acc pd n res\<close> says that it leaves the stream and
  the accumulated value in \<open>res\<close> after \<open>n\<close> rounds.
\<close>

inductive fragment_rounds ::
  "(nat \<Rightarrow> 'a \<Rightarrow> asn_bit_data \<Rightarrow> 'a dec_rval \<times> asn_bit_data) \<Rightarrow> int \<Rightarrow> nat \<Rightarrow> 'a \<Rightarrow> asn_bit_data \<Rightarrow> nat \<Rightarrow> 'a dec_rval \<times> asn_bit_data \<Rightarrow> bool"
  for chunk ebits lb where
  starved: "uper_get_length pd ebits lb = ((raw_len, repeat), pd1) \<Longrightarrow> raw_len < 0 \<Longrightarrow>
     fragment_rounds chunk ebits lb acc pd 1 (RC_WMORE, pd1)"
| chunk_wmore: "uper_get_length pd ebits lb = ((raw_len, repeat), pd1) \<Longrightarrow> \<not> raw_len < 0 \<Longrightarrow>
     chunk (nat raw_len) acc pd1 = (RC_WMORE, pd2) \<Longrightarrow> fragment_rounds chunk ebits lb acc pd 1 (RC_WMORE, pd2)"
| chunk_fail: "uper_get_length pd ebits lb = ((raw_len, repeat), pd1) \<Longrightarrow> \<not> raw_len < 0 \<Longrightarrow>
     chunk (nat raw_len) acc pd1 = (RC_FAIL, pd2) \<Longrightarrow> fragment_rounds chunk ebits lb acc pd 1 (RC_FAIL, pd2)"
| last: "uper_get_length pd ebits lb = ((raw_len, False), pd1) \<Longrightarrow> \<not> raw_len < 0 \<Longrightarrow>
     chunk (nat raw_len) acc pd1 = (RC_OK acc' c, pd2) \<Longrightarrow> fragment_rounds chunk ebits lb acc pd 1 (RC_OK acc' 0, pd2)"
| again: "uper_get_length pd ebits lb = ((raw_len, True), pd1) \<Longrightarrow> \<not> raw_len < 0 \<Longrightarrow>
     chunk (nat raw_len) acc pd1 = (RC_OK acc' c, pd2) \<Longrightarrow> fragment_rounds chunk ebits lb acc' pd2 n res \<Longrightarrow>
     fragment_rounds chunk ebits lb acc pd (Suc n) res"

lemma length_repeat_left:
  assumes "uper_get_length pd ebits lb = ((raw_len, True), pd1)"
  shows "pd_left pd1 + 8 \<le> pd_left pd"
proof -
  have "pd_left (snd (asn_get_few_bits pd 8)) + 8 \<le> pd_left pd" if "\<not> fst (asn_get_few_bits pd 8) < 0"
  proof -
    have "8 \<le> int (pd_nbits pd) - int (pd_nboff pd)"
      using that by (subst (asm) asn_get_few_bits.simps) (auto simp: Let_def split: if_splits)
    then show ?thesis using advance_left [of pd 8] unfolding few_bits_stream by (auto simp: pd_left_def)
  qed
  then show ?thesis using assms
    by (auto simp: uper_get_length_def case_prod_unfold Let_def split: if_splits)
qed

lemma get_fragments_rounds:
  assumes "pd_inv pd" "\<And>k a. safe_get (chunk k a)"
  shows "\<exists>n \<le> pd_left pd div 8 + 1. fragment_rounds chunk ebits lb acc pd n (get_fragments chunk ebits lb acc pd)"
  using assms(1)
proof (induction "pd_left pd" arbitrary: pd acc rule: less_induct)
  case less
  obtain raw_len repeat pd1 where l: "uper_get_length pd ebits lb = ((raw_len, repeat), pd1)" by (metis surj_pair)
  obtain rv pd2 where c: "chunk (nat raw_len) acc pd1 = (rv, pd2)" by fastforce
  have "moves pd pd1" using safe_get_length [of ebits lb] less.prems l by (metis safe_get_moves snd_conv)
  then have m: "moves pd1 pd2" using assms(2) moves_inv c by (metis safe_get_moves snd_conv)
  note eq = get_fragments_unfold [OF less.prems assms(2), where ebits = ebits and lb = lb and acc = acc]
  show ?case
  proof (cases "\<not> raw_len < 0 \<and> repeat \<and> (\<exists>acc' c. rv = RC_OK acc' c)")
    case True
    then obtain acc' k where rv: "rv = RC_OK acc' k" and r: "repeat" "\<not> raw_len < 0" by blast
    have left: "pd_left pd2 + 8 \<le> pd_left pd" using length_repeat_left moves_left [OF m] l r by fastforce
    then obtain n where n: "n \<le> pd_left pd2 div 8 + 1"
      "fragment_rounds chunk ebits lb acc' pd2 n (get_fragments chunk ebits lb acc' pd2)"
      using less.hyps [of pd2 acc'] moves_inv [OF m] by auto
    have "fragment_rounds chunk ebits lb acc pd (Suc n) (get_fragments chunk ebits lb acc pd)"
      using again [OF l [unfolded eqTrueI [OF r(1)]] r(2) c [unfolded rv] n(2)] eq l c rv r by simp
    moreover have "Suc n \<le> pd_left pd div 8 + 1" using n(1) left by linarith
    ultimately show ?thesis by blast
  next
    case False
    then have "fragment_rounds chunk ebits lb acc pd 1 (get_fragments chunk ebits lb acc pd)"
      unfolding eq using l c by (cases rv) (auto intro: fragment_rounds.intros simp del: One_nat_def)
    then show ?thesis by (intro exI [of _ 1]) simp
  qed
qed

lemma fragment_rounds_unique:
  "fragment_rounds chunk ebits lb acc pd n res \<Longrightarrow> fragment_rounds chunk ebits lb acc pd n' res' \<Longrightarrow> n = n' \<and> res = res'"
proof (induction arbitrary: n' res' rule: fragment_rounds.induct)
  case (starved pd raw_len repeat pd1 acc)
  from starved.prems show ?case using starved.hyps by cases auto
next
  case (chunk_wmore pd raw_len repeat pd1 acc pd2)
  from chunk_wmore.prems show ?case using chunk_wmore.hyps by cases auto
next
  case (chunk_fail pd raw_len repeat pd1 acc pd2)
  from chunk_fail.prems show ?case using chunk_fail.hyps by cases auto
next
  case (last pd raw_len pd1 acc acc' c pd2)
  from last.prems show ?case using last.hyps by cases auto
next
  case (again pd raw_len pd1 acc acc' c pd2 n res)
  from again.prems show ?case
  proof cases
    case (again raw_len' pd1' acc'' c' pd2' k)
    then show ?thesis using again.hyps(1,3) again.IH by auto
  qed (use again.hyps(1-3) in auto)
qed

lemma fragment_loop_total:
  assumes "pd_inv pd" "\<And>k a. safe_get (chunk k a)"
  shows "\<exists>n \<le> pd_left pd div 8 + 1. \<forall>n' res. fragment_rounds chunk ebits lb acc pd n' res \<longleftrightarrow>
    n' = n \<and> res = get_fragments chunk ebits lb acc pd"
proof -
  obtain n where n: "n \<le> pd_left pd div 8 + 1" "fragment_rounds chunk ebits lb acc pd n (get_fragments chunk ebits lb acc pd)"
    using get_fragments_rounds [where chunk = chunk, OF assms] by blast
  then show ?thesis using fragment_rounds_unique [OF n(2)] by (intro exI [of _ n]) blast
qed

text \<open>
  C5: the decoding loops end on every input. The fragment loop of OCTET STRING, of BIT
  STRING and of a list of any well-formed element type, run exactly as the code has it,
  leaves after at most one round per octet of the input and one more, and the result is
  the one the decoders of the model return.
\<close>

theorem fragment_loops_terminate:
  assumes "pd_inv pd" "memb_wf m"
  shows "(\<exists>n \<le> pd_left pd div 8 + 1. \<forall>n' res. fragment_rounds (octet_chunk bpc ubits cval pc) ebits lb acc pd n' res \<longleftrightarrow>
            n' = n \<and> res = get_fragments (octet_chunk bpc ubits cval pc) ebits lb acc pd) \<and>
         (\<exists>n \<le> pd_left pd div 8 + 1. \<forall>n' res. fragment_rounds bit_chunk ebits lb st pd n' res \<longleftrightarrow>
            n' = n \<and> res = get_fragments bit_chunk ebits lb st pd) \<and>
         (\<exists>n \<le> pd_left pd div 8 + 1. \<forall>n' res. fragment_rounds (\<lambda>k. get_elements (asn_MBR m) k k) ebits lb lst pd n' res \<longleftrightarrow>
            n' = n \<and> res = get_fragments (\<lambda>k. get_elements (asn_MBR m) k k) ebits lb lst pd)"
proof -
  note total = fragment_loop_total [OF assms(1)]
  have "element_reader (asn_MBR m)" using type_decoder_safe(2) [OF assms(2)] by unfold_locales
  then show ?thesis by (intro conjI total safe_octet_chunk safe_bit_chunk element_reader.get_elements_safe)
qed

theorem fragment_loops_terminate_witness:
  "\<exists>n \<le> 4. \<forall>n' res. fragment_rounds (octet_chunk 1 8 (pc_value asn_DEF_OCTET_STRING_constraints) None) (-1) 0 (Some []) (new_pd [2, 0xAA, 0xBB] 0 24) n' res \<longleftrightarrow>
     n' = n \<and> res = get_fragments (octet_chunk 1 8 (pc_value asn_DEF_OCTET_STRING_constraints) None) (-1) 0 (Some []) (new_pd [2, 0xAA, 0xBB] 0 24)"
proof -
  have inv: "pd_inv (new_pd [2, 0xAA, 0xBB] 0 24)" by (rule new_pd_inv) simp_all
  have wf: "memb_wf (Member T_NULL None False None 0 None None)" by simp
  have left: "pd_left (new_pd [2, 0xAA, 0xBB] 0 24) div 8 + 1 = 4" by (simp add: pd_left_def new_pd_def)
  show ?thesis using conjunct1 [OF fragment_loops_terminate [OF inv wf]] unfolding left .
qed

end
