(* ===== verification/Asn_Messages.thy ===== *)
theory Asn_Messages
  imports Asn_Types
begin

text \<open>
  Whole messages: the values that meet the constraints of their type, what the receiver
  gets of them, and that every valid message survives encoding and decoding, also between
  versions of a type with different extension additions.
\<close>

section \<open>Valid values\<close>

function chunks :: "nat \<Rightarrow> 'a list \<Rightarrow> 'a list list" where
  "chunks n xs = (if n = 0 \<or> xs = [] then [] else take n xs # chunks n (drop n xs))"
  by pat_completeness auto
termination
  by (relation "measure (\<lambda>(n, xs). length xs)") auto

declare chunks.simps [simp del]

lemma concat_chunks: "0 < n \<Longrightarrow> concat (chunks n xs) = xs"
proof (induction n xs rule: chunks.induct)
  case (1 n xs)
  then show ?case by (subst chunks.simps) simp
qed

definition valid_list :: "asn_per_constraint option \<Rightarrow> (asn_value \<Rightarrow> bool) \<Rightarrow> asn_value option list \<Rightarrow> bool" where
  "valid_list ct ok xs \<longleftrightarrow> list_all (\<lambda>x. case x of None \<Rightarrow> False | Some v \<Rightarrow> ok v) xs \<and> length xs \<le> 200 \<and> list_ok ct (length xs)"

definition valid_root :: "asn_member \<Rightarrow> (asn_value \<Rightarrow> bool) \<Rightarrow> asn_value option \<Rightarrow> bool" where
  "valid_root m ok slot \<longleftrightarrow> m_selector m = None \<and>
     (case slot of
        None \<Rightarrow> m_optional m \<noteq> 0 \<and> m_pointer m \<and> m_default_set m \<noteq> Some None
      | Some v \<Rightarrow>
          if m_optional m = 0 then m_default_cmp m = None \<and> ok v
          else if (case m_default_cmp m of None \<Rightarrow> False | Some f \<Rightarrow> f v = 0) then (case m_default_set m of Some (Some d) \<Rightarrow> True | _ \<Rightarrow> False)
          else ok v)"

definition valid_addition :: "asn_member \<Rightarrow> (asn_value \<Rightarrow> bool) \<Rightarrow> asn_value option \<Rightarrow> bool" where
  "valid_addition m ok slot \<longleftrightarrow> (case slot of None \<Rightarrow> m_pointer m | Some v \<Rightarrow> ok v)"

definition valid_struct :: "asn_member list \<Rightarrow> asn_SEQUENCE_specifics \<Rightarrow> (asn_value \<Rightarrow> bool) list \<Rightarrow> asn_value option list \<Rightarrow> bool" where
  "valid_struct ms specs oks slots \<longleftrightarrow>
     (let n = root_end (map asn_MBR ms) specs
      in seq_wf (map asn_MBR ms) specs \<and> length slots = length ms \<and>
         list_all (\<lambda>i. i < length ms \<and> m_default_set (ms ! i) \<noteq> Some None) (take (aoms_count specs) (drop (roms_count specs) (oms specs))) \<and>
         list_all (\<lambda>((m, ok), slot). valid_root m ok slot) (take n (zip (zip ms oks) slots)) \<and>
         list_all (\<lambda>((m, ok), slot). valid_addition m ok slot) (drop n (zip (zip ms oks) slots)))"

definition valid_choice ::
  "asn_member list \<Rightarrow> asn_CHOICE_specifics \<Rightarrow> asn_per_constraint option \<Rightarrow> (asn_value \<Rightarrow> bool) list \<Rightarrow> nat \<Rightarrow> asn_value option \<Rightarrow> bool" where
  "valid_choice ms specs ct oks i x \<longleftrightarrow> choice_wf (map asn_MBR ms) specs ct \<and> 0 < i \<and> i \<le> length ms \<and>
     choice_ok specs ct (canonical_index specs (i - 1)) \<and> (case x of None \<Rightarrow> False | Some v \<Rightarrow> (oks ! (i - 1)) v)"

definition valid_enum :: "asn_INTEGER_specifics option \<Rightarrow> asn_per_constraint option \<Rightarrow> (64 word \<Rightarrow> bool) \<Rightarrow> bool" where
  "valid_enum specs ct is_value \<longleftrightarrow>
     (case (specs, ct) of
        (Some sp, Some ct) \<Rightarrow> list_ex (\<lambda>i. enum_ok sp ct i \<and> is_value (nat_value (value2enum sp ! i))) [0..<length (value2enum sp)]
      | _ \<Rightarrow> False)"

primrec valid :: "asn_type \<Rightarrow> asn_per_constraints option \<Rightarrow> asn_value \<Rightarrow> bool" and valid_memb :: "asn_member \<Rightarrow> asn_value \<Rightarrow> bool" where
  "valid T_BOOLEAN c v = (case v of V_boolean b \<Rightarrow> True | _ \<Rightarrow> False)"
| "valid T_NULL c v = (v = V_null)"
| "valid (T_INTEGER specs tc) c v =
     (case v of V_integer (Some st) \<Rightarrow> integer_ok (is_unsigned specs) (value_constraint tc c) st | _ \<Rightarrow> False)"
| "valid (T_NativeInteger specs tc) c v =
     (case v of V_native x \<Rightarrow> native_ok (is_unsigned specs) (value_constraint tc c) x | _ \<Rightarrow> False)"
| "valid (T_ENUMERATED specs tc) c v =
     (case v of V_integer st \<Rightarrow> valid_enum specs (value_constraint tc c) (\<lambda>x. st = asn_long2INTEGER x) | _ \<Rightarrow> False)"
| "valid (T_NativeEnumerated specs tc) c v =
     (case v of V_native x \<Rightarrow> valid_enum specs (value_constraint tc c) (\<lambda>y. x = y) | _ \<Rightarrow> False)"
| "valid (T_OCTET_STRING specs tc) c v =
     (case (v, bytes_per_character specs) of
        (V_octets (Some octs), Some bpc) \<Rightarrow> 0 < bpc \<and> octets_ok (per_constraints tc c) bpc (chunks bpc octs) | _ \<Rightarrow> False)"
| "valid (T_BIT_STRING specs tc) c v =
     (case v of V_bits st \<Rightarrow> is_bit_variant specs \<and> bits_ok (bit_size_constraint (per_constraints tc c)) st | _ \<Rightarrow> False)"
| "valid (T_SEQUENCE_OF m tc) c v =
     (memb_wf m \<and> (case v of V_list xs \<Rightarrow> valid_list (size_constraint tc c) (valid_memb m) xs | _ \<Rightarrow> False))"
| "valid (T_SET_OF m tc) c v =
     (memb_wf m \<and> (case v of V_list xs \<Rightarrow> valid_list (size_constraint tc c) (valid_memb m) xs | _ \<Rightarrow> False))"
| "valid (T_SEQUENCE ms specs) c v =
     (case v of V_struct slots \<Rightarrow> valid_struct ms specs (map valid_memb ms) slots | _ \<Rightarrow> False)"
| "valid (T_CHOICE ms specs tc) c v =
     (case v of V_choice i x \<Rightarrow> valid_choice ms specs (value_constraint tc c) (map valid_memb ms) i x | _ \<Rightarrow> False)"
| "valid (T_OPEN_TYPE ms) c v = False"
| "valid_memb (Member ty c pointer selector optional default_cmp default_set) v = valid ty c v"

lemma valid_memb_iff [simp]: "valid_memb m = valid (m_type m) (m_constraints m)"
  by (cases m) auto

section \<open>What the receiver gets\<close>

text \<open>
  The decoded value is the sent one up to what the encoding does not carry: which number
  stands for true, leading zero octets of an INTEGER, trailing zero bits of a BIT STRING,
  the order of a SET OF, and whether a default value was written out.
\<close>

inductive alike :: "asn_type \<Rightarrow> asn_value \<Rightarrow> asn_value \<Rightarrow> bool" and slot_alike :: "asn_member \<Rightarrow> asn_value option \<Rightarrow> asn_value option \<Rightarrow> bool" where
  alike_boolean: "(a \<noteq> 0) = (b \<noteq> 0) \<Longrightarrow> alike T_BOOLEAN (V_boolean a) (V_boolean b)"
| alike_null: "alike T_NULL V_null V_null"
| alike_integer: "be_int a = be_int b \<Longrightarrow> alike (T_INTEGER specs tc) (V_integer (Some a)) (V_integer (Some b))"
| alike_native: "alike (T_NativeInteger specs tc) (V_native a) (V_native a)"
| alike_enumerated: "alike (T_ENUMERATED specs tc) (V_integer a) (V_integer a)"
| alike_native_enumerated: "alike (T_NativeEnumerated specs tc) (V_native a) (V_native a)"
| alike_octets: "alike (T_OCTET_STRING specs tc) (V_octets a) (V_octets a)"
| alike_bits: "strip_zeros (bits_of (bs_octets a)) = strip_zeros (bits_of (bs_octets b)) \<Longrightarrow> alike (T_BIT_STRING specs tc) (V_bits a) (V_bits b)"
| alike_sequence_of: "list_all2 (alike (m_type m)) xs ys \<Longrightarrow> alike (T_SEQUENCE_OF m tc) (V_list (map Some xs)) (V_list (map Some ys))"
| alike_set_of: "mset zs = mset xs \<Longrightarrow> list_all2 (alike (m_type m)) zs ys \<Longrightarrow> alike (T_SET_OF m tc) (V_list (map Some xs)) (V_list (map Some ys))"
| alike_sequence: "length xs = length ms \<Longrightarrow> length ys = length ms \<Longrightarrow> (\<And>i. i < length ms \<Longrightarrow> slot_alike (ms ! i) (xs ! i) (ys ! i)) \<Longrightarrow>
    alike (T_SEQUENCE ms specs) (V_struct xs) (V_struct ys)"
| alike_choice: "0 < i \<Longrightarrow> i \<le> length ms \<Longrightarrow> alike (m_type (ms ! (i - 1))) x y \<Longrightarrow> alike (T_CHOICE ms specs tc) (V_choice i (Some x)) (V_choice i (Some y))"
| slot_sent: "alike (m_type m) x y \<Longrightarrow> slot_alike m (Some x) (Some y)"
| slot_absent: "slot_alike m None None"
| slot_default: "m_default_set m = Some (Some d) \<Longrightarrow> slot_alike m None (Some d)"
| slot_default_value: "m_default_set m = Some (Some d) \<Longrightarrow> m_default_cmp m = Some f \<Longrightarrow> f x = 0 \<Longrightarrow> slot_alike m (Some x) (Some d)"

section \<open>Every valid value is conveyed\<close>

definition carried :: "asn_type \<Rightarrow> asn_per_constraints option \<Rightarrow> asn_value \<Rightarrow> bool" where
  "carried ty c v \<longleftrightarrow> (\<exists>bs r used. conveys (td_of ty) c v bs r used \<and> alike ty v r)"

lemma op_dec_reads:
  assumes "reads dec bs (RC_OK v k)"
  shows "reads (op_dec wrap dec) bs (RC_OK (wrap v) k)"
  unfolding op_dec_def [abs_def]
  by (rule reads_map [OF assms, where h = "\<lambda>rv. case rv of RC_OK v consumed \<Rightarrow> RC_OK (wrap v) consumed | RC_WMORE \<Rightarrow> RC_WMORE | RC_FAIL \<Rightarrow> RC_FAIL"]) simp_all

lemma carriedI:
  assumes "td_of ty = ops (\<lambda>c. op_dec wrap (dec c)) (\<lambda>c. op_enc unwrap (enc c))" "unwrap v = Some x"
    "writes (enc c (Some x)) bs" "reads (dec c) bs (RC_OK y k)" "alike ty v (wrap y)"
  shows "carried ty c v"
  unfolding carried_def conveys_def using assms op_dec_reads [OF assms(4)]
  by (intro exI [of _ bs] exI [of _ "wrap y"] exI [of _ k]) (simp add: op_enc_def)

lemma bit_result_alike:
  "strip_zeros (bits_of (bs_octets (bit_string (sent_bits csiz st)))) = strip_zeros (bits_of (bs_octets st))"
proof -
  have octs: "bits_of (bs_octets (bit_string bits)) = bits @ replicate ((8 - length bits mod 8) mod 8) False" for bits
  proof -
    have "bits_of (octets_of (pad8 bits)) = pad8 bits" by (rule bits_of_octets_of) simp
    then show ?thesis by (simp add: bit_string_def pad8_def)
  qed
  have "strip_zeros (strip_zeros bs) = strip_zeros bs" for bs by (simp add: strip_zeros_def)
  then show ?thesis unfolding octs strip_zeros_False by (simp add: sent_bits_def Let_def strip_zeros_False)
qed

lemma carried_primitive:
  "valid T_BOOLEAN c v \<Longrightarrow> carried T_BOOLEAN c v" "valid T_NULL c v \<Longrightarrow> carried T_NULL c v"
  "valid (T_INTEGER specs tc) c v \<Longrightarrow> carried (T_INTEGER specs tc) c v"
  "valid (T_NativeInteger specs tc) c v \<Longrightarrow> carried (T_NativeInteger specs tc) c v"
  "valid (T_ENUMERATED specs tc) c v \<Longrightarrow> carried (T_ENUMERATED specs tc) c v"
  "valid (T_NativeEnumerated specs tc) c v \<Longrightarrow> carried (T_NativeEnumerated specs tc) c v"
  "valid (T_OCTET_STRING os tc) c v \<Longrightarrow> carried (T_OCTET_STRING os tc) c v"
  "valid (T_BIT_STRING os tc) c v \<Longrightarrow> carried (T_BIT_STRING os tc) c v"
proof -
  assume "valid T_BOOLEAN c v"
  then obtain b where "v = V_boolean b" by (auto split: asn_value.splits)
  then show "carried T_BOOLEAN c v"
    using boolean_uper.enc_writes [of b] boolean_uper.dec_reads [of b]
    by (intro carriedI [where unwrap = as_boolean and wrap = V_boolean and enc = "\<lambda>_. BOOLEAN_encode_uper" and dec = "\<lambda>_. BOOLEAN_decode_uper"]) (auto intro: alike_boolean)
next
  assume "valid T_NULL c v"
  then show "carried T_NULL c v" unfolding carried_def conveys_def
    using null_uper.enc_writes null_uper.dec_reads
    by (intro exI [of _ "[]"] exI [of _ V_null] exI [of _ 0]) (auto intro: alike_null op_dec_reads)
next
  assume "valid (T_INTEGER specs tc) c v"
  then obtain st where v: "v = V_integer (Some st)" "integer_ok (is_unsigned specs) (value_constraint tc c) st"
    by (auto split: asn_value.splits option.splits)
  show "carried (T_INTEGER specs tc) c v"
    using integer_uper.enc_writes [OF v(2)] integer_uper.dec_reads [OF v(2)]
    by (intro carriedI [where unwrap = as_integer and wrap = V_integer and dec = "INTEGER_decode_uper specs tc" and enc = "INTEGER_encode_uper specs tc"])
      (use v(1) integer_result_value(1) [OF v(2)] in \<open>auto intro: alike_integer\<close>)
next
  assume "valid (T_NativeInteger specs tc) c v"
  then obtain x where v: "v = V_native x" "native_ok (is_unsigned specs) (value_constraint tc c) x" by (auto split: asn_value.splits)
  show "carried (T_NativeInteger specs tc) c v"
    using native_integer_uper.enc_writes [OF v(2)] native_integer_uper.dec_reads [OF v(2)]
    by (intro carriedI [where unwrap = as_native and wrap = V_native and dec = "NativeInteger_decode_uper specs tc" and enc = "NativeInteger_encode_uper specs tc"])
      (use v(1) in \<open>auto intro: alike_native\<close>)
next
  assume "valid (T_ENUMERATED specs tc) c v"
  then obtain sp ct i where s: "specs = Some sp" and v: "value_constraint tc c = Some ct \<and> enum_ok sp ct i" "v = V_integer (asn_long2INTEGER (nat_value (value2enum sp ! i)))"
    by (auto simp: valid_enum_def list_ex_iff split: asn_value.splits option.splits)
  show "carried (T_ENUMERATED specs tc) c v"
    using enumerated_uper.enc_writes [OF v(1)] enumerated_uper.dec_reads [OF v(1)] v(2) s
    by (intro carriedI [where unwrap = as_integer and wrap = V_integer and dec = "ENUMERATED_decode_uper specs tc" and
          enc = "\<lambda>c sptr. ENUMERATED_encode_uper specs tc c (Option.bind sptr (\<lambda>st. st))"]) (auto intro: alike_enumerated)
next
  assume "valid (T_NativeEnumerated specs tc) c v"
  then obtain sp ct i where s: "specs = Some sp" and v: "value_constraint tc c = Some ct \<and> enum_ok sp ct i" "v = V_native (nat_value (value2enum sp ! i))"
    by (auto simp: valid_enum_def list_ex_iff split: asn_value.splits option.splits)
  show "carried (T_NativeEnumerated specs tc) c v"
    using native_enumerated_uper.enc_writes [OF v(1)] native_enumerated_uper.dec_reads [OF v(1)]
    by (intro carriedI [where unwrap = as_native and wrap = V_native and dec = "NativeEnumerated_decode_uper specs tc" and enc = "NativeEnumerated_encode_uper specs tc"])
      (use v(2) s in \<open>auto intro: alike_native_enumerated\<close>)
next
  assume "valid (T_OCTET_STRING os tc) c v"
  then obtain octs bpc where v: "v = V_octets (Some octs)" "0 < bpc" and ok: "bytes_per_character os = Some bpc \<and> octets_ok (per_constraints tc c) bpc (chunks bpc octs)"
    by (auto split: asn_value.splits option.splits)
  show "carried (T_OCTET_STRING os tc) c v"
    using octet_string_uper.enc_writes [OF ok, unfolded concat_chunks [OF v(2)]] octet_string_uper.dec_reads [OF ok, unfolded concat_chunks [OF v(2)]]
    by (intro carriedI [where unwrap = as_octets and wrap = V_octets and dec = "OCTET_STRING_decode_uper os tc" and enc = "OCTET_STRING_encode_uper os tc"])
      (use v in \<open>auto intro: alike_octets\<close>)
next
  assume "valid (T_BIT_STRING os tc) c v"
  then obtain st where v: "v = V_bits st" and ok: "is_bit_variant os \<and> bit_size_constraint (per_constraints tc c) = bit_size_constraint (per_constraints tc c) \<and>
      bits_ok (bit_size_constraint (per_constraints tc c)) st" by (auto split: asn_value.splits)
  show "carried (T_BIT_STRING os tc) c v"
    using bit_string_uper.enc_writes [OF ok] bit_string_uper.dec_reads [OF ok]
    by (intro carriedI [where unwrap = as_bits and wrap = V_bits and dec = "BIT_STRING_decode_uper os tc" and enc = "BIT_STRING_encode_uper os tc"])
      (use v bit_result_alike in \<open>auto intro: alike_bits\<close>)
qed

subsection \<open>Lists\<close>

lemma carried_codec:
  assumes "memb_wf m" "\<And>v. valid (m_type m) (m_constraints m) v \<Longrightarrow> carried (m_type m) (m_constraints m) v"
  obtains code res used where "element_codec (asn_MBR m) code res used (valid (m_type m) (m_constraints m))"
    "\<And>v. valid (m_type m) (m_constraints m) v \<Longrightarrow> alike (m_type m) v (res v)"
proof -
  let ?ok = "valid (m_type m) (m_constraints m)" and ?td = "td_of (m_type m)"
  have "\<forall>v. \<exists>x. ?ok v \<longrightarrow> conveys ?td (m_constraints m) v (fst x) (fst (snd x)) (snd (snd x)) \<and> alike (m_type m) v (fst (snd x))"
    using assms(2) unfolding carried_def by (metis fst_conv snd_conv)
  then obtain f where f: "\<And>v. ?ok v \<Longrightarrow> conveys ?td (m_constraints m) v (fst (f v)) (fst (snd (f v))) (snd (snd (f v))) \<and> alike (m_type m) v (fst (snd (f v)))"
    by (metis (no_types, lifting))
  have wf: "type_wf (m_type m) (m_constraints m)" using assms(1) by (cases m) simp
  have dec: "op_uper_decoder ?td \<noteq> None" "safe_get (memb_decode (asn_MBR m))" using type_decoder_safe(1) [OF wf] by simp_all
  moreover have "op_uper_encoder ?td \<noteq> None" by (cases "m_type m") simp_all
  ultimately have "element_codec (asn_MBR m) (\<lambda>v. fst (f v)) (\<lambda>v. fst (snd (f v))) (\<lambda>v. snd (snd (f v))) ?ok"
  proof (unfold_locales, goal_cases)
    case (2 v)
    then show ?case using f [of v] by (auto simp: conveys_def)
  next
    case (3 v)
    then show ?case using f [of v] by (auto simp: conveys_def)
  qed simp_all
  then show ?thesis using that f by blast
qed

lemma valid_list_elements:
  assumes "valid_list ct ok xs"
  obtains vs where "xs = map Some vs" "elements_ok ok used vs" "list_ok ct (length vs)"
proof -
  have "xs = map Some (map the xs)" using assms by (auto simp: valid_list_def list_all_iff intro!: nth_equalityI split: option.splits) 
  moreover have "elements_ok ok used (map the xs)" "list_ok ct (length (map the xs))"
    using assms by (auto simp: valid_list_def elements_ok_def list_all_iff split: option.splits)
  ultimately show ?thesis using that by blast
qed

lemma carried_SEQUENCE_OF:
  assumes "\<And>v. valid (m_type m) (m_constraints m) v \<Longrightarrow> carried (m_type m) (m_constraints m) v" "valid (T_SEQUENCE_OF m tc) c v"
  shows "carried (T_SEQUENCE_OF m tc) c v"
proof -
  from assms(2) obtain xs where v: "v = V_list xs" "memb_wf m" "valid_list (size_constraint tc c) (valid (m_type m) (m_constraints m)) xs"
    by (auto split: asn_value.splits)
  from carried_codec [OF v(2) assms(1)] obtain code res used where
    e: "element_codec (asn_MBR m) code res used (valid (m_type m) (m_constraints m))"
    "\<And>v. valid (m_type m) (m_constraints m) v \<Longrightarrow> alike (m_type m) v (res v)" by blast
  from valid_list_elements [OF v(3)] obtain vs where vs: "xs = map Some vs" "elements_ok (valid (m_type m) (m_constraints m)) used vs" "list_ok (size_constraint tc c) (length vs)"
    by blast
  have ok: "list_all (valid (m_type m) (m_constraints m)) vs" using vs(2) by (simp add: elements_ok_def)
  then have "list_all2 (alike (m_type m)) vs (map res vs)" using e(2) by (simp add: list_all2_map2 list_all_iff list_all2_same)
  then show ?thesis
    using element_codec.SEQUENCE_OF_encode_writes [OF e(1) ok refl vs(3)] element_codec.SET_OF_decode_reads [OF e(1) vs(2) refl vs(3)] v(1) vs(1)
    by (intro carriedI [where unwrap = as_list and wrap = "\<lambda>vs. V_list (map Some vs)" and dec = "SET_OF_decode_uper (asn_MBR m) tc" and enc = "SEQUENCE_OF_encode_uper (asn_MBR m) tc"])
      (auto intro: alike_sequence_of)
qed

lemma carried_SET_OF:
  assumes "\<And>v. valid (m_type m) (m_constraints m) v \<Longrightarrow> carried (m_type m) (m_constraints m) v" "valid (T_SET_OF m tc) c v"
  shows "carried (T_SET_OF m tc) c v"
proof -
  from assms(2) obtain xs where v: "v = V_list xs" "memb_wf m" "valid_list (size_constraint tc c) (valid (m_type m) (m_constraints m)) xs"
    by (auto split: asn_value.splits)
  from carried_codec [OF v(2) assms(1)] obtain code res used where
    e: "element_codec (asn_MBR m) code res used (valid (m_type m) (m_constraints m))"
    "\<And>v. valid (m_type m) (m_constraints m) v \<Longrightarrow> alike (m_type m) v (res v)" by blast
  from valid_list_elements [OF v(3)] obtain vs where vs: "xs = map Some vs" "elements_ok (valid (m_type m) (m_constraints m)) used vs" "list_ok (size_constraint tc c) (length vs)"
    by blast
  from element_codec.SET_OF_encode_writes [OF e(1) vs(2) refl vs(3)] obtain ws f where ws: "mset ws = mset vs"
    "SET_OF_encode_uper (asn_MBR m) tc c (Some (map Some vs)) = (\<lambda>po. Some (f po))" "writes f (list_code (size_constraint tc c) (map code ws))" by metis
  have ok: "elements_ok (valid (m_type m) (m_constraints m)) used ws" "length ws = length vs"
    using element_codec.elements_ok_perm [OF e(1) ws(1) vs(2)] ws(1) by (auto dest: mset_eq_length)
  then have "list_all2 (alike (m_type m)) ws (map res ws)" using e(2) by (auto simp: list_all2_map2 list_all_iff list_all2_same elements_ok_def)
  moreover have "reads (SET_OF_decode_uper (asn_MBR m) tc c) (list_code (size_constraint tc c) (map code ws)) (RC_OK (map res ws) 0)"
    using element_codec.SET_OF_decode_reads [OF e(1) ok(1) refl] vs(3) ok(2) by simp
  ultimately show ?thesis using v(1) vs(1) ws
    by (intro carriedI [where unwrap = as_list and wrap = "\<lambda>vs. V_list (map Some vs)" and dec = "SET_OF_decode_uper (asn_MBR m) tc" and
          enc = "\<lambda>c sptr po. the (SET_OF_encode_uper (asn_MBR m) tc c sptr po)"]) (auto intro: alike_set_of)
qed

subsection \<open>CHOICE\<close>

lemma carried_CHOICE:
  assumes IH: "\<And>m v. m \<in> set ms \<Longrightarrow> valid (m_type m) (m_constraints m) v \<Longrightarrow> carried (m_type m) (m_constraints m) v"
    and "valid (T_CHOICE ms specs tc) c v"
  shows "carried (T_CHOICE ms specs tc) c v"
proof -
  let ?ct = "value_constraint tc c" and ?els = "map asn_MBR ms"
  from assms(2) obtain i x where v: "v = V_choice i (Some x)" "choice_wf ?els specs ?ct" "0 < i" "i \<le> length ms"
    "choice_ok specs ?ct (canonical_index specs (i - 1))" "valid (m_type (ms ! (i - 1))) (m_constraints (ms ! (i - 1))) x"
    by (auto simp: valid_choice_def split: asn_value.splits option.splits)
  have i: "i - 1 < length ?els" "?els ! (i - 1) = asn_MBR (ms ! (i - 1))" using v(3,4) by simp_all
  from IH [OF _ v(6)] v(3,4) obtain bs r k where r: "conveys (memb_type (?els ! (i - 1))) (memb_constraints (?els ! (i - 1))) x bs r k" "alike (m_type (ms ! (i - 1))) x r"
    unfolding carried_def i(2) by auto
  have "alike (T_CHOICE ms specs tc) (V_choice i (Some x)) (V_choice i (Some r))" by (rule alike_choice [OF v(3,4) r(2)])
  then show ?thesis
    using CHOICE_encode_writes [OF v(2) refl i(1) v(5) r(1)] CHOICE_decode_reads [OF v(2) refl i(1) v(5) r(1)] v(1,3,4)
    by (intro carriedI [where unwrap = as_choice and wrap = "\<lambda>st. V_choice (present_idx st) (chosen st)" and
          dec = "CHOICE_decode_uper ?els specs tc" and enc = "CHOICE_encode_uper ?els specs tc"]) auto
qed

subsection \<open>SEQUENCE\<close>

lemma valid_root_code:
  assumes "\<And>v. valid (m_type m) (m_constraints m) v \<Longrightarrow> carried (m_type m) (m_constraints m) v"
    "valid_root m (valid (m_type m) (m_constraints m)) slot"
  obtains fl bs r where "root_code (asn_MBR m) st slot fl bs r" "slot_alike m slot r"
proof (cases slot)
  case None
  with assms(2) have m: "memb_optional (asn_MBR m) \<noteq> 0" "memb_pointer (asn_MBR m)" "m_default_set m \<noteq> Some None" by (simp_all add: valid_root_def)
  show ?thesis
  proof (cases "m_default_set m")
    case None
    then have "root_code (asn_MBR m) st slot [False] [] None" using root_code.absent [OF m(1,2)] \<open>slot = None\<close> by simp
    then show ?thesis using that slot_absent \<open>slot = None\<close> by blast
  next
    case (Some d)
    with m(3) obtain e where e: "m_default_set m = Some (Some e)" by auto
    then have "root_code (asn_MBR m) st slot [False] [] (Some e)" using root_code.absent_default [OF m(1,2)] \<open>slot = None\<close> by simp
    then show ?thesis using that slot_default [OF e] \<open>slot = None\<close> by blast
  qed
next
  case (Some v)
  let ?def = "member_default (asn_MBR m) (Some v)"
  have sent: "\<exists>bs r. member_conveys (asn_MBR m) st v bs r \<and> slot_alike m (Some v) (Some r)" if ok: "valid (m_type m) (m_constraints m) v"
  proof -
    have "\<not> memb_open_type (asn_MBR m)" using assms(2) by (simp add: valid_root_def)
    with assms(1) [OF ok] show ?thesis unfolding carried_def
      by (metis asn_MBR_sel(1,2) member_conveysI slot_sent)
  qed
  consider (mandatory) "m_optional m = 0" "m_default_cmp m = None" "valid (m_type m) (m_constraints m) v"
    | (default) d f where "m_optional m \<noteq> 0" "m_default_cmp m = Some f" "f v = 0" "m_default_set m = Some (Some d)"
    | (present) "m_optional m \<noteq> 0" "\<not> ?def" "valid (m_type m) (m_constraints m) v"
    using assms(2) Some by (auto simp: valid_root_def member_default_def split: if_splits option.splits)
  then show ?thesis
  proof cases
    case mandatory
    with sent obtain bs r where "member_conveys (asn_MBR m) st v bs r" "slot_alike m (Some v) (Some r)" by blast
    with mandatory root_code.mandatory [of "asn_MBR m" st v bs r] Some that show ?thesis by simp
  next
    case default
    then have "root_code (asn_MBR m) st slot [False] [] (Some d)" using root_code.default [of "asn_MBR m" v d st] Some by (simp add: member_default_def)
    then show ?thesis using that slot_default_value [OF default(4,2,3)] Some by blast
  next
    case present
    with sent obtain bs r where "member_conveys (asn_MBR m) st v bs r" "slot_alike m (Some v) (Some r)" by blast
    with present root_code.present [of "asn_MBR m" v st bs r] Some that show ?thesis by simp
  qed
qed

definition slots_alike :: "asn_member list \<Rightarrow> asn_value option list \<Rightarrow> asn_value option list \<Rightarrow> bool" where
  "slots_alike ms xs ys \<longleftrightarrow> length xs = length ms \<and> length ys = length ms \<and> (\<forall>i < length ms. slot_alike (ms ! i) (xs ! i) (ys ! i))"

lemma slots_alike_Nil: "slots_alike [] [] []"
  by (simp add: slots_alike_def)

lemma slots_alike_Cons: "slot_alike m x y \<Longrightarrow> slots_alike ms xs ys \<Longrightarrow> slots_alike (m # ms) (x # xs) (y # ys)"
  by (auto simp: slots_alike_def nth_Cons split: nat.splits)

lemma slots_alike_append: "slots_alike ms xs ys \<Longrightarrow> slots_alike ms' xs' ys' \<Longrightarrow> slots_alike (ms @ ms') (xs @ xs') (ys @ ys')"
  by (auto simp: slots_alike_def nth_append)

lemma valid_root_codes:
  assumes "\<And>m v. m \<in> set ms \<Longrightarrow> valid (m_type m) (m_constraints m) v \<Longrightarrow> carried (m_type m) (m_constraints m) v"
    "list_all2 (\<lambda>m slot. valid_root m (valid (m_type m) (m_constraints m)) slot) ms slots"
  shows "\<exists>fls bss rs. root_codes (map asn_MBR ms) st slots fls bss rs \<and> slots_alike ms slots rs"
  using assms(2,1)
proof (induction arbitrary: st rule: list_all2_induct)
  case Nil
  then show ?case using root_codes.none slots_alike_Nil by fastforce
next
  case (Cons m ms slot slots)
  obtain fl bs r where r: "root_code (asn_MBR m) st slot fl bs r" "slot_alike m slot r"
    using valid_root_code [OF _ Cons.hyps(1)] Cons.prems by (metis list.set_intros(1))
  from Cons.IH [of "st @ [r]"] Cons.prems obtain fls bss rs where "root_codes (map asn_MBR ms) (st @ [r]) slots fls bss rs" "slots_alike ms slots rs"
    by (metis list.set_intros(2))
  with root_codes.one_more [OF r(1)] slots_alike_Cons [OF r(2)] show ?case by fastforce
qed

lemma valid_ext_codes:
  assumes "\<And>m v. m \<in> set ms \<Longrightarrow> valid (m_type m) (m_constraints m) v \<Longrightarrow> carried (m_type m) (m_constraints m) v"
    "list_all2 (\<lambda>m slot. valid_addition m (valid (m_type m) (m_constraints m)) slot) ms slots"
  shows "\<exists>fls bss rs. ext_codes (map asn_MBR ms) slots fls bss rs \<and> slots_alike ms slots rs \<and> length rs = length ms"
  using assms(2,1)
proof (induction rule: list_all2_induct)
  case Nil
  then show ?case using ext_codes.ext_none slots_alike_Nil by fastforce
next
  case (Cons m ms slot slots)
  from Cons.IH Cons.prems obtain fls bss rs where IH: "ext_codes (map asn_MBR ms) slots fls bss rs" "slots_alike ms slots rs" "length rs = length ms"
    by (metis list.set_intros(2))
  show ?case
  proof (cases slot)
    case None
    with Cons.hyps(1) have "memb_pointer (asn_MBR m)" by (simp add: valid_addition_def)
    from ext_codes.ext_absent [OF this IH(1)] slots_alike_Cons [OF slot_absent IH(2)] IH(3) None show ?thesis by fastforce
  next
    case (Some v)
    with Cons.hyps(1) have "valid (m_type m) (m_constraints m) v" by (simp add: valid_addition_def)
    with Cons.prems have "carried (m_type m) (m_constraints m) v" by simp
    then obtain bs r k where r: "conveys (memb_type (asn_MBR m)) (memb_constraints (asn_MBR m)) v bs r k" "alike (m_type m) v r" by (auto simp: carried_def)
    from ext_codes.ext_present [OF r(1) IH(1)] slots_alike_Cons [OF slot_sent [OF r(2)] IH(2)] IH(3) Some show ?thesis by fastforce
  qed
qed

inductive_cases slot_alike_NoneE: "slot_alike m x None"

lemma fill_defaults_alike:
  assumes "list_all (\<lambda>i. i < length ms \<and> m_default_set (ms ! i) \<noteq> Some None) edxs" "slots_alike ms xs st"
  shows "\<exists>st'. fill_defaults (map asn_MBR ms) edxs st = Some st' \<and> slots_alike ms xs st'"
  using assms
proof (induction edxs arbitrary: st)
  case (Cons i edxs)
  have i: "i < length ms" "map asn_MBR ms ! i = asn_MBR (ms ! i)" "i < length st" using Cons.prems by (simp_all add: slots_alike_def)
  show ?case
  proof (cases "m_default_set (ms ! i) = None \<or> \<not> m_pointer (ms ! i) \<or> st ! i \<noteq> None")
    case True
    then show ?thesis using Cons i by (auto split: option.splits)
  next
    case False
    with Cons.prems(1) obtain d where d: "m_default_set (ms ! i) = Some (Some d)" by auto
    have "slot_alike (ms ! i) (xs ! i) None" using Cons.prems(2) False i by (auto simp: slots_alike_def)
    then have "xs ! i = None" by (cases rule: slot_alike_NoneE)
    with slot_default [OF d] have "slots_alike ms xs (st[i := Some d])"
      using Cons.prems(2) i(3) by (auto simp: slots_alike_def nth_list_update)
    with Cons.IH Cons.prems(1) show ?thesis using False d i by (auto split: option.splits)
  qed
qed simp

lemma zipped_slots:
  "length ms = length slots \<Longrightarrow> list_all (\<lambda>((m, ok), slot). P m ok slot) (zip (zip ms (map f ms)) slots) \<Longrightarrow> list_all2 (\<lambda>m slot. P m (f m) slot) ms slots"
  by (induction ms slots rule: list_induct2) auto

lemma struct_codes:
  assumes IH: "\<And>m v. m \<in> set ms \<Longrightarrow> valid (m_type m) (m_constraints m) v \<Longrightarrow> carried (m_type m) (m_constraints m) v"
    and "valid (T_SEQUENCE ms specs) c (V_struct slots)" and n_def: "n = root_end (map asn_MBR ms) specs"
  obtains fls bss rs efls ebss ers where
    "root_codes (take n (map asn_MBR ms)) [] (take n slots) fls bss rs" "slots_alike (take n ms) (take n slots) rs"
    "ext_codes (drop n (map asn_MBR ms)) (drop n slots) efls ebss ers" "slots_alike (drop n ms) (drop n slots) ers"
proof -
  let ?els = "map asn_MBR ms" and ?ok = "\<lambda>m. valid (m_type m) (m_constraints m)"
  have memb: "map valid_memb ms = map ?ok ms" by simp
  from assms(2) have v: "seq_wf ?els specs" "length slots = length ms"
    "list_all (\<lambda>((m, ok), slot). valid_root m ok slot) (take n (zip (zip ms (map ?ok ms)) slots))"
    "list_all (\<lambda>((m, ok), slot). valid_addition m ok slot) (drop n (zip (zip ms (map ?ok ms)) slots))"
    by (auto simp: valid_struct_def n_def Let_def memb simp del: valid_memb_iff split: asn_value.splits)
  have n: "n \<le> length ms" using v(1) by (simp add: seq_wf_def n_def)
  have r: "list_all2 (\<lambda>m slot. valid_root m (?ok m) slot) (take n ms) (take n slots)"
    using v(2,3) n by (intro zipped_slots [where P = valid_root and f = ?ok]) (simp_all add: take_zip take_map)
  have "carried (m_type m) (m_constraints m) v" if "m \<in> set (take n ms)" "valid (m_type m) (m_constraints m) v" for m v
    using IH [OF in_set_takeD [OF that(1)] that(2)] .
  from valid_root_codes [OF this r, of "[]"] obtain fls bss rs where
    root: "root_codes (take n ?els) [] (take n slots) fls bss rs" "slots_alike (take n ms) (take n slots) rs"
    by (auto simp: take_map)
  have e: "list_all2 (\<lambda>m slot. valid_addition m (?ok m) slot) (drop n ms) (drop n slots)"
    using v(2,4) n by (intro zipped_slots [where P = valid_addition and f = ?ok]) (simp_all add: drop_zip drop_map)
  have "carried (m_type m) (m_constraints m) v" if "m \<in> set (drop n ms)" "valid (m_type m) (m_constraints m) v" for m v
    using IH [OF in_set_dropD [OF that(1)] that(2)] .
  from valid_ext_codes [OF this e] obtain efls ebss ers where
    "ext_codes (drop n ?els) (drop n slots) efls ebss ers" "slots_alike (drop n ms) (drop n slots) ers" by (auto simp: drop_map)
  with root that show ?thesis by blast
qed

text \<open>
  A receiver with the same root and another number of additions: what it does not know is
  skipped, what it knows and was not sent is absent or has its default.
\<close>

definition receiver_wf :: "asn_member list \<Rightarrow> asn_SEQUENCE_specifics \<Rightarrow> bool" where
  "receiver_wf ms specs \<longleftrightarrow> seq_wf (map asn_MBR ms) specs \<and>
     list_all (\<lambda>i. i < length ms \<and> m_default_set (ms ! i) \<noteq> Some None) (take (aoms_count specs) (drop (roms_count specs) (oms specs)))"

definition other_version :: "nat \<Rightarrow> asn_member list \<Rightarrow> asn_member list \<Rightarrow> bool" where
  "other_version n ms ms' \<longleftrightarrow> take n ms' = take n ms \<and> n \<le> length ms \<and> n \<le> length ms' \<and>
     take (length ms') ms = take (length ms) ms'"

definition known_slots :: "asn_member list \<Rightarrow> asn_value option list \<Rightarrow> asn_value option list" where
  "known_slots ms slots = take (length ms) slots @ replicate (length ms - length slots) None"

lemma slots_alike_take: "slots_alike ms xs ys \<Longrightarrow> slots_alike (take k ms) (take k xs) (take k ys)"
  by (auto simp: slots_alike_def)

lemma slots_alike_None: "slots_alike ms (replicate (length ms) None) (replicate (length ms) None)"
  by (simp add: slots_alike_def slot_absent)

lemma struct_received:
  assumes wf: "receiver_wf ms' specs'" and n: "n = root_end (map asn_MBR ms') specs'" and ext_sign: "(first_extension specs < 0) = (first_extension specs' < 0)"
    and ver: "other_version n ms ms'" "length ms - n \<le> 64" "first_extension specs < 0 \<longrightarrow> n = length ms"
    and root: "root_codes (take n (map asn_MBR ms)) [] (take n slots) fls bss rs" "slots_alike (take n ms) (take n slots) rs"
    and ext: "ext_codes (drop n (map asn_MBR ms)) (drop n slots) efls ebss ers" "slots_alike (drop n ms) (drop n slots) ers"
  obtains st' where "reads (SEQUENCE_decode_uper (map asn_MBR ms') specs') (sequence_code specs fls bss efls ebss) (RC_OK st' 0)"
    "slots_alike ms' (known_slots ms' slots) st'"
proof -
  let ?els' = "map asn_MBR ms'" and ?k = "length ms' - n"
  define st where "st = rs @ take ?k ers @ replicate (?k - length (drop n ms)) None"
  have le: "n \<le> length ms" "n \<le> length ms'" and same: "take n ms' = take n ms" "take (length ms') ms = take (length ms) ms'"
    using ver(1) by (simp_all add: other_version_def)
  have len: "length slots = length ms"
  proof -
    have "length (take n slots) = n" "length (drop n slots) = length ms - n" using root(2) ext(2) le by (simp_all add: slots_alike_def)
    then show ?thesis using le by (metis append_take_drop_id le_add_diff_inverse length_append)
  qed
  have known: "take ?k (drop n ms) = take (length ms - n) (drop n ms')" using same(2) by (metis drop_take)
  have "slots_alike (take n ms @ take ?k (drop n ms) @ drop (length ms) ms') (take n slots @ take ?k (drop n slots) @ replicate (length (drop (length ms) ms')) None)
      (rs @ take ?k ers @ replicate (length (drop (length ms) ms')) None)"
    by (intro slots_alike_append root(2) slots_alike_take ext(2) slots_alike_None)
  moreover have "take n ms @ take ?k (drop n ms) @ drop (length ms) ms' = ms'"
  proof -
    have "drop (length ms) ms' = drop (length ms - n) (drop n ms')" using le(1) by simp
    then show ?thesis unfolding known same(1) [symmetric] by (metis append_take_drop_id)
  qed
  moreover have "take n slots @ take ?k (drop n slots) @ replicate (length (drop (length ms) ms')) None = known_slots ms' slots"
  proof -
    have "take n slots @ take ?k (drop n slots) = take (length ms') slots" using le(2) by (metis le_add_diff_inverse take_add)
    then show ?thesis using len by (simp add: known_slots_def flip: append_assoc)
  qed
  ultimately have alike: "slots_alike ms' (known_slots ms' slots) st" using le by (simp add: st_def)
  from fill_defaults_alike [OF _ this] wf obtain st1 where
    st1: "fill_defaults ?els' (take (aoms_count specs') (drop (roms_count specs') (oms specs'))) st = Some st1" "slots_alike ms' (known_slots ms' slots) st1"
    by (auto simp: receiver_wf_def)
  define st' where "st' = (if first_extension specs' \<ge> 0 then st1 else st)"
  have versions: "drop n ?els' = drop n (map asn_MBR ms) @ map asn_MBR (drop (length ms) ms') \<or> drop n (map asn_MBR ms) = drop n ?els' @ map asn_MBR (drop (length ms') ms)"
  proof (cases "length ms \<le> length ms'")
    case True
    then have "drop n ms' = drop n ms @ drop (length ms) ms'" using known le by (metis append_take_drop_id drop_drop le_add_diff_inverse2 length_drop take_all diff_le_mono)
    then show ?thesis by (simp add: drop_map)
  next
    case False
    then have "drop n ms = drop n ms' @ drop (length ms') ms" using known le by (metis append_take_drop_id drop_drop le_add_diff_inverse2 length_drop nat_le_linear take_all diff_le_mono)
    then show ?thesis by (simp add: drop_map)
  qed
  have roots: "root_codes (take n ?els') [] (take n slots) fls bss rs" using root(1) same(1) by (simp add: take_map)
  from versions obtain extra where ver': "drop n ?els' = drop n (map asn_MBR ms) @ extra \<or> drop n (map asn_MBR ms) = drop n ?els' @ extra" by blast
  have st_eq: "st = rs @ take (length (drop n ?els')) ers @ replicate (length (drop n ?els') - length (drop n (map asn_MBR ms))) None" by (simp add: st_def)
  have seq: "seq_wf ?els' specs'" "length (drop n (map asn_MBR ms)) \<le> 64" "first_extension specs' < 0 \<longrightarrow> drop n (map asn_MBR ms) = []"
    using wf ver(2,3) ext_sign by (auto simp: receiver_wf_def)
  have filled: "(if 0 \<le> first_extension specs' then fill_defaults ?els' (take (aoms_count specs') (drop (roms_count specs') (oms specs'))) st else Some st) = Some st'"
    using st1(1) by (simp add: st'_def)
  have "reads (SEQUENCE_decode_uper ?els' specs') (sequence_code specs' fls bss efls ebss) (RC_OK st' 0)"
    by (rule SEQUENCE_decode_reads [OF seq(1) n roots ext(1) seq(2,3) ver' st_eq filled])
  moreover have "sequence_code specs' fls bss efls ebss = sequence_code specs fls bss efls ebss" using ext_sign by (simp add: sequence_code_def)
  moreover have "slots_alike ms' (known_slots ms' slots) st'" using alike st1(2) by (simp add: st'_def)
  ultimately show ?thesis using that by simp
qed

lemma carried_SEQUENCE:
  assumes IH: "\<And>m v. m \<in> set ms \<Longrightarrow> valid (m_type m) (m_constraints m) v \<Longrightarrow> carried (m_type m) (m_constraints m) v"
    and "valid (T_SEQUENCE ms specs) c v"
  shows "carried (T_SEQUENCE ms specs) c v"
proof -
  let ?els = "map asn_MBR ms" and ?n = "root_end (map asn_MBR ms) specs"
  from assms(2) obtain slots where v: "v = V_struct slots" "receiver_wf ms specs" "length slots = length ms" "valid (T_SEQUENCE ms specs) c (V_struct slots)"
    by (auto simp: valid_struct_def receiver_wf_def Let_def split: asn_value.splits)
  obtain fls bss rs efls ebss ers where
    codes: "root_codes (take ?n ?els) [] (take ?n slots) fls bss rs" "slots_alike (take ?n ms) (take ?n slots) rs"
    "ext_codes (drop ?n ?els) (drop ?n slots) efls ebss ers" "slots_alike (drop ?n ms) (drop ?n slots) ers"
    by (rule struct_codes [OF IH v(4) refl])
  have wf: "seq_wf ?els specs" using v(2) by (simp add: receiver_wf_def)
  then have n: "other_version ?n ms ms" "length ms - ?n \<le> 64" "first_extension specs < 0 \<longrightarrow> ?n = length ms"
    by (simp_all add: other_version_def seq_wf_def root_end_def)
  obtain st' where st': "reads (SEQUENCE_decode_uper ?els specs) (sequence_code specs fls bss efls ebss) (RC_OK st' 0)" "slots_alike ms (known_slots ms slots) st'"
    by (rule struct_received [OF v(2) refl refl n codes])
  have "alike (T_SEQUENCE ms specs) v (V_struct st')"
    using st'(2) v(1,3) by (auto simp: slots_alike_def known_slots_def intro: alike_sequence)
  moreover have "writes (SEQUENCE_encode_uper ?els specs (Some slots)) (sequence_code specs fls bss efls ebss)"
    using SEQUENCE_encode_writes [OF wf refl codes(1,3)] by simp
  ultimately show ?thesis using st'(1) v(1)
    by (intro carriedI [where unwrap = as_struct and wrap = V_struct and dec = "\<lambda>_. SEQUENCE_decode_uper ?els specs" and
          enc = "\<lambda>_. SEQUENCE_encode_uper ?els specs"]) simp_all
qed

lemma valid_carried: "valid ty c v \<Longrightarrow> carried ty c v" "valid_memb m v \<Longrightarrow> carried (m_type m) (m_constraints m) v"
proof (induction ty and m arbitrary: c v and v)
  case (T_SEQUENCE_OF m tc)
  then show ?case by (intro carried_SEQUENCE_OF) simp_all
next
  case (T_SET_OF m tc)
  then show ?case by (intro carried_SET_OF) simp_all
next
  case (T_SEQUENCE ms specs)
  then show ?case by (intro carried_SEQUENCE) simp_all
next
  case (T_CHOICE ms specs tc)
  then show ?case by (intro carried_CHOICE) simp_all
qed (simp_all only: carried_primitive valid_memb_iff asn_member.sel valid.simps)

text \<open>
  C1: every valid message whose encoding is not empty survives the wrapper. For every type built
  from BOOLEAN, NULL, INTEGER, enumerations, strings, SEQUENCE OF, SET OF, SEQUENCE with
  optional members, defaults and extension additions, and CHOICE, to any depth, \<open>encode_per\<close> encodes a
  value that meets its constraints, and \<open>decode_per\<close> accepts the octets and returns a value alike. Open
  types are not among these types, and a valid list has at most 200 elements: the decoder of lists
  refuses longer ones when the decoder of an element reports that it consumed nothing. A value that takes no bits is excluded, because \<open>decode_per\<close> refuses an empty buffer; a SEQUENCE with an
  extension marker always takes some.
\<close>

theorem message_roundtrip:
  assumes "valid ty None v" "encode_per (td_of ty) v \<noteq> Some []"
  shows "\<exists>octs r. encode_per (td_of ty) v = Some octs \<and> decode_per (td_of ty) octs = (True, Some r) \<and> alike ty v r"
proof -
  from valid_carried(1) [OF assms(1)] obtain bs r k where r: "conveys (td_of ty) None v bs r k" "alike ty v r" by (auto simp: carried_def)
  then obtain enc dec where ops: "op_uper_encoder (td_of ty) = Some enc" "op_uper_decoder (td_of ty) = Some dec"
    "writes (enc None (Some v)) bs" "reads (dec None) bs (RC_OK r k)" by (auto simp: conveys_def)
  note octs = encode_per_ok [OF ops(1,3)]
  have "bs \<noteq> []" using octs assms(2) by (auto simp: pad8_def octets_of.simps)
  from decode_per_ok [OF ops(2,4) this] show ?thesis using octs r(2) by blast
qed

lemma extensible_nonempty:
  assumes "valid (T_SEQUENCE ms specs) None (V_struct slots)" "0 \<le> first_extension specs"
  shows "encode_per (td_of (T_SEQUENCE ms specs)) (V_struct slots) \<noteq> Some []"
proof -
  let ?els = "map asn_MBR ms" and ?n = "nat (first_extension specs)"
  have n: "?n = root_end ?els specs" using assms(2) by (simp add: root_end_def)
  have wf: "seq_wf ?els specs" "length slots = length ms" using assms(1) by (auto simp: valid_struct_def Let_def)
  obtain fls bss rs efls ebss ers where
    codes: "root_codes (take ?n ?els) [] (take ?n slots) fls bss rs" "slots_alike (take ?n ms) (take ?n slots) rs"
    "ext_codes (drop ?n ?els) (drop ?n slots) efls ebss ers" "slots_alike (drop ?n ms) (drop ?n slots) ers"
    by (rule struct_codes [OF valid_carried(1) assms(1) n])
  let ?bits = "sequence_code specs fls bss efls ebss"
  have "writes (SEQUENCE_encode_uper ?els specs (Some slots)) ?bits" using SEQUENCE_encode_writes [OF wf(1) n codes(1,3)] by simp
  then have enc: "encode_per (td_of (T_SEQUENCE ms specs)) (V_struct slots) = Some (octets_of (pad8 ?bits))"
    by (intro encode_per_ok [where enc = "\<lambda>_. op_enc as_struct (SEQUENCE_encode_uper ?els specs)"]) (simp_all add: op_enc_def)
  have "?bits \<noteq> []" using assms(2) by (simp add: sequence_code_def)
  then have "pad8 ?bits \<noteq> []" by (simp add: pad8_def)
  moreover have "bits_of (octets_of (pad8 ?bits)) = pad8 ?bits" by (rule bits_of_octets_of) simp
  ultimately have "octets_of (pad8 ?bits) \<noteq> []" by (auto simp: bits_of_def)
  then show ?thesis unfolding enc by simp
qed

definition example_members :: "asn_member list" where
  "example_members =
     [Member (T_NativeInteger None None) (Some (example_cts example_ct)) False None 0 None None,
      Member T_BOOLEAN None True None 1 None None,
      Member (T_SEQUENCE_OF (Member example_speed None True None 0 None None) (Some example_sizes)) None False None 0 None None,
      Member (T_OCTET_STRING None None) None True None 1 None None]"

definition example_specs :: asn_SEQUENCE_specifics where
  "example_specs = \<lparr>oms = [1, 3], roms_count = 1, aoms_count = 1, first_extension = 3\<rparr>"

definition example_slots :: "asn_value option list" where
  "example_slots = [Some (V_native 77), None,
     Some (V_list [Some (V_struct [Some (V_native 5), Some (V_boolean 1)]), Some (V_struct [Some (V_native 300), None])]),
     Some (V_octets (Some [1, 2, 3]))]"

lemma example_valid: "valid (T_SEQUENCE example_members example_specs) None (V_struct example_slots)"
proof -
  have native: "native_ok (is_unsigned None) (value_constraint None (Some (example_cts example_ct))) x" if "x = 77 \<or> x = 5 \<or> x = 300" for x
    using that by (auto simp: native_ok_iff value_constraint_def example_cts_def example_ct_def wf_value_ct_def in_root_def is_unsigned_def has_flags_def)
  have octets: "valid (T_OCTET_STRING None None) None (V_octets (Some [1, 2, 3]))"
    by (simp add: bytes_per_character_def octets_ok_def chunks.simps per_constraints_def octet_constraints_def asn_DEF_OCTET_STRING_constraints_def
        unit_width_def octets_out_def character_bits_def char_width_def size_ok_def units_ok_def coded_as_is_def char_ok_def)
  show ?thesis
    unfolding example_slots_def
    by (simp add: valid_struct_def example_members_def example_specs_def example_speed_def Let_def root_end_def seq_wf_def upt_rec octets
       valid_root_def valid_addition_def valid_list_def list_ok_def size_constraint_def per_constraints_def example_sizes_def example_cts_def size_ok_def list_out_def
       del: valid.simps(7) valid.simps(4)) (use native in \<open>simp add: example_cts_def\<close>)
qed

theorem message_roundtrip_witness:
  "\<exists>octs r. encode_per (td_of (T_SEQUENCE example_members example_specs)) (V_struct example_slots) = Some octs \<and>
    decode_per (td_of (T_SEQUENCE example_members example_specs)) octs = (True, Some r) \<and>
    alike (T_SEQUENCE example_members example_specs) (V_struct example_slots) r"
proof -
  have "0 \<le> first_extension example_specs" by (simp add: example_specs_def)
  from message_roundtrip [OF example_valid extensible_nonempty [OF example_valid this]] show ?thesis .
qed

text \<open>
  C3: versions of a SEQUENCE understand each other. A receiver whose type has the same root
  and fewer or more extension additions decodes the message of the sender: the slots both
  know arrive alike, additions the receiver does not know are skipped and additions it was
  not sent are absent or have their default.
\<close>

theorem SEQUENCE_version_tolerant:
  assumes "valid (T_SEQUENCE ms specs) None (V_struct slots)" "receiver_wf ms' specs'"
    "first_extension specs' = first_extension specs" "0 \<le> first_extension specs" "other_version (nat (first_extension specs)) ms ms'"
  shows "\<exists>octs st'. encode_per (td_of (T_SEQUENCE ms specs)) (V_struct slots) = Some octs \<and>
    decode_per (td_of (T_SEQUENCE ms' specs')) octs = (True, Some (V_struct st')) \<and> slots_alike ms' (known_slots ms' slots) st'"
proof -
  let ?els = "map asn_MBR ms" and ?n = "nat (first_extension specs)"
  have n: "?n = root_end ?els specs" "?n = root_end (map asn_MBR ms') specs'" using assms(3,4) by (simp_all add: root_end_def)
  have wf: "seq_wf ?els specs" "length slots = length ms" using assms(1) by (auto simp: valid_struct_def Let_def)
  then have small: "length ms - ?n \<le> 64" using n(1) by (simp add: seq_wf_def)
  obtain fls bss rs efls ebss ers where
    codes: "root_codes (take ?n ?els) [] (take ?n slots) fls bss rs" "slots_alike (take ?n ms) (take ?n slots) rs"
    "ext_codes (drop ?n ?els) (drop ?n slots) efls ebss ers" "slots_alike (drop ?n ms) (drop ?n slots) ers"
    by (rule struct_codes [OF valid_carried(1) assms(1) n(1)])
  let ?bits = "sequence_code specs fls bss efls ebss"
  obtain st' where st': "reads (SEQUENCE_decode_uper (map asn_MBR ms') specs') ?bits (RC_OK st' 0)" "slots_alike ms' (known_slots ms' slots) st'"
    by (rule struct_received [OF assms(2) n(2) _ assms(5) small _ codes]) (use assms(3,4) in auto)
  have "writes (SEQUENCE_encode_uper ?els specs (Some slots)) ?bits" using SEQUENCE_encode_writes [OF wf(1) n(1) codes(1,3)] by simp
  then have "encode_per (td_of (T_SEQUENCE ms specs)) (V_struct slots) = Some (octets_of (pad8 ?bits))"
    by (intro encode_per_ok [where enc = "\<lambda>_. op_enc as_struct (SEQUENCE_encode_uper ?els specs)"]) (simp_all add: op_enc_def)
  moreover have "?bits \<noteq> []" using assms(4) by (simp add: sequence_code_def)
  then have "decode_per (td_of (T_SEQUENCE ms' specs')) (octets_of (pad8 ?bits)) = (True, Some (V_struct st'))"
    using op_dec_reads [OF st'(1), of V_struct] by (intro decode_per_ok [where c = 0]) simp_all
  ultimately show ?thesis using st'(2) by blast
qed

theorem SEQUENCE_version_tolerant_witness:
  "\<exists>octs st'. encode_per (td_of (T_SEQUENCE example_members example_specs)) (V_struct example_slots) = Some octs \<and>
    decode_per (td_of (T_SEQUENCE (take 3 example_members) (example_specs\<lparr>aoms_count := 0\<rparr>))) octs = (True, Some (V_struct st')) \<and>
    slots_alike (take 3 example_members) (known_slots (take 3 example_members) example_slots) st'"
proof -
  have "receiver_wf (take 3 example_members) (example_specs\<lparr>aoms_count := 0\<rparr>)"
    by (simp add: receiver_wf_def seq_wf_def example_members_def example_specs_def root_end_def upt_rec)
  moreover have "other_version (nat (first_extension example_specs)) example_members (take 3 example_members)"
    by (simp add: other_version_def example_members_def example_specs_def)
  ultimately show ?thesis using SEQUENCE_version_tolerant [OF example_valid, of "take 3 example_members" "example_specs\<lparr>aoms_count := 0\<rparr>"]
    by (simp add: example_specs_def)
qed

text \<open>
  C4: a member that is an open type survives the wire. When the selector, applied to the
  members decoded before it, picks the variant that was encoded, the decoder returns that
  variant with a value alike.
\<close>

theorem OPEN_TYPE_member_roundtrip:
  assumes "m_type m = T_OPEN_TYPE vs" "m_selector m = Some f" "f st = i" "0 < i" "i \<le> length vs" "valid (m_type (vs ! (i - 1))) None v"
  shows "\<exists>bs r used. writes (memb_encode (asn_MBR m) (V_choice i (Some v))) bs \<and>
    reads (get_member (asn_MBR m) st) bs (RC_OK (V_choice i (Some r)) used) \<and> alike (m_type (vs ! (i - 1))) v r"
proof -
  let ?vs = "map asn_MBR vs"
  have i: "i - 1 < length ?vs" "?vs ! (i - 1) = asn_MBR (vs ! (i - 1))" "i - 1 + 1 = i" using assms(4,5) by simp_all
  from valid_carried(1) [OF assms(6)] obtain bs r used where r: "conveys (memb_type (?vs ! (i - 1))) None v bs r used" "alike (m_type (vs ! (i - 1))) v r"
    unfolding i(2) by (auto simp: carried_def)
  from OPEN_TYPE_encode_writes [OF i(1) r(1)] have "writes (memb_encode (asn_MBR m) (V_choice i (Some v))) (open_code bs)"
    using assms(1) i(3) by simp
  moreover have "reads (OPEN_TYPE_uper_get (asn_MBR m) st) (open_code bs) (RC_OK \<lparr>present_idx = i - 1 + 1, chosen = Some r\<rparr> used)"
    using assms(1-3) i by (intro OPEN_TYPE_get_reads [OF _ _ _ _ r(1), where sel = "\<lambda>st. (f st, memb_type (?vs ! (f st - 1)))"]) simp_all
  then have "reads (get_member (asn_MBR m) st) (open_code bs) (RC_OK (V_choice i (Some r)) used)"
    by (rule reads_map [where h = "\<lambda>rv. case rv of RC_OK c consumed \<Rightarrow> RC_OK (memb_variant (asn_MBR m) (present_idx c) (the (chosen c))) consumed
        | RC_WMORE \<Rightarrow> RC_WMORE | RC_FAIL \<Rightarrow> RC_FAIL"]) (use assms(2) i(3) in \<open>simp_all add: get_member_def [abs_def]\<close>)
  ultimately show ?thesis using r(2) by blast
qed

definition example_open :: asn_member where
  "example_open = Member (T_OPEN_TYPE [Member T_NULL None False None 0 None None, Member T_BOOLEAN None False None 0 None None]) None False
     (Some (\<lambda>st. if st = [Some (V_native 1)] then 2 else 1)) 0 None None"

theorem OPEN_TYPE_member_roundtrip_witness:
  "\<exists>bs r used. writes (memb_encode (asn_MBR example_open) (V_choice 2 (Some (V_boolean 1)))) bs \<and>
    reads (get_member (asn_MBR example_open) [Some (V_native 1)]) bs (RC_OK (V_choice 2 (Some r)) used) \<and> alike T_BOOLEAN (V_boolean 1) r"
proof -
  define f :: "asn_value option list \<Rightarrow> nat" where "f = (\<lambda>st. if st = [Some (V_native 1)] then 2 else 1)"
  define vs where "vs = [Member T_NULL None False None 0 None None, Member T_BOOLEAN None False None 0 None None]"
  have m: "m_type example_open = T_OPEN_TYPE vs" "m_selector example_open = Some f" by (simp_all add: example_open_def vs_def f_def)
  have "f [Some (V_native 1)] = 2" "2 \<le> length vs" "vs ! (2 - 1) = Member T_BOOLEAN None False None 0 None None" by (simp_all add: f_def vs_def)
  with OPEN_TYPE_member_roundtrip [OF m, of "[Some (V_native 1)]" 2 "V_boolean 1"] show ?thesis by simp
qed

end
