(* ===== verification/Gn_Wire.thy ===== *)
theory Gn_Wire
  imports Asn_Prelude "HOL-Library.Monad_Syntax"
begin

text \<open>
  The archives of \<open>common/archives.cpp\<close> and the integer fields of
  \<open>common/serialization.hpp\<close>, in which the headers of the network and transport
  layers are written. An output archive is the list of octets written, an input archive the
  octets not yet read; a read past the end throws, which is \<open>None\<close> here. The locale
  \<open>wire_format\<close> is the contract of a header: a fixed length, every string of that
  length is the image of exactly one well-formed header, and a shorter one is refused.
\<close>

section \<open>Archives\<close>

type_synonym 'a reader = "byte list \<Rightarrow> ('a \<times> byte list) option"

definition save_binary :: "byte list \<Rightarrow> byte list \<Rightarrow> byte list" where
  "save_binary data ar = ar @ data"

definition load_binary :: "nat \<Rightarrow> byte list reader" where
  "load_binary len ar = (if length ar < len then None else Some (take len ar, drop len ar))"

text \<open>
  \<open>native_to_big\<close> followed by the octets of the object in memory are the octets of the
  number, most significant first, whatever the order of the host.
\<close>

primrec to_big :: "nat \<Rightarrow> 'a::len word \<Rightarrow> byte list" where
  "to_big 0 v = []"
| "to_big (Suc n) v = ucast (drop_bit (8 * n) v) # to_big n v"

definition from_big :: "byte list \<Rightarrow> 'a::len word" where
  "from_big bs = foldl (\<lambda>v b. push_bit 8 v OR ucast b) 0 bs"

definition serialize_int :: "'a::len word \<Rightarrow> byte list" where
  "serialize_int v = save_binary (to_big (LENGTH('a) div 8) v) []"

definition deserialize_int :: "'a::len word reader" where
  "deserialize_int ar = do { (bs, ar') \<leftarrow> load_binary (LENGTH('a) div 8) ar; Some (from_big bs, ar') }"

lemma length_to_big [simp]: "length (to_big n v) = n"
  by (induction n) simp_all

lemma foldl_to_big: "foldl (\<lambda>v b. push_bit 8 v OR ucast b) a (to_big n v) = push_bit (8 * n) a OR take_bit (8 * n) v"
proof (induction n arbitrary: a)
  case 0
  then show ?case by simp
next
  case (Suc n)
  show ?case
    unfolding to_big.simps foldl_Cons Suc
    by (rule bit_word_eqI) (auto simp: bit_simps algebra_simps)
qed

lemma from_to_big: "LENGTH('a) \<le> 8 * n \<Longrightarrow> from_big (to_big n v) = (v :: 'a::len word)"
  by (simp add: from_big_def foldl_to_big) (rule bit_word_eqI, auto simp: bit_simps dest: bit_imp_le_length)

lemma from_big_snoc: "from_big (bs @ [b]) = push_bit 8 (from_big bs) OR ucast b"
  by (simp add: from_big_def)

lemma to_big_Suc: "to_big (Suc n) v = to_big n (drop_bit 8 v) @ [ucast v]"
  by (induction n) (simp_all add: drop_bit_drop_bit ac_simps)

lemma drop_push_or: "n + 8 \<le> LENGTH('a) \<Longrightarrow> take_bit n (drop_bit 8 (push_bit 8 v OR ucast (b :: byte))) = take_bit n (v :: 'a::len word)"
  by (rule bit_word_eqI) (auto simp: bit_simps dest: bit_imp_le_length)

lemma to_big_take_bit: "to_big n (take_bit (8 * n) v) = to_big n v"
proof (induction n arbitrary: v)
  case 0
  then show ?case by simp
next
  case (Suc n)
  have "drop_bit 8 (take_bit (8 * Suc n) v) = take_bit (8 * n) (drop_bit 8 v)"
    by (rule bit_word_eqI) (auto simp: bit_simps)
  moreover have "ucast (take_bit (8 * Suc n) v) = (ucast v :: byte)"
    by (rule bit_word_eqI) (auto simp: bit_simps)
  ultimately show ?case unfolding to_big_Suc using Suc by simp
qed

lemma to_from_big: "8 * length bs \<le> LENGTH('a) \<Longrightarrow> to_big (length bs) (from_big bs :: 'a::len word) = bs"
proof (induction bs rule: rev_induct)
  case Nil
  then show ?case by simp
next
  case (snoc b bs)
  let ?v = "push_bit 8 (from_big bs) OR ucast b :: 'a word"
  have "to_big (length bs) (drop_bit 8 ?v) = to_big (length bs) (from_big bs :: 'a word)"
    using drop_push_or [of "8 * length bs" "from_big bs :: 'a word" b] snoc.prems
    by (metis (no_types) to_big_take_bit add.commute length_append_singleton mult_Suc_right)
  moreover have "ucast ?v = b"
    by (rule bit_word_eqI) (use snoc.prems in \<open>auto simp: bit_simps\<close>)
  ultimately show ?case
    unfolding length_append_singleton to_big_Suc from_big_snoc using snoc.IH snoc.prems by simp
qed

lemma word_small_iff:
  fixes w :: "'a::len word"
  assumes "n < LENGTH('a)"
  shows "w < 2 ^ n \<longleftrightarrow> (\<forall>i\<ge>n. \<not> bit w i)"
proof -
  have "w < 2 ^ n \<longleftrightarrow> unat w < 2 ^ n"
    using unat_of_nat [of "2 ^ n", where 'a = 'a] assms by (simp add: word_less_nat_alt)
  also have "\<dots> \<longleftrightarrow> take_bit n w = w"
    by (metis take_bit_nat_eq_self_iff unsigned_take_bit_eq unsigned_word_eqI)
  also have "\<dots> \<longleftrightarrow> (\<forall>i\<ge>n. \<not> bit w i)"
    by (auto simp: bit_eq_iff bit_simps not_less) (use bit_imp_le_length not_le in blast)+
  finally show ?thesis .
qed

section \<open>The contract of a header\<close>

locale wire_format =
  fixes put :: "'a \<Rightarrow> byte list" and get :: "'a reader" and len :: nat and ok :: "'a \<Rightarrow> bool"
  assumes length_put: "length (put x) = len"
    and get_put: "ok x \<Longrightarrow> get (put x @ rest) = Some (x, rest)"
    and put_get: "get ar = Some (x, ar') \<Longrightarrow> ok x \<and> ar = put x @ ar'"
    and get_enough: "len \<le> length ar \<Longrightarrow> get ar \<noteq> None"
begin

lemma get_short: "length ar < len \<Longrightarrow> get ar = None"
  using length_put put_get by (cases "get ar") fastforce+

lemma get_iff: "get ar = Some (x, ar') \<longleftrightarrow> ok x \<and> ar = put x @ ar'"
  using get_put put_get by blast

lemma get_None_iff: "get ar = None \<longleftrightarrow> length ar < len"
  using get_short get_enough not_le by blast

lemma get_total: "len \<le> length ar \<Longrightarrow> \<exists>x. ok x \<and> get ar = Some (x, drop len ar) \<and> put x = take len ar"
  using get_enough [of ar] put_get [of ar] length_put by (fastforce simp: append_eq_conv_conj)

lemma put_inj: "ok x \<Longrightarrow> ok y \<Longrightarrow> put x = put y \<Longrightarrow> x = y"
  using get_put [of x "[]"] get_put [of y "[]"] by simp

end

text \<open>A reader that takes \<open>n\<close> octets of every input that has them.\<close>

definition takes :: "nat \<Rightarrow> 'a reader \<Rightarrow> bool" where
  "takes n get \<longleftrightarrow> (\<forall>ar. n \<le> length ar \<longrightarrow> (\<exists>x. get ar = Some (x, drop n ar)))"

lemma takes_none [intro]: "takes 0 (\<lambda>ar. Some (x, ar))"
  by (simp add: takes_def)

lemma takes_then [intro]:
  assumes "takes n get" "\<And>x. takes (k - n) (f x)" "n \<le> k"
  shows "takes k (\<lambda>ar. get ar \<bind> (\<lambda>(x, ar). f x ar))"
  unfolding takes_def
proof (intro allI impI)
  fix ar :: "byte list" assume k: "k \<le> length ar"
  then obtain x where x: "get ar = Some (x, drop n ar)" using assms(1,3) unfolding takes_def by (meson le_trans)
  have "k - n \<le> length (drop n ar)" using k by simp
  then obtain y where "f x (drop n ar) = Some (y, drop (k - n) (drop n ar))" using assms(2) unfolding takes_def by blast
  then show "\<exists>y. get ar \<bind> (\<lambda>(x, ar). f x ar) = Some (y, drop k ar)" using x assms(3) by simp
qed

context wire_format
begin

lemma get_takes: "takes len get"
  using get_total by (auto simp: takes_def)

end

lemma wire_formatI:
  assumes "\<And>x. length (put x) = len" "\<And>ar x ar'. get ar = Some (x, ar') \<longleftrightarrow> ok x \<and> ar = put x @ ar'" "takes len get"
  shows "wire_format put get len ok"
  using assms(1,2) assms(3) [unfolded takes_def] by unfold_locales (simp, simp, simp, force)

lemma wire_int: "LENGTH('a) = 8 * n \<Longrightarrow> wire_format serialize_int (deserialize_int :: 'a::len word reader) n (\<lambda>_. True)"
proof (rule wire_formatI)
  fix ar ar' and x :: "'a word"
  assume n: "LENGTH('a) = 8 * n"
  show "deserialize_int ar = Some (x, ar') \<longleftrightarrow> True \<and> ar = serialize_int x @ ar'"
    using n from_to_big [of n x] to_from_big [of "take n ar", where 'a = 'a] append_take_drop_id [of n ar]
    by (auto simp: deserialize_int_def serialize_int_def load_binary_def save_binary_def split: if_splits)
qed (auto simp: serialize_int_def save_binary_def deserialize_int_def load_binary_def takes_def)

interpretation u8: wire_format serialize_int "deserialize_int :: 8 word reader" 1 "\<lambda>_. True" by (rule wire_int) simp
interpretation u16: wire_format serialize_int "deserialize_int :: 16 word reader" 2 "\<lambda>_. True" by (rule wire_int) simp
interpretation u32: wire_format serialize_int "deserialize_int :: 32 word reader" 4 "\<lambda>_. True" by (rule wire_int) simp

named_theorems takes_fields \<open>readers that start with a field of known length\<close>

lemmas takes_int [takes_fields] = takes_then [OF u8.get_takes] takes_then [OF u16.get_takes] takes_then [OF u32.get_takes]

lemmas int_wire = u8.get_iff u16.get_iff u32.get_iff u8.get_put u16.get_put u32.get_put
  u8.get_None_iff u16.get_None_iff u32.get_None_iff u8.length_put u16.length_put u32.length_put

end
