(* ===== verification/Gn_Headers.thy ===== *)
theory Gn_Headers
  imports Gn_Wire
begin

text \<open>
  The headers of GeoNetworking under \<open>src/vanetza/vanetza/geonet\<close> and of BTP, with
  their serialization. A \<open>BitNumber\<close> of \<open>w\<close> bits is a \<open>w word\<close>: its
  constructor masks the excess bits, which is \<open>ucast\<close>. An enumeration is the word of
  its underlying type, since the code casts unchecked numbers to it.
\<close>

named_theorems wire \<open>contracts of the header formats\<close>
named_theorems wire_put \<open>reading back what was written\<close>

declare int_wire [wire]

declare u8.get_put [wire_put] u16.get_put [wire_put] u32.get_put [wire_put]

section \<open>Addresses\<close>

datatype MacAddress = MacAddress byte byte byte byte byte byte

fun octets :: "MacAddress \<Rightarrow> byte list" where
  "octets (MacAddress a b c d e f) = [a, b, c, d, e, f]"

definition cBroadcastMacAddress :: MacAddress where
  "cBroadcastMacAddress = MacAddress 0xff 0xff 0xff 0xff 0xff 0xff"

definition serialize_mac :: "MacAddress \<Rightarrow> byte list" where
  "serialize_mac addr = concat (map serialize_int (octets addr))"

definition deserialize_mac :: "MacAddress reader" where
  "deserialize_mac ar = do {
     (a, ar) \<leftarrow> deserialize_int ar; (b, ar) \<leftarrow> deserialize_int ar; (c, ar) \<leftarrow> deserialize_int ar;
     (d, ar) \<leftarrow> deserialize_int ar; (e, ar) \<leftarrow> deserialize_int ar; (f, ar) \<leftarrow> deserialize_int ar;
     Some (MacAddress a b c d e f, ar) }"

text \<open>\<open>operator<\<close>: the first octet that is smaller decides, a larger one does not.\<close>

fun octets_less :: "byte list \<Rightarrow> byte list \<Rightarrow> bool" where
  "octets_less (x # xs) (y # ys) = (x < y \<or> octets_less xs ys)"
| "octets_less _ _ = False"

definition MacAddress_less :: "MacAddress \<Rightarrow> MacAddress \<Rightarrow> bool" where
  "MacAddress_less lhs rhs = octets_less (octets lhs) (octets rhs)"

record Address =
  m_manually_configured :: bool
  m_station_type :: "32 word"
  m_country_code :: "10 word"
  m_mid :: MacAddress

definition manually_configured_mask :: "16 word" where "manually_configured_mask = 0x8000"
definition station_type_mask :: "16 word" where "station_type_mask = 0x7c00"
definition country_code_mask :: "16 word" where "country_code_mask = 0x03ff"
definition station_type_shift :: nat where "station_type_shift = 10"

definition serialize_address :: "Address \<Rightarrow> byte list" where
  "serialize_address addr =
     (let tmp = ucast (m_country_code addr);
          tmp = tmp OR (push_bit station_type_shift (ucast (m_station_type addr)) AND station_type_mask);
          tmp = tmp OR (if m_manually_configured addr then manually_configured_mask else 0)
      in serialize_int tmp @ serialize_mac (m_mid addr))"

definition deserialize_address :: "Address reader" where
  "deserialize_address ar = do {
     (tmp, ar) \<leftarrow> deserialize_int ar;
     (mid, ar) \<leftarrow> deserialize_mac ar;
     Some (\<lparr>m_manually_configured = tmp AND manually_configured_mask \<noteq> 0,
            m_station_type = ucast (drop_bit station_type_shift (tmp AND station_type_mask)),
            m_country_code = ucast (tmp AND country_code_mask),
            m_mid = mid\<rparr>, ar) }"

definition address_ok :: "Address \<Rightarrow> bool" where
  "address_ok addr \<longleftrightarrow> m_station_type addr < 32"

section \<open>Position vectors\<close>

text \<open>
  Timestamps count milliseconds in 32 bits, angles tenths of a microdegree in a signed 32-bit
  number, speed hundredths of a metre per second in 15 bits.
\<close>

type_synonym Timestamp = "32 word"

record LongPositionVector =
  gn_addr :: Address
  timestamp :: Timestamp
  latitude :: "32 word"
  longitude :: "32 word"
  position_accuracy_indicator :: bool
  speed :: "15 word"
  heading :: "16 word"

definition serialize_lpv :: "LongPositionVector \<Rightarrow> byte list" where
  "serialize_lpv lpv =
     (let paiAndSpeed = ucast (speed lpv);
          paiAndSpeed = paiAndSpeed OR (if position_accuracy_indicator lpv then 0x8000 else 0x0000 :: 16 word)
      in serialize_address (gn_addr lpv) @ serialize_int (timestamp lpv) @ serialize_int (latitude lpv) @
         serialize_int (longitude lpv) @ serialize_int paiAndSpeed @ serialize_int (heading lpv))"

definition deserialize_lpv :: "LongPositionVector reader" where
  "deserialize_lpv ar = do {
     (addr, ar) \<leftarrow> deserialize_address ar;
     (ts, ar) \<leftarrow> deserialize_int ar;
     (lat, ar) \<leftarrow> deserialize_int ar;
     (lon, ar) \<leftarrow> deserialize_int ar;
     (paiAndSpeed, ar) \<leftarrow> deserialize_int ar;
     (hdg, ar) \<leftarrow> deserialize_int ar;
     Some (\<lparr>gn_addr = addr, timestamp = ts, latitude = lat, longitude = lon,
            position_accuracy_indicator = (paiAndSpeed AND 0x8000 :: 16 word) \<noteq> 0,
            speed = ucast paiAndSpeed, heading = hdg\<rparr>, ar) }"

definition lpv_ok :: "LongPositionVector \<Rightarrow> bool" where
  "lpv_ok lpv \<longleftrightarrow> address_ok (gn_addr lpv)"

definition zero_address :: Address where
  "zero_address = \<lparr>m_manually_configured = False, m_station_type = 0, m_country_code = 0, m_mid = MacAddress 0 0 0 0 0 0\<rparr>"

definition zero_lpv :: LongPositionVector where
  "zero_lpv = \<lparr>gn_addr = zero_address, timestamp = 0, latitude = 0, longitude = 0, position_accuracy_indicator = False, speed = 0, heading = 0\<rparr>"

definition is_empty_lpv :: "LongPositionVector \<Rightarrow> bool" where
  "is_empty_lpv pv \<longleftrightarrow> pv = zero_lpv"

text \<open>90, 180 and 360 degrees in the units of the fields.\<close>

definition is_valid_lpv :: "LongPositionVector \<Rightarrow> bool" where
  "is_valid_lpv pv =
     (if is_empty_lpv pv then False
      else if sint (latitude pv) < - 900000000 \<or> sint (latitude pv) > 900000000 then False
      else if sint (longitude pv) < - 1800000000 \<or> sint (longitude pv) > 1800000000 then False
      else if uint (heading pv) > 3600 then False
      else True)"

section \<open>Basic and common header\<close>

record BasicHeader =
  version :: "4 word"
  basic_next_header :: "8 word"
  basic_reserved :: "8 word"
  lifetime :: "8 word"
  hop_limit :: "8 word"

definition Basic_Any :: "8 word" where "Basic_Any = 0"
definition Basic_Common :: "8 word" where "Basic_Common = 1"
definition Basic_Secured :: "8 word" where "Basic_Secured = 2"

definition serialize_basic :: "BasicHeader \<Rightarrow> byte list" where
  "serialize_basic hdr =
     (let versionAndNextHeader = ucast (version hdr);
          versionAndNextHeader = push_bit 4 versionAndNextHeader;
          versionAndNextHeader = versionAndNextHeader OR (basic_next_header hdr AND 0x0f)
      in serialize_int versionAndNextHeader @ serialize_int (basic_reserved hdr) @ serialize_int (lifetime hdr) @
         serialize_int (hop_limit hdr))"

definition deserialize_basic :: "BasicHeader reader" where
  "deserialize_basic ar = do {
     (versionAndNextHeader, ar) \<leftarrow> deserialize_int ar;
     (res, ar) \<leftarrow> deserialize_int ar;
     (lt, ar) \<leftarrow> deserialize_int ar;
     (hl, ar) \<leftarrow> deserialize_int ar;
     Some (\<lparr>version = ucast (drop_bit 4 versionAndNextHeader), basic_next_header = versionAndNextHeader AND 0x0f,
            basic_reserved = res, lifetime = lt, hop_limit = hl\<rparr>, ar) }"

definition basic_ok :: "BasicHeader \<Rightarrow> bool" where
  "basic_ok hdr \<longleftrightarrow> basic_next_header hdr < 16"

record CommonHeader =
  common_next_header :: "32 word"
  reserved1 :: "4 word"
  header_type :: "8 word"
  traffic_class :: "8 word"
  flags :: "8 word"
  payload :: "16 word"
  maximum_hop_limit :: "8 word"
  reserved2 :: "8 word"

definition serialize_common :: "CommonHeader \<Rightarrow> byte list" where
  "serialize_common hdr =
     (let nextHeaderAndReserved = ucast (common_next_header hdr) :: 8 word;
          nextHeaderAndReserved = push_bit 4 nextHeaderAndReserved;
          nextHeaderAndReserved = nextHeaderAndReserved OR ucast (reserved1 hdr)
      in serialize_int nextHeaderAndReserved @ serialize_int (header_type hdr) @ serialize_int (traffic_class hdr) @
         serialize_int (flags hdr) @ serialize_int (payload hdr) @ serialize_int (maximum_hop_limit hdr) @
         serialize_int (reserved2 hdr))"

definition deserialize_common :: "CommonHeader reader" where
  "deserialize_common ar = do {
     (nextHeaderAndReserved, ar) \<leftarrow> deserialize_int ar;
     (ht, ar) \<leftarrow> deserialize_int ar;
     (tc, ar) \<leftarrow> deserialize_int ar;
     (fl, ar) \<leftarrow> deserialize_int ar;
     (pl, ar) \<leftarrow> deserialize_int ar;
     (mhl, ar) \<leftarrow> deserialize_int ar;
     (res2, ar) \<leftarrow> deserialize_int ar;
     Some (\<lparr>common_next_header = ucast (drop_bit 4 (nextHeaderAndReserved :: 8 word)),
            reserved1 = ucast (nextHeaderAndReserved AND 0x0f), header_type = ht, traffic_class = tc, flags = fl,
            payload = pl, maximum_hop_limit = mhl, reserved2 = res2\<rparr>, ar) }"

definition common_ok :: "CommonHeader \<Rightarrow> bool" where
  "common_ok hdr \<longleftrightarrow> common_next_header hdr < 16"

section \<open>Contracts\<close>

lemma mac_wire: "wire_format serialize_mac deserialize_mac 6 (\<lambda>_. True)"
proof (rule wire_formatI)
  fix x show "length (serialize_mac x) = 6" by (cases x) (simp add: serialize_mac_def wire)
next
  fix ar ar' x
  show "deserialize_mac ar = Some (x, ar') \<longleftrightarrow> True \<and> ar = serialize_mac x @ ar'"
    by (cases x) (auto simp: deserialize_mac_def serialize_mac_def wire Option.bind_eq_Some_conv)
next
  show "takes 6 deserialize_mac"
    unfolding deserialize_mac_def [abs_def] by (intro takes_fields) (simp_all add: takes_none)
qed

interpretation mac: wire_format serialize_mac deserialize_mac 6 "\<lambda>_. True" by (rule mac_wire)

declare mac.get_iff [wire] mac.get_takes [wire] mac.length_put [wire] mac.get_put [wire]

text \<open>The masks of the packed fields, as bit positions.\<close>

lemma field_bits:
  "bit (0x8000 :: int) n \<longleftrightarrow> n = 15" "bit (0x7c00 :: int) n \<longleftrightarrow> 10 \<le> n \<and> n < 15"
  "bit (0x03ff :: int) n \<longleftrightarrow> n < 10" "bit (0x0f :: int) n \<longleftrightarrow> n < 4" "bit (0x1f :: int) n \<longleftrightarrow> n < 5"
proof -
  have masks: "(0x8000 :: int) = push_bit 15 1" "(0x7c00 :: int) = push_bit 10 (mask 5)" "(0x03ff :: int) = mask 10"
    "(0x0f :: int) = mask 4" "(0x1f :: int) = mask 5"
    by (simp_all add: mask_eq_exp_minus_1 push_bit_eq_mult)
  show "bit (0x8000 :: int) n \<longleftrightarrow> n = 15" "bit (0x7c00 :: int) n \<longleftrightarrow> 10 \<le> n \<and> n < 15"
    "bit (0x03ff :: int) n \<longleftrightarrow> n < 10" "bit (0x0f :: int) n \<longleftrightarrow> n < 4" "bit (0x1f :: int) n \<longleftrightarrow> n < 5"
    unfolding masks bit_push_bit_iff bit_mask_iff bit_1_iff by auto
qed

lemma and_top_bit: "tmp AND 0x8000 \<noteq> 0 \<longleftrightarrow> bit tmp 15" for tmp :: "16 word"
  using and_exp_eq_0_iff_not_bit [of tmp 15] by simp

lemma address_fields:
  fixes tmp :: "16 word" and st :: "32 word" and cc :: "10 word"
  shows "mc = (tmp AND 0x8000 \<noteq> 0) \<and> st = ucast (drop_bit 10 (tmp AND 0x7c00)) \<and> cc = ucast (tmp AND 0x3ff) \<longleftrightarrow>
   st < 32 \<and> tmp = (ucast cc OR (push_bit 10 (ucast st) AND 0x7c00)) OR (if mc then 0x8000 else 0)" (is "?l \<longleftrightarrow> ?r")
proof -
  have small: "st < 32 \<longleftrightarrow> (\<forall>i\<ge>5. \<not> bit st i)" using word_small_iff [of 5 st] by simp
  have "st < 32" if ?l using that unfolding small by (auto simp: bit_simps field_bits)
  moreover have "tmp = (ucast cc OR (push_bit 10 (ucast st) AND 0x7c00)) OR (if mc then 0x8000 else 0)" if l: ?l
  proof (rule bit_word_eqI)
    fix n assume "n < LENGTH(16)"
    then consider "n < 10" | "10 \<le> n" "n < 15" | "n = 15" by fastforce
    then show "bit tmp n = bit ((ucast cc OR (push_bit 10 (ucast st) AND 0x7c00)) OR (if mc then 0x8000 else 0) :: 16 word) n"
      using l by cases (auto simp: and_top_bit field_bits bit_simps)
  qed
  moreover have ?l if r: ?r
  proof -
    have high: "\<not> bit st i" if "5 \<le> i" for i using that r small by blast
    have "mc = bit tmp 15" using r by (auto simp: field_bits bit_simps dest: bit_imp_le_length)
    moreover have "st = ucast (drop_bit 10 (tmp AND 0x7c00))"
    proof (rule bit_word_eqI)
      fix n assume "n < LENGTH(32)"
      show "bit st n = bit (ucast (drop_bit 10 (tmp AND 0x7c00)) :: 32 word) n"
        using r high [of n] by (cases "n < 5") (auto simp: field_bits bit_simps dest: bit_imp_le_length)
    qed
    moreover have "cc = ucast (tmp AND 0x3ff)"
      by (rule bit_word_eqI) (use r in \<open>auto simp: field_bits bit_simps\<close>)
    ultimately show ?thesis unfolding and_top_bit by blast
  qed
  ultimately show ?thesis by blast
qed

text \<open>The fields of the other packed octets.\<close>

lemma speed_fields:
  fixes tmp :: "16 word" and sp :: "15 word"
  shows "pai = (tmp AND 0x8000 \<noteq> 0) \<and> sp = ucast tmp \<longleftrightarrow> tmp = ucast sp OR (if pai then 0x8000 else 0)" (is "?l \<longleftrightarrow> ?r")
proof
  assume l: ?l
  show ?r
  proof (rule bit_word_eqI)
    fix n assume "n < LENGTH(16)"
    then consider "n < 15" | "n = 15" by fastforce
    then show "bit tmp n = bit (ucast sp OR (if pai then 0x8000 else 0) :: 16 word) n"
      using l by cases (simp_all add: and_top_bit field_bits bit_simps)
  qed
next
  assume r: ?r
  then have "pai = bit tmp 15" by (auto simp: field_bits bit_simps dest: bit_imp_le_length)
  moreover have "sp = ucast tmp" by (rule bit_word_eqI) (use r in \<open>auto simp: field_bits bit_simps\<close>)
  ultimately show ?l unfolding and_top_bit by blast
qed

lemma nibble_fields:
  fixes tmp :: "8 word" and hi :: "4 word" and lo :: "8 word"
  shows "hi = ucast (drop_bit 4 tmp) \<and> lo = tmp AND 0x0f \<longleftrightarrow> lo < 16 \<and> tmp = push_bit 4 (ucast hi) OR (lo AND 0x0f)" (is "?l \<longleftrightarrow> ?r")
proof -
  have small: "lo < 16 \<longleftrightarrow> (\<forall>i\<ge>4. \<not> bit lo i)" using word_small_iff [of 4 lo] by simp
  have "tmp = push_bit 4 (ucast hi) OR (lo AND 0x0f)" if l: ?l
    by (rule bit_word_eqI) (use l in \<open>auto simp: field_bits bit_simps\<close>)
  moreover have "lo < 16" if ?l using that unfolding small by (simp add: bit_and_iff field_bits)
  moreover have ?l if r: ?r
  proof -
    have high: "\<not> bit lo i" if "4 \<le> i" for i using that r small by blast
    have "hi = ucast (drop_bit 4 tmp)" by (rule bit_word_eqI) (use r in \<open>auto simp: field_bits bit_simps\<close>)
    moreover have "lo = tmp AND 0x0f"
      by (rule bit_word_eqI) (use r high in \<open>auto simp: field_bits bit_simps not_le [symmetric]\<close>)
    ultimately show ?thesis by blast
  qed
  ultimately show ?thesis by blast
qed

lemma low_nibble_fields:
  fixes tmp :: "8 word" and hi :: "32 word" and lo :: "4 word"
  shows "hi = ucast (drop_bit 4 tmp) \<and> lo = ucast (tmp AND 0x0f) \<longleftrightarrow> hi < 16 \<and> tmp = push_bit 4 (ucast hi) OR ucast lo" (is "?l \<longleftrightarrow> ?r")
proof -
  have small: "hi < 16 \<longleftrightarrow> (\<forall>i\<ge>4. \<not> bit hi i)" using word_small_iff [of 4 hi] by simp
  have "tmp = push_bit 4 (ucast hi) OR ucast lo" if l: ?l
    by (rule bit_word_eqI) (use l in \<open>auto simp: field_bits bit_simps\<close>)
  moreover have "hi < 16" if ?l using that unfolding small by (auto simp: bit_simps dest: bit_imp_le_length)
  moreover have ?l if r: ?r
  proof -
    have high: "\<not> bit hi i" if "4 \<le> i" for i using that r small by blast
    have "hi = ucast (drop_bit 4 tmp)"
      by (rule bit_word_eqI) (use r high in \<open>auto simp: field_bits bit_simps not_le [symmetric] dest: bit_imp_le_length\<close>)
    moreover have "lo = ucast (tmp AND 0x0f)" by (rule bit_word_eqI) (use r in \<open>auto simp: field_bits bit_simps\<close>)
    ultimately show ?thesis by blast
  qed
  ultimately show ?thesis by blast
qed

lemma address_wire: "wire_format serialize_address deserialize_address 8 address_ok"
proof (rule wire_formatI)
  fix x show "length (serialize_address x) = 8" by (simp add: serialize_address_def Let_def wire)
next
  fix ar ar' and x :: Address
  obtain mc st cc mid where x: "x = \<lparr>m_manually_configured = mc, m_station_type = st, m_country_code = cc, m_mid = mid\<rparr>" by (cases x)
  have "deserialize_address ar = Some (x, ar') \<longleftrightarrow>
      (\<exists>tmp :: 16 word. ar = serialize_int tmp @ serialize_mac mid @ ar' \<and>
        (mc = (tmp AND 0x8000 \<noteq> 0) \<and> st = ucast (drop_bit 10 (tmp AND 0x7c00)) \<and> cc = ucast (tmp AND 0x3ff)))"
    unfolding deserialize_address_def manually_configured_mask_def station_type_mask_def country_code_mask_def station_type_shift_def x
    by (auto simp: wire Option.bind_eq_Some_conv)
  then show "deserialize_address ar = Some (x, ar') \<longleftrightarrow> address_ok x \<and> ar = serialize_address x @ ar'"
    unfolding address_fields
    by (auto simp: x address_ok_def serialize_address_def Let_def manually_configured_mask_def station_type_mask_def station_type_shift_def)
next
  show "takes 8 deserialize_address"
    unfolding deserialize_address_def [abs_def] by (intro takes_fields takes_then [OF mac.get_takes]) (simp_all add: takes_none)
qed

interpretation address: wire_format serialize_address deserialize_address 8 address_ok by (rule address_wire)

declare address.get_iff [wire] address.length_put [wire] address.get_put [wire_put]

lemma lpv_wire: "wire_format serialize_lpv deserialize_lpv 24 lpv_ok"
proof (rule wire_formatI)
  fix x show "length (serialize_lpv x) = 24" by (simp add: serialize_lpv_def Let_def wire)
next
  fix ar ar' and x :: LongPositionVector
  obtain a ts lat lon pai sp h where x: "x = \<lparr>gn_addr = a, timestamp = ts, latitude = lat, longitude = lon, position_accuracy_indicator = pai, speed = sp, heading = h\<rparr>" by (cases x)
  have "deserialize_lpv ar = Some (x, ar') \<longleftrightarrow> address_ok a \<and>
      (\<exists>tmp :: 16 word. ar = serialize_address a @ serialize_int ts @ serialize_int lat @ serialize_int lon @ serialize_int tmp @ serialize_int h @ ar' \<and>
        (pai = (tmp AND 0x8000 \<noteq> 0) \<and> sp = ucast tmp))"
    unfolding deserialize_lpv_def x by (rule iffI, force simp: wire Option.bind_eq_Some_conv) (auto simp: wire_put)
  then show "deserialize_lpv ar = Some (x, ar') \<longleftrightarrow> lpv_ok x \<and> ar = serialize_lpv x @ ar'"
    unfolding speed_fields by (auto simp: x lpv_ok_def serialize_lpv_def Let_def)
next
  show "takes 24 deserialize_lpv"
    unfolding deserialize_lpv_def [abs_def] by (intro takes_fields takes_then [OF address.get_takes]) (simp_all add: takes_none)
qed

interpretation lpv: wire_format serialize_lpv deserialize_lpv 24 lpv_ok by (rule lpv_wire)

declare lpv.get_iff [wire] lpv.length_put [wire] lpv.get_put [wire_put]
lemmas takes_vectors [takes_fields] = takes_then [OF mac.get_takes] takes_then [OF address.get_takes] takes_then [OF lpv.get_takes]

lemma basic_wire: "wire_format serialize_basic deserialize_basic 4 basic_ok"
proof (rule wire_formatI)
  fix x show "length (serialize_basic x) = 4" by (simp add: serialize_basic_def Let_def wire)
next
  fix ar ar' and x :: BasicHeader
  obtain v nh r lt hl where x: "x = \<lparr>version = v, basic_next_header = nh, basic_reserved = r, lifetime = lt, hop_limit = hl\<rparr>" by (cases x)
  have "deserialize_basic ar = Some (x, ar') \<longleftrightarrow>
      (\<exists>tmp. ar = serialize_int tmp @ serialize_int r @ serialize_int lt @ serialize_int hl @ ar' \<and>
        (v = ucast (drop_bit 4 tmp) \<and> nh = tmp AND 0x0f))"
    unfolding deserialize_basic_def x by (auto simp: wire Option.bind_eq_Some_conv)
  then show "deserialize_basic ar = Some (x, ar') \<longleftrightarrow> basic_ok x \<and> ar = serialize_basic x @ ar'"
    unfolding nibble_fields by (auto simp: x basic_ok_def serialize_basic_def Let_def)
next
  show "takes 4 deserialize_basic"
    unfolding deserialize_basic_def [abs_def] by (intro takes_fields) (simp_all add: takes_none)
qed

interpretation basic: wire_format serialize_basic deserialize_basic 4 basic_ok by (rule basic_wire)

lemma common_wire: "wire_format serialize_common deserialize_common 8 common_ok"
proof (rule wire_formatI)
  fix x show "length (serialize_common x) = 8" by (simp add: serialize_common_def Let_def wire)
next
  fix ar ar' and x :: CommonHeader
  obtain nh r1 ht tc fl pl mhl r2 where x: "x = \<lparr>common_next_header = nh, reserved1 = r1, header_type = ht, traffic_class = tc, flags = fl, payload = pl, maximum_hop_limit = mhl, reserved2 = r2\<rparr>" by (cases x)
  have "deserialize_common ar = Some (x, ar') \<longleftrightarrow>
      (\<exists>tmp :: 8 word. ar = serialize_int tmp @ serialize_int ht @ serialize_int tc @ serialize_int fl @ serialize_int pl @ serialize_int mhl @ serialize_int r2 @ ar' \<and>
        (nh = ucast (drop_bit 4 tmp) \<and> r1 = ucast (tmp AND 0x0f)))"
    unfolding deserialize_common_def x by (auto simp: wire Option.bind_eq_Some_conv)
  then show "deserialize_common ar = Some (x, ar') \<longleftrightarrow> common_ok x \<and> ar = serialize_common x @ ar'"
    unfolding low_nibble_fields by (auto simp: x common_ok_def serialize_common_def Let_def)
next
  show "takes 8 deserialize_common"
    unfolding deserialize_common_def [abs_def] by (intro takes_fields) (simp_all add: takes_none)
qed

interpretation common: wire_format serialize_common deserialize_common 8 common_ok by (rule common_wire)

end
