(* ===== verification/Gn_Parser.thy ===== *)
theory Gn_Parser
  imports Gn_Headers
begin

text \<open>
  The extended headers of GeoNetworking, whole packets (\<open>pdu.cpp\<close>), the parser that
  the router drives (\<open>parser.cpp\<close>) and the headers of BTP. The secured message, which
  belongs to the security layer, is a parameter.
\<close>

section \<open>Extended headers\<close>

record DccMcoField =
  m_cbr_l0_hop :: "8 word"
  m_cbr_l1_hop :: "8 word"
  m_output_power :: "5 word"

definition DccMcoField_of :: "32 word \<Rightarrow> DccMcoField" where
  "DccMcoField_of field = \<lparr>m_cbr_l0_hop = ucast (drop_bit 24 field), m_cbr_l1_hop = ucast (drop_bit 16 field),
     m_output_power = ucast (drop_bit 11 field)\<rparr>"

definition DccMcoField_raw :: "DccMcoField \<Rightarrow> 32 word" where
  "DccMcoField_raw mco =
     (let field = ucast (m_cbr_l0_hop mco);
          field = push_bit 8 field;
          field = field OR ucast (m_cbr_l1_hop mco);
          field = push_bit 5 field;
          field = field OR ucast (m_output_power mco)
      in push_bit 11 field)"

datatype DccField = Dcc_Mco DccMcoField | Dcc_Raw "32 word"

fun get_dcc_mco :: "DccField \<Rightarrow> DccMcoField option" where
  "get_dcc_mco (Dcc_Mco mco) = Some mco"
| "get_dcc_mco (Dcc_Raw raw) = Some (DccMcoField_of raw)"

fun dcc_raw :: "DccField \<Rightarrow> 32 word" where
  "dcc_raw (Dcc_Mco mco) = DccMcoField_raw mco"
| "dcc_raw (Dcc_Raw raw) = raw"

definition serialize_dcc :: "DccField \<Rightarrow> byte list" where
  "serialize_dcc field = serialize_int (dcc_raw field)"

definition deserialize_dcc :: "DccField reader" where
  "deserialize_dcc ar = do { (raw, ar) \<leftarrow> deserialize_int ar; Some (Dcc_Raw raw, ar) }"

record ShbHeader =
  shb_source_position :: LongPositionVector
  dcc :: DccField

definition serialize_shb :: "ShbHeader \<Rightarrow> byte list" where
  "serialize_shb hdr = serialize_lpv (shb_source_position hdr) @ serialize_dcc (dcc hdr)"

definition deserialize_shb :: "ShbHeader reader" where
  "deserialize_shb ar = do {
     (sp, ar) \<leftarrow> deserialize_lpv ar;
     (d, ar) \<leftarrow> deserialize_dcc ar;
     Some (\<lparr>shb_source_position = sp, dcc = d\<rparr>, ar) }"

record BeaconHeader =
  beacon_source_position :: LongPositionVector

definition serialize_beacon :: "BeaconHeader \<Rightarrow> byte list" where
  "serialize_beacon hdr = serialize_lpv (beacon_source_position hdr)"

definition deserialize_beacon :: "BeaconHeader reader" where
  "deserialize_beacon ar = do { (sp, ar) \<leftarrow> deserialize_lpv ar; Some (\<lparr>beacon_source_position = sp\<rparr>, ar) }"

record GbcGacHeader =
  sequence_number :: "16 word"
  gbc_reserved1 :: "16 word"
  source_position :: LongPositionVector
  geo_area_pos_latitude :: "32 word"
  geo_area_pos_longitude :: "32 word"
  distance_a :: "16 word"
  distance_b :: "16 word"
  angle :: "16 word"
  gbc_reserved2 :: "16 word"

definition serialize_gbc :: "GbcGacHeader \<Rightarrow> byte list" where
  "serialize_gbc hdr =
     serialize_int (sequence_number hdr) @ serialize_int (gbc_reserved1 hdr) @ serialize_lpv (source_position hdr) @
     serialize_int (geo_area_pos_latitude hdr) @ serialize_int (geo_area_pos_longitude hdr) @
     serialize_int (distance_a hdr) @ serialize_int (distance_b hdr) @ serialize_int (angle hdr) @ serialize_int (gbc_reserved2 hdr)"

definition deserialize_gbc :: "GbcGacHeader reader" where
  "deserialize_gbc ar = do {
     (sn, ar) \<leftarrow> deserialize_int ar;
     (r1, ar) \<leftarrow> deserialize_int ar;
     (sp, ar) \<leftarrow> deserialize_lpv ar;
     (lat, ar) \<leftarrow> deserialize_int ar;
     (lon, ar) \<leftarrow> deserialize_int ar;
     (da, ar) \<leftarrow> deserialize_int ar;
     (db, ar) \<leftarrow> deserialize_int ar;
     (an, ar) \<leftarrow> deserialize_int ar;
     (r2, ar) \<leftarrow> deserialize_int ar;
     Some (\<lparr>sequence_number = sn, gbc_reserved1 = r1, source_position = sp, geo_area_pos_latitude = lat,
            geo_area_pos_longitude = lon, distance_a = da, distance_b = db, angle = an, gbc_reserved2 = r2\<rparr>, ar) }"

definition dcc_ok :: "DccField \<Rightarrow> bool" where
  "dcc_ok field \<longleftrightarrow> (case field of Dcc_Raw _ \<Rightarrow> True | Dcc_Mco _ \<Rightarrow> False)"

definition shb_ok :: "ShbHeader \<Rightarrow> bool" where
  "shb_ok hdr \<longleftrightarrow> lpv_ok (shb_source_position hdr) \<and> dcc_ok (dcc hdr)"

definition beacon_ok :: "BeaconHeader \<Rightarrow> bool" where
  "beacon_ok hdr \<longleftrightarrow> lpv_ok (beacon_source_position hdr)"

definition gbc_ok :: "GbcGacHeader \<Rightarrow> bool" where
  "gbc_ok hdr \<longleftrightarrow> lpv_ok (source_position hdr)"

lemma dcc_wire: "wire_format serialize_dcc deserialize_dcc 4 dcc_ok"
proof (rule wire_formatI)
  fix ar ar' x
  show "deserialize_dcc ar = Some (x, ar') \<longleftrightarrow> dcc_ok x \<and> ar = serialize_dcc x @ ar'"
    by (cases x) (auto simp: deserialize_dcc_def serialize_dcc_def dcc_ok_def wire Option.bind_eq_Some_conv)
next
  show "takes 4 deserialize_dcc"
    unfolding deserialize_dcc_def [abs_def] by (intro takes_fields) (simp_all add: takes_none)
qed (simp add: serialize_dcc_def wire)

interpretation dcc: wire_format serialize_dcc deserialize_dcc 4 dcc_ok by (rule dcc_wire)

declare dcc.get_iff [wire] dcc.length_put [wire] dcc.get_put [wire_put] takes_then [OF dcc.get_takes, takes_fields]

lemma shb_wire: "wire_format serialize_shb deserialize_shb 28 shb_ok"
proof (rule wire_formatI)
  fix x show "length (serialize_shb x) = 28" by (simp add: serialize_shb_def wire)
next
  fix ar ar' and x :: ShbHeader
  obtain sp d where x: "x = \<lparr>shb_source_position = sp, dcc = d\<rparr>" by (cases x)
  show "deserialize_shb ar = Some (x, ar') \<longleftrightarrow> shb_ok x \<and> ar = serialize_shb x @ ar'"
    unfolding x deserialize_shb_def
    by (rule iffI, force simp: wire Option.bind_eq_Some_conv shb_ok_def serialize_shb_def)
      (auto simp: wire_put shb_ok_def serialize_shb_def)
next
  show "takes 28 deserialize_shb"
    unfolding deserialize_shb_def [abs_def] by (intro takes_fields) (simp_all add: takes_none)
qed

interpretation shb: wire_format serialize_shb deserialize_shb 28 shb_ok by (rule shb_wire)

lemma beacon_wire: "wire_format serialize_beacon deserialize_beacon 24 beacon_ok"
proof (rule wire_formatI)
  fix x show "length (serialize_beacon x) = 24" by (simp add: serialize_beacon_def wire)
next
  fix ar ar' and x :: BeaconHeader
  obtain sp where x: "x = \<lparr>beacon_source_position = sp\<rparr>" by (cases x)
  show "deserialize_beacon ar = Some (x, ar') \<longleftrightarrow> beacon_ok x \<and> ar = serialize_beacon x @ ar'"
    unfolding x deserialize_beacon_def by (auto simp: wire Option.bind_eq_Some_conv beacon_ok_def serialize_beacon_def)
next
  show "takes 24 deserialize_beacon"
    unfolding deserialize_beacon_def [abs_def] by (intro takes_fields) (simp_all add: takes_none)
qed

interpretation beacon: wire_format serialize_beacon deserialize_beacon 24 beacon_ok by (rule beacon_wire)

lemma gbc_wire: "wire_format serialize_gbc deserialize_gbc 44 gbc_ok"
proof (rule wire_formatI)
  fix x show "length (serialize_gbc x) = 44" by (simp add: serialize_gbc_def wire)
next
  fix ar ar' and x :: GbcGacHeader
  show "deserialize_gbc ar = Some (x, ar') \<longleftrightarrow> gbc_ok x \<and> ar = serialize_gbc x @ ar'"
    unfolding deserialize_gbc_def
    by (rule iffI, force simp: wire Option.bind_eq_Some_conv gbc_ok_def serialize_gbc_def)
      (simp add: wire_put gbc_ok_def serialize_gbc_def)
next
  show "takes 44 deserialize_gbc"
    unfolding deserialize_gbc_def [abs_def] by (intro takes_fields) (simp_all add: takes_none)
qed

interpretation gbc: wire_format serialize_gbc deserialize_gbc 44 gbc_ok by (rule gbc_wire)

text \<open>The octets of a DCC field set by its components give the components back.\<close>

lemma dcc_mco_roundtrip: "DccMcoField_of (DccMcoField_raw mco) = mco"
proof -
  have "ucast (drop_bit 24 (DccMcoField_raw mco)) = m_cbr_l0_hop mco"
    "ucast (drop_bit 16 (DccMcoField_raw mco)) = m_cbr_l1_hop mco"
    "ucast (drop_bit 11 (DccMcoField_raw mco)) = m_output_power mco"
    by (rule bit_word_eqI; auto simp: DccMcoField_raw_def Let_def bit_simps dest: bit_imp_le_length)+
  then show ?thesis by (simp add: DccMcoField_of_def)
qed

section \<open>Packets\<close>

datatype HeaderVariant = Beacon_Header BeaconHeader | Gbc_Header GbcGacHeader | Shb_Header ShbHeader

definition HT_Any :: "8 word" where "HT_Any = 0x00"
definition HT_Beacon :: "8 word" where "HT_Beacon = 0x10"
definition HT_GeoBroadcast_Circle :: "8 word" where "HT_GeoBroadcast_Circle = 0x40"
definition HT_GeoBroadcast_Rect :: "8 word" where "HT_GeoBroadcast_Rect = 0x41"
definition HT_GeoBroadcast_Elip :: "8 word" where "HT_GeoBroadcast_Elip = 0x42"
definition HT_TSB_Single_Hop :: "8 word" where "HT_TSB_Single_Hop = 0x50"

lemmas header_types = HT_Any_def HT_Beacon_def HT_GeoBroadcast_Circle_def HT_GeoBroadcast_Rect_def
  HT_GeoBroadcast_Elip_def HT_TSB_Single_Hop_def

fun serialize_variant :: "HeaderVariant \<Rightarrow> byte list" where
  "serialize_variant (Beacon_Header h) = serialize_beacon h"
| "serialize_variant (Gbc_Header h) = serialize_gbc h"
| "serialize_variant (Shb_Header h) = serialize_shb h"

fun variant_length :: "HeaderVariant \<Rightarrow> nat" where
  "variant_length (Beacon_Header h) = 24"
| "variant_length (Gbc_Header h) = 20 + 24"
| "variant_length (Shb_Header h) = 4 + 24"

record 's Pdu =
  basic :: BasicHeader
  common :: CommonHeader
  extended :: HeaderVariant
  secured :: "'s option"

definition serialize_pdu :: "('s \<Rightarrow> byte list) \<Rightarrow> 's Pdu \<Rightarrow> byte list" where
  "serialize_pdu serialize_secured pdu =
     serialize_basic (basic pdu) @
     (case secured pdu of Some smsg \<Rightarrow> serialize_secured smsg
      | None \<Rightarrow> serialize_common (common pdu) @ serialize_variant (extended pdu))"

definition pdu_length :: "('s \<Rightarrow> nat) \<Rightarrow> 's Pdu \<Rightarrow> nat" where
  "pdu_length get_size pdu =
     4 + (case secured pdu of Some smsg \<Rightarrow> get_size smsg | None \<Rightarrow> 8 + variant_length (extended pdu))"

section \<open>The parser\<close>

text \<open>
  The parser reads from one archive and counts the octets of the headers it has completed.
  A read that throws has taken all that was left.
\<close>

record Parser =
  m_archive :: "byte list"
  m_read_bytes :: nat

definition new_parser :: "byte list \<Rightarrow> Parser" where
  "new_parser buf = \<lparr>m_archive = buf, m_read_bytes = 0\<rparr>"

definition parse_with :: "'a reader \<Rightarrow> nat \<Rightarrow> Parser \<Rightarrow> 'a option \<times> Parser" where
  "parse_with get len p =
     (case get (m_archive p) of
        Some (h, ar) \<Rightarrow> (Some h, p\<lparr>m_archive := ar, m_read_bytes := m_read_bytes p + len\<rparr>)
      | None \<Rightarrow> (None, p\<lparr>m_archive := []\<rparr>))"

definition parse_basic :: "Parser \<Rightarrow> BasicHeader option \<times> Parser" where
  "parse_basic = parse_with deserialize_basic 4"

definition parse_common :: "Parser \<Rightarrow> CommonHeader option \<times> Parser" where
  "parse_common = parse_with deserialize_common 8"

definition parse_extended :: "8 word \<Rightarrow> Parser \<Rightarrow> HeaderVariant option \<times> Parser" where
  "parse_extended ht p =
     (if ht = HT_TSB_Single_Hop then
        (case parse_with deserialize_shb 28 p of (h, p') \<Rightarrow> (map_option Shb_Header h, p'))
      else if ht = HT_GeoBroadcast_Circle \<or> ht = HT_GeoBroadcast_Rect \<or> ht = HT_GeoBroadcast_Elip then
        (case parse_with deserialize_gbc 44 p of (h, p') \<Rightarrow> (map_option Gbc_Header h, p'))
      else if ht = HT_Beacon then
        (case parse_with deserialize_beacon 24 p of (h, p') \<Rightarrow> (map_option Beacon_Header h, p'))
      else (None, p))"

fun variant_ok :: "8 word \<Rightarrow> HeaderVariant \<Rightarrow> bool" where
  "variant_ok ht (Beacon_Header h) \<longleftrightarrow> ht = HT_Beacon \<and> beacon_ok h"
| "variant_ok ht (Gbc_Header h) \<longleftrightarrow> ht \<in> {HT_GeoBroadcast_Circle, HT_GeoBroadcast_Rect, HT_GeoBroadcast_Elip} \<and> gbc_ok h"
| "variant_ok ht (Shb_Header h) \<longleftrightarrow> ht = HT_TSB_Single_Hop \<and> shb_ok h"

definition pdu_ok :: "'s Pdu \<Rightarrow> bool" where
  "pdu_ok pdu \<longleftrightarrow> basic_ok (basic pdu) \<and> common_ok (common pdu) \<and> variant_ok (header_type (common pdu)) (extended pdu)"

text \<open>The router's sequence of parser calls for a packet that is not secured.\<close>

definition parse_headers :: "byte list \<Rightarrow> (BasicHeader \<times> CommonHeader \<times> HeaderVariant \<times> nat \<times> byte list) option" where
  "parse_headers buf =
     (case parse_basic (new_parser buf) of (None, p) \<Rightarrow> None
      | (Some b, p) \<Rightarrow> (case parse_common p of (None, p) \<Rightarrow> None
      | (Some c, p) \<Rightarrow> (case parse_extended (header_type c) p of (None, p) \<Rightarrow> None
      | (Some e, p) \<Rightarrow> Some (b, c, e, m_read_bytes p, m_archive p))))"

lemma parse_with_iff:
  assumes "wire_format put get len ok"
  shows "parse_with get len p = (Some h, p') \<longleftrightarrow>
    ok h \<and> m_archive p = put h @ m_archive p' \<and> p' = p\<lparr>m_archive := m_archive p', m_read_bytes := m_read_bytes p + len\<rparr>"
proof -
  have "parse_with get len p = (Some h, p') \<longleftrightarrow>
      get (m_archive p) = Some (h, m_archive p') \<and> p' = p\<lparr>m_archive := m_archive p', m_read_bytes := m_read_bytes p + len\<rparr>"
    by (cases p; cases p') (auto simp: parse_with_def split: option.splits)
  then show ?thesis by (simp only: wire_format.get_iff [OF assms] conj_assoc)
qed

lemma map_header_iff: "(case m of (h, q) \<Rightarrow> (map_option f h, q)) = (Some e, p') \<longleftrightarrow> (\<exists>h. m = (Some h, p') \<and> e = f h)"
  by (cases m) auto

lemma variant_length_serialize: "length (serialize_variant e) = variant_length e"
  by (cases e) (simp_all add: beacon.length_put gbc.length_put shb.length_put)

lemma parse_extended_iff:
  "parse_extended ht p = (Some e, p') \<longleftrightarrow>
    variant_ok ht e \<and> m_archive p = serialize_variant e @ m_archive p' \<and>
    p' = p\<lparr>m_archive := m_archive p', m_read_bytes := m_read_bytes p + variant_length e\<rparr>"
  by (cases e) (auto simp: parse_extended_def header_types map_header_iff
    parse_with_iff [OF shb_wire] parse_with_iff [OF gbc_wire] parse_with_iff [OF beacon_wire] split: if_split)

section \<open>What the parser accepts\<close>

lemma parse_headers_iff:
  "parse_headers buf = Some (b, c, e, n, rest) \<longleftrightarrow>
    basic_ok b \<and> common_ok c \<and> variant_ok (header_type c) e \<and> n = 12 + variant_length e \<and>
    buf = serialize_basic b @ serialize_common c @ serialize_variant e @ rest"
proof -
  have "parse_headers buf = Some (b, c, e, n, rest) \<longleftrightarrow>
    (\<exists>p1 p2 p3. parse_basic (new_parser buf) = (Some b, p1) \<and> parse_common p1 = (Some c, p2) \<and>
      parse_extended (header_type c) p2 = (Some e, p3) \<and> n = m_read_bytes p3 \<and> rest = m_archive p3)"
    by (auto simp: parse_headers_def split: prod.split option.split)
  also have "\<dots> \<longleftrightarrow> basic_ok b \<and> common_ok c \<and> variant_ok (header_type c) e \<and> n = 12 + variant_length e \<and>
    buf = serialize_basic b @ serialize_common c @ serialize_variant e @ rest" (is "?l \<longleftrightarrow> ?r")
  proof
    assume ?l
    then show ?r
      unfolding parse_basic_def parse_common_def parse_with_iff [OF basic_wire] parse_with_iff [OF common_wire] parse_extended_iff
      by (auto simp: new_parser_def) (metis Parser.select_convs(2) Parser.surjective Parser.update_convs(1,2) add.commute add.left_commute numeral_plus_numeral)+
  next
    assume r: ?r
    let ?p1 = "\<lparr>m_archive = serialize_common c @ serialize_variant e @ rest, m_read_bytes = 4\<rparr>"
    let ?p2 = "\<lparr>m_archive = serialize_variant e @ rest, m_read_bytes = 12\<rparr>"
    let ?p3 = "\<lparr>m_archive = rest, m_read_bytes = 12 + variant_length e\<rparr>"
    have "parse_basic (new_parser buf) = (Some b, ?p1) \<and> parse_common ?p1 = (Some c, ?p2) \<and> parse_extended (header_type c) ?p2 = (Some e, ?p3)"
      unfolding parse_basic_def parse_common_def parse_with_iff [OF basic_wire] parse_with_iff [OF common_wire] parse_extended_iff
      using r by (simp add: new_parser_def)
    then show ?l using r by (intro exI [of _ ?p1] exI [of _ ?p2] exI [of _ ?p3]) simp
  qed
  finally show ?thesis .
qed

text \<open>
  C26: the parser accepts exactly what the serializer writes. A received octet string
  parses to the headers b, c, e with n octets read exactly when these are well-formed
  headers of matching types and the string is their serialization as a packet followed by
  the rest, and n is the length of the packet's headers; so parsing is the inverse of
  serialization and no two packets have the same octets.
\<close>

theorem parse_headers_exact:
  "parse_headers buf = Some (b, c, e, n, rest) \<longleftrightarrow>
    (let pdu = \<lparr>basic = b, common = c, extended = e, secured = None\<rparr>
     in pdu_ok pdu \<and> buf = serialize_pdu ss pdu @ rest \<and> n = pdu_length gs pdu)"
  by (simp add: parse_headers_iff Let_def pdu_ok_def serialize_pdu_def pdu_length_def conj_ac)

text \<open>
  Forwarding touches one octet. A packet that was parsed and is written again with its
  hop limit lowered by one, as the router does for every packet it forwards, is the received
  packet with its fourth octet lowered by one.
\<close>

theorem forwarding_changes_hop_limit_only:
  assumes "parse_headers buf = Some (b, c, e, n, rest)"
  shows "serialize_pdu ss \<lparr>basic = b\<lparr>hop_limit := hop_limit b - 1\<rparr>, common = c, extended = e, secured = None\<rparr> @ rest =
    buf[3 := buf ! 3 - 1]"
proof -
  have buf: "buf = serialize_basic b @ serialize_common c @ serialize_variant e @ rest"
    using assms by (simp add: parse_headers_iff)
  have int: "serialize_int (v :: 8 word) = [v]" for v by (simp add: serialize_int_def save_binary_def)
  have "serialize_basic (b\<lparr>hop_limit := hop_limit b - 1\<rparr>) = (serialize_basic b)[3 := serialize_basic b ! 3 - 1]"
    by (simp add: serialize_basic_def Let_def int)
  then show ?thesis unfolding serialize_pdu_def buf
    using basic.length_put [of b] by (simp add: list_update_append nth_append)
qed

definition example_lpv :: LongPositionVector where
  "example_lpv = \<lparr>gn_addr = \<lparr>m_manually_configured = True, m_station_type = 5, m_country_code = 49, m_mid = MacAddress 2 0 0 0 0 1\<rparr>,
     timestamp = 0x11223344, latitude = 484000000, longitude = - 87000000, position_accuracy_indicator = True, speed = 1389, heading = 900\<rparr>"

definition example_beacon :: "byte list" where
  "example_beacon = serialize_pdu (\<lambda>_. [])
     \<lparr>basic = \<lparr>version = 1, basic_next_header = Basic_Common, basic_reserved = 0, lifetime = 0x1a, hop_limit = 3\<rparr>,
      common = \<lparr>common_next_header = 0, reserved1 = 0, header_type = HT_Beacon, traffic_class = 0, flags = 0x80, payload = 0, maximum_hop_limit = 3, reserved2 = 0\<rparr>,
      extended = Beacon_Header \<lparr>beacon_source_position = example_lpv\<rparr>, secured = None :: unit option\<rparr>"

theorem forwarding_changes_hop_limit_only_witness:
  "\<exists>b c e n. parse_headers example_beacon = Some (b, c, e, n, []) \<and>
     serialize_pdu (\<lambda>_ :: unit. []) \<lparr>basic = b\<lparr>hop_limit := hop_limit b - 1\<rparr>, common = c, extended = e, secured = None\<rparr> @ [] =
     example_beacon[3 := 2] \<and> example_beacon ! 3 = 3"
proof -
  let ?b = "\<lparr>version = 1, basic_next_header = Basic_Common, basic_reserved = 0, lifetime = 0x1a, hop_limit = 3\<rparr>"
  let ?c = "\<lparr>common_next_header = 0, reserved1 = 0, header_type = HT_Beacon, traffic_class = 0, flags = 0x80, payload = 0, maximum_hop_limit = 3, reserved2 = 0\<rparr>"
  let ?e = "Beacon_Header \<lparr>beacon_source_position = example_lpv\<rparr>"
  have parsed: "parse_headers example_beacon = Some (?b, ?c, ?e, 36, [])"
    unfolding parse_headers_iff by (simp add: example_beacon_def serialize_pdu_def example_lpv_def basic_ok_def common_ok_def
      beacon_ok_def lpv_ok_def address_ok_def Basic_Common_def HT_Beacon_def)
  moreover have "example_beacon ! 3 = 3"
    by (simp add: example_beacon_def serialize_pdu_def serialize_basic_def serialize_int_def save_binary_def Let_def)
  ultimately show ?thesis using forwarding_changes_hop_limit_only [OF parsed, of "\<lambda>_ :: unit. []"] by auto
qed

end
