(* ===== verification/Gn_Values.thy ===== *)
theory Gn_Values
  imports Gn_Headers Complex_Main
begin

text \<open>
  The small value types of GeoNetworking: time stamps and sequence numbers, which wrap
  around and are compared on the circle, traffic classes, and packet lifetimes. A duration is
  a rational number of seconds; the rounding of the floating point operations of
  \<open>lifetime.cpp\<close> is not modelled.
\<close>

section \<open>Numbers on a circle\<close>

definition is_greater :: "Timestamp \<Rightarrow> Timestamp \<Rightarrow> bool" where
  "is_greater lhs rhs \<longleftrightarrow>
     (lhs > rhs \<and> lhs - rhs \<le> 0x7fffffff) \<or> (rhs > lhs \<and> rhs - lhs > 0x7fffffff)"

definition timestamp_less :: "Timestamp \<Rightarrow> Timestamp \<Rightarrow> bool" where
  "timestamp_less lhs rhs \<longleftrightarrow> \<not> is_greater lhs rhs \<and> lhs \<noteq> rhs"

type_synonym SequenceNumber = "16 word"

text \<open>The operands are promoted to \<open>int\<close>, so the differences are exact.\<close>

definition sequence_less :: "SequenceNumber \<Rightarrow> SequenceNumber \<Rightarrow> bool" where
  "sequence_less this other \<longleftrightarrow>
     (other > this \<and> uint other - uint this \<le> 32767) \<or> (this > other \<and> uint this - uint other > 32767)"

definition sequence_post_increment :: "SequenceNumber \<Rightarrow> SequenceNumber \<times> SequenceNumber" where
  "sequence_post_increment sn = (sn, sn + 1)"

lemma uint_minus_cases:
  "uint (x - y) = (if uint y \<le> uint x then uint x - uint y else uint x - uint y + 2 ^ LENGTH('a))" for x y :: "'a::len word"
proof (cases "uint y \<le> uint x")
  case True
  then show ?thesis by (simp add: uint_sub_if_size word_size)
next
  case False
  then show ?thesis by (simp add: uint_sub_if_size word_size)
qed

lemma timestamp_less_iff:
  "timestamp_less x y \<longleftrightarrow> (0 < uint (y - x) \<and> uint (y - x) < 2 ^ 31) \<or> (uint (y - x) = 2 ^ 31 \<and> x > y)"
  using uint_minus_cases [of x y] uint_minus_cases [of y x] uint_bounded [of x] uint_bounded [of y]
  by (auto simp: timestamp_less_def is_greater_def word_less_def word_le_def word_uint_eq_iff split: if_splits)
    (use uint_ge_0 [of x] uint_ge_0 [of y] in linarith)+

lemma sequence_less_iff:
  "sequence_less x y \<longleftrightarrow> (0 < uint (y - x) \<and> uint (y - x) < 2 ^ 15) \<or> (uint (y - x) = 2 ^ 15 \<and> x > y)"
  using uint_minus_cases [of x y] uint_minus_cases [of y x] uint_bounded [of x] uint_bounded [of y]
  by (auto simp: sequence_less_def word_less_def word_uint_eq_iff split: if_splits)
    (use uint_ge_0 [of x] uint_ge_0 [of y] in linarith)+

lemma timestamp_asym: "x \<noteq> y \<Longrightarrow> timestamp_less x y \<longleftrightarrow> \<not> timestamp_less y x"
  using uint_minus_cases [of x y] uint_minus_cases [of y x] uint_bounded [of x] uint_bounded [of y]
  by (auto simp: timestamp_less_iff word_less_def word_uint_eq_iff split: if_splits)
    (use uint_ge_0 [of x] uint_ge_0 [of y] in linarith)+

lemma sequence_asym: "x \<noteq> y \<Longrightarrow> sequence_less x y \<longleftrightarrow> \<not> sequence_less y x"
  using uint_minus_cases [of x y] uint_minus_cases [of y x] uint_bounded [of x] uint_bounded [of y]
  by (auto simp: sequence_less_iff word_less_def word_uint_eq_iff split: if_splits)
    (use uint_ge_0 [of x] uint_ge_0 [of y] in linarith)+

text \<open>
  Time stamps and sequence numbers are ordered on the circle. Of two different ones
  exactly one is the smaller, and one advanced by less than half of the range is always the
  greater, also across the wrap-around of the counter.
\<close>

theorem circular_order:
  "(x \<noteq> y \<longrightarrow> (timestamp_less x y \<longleftrightarrow> \<not> timestamp_less y x)) \<and> \<not> timestamp_less x x \<and>
   (0 < d \<and> d < 2 ^ 31 \<longrightarrow> timestamp_less x (x + d)) \<and>
   (m \<noteq> n \<longrightarrow> (sequence_less m n \<longleftrightarrow> \<not> sequence_less n m)) \<and> \<not> sequence_less m m \<and>
   (0 < k \<and> k < 2 ^ 15 \<longrightarrow> sequence_less m (m + k))"
proof -
  have half: "0 < uint d \<and> uint d < 2 ^ 31" if "0 < d" "d < 2 ^ 31" for d :: "32 word"
    using that by (simp add: word_less_def)
  have half': "0 < uint k \<and> uint k < 2 ^ 15" if "0 < k" "k < 2 ^ 15" for k :: "16 word"
    using that by (simp add: word_less_def)
  show ?thesis
    using half half' timestamp_asym [of x y] sequence_asym [of m n] by (simp add: timestamp_less_iff sequence_less_iff)
qed

theorem circular_order_witness:
  "timestamp_less 0xfffffff0 (0xfffffff0 + 32) \<and> (timestamp_less 0xfffffff0 16 \<longleftrightarrow> \<not> timestamp_less 16 0xfffffff0) \<and>
   sequence_less 65535 (65535 + 1)"
  using circular_order [of "0xfffffff0" 16 32 65535 0 1] by simp

section \<open>Lifetimes\<close>

definition lround :: "rat \<Rightarrow> int" where
  "lround x = (if 0 \<le> x then \<lfloor>x + 1 / 2\<rfloor> else - \<lfloor>- x + 1 / 2\<rfloor>)"

definition Lifetime_set :: "8 word \<Rightarrow> 6 word \<Rightarrow> 8 word" where
  "Lifetime_set lbase multiplier = push_bit 2 (ucast multiplier) OR (lbase AND 0x03)"

text \<open>The result of \<open>lround\<close> is a \<open>long\<close> that is converted to \<open>uint8_t\<close> and masked to six bits.\<close>

definition Lifetime_encode :: "rat \<Rightarrow> 8 word" where
  "Lifetime_encode seconds =
     (if 630 \<le> seconds then Lifetime_set 3 (ucast (word_of_int (lround (seconds / 100)) :: 8 word))
      else if 63 \<le> seconds then Lifetime_set 2 (ucast (word_of_int (lround (seconds / 10)) :: 8 word))
      else if 315 / 100 \<le> seconds then Lifetime_set 1 (ucast (word_of_int (lround seconds) :: 8 word))
      else Lifetime_set 0 (ucast (word_of_int (lround (seconds / (5 / 100))) :: 8 word)))"

text \<open>The switch has a case for every value of the two bits; its default never runs.\<close>

definition lifetime_unit :: "8 word \<Rightarrow> rat" where
  "lifetime_unit lbase = (if lbase = 0 then 5 / 100 else if lbase = 1 then 1 else if lbase = 2 then 10 else 100)"

definition Lifetime_decode :: "8 word \<Rightarrow> rat" where
  "Lifetime_decode m_lifetime =
     (let lbase = m_lifetime AND 0x03; multiplier = rat_of_nat (unat (drop_bit 2 (m_lifetime AND 0xFC)))
      in multiplier * lifetime_unit lbase)"

lemma low_two_bits: "bit (3 :: int) n \<longleftrightarrow> n < 2" "bit (252 :: int) n \<longleftrightarrow> 2 \<le> n \<and> n < 8" "bit (63 :: int) n \<longleftrightarrow> n < 6"
proof -
  have masks: "(3 :: int) = mask 2" "(252 :: int) = push_bit 2 (mask 6)" "(63 :: int) = mask 6" by (simp_all add: mask_eq_exp_minus_1 push_bit_eq_mult)
  show "bit (3 :: int) n \<longleftrightarrow> n < 2" "bit (252 :: int) n \<longleftrightarrow> 2 \<le> n \<and> n < 8" "bit (63 :: int) n \<longleftrightarrow> n < 6"
    unfolding masks bit_push_bit_iff bit_mask_iff by auto
qed

lemma decode_set: "Lifetime_decode (Lifetime_set lbase m) = of_nat (unat m) * lifetime_unit (lbase AND 3)"
proof -
  have "Lifetime_set lbase m AND 3 = lbase AND 3"
    by (rule bit_word_eqI) (auto simp: Lifetime_set_def bit_simps low_two_bits)
  moreover have "drop_bit 2 (Lifetime_set lbase m AND 252) = (ucast m :: 8 word)"
    by (rule bit_word_eqI) (auto simp: Lifetime_set_def bit_simps low_two_bits dest: bit_imp_le_length)
  moreover have "unat (ucast m :: 8 word) = unat m" by (simp add: unsigned_ucast_eq take_bit_nat_eq_self_iff order_less_trans [OF unsigned_less])
  ultimately show ?thesis by (simp add: Lifetime_decode_def Let_def)
qed

lemma multiplier_small: "0 \<le> k \<Longrightarrow> k < 64 \<Longrightarrow> unat (ucast (word_of_int k :: 8 word) :: 6 word) = nat k"
proof -
  assume k: "0 \<le> k" "k < 64"
  then have "unat (word_of_int k :: 8 word) = nat k" by (simp add: unsigned_of_int take_bit_int_eq_self)
  then show ?thesis using k by (simp add: unsigned_ucast_eq take_bit_nat_eq_self_iff)
qed

lemma lround_bounds: "0 \<le> x \<Longrightarrow> \<bar>of_int (lround x) - x\<bar> \<le> 1 / 2 \<and> 0 \<le> lround x"
proof -
  assume x: "0 \<le> x"
  have "of_int \<lfloor>x + 1 / 2\<rfloor> \<le> x + 1 / 2" "x + 1 / 2 < of_int \<lfloor>x + 1 / 2\<rfloor> + 1" by linarith+
  then have "\<bar>of_int \<lfloor>x + 1 / 2\<rfloor> - x\<bar> \<le> 1 / 2" unfolding abs_le_iff by linarith
  moreover have "0 \<le> \<lfloor>x + 1 / 2\<rfloor>" using x by simp
  ultimately show ?thesis using x by (simp only: lround_def if_True)
qed

lemma encode_step:
  assumes "0 \<le> x" "x < 127 / 2"
  shows "Lifetime_decode (Lifetime_set lbase (ucast (word_of_int (lround x) :: 8 word))) = of_int (lround x) * lifetime_unit (lbase AND 3)"
proof -
  have "0 \<le> lround x" using lround_bounds [OF assms(1)] by blast
  moreover have "lround x < 64" using assms unfolding lround_def by (simp add: floor_less_iff)
  ultimately show ?thesis using multiplier_small [of "lround x"] by (simp add: decode_set)
qed

text \<open>
  A lifetime is stored with half a unit of accuracy. For every duration below 6350 s the
  stored value decodes to a duration that differs by at most half of the unit chosen, which
  is 50 ms, 1 s, 10 s or 100 s by the size of the duration.
\<close>

theorem lifetime_accuracy:
  assumes "0 \<le> s" "s < 6350"
  shows "\<bar>Lifetime_decode (Lifetime_encode s) - s\<bar> \<le> (if 630 \<le> s then 100 else if 63 \<le> s then 10 else if 315 / 100 \<le> s then 1 else 5 / 100) / 2"
proof -
  have scaled: "\<bar>of_int (lround (s / u)) * u - s\<bar> \<le> u / 2" if "0 < u" for u
  proof -
    have "\<bar>of_int (lround (s / u)) - s / u\<bar> * u \<le> 1 / 2 * u"
      using lround_bounds [of "s / u"] assms(1) that by (intro mult_right_mono) auto
    moreover have "of_int (lround (s / u)) * u - s = (of_int (lround (s / u)) - s / u) * u"
      using that by (simp add: left_diff_distrib)
    ultimately show ?thesis using that by (simp add: abs_mult)
  qed
  have step: "Lifetime_decode (Lifetime_set lbase (ucast (word_of_int (lround (s / u)) :: 8 word))) = of_int (lround (s / u)) * lifetime_unit (lbase AND 3)"
    if "0 < u" "s < 127 / 2 * u" for u lbase
    using that assms(1) by (intro encode_step) (simp_all add: pos_divide_less_eq)
  consider "630 \<le> s" | "63 \<le> s" "s < 630" | "315 / 100 \<le> s" "s < 63" | "s < 315 / 100" by linarith
  then show ?thesis
  proof cases
    case 1
    then show ?thesis using step [of 100 3] scaled [of 100] assms(2) by (simp add: Lifetime_encode_def lifetime_unit_def)
  next
    case 2
    then show ?thesis using step [of 10 2] scaled [of 10] by (simp add: Lifetime_encode_def lifetime_unit_def)
  next
    case 3
    then show ?thesis using step [of 1 1] scaled [of 1] by (simp add: Lifetime_encode_def lifetime_unit_def)
  next
    case 4
    then have "Lifetime_decode (Lifetime_encode s) = of_int (lround (s * 20)) / 20"
      using step [of "5 / 100" 0] by (simp add: Lifetime_encode_def lifetime_unit_def field_simps)
    with 4 scaled [of "5 / 100"] show ?thesis by (simp only: ) simp
  qed
qed

theorem lifetime_accuracy_witness: "\<bar>Lifetime_decode (Lifetime_encode 47) - 47\<bar> \<le> 1 / 2"
  using lifetime_accuracy [of 47] by simp

lemma lround_nat: "lround (of_nat k) = int k"
  by (simp add: lround_def floor_eq_iff)

lemma lround_values: "lround (63 / 20) = 3" "lround (63 / 10) = 6"
  by (simp_all add: lround_def floor_eq_iff)

lemma decode_rounded:
  "lround x = int k \<Longrightarrow> k < 64 \<Longrightarrow>
   Lifetime_decode (Lifetime_set lbase (ucast (word_of_int (lround x) :: 8 word))) = of_nat k * lifetime_unit (lbase AND 3)"
  using multiplier_small [of "int k"] by (simp add: decode_set)

lemma recode_fifty_ms:
  assumes "m < 64"
  shows "Lifetime_decode (Lifetime_encode (of_nat m * (5 / 100))) = of_nat m * (5 / 100) \<longleftrightarrow> m \<noteq> 63"
proof (cases "m = 63")
  case True
  then have "Lifetime_encode (of_nat m * (5 / 100)) = Lifetime_set 1 (ucast (word_of_int (lround (315 / 100)) :: 8 word))"
    by (simp add: Lifetime_encode_def)
  then show ?thesis using True decode_rounded [of "315 / 100" 3 1] by (simp add: lround_values lifetime_unit_def)
next
  case False
  then have "Lifetime_encode (of_nat m * (5 / 100)) = Lifetime_set 0 (ucast (word_of_int (lround (of_nat m)) :: 8 word))"
    using assms by (simp add: Lifetime_encode_def)
  then show ?thesis using False assms decode_rounded [of "of_nat m" m 0] by (simp add: lround_nat lifetime_unit_def)
qed

lemma recode_second:
  assumes "m < 64"
  shows "Lifetime_decode (Lifetime_encode (of_nat m)) = of_nat m \<longleftrightarrow> m \<noteq> 63"
proof -
  consider "m = 63" | "m \<le> 3" | "4 \<le> m" "m < 63" using assms by linarith
  then show ?thesis
  proof cases
    case 1
    then have "Lifetime_encode (of_nat m) = Lifetime_set 2 (ucast (word_of_int (lround (63 / 10)) :: 8 word))"
      by (simp add: Lifetime_encode_def)
    then show ?thesis using 1 decode_rounded [of "63 / 10" 6 2] by (simp add: lround_values lifetime_unit_def)
  next
    case 2
    then have "Lifetime_encode (of_nat m) = Lifetime_set 0 (ucast (word_of_int (lround (of_nat (20 * m))) :: 8 word))"
      by (simp add: Lifetime_encode_def mult.commute)
    then show ?thesis using 2 decode_rounded [of "of_nat (20 * m)" "20 * m" 0] lround_nat [of "20 * m"] by (simp add: lifetime_unit_def)
  next
    case 3
    then have "Lifetime_encode (of_nat m) = Lifetime_set 1 (ucast (word_of_int (lround (of_nat m)) :: 8 word))"
      by (simp add: Lifetime_encode_def)
    then show ?thesis using 3 decode_rounded [of "of_nat m" m 1] by (simp add: lround_nat lifetime_unit_def)
  qed
qed

lemma recode_ten_seconds:
  assumes "m < 64"
  shows "Lifetime_decode (Lifetime_encode (of_nat m * 10)) = of_nat m * 10 \<longleftrightarrow> m \<noteq> 63"
proof -
  consider "m = 63" | "m = 0" | "1 \<le> m" "m \<le> 6" | "7 \<le> m" "m < 63" using assms by linarith
  then show ?thesis
  proof cases
    case 1
    then have "Lifetime_encode (of_nat m * 10) = Lifetime_set 3 (ucast (word_of_int (lround (63 / 10)) :: 8 word))"
      by (simp add: Lifetime_encode_def)
    then show ?thesis using 1 decode_rounded [of "63 / 10" 6 3] by (simp add: lround_values lifetime_unit_def)
  next
    case 2
    then show ?thesis using recode_second [of 0] by simp
  next
    case 3
    then have "Lifetime_encode (of_nat m * 10) = Lifetime_set 1 (ucast (word_of_int (lround (of_nat (10 * m))) :: 8 word))"
      by (simp add: Lifetime_encode_def mult.commute)
    then show ?thesis using 3 decode_rounded [of "of_nat (10 * m)" "10 * m" 1] lround_nat [of "10 * m"] by (simp add: lifetime_unit_def)
  next
    case 4
    then have "Lifetime_encode (of_nat m * 10) = Lifetime_set 2 (ucast (word_of_int (lround (of_nat m)) :: 8 word))"
      by (simp add: Lifetime_encode_def)
    then show ?thesis using 4 decode_rounded [of "of_nat m" m 2] by (simp add: lround_nat lifetime_unit_def)
  qed
qed

lemma recode_hundred_seconds:
  assumes "m < 64"
  shows "Lifetime_decode (Lifetime_encode (of_nat m * 100)) = of_nat m * 100"
proof -
  consider "m = 0" | "1 \<le> m" "m \<le> 6" | "7 \<le> m" using assms by linarith
  then show ?thesis
  proof cases
    case 1
    then show ?thesis using recode_second [of 0] by simp
  next
    case 2
    then have "Lifetime_encode (of_nat m * 100) = Lifetime_set 2 (ucast (word_of_int (lround (of_nat (10 * m))) :: 8 word))"
      by (simp add: Lifetime_encode_def mult.commute)
    then show ?thesis using 2 decode_rounded [of "of_nat (10 * m)" "10 * m" 2] lround_nat [of "10 * m"] by (simp add: lifetime_unit_def)
  next
    case 3
    then have "Lifetime_encode (of_nat m * 100) = Lifetime_set 3 (ucast (word_of_int (lround (of_nat m)) :: 8 word))"
      by (simp add: Lifetime_encode_def)
    then show ?thesis using assms decode_rounded [of "of_nat m" m 3] by (simp add: lround_nat lifetime_unit_def)
  qed
qed

text \<open>
  A lifetime of 63 units is not kept. Encoding the decoded duration of a stored lifetime
  gives the same duration except for 63 times 50 ms, 1 s or 10 s, which the comparisons of
  \<open>Lifetime::encode\<close> hand to the next coarser unit: 3.15 s becomes 3 s, 63 s becomes
  60 s and 630 s becomes 600 s.
\<close>

theorem lifetime_recoded:
  "Lifetime_decode (Lifetime_encode (Lifetime_decode raw)) = Lifetime_decode raw \<longleftrightarrow>
   \<not> (drop_bit 2 raw = 63 \<and> raw AND 3 \<noteq> 3)"
proof -
  let ?b = "raw AND 3" and ?m = "unat (drop_bit 2 raw)"
  have raw: "raw = Lifetime_set ?b (ucast (drop_bit 2 raw))"
  proof (rule bit_word_eqI)
    fix n assume "n < LENGTH(8)"
    moreover have "Suc (Suc (n - 2)) = n" if "2 \<le> n" using that by simp
    ultimately show "bit raw n = bit (Lifetime_set ?b (ucast (drop_bit 2 raw))) n"
      by (cases "n < 2") (auto simp: Lifetime_set_def bit_simps low_two_bits)
  qed
  have bound: "unat raw < 256" using unsigned_less [of raw, where ?'a = nat] by simp
  have "?m = unat raw div 4" unfolding unat_drop_bit_eq by (simp add: drop_bit_eq_div)
  then have small: "?m < 64" using bound by linarith
  then have m: "unat (ucast (drop_bit 2 raw) :: 6 word) = ?m" "?m < 64"
    by (simp_all add: unsigned_ucast_eq take_bit_nat_eq_self_iff)
  then have dec: "Lifetime_decode raw = of_nat ?m * lifetime_unit ?b"
    using decode_set [of ?b "ucast (drop_bit 2 raw)"] raw by (metis and.right_idem)
  have top: "drop_bit 2 raw = 63 \<longleftrightarrow> ?m = 63" by (simp add: word_unat_eq_iff)
  have "?b = take_bit 2 raw" by (simp add: take_bit_eq_mask mask_eq_exp_minus_1)
  then have "unat ?b < 4" using take_bit_nat_less_exp [of 2 "unat raw"] by (simp add: unsigned_take_bit_eq)
  then consider "?b = 0" | "?b = 1" | "?b = 2" | "?b = 3" by (force simp: word_unat_eq_iff)
  then show ?thesis
  proof cases
    case 1
    then show ?thesis unfolding dec top using recode_fifty_ms [OF small] by (simp add: lifetime_unit_def)
  next
    case 2
    then show ?thesis unfolding dec top using recode_second [OF small] by (simp add: lifetime_unit_def)
  next
    case 3
    then show ?thesis unfolding dec top using recode_ten_seconds [OF small] by (simp add: lifetime_unit_def)
  next
    case 4
    then show ?thesis unfolding dec top using recode_hundred_seconds [OF small] by (simp add: lifetime_unit_def)
  qed
qed

end
