(* ===== verification/Gn_Areas.thy ===== *)
theory Gn_Areas
  imports Gn_Parser Gn_Values "HOL-Library.Log_Nat"
begin

text \<open>
  Destination areas: \<open>areas.cpp\<close>, the destination of a GeoBroadcast header of
  \<open>gbc_gac_header.cpp\<close> and \<open>gbc_header.cpp\<close>, and \<open>header_type.cpp\<close>. Coordinates are in degrees, the
  angle of an area is in radians, as in the code. The projection onto a plane and distances come
  from GeographicLib and are parameters, as are the sine, the cosine and the constants of Boost.
  The conversions of Boost.Units between floating point quantities are parameters as well, since
  each of them rounds: only the truncation to the integers of the header is the model's. What is
  asked of the conversions is the relative accuracy of floating point arithmetic (locale
  \<open>quantity_conversion\<close>), which rounding to double precision has.
\<close>

section \<open>Geometry\<close>

record GeodeticPosition =
  geo_latitude :: rat
  geo_longitude :: rat

record CartesianPosition =
  cart_x :: rat
  cart_y :: rat

datatype shape = Circle rat | Rectangle rat rat | Ellipse rat rat

record Area =
  area_shape :: shape
  area_position :: GeodeticPosition
  area_angle :: rat

text \<open>\<open>None\<close> is minus infinity.\<close>

fun geometric_function :: "shape \<Rightarrow> CartesianPosition \<Rightarrow> rat option" where
  "geometric_function (Circle r) p = (if r \<noteq> 0 then Some (1 - (cart_x p / r)\<^sup>2 - (cart_y p / r)\<^sup>2) else None)"
| "geometric_function (Rectangle a b) p = (if a \<noteq> 0 \<and> b \<noteq> 0 then Some (min (1 - (cart_x p / a)\<^sup>2) (1 - (cart_y p / b)\<^sup>2)) else None)"
| "geometric_function (Ellipse a b) p = (if a \<noteq> 0 \<and> b \<noteq> 0 then Some (1 - (cart_x p / a)\<^sup>2 - (cart_y p / b)\<^sup>2) else None)"

definition outside_shape :: "shape \<Rightarrow> CartesianPosition \<Rightarrow> bool" where
  "outside_shape s p = (case geometric_function s p of None \<Rightarrow> True | Some v \<Rightarrow> v < 0)"

text \<open>
  The code that is called with floating point quantities. The conversions give the quantity in
  the unit of the target, before it is cut to an integer: degrees to tenths of microdegrees and
  back, radians to degrees and back, degrees to tenths of degrees and metres to centimetres per
  second.
\<close>

record geodesy =
  local_cartesian :: "GeodeticPosition \<Rightarrow> GeodeticPosition \<Rightarrow> CartesianPosition"
  geo_distance :: "GeodeticPosition \<Rightarrow> GeodeticPosition \<Rightarrow> rat option"
  sin_radians :: "rat \<Rightarrow> rat"
  cos_radians :: "rat \<Rightarrow> rat"
  geo_pi :: rat
  geo_half_pi :: rat
  degrees_to_units :: "rat \<Rightarrow> rat"
  units_to_degrees :: "int \<Rightarrow> rat"
  radians_to_degrees :: "rat \<Rightarrow> rat"
  degrees_to_radians :: "nat \<Rightarrow> rat"
  degrees_to_tenths :: "rat \<Rightarrow> rat"
  speed_to_hundredths :: "rat \<Rightarrow> rat"

definition canonicalize :: "geodesy \<Rightarrow> CartesianPosition \<Rightarrow> rat \<Rightarrow> CartesianPosition" where
  "canonicalize geo p azimuth =
     (let zenith = geo_half_pi geo - azimuth; sin_z = sin_radians geo zenith; cos_z = cos_radians geo zenith
      in \<lparr>cart_x = cos_z * cart_x p + sin_z * cart_y p, cart_y = - sin_z * cart_x p + cos_z * cart_y p\<rparr>)"

definition inside_or_at_border :: "geodesy \<Rightarrow> Area \<Rightarrow> GeodeticPosition \<Rightarrow> bool" where
  "inside_or_at_border geo area pos =
     (\<not> outside_shape (area_shape area) (canonicalize geo (local_cartesian geo (area_position area) pos) (area_angle area)))"

definition area_size :: "geodesy \<Rightarrow> Area \<Rightarrow> rat" where
  "area_size geo area = (case area_shape area of Circle r \<Rightarrow> geo_pi geo * r * r | Rectangle a b \<Rightarrow> 4 * a * b | Ellipse a b \<Rightarrow> geo_pi geo * a * b)"

section \<open>Quantities of the headers\<close>

text \<open>Conversions between quantities truncate towards zero when the target counts in integers.\<close>

definition trunc :: "rat \<Rightarrow> int" where
  "trunc x = (if 0 \<le> x then \<lfloor>x\<rfloor> else \<lceil>x\<rceil>)"

definition geo_angle_of :: "geodesy \<Rightarrow> rat \<Rightarrow> 32 word" where
  "geo_angle_of geo degrees = word_of_int (trunc (degrees_to_units geo degrees))"

definition geo_angle :: "geodesy \<Rightarrow> 32 word \<Rightarrow> rat" where
  "geo_angle geo w = units_to_degrees geo (sint w)"

definition lpv_position :: "geodesy \<Rightarrow> LongPositionVector \<Rightarrow> GeodeticPosition" where
  "lpv_position geo pv = \<lparr>geo_latitude = geo_angle geo (latitude pv), geo_longitude = geo_angle geo (longitude pv)\<rparr>"

definition gbc_position :: "geodesy \<Rightarrow> GbcGacHeader \<Rightarrow> GeodeticPosition" where
  "gbc_position geo hdr = \<lparr>geo_latitude = geo_angle geo (geo_area_pos_latitude hdr), geo_longitude = geo_angle geo (geo_area_pos_longitude hdr)\<rparr>"

definition gbc_set_position :: "geodesy \<Rightarrow> GeodeticPosition \<Rightarrow> GbcGacHeader \<Rightarrow> GbcGacHeader" where
  "gbc_set_position geo pos hdr =
     hdr\<lparr>geo_area_pos_latitude := geo_angle_of geo (geo_latitude pos), geo_area_pos_longitude := geo_angle_of geo (geo_longitude pos)\<rparr>"

fun gbc_set_distance :: "shape \<Rightarrow> GbcGacHeader \<Rightarrow> GbcGacHeader" where
  "gbc_set_distance (Circle r) hdr = hdr\<lparr>distance_a := word_of_int (trunc r), distance_b := 0\<rparr>"
| "gbc_set_distance (Rectangle a b) hdr = hdr\<lparr>distance_a := word_of_int (trunc a), distance_b := word_of_int (trunc b)\<rparr>"
| "gbc_set_distance (Ellipse a b) hdr = hdr\<lparr>distance_a := word_of_int (trunc a), distance_b := word_of_int (trunc b)\<rparr>"

definition gbc_set_destination :: "geodesy \<Rightarrow> Area \<Rightarrow> GbcGacHeader \<Rightarrow> GbcGacHeader" where
  "gbc_set_destination geo area hdr =
     gbc_set_distance (area_shape area)
       ((gbc_set_position geo (area_position area) hdr)\<lparr>angle := word_of_int (trunc (radians_to_degrees geo (area_angle area)))\<rparr>)"

text \<open>\<open>None\<close> is the error that the header type is not one of GeoBroadcast.\<close>

definition gbc_get_distance :: "8 word \<Rightarrow> GbcGacHeader \<Rightarrow> shape option" where
  "gbc_get_distance ht hdr =
     (let a = of_nat (unat (distance_a hdr)); b = of_nat (unat (distance_b hdr))
      in if ht = HT_GeoBroadcast_Circle then Some (Circle a)
         else if ht = HT_GeoBroadcast_Rect then Some (Rectangle a b)
         else if ht = HT_GeoBroadcast_Elip then Some (Ellipse a b)
         else None)"

definition gbc_destination :: "geodesy \<Rightarrow> 8 word \<Rightarrow> GbcGacHeader \<Rightarrow> Area option" where
  "gbc_destination geo ht hdr =
     map_option (\<lambda>s. \<lparr>area_shape = s, area_position = gbc_position geo hdr, area_angle = degrees_to_radians geo (unat (angle hdr))\<rparr>)
       (gbc_get_distance ht hdr)"

definition gbc_header_type :: "Area \<Rightarrow> 8 word" where
  "gbc_header_type area =
     (case area_shape area of Circle _ \<Rightarrow> HT_GeoBroadcast_Circle | Rectangle _ _ \<Rightarrow> HT_GeoBroadcast_Rect | Ellipse _ _ \<Rightarrow> HT_GeoBroadcast_Elip)"

section \<open>Rounding to double precision\<close>

text \<open>
  A rational number rounded to 53 significant binary digits, ties to even. The exponent has no
  bounds here; quantities of headers are far from those of double precision.
\<close>

definition round_even :: "rat \<Rightarrow> int" where
  "round_even x = (let n = \<lfloor>x\<rfloor>; d = x - of_int n in if d < 1 / 2 \<or> d = 1 / 2 \<and> even n then n else n + 1)"

definition binade :: "rat \<Rightarrow> int" where
  "binade x = (case quotient_of \<bar>x\<bar> of (p, q) \<Rightarrow> let e = bitlen p - bitlen q in if 2 powi e \<le> \<bar>x\<bar> then e else e - 1)"

definition to_double :: "rat \<Rightarrow> rat" where
  "to_double x = (if x = 0 then 0 else of_int (round_even (x / 2 powi (binade x - 52))) * 2 powi (binade x - 52))"

lemma round_even_error: "\<bar>of_int (round_even x) - x\<bar> \<le> 1 / 2"
  unfolding round_even_def Let_def using floor_correct [of x] by (auto simp: abs_le_iff)

lemma binade_below:
  assumes "x \<noteq> 0"
  shows "2 powi binade x \<le> \<bar>x\<bar>"
proof -
  obtain p q where pq: "quotient_of \<bar>x\<bar> = (p, q)" by fastforce
  have q: "0 < q" using quotient_of_denom_pos [OF pq] .
  have x: "\<bar>x\<bar> = of_int p / of_int q" using quotient_of_div [OF pq] .
  then have "0 < rat_of_int p / of_int q" using assms by simp
  then have p: "0 < p" using q by (simp add: zero_less_divide_iff)
  then have "0 < bitlen p" "0 < bitlen q" using q by (metis bitlen_eq_zero_iff bitlen_nonneg less_le not_less)+
  then have "rat_of_int (2 ^ nat (bitlen p - 1)) = 2 powi (bitlen p - 1)" "rat_of_int (2 ^ nat (bitlen q)) = 2 powi bitlen q"
    by (simp_all add: power_int_def)
  moreover have "rat_of_int (2 ^ nat (bitlen p - 1)) \<le> of_int p" "rat_of_int q \<le> of_int (2 ^ nat (bitlen q))"
    unfolding of_int_le_iff using bitlen_bounds [OF p] bitlen_bounds [OF q] by simp_all
  ultimately have "2 powi (bitlen p - 1) / 2 powi bitlen q \<le> rat_of_int p / of_int q"
    using p q by (intro frac_le) simp_all
  then have "2 powi (bitlen p - bitlen q - 1) \<le> \<bar>x\<bar>" by (simp add: x power_int_diff power_int_add field_simps)
  then show ?thesis by (simp add: binade_def pq Let_def)
qed

lemma to_double_error: "\<bar>to_double x - x\<bar> \<le> \<bar>x\<bar> / 2 ^ 53"
proof (cases "x = 0")
  case False
  define u :: rat where "u = 2 powi (binade x - 52)"
  have u: "0 < u" by (simp add: u_def)
  have "\<bar>to_double x - x\<bar> = \<bar>of_int (round_even (x / u)) - x / u\<bar> * u"
    using u False by (simp add: to_double_def u_def [symmetric] abs_mult_pos left_diff_distrib)
  also have "\<dots> \<le> 1 / 2 * u" using u by (intro mult_right_mono round_even_error) simp
  also have "\<dots> = 2 powi binade x / 2 ^ 53" by (simp add: u_def power_int_diff)
  also have "\<dots> \<le> \<bar>x\<bar> / 2 ^ 53" using binade_below [OF False] by (intro divide_right_mono) simp_all
  finally show ?thesis .
qed (simp add: to_double_def)

section \<open>Accuracy of the conversions\<close>

locale quantity_conversion =
  fixes geo :: geodesy
  assumes to_units: "\<bar>degrees_to_units geo d - d * 10 ^ 7\<bar> \<le> \<bar>d * 10 ^ 7\<bar> / 2 ^ 50"
    and to_degrees: "\<bar>units_to_degrees geo k * 10 ^ 7 - of_int k\<bar> \<le> \<bar>of_int k\<bar> / 2 ^ 50"
    and angle_back: "\<bar>radians_to_degrees geo (degrees_to_radians geo n) - of_nat n\<bar> \<le> of_nat n / 2 ^ 50"

text \<open>A flat world, with the conversions computed in double precision.\<close>

definition double_pi :: rat where
  "double_pi = 884279719003555 / 2 ^ 48"

definition degree_factor :: rat where
  "degree_factor = to_double (180 / double_pi)"

definition radian_factor :: rat where
  "radian_factor = to_double (double_pi / 180)"

definition double_units :: "rat \<Rightarrow> rat" where
  "double_units d = to_double (d * 10 ^ 7)"

definition double_degrees :: "int \<Rightarrow> rat" where
  "double_degrees k = to_double (of_int k / 10 ^ 7)"

definition double_of_radians :: "rat \<Rightarrow> rat" where
  "double_of_radians x = to_double (x * degree_factor)"

definition double_radians :: "nat \<Rightarrow> rat" where
  "double_radians n = to_double (of_nat n * radian_factor)"

definition double_scaled :: "rat \<Rightarrow> rat \<Rightarrow> rat" where
  "double_scaled n x = to_double (x * n)"

definition flat_geodesy :: geodesy where
  "flat_geodesy = \<lparr>local_cartesian = (\<lambda>p q. \<lparr>cart_x = (geo_longitude q - geo_longitude p) * 100000, cart_y = (geo_latitude q - geo_latitude p) * 100000\<rparr>),
     geo_distance = (\<lambda>p q. Some ((\<bar>geo_longitude q - geo_longitude p\<bar> + \<bar>geo_latitude q - geo_latitude p\<bar>) * 100000)),
     sin_radians = (\<lambda>_. 0), cos_radians = (\<lambda>_. 1), geo_pi = double_pi, geo_half_pi = double_pi / 2,
     degrees_to_units = double_units, units_to_degrees = double_degrees,
     radians_to_degrees = double_of_radians, degrees_to_radians = double_radians,
     degrees_to_tenths = double_scaled 10, speed_to_hundredths = double_scaled 100\<rparr>"

lemma factors_inverse: "\<bar>radian_factor * degree_factor - 1\<bar> \<le> 1 / 2 ^ 52" "0 < radian_factor" "0 < degree_factor"
  by code_simp+

lemma errors_add:
  fixes x w v z :: rat
  assumes "\<bar>v - w\<bar> \<le> w / 2 ^ 53" "\<bar>w - x\<bar> \<le> x / 2 ^ 52" "\<bar>z - v\<bar> \<le> \<bar>v\<bar> / 2 ^ 53" "0 \<le> x"
  shows "\<bar>z - x\<bar> \<le> x / 2 ^ 50"
proof -
  define d :: rat where "d = 2 ^ 53"
  have d: "d = 9007199254740992" "2 ^ 52 = d / 2" "2 ^ 50 = d / 8" by (simp_all add: d_def)
  have "v - w \<le> w / d" "w - v \<le> w / d" using abs_le_D1 [OF assms(1)] abs_le_D2 [OF assms(1)] by (simp_all only: d_def minus_diff_eq)
  moreover have "w - x \<le> x / (d / 2)" "x - w \<le> x / (d / 2)" using abs_le_D1 [OF assms(2)] abs_le_D2 [OF assms(2)] by (simp_all only: d(2) minus_diff_eq)
  moreover have "z - v \<le> \<bar>v\<bar> / d" "v - z \<le> \<bar>v\<bar> / d" using abs_le_D1 [OF assms(3)] abs_le_D2 [OF assms(3)] by (simp_all only: d_def minus_diff_eq)
  moreover have "0 \<le> v" using calculation assms(4) unfolding d(1) by linarith
  ultimately have "z - x \<le> x / (d / 8)" "x - z \<le> x / (d / 8)" using assms(4) unfolding d(1) by (simp_all only: abs_of_nonneg)
  then show ?thesis unfolding d(3) by (intro abs_leI) (simp_all only: minus_diff_eq)
qed

lemma double_angle_back:
  assumes "0 \<le> x"
  shows "\<bar>to_double (to_double (x * radian_factor) * degree_factor) - x\<bar> \<le> x / 2 ^ 50"
proof -
  define y where "y = to_double (x * radian_factor)"
  define z where "z = to_double (y * degree_factor)"
  have "\<bar>y - x * radian_factor\<bar> \<le> x * radian_factor / 2 ^ 53"
    using to_double_error [of "x * radian_factor"] assms factors_inverse(2) by (simp add: y_def abs_mult)
  then have "\<bar>y * degree_factor - x * radian_factor * degree_factor\<bar> \<le> x * radian_factor * degree_factor / 2 ^ 53"
    using factors_inverse(3) mult_right_mono [of "\<bar>y - x * radian_factor\<bar>" "x * radian_factor / 2 ^ 53" degree_factor]
    by (simp add: abs_mult_pos left_diff_distrib)
  moreover have "\<bar>x * radian_factor * degree_factor - x\<bar> \<le> x / 2 ^ 52"
    using mult_left_mono [OF factors_inverse(1) assms] assms by (simp add: abs_mult_pos' algebra_simps)
  moreover have "\<bar>z - y * degree_factor\<bar> \<le> \<bar>y * degree_factor\<bar> / 2 ^ 53" unfolding z_def by (rule to_double_error)
  ultimately have "\<bar>z - x\<bar> \<le> x / 2 ^ 50" using assms by (rule errors_add)
  then show ?thesis by (simp add: y_def z_def)
qed

interpretation flat: quantity_conversion flat_geodesy
proof
  show "\<bar>degrees_to_units flat_geodesy d - d * 10 ^ 7\<bar> \<le> \<bar>d * 10 ^ 7\<bar> / 2 ^ 50" for d
    using to_double_error [of "d * 10 ^ 7"] by (simp add: flat_geodesy_def double_units_def)
  show "\<bar>units_to_degrees flat_geodesy k * 10 ^ 7 - of_int k\<bar> \<le> \<bar>of_int k\<bar> / 2 ^ 50" for k
    using to_double_error [of "of_int k / 10 ^ 7"] by (simp add: flat_geodesy_def double_degrees_def abs_le_iff field_simps)
  show "\<bar>radians_to_degrees flat_geodesy (degrees_to_radians flat_geodesy n) - of_nat n\<bar> \<le> of_nat n / 2 ^ 50" for n
    using double_angle_back [of "of_nat n"] by (simp add: flat_geodesy_def double_of_radians_def double_radians_def)
qed

section \<open>Laws\<close>

lemma trunc_int [simp]: "trunc (of_int k) = k" "trunc (of_nat n) = int n"
  by (simp_all add: trunc_def)

lemma trunc_floor: "0 \<le> x \<Longrightarrow> trunc x = \<lfloor>x\<rfloor>"
  by (simp add: trunc_def)

lemma trunc_error: "\<bar>of_int (trunc x) - x\<bar> < 1"
  unfolding trunc_def abs_less_iff using floor_correct [of x] ceiling_correct [of x] by (cases "0 \<le> x"; simp only: if_True if_False) linarith+

lemma trunc_bounded:
  assumes "\<bar>x\<bar> < of_int n"
  shows "\<bar>trunc x\<bar> < n"
proof (cases "0 \<le> x")
  case False
  then have "- n < \<lceil>x\<rceil>" "\<lceil>x\<rceil> \<le> 0" using assms by (simp_all add: less_ceiling_iff ceiling_le_iff)
  then show ?thesis using False by (simp add: trunc_def)
qed (use assms in \<open>simp add: trunc_def floor_less_iff\<close>)

lemma destination_None [simp]: "gbc_destination geo ht hdr = None \<longleftrightarrow> gbc_get_distance ht hdr = None"
  by (simp add: gbc_destination_def)

lemma gbc_header_types: "gbc_get_distance (gbc_header_type area) hdr \<noteq> None"
  by (cases "area_shape area")
    (simp_all add: gbc_header_type_def gbc_get_distance_def HT_GeoBroadcast_Circle_def HT_GeoBroadcast_Rect_def HT_GeoBroadcast_Elip_def)

text \<open>Areas whose numbers are in the range of the fields, and what is left of a shape.\<close>

definition in_field :: "rat \<Rightarrow> bool" where
  "in_field x \<longleftrightarrow> 0 \<le> x \<and> x < 65536"

fun shape_fits :: "shape \<Rightarrow> bool" where
  "shape_fits (Circle r) \<longleftrightarrow> in_field r"
| "shape_fits (Rectangle a b) \<longleftrightarrow> in_field a \<and> in_field b"
| "shape_fits (Ellipse a b) \<longleftrightarrow> in_field a \<and> in_field b"

definition area_fits :: "geodesy \<Rightarrow> Area \<Rightarrow> bool" where
  "area_fits geo area \<longleftrightarrow> shape_fits (area_shape area) \<and> in_field (radians_to_degrees geo (area_angle area)) \<and>
     \<bar>geo_latitude (area_position area)\<bar> \<le> 90 \<and> \<bar>geo_longitude (area_position area)\<bar> \<le> 180"

fun whole_metres :: "shape \<Rightarrow> shape" where
  "whole_metres (Circle r) = Circle (of_int \<lfloor>r\<rfloor>)"
| "whole_metres (Rectangle a b) = Rectangle (of_int \<lfloor>a\<rfloor>) (of_int \<lfloor>b\<rfloor>)"
| "whole_metres (Ellipse a b) = Ellipse (of_int \<lfloor>a\<rfloor>) (of_int \<lfloor>b\<rfloor>)"

lemma in_field_word:
  assumes "in_field x"
  shows "unat (word_of_int (trunc x) :: 16 word) = nat \<lfloor>x\<rfloor>"
proof -
  have "0 \<le> \<lfloor>x\<rfloor>" "\<lfloor>x\<rfloor> < 65536" using assms by (simp_all add: in_field_def floor_less_iff)
  then show ?thesis using assms by (simp add: in_field_def trunc_floor unat_eq_nat_uint uint_word_of_int take_bit_int_eq_self)
qed

lemma in_field_length: "in_field x \<Longrightarrow> rat_of_nat (unat (word_of_int (trunc x) :: 16 word)) = of_int \<lfloor>x\<rfloor>"
  unfolding in_field_word by (simp add: in_field_def)

lemma sint_of_int32: "\<bar>k\<bar> < 2 ^ 31 \<Longrightarrow> sint (word_of_int k :: 32 word) = k"
  using signed_take_bit_int_eq_self [of 31 k] signed_take_bit_take_bit [of 31 32 k]
  by (simp add: sint_uint uint_word_of_int take_bit_eq_mod)

lemma distance_kept:
  "shape_fits (area_shape area) \<Longrightarrow>
     gbc_get_distance (gbc_header_type area) (gbc_set_destination geo area hdr) = Some (whole_metres (area_shape area))"
  by (cases "area_shape area")
    (simp_all add: gbc_get_distance_def gbc_header_type_def gbc_set_destination_def in_field_length [simplified]
      HT_GeoBroadcast_Circle_def HT_GeoBroadcast_Rect_def HT_GeoBroadcast_Elip_def)

lemma destination_fields:
  "geo_area_pos_latitude (gbc_set_destination geo area hdr) = geo_angle_of geo (geo_latitude (area_position area))"
  "geo_area_pos_longitude (gbc_set_destination geo area hdr) = geo_angle_of geo (geo_longitude (area_position area))"
  "angle (gbc_set_destination geo area hdr) = word_of_int (trunc (radians_to_degrees geo (area_angle area)))"
  by (cases "area_shape area"; simp add: gbc_set_destination_def gbc_set_position_def)+

context quantity_conversion
begin

lemma coordinate_units: "\<bar>d\<bar> \<le> 200 \<Longrightarrow> \<bar>degrees_to_units geo d - d * 10 ^ 7\<bar> \<le> 1 / 10 ^ 5"
  using to_units [of d] by (simp add: abs_mult)

lemma coordinate_kept:
  assumes "\<bar>d\<bar> \<le> 200"
  shows "\<bar>geo_angle geo (geo_angle_of geo d) - d\<bar> < (1 + 1 / 10 ^ 4) / 10 ^ 7"
proof -
  define u k where "u = degrees_to_units geo d" and "k = trunc u"
  have u: "\<bar>u - d * 10 ^ 7\<bar> \<le> 1 / 10 ^ 5" using coordinate_units [OF assms] by (simp only: u_def)
  have "\<bar>u\<bar> \<le> \<bar>d * 10 ^ 7\<bar> + \<bar>u - d * 10 ^ 7\<bar>" by simp
  also have "\<dots> \<le> 200 * 10 ^ 7 + 1 / 10 ^ 5" using assms u by (intro add_mono) (simp_all add: abs_mult)
  finally have "\<bar>u\<bar> < of_int (2 ^ 31)" by simp
  then have k: "\<bar>k\<bar> < 2 ^ 31" unfolding k_def by (rule trunc_bounded)
  then have "\<bar>rat_of_int k\<bar> < of_int (2 ^ 31)" unfolding of_int_abs [symmetric] of_int_less_iff .
  then have "\<bar>rat_of_int k\<bar> / 2 ^ 50 \<le> 1 / 10 ^ 5" by simp
  then have "\<bar>units_to_degrees geo k * 10 ^ 7 - of_int k\<bar> \<le> 1 / 10 ^ 5" using to_degrees [of k] by linarith
  moreover have "\<bar>of_int k - u\<bar> < 1" unfolding k_def by (rule trunc_error)
  moreover have "\<bar>units_to_degrees geo k * 10 ^ 7 - d * 10 ^ 7\<bar> \<le>
      \<bar>units_to_degrees geo k * 10 ^ 7 - of_int k\<bar> + \<bar>of_int k - u\<bar> + \<bar>u - d * 10 ^ 7\<bar>" by simp
  ultimately have "\<bar>units_to_degrees geo k * 10 ^ 7 - d * 10 ^ 7\<bar> < 1 / 10 ^ 5 + 1 + 1 / 10 ^ 5" using u by linarith
  also have "\<dots> \<le> 1 + 1 / (10 :: rat) ^ 4" by simp
  finally have "\<bar>units_to_degrees geo k * 10 ^ 7 - d * 10 ^ 7\<bar> < 1 + 1 / 10 ^ 4" .
  then have "\<bar>units_to_degrees geo k - d\<bar> < (1 + 1 / 10 ^ 4) / 10 ^ 7"
    by (simp only: left_diff_distrib [symmetric] abs_mult pos_less_divide_eq) simp
  then show ?thesis using sint_of_int32 [OF k] by (simp add: geo_angle_def geo_angle_of_def u_def k_def)
qed

lemma angle_kept:
  assumes "in_field (radians_to_degrees geo x)"
  shows "- (1 / 2 ^ 34) \<le> radians_to_degrees geo x - radians_to_degrees geo (degrees_to_radians geo (nat \<lfloor>radians_to_degrees geo x\<rfloor>))"
    "radians_to_degrees geo x - radians_to_degrees geo (degrees_to_radians geo (nat \<lfloor>radians_to_degrees geo x\<rfloor>)) < 1 + 1 / 2 ^ 34"
proof -
  let ?x = "radians_to_degrees geo x" and ?n = "nat \<lfloor>radians_to_degrees geo x\<rfloor>"
  have n: "of_nat ?n \<le> ?x" "?x < of_nat ?n + 1" "?x < 65536" using assms floor_correct [of ?x] by (simp_all add: in_field_def)
  have "rat_of_nat ?n / 2 ^ 50 \<le> 1 / 2 ^ 34" using n by simp
  then have "\<bar>radians_to_degrees geo (degrees_to_radians geo ?n) - of_nat ?n\<bar> \<le> 1 / 2 ^ 34" using angle_back [of ?n] by linarith
  then show "- (1 / 2 ^ 34) \<le> ?x - radians_to_degrees geo (degrees_to_radians geo ?n)"
    "?x - radians_to_degrees geo (degrees_to_radians geo ?n) < 1 + 1 / 2 ^ 34"
    using n unfolding abs_le_iff by linarith+
qed

end

definition zero_gbc :: GbcGacHeader where
  "zero_gbc = \<lparr>sequence_number = 0, gbc_reserved1 = 0, source_position = zero_lpv, geo_area_pos_latitude = 0, geo_area_pos_longitude = 0,
     distance_a = 0, distance_b = 0, angle = 0, gbc_reserved2 = 0\<rparr>"

text \<open>
  The area a receiver reads from the header in which a sender has put its destination. What else the
  header holds does not matter.
\<close>

definition received_area :: "geodesy \<Rightarrow> geodesy \<Rightarrow> Area \<Rightarrow> Area" where
  "received_area geo_a geo_b area = the (gbc_destination geo_b (gbc_header_type area) (gbc_set_destination geo_a area zero_gbc))"

lemma destination_received:
  "gbc_destination geo_b (gbc_header_type area) (gbc_set_destination geo_a area hdr) = Some (received_area geo_a geo_b area)"
proof -
  have "gbc_get_distance ht (gbc_set_destination geo_a area hdr) = gbc_get_distance ht (gbc_set_destination geo_a area zero_gbc)" for ht
    by (cases "area_shape area") (simp_all add: gbc_get_distance_def gbc_set_destination_def)
  then have "gbc_destination geo_b ht (gbc_set_destination geo_a area hdr) = gbc_destination geo_b ht (gbc_set_destination geo_a area zero_gbc)" for ht
    by (simp add: gbc_destination_def gbc_position_def destination_fields)
  then show ?thesis unfolding received_area_def
    using gbc_header_types [of area "gbc_set_destination geo_a area zero_gbc"] by (metis destination_None option.collapse)
qed

text \<open>
  C29: what is left of a destination area after its encoding in a GeoBroadcast header. For an area
  whose numbers are in the range of the fields (distances and the angle in degrees from 0 to below
  65536, latitude and longitude of the Earth), under conversions as accurate as double
  precision, reading the header under the type that the sender derives from the shape gives
  an area of the same shape. Its distances are those of the requested area cut to whole metres, its
  coordinates are less than 1.0001 units of the header (tenths of microdegrees) away from the
  requested ones, and its angle is at most a degree smaller, up to the rounding error.
\<close>

theorem destination_roundtrip:
  assumes "quantity_conversion geo" "area_fits geo area"
  shows "\<exists>area'. gbc_destination geo (gbc_header_type area) (gbc_set_destination geo area hdr) = Some area' \<and>
    area_shape area' = whole_metres (area_shape area) \<and>
    \<bar>geo_latitude (area_position area') - geo_latitude (area_position area)\<bar> < (1 + 1 / 10 ^ 4) / 10 ^ 7 \<and>
    \<bar>geo_longitude (area_position area') - geo_longitude (area_position area)\<bar> < (1 + 1 / 10 ^ 4) / 10 ^ 7 \<and>
    - (1 / 2 ^ 34) \<le> radians_to_degrees geo (area_angle area) - radians_to_degrees geo (area_angle area') \<and>
    radians_to_degrees geo (area_angle area) - radians_to_degrees geo (area_angle area') < 1 + 1 / 2 ^ 34"
proof -
  let ?hdr = "gbc_set_destination geo area hdr"
  have fits: "shape_fits (area_shape area)" "in_field (radians_to_degrees geo (area_angle area))"
    "\<bar>geo_latitude (area_position area)\<bar> \<le> 200" "\<bar>geo_longitude (area_position area)\<bar> \<le> 200"
    using assms(2) by (simp_all add: area_fits_def)
  let ?area = "\<lparr>area_shape = whole_metres (area_shape area), area_position = gbc_position geo ?hdr,
    area_angle = degrees_to_radians geo (nat \<lfloor>radians_to_degrees geo (area_angle area)\<rfloor>)\<rparr>"
  have "gbc_destination geo (gbc_header_type area) ?hdr = Some ?area"
    using distance_kept [OF fits(1)] in_field_word [OF fits(2)] by (simp add: gbc_destination_def destination_fields)
  moreover have "gbc_position geo ?hdr = \<lparr>geo_latitude = geo_angle geo (geo_angle_of geo (geo_latitude (area_position area))),
      geo_longitude = geo_angle geo (geo_angle_of geo (geo_longitude (area_position area)))\<rparr>"
    by (simp add: gbc_position_def destination_fields)
  ultimately show ?thesis
    using quantity_conversion.coordinate_kept [OF assms(1) fits(3)] quantity_conversion.coordinate_kept [OF assms(1) fits(4)]
      quantity_conversion.angle_kept [OF assms(1) fits(2)] by (intro exI [of _ ?area]) simp
qed

definition example_area :: Area where
  "example_area = \<lparr>area_shape = Rectangle 200.5 50, area_position = \<lparr>geo_latitude = 48.7668616, geo_longitude = -11.432068\<rparr>, area_angle = double_pi / 4\<rparr>"

theorem destination_roundtrip_witness:
  "area_fits flat_geodesy example_area \<and>
   (\<exists>area'. gbc_destination flat_geodesy HT_GeoBroadcast_Rect (gbc_set_destination flat_geodesy example_area zero_gbc) = Some area' \<and>
      area_shape area' = Rectangle 200 50 \<and> \<bar>geo_latitude (area_position area') - 48.7668616\<bar> < (1 + 1 / 10 ^ 4) / 10 ^ 7)"
proof -
  have "area_fits flat_geodesy example_area" by code_simp
  moreover have "whole_metres (area_shape example_area) = Rectangle 200 50" by code_simp
  moreover have "gbc_header_type example_area = HT_GeoBroadcast_Rect" "geo_latitude (area_position example_area) = 48.7668616"
    by (simp_all add: gbc_header_type_def example_area_def)
  ultimately show ?thesis using destination_roundtrip [OF flat.quantity_conversion_axioms, of example_area zero_gbc] by metis
qed

end
