(* ===== verification/Gn_Memory.thy ===== *)
theory Gn_Memory
  imports Gn_Values "HOL-Library.While_Combinator"
begin

text \<open>
  The bounded memories of the stack: the duplicate packet list of a source
  (\<open>duplicate_packet_list.cpp\<close>), the memory of delivered broadcasts
  (\<open>gbc_memory.cpp\<close>) and the least recently used cache (\<open>lru_cache.hpp\<close>). The
  Boost containers they are built on are parameters with the documented behaviour of the
  operations used as laws of a locale; the list instance shows that the laws can hold.
\<close>

section \<open>Containers\<close>

locale circular_buffer =
  fixes push_back :: "nat \<Rightarrow> 'a \<Rightarrow> 'a list \<Rightarrow> 'a list"
  assumes push_back_room: "length xs < capacity \<Longrightarrow> push_back capacity x xs = xs @ [x]"
    and push_back_full: "length xs = capacity \<Longrightarrow> 0 < capacity \<Longrightarrow> push_back capacity x xs = tl xs @ [x]"
    and push_back_none: "push_back 0 x [] = []"

definition list_push_back :: "nat \<Rightarrow> 'a \<Rightarrow> 'a list \<Rightarrow> 'a list" where
  "list_push_back capacity x xs = (if capacity = 0 then [] else if length xs < capacity then xs @ [x] else tl xs @ [x])"

interpretation list_buffer: circular_buffer list_push_back
  by unfold_locales (simp_all add: list_push_back_def)

text \<open>
  The container with a sequenced and a unique hashed index: \<open>seq\<close> is the order of the
  sequenced index.
\<close>

record ('a, 'c) index_ops =
  seq :: "'c \<Rightarrow> 'a list"
  pop_front_index :: "'c \<Rightarrow> 'c"
  push_back_index :: "'a \<Rightarrow> 'c \<Rightarrow> 'c"
  find_index :: "'a \<Rightarrow> 'c \<Rightarrow> bool"
  relocate_end :: "'a \<Rightarrow> 'c \<Rightarrow> 'c"
  size_index :: "'c \<Rightarrow> nat"

locale sequenced_index =
  fixes ix :: "('a, 'c) index_ops"
  assumes seq_pop_front: "seq ix c \<noteq> [] \<Longrightarrow> seq ix (pop_front_index ix c) = tl (seq ix c)"
    and seq_push_back: "x \<notin> set (seq ix c) \<Longrightarrow> seq ix (push_back_index ix x c) = seq ix c @ [x]"
    and find_index: "find_index ix x c \<longleftrightarrow> x \<in> set (seq ix c)"
    and seq_relocate_end: "x \<in> set (seq ix c) \<Longrightarrow> seq ix (relocate_end ix x c) = removeAll x (seq ix c) @ [x]"
    and size_index: "size_index ix c = length (seq ix c)"
    and seq_distinct: "distinct (seq ix c)"

definition list_index_ops :: "('a, 'a list) index_ops" where
  "list_index_ops = \<lparr>seq = remdups, pop_front_index = (\<lambda>c. tl (remdups c)), push_back_index = (\<lambda>x c. remdups c @ [x]),
     find_index = (\<lambda>x c. x \<in> set c), relocate_end = (\<lambda>x c. removeAll x (remdups c) @ [x]), size_index = (\<lambda>c. length (remdups c))\<rparr>"

interpretation list_index: sequenced_index list_index_ops
  by unfold_locales (auto simp: list_index_ops_def distinct_tl distinct_remdups_id remdups_append2 distinct_removeAll)

section \<open>The last elements of a history\<close>

definition lastn :: "nat \<Rightarrow> 'a list \<Rightarrow> 'a list" where
  "lastn n xs = drop (length xs - n) xs"

lemma length_lastn [simp]: "length (lastn n xs) = min n (length xs)"
  by (simp add: lastn_def)

lemma lastn_zero [simp]: "lastn 0 xs = []"
  by (simp add: lastn_def)

lemma lastn_snoc: "lastn n (xs @ [x]) = (if n = 0 then [] else if length xs < n then xs @ [x] else tl (lastn n xs) @ [x])"
  by (auto simp: lastn_def Suc_diff_le not_less drop_Suc tl_drop)

lemma lastn_lastn: "m \<le> n \<Longrightarrow> lastn m (lastn n xs) = lastn m xs"
  by (cases "length xs \<le> n") (simp_all add: lastn_def)

lemma lastn_all: "length xs \<le> n \<Longrightarrow> lastn n xs = xs"
  by (simp add: lastn_def)

lemma set_lastn_subset: "set (lastn n xs) \<subseteq> set xs"
  by (simp add: lastn_def set_drop_subset)

lemma lastn_split: "n \<le> length xs \<Longrightarrow> \<exists>ys. xs = ys @ lastn n xs \<and> length ys = length xs - n"
  by (metis append_take_drop_id diff_le_self lastn_def length_take min.absorb2)

section \<open>Duplicate packet list\<close>

record ListElement =
  le_sequence_number :: SequenceNumber
  le_counter :: "32 word"

record DuplicatePacketList =
  dpl_capacity :: nat
  dpl_elements :: "ListElement list"

definition new_dpl :: "nat \<Rightarrow> DuplicatePacketList" where
  "new_dpl elements = \<lparr>dpl_capacity = elements, dpl_elements = []\<rparr>"

fun dpl_find :: "SequenceNumber \<Rightarrow> ListElement list \<Rightarrow> nat option" where
  "dpl_find sn [] = None"
| "dpl_find sn (e # es) = (if le_sequence_number e = sn then Some 0 else map_option Suc (dpl_find sn es))"

definition dpl_check ::
  "(nat \<Rightarrow> ListElement \<Rightarrow> ListElement list \<Rightarrow> ListElement list) \<Rightarrow> SequenceNumber \<Rightarrow> DuplicatePacketList \<Rightarrow> bool \<times> DuplicatePacketList" where
  "dpl_check push_back sn dpl =
     (case dpl_find sn (dpl_elements dpl) of
        Some i \<Rightarrow> (let element = dpl_elements dpl ! i
                 in (True, dpl\<lparr>dpl_elements := (dpl_elements dpl)[i := element\<lparr>le_counter := le_counter element + 1\<rparr>]\<rparr>))
      | None \<Rightarrow> (False, dpl\<lparr>dpl_elements := push_back (dpl_capacity dpl) \<lparr>le_sequence_number = sn, le_counter = 1\<rparr> (dpl_elements dpl)\<rparr>))"

definition dpl_counter :: "SequenceNumber \<Rightarrow> DuplicatePacketList \<Rightarrow> 32 word" where
  "dpl_counter sn dpl = (case dpl_find sn (dpl_elements dpl) of Some i \<Rightarrow> le_counter (dpl_elements dpl ! i) | None \<Rightarrow> 0)"

fun dpl_run ::
  "(nat \<Rightarrow> ListElement \<Rightarrow> ListElement list \<Rightarrow> ListElement list) \<Rightarrow> DuplicatePacketList \<Rightarrow> SequenceNumber list \<Rightarrow> bool list" where
  "dpl_run push_back dpl [] = []"
| "dpl_run push_back dpl (sn # sns) = (case dpl_check push_back sn dpl of (dup, dpl') \<Rightarrow> dup # dpl_run push_back dpl' sns)"

text \<open>
  The specification: a number is a duplicate when it is among the last \<open>n\<close> numbers
  that were accepted.
\<close>

fun window_run :: "nat \<Rightarrow> 'a list \<Rightarrow> 'a list \<Rightarrow> bool list" where
  "window_run n accepted [] = []"
| "window_run n accepted (x # xs) =
     (if x \<in> set (lastn n accepted) then True # window_run n accepted xs else False # window_run n (accepted @ [x]) xs)"

lemma dpl_find_None: "dpl_find sn es = None \<longleftrightarrow> sn \<notin> set (map le_sequence_number es)"
  by (induction es) auto

lemma dpl_find_Some: "dpl_find sn es = Some i \<Longrightarrow> i < length es \<and> le_sequence_number (es ! i) = sn"
  by (induction es arbitrary: i) (auto split: if_splits)

lemma update_same_number:
  "dpl_find sn es = Some i \<Longrightarrow> map le_sequence_number (es[i := (es ! i)\<lparr>le_counter := c\<rparr>]) = map le_sequence_number es"
  using dpl_find_Some by (fastforce simp: map_update list_update_id map_update [symmetric] intro: nth_equalityI simp: nth_list_update)

context circular_buffer
begin

lemma map_push_back:
  "length xs \<le> capacity \<Longrightarrow> map f (push_back capacity x xs) =
    (if capacity = 0 then [] else if length xs < capacity then map f xs @ [f x] else tl (map f xs) @ [f x])"
  by (auto simp: push_back_room push_back_full push_back_none map_tl)

lemma push_back_lastn: "map f (push_back n x xs) = lastn n (ys @ [f x])" if "map f xs = lastn n ys"
proof -
  have "length xs = min n (length ys)" using arg_cong [OF that, of length] by simp
  then show ?thesis using that by (cases "length ys < n") (simp_all add: map_push_back lastn_snoc lastn_all)
qed

end

lemma dpl_run_window:
  assumes "circular_buffer push_back" "map le_sequence_number (dpl_elements dpl) = lastn (dpl_capacity dpl) accepted"
  shows "dpl_run push_back dpl sns = window_run (dpl_capacity dpl) accepted sns"
  using assms(2)
proof (induction sns arbitrary: dpl accepted)
  case Nil
  then show ?case by simp
next
  case (Cons sn sns)
  show ?case
  proof (cases "dpl_find sn (dpl_elements dpl)")
    case None
    have "map le_sequence_number (push_back (dpl_capacity dpl) \<lparr>le_sequence_number = sn, le_counter = 1\<rparr> (dpl_elements dpl)) =
        lastn (dpl_capacity dpl) (accepted @ [sn])"
      using circular_buffer.push_back_lastn [OF assms(1) Cons.prems] by simp
    moreover have "sn \<notin> set (lastn (dpl_capacity dpl) accepted)" using None Cons.prems by (metis dpl_find_None)
    ultimately show ?thesis
      using None Cons.IH [of "dpl\<lparr>dpl_elements := push_back (dpl_capacity dpl) \<lparr>le_sequence_number = sn, le_counter = 1\<rparr> (dpl_elements dpl)\<rparr>" "accepted @ [sn]"]
      by (simp add: dpl_check_def)
  next
    case (Some i)
    then have "sn \<in> set (lastn (dpl_capacity dpl) accepted)" using dpl_find_None [of sn "dpl_elements dpl"] Cons.prems by simp
    with Some show ?thesis
      using Cons.prems Cons.IH [of "dpl\<lparr>dpl_elements := (dpl_elements dpl)[i := (dpl_elements dpl ! i)\<lparr>le_counter := le_counter (dpl_elements dpl ! i) + 1\<rparr>]\<rparr>" accepted]
      by (simp add: dpl_check_def Let_def update_same_number)
  qed
qed

text \<open>
  C30: the duplicate packet list is a window over the accepted packets. Whatever sequence
  numbers arrive, \<open>check\<close> reports a duplicate exactly when the number is among the
  last \<open>elements\<close> numbers it has accepted; the counters and their overflow do not
  matter.
\<close>

theorem duplicate_list_window:
  "circular_buffer push_back \<Longrightarrow> dpl_run push_back (new_dpl elements) sns = window_run elements [] sns"
  using dpl_run_window [of push_back "new_dpl elements" "[]"] by (simp add: new_dpl_def lastn_def)

theorem duplicate_list_window_witness:
  "dpl_run list_push_back (new_dpl 2) [7, 8, 7, 9, 7] = window_run 2 [] [7, 8, 7, 9, 7 :: SequenceNumber] \<and>
   window_run 2 [] [7, 8, 7, 9, 7 :: SequenceNumber] = [False, False, True, False, False]"
proof -
  have "circular_buffer list_push_back" by unfold_locales
  then show ?thesis using duplicate_list_window [of list_push_back 2 "[7, 8, 7, 9, 7]"] by (simp add: lastn_def)
qed

section \<open>Memory of broadcasts\<close>

record 'c GbcMemory =
  gbc_capacity :: nat
  gbc_identifiers :: 'c

text \<open>A loop that would not end is \<open>None\<close>.\<close>

definition gbc_set_capacity :: "('a, 'c) index_ops \<Rightarrow> nat \<Rightarrow> 'c GbcMemory \<Rightarrow> 'c GbcMemory option" where
  "gbc_set_capacity ix num m =
     (let capacity = (if num < 1 then 1 else num)
      in map_option (\<lambda>c. m\<lparr>gbc_capacity := capacity, gbc_identifiers := c\<rparr>)
           (while_option (\<lambda>c. size_index ix c > capacity) (pop_front_index ix) (gbc_identifiers m)))"

definition gbc_size :: "('a, 'c) index_ops \<Rightarrow> 'c GbcMemory \<Rightarrow> nat" where
  "gbc_size ix m = size_index ix (gbc_identifiers m)"

definition gbc_knows :: "('a, 'c) index_ops \<Rightarrow> 'a \<Rightarrow> 'c GbcMemory \<Rightarrow> bool" where
  "gbc_knows ix x m = find_index ix x (gbc_identifiers m)"

definition gbc_remember :: "('a, 'c) index_ops \<Rightarrow> 'a \<Rightarrow> 'c GbcMemory \<Rightarrow> (bool \<times> 'c GbcMemory) option" where
  "gbc_remember ix x m =
     (if \<not> find_index ix x (gbc_identifiers m) then
        map_option (\<lambda>c. (False, m\<lparr>gbc_identifiers := push_back_index ix x c\<rparr>))
          (while_option (\<lambda>c. size_index ix c \<noteq> 0 \<and> size_index ix c \<ge> gbc_capacity m) (pop_front_index ix) (gbc_identifiers m))
      else Some (True, m\<lparr>gbc_identifiers := relocate_end ix x (gbc_identifiers m)\<rparr>))"

fun gbc_run :: "('a, 'c) index_ops \<Rightarrow> 'c GbcMemory \<Rightarrow> 'a list \<Rightarrow> (bool list \<times> 'c GbcMemory) option" where
  "gbc_run ix m [] = Some ([], m)"
| "gbc_run ix m (x # xs) = (case gbc_remember ix x m of None \<Rightarrow> None
     | Some (known, m') \<Rightarrow> map_option (\<lambda>(ks, m''). (known # ks, m'')) (gbc_run ix m' xs))"

text \<open>The specification: known are the last \<open>n\<close> different packets, latest arrival last.\<close>

definition recent :: "nat \<Rightarrow> 'a list \<Rightarrow> 'a list" where
  "recent n history = lastn n (remdups history)"

fun recent_run :: "nat \<Rightarrow> 'a list \<Rightarrow> 'a list \<Rightarrow> bool list" where
  "recent_run n history [] = []"
| "recent_run n history (x # xs) = (x \<in> set (recent n history)) # recent_run n (history @ [x]) xs"

lemma remdups_snoc: "remdups (xs @ [x]) = removeAll x (remdups xs) @ [x]"
  by (induction xs) auto

lemma lastn_relocate:
  assumes "distinct ys" "0 < n"
  shows "lastn n (removeAll x ys @ [x]) = (if x \<in> set (lastn n ys) then removeAll x (lastn n ys) @ [x] else lastn (n - 1) ys @ [x])"
proof -
  define us where "us = take (length ys - n) ys"
  have ys: "ys = us @ lastn n ys" and us: "length us = length ys - n" by (simp_all add: us_def lastn_def)
  have one: "length (removeAll x zs) = length zs - 1" if "x \<in> set zs" "distinct zs" for zs
    using that by (simp add: length_remove1 flip: distinct_remove1_removeAll)
  have dist: "distinct us" "distinct (lastn n ys)" using assms(1) ys by (metis distinct_append)+
  consider (recent) "x \<in> set (lastn n ys)" | (old) "x \<in> set us" "x \<notin> set (lastn n ys)" | (new) "x \<notin> set ys"
    using ys by (metis Un_iff set_append)
  then show ?thesis
  proof cases
    case recent
    then have "x \<notin> set us" using assms(1) ys by (metis disjoint_iff distinct_append)
    then have eq: "removeAll x ys @ [x] = us @ removeAll x (lastn n ys) @ [x]" using ys by (metis append.assoc removeAll_append removeAll_id)
    have "length (removeAll x (lastn n ys) @ [x]) = length (lastn n ys)"
      using one [OF recent dist(2)] recent by (cases "lastn n ys") auto
    then show ?thesis using recent us unfolding eq lastn_def [of n "_ @ _"] by (simp del: length_lastn) (simp add: lastn_def)
  next
    case old
    then have eq: "removeAll x ys @ [x] = removeAll x us @ lastn n ys @ [x]" using ys by (metis append.assoc removeAll_append removeAll_id)
    have len: "length (removeAll x us) = length ys - n - 1" "n < length ys" using one [OF old(1) dist(1)] us length_pos_if_in_set [OF old(1)] by auto
    then have "lastn n (removeAll x ys @ [x]) = drop 1 (lastn n ys) @ [x]" unfolding eq lastn_def [of n "_ @ _"] using assms(2) by simp
    moreover have "drop 1 (lastn n ys) = lastn (n - 1) ys" using len(2) assms(2) by (simp add: lastn_def Suc_diff_le)
    ultimately show ?thesis using old(2) by simp
  next
    case new
    then have "removeAll x ys = ys" "x \<notin> set (lastn n ys)" using set_lastn_subset by fastforce+
    then show ?thesis using assms(2) by (simp add: lastn_def Suc_diff_le)
  qed
qed

context sequenced_index
begin

lemma pop_loop:
  assumes "\<And>c. b c \<longleftrightarrow> P (length (seq ix c))" "\<And>k. k \<le> m \<Longrightarrow> \<not> P k" "\<And>k. m < k \<Longrightarrow> P k"
  shows "\<exists>c'. while_option b (pop_front_index ix) c = Some c' \<and> seq ix c' = lastn m (seq ix c)"
proof (induction "length (seq ix c)" arbitrary: c rule: less_induct)
  case less
  show ?case
  proof (cases "m < length (seq ix c)")
    case True
    then have b: "b c" using assms by blast
    have ne: "seq ix c \<noteq> []" using True by auto
    then have tl: "seq ix (pop_front_index ix c) = tl (seq ix c)" by (rule seq_pop_front)
    then have "length (seq ix (pop_front_index ix c)) < length (seq ix c)" using ne by simp
    from less [OF this] obtain c' where
      "while_option b (pop_front_index ix) (pop_front_index ix c) = Some c'" "seq ix c' = lastn m (tl (seq ix c))"
      unfolding tl by blast
    moreover have "lastn m (tl (seq ix c)) = lastn m (seq ix c)"
      using True ne by (simp add: lastn_def drop_Suc [symmetric] Suc_diff_Suc flip: drop_Suc)
    ultimately show ?thesis using b by (subst while_option_unfold) auto
  next
    case False
    then have "\<not> b c" using assms by simp
    then show ?thesis using False by (subst while_option_unfold) (auto simp: lastn_all)
  qed
qed

lemma gbc_remember_recent:
  assumes "seq ix (gbc_identifiers m) = recent (gbc_capacity m) history" "0 < gbc_capacity m"
  shows "\<exists>m'. gbc_remember ix x m = Some (x \<in> set (recent (gbc_capacity m) history), m') \<and> gbc_capacity m' = gbc_capacity m \<and>
    seq ix (gbc_identifiers m') = recent (gbc_capacity m) (history @ [x])"
proof (cases "find_index ix x (gbc_identifiers m)")
  case True
  then have x: "x \<in> set (recent (gbc_capacity m) history)" using find_index assms by simp
  then have "seq ix (relocate_end ix x (gbc_identifiers m)) = removeAll x (recent (gbc_capacity m) history) @ [x]"
    using seq_relocate_end assms by simp
  also have "\<dots> = recent (gbc_capacity m) (history @ [x])"
    using x lastn_relocate [OF distinct_remdups assms(2), of x history] by (simp add: recent_def remdups_snoc)
  finally show ?thesis using True x by (simp add: gbc_remember_def)
next
  case False
  then have x: "x \<notin> set (recent (gbc_capacity m) history)" using find_index assms by simp
  obtain c' where c': "while_option (\<lambda>c. size_index ix c \<noteq> 0 \<and> size_index ix c \<ge> gbc_capacity m) (pop_front_index ix) (gbc_identifiers m) = Some c'"
    "seq ix c' = lastn (gbc_capacity m - 1) (recent (gbc_capacity m) history)"
  proof -
    have "\<exists>c'. while_option (\<lambda>c. size_index ix c \<noteq> 0 \<and> size_index ix c \<ge> gbc_capacity m) (pop_front_index ix) (gbc_identifiers m) = Some c' \<and>
        seq ix c' = lastn (gbc_capacity m - 1) (seq ix (gbc_identifiers m))"
      by (rule pop_loop [where P = "\<lambda>k. k \<noteq> 0 \<and> k \<ge> gbc_capacity m"]) (use assms(2) in \<open>auto simp: size_index\<close>)
    then show ?thesis using that assms(1) by auto
  qed
  have nested: "lastn (gbc_capacity m - 1) (recent (gbc_capacity m) history) = lastn (gbc_capacity m - 1) (remdups history)"
    unfolding recent_def by (rule lastn_lastn) simp
  have "x \<notin> set (seq ix c')" unfolding c'(2) using x set_lastn_subset [of _ "recent (gbc_capacity m) history"] by blast
  then have "seq ix (push_back_index ix x c') = recent (gbc_capacity m) (history @ [x])"
    using seq_push_back c'(2) nested x lastn_relocate [OF distinct_remdups assms(2), of x history] by (simp add: recent_def remdups_snoc)
  then show ?thesis using False c'(1) x by (simp add: gbc_remember_def)
qed

lemma gbc_run_recent:
  assumes "seq ix (gbc_identifiers m) = recent (gbc_capacity m) history" "0 < gbc_capacity m"
  shows "\<exists>m'. gbc_run ix m xs = Some (recent_run (gbc_capacity m) history xs, m') \<and> gbc_capacity m' = gbc_capacity m \<and>
    seq ix (gbc_identifiers m') = recent (gbc_capacity m) (history @ xs)"
  using assms
proof (induction xs arbitrary: m history)
  case Nil
  then show ?case by simp
next
  case (Cons x xs)
  from gbc_remember_recent [OF Cons.prems, of x] obtain m1 where
    m1: "gbc_remember ix x m = Some (x \<in> set (recent (gbc_capacity m) history), m1)" "gbc_capacity m1 = gbc_capacity m"
      "seq ix (gbc_identifiers m1) = recent (gbc_capacity m) (history @ [x])" by blast
  with Cons.IH [of m1 "history @ [x]"] Cons.prems(2) show ?case by auto
qed

end

text \<open>
  C31: the memory of broadcasts knows the most recent packets. With a capacity set and no
  packet remembered yet, every sequence of calls of \<open>remember\<close> ends, answers
  for each packet whether it is among the last \<open>n\<close> different packets seen before it, and
  never holds more than \<open>n\<close> of them.
\<close>

theorem gbc_memory_recent:
  assumes "sequenced_index ix" "seq ix c = []"
  shows "\<exists>m'. (gbc_set_capacity ix num \<lparr>gbc_capacity = 1, gbc_identifiers = c\<rparr> \<bind> (\<lambda>m. gbc_run ix m xs)) =
      Some (recent_run (max 1 num) [] xs, m') \<and> gbc_size ix m' \<le> max 1 num \<and> (\<forall>x. gbc_knows ix x m' \<longleftrightarrow> x \<in> set (recent (max 1 num) xs))"
proof -
  let ?n = "max 1 num" and ?m0 = "\<lparr>gbc_capacity = 1, gbc_identifiers = c\<rparr>"
  have "while_option (\<lambda>c. size_index ix c > (if num < 1 then 1 else num)) (pop_front_index ix) c = Some c"
    using assms by (subst while_option_unfold) (simp add: sequenced_index.size_index)
  then have m: "gbc_set_capacity ix num ?m0 = Some \<lparr>gbc_capacity = ?n, gbc_identifiers = c\<rparr>"
    by (auto simp: gbc_set_capacity_def Let_def max_def)
  obtain m' where m': "gbc_run ix \<lparr>gbc_capacity = ?n, gbc_identifiers = c\<rparr> xs = Some (recent_run ?n [] xs, m')"
      "seq ix (gbc_identifiers m') = recent ?n xs"
    using sequenced_index.gbc_run_recent [OF assms(1), of "\<lparr>gbc_capacity = ?n, gbc_identifiers = c\<rparr>" "[]" xs] assms(2)
    by (fastforce simp: recent_def lastn_def)
  moreover have "length (recent ?n xs) \<le> ?n" by (simp add: recent_def)
  ultimately show ?thesis
    using m assms(1) by (intro exI [of _ m']) (simp add: gbc_size_def gbc_knows_def sequenced_index.size_index sequenced_index.find_index)
qed

theorem gbc_memory_recent_witness:
  "\<exists>m'. (gbc_set_capacity list_index_ops 2 \<lparr>gbc_capacity = 1, gbc_identifiers = []\<rparr> \<bind> (\<lambda>m. gbc_run list_index_ops m [1, 2, 1, 3, 2 :: nat])) =
      Some (recent_run (max 1 2) [] [1, 2, 1, 3, 2 :: nat], m') \<and> recent_run 2 [] [1, 2, 1, 3, 2 :: nat] = [False, False, True, False, False]"
proof -
  have "sequenced_index list_index_ops" by unfold_locales
  moreover have "seq list_index_ops [] = []" by (simp add: list_index_ops_def)
  ultimately show ?thesis
    using gbc_memory_recent [of list_index_ops "[]" 2 "[1, 2, 1, 3, 2 :: nat]"] by (auto simp: recent_def lastn_def simp del: gbc_run.simps)
qed

end
