(* ===== verification/Gn_Packet_Buffer.thy ===== *)
theory Gn_Packet_Buffer
  imports Gn_Values
begin

text \<open>
  The forwarding buffer of \<open>packet_buffer.cpp\<close>: a list of packets with their expiry,
  bounded by a number of octets. The packets are behind the interface
  \<open>packet_buffer::Data\<close>; the locale \<open>buffer_data\<close> states what the buffer needs
  of it. \<open>size_t\<close> is 64 bits wide, so that the subtractions of the code may wrap around
  unless the invariant excludes it. Points in time and durations are integers.
\<close>

section \<open>The buffer\<close>

type_synonym size_t = "64 word"
type_synonym time_point = int
type_synonym duration = int

record Expiry =
  m_buffered_since :: time_point
  m_expires_at :: time_point

definition new_expiry :: "time_point \<Rightarrow> duration \<Rightarrow> Expiry" where
  "new_expiry now lt = \<lparr>m_buffered_since = now, m_expires_at = now + lt\<rparr>"

definition expiry_is_expired :: "Expiry \<Rightarrow> time_point \<Rightarrow> bool" where
  "expiry_is_expired e now \<longleftrightarrow> m_expires_at e < now"

text \<open>The interface \<open>Data\<close>: the length in octets, and the lifetime left after a queuing time.\<close>

record 'd data_ops =
  data_length :: "'d \<Rightarrow> size_t"
  reduce_lifetime :: "duration \<Rightarrow> 'd \<Rightarrow> duration \<times> 'd"

record 'd PacketBuffer =
  m_nodes :: "(Expiry \<times> 'd) list"
  m_capacity :: size_t
  m_stored :: size_t

definition new_buffer :: "size_t \<Rightarrow> 'd PacketBuffer" where
  "new_buffer capacity = \<lparr>m_nodes = [], m_capacity = capacity, m_stored = 0\<rparr>"

definition buffer_free :: "'d PacketBuffer \<Rightarrow> size_t" where
  "buffer_free b = m_capacity b - m_stored b"

definition drop_head :: "'d data_ops \<Rightarrow> 'd PacketBuffer \<Rightarrow> bool \<times> 'd PacketBuffer" where
  "drop_head ops b =
     (case m_nodes b of [] \<Rightarrow> (False, b)
      | (e, d) # nodes \<Rightarrow> (True, b\<lparr>m_stored := m_stored b - data_length ops d, m_nodes := nodes\<rparr>))"

text \<open>The loop over the nodes, with the nodes kept so far in front.\<close>

fun drop_expired_loop :: "'d data_ops \<Rightarrow> time_point \<Rightarrow> (Expiry \<times> 'd) list \<Rightarrow> 'd PacketBuffer \<Rightarrow> 'd PacketBuffer" where
  "drop_expired_loop ops now [] b = b"
| "drop_expired_loop ops now ((e, d) # nodes) b =
     (if expiry_is_expired e now then drop_expired_loop ops now nodes (b\<lparr>m_stored := m_stored b - data_length ops d\<rparr>)
      else drop_expired_loop ops now nodes (b\<lparr>m_nodes := m_nodes b @ [(e, d)]\<rparr>))"

definition drop_expired :: "'d data_ops \<Rightarrow> time_point \<Rightarrow> 'd PacketBuffer \<Rightarrow> 'd PacketBuffer" where
  "drop_expired ops now b = drop_expired_loop ops now (m_nodes b) (b\<lparr>m_nodes := []\<rparr>)"

function drop_loop :: "'d data_ops \<Rightarrow> size_t \<Rightarrow> 'd PacketBuffer \<Rightarrow> 'd PacketBuffer" where
  "drop_loop ops bytes b =
     (if buffer_free b < bytes then
        (case drop_head ops b of (dropped, b') \<Rightarrow> if dropped then drop_loop ops bytes b' else b')
      else b)"
  by pat_completeness auto
termination
  by (relation "measure (\<lambda>(ops, bytes, b). length (m_nodes b))") (auto simp: drop_head_def split: list.splits)

declare drop_loop.simps [simp del]

definition buffer_drop :: "'d data_ops \<Rightarrow> size_t \<Rightarrow> 'd PacketBuffer \<Rightarrow> bool \<times> 'd PacketBuffer" where
  "buffer_drop ops bytes b = (let b' = drop_loop ops bytes b in (buffer_free b' \<ge> bytes, b'))"

definition buffer_push :: "'d data_ops \<Rightarrow> 'd \<Rightarrow> time_point \<Rightarrow> 'd PacketBuffer \<Rightarrow> bool \<times> 'd PacketBuffer" where
  "buffer_push ops d now b =
     (case buffer_drop ops (data_length ops d) (drop_expired ops now b) of (room, b1) \<Rightarrow>
        if room then
          (case reduce_lifetime ops 0 d of (lt, d') \<Rightarrow>
             (True, b1\<lparr>m_stored := m_stored b1 + data_length ops d, m_nodes := m_nodes b1 @ [(new_expiry now lt, d')]\<rparr>))
        else (False, b1))"

text \<open>
  The buffer is emptied before any packet is flushed; the packets to flush are returned in
  order, their lifetime reduced by the time they spent in the buffer.
\<close>

definition buffer_flush :: "'d data_ops \<Rightarrow> time_point \<Rightarrow> 'd PacketBuffer \<Rightarrow> 'd list \<times> 'd PacketBuffer" where
  "buffer_flush ops now b =
     (map (\<lambda>(e, d). snd (reduce_lifetime ops (now - m_buffered_since e) d)) (filter (\<lambda>(e, d). \<not> expiry_is_expired e now) (m_nodes b)),
      b\<lparr>m_nodes := [], m_stored := 0\<rparr>)"

section \<open>Invariant\<close>

text \<open>
  The octets of the nodes, as a natural number. \<open>m_stored\<close> is that number and within
  the capacity, so none of the subtractions wraps around.
\<close>

definition nodes_size :: "'d data_ops \<Rightarrow> (Expiry \<times> 'd) list \<Rightarrow> nat" where
  "nodes_size ops nodes = sum_list (map (\<lambda>(e, d). unat (data_length ops d)) nodes)"

definition buffer_inv :: "'d data_ops \<Rightarrow> 'd PacketBuffer \<Rightarrow> bool" where
  "buffer_inv ops b \<longleftrightarrow> unat (m_stored b) = nodes_size ops (m_nodes b) \<and> m_stored b \<le> m_capacity b"

lemma nodes_size_simps [simp]:
  "nodes_size ops [] = 0" "nodes_size ops ((e, d) # nodes) = unat (data_length ops d) + nodes_size ops nodes"
  "nodes_size ops (xs @ ys) = nodes_size ops xs + nodes_size ops ys"
  by (simp_all add: nodes_size_def)

text \<open>The longest tail of the nodes that leaves room for some octets.\<close>

fun fitting :: "'d data_ops \<Rightarrow> nat \<Rightarrow> nat \<Rightarrow> (Expiry \<times> 'd) list \<Rightarrow> (Expiry \<times> 'd) list" where
  "fitting ops cap bytes [] = []"
| "fitting ops cap bytes (n # ns) = (if nodes_size ops (n # ns) + bytes \<le> cap then n # ns else fitting ops cap bytes ns)"

locale buffer_data =
  fixes ops :: "'d data_ops"
  assumes reduce_keeps_length: "data_length ops (snd (reduce_lifetime ops q d)) = data_length ops d"
begin

lemma unat_minus_stored: "unat s = unat (data_length ops d) + n \<Longrightarrow> unat (s - data_length ops d) = n"
  by (metis add_diff_cancel_left' le_add1 unat_sub word_le_nat_alt)

lemma minus_le: "unat s = unat (data_length ops d) + n \<Longrightarrow> s \<le> c \<Longrightarrow> s - data_length ops d \<le> c"
  using unat_minus_stored [of s d n] by (simp add: word_le_nat_alt)

lemma drop_expired_loop_spec:
  "unat (m_stored b) = nodes_size ops (m_nodes b) + nodes_size ops nodes \<Longrightarrow> m_stored b \<le> m_capacity b \<Longrightarrow>
   let b' = drop_expired_loop ops now nodes b
   in m_nodes b' = m_nodes b @ filter (\<lambda>(e, d). \<not> expiry_is_expired e now) nodes \<and> m_capacity b' = m_capacity b \<and> buffer_inv ops b'"
proof (induction nodes arbitrary: b)
  case Nil
  then show ?case by (simp add: buffer_inv_def)
next
  case (Cons node nodes)
  obtain e d where node: "node = (e, d)" by fastforce
  show ?case
  proof (cases "expiry_is_expired e now")
    case True
    then show ?thesis
      using Cons.IH [of "b\<lparr>m_stored := m_stored b - data_length ops d\<rparr>"] Cons.prems node
        unat_minus_stored [of "m_stored b" d] minus_le [of "m_stored b" d] by simp
  next
    case False
    then show ?thesis using Cons.IH [of "b\<lparr>m_nodes := m_nodes b @ [(e, d)]\<rparr>"] Cons.prems node by simp
  qed
qed

lemma drop_expired_spec:
  assumes "buffer_inv ops b"
  shows "m_nodes (drop_expired ops now b) = filter (\<lambda>(e, d). \<not> expiry_is_expired e now) (m_nodes b)"
    "m_capacity (drop_expired ops now b) = m_capacity b" "buffer_inv ops (drop_expired ops now b)"
  using drop_expired_loop_spec [of "b\<lparr>m_nodes := []\<rparr>" "m_nodes b" now] assms
  by (auto simp: drop_expired_def buffer_inv_def Let_def)

lemma free_nat: "buffer_inv ops b \<Longrightarrow> unat (buffer_free b) = unat (m_capacity b) - nodes_size ops (m_nodes b)"
  by (simp add: buffer_free_def buffer_inv_def unat_sub)

text \<open>
  The loop removes packets from the head until there is room: what stays is the longest tail
  of the nodes that leaves it.
\<close>

lemma drop_loop_spec:
  assumes "buffer_inv ops b"
  shows "let b' = drop_loop ops bytes b
    in buffer_inv ops b' \<and> m_capacity b' = m_capacity b \<and>
       m_nodes b' = fitting ops (unat (m_capacity b)) (unat bytes) (m_nodes b)"
  using assms
proof (induction "m_nodes b" arbitrary: b)
  case Nil
  have "drop_loop ops bytes b = b"
    by (subst drop_loop.simps) (simp add: drop_head_def flip: Nil.hyps)
  then show ?case using Nil by (simp flip: Nil.hyps)
next
  case (Cons node nodes)
  obtain e d where node: "node = (e, d)" by fastforce
  have nodes: "m_nodes b = (e, d) # nodes" using Cons.hyps(2) node by simp
  let ?b = "b\<lparr>m_stored := m_stored b - data_length ops d, m_nodes := nodes\<rparr>"
  have room: "buffer_free b < bytes \<longleftrightarrow> \<not> nodes_size ops (m_nodes b) + unat bytes \<le> unat (m_capacity b)"
    using free_nat [OF Cons.prems] Cons.prems by (auto simp: buffer_inv_def word_less_nat_alt word_le_nat_alt)
  have inv: "buffer_inv ops ?b"
    using Cons.prems nodes unat_minus_stored [of "m_stored b" d] minus_le [of "m_stored b" d] by (simp add: buffer_inv_def)
  show ?case
  proof (cases "buffer_free b < bytes")
    case True
    then have "drop_loop ops bytes b = drop_loop ops bytes ?b"
      by (subst drop_loop.simps) (simp add: drop_head_def nodes)
    then show ?thesis using Cons.hyps(1) [of ?b] inv True room nodes by (simp add: Let_def)
  next
    case False
    then have "drop_loop ops bytes b = b" by (subst drop_loop.simps) simp
    then show ?thesis using Cons.prems False room nodes by (simp add: Let_def)
  qed
qed

lemma fitting_size: "nodes_size ops (fitting ops cap bytes nodes) + bytes \<le> cap \<longleftrightarrow> bytes \<le> cap"
  by (induction nodes) (auto simp: split_paired_all)

lemma buffer_push_spec:
  assumes "buffer_inv ops b" "buffer_push ops d now b = (ok, b')"
  shows "ok \<longleftrightarrow> data_length ops d \<le> m_capacity b" "buffer_inv ops b'" "m_capacity b' = m_capacity b"
    "m_nodes b' = fitting ops (unat (m_capacity b)) (unat (data_length ops d)) (filter (\<lambda>(e, d). \<not> expiry_is_expired e now) (m_nodes b)) @
       (if ok then [(new_expiry now (fst (reduce_lifetime ops 0 d)), snd (reduce_lifetime ops 0 d))] else [])"
proof -
  define b1 where "b1 = drop_loop ops (data_length ops d) (drop_expired ops now b)"
  have b1: "buffer_inv ops b1" "m_capacity b1 = m_capacity b"
    "m_nodes b1 = fitting ops (unat (m_capacity b)) (unat (data_length ops d)) (filter (\<lambda>(e, d). \<not> expiry_is_expired e now) (m_nodes b))"
    using drop_loop_spec [OF drop_expired_spec(3) [OF assms(1)]] drop_expired_spec(1,2) [OF assms(1)] by (simp_all add: b1_def Let_def)
  have push: "buffer_push ops d now b = (if buffer_free b1 \<ge> data_length ops d then
      (True, b1\<lparr>m_stored := m_stored b1 + data_length ops d,
        m_nodes := m_nodes b1 @ [(new_expiry now (fst (reduce_lifetime ops 0 d)), snd (reduce_lifetime ops 0 d))]\<rparr>) else (False, b1))"
    by (simp add: buffer_push_def buffer_drop_def b1_def Let_def split_beta)
  have "nodes_size ops (m_nodes b1) \<le> unat (m_capacity b)" using b1(1,2) by (simp add: buffer_inv_def word_le_nat_alt)
  then have room: "buffer_free b1 \<ge> data_length ops d \<longleftrightarrow> nodes_size ops (m_nodes b1) + unat (data_length ops d) \<le> unat (m_capacity b)"
    using free_nat [OF b1(1)] b1(2) by (auto simp: word_le_nat_alt)
  also have "\<dots> \<longleftrightarrow> data_length ops d \<le> m_capacity b" unfolding b1(3) fitting_size by (simp add: word_le_nat_alt)
  finally have ok: "buffer_free b1 \<ge> data_length ops d \<longleftrightarrow> data_length ops d \<le> m_capacity b" .
  show "ok \<longleftrightarrow> data_length ops d \<le> m_capacity b" "m_capacity b' = m_capacity b"
    "m_nodes b' = fitting ops (unat (m_capacity b)) (unat (data_length ops d)) (filter (\<lambda>(e, d). \<not> expiry_is_expired e now) (m_nodes b)) @
       (if ok then [(new_expiry now (fst (reduce_lifetime ops 0 d)), snd (reduce_lifetime ops 0 d))] else [])"
    using assms(2) ok b1(2,3) unfolding push by (auto split: if_splits)
  have "unat (m_stored b1 + data_length ops d) = unat (m_stored b1) + unat (data_length ops d)"
    if "nodes_size ops (m_nodes b1) + unat (data_length ops d) \<le> unat (m_capacity b)"
  proof -
    have "unat (m_stored b1) + unat (data_length ops d) < 2 ^ LENGTH(64)"
      using that b1(1) unsigned_less [of "m_capacity b", where ?'a = nat] unfolding buffer_inv_def by linarith
    then show ?thesis by (rule unat_add_lem [THEN iffD1])
  qed
  then show "buffer_inv ops b'"
    using assms(2) b1(1,2) room unfolding push
    by (auto simp: buffer_inv_def word_le_nat_alt reduce_keeps_length split: if_splits)
qed

lemma buffer_flush_spec: "buffer_inv ops b \<Longrightarrow> buffer_inv ops (snd (buffer_flush ops now b)) \<and> m_nodes (snd (buffer_flush ops now b)) = []"
  by (simp add: buffer_flush_def buffer_inv_def)

end

section \<open>Sequences of operations\<close>

datatype 'd buffer_event = Push 'd time_point | Flush time_point

fun buffer_step :: "'d data_ops \<Rightarrow> 'd PacketBuffer \<Rightarrow> 'd buffer_event \<Rightarrow> 'd PacketBuffer" where
  "buffer_step ops b (Push d now) = snd (buffer_push ops d now b)"
| "buffer_step ops b (Flush now) = snd (buffer_flush ops now b)"

text \<open>
  The forwarding buffer never exceeds its capacity and its octet counter never wraps.
  After every sequence of pushes and flushes \<open>m_stored\<close> is the number of octets of
  the packets in the buffer, read without wrap-around, and at most the capacity.
\<close>

theorem packet_buffer_bounded:
  assumes "buffer_data ops"
  shows "let b = foldl (buffer_step ops) (new_buffer capacity) events
    in unat (m_stored b) = nodes_size ops (m_nodes b) \<and> m_stored b \<le> capacity"
proof -
  have step: "buffer_inv ops (buffer_step ops b ev) \<and> m_capacity (buffer_step ops b ev) = m_capacity b" if "buffer_inv ops b" for b ev
  proof (cases ev)
    case (Push d now)
    then show ?thesis using buffer_data.buffer_push_spec(2,3) [OF assms that prod.collapse [symmetric]] by simp
  next
    case (Flush now)
    then show ?thesis using buffer_data.buffer_flush_spec [OF assms that] by (simp add: buffer_flush_def)
  qed
  have "buffer_inv ops b \<Longrightarrow> buffer_inv ops (foldl (buffer_step ops) b events) \<and> m_capacity (foldl (buffer_step ops) b events) = m_capacity b" for b
    using step by (induction events arbitrary: b) auto
  from this [of "new_buffer capacity"] show ?thesis by (auto simp: buffer_inv_def new_buffer_def Let_def)
qed

text \<open>
  What a push keeps. A push drops the expired packets, then packets from the head until
  the new one fits, and no more than that, and puts it last; it succeeds exactly when the
  packet is not larger than the whole buffer. A larger packet is refused, but only after
  every buffered packet has been dropped.
\<close>

theorem packet_buffer_push:
  assumes "buffer_data ops" "buffer_inv ops b" "buffer_push ops d now b = (ok, b')"
  shows "(ok \<longleftrightarrow> data_length ops d \<le> m_capacity b) \<and> (\<not> ok \<longrightarrow> m_nodes b' = []) \<and>
    m_nodes b' = fitting ops (unat (m_capacity b)) (unat (data_length ops d)) (filter (\<lambda>(e, d). \<not> expiry_is_expired e now) (m_nodes b)) @
      (if ok then [(new_expiry now (fst (reduce_lifetime ops 0 d)), snd (reduce_lifetime ops 0 d))] else [])"
proof -
  have "fitting ops cap bytes nodes = []" if "cap < bytes" for cap bytes nodes
    using that by (induction nodes) auto
  then show ?thesis
    using buffer_data.buffer_push_spec [OF assms] by (simp add: word_le_nat_alt)
qed

text \<open>Packets of a length and a lifetime, to run the buffer on.\<close>

definition sized_ops :: "(size_t \<times> duration) data_ops" where
  "sized_ops = \<lparr>data_length = fst, reduce_lifetime = (\<lambda>q (n, lt). (max 0 (lt - max 0 q), (n, max 0 (lt - max 0 q))))\<rparr>"

interpretation sized: buffer_data sized_ops
  by unfold_locales (auto simp: sized_ops_def)

theorem packet_buffer_bounded_witness:
  "let b = foldl (buffer_step sized_ops) (new_buffer 100) [Push (60, 10) 0, Push (70, 10) 1, Push (20, 5) 2]
   in unat (m_stored b) = nodes_size sized_ops (m_nodes b) \<and> m_stored b \<le> 100 \<and> map snd (m_nodes b) = [(70, 10), (20, 5)]"
proof -
  have "buffer_data sized_ops" by unfold_locales
  moreover have "map snd (m_nodes (foldl (buffer_step sized_ops) (new_buffer 100) [Push (60, 10) 0, Push (70, 10) 1, Push (20, 5) 2])) = [(70, 10), (20, 5)]"
    by code_simp
  ultimately show ?thesis using packet_buffer_bounded [of sized_ops 100 "[Push (60, 10) 0, Push (70, 10) 1, Push (20, 5) 2]"] by (simp only: Let_def)
qed

theorem packet_buffer_push_witness:
  "\<not> fst (buffer_push sized_ops (200, 10) 1 (snd (buffer_push sized_ops (60, 10) 0 (new_buffer 100)))) \<and>
   m_nodes (snd (buffer_push sized_ops (200, 10) 1 (snd (buffer_push sized_ops (60, 10) 0 (new_buffer 100))))) = []"
proof -
  let ?b = "snd (buffer_push sized_ops (60, 10) 0 (new_buffer 100))"
  have "buffer_data sized_ops" by unfold_locales
  moreover have "buffer_inv sized_ops ?b" by code_simp
  moreover have "\<not> fst (buffer_push sized_ops (200, 10) 1 ?b)" by code_simp
  ultimately show ?thesis using packet_buffer_push [of sized_ops ?b "(200, 10)" 1 False "snd (buffer_push sized_ops (200, 10) 1 ?b)"]
    by (simp add: prod_eq_iff)
qed

end
