(* ===== verification/Gn_Soft_State.thy ===== *)
theory Gn_Soft_State
  imports Gn_Packet_Buffer "HOL-Library.While_Combinator" "HOL-Library.AList"
begin

text \<open>
  The map with expiring entries of \<open>soft_state_map.hpp\<close>. It keeps its entries in a hash
  map and their expiry in a heap of Boost, whose mutable elements are reached through
  handles. The heap is a parameter, its documented behaviour the locale
  \<open>mutable_heap\<close>; the hash map of the standard library is a map.
\<close>

section \<open>Heaps with handles\<close>

text \<open>\<open>entries\<close> is what a handle refers to; \<open>top\<close> of an empty heap is \<open>None\<close>.\<close>

record ('h, 'hd, 'k) heap_ops =
  entries :: "'h \<Rightarrow> 'hd \<rightharpoonup> time_point \<times> 'k"
  heap_push :: "time_point \<times> 'k \<Rightarrow> 'h \<Rightarrow> 'hd \<times> 'h"
  heap_update :: "'hd \<Rightarrow> time_point \<times> 'k \<Rightarrow> 'h \<Rightarrow> 'h"
  heap_top :: "'h \<Rightarrow> (time_point \<times> 'k) option"
  heap_pop :: "'h \<Rightarrow> 'h"

locale mutable_heap =
  fixes hp :: "('h, 'hd, 'k) heap_ops"
  assumes entries_push: "heap_push hp x h = (hnd, h') \<Longrightarrow> entries hp h hnd = None \<and> entries hp h' = (entries hp h)(hnd \<mapsto> x)"
    and entries_update: "entries hp h hnd \<noteq> None \<Longrightarrow> entries hp (heap_update hp hnd x h) = (entries hp h)(hnd \<mapsto> x)"
    and top_None: "heap_top hp h = None \<longleftrightarrow> entries hp h = Map.empty"
    and top_Some: "heap_top hp h = Some x \<Longrightarrow>
      \<exists>hnd. entries hp h hnd = Some x \<and> (\<forall>y\<in>ran (entries hp h). fst x \<le> fst y) \<and> entries hp (heap_pop hp h) = (entries hp h)(hnd := None)"
    and finite_entries: "finite (dom (entries hp h))"

text \<open>A heap kept as a list of handles and elements.\<close>

fun least :: "(nat \<times> time_point \<times> 'k) list \<Rightarrow> (nat \<times> time_point \<times> 'k) option" where
  "least [] = None"
| "least (x # xs) = (case least xs of None \<Rightarrow> Some x | Some y \<Rightarrow> Some (if fst (snd y) < fst (snd x) then y else x))"

definition list_heap_ops :: "((nat \<times> time_point \<times> 'k) list, nat, 'k) heap_ops" where
  "list_heap_ops = \<lparr>entries = map_of,
     heap_push = (\<lambda>x h. let hnd = Suc (Max (insert 0 (set (map fst h)))) in (hnd, (hnd, x) # h)),
     heap_update = (\<lambda>hnd x h. (hnd, x) # h),
     heap_top = (\<lambda>h. map_option snd (least (AList.clearjunk h))),
     heap_pop = (\<lambda>h. case least (AList.clearjunk h) of None \<Rightarrow> h | Some (hnd, _) \<Rightarrow> AList.delete hnd h)\<rparr>"

lemma least_None: "least xs = None \<longleftrightarrow> xs = []"
  by (cases xs) (auto split: option.splits)

lemma least_Some: "least xs = Some y \<Longrightarrow> y \<in> set xs \<and> (\<forall>x\<in>set xs. fst (snd y) \<le> fst (snd x))"
  by (induction xs arbitrary: y) (auto split: option.splits if_splits simp: least_None dest: order_trans)

lemma clearjunk_empty: "AList.clearjunk xs = [] \<longleftrightarrow> map_of xs = Map.empty"
  by (cases xs) auto

interpretation list_heap: mutable_heap list_heap_ops
proof
  fix x :: "time_point \<times> 'k" and h h' :: "(nat \<times> time_point \<times> 'k) list" and hnd :: nat
  assume push: "heap_push list_heap_ops x h = (hnd, h')"
  have "k \<le> Max (insert 0 (set (map fst h)))" if "k \<in> set (map fst h)" for k
    using that by (intro Max_ge) auto
  then have "Suc (Max (insert 0 (set (map fst h)))) \<notin> set (map fst h)" by fastforce
  then show "entries list_heap_ops h hnd = None \<and> entries list_heap_ops h' = (entries list_heap_ops h)(hnd \<mapsto> x)"
    using push by (auto simp: list_heap_ops_def Let_def map_of_eq_None_iff)
next
  fix x :: "time_point \<times> 'k" and h
  assume "heap_top list_heap_ops h = Some x"
  then obtain hnd where least: "least (AList.clearjunk h) = Some (hnd, x)" by (auto simp: list_heap_ops_def)
  have mem: "(hnd, x) \<in> set (AList.clearjunk h)" and min: "\<forall>y\<in>set (AList.clearjunk h). fst x \<le> fst (snd y)"
    using least_Some [OF least] by auto
  have "map_of h hnd = Some x" using mem by (metis distinct_clearjunk map_of_clearjunk map_of_is_SomeI)
  moreover have "\<forall>y\<in>ran (map_of h). fst x \<le> fst y"
    using min by (auto simp: ran_map_of_zip ran_distinct [OF distinct_clearjunk] simp flip: map_of_clearjunk [of h])
  ultimately show "\<exists>hnd. entries list_heap_ops h hnd = Some x \<and> (\<forall>y\<in>ran (entries list_heap_ops h). fst x \<le> fst y) \<and>
      entries list_heap_ops (heap_pop list_heap_ops h) = (entries list_heap_ops h)(hnd := None)"
    using least by (intro exI [of _ hnd]) (simp add: list_heap_ops_def delete_conv')
qed (auto simp: list_heap_ops_def least_None clearjunk_empty finite_dom_map_of)

section \<open>The map\<close>

record ('h, 'hd, 'k, 'v) SoftStateMap =
  ss_lifetime :: duration
  ss_heap :: 'h
  ss_map :: "'k \<rightharpoonup> 'hd \<times> 'v"

definition ss_entry :: "('h, 'hd, 'k) heap_ops \<Rightarrow> ('h, 'hd, 'k, 'v) SoftStateMap \<Rightarrow> 'hd \<Rightarrow> time_point \<times> 'k" where
  "ss_entry hp s hnd = the (entries hp (ss_heap s) hnd)"

definition ss_is_expired :: "time_point \<Rightarrow> time_point \<times> 'k \<Rightarrow> bool" where
  "ss_is_expired now expiry \<longleftrightarrow> now > fst expiry"

definition ss_refresh_handle :: "('h, 'hd, 'k) heap_ops \<Rightarrow> time_point \<Rightarrow> 'hd \<Rightarrow> ('h, 'hd, 'k, 'v) SoftStateMap \<Rightarrow> ('h, 'hd, 'k, 'v) SoftStateMap" where
  "ss_refresh_handle hp now hnd s = s\<lparr>ss_heap := heap_update hp hnd (now + ss_lifetime s, snd (ss_entry hp s hnd)) (ss_heap s)\<rparr>"

definition ss_get_data ::
  "('h, 'hd, 'k) heap_ops \<Rightarrow> 'v \<Rightarrow> time_point \<Rightarrow> 'k \<Rightarrow> ('h, 'hd, 'k, 'v) SoftStateMap \<Rightarrow> ('h, 'hd, 'k, 'v) SoftStateMap" where
  "ss_get_data hp created now key s =
     (case ss_map s key of
        None \<Rightarrow> (case heap_push hp (now + ss_lifetime s, key) (ss_heap s) of
                   (hnd, h) \<Rightarrow> s\<lparr>ss_heap := h, ss_map := (ss_map s)(key \<mapsto> (hnd, created))\<rparr>)
      | Some (hnd, v) \<Rightarrow> if ss_is_expired now (ss_entry hp s hnd) then ss_refresh_handle hp now hnd s else s)"

definition ss_get_value_ptr :: "('h, 'hd, 'k) heap_ops \<Rightarrow> time_point \<Rightarrow> 'k \<Rightarrow> ('h, 'hd, 'k, 'v) SoftStateMap \<Rightarrow> 'v option" where
  "ss_get_value_ptr hp now key s =
     (case ss_map s key of Some (hnd, v) \<Rightarrow> if \<not> ss_is_expired now (ss_entry hp s hnd) then Some v else None | None \<Rightarrow> None)"

definition ss_has_value :: "('h, 'hd, 'k) heap_ops \<Rightarrow> time_point \<Rightarrow> 'k \<Rightarrow> ('h, 'hd, 'k, 'v) SoftStateMap \<Rightarrow> bool" where
  "ss_has_value hp now key s \<longleftrightarrow> ss_get_value_ptr hp now key s \<noteq> None"

definition ss_refresh ::
  "('h, 'hd, 'k) heap_ops \<Rightarrow> 'v \<Rightarrow> time_point \<Rightarrow> 'k \<Rightarrow> ('h, 'hd, 'k, 'v) SoftStateMap \<Rightarrow> ('h, 'hd, 'k, 'v) SoftStateMap" where
  "ss_refresh hp created now key s =
     (case ss_map s key of Some (hnd, v) \<Rightarrow> ss_refresh_handle hp now hnd s | None \<Rightarrow> ss_get_data hp created now key s)"

definition ss_drop_expired ::
  "('h, 'hd, 'k) heap_ops \<Rightarrow> time_point \<Rightarrow> ('h, 'hd, 'k, 'v) SoftStateMap \<Rightarrow> ('h, 'hd, 'k, 'v) SoftStateMap option" where
  "ss_drop_expired hp now =
     while_option (\<lambda>s. case heap_top hp (ss_heap s) of None \<Rightarrow> False | Some e \<Rightarrow> ss_is_expired now e)
       (\<lambda>s. s\<lparr>ss_map := (ss_map s)(snd (the (heap_top hp (ss_heap s))) := None), ss_heap := heap_pop hp (ss_heap s)\<rparr>)"

text \<open>The references the operations return let the caller change the value.\<close>

definition ss_modify :: "'k \<Rightarrow> ('v \<Rightarrow> 'v) \<Rightarrow> ('h, 'hd, 'k, 'v) SoftStateMap \<Rightarrow> ('h, 'hd, 'k, 'v) SoftStateMap" where
  "ss_modify key f s =
     (case ss_map s key of Some (hnd, v) \<Rightarrow> s\<lparr>ss_map := (ss_map s)(key \<mapsto> (hnd, f v))\<rparr> | None \<Rightarrow> s)"

section \<open>Refinement of an expiring map\<close>

text \<open>
  The abstract state: for each key the last moment it is visible and its value. Every
  heap element belongs to one entry of the map and the other way round.
\<close>

definition ss_inv :: "('h, 'hd, 'k) heap_ops \<Rightarrow> ('h, 'hd, 'k, 'v) SoftStateMap \<Rightarrow> bool" where
  "ss_inv hp s \<longleftrightarrow>
     (\<forall>k hnd v. ss_map s k = Some (hnd, v) \<longrightarrow> (\<exists>t. entries hp (ss_heap s) hnd = Some (t, k))) \<and>
     (\<forall>hnd t k. entries hp (ss_heap s) hnd = Some (t, k) \<longrightarrow> (\<exists>v. ss_map s k = Some (hnd, v)))"

definition ss_abs :: "('h, 'hd, 'k) heap_ops \<Rightarrow> ('h, 'hd, 'k, 'v) SoftStateMap \<Rightarrow> 'k \<rightharpoonup> time_point \<times> 'v" where
  "ss_abs hp s k = map_option (\<lambda>(hnd, v). (fst (ss_entry hp s hnd), v)) (ss_map s k)"

definition visible :: "time_point \<Rightarrow> ('k \<rightharpoonup> time_point \<times> 'v) \<Rightarrow> 'k \<rightharpoonup> 'v" where
  "visible now m k = (case m k of Some (t, v) \<Rightarrow> if now > t then None else Some v | None \<Rightarrow> None)"

definition unexpired :: "time_point \<Rightarrow> ('k \<rightharpoonup> time_point \<times> 'v) \<Rightarrow> 'k \<rightharpoonup> time_point \<times> 'v" where
  "unexpired now m k = (case m k of Some (t, v) \<Rightarrow> if now > t then None else Some (t, v) | None \<Rightarrow> None)"

context mutable_heap
begin

lemma ss_get_value_ptr_abs: "ss_get_value_ptr hp now key s = visible now (ss_abs hp s) key"
  by (auto simp: ss_get_value_ptr_def visible_def ss_abs_def ss_is_expired_def split: option.split)

lemma abs_same:
  assumes "ss_map s' k = ss_map s k" "\<And>hnd v. ss_map s k = Some (hnd, v) \<Longrightarrow> entries hp (ss_heap s') hnd = entries hp (ss_heap s) hnd"
  shows "ss_abs hp s' k = ss_abs hp s k"
  using assms by (cases "ss_map s k") (auto simp: ss_abs_def ss_entry_def)

lemma refresh_handle_abs:
  assumes "ss_inv hp s" "ss_map s key = Some (hnd, v)"
  shows "ss_inv hp (ss_refresh_handle hp now hnd s)"
    "ss_abs hp (ss_refresh_handle hp now hnd s) = (ss_abs hp s)(key \<mapsto> (now + ss_lifetime s, v))"
    "ss_lifetime (ss_refresh_handle hp now hnd s) = ss_lifetime s"
proof -
  obtain t where t: "entries hp (ss_heap s) hnd = Some (t, key)" using assms unfolding ss_inv_def by blast
  have e: "entries hp (ss_heap (ss_refresh_handle hp now hnd s)) = (entries hp (ss_heap s))(hnd \<mapsto> (now + ss_lifetime s, key))"
    using entries_update [of "ss_heap s" hnd] t by (simp add: ss_refresh_handle_def ss_entry_def)
  have m: "ss_map (ss_refresh_handle hp now hnd s) = ss_map s" by (simp add: ss_refresh_handle_def)
  show "ss_inv hp (ss_refresh_handle hp now hnd s)"
    using assms t unfolding ss_inv_def e m by (auto split: if_splits) (metis option.inject prod.inject)+
  have "h' \<noteq> hnd" if "ss_map s k = Some (h', v')" "k \<noteq> key" for k h' v'
    using assms(1) that t unfolding ss_inv_def by (metis option.inject prod.inject)
  then have "ss_abs hp (ss_refresh_handle hp now hnd s) k = ss_abs hp s k" if "k \<noteq> key" for k
    using that by (intro abs_same) (auto simp: m e)
  moreover have "ss_abs hp (ss_refresh_handle hp now hnd s) key = Some (now + ss_lifetime s, v)"
    using assms(2) by (simp add: ss_abs_def m ss_entry_def e)
  ultimately show "ss_abs hp (ss_refresh_handle hp now hnd s) = (ss_abs hp s)(key \<mapsto> (now + ss_lifetime s, v))"
    by (intro ext) simp
  show "ss_lifetime (ss_refresh_handle hp now hnd s) = ss_lifetime s" by (simp add: ss_refresh_handle_def)
qed

lemma insert_abs:
  assumes "ss_inv hp s" "ss_map s key = None" "heap_push hp (t, key) (ss_heap s) = (hnd, h)"
  shows "ss_inv hp (s\<lparr>ss_heap := h, ss_map := (ss_map s)(key \<mapsto> (hnd, v))\<rparr>)"
    "ss_abs hp (s\<lparr>ss_heap := h, ss_map := (ss_map s)(key \<mapsto> (hnd, v))\<rparr>) = (ss_abs hp s)(key \<mapsto> (t, v))"
proof -
  have e: "entries hp (ss_heap s) hnd = None" "entries hp h = (entries hp (ss_heap s))(hnd \<mapsto> (t, key))"
    using entries_push [OF assms(3)] by auto
  have other: "h' \<noteq> hnd" if "ss_map s k = Some (h', v')" for k h' v'
    using assms(1) that e(1) unfolding ss_inv_def by force
  show "ss_inv hp (s\<lparr>ss_heap := h, ss_map := (ss_map s)(key \<mapsto> (hnd, v))\<rparr>)"
    using assms(1,2) other unfolding ss_inv_def by (auto simp: e split: if_splits) (metis option.distinct(1))+
  let ?s = "s\<lparr>ss_heap := h, ss_map := (ss_map s)(key \<mapsto> (hnd, v))\<rparr>"
  have "ss_abs hp ?s k = ss_abs hp s k" if "k \<noteq> key" for k
    using that other by (intro abs_same) (auto simp: e)
  moreover have "ss_abs hp ?s key = Some (t, v)" by (simp add: ss_abs_def ss_entry_def e)
  ultimately show "ss_abs hp ?s = (ss_abs hp s)(key \<mapsto> (t, v))" by (intro ext) simp
qed

lemma get_data_abs:
  assumes "ss_inv hp s"
  shows "ss_inv hp (ss_get_data hp c now key s) \<and> ss_lifetime (ss_get_data hp c now key s) = ss_lifetime s \<and>
    ss_abs hp (ss_get_data hp c now key s) =
      (case ss_abs hp s key of None \<Rightarrow> (ss_abs hp s)(key \<mapsto> (now + ss_lifetime s, c))
       | Some (t, v) \<Rightarrow> if now > t then (ss_abs hp s)(key \<mapsto> (now + ss_lifetime s, v)) else ss_abs hp s)"
proof (cases "ss_map s key")
  case None
  obtain hnd h where push: "heap_push hp (now + ss_lifetime s, key) (ss_heap s) = (hnd, h)" by fastforce
  show ?thesis using insert_abs [OF assms None push] None push by (simp add: ss_get_data_def ss_abs_def [of hp s key])
next
  case (Some a)
  then obtain hnd v where "ss_map s key = Some (hnd, v)" by fastforce
  then show ?thesis using refresh_handle_abs [OF assms] assms
    by (simp add: ss_get_data_def ss_abs_def [of hp s key] ss_is_expired_def)
qed

lemma refresh_abs:
  assumes "ss_inv hp s"
  shows "ss_inv hp (ss_refresh hp c now key s) \<and> ss_lifetime (ss_refresh hp c now key s) = ss_lifetime s \<and>
    ss_abs hp (ss_refresh hp c now key s) =
      (ss_abs hp s)(key \<mapsto> (now + ss_lifetime s, case ss_abs hp s key of None \<Rightarrow> c | Some (t, v) \<Rightarrow> v))"
proof (cases "ss_map s key")
  case None
  then show ?thesis using get_data_abs [OF assms, of c now key] by (simp add: ss_refresh_def ss_abs_def [of hp s key])
next
  case (Some a)
  then obtain hnd v where "ss_map s key = Some (hnd, v)" by fastforce
  then show ?thesis using refresh_handle_abs [OF assms] by (simp add: ss_refresh_def ss_abs_def [of hp s key])
qed

lemma modify_abs:
  assumes "ss_inv hp s"
  shows "ss_inv hp (ss_modify key f s) \<and> ss_lifetime (ss_modify key f s) = ss_lifetime s \<and>
    ss_abs hp (ss_modify key f s) = (ss_abs hp s)(key := map_option (\<lambda>(t, v). (t, f v)) (ss_abs hp s key))"
proof (cases "ss_map s key")
  case None
  then show ?thesis using assms by (auto simp: ss_modify_def ss_abs_def [of hp s key] fun_upd_idem)
next
  case (Some a)
  then obtain hnd v where hv: "ss_map s key = Some (hnd, v)" by fastforce
  then have m: "ss_map (ss_modify key f s) = (ss_map s)(key \<mapsto> (hnd, f v))" "ss_heap (ss_modify key f s) = ss_heap s"
    "ss_lifetime (ss_modify key f s) = ss_lifetime s" by (simp_all add: ss_modify_def)
  have "ss_inv hp (ss_modify key f s)"
    using assms hv unfolding ss_inv_def m by (simp split: if_split) (metis option.inject prod.inject)
  moreover have "ss_abs hp (ss_modify key f s) k = ss_abs hp s k" if "k \<noteq> key" for k
    using that by (intro abs_same) (auto simp: m)
  moreover have "ss_abs hp (ss_modify key f s) key = map_option (\<lambda>(t, v). (t, f v)) (ss_abs hp s key)"
    using hv by (simp add: ss_abs_def ss_entry_def m)
  ultimately show ?thesis using m(3) by (auto simp: fun_eq_iff)
qed

lemma pop_abs:
  assumes "ss_inv hp s" "heap_top hp (ss_heap s) = Some (t, key)"
  shows "ss_inv hp (s\<lparr>ss_map := (ss_map s)(key := None), ss_heap := heap_pop hp (ss_heap s)\<rparr>)"
    "ss_abs hp (s\<lparr>ss_map := (ss_map s)(key := None), ss_heap := heap_pop hp (ss_heap s)\<rparr>) = (ss_abs hp s)(key := None)"
    "\<exists>v. ss_abs hp s key = Some (t, v)" "\<And>k t' v. ss_abs hp s k = Some (t', v) \<Longrightarrow> t \<le> t'"
    "card (dom (entries hp (heap_pop hp (ss_heap s)))) < card (dom (entries hp (ss_heap s)))"
proof -
  obtain hnd where h: "entries hp (ss_heap s) hnd = Some (t, key)" "\<forall>y\<in>ran (entries hp (ss_heap s)). t \<le> fst y"
    "entries hp (heap_pop hp (ss_heap s)) = (entries hp (ss_heap s))(hnd := None)"
    using top_Some [OF assms(2)] by auto
  obtain v where v: "ss_map s key = Some (hnd, v)" using assms(1) h(1) unfolding ss_inv_def by blast
  have other: "h' \<noteq> hnd" if "ss_map s k = Some (h', v')" "k \<noteq> key" for k h' v'
    using assms(1) that h(1) unfolding ss_inv_def by (metis option.inject prod.inject)
  show "ss_inv hp (s\<lparr>ss_map := (ss_map s)(key := None), ss_heap := heap_pop hp (ss_heap s)\<rparr>)"
    using assms(1) other v unfolding ss_inv_def by (auto simp: h(3) split: if_splits) (metis option.inject prod.inject)+
  let ?s = "s\<lparr>ss_map := (ss_map s)(key := None), ss_heap := heap_pop hp (ss_heap s)\<rparr>"
  have "ss_abs hp ?s k = ss_abs hp s k" if "k \<noteq> key" for k
    using that other by (intro abs_same) (auto simp: h(3))
  moreover have "ss_abs hp ?s key = None" by (simp add: ss_abs_def)
  ultimately show "ss_abs hp ?s = (ss_abs hp s)(key := None)" by (intro ext) simp
  show "\<exists>v. ss_abs hp s key = Some (t, v)" using v h(1) by (simp add: ss_abs_def ss_entry_def)
  show "t \<le> t'" if visible: "ss_abs hp s k = Some (t', v')" for k t' v'
  proof -
    obtain h' where h': "ss_map s k = Some (h', v')" "t' = fst (ss_entry hp s h')" using visible by (auto simp: ss_abs_def)
    then obtain t'' where "entries hp (ss_heap s) h' = Some (t'', k)" using assms(1) unfolding ss_inv_def by blast
    with h' h(2) show ?thesis by (metis fst_conv option.sel ranI ss_entry_def)
  qed
  show "card (dom (entries hp (heap_pop hp (ss_heap s)))) < card (dom (entries hp (ss_heap s)))"
    unfolding h(3) dom_fun_upd using finite_entries [of "ss_heap s"] domI [of "entries hp (ss_heap s)", OF h(1)] by (simp only: card_Diff1_less refl if_True)
qed

lemma drop_expired_abs:
  assumes "ss_inv hp s"
  shows "\<exists>s'. ss_drop_expired hp now s = Some s' \<and> ss_inv hp s' \<and> ss_lifetime s' = ss_lifetime s \<and> ss_abs hp s' = unexpired now (ss_abs hp s)"
  using assms
proof (induction "card (dom (entries hp (ss_heap s)))" arbitrary: s rule: less_induct)
  case less
  show ?case
  proof (cases "\<exists>t key. heap_top hp (ss_heap s) = Some (t, key) \<and> now > t")
    case True
    then obtain t key where tk: "heap_top hp (ss_heap s) = Some (t, key)" "now > t" by blast
    let ?s = "s\<lparr>ss_map := (ss_map s)(key := None), ss_heap := heap_pop hp (ss_heap s)\<rparr>"
    note pop = pop_abs [OF less.prems tk(1)]
    have "ss_drop_expired hp now s = ss_drop_expired hp now ?s"
      unfolding ss_drop_expired_def by (subst while_option_unfold) (use tk in \<open>simp add: ss_is_expired_def\<close>)
    moreover have "unexpired now ((ss_abs hp s)(key := None)) = unexpired now (ss_abs hp s)"
      using pop(3) tk(2) by (intro ext) (auto simp: unexpired_def)
    ultimately show ?thesis using less.hyps [of ?s] pop(1,2,5) by simp
  next
    case False
    have "ss_drop_expired hp now s = Some s"
      unfolding ss_drop_expired_def by (subst while_option_unfold) (use False in \<open>auto simp: ss_is_expired_def split: option.split\<close>)
    moreover have "unexpired now (ss_abs hp s) = ss_abs hp s"
    proof (cases "heap_top hp (ss_heap s)")
      case None
      then have "ss_map s k = None" for k using top_None less.prems unfolding ss_inv_def by (cases "ss_map s k") fastforce+
      then show ?thesis by (intro ext) (simp add: unexpired_def ss_abs_def)
    next
      case (Some x)
      then obtain t key where "heap_top hp (ss_heap s) = Some (t, key)" by (cases x) auto
      then have "\<not> now > t'" if "ss_abs hp s k = Some (t', v)" for k t' v
        using pop_abs(4) [OF less.prems _ that] False by fastforce
      then show ?thesis by (intro ext) (auto simp: unexpired_def split: option.split)
    qed
    ultimately show ?thesis using less.prems by simp
  qed
qed

end

text \<open>Sequences of operations, on the concrete and on the abstract map.\<close>

datatype ('k, 'v) soft_op = Get_Value 'k 'v time_point | Refresh 'k 'v time_point | Modify 'k "'v \<Rightarrow> 'v" | Drop_Expired time_point

fun ss_step :: "('h, 'hd, 'k) heap_ops \<Rightarrow> ('k, 'v) soft_op \<Rightarrow> ('h, 'hd, 'k, 'v) SoftStateMap \<Rightarrow> ('h, 'hd, 'k, 'v) SoftStateMap option" where
  "ss_step hp (Get_Value k c now) s = Some (ss_get_data hp c now k s)"
| "ss_step hp (Refresh k c now) s = Some (ss_refresh hp c now k s)"
| "ss_step hp (Modify k f) s = Some (ss_modify k f s)"
| "ss_step hp (Drop_Expired now) s = ss_drop_expired hp now s"

fun ss_run :: "('h, 'hd, 'k) heap_ops \<Rightarrow> ('k, 'v) soft_op list \<Rightarrow> ('h, 'hd, 'k, 'v) SoftStateMap \<Rightarrow> ('h, 'hd, 'k, 'v) SoftStateMap option" where
  "ss_run hp [] s = Some s"
| "ss_run hp (p # ps) s = (case ss_step hp p s of None \<Rightarrow> None | Some s' \<Rightarrow> ss_run hp ps s')"

fun expiring_step :: "duration \<Rightarrow> ('k, 'v) soft_op \<Rightarrow> ('k \<rightharpoonup> time_point \<times> 'v) \<Rightarrow> 'k \<rightharpoonup> time_point \<times> 'v" where
  "expiring_step lt (Get_Value k c now) m =
     (case m k of None \<Rightarrow> m(k \<mapsto> (now + lt, c)) | Some (t, v) \<Rightarrow> if now > t then m(k \<mapsto> (now + lt, v)) else m)"
| "expiring_step lt (Refresh k c now) m = m(k \<mapsto> (now + lt, case m k of None \<Rightarrow> c | Some (t, v) \<Rightarrow> v))"
| "expiring_step lt (Modify k f) m = m(k := map_option (\<lambda>(t, v). (t, f v)) (m k))"
| "expiring_step lt (Drop_Expired now) m = unexpired now m"

lemma ss_abs_empty: "ss_abs hp \<lparr>ss_lifetime = lt, ss_heap = h, ss_map = Map.empty\<rparr> = Map.empty"
  by (intro ext) (simp add: ss_abs_def)

lemma ss_run_refines:
  assumes "mutable_heap hp" "ss_inv hp s"
  shows "\<exists>s'. ss_run hp ps s = Some s' \<and> ss_inv hp s' \<and> ss_abs hp s' = fold (expiring_step (ss_lifetime s)) ps (ss_abs hp s)"
  using assms(2)
proof (induction ps arbitrary: s)
  case Nil
  then show ?case by simp
next
  case (Cons p ps)
  have "\<exists>s'. ss_step hp p s = Some s' \<and> ss_inv hp s' \<and> ss_lifetime s' = ss_lifetime s \<and> ss_abs hp s' = expiring_step (ss_lifetime s) p (ss_abs hp s)"
    using mutable_heap.get_data_abs [OF assms(1) Cons.prems] mutable_heap.refresh_abs [OF assms(1) Cons.prems]
      mutable_heap.modify_abs [OF assms(1) Cons.prems] mutable_heap.drop_expired_abs [OF assms(1) Cons.prems]
    by (cases p) auto
  then obtain s1 where s1: "ss_step hp p s = Some s1" "ss_inv hp s1" "ss_lifetime s1 = ss_lifetime s"
    "ss_abs hp s1 = expiring_step (ss_lifetime s) p (ss_abs hp s)" by blast
  then show ?case using Cons.IH [OF s1(2)] by simp
qed

text \<open>
  C27: the soft-state map is a map whose entries expire. Every sequence of its operations
  ends, and what it then returns for a key at a moment is what a plain map from keys to
  expiry and value returns after the same operations; in particular the map and the heap
  always agree and dropping expired entries only removes what no lookup returns any more.
\<close>

theorem soft_state_refines:
  assumes "mutable_heap hp" "entries hp h = Map.empty"
  shows "\<exists>s. ss_run hp ps \<lparr>ss_lifetime = lt, ss_heap = h, ss_map = Map.empty\<rparr> = Some s \<and>
    (\<forall>key now. ss_get_value_ptr hp now key s = visible now (fold (expiring_step lt) ps Map.empty) key)"
proof -
  let ?s0 = "\<lparr>ss_lifetime = lt, ss_heap = h, ss_map = Map.empty\<rparr>"
  have inv: "ss_inv hp ?s0" using assms(2) by (simp add: ss_inv_def)
  show ?thesis
    using ss_run_refines [OF assms(1) inv, of ps] by (auto simp: mutable_heap.ss_get_value_ptr_abs [OF assms(1)] ss_abs_empty)
qed

theorem soft_state_refines_witness:
  "\<exists>s. ss_run list_heap_ops [Get_Value 1 0 0, Get_Value 2 0 3, Refresh (1 :: nat) 0 4, Modify 1 Suc, Drop_Expired 14]
      \<lparr>ss_lifetime = 10, ss_heap = [], ss_map = Map.empty\<rparr> = Some s \<and>
    ss_get_value_ptr list_heap_ops 14 1 s = Some 1 \<and> ss_get_value_ptr list_heap_ops 14 2 s = None \<and> ss_get_value_ptr list_heap_ops 15 1 s = None"
proof -
  have "mutable_heap list_heap_ops" by unfold_locales
  moreover have "entries list_heap_ops [] = Map.empty" by (simp add: list_heap_ops_def)
  ultimately have "\<exists>s. ss_run list_heap_ops [Get_Value 1 0 0, Get_Value 2 0 3, Refresh (1 :: nat) 0 4, Modify 1 Suc, Drop_Expired 14]
      \<lparr>ss_lifetime = 10, ss_heap = [], ss_map = Map.empty\<rparr> = Some s \<and> (\<forall>key now. ss_get_value_ptr list_heap_ops now key s =
      visible now (fold (expiring_step 10) [Get_Value 1 0 0, Get_Value 2 0 3, Refresh (1 :: nat) 0 4, Modify 1 Suc, Drop_Expired 14] Map.empty) key)"
    using soft_state_refines [of list_heap_ops "[]" "[Get_Value 1 0 0, Get_Value 2 0 3, Refresh (1 :: nat) 0 4, Modify 1 Suc, Drop_Expired 14]" 10] by blast
  moreover have "visible 14 (fold (expiring_step 10) [Get_Value 1 0 0, Get_Value 2 0 3, Refresh (1 :: nat) 0 4, Modify 1 Suc, Drop_Expired 14] Map.empty) 1 = Some 1"
    "visible 14 (fold (expiring_step 10) [Get_Value 1 0 0, Get_Value 2 0 3, Refresh (1 :: nat) 0 4, Modify 1 Suc, Drop_Expired 14] Map.empty) 2 = (None :: nat option)"
    "visible 15 (fold (expiring_step 10) [Get_Value 1 0 0, Get_Value 2 0 3, Refresh (1 :: nat) 0 4, Modify 1 Suc, Drop_Expired 14] Map.empty) 1 = (None :: nat option)"
    by (simp_all add: visible_def unexpired_def)
  ultimately show ?thesis by (metis (no_types))
qed

end
