(* ===== verification/Gn_Pending.thy ===== *)
theory Gn_Pending
  imports Gn_Parser Gn_Packet_Buffer
begin

text \<open>
  Packets that wait for transmission: the PDU with one extended header of
  \<open>extended_pdu.hpp\<close>, the pending packet of \<open>pending_packet.hpp\<close> and the
  forwarding buffer over pending packets that \<open>router.cpp\<close> uses. A
  \<open>Clock::duration\<close> counts microseconds. The payload is its octets on the wire, from
  the transport layer up; the size of a secured message is a parameter.
\<close>

record ('e, 's) ExtendedPdu =
  pdu_basic :: BasicHeader
  pdu_common :: CommonHeader
  pdu_extended :: 'e
  pdu_secured :: "'s option"

text \<open>The interface \<open>Pdu\<close> of an extended PDU; \<open>extended_variant\<close> wraps the header.\<close>

definition as_pdu :: "('e \<Rightarrow> HeaderVariant) \<Rightarrow> ('e, 's) ExtendedPdu \<Rightarrow> 's Pdu" where
  "as_pdu wrap p = \<lparr>basic = pdu_basic p, common = pdu_common p, extended = wrap (pdu_extended p), secured = pdu_secured p\<rparr>"

definition convert_for_signing :: "('e \<Rightarrow> HeaderVariant) \<Rightarrow> ('e, 's) ExtendedPdu \<Rightarrow> byte list" where
  "convert_for_signing wrap p = serialize_common (pdu_common p) @ serialize_variant (wrap (pdu_extended p))"

section \<open>Durations of the clock\<close>

definition clock_of_seconds :: "rat \<Rightarrow> duration" where
  "clock_of_seconds x = (if 0 \<le> x then \<lfloor>x * 1000000\<rfloor> else \<lceil>x * 1000000\<rceil>)"

definition seconds_of_clock :: "duration \<Rightarrow> rat" where
  "seconds_of_clock d = of_int d / 1000000"

lemma clock_seconds [simp]: "clock_of_seconds (seconds_of_clock d) = d"
  by (simp add: clock_of_seconds_def seconds_of_clock_def)

section \<open>Pending packets\<close>

text \<open>The pointers are null in a packet that has been moved from; the action is left abstract.\<close>

record ('e, 's, 'f) PendingPacket =
  pp_pdu :: "('e, 's) ExtendedPdu option"
  pp_payload :: "byte list option"
  pp_function :: 'f

definition pending_process :: "(('e, 's) ExtendedPdu \<Rightarrow> byte list \<Rightarrow> 'f \<Rightarrow> 'r) \<Rightarrow> ('e, 's, 'f) PendingPacket \<Rightarrow> 'r option" where
  "pending_process call p =
     (case (pp_pdu p, pp_payload p) of (Some pdu, Some pl) \<Rightarrow> Some (call pdu pl (pp_function p)) | _ \<Rightarrow> None)"

definition pending_length :: "('s \<Rightarrow> nat) \<Rightarrow> ('e \<Rightarrow> HeaderVariant) \<Rightarrow> ('e, 's, 'f) PendingPacket \<Rightarrow> size_t" where
  "pending_length get_size wrap p =
     (case pp_pdu p of Some pdu \<Rightarrow> of_nat (pdu_length get_size (as_pdu wrap pdu)) | None \<Rightarrow> 0) +
     (case pp_payload p of Some pl \<Rightarrow> of_nat (length pl) | None \<Rightarrow> 0)"

definition set_lifetime :: "8 word \<Rightarrow> ('e, 's) ExtendedPdu \<Rightarrow> ('e, 's) ExtendedPdu" where
  "set_lifetime lt pdu = pdu\<lparr>pdu_basic := (pdu_basic pdu)\<lparr>lifetime := lt\<rparr>\<rparr>"

definition pending_reduce_lifetime :: "duration \<Rightarrow> ('e, 's, 'f) PendingPacket \<Rightarrow> duration \<times> ('e, 's, 'f) PendingPacket" where
  "pending_reduce_lifetime queuing_time p =
     (case pp_pdu p of None \<Rightarrow> (0, p)
      | Some pdu \<Rightarrow>
          let packet_lifetime = clock_of_seconds (Lifetime_decode (lifetime (pdu_basic pdu))) in
          if queuing_time \<le> 0 then (packet_lifetime, p)
          else if queuing_time < packet_lifetime then
            (packet_lifetime - queuing_time,
             p\<lparr>pp_pdu := Some (set_lifetime (Lifetime_encode (seconds_of_clock (packet_lifetime - queuing_time))) pdu)\<rparr>)
          else (0, p\<lparr>pp_pdu := Some (set_lifetime (Lifetime_set 0 0) pdu)\<rparr>))"

definition pending_duplicate :: "('e, 's, 'f) PendingPacket \<Rightarrow> ('e, 's, 'f) PendingPacket" where
  "pending_duplicate p =
     p\<lparr>pp_payload := (if (case pp_pdu p of None \<Rightarrow> True | Some pdu \<Rightarrow> pdu_secured pdu \<noteq> None) then Some [] else pp_payload p)\<rparr>"

text \<open>The forwarding buffer's view of a pending packet, \<open>PendingPacketBufferData\<close>.\<close>

definition pending_data :: "('s \<Rightarrow> nat) \<Rightarrow> ('e \<Rightarrow> HeaderVariant) \<Rightarrow> ('e, 's, 'f) PendingPacket data_ops" where
  "pending_data get_size wrap = \<lparr>data_length = pending_length get_size wrap, reduce_lifetime = pending_reduce_lifetime\<rparr>"

lemma pending_reduce_keeps:
  assumes "pending_reduce_lifetime q p = (lt, p')"
  shows "pending_length get_size wrap p' = pending_length get_size wrap p" "pp_payload p' = pp_payload p" "pp_function p' = pp_function p"
    "map_option pdu_extended (pp_pdu p') = map_option pdu_extended (pp_pdu p)" "map_option pdu_common (pp_pdu p') = map_option pdu_common (pp_pdu p)"
    "map_option pdu_secured (pp_pdu p') = map_option pdu_secured (pp_pdu p)"
  using assms
  by (auto simp: pending_reduce_lifetime_def pending_length_def set_lifetime_def as_pdu_def pdu_length_def Let_def split: option.splits if_splits)

interpretation pending: buffer_data "pending_data get_size wrap" for get_size wrap
  by unfold_locales (simp add: pending_data_def pending_reduce_keeps(1) [OF prod.collapse [symmetric]])

end
