(* ===== verification/Gn_Location.thy ===== *)
theory Gn_Location
  imports Gn_Parser Gn_Memory Gn_Soft_State Gn_Pending "HOL-Library.List_Lexorder"
begin

text \<open>
  The location table of \<open>location_table.cpp\<close>: what a station knows about others, kept in a
  soft-state map under their link-layer address. The data rate of a station is a rational
  number, absent until it is first updated; \<open>Clock::time_point\<close> counts microseconds in 64
  bits. The table is enumerated in an order the standard library does not specify, which is the
  parameter \<open>keys\<close>.
\<close>

section \<open>Link-layer addresses in order\<close>

text \<open>A linear order of addresses, so that finite sets of them can be enumerated.\<close>

instantiation MacAddress :: linorder
begin

definition less_eq_MacAddress :: "MacAddress \<Rightarrow> MacAddress \<Rightarrow> bool" where
  "x \<le> y \<longleftrightarrow> octets x \<le> octets y"

definition less_MacAddress :: "MacAddress \<Rightarrow> MacAddress \<Rightarrow> bool" where
  "(x :: MacAddress) < y \<longleftrightarrow> octets x < octets y"

instance
proof
  fix x y z :: MacAddress
  have inj: "octets x = octets y \<Longrightarrow> x = y" by (cases x; cases y) auto
  show "x < y \<longleftrightarrow> x \<le> y \<and> \<not> y \<le> x" "x \<le> x" "x \<le> y \<or> y \<le> x"
    unfolding less_eq_MacAddress_def less_MacAddress_def by (rule less_le_not_le order_refl linear)+
  show "x \<le> y \<Longrightarrow> y \<le> z \<Longrightarrow> x \<le> z" unfolding less_eq_MacAddress_def by (rule order_trans)
  show "x \<le> y \<Longrightarrow> y \<le> x \<Longrightarrow> x = y" unfolding less_eq_MacAddress_def by (rule inj) (rule order_antisym)
qed

end

text \<open>An iteration visits every key of the table exactly once.\<close>

locale key_order =
  fixes hp :: "('h, 'hd, 'k) heap_ops" and keys :: "('h, 'hd, 'k, 'v) SoftStateMap \<Rightarrow> 'k list"
  assumes set_keys: "ss_inv hp t \<Longrightarrow> set (keys t) = dom (ss_map t)"
    and distinct_keys: "distinct (keys t)"

definition sorted_keys :: "((nat \<times> time_point \<times> 'k) list, nat, 'k::linorder, 'v) SoftStateMap \<Rightarrow> 'k list" where
  "sorted_keys t = sort (remdups (map (snd \<circ> snd) (AList.clearjunk (ss_heap t))))"

interpretation sorted_keys: key_order list_heap_ops sorted_keys
proof
  fix t :: "((nat \<times> time_point \<times> 'a) list, nat, 'a, 'b) SoftStateMap"
  assume inv: "ss_inv list_heap_ops t"
  have "k \<in> set (sorted_keys t) \<longleftrightarrow> (\<exists>hnd x. map_of (ss_heap t) hnd = Some (x, k))" for k
  proof -
    have "(hnd, x, k) \<in> set (AList.clearjunk (ss_heap t)) \<longleftrightarrow> map_of (ss_heap t) hnd = Some (x, k)" for hnd x
      by (metis distinct_clearjunk map_of_clearjunk map_of_eq_Some_iff)
    then show ?thesis by (force simp: sorted_keys_def)
  qed
  then show "set (sorted_keys t) = dom (ss_map t)"
    using inv unfolding ss_inv_def list_heap_ops_def by (auto simp: dom_def) blast+
qed (simp add: sorted_keys_def)

section \<open>Entries\<close>

definition time_point_min :: time_point where "time_point_min = - (2 ^ 63)"
definition time_point_max :: time_point where "time_point_max = 2 ^ 63 - 1"

definition timestamp_of :: "time_point \<Rightarrow> Timestamp" where
  "timestamp_of t = word_of_int (if 0 \<le> t then t div 1000 else - (- t div 1000))"

record LocTEX_G5 =
  local_update :: Timestamp
  source_update :: Timestamp
  loctex_dcc_mco :: DccMcoField

record LocationTableEntry =
  lte_is_neighbour :: time_point
  lte_has_position_vector :: bool
  lte_position_vector :: LongPositionVector
  lte_pdr :: "rat option"
  lte_pdr_updated :: time_point
  lte_dpl :: "DuplicatePacketList option"
  lte_loctex :: "LocTEX_G5 option"

definition new_entry :: "time_point \<Rightarrow> LocationTableEntry" where
  "new_entry now = \<lparr>lte_is_neighbour = time_point_min, lte_has_position_vector = False, lte_position_vector = zero_lpv,
     lte_pdr = None, lte_pdr_updated = now, lte_dpl = None, lte_loctex = None\<rparr>"

definition link_layer_address :: "LocationTableEntry \<Rightarrow> MacAddress" where
  "link_layer_address e = m_mid (gn_addr (lte_position_vector e))"

definition is_neighbour :: "time_point \<Rightarrow> LocationTableEntry \<Rightarrow> bool" where
  "is_neighbour now e \<longleftrightarrow> lte_is_neighbour e > now"

definition update_pdr :: "time_point \<Rightarrow> nat \<Rightarrow> rat \<Rightarrow> LocationTableEntry \<Rightarrow> LocationTableEntry" where
  "update_pdr now packet_size beta e =
     (case lte_pdr e of
        None \<Rightarrow> e\<lparr>lte_pdr := Some 0, lte_pdr_updated := now\<rparr>
      | Some pdr \<Rightarrow>
          if beta > 0 \<and> beta < 1 then
            let time_period = seconds_of_clock (now - lte_pdr_updated e)
            in if time_period > 0 then
                 e\<lparr>lte_pdr := Some (pdr * beta + (1 - beta) * (of_nat packet_size / time_period)), lte_pdr_updated := now\<rparr>
               else e
          else e)"

definition set_position_vector :: "LongPositionVector \<Rightarrow> LocationTableEntry \<Rightarrow> bool \<times> LocationTableEntry" where
  "set_position_vector pv e =
     (if is_valid_lpv pv then (True, e\<lparr>lte_has_position_vector := True, lte_position_vector := pv\<rparr>) else (False, e))"

definition update_position_vector :: "LongPositionVector \<Rightarrow> LocationTableEntry \<Rightarrow> bool \<times> LocationTableEntry" where
  "update_position_vector lpv e =
     (if lte_has_position_vector e then
        if timestamp_less (timestamp (lte_position_vector e)) (timestamp lpv) then set_position_vector lpv e else (False, e)
      else set_position_vector lpv e)"

definition set_neighbour :: "bool \<Rightarrow> LocationTableEntry \<Rightarrow> LocationTableEntry" where
  "set_neighbour flag e = e\<lparr>lte_is_neighbour := (if flag then time_point_max else time_point_min)\<rparr>"

definition set_neighbour_expiry :: "time_point \<Rightarrow> bool \<Rightarrow> duration \<Rightarrow> LocationTableEntry \<Rightarrow> LocationTableEntry" where
  "set_neighbour_expiry now flag expiry e =
     (if flag \<and> expiry > 0 then e\<lparr>lte_is_neighbour := now + expiry\<rparr> else set_neighbour flag e)"

section \<open>The table\<close>

type_synonym ('h, 'hd) LocationTable = "('h, 'hd, MacAddress, LocationTableEntry) SoftStateMap"

definition loc_has_entry :: "('h, 'hd, MacAddress) heap_ops \<Rightarrow> time_point \<Rightarrow> Address \<Rightarrow> ('h, 'hd) LocationTable \<Rightarrow> bool" where
  "loc_has_entry hp now addr t = ss_has_value hp now (m_mid addr) t"

text \<open>The entries that have not expired.\<close>

definition loc_entries ::
  "(('h, 'hd) LocationTable \<Rightarrow> MacAddress list) \<Rightarrow> ('h, 'hd, MacAddress) heap_ops \<Rightarrow> time_point \<Rightarrow> ('h, 'hd) LocationTable \<Rightarrow> LocationTableEntry list" where
  "loc_entries keys hp now t = List.map_filter (\<lambda>k. ss_get_value_ptr hp now k t) (keys t)"

definition loc_neighbours ::
  "(('h, 'hd) LocationTable \<Rightarrow> MacAddress list) \<Rightarrow> ('h, 'hd, MacAddress) heap_ops \<Rightarrow> time_point \<Rightarrow> ('h, 'hd) LocationTable \<Rightarrow> LocationTableEntry list" where
  "loc_neighbours keys hp now t = filter (is_neighbour now) (loc_entries keys hp now t)"

definition loc_has_neighbours ::
  "(('h, 'hd) LocationTable \<Rightarrow> MacAddress list) \<Rightarrow> ('h, 'hd, MacAddress) heap_ops \<Rightarrow> time_point \<Rightarrow> ('h, 'hd) LocationTable \<Rightarrow> bool" where
  "loc_has_neighbours keys hp now t \<longleftrightarrow> list_ex (is_neighbour now) (loc_entries keys hp now t)"

definition loc_update :: "('h, 'hd, MacAddress) heap_ops \<Rightarrow> time_point \<Rightarrow> LongPositionVector \<Rightarrow> ('h, 'hd) LocationTable \<Rightarrow> ('h, 'hd) LocationTable" where
  "loc_update hp now lpv t =
     (let mid = m_mid (gn_addr lpv); refreshed = ss_modify mid (snd \<circ> update_position_vector lpv) (ss_refresh hp (new_entry now) now mid t)
      in case ss_get_value_ptr hp now mid t of
           Some e \<Rightarrow>
             if lte_has_position_vector e then
               case update_position_vector lpv e of (updated, e') \<Rightarrow>
                 let t' = ss_modify mid (\<lambda>_. e') t in if updated then ss_refresh hp (new_entry now) now mid t' else t'
             else refreshed
         | None \<Rightarrow> refreshed)"

definition loc_get_or_create_entry :: "('h, 'hd, MacAddress) heap_ops \<Rightarrow> time_point \<Rightarrow> MacAddress \<Rightarrow> ('h, 'hd) LocationTable \<Rightarrow> ('h, 'hd) LocationTable" where
  "loc_get_or_create_entry hp now mac t = ss_get_data hp (new_entry now) now mac t"

definition loc_get_entry :: "('h, 'hd, MacAddress) heap_ops \<Rightarrow> time_point \<Rightarrow> MacAddress \<Rightarrow> ('h, 'hd) LocationTable \<Rightarrow> LocationTableEntry option" where
  "loc_get_entry hp now mac t = ss_get_value_ptr hp now mac t"

definition loc_get_position :: "('h, 'hd, MacAddress) heap_ops \<Rightarrow> time_point \<Rightarrow> MacAddress \<Rightarrow> ('h, 'hd) LocationTable \<Rightarrow> LongPositionVector option" where
  "loc_get_position hp now mac t =
     (case ss_get_value_ptr hp now mac t of
        Some e \<Rightarrow> if lte_has_position_vector e then Some (lte_position_vector e) else None
      | None \<Rightarrow> None)"

section \<open>Laws\<close>

lemma update_position_vector_key:
  "lte_has_position_vector (snd (update_position_vector lpv e)) \<longleftrightarrow> lte_has_position_vector e \<or> is_valid_lpv lpv"
  by (auto simp: update_position_vector_def set_position_vector_def)

context mutable_heap
begin

lemma map_abs_dom: "dom (ss_map s) = dom (ss_abs hp s)"
  by (auto simp: ss_abs_def)

lemma map_finite: "ss_inv hp s \<Longrightarrow> finite (dom (ss_map s))"
proof -
  assume inv: "ss_inv hp s"
  have "dom (ss_map s) \<subseteq> snd ` ran (entries hp (ss_heap s))"
  proof
    fix k assume "k \<in> dom (ss_map s)"
    then obtain hnd v where "ss_map s k = Some (hnd, v)" by auto
    then obtain t where "entries hp (ss_heap s) hnd = Some (t, k)" using inv unfolding ss_inv_def by blast
    then show "k \<in> snd ` ran (entries hp (ss_heap s))" by (auto simp: ran_def intro!: rev_image_eqI)
  qed
  then show ?thesis using finite_subset finite_ran [OF finite_entries] by blast
qed

end

definition stored_entry :: "time_point \<Rightarrow> (MacAddress \<rightharpoonup> time_point \<times> LocationTableEntry) \<Rightarrow> MacAddress \<Rightarrow> LocationTableEntry" where
  "stored_entry now m k = (case m k of None \<Rightarrow> new_entry now | Some (x, e) \<Rightarrow> e)"

text \<open>An update changes the entry of its station only and makes it visible.\<close>

lemma loc_update_spec:
  fixes t :: "('h, 'hd) LocationTable"
  assumes "mutable_heap hp" "ss_inv hp t" "0 \<le> ss_lifetime t"
  shows "ss_inv hp (loc_update hp now lpv t) \<and> ss_lifetime (loc_update hp now lpv t) = ss_lifetime t \<and>
    (\<exists>x\<ge>now. ss_abs hp (loc_update hp now lpv t) =
      (ss_abs hp t)(m_mid (gn_addr lpv) \<mapsto> (x, snd (update_position_vector lpv (stored_entry now (ss_abs hp t) (m_mid (gn_addr lpv)))))))"
proof -
  let ?k = "m_mid (gn_addr lpv)" let ?f = "snd \<circ> update_position_vector lpv"
  note refresh = mutable_heap.refresh_abs [OF assms(1)] and modify = mutable_heap.modify_abs [OF assms(1)]
  have refreshed: "ss_inv hp (ss_modify ?k ?f (ss_refresh hp (new_entry now) now ?k t)) \<and>
      ss_lifetime (ss_modify ?k ?f (ss_refresh hp (new_entry now) now ?k t)) = ss_lifetime t \<and>
      ss_abs hp (ss_modify ?k ?f (ss_refresh hp (new_entry now) now ?k t)) =
        (ss_abs hp t)(?k \<mapsto> (now + ss_lifetime t, ?f (stored_entry now (ss_abs hp t) ?k)))"
    using refresh [OF assms(2), of "new_entry now" now ?k] modify [of "ss_refresh hp (new_entry now) now ?k t" ?k ?f]
    by (auto simp: stored_entry_def split: option.split)
  show ?thesis
  proof (cases "\<exists>e. ss_get_value_ptr hp now ?k t = Some e \<and> lte_has_position_vector e")
    case False
    then have "loc_update hp now lpv t = ss_modify ?k ?f (ss_refresh hp (new_entry now) now ?k t)"
      by (auto simp: loc_update_def Let_def split: option.split)
    then show ?thesis using refreshed assms(3) by (auto intro!: exI [of _ "now + ss_lifetime t"])
  next
    case True
    then obtain e where e: "ss_get_value_ptr hp now ?k t = Some e" "lte_has_position_vector e" by blast
    then obtain x where x: "ss_abs hp t ?k = Some (x, e)" "now \<le> x"
      by (auto simp: mutable_heap.ss_get_value_ptr_abs [OF assms(1)] visible_def split: option.splits if_splits)
    obtain updated e' where u: "update_position_vector lpv e = (updated, e')" by fastforce
    let ?t = "ss_modify ?k (\<lambda>_. e') t"
    have t: "ss_inv hp ?t" "ss_lifetime ?t = ss_lifetime t" "ss_abs hp ?t = (ss_abs hp t)(?k \<mapsto> (x, e'))"
      using modify [OF assms(2), of ?k "\<lambda>_. e'"] x(1) by auto
    have eq: "loc_update hp now lpv t = (if updated then ss_refresh hp (new_entry now) now ?k ?t else ?t)"
      using e u by (simp add: loc_update_def Let_def)
    have s: "stored_entry now (ss_abs hp t) ?k = e" using x(1) by (simp add: stored_entry_def)
    show ?thesis
    proof (cases updated)
      case True
      then show ?thesis unfolding eq s u using t refresh [OF t(1), of "new_entry now" now ?k] assms(3) by (auto intro!: exI [of _ "now + ss_lifetime t"])
    next
      case False
      then show ?thesis unfolding eq s u using t x(2) by auto
    qed
  qed
qed

lemma loc_entries_set:
  assumes "mutable_heap hp" "key_order hp keys" "ss_inv hp t"
  shows "set (loc_entries keys hp now t) = ran (\<lambda>k. ss_get_value_ptr hp now k t)"
proof -
  have "k \<in> dom (ss_map t)" if "ss_get_value_ptr hp now k t = Some e" for k e
    using that by (auto simp: ss_get_value_ptr_def split: option.splits)
  then have "(\<exists>k\<in>dom (ss_map t). ss_get_value_ptr hp now k t = Some e) \<longleftrightarrow> (\<exists>k. ss_get_value_ptr hp now k t = Some e)" for e by blast
  moreover have "e \<in> set (List.map_filter f ks) \<longleftrightarrow> (\<exists>k\<in>set ks. f k = Some e)" for e ks and f :: "MacAddress \<Rightarrow> LocationTableEntry option"
    by (induction ks) (auto simp: List.map_filter_def)
  ultimately show ?thesis
    using key_order.set_keys [OF assms(2,3)] by (auto simp: loc_entries_def ran_def)
qed

lemma has_neighbours_iff:
  assumes "mutable_heap hp" "key_order hp keys" "ss_inv hp t"
  shows "loc_has_neighbours keys hp now t \<longleftrightarrow> (\<exists>k e. loc_get_entry hp now k t = Some e \<and> is_neighbour now e)"
  by (auto simp: loc_has_neighbours_def list_ex_iff loc_entries_set [OF assms] loc_get_entry_def ran_def)

text \<open>
  C28: positions in the location table never go back in time. After an update with a received
  position vector the station's entry exists and has not expired, the entries of all other
  stations are as before, and the station's position is the received one if that is valid and
  newer on the circle of time stamps than the stored one, and the stored one otherwise.
\<close>

theorem location_update_newest:
  fixes t :: "('h, 'hd) LocationTable"
  assumes "mutable_heap hp" "ss_inv hp t" "0 \<le> ss_lifetime t"
  shows "loc_has_entry hp now (gn_addr lpv) (loc_update hp now lpv t) \<and>
    loc_get_position hp now (m_mid (gn_addr lpv)) (loc_update hp now lpv t) =
      (let e = stored_entry now (ss_abs hp t) (m_mid (gn_addr lpv)); old = lte_position_vector e
       in if is_valid_lpv lpv \<and> (lte_has_position_vector e \<longrightarrow> timestamp_less (timestamp old) (timestamp lpv)) then Some lpv
          else if lte_has_position_vector e then Some old else None) \<and>
    (\<forall>mac. mac \<noteq> m_mid (gn_addr lpv) \<longrightarrow> loc_get_entry hp now mac (loc_update hp now lpv t) = loc_get_entry hp now mac t)"
proof -
  obtain x where x: "now \<le> x" "ss_abs hp (loc_update hp now lpv t) =
      (ss_abs hp t)(m_mid (gn_addr lpv) \<mapsto> (x, snd (update_position_vector lpv (stored_entry now (ss_abs hp t) (m_mid (gn_addr lpv))))))"
    using loc_update_spec [OF assms, of now lpv] by blast
  then show ?thesis
    by (auto simp: loc_has_entry_def ss_has_value_def loc_get_position_def loc_get_entry_def mutable_heap.ss_get_value_ptr_abs [OF assms(1)]
        visible_def Let_def update_position_vector_def set_position_vector_def)
qed

theorem location_update_newest_witness:
  "loc_get_position list_heap_ops 5 (m_mid (gn_addr example_lpv)) (loc_update list_heap_ops 5 example_lpv \<lparr>ss_lifetime = 20, ss_heap = [], ss_map = Map.empty\<rparr>) = Some example_lpv"
proof -
  let ?t = "\<lparr>ss_lifetime = 20, ss_heap = [], ss_map = Map.empty\<rparr> :: ((nat \<times> time_point \<times> MacAddress) list, nat) LocationTable"
  have "mutable_heap (list_heap_ops :: ((nat \<times> time_point \<times> MacAddress) list, nat, MacAddress) heap_ops)" by unfold_locales
  moreover have "ss_inv list_heap_ops ?t" by (simp add: ss_inv_def list_heap_ops_def)
  moreover have "is_valid_lpv example_lpv" by code_simp
  ultimately show ?thesis using location_update_newest [of list_heap_ops ?t 5 example_lpv]
    by (simp add: stored_entry_def ss_abs_def new_entry_def)
qed

end
