(* ===== verification/Gn_Cbf.thy ===== *)
theory Gn_Cbf
  imports Gn_Soft_State Gn_Pending "HOL-Library.Multiset" "HOL-Library.Monad_Syntax"
begin

text \<open>
  Contention based forwarding: the packet buffer with a timer per packet of
  \<open>cbf_packet_buffer.cpp\<close> and the duplicate counters of \<open>cbf_counter.cpp\<close>. The
  bidirectional map of Boost that holds the timers is a parameter with its documented
  behaviour as the locale \<open>timer_bimap\<close>; packets and counters are behind the interfaces
  the class itself uses.
\<close>

section \<open>Counters\<close>

text \<open>The interface \<open>CbfCounter\<close>, over the state of an implementation, at a moment.\<close>

record ('id, 'cnt) counter_ops =
  cnt_add :: "time_point \<Rightarrow> 'id \<Rightarrow> 'cnt \<Rightarrow> 'cnt"
  cnt_remove :: "time_point \<Rightarrow> 'id \<Rightarrow> 'cnt \<Rightarrow> 'cnt"
  cnt_increment :: "time_point \<Rightarrow> 'id \<Rightarrow> 'cnt \<Rightarrow> 'cnt"
  cnt_counter :: "time_point \<Rightarrow> 'id \<Rightarrow> 'cnt \<Rightarrow> nat"

text \<open>\<open>operator[]\<close> of the hash map creates a zero entry for a new key.\<close>

definition bump_counter :: "'id \<Rightarrow> ('id \<rightharpoonup> nat) \<Rightarrow> 'id \<rightharpoonup> nat" where
  "bump_counter x m = m(x \<mapsto> (case m x of None \<Rightarrow> 0 | Some n \<Rightarrow> n) + 1)"

definition map_counter :: "'id \<Rightarrow> ('id \<rightharpoonup> nat) \<Rightarrow> nat" where
  "map_counter x m = (case m x of Some n \<Rightarrow> n | None \<Rightarrow> 0)"

definition CbfCounterImmortal :: "('id, 'id \<rightharpoonup> nat) counter_ops" where
  "CbfCounterImmortal = \<lparr>cnt_add = (\<lambda>now. bump_counter), cnt_remove = (\<lambda>now x m. m), cnt_increment = (\<lambda>now. bump_counter),
     cnt_counter = (\<lambda>now. map_counter)\<rparr>"

definition CbfCounterContending :: "('id, 'id \<rightharpoonup> nat) counter_ops" where
  "CbfCounterContending = \<lparr>cnt_add = (\<lambda>now x m. m(x \<mapsto> 1)), cnt_remove = (\<lambda>now x m. m(x := None)), cnt_increment = (\<lambda>now. bump_counter),
     cnt_counter = (\<lambda>now. map_counter)\<rparr>"

text \<open>The fading counters are a soft-state map; a counter is created as zero.\<close>

definition CbfCounterFading :: "('h, 'hd, 'id) heap_ops \<Rightarrow> ('id, ('h, 'hd, 'id, nat) SoftStateMap) counter_ops" where
  "CbfCounterFading hp =
     \<lparr>cnt_add = (\<lambda>now x s. the (ss_drop_expired hp now (ss_modify x Suc (ss_refresh hp 0 now x s)))),
      cnt_remove = (\<lambda>now x s. s),
      cnt_increment = (\<lambda>now x s. ss_modify x Suc (ss_get_data hp 0 now x s)),
      cnt_counter = (\<lambda>now x s. case ss_get_value_ptr hp now x s of Some n \<Rightarrow> n | None \<Rightarrow> 0)\<rparr>"

text \<open>
  The contract the forwarding algorithms use: a packet that was added has been counted, and
  counting again adds one.
\<close>

locale cbf_counter =
  fixes cnt :: "('id, 'cnt) counter_ops" and valid_counter :: "'cnt \<Rightarrow> bool"
  assumes add_counted: "valid_counter c \<Longrightarrow> 1 \<le> cnt_counter cnt now x (cnt_add cnt now x c)"
    and add_other: "valid_counter c \<Longrightarrow> y \<noteq> x \<Longrightarrow> cnt_counter cnt now y (cnt_add cnt now x c) = cnt_counter cnt now y c"
    and increment_counted: "valid_counter c \<Longrightarrow> 1 \<le> cnt_counter cnt now x c \<Longrightarrow> cnt_counter cnt now x (cnt_increment cnt now x c) = cnt_counter cnt now x c + 1"
    and remove_other: "valid_counter c \<Longrightarrow> y \<noteq> x \<Longrightarrow> cnt_counter cnt now y (cnt_remove cnt now x c) = cnt_counter cnt now y c"
    and valid_steps: "valid_counter c \<Longrightarrow> valid_counter (cnt_add cnt now x c) \<and> valid_counter (cnt_remove cnt now x c) \<and> valid_counter (cnt_increment cnt now x c)"

interpretation immortal: cbf_counter CbfCounterImmortal "\<lambda>_. True"
  by unfold_locales (auto simp: CbfCounterImmortal_def bump_counter_def map_counter_def split: option.split)

interpretation contending: cbf_counter CbfCounterContending "\<lambda>_. True"
  by unfold_locales (auto simp: CbfCounterContending_def bump_counter_def map_counter_def split: option.split)

text \<open>The operations of the fading counters, on the abstract map.\<close>

context mutable_heap
begin

lemma fading_add:
  assumes "ss_inv hp s"
  shows "ss_inv hp (cnt_add (CbfCounterFading hp) now x s)" "ss_lifetime (cnt_add (CbfCounterFading hp) now x s) = ss_lifetime s"
    "ss_abs hp (cnt_add (CbfCounterFading hp) now x s) =
      unexpired now ((ss_abs hp s)(x \<mapsto> (now + ss_lifetime s, Suc (case ss_abs hp s x of None \<Rightarrow> 0 | Some (t, v) \<Rightarrow> v))))"
proof -
  note r = refresh_abs [OF assms, of 0 now x]
  note m = modify_abs [of "ss_refresh hp 0 now x s" x Suc]
  note d = drop_expired_abs [of "ss_modify x Suc (ss_refresh hp 0 now x s)" now]
  show "ss_inv hp (cnt_add (CbfCounterFading hp) now x s)" "ss_lifetime (cnt_add (CbfCounterFading hp) now x s) = ss_lifetime s"
    "ss_abs hp (cnt_add (CbfCounterFading hp) now x s) =
      unexpired now ((ss_abs hp s)(x \<mapsto> (now + ss_lifetime s, Suc (case ss_abs hp s x of None \<Rightarrow> 0 | Some (t, v) \<Rightarrow> v))))"
    using r m d by (auto simp: CbfCounterFading_def)
qed

lemma fading_counter_value:
  "cnt_counter (CbfCounterFading hp) now x s = (case visible now (ss_abs hp s) x of Some n \<Rightarrow> n | None \<Rightarrow> 0)"
  by (simp add: CbfCounterFading_def ss_get_value_ptr_abs)

lemma fading_increment:
  assumes "ss_inv hp s" "visible now (ss_abs hp s) x = Some n"
  shows "visible now (ss_abs hp (cnt_increment (CbfCounterFading hp) now x s)) x = Some (Suc n)"
  using get_data_abs [OF assms(1), of 0 now x] modify_abs [of "ss_get_data hp 0 now x s" x Suc] assms(2)
  by (auto simp: CbfCounterFading_def visible_def split: option.splits if_splits)

lemma fading_increment_inv:
  assumes "ss_inv hp s"
  shows "ss_inv hp (cnt_increment (CbfCounterFading hp) now x s)" "ss_lifetime (cnt_increment (CbfCounterFading hp) now x s) = ss_lifetime s"
  using get_data_abs [OF assms(1), of 0 now x] modify_abs [of "ss_get_data hp 0 now x s" x Suc] by (auto simp: CbfCounterFading_def)

end

sublocale mutable_heap \<subseteq> fading: cbf_counter "CbfCounterFading hp" "\<lambda>s. ss_inv hp s \<and> 0 \<le> ss_lifetime s"
proof unfold_locales
  fix s :: "('h, 'hd, 'k, nat) SoftStateMap" and now x y assume s: "ss_inv hp s \<and> 0 \<le> ss_lifetime s"
  then have inv: "ss_inv hp s" and lt: "0 \<le> ss_lifetime s" by auto
  let ?c = "CbfCounterFading hp"
  show "1 \<le> cnt_counter ?c now x (cnt_add ?c now x s)"
    using lt by (auto simp: fading_counter_value fading_add [OF inv] visible_def unexpired_def)
  show "cnt_counter ?c now y (cnt_add ?c now x s) = cnt_counter ?c now y s" if "y \<noteq> x"
    using that by (auto simp: fading_counter_value fading_add [OF inv] visible_def unexpired_def split: option.split)
  show "cnt_counter ?c now x (cnt_increment ?c now x s) = cnt_counter ?c now x s + 1" if "1 \<le> cnt_counter ?c now x s"
    using that fading_increment [OF inv, of now x] by (auto simp: fading_counter_value split: option.splits)
  show "cnt_counter ?c now y (cnt_remove ?c now x s) = cnt_counter ?c now y s" by (simp add: CbfCounterFading_def)
  show "(ss_inv hp (cnt_add ?c now x s) \<and> 0 \<le> ss_lifetime (cnt_add ?c now x s)) \<and>
      (ss_inv hp (cnt_remove ?c now x s) \<and> 0 \<le> ss_lifetime (cnt_remove ?c now x s)) \<and>
      ss_inv hp (cnt_increment ?c now x s) \<and> 0 \<le> ss_lifetime (cnt_increment ?c now x s)"
    using fading_add(1,2) [OF inv] fading_increment_inv [OF inv] inv lt by (simp add: CbfCounterFading_def [of hp])
qed

section \<open>Packets and timers\<close>

record ('s, 'f) CbfPacket =
  cp_packet :: "(GbcGacHeader, 's, 'f) PendingPacket"
  cp_sender :: MacAddress

type_synonym CbfPacketIdentifier = "Address \<times> SequenceNumber"

text \<open>\<open>pdu\<close> asserts that the pointer to the PDU is not null: \<open>None\<close> is a failed assertion.\<close>

definition cbf_identifier :: "('s, 'f) CbfPacket \<Rightarrow> CbfPacketIdentifier option" where
  "cbf_identifier p =
     map_option (\<lambda>pdu. (gn_addr (source_position (pdu_extended pdu)), sequence_number (pdu_extended pdu))) (pp_pdu (cp_packet p))"

definition cbf_length :: "('s \<Rightarrow> nat) \<Rightarrow> ('s, 'f) CbfPacket \<Rightarrow> size_t" where
  "cbf_length get_size p = pending_length get_size Gbc_Header (cp_packet p)"

record Timer =
  expiry :: time_point
  start :: time_point

definition new_timer :: "time_point \<Rightarrow> duration \<Rightarrow> Timer" where
  "new_timer now timeout = \<lparr>expiry = now + timeout, start = now\<rparr>"

definition cbf_reduce_lifetime :: "time_point \<Rightarrow> Timer \<Rightarrow> ('s, 'f) CbfPacket \<Rightarrow> bool \<times> ('s, 'f) CbfPacket" where
  "cbf_reduce_lifetime now timer p =
     (case pending_reduce_lifetime (now - start timer) (cp_packet p) of (left, q) \<Rightarrow> (left > 0, p\<lparr>cp_packet := q\<rparr>))"

lemma cbf_reduce_keeps [simp]:
  "cbf_identifier (snd (cbf_reduce_lifetime now t p)) = cbf_identifier p"
  "cbf_length get_size (snd (cbf_reduce_lifetime now t p)) = cbf_length get_size p"
proof -
  obtain lt q where r: "pending_reduce_lifetime (now - start t) (cp_packet p) = (lt, q)" by fastforce
  show "cbf_identifier (snd (cbf_reduce_lifetime now t p)) = cbf_identifier p"
    using pending_reduce_keeps(4) [OF r] by (cases "pp_pdu q"; cases "pp_pdu (cp_packet p)") (auto simp: cbf_reduce_lifetime_def cbf_identifier_def r)
  show "cbf_length get_size (snd (cbf_reduce_lifetime now t p)) = cbf_length get_size p"
    using pending_reduce_keeps(1) [OF r] by (simp add: cbf_reduce_lifetime_def cbf_length_def r)
qed

text \<open>
  The bidirectional map: relations of a timer, a unique identifier and the list iterator. The
  left view enumerates them by expiry.
\<close>

record ('b, 'id, 'i) bimap_ops =
  bm_left :: "'b \<Rightarrow> (Timer \<times> 'id \<times> 'i) list"
  bm_insert :: "Timer \<Rightarrow> 'id \<Rightarrow> 'i \<Rightarrow> 'b \<Rightarrow> bool \<times> 'b"
  bm_erase :: "'id \<Rightarrow> 'b \<Rightarrow> 'b"
  bm_replace :: "'id \<Rightarrow> Timer \<Rightarrow> 'b \<Rightarrow> 'b"

definition bm_ids :: "('b, 'id, 'i) bimap_ops \<Rightarrow> 'b \<Rightarrow> 'id list" where
  "bm_ids bm b = map (fst \<circ> snd) (bm_left bm b)"

definition bm_find :: "('b, 'id, 'i) bimap_ops \<Rightarrow> 'id \<Rightarrow> 'b \<Rightarrow> (Timer \<times> 'id \<times> 'i) option" where
  "bm_find bm x b = find (\<lambda>(t, k, i). k = x) (bm_left bm b)"

locale timer_bimap =
  fixes bm :: "('b, 'id, 'i) bimap_ops"
  assumes left_sorted: "sorted (map (expiry \<circ> fst) (bm_left bm b))"
    and left_distinct: "distinct (bm_ids bm b)"
    and insert_new: "x \<notin> set (bm_ids bm b) \<Longrightarrow> bm_insert bm t x i b = (ok, b') \<Longrightarrow> ok \<and> mset (bm_left bm b') = add_mset (t, x, i) (mset (bm_left bm b))"
    and insert_old: "x \<in> set (bm_ids bm b) \<Longrightarrow> bm_insert bm t x i b = (False, b)"
    and erase_left: "bm_left bm (bm_erase bm x b) = filter (\<lambda>(t, k, i). k \<noteq> x) (bm_left bm b)"
    and replace_left: "mset (bm_left bm (bm_replace bm x t b)) = mset (map (\<lambda>(t', k, i). (if k = x then t else t', k, i)) (bm_left bm b))"

text \<open>A bidirectional map kept as an association list.\<close>

definition list_bimap_left :: "('id \<times> Timer \<times> 'i) list \<Rightarrow> (Timer \<times> 'id \<times> 'i) list" where
  "list_bimap_left b = sort_key (expiry \<circ> fst) (map (\<lambda>(x, t, i). (t, x, i)) (AList.clearjunk b))"

definition list_bimap :: "(('id \<times> Timer \<times> 'i) list, 'id, 'i) bimap_ops" where
  "list_bimap = \<lparr>bm_left = list_bimap_left,
     bm_insert = (\<lambda>t x i b. if x \<in> fst ` set b then (False, b) else (True, (x, t, i) # b)),
     bm_erase = AList.delete,
     bm_replace = (\<lambda>x t b. AList.map_ran (\<lambda>k (t', i). (if k = x then t else t', i)) b)\<rparr>"

lemma list_bimap_ids: "mset (bm_ids list_bimap b) = mset (map fst (AList.clearjunk b))"
  by (simp add: bm_ids_def list_bimap_def list_bimap_left_def image_mset.compositionality comp_def split_beta)

lemma list_bimap_ids_set: "set (bm_ids list_bimap b) = fst ` set b"
  using arg_cong [OF list_bimap_ids [of b], of set_mset] clearjunk_keys_set [of b] by simp

lemma clearjunk_fresh: "x \<notin> fst ` set b \<Longrightarrow> AList.clearjunk ((x, v) # b) = (x, v) # AList.clearjunk b"
  by (simp add: delete_idem)

interpretation list_bimap: timer_bimap list_bimap
proof
  fix b :: "('id \<times> Timer \<times> 'i) list" and x t i
  show "sorted (map (expiry \<circ> fst) (bm_left list_bimap b))" by (simp add: list_bimap_def list_bimap_left_def)
  show "distinct (bm_ids list_bimap b)"
    using list_bimap_ids [of b] distinct_clearjunk [of b] by (metis mset_eq_imp_distinct_iff)
  show "x \<in> set (bm_ids list_bimap b) \<Longrightarrow> bm_insert list_bimap t x i b = (False, b)"
    by (simp add: list_bimap_ids_set) (simp add: list_bimap_def)
  show "bm_left list_bimap (bm_erase list_bimap x b) = filter (\<lambda>(t, k, i). k \<noteq> x) (bm_left list_bimap b)"
    by (simp add: list_bimap_def list_bimap_left_def filter_sort clearjunk_delete)
      (simp add: AList.delete_eq filter_map comp_def case_prod_unfold eq_commute [of x])
  show "mset (bm_left list_bimap (bm_replace list_bimap x t b)) = mset (map (\<lambda>(t', k, i). (if k = x then t else t', k, i)) (bm_left list_bimap b))"
    by (simp add: list_bimap_def list_bimap_left_def clearjunk_map_ran)
      (simp add: map_ran_def image_mset.compositionality comp_def case_prod_unfold cong: if_cong)
  fix ok b'
  show "x \<notin> set (bm_ids list_bimap b) \<Longrightarrow> bm_insert list_bimap t x i b = (ok, b') \<Longrightarrow>
      ok \<and> mset (bm_left list_bimap b') = add_mset (t, x, i) (mset (bm_left list_bimap b))"
    by (auto simp: list_bimap_ids_set) (auto simp: list_bimap_def list_bimap_left_def clearjunk_fresh delete_idem)
qed

section \<open>The packet buffer\<close>

text \<open>
  The list nodes are named by numbers that are never used twice, as iterators of a
  \<open>std::list\<close> stay valid until their node is erased. \<open>cb_trigger\<close> is the
  invocation of \<open>flush\<close> that is pending at the runtime: the buffer cancels its own
  invocations before it schedules one, so there is at most one.
\<close>

record ('b, 'cnt, 's) cbf_env =
  env_timers :: "('b, CbfPacketIdentifier, nat) bimap_ops"
  env_counter :: "(CbfPacketIdentifier, 'cnt) counter_ops"
  env_size :: "'s \<Rightarrow> nat"

record ('b, 'cnt, 's, 'f) CbfPacketBuffer =
  cb_packets :: "(nat \<times> ('s, 'f) CbfPacket) list"
  cb_timers :: 'b
  cb_counter :: 'cnt
  cb_capacity :: size_t
  cb_stored :: size_t
  cb_next :: nat
  cb_trigger :: "time_point option"

definition new_cbf :: "'b \<Rightarrow> 'cnt \<Rightarrow> size_t \<Rightarrow> ('b, 'cnt, 's, 'f) CbfPacketBuffer" where
  "new_cbf timers counter bytes =
     \<lparr>cb_packets = [], cb_timers = timers, cb_counter = counter, cb_capacity = bytes, cb_stored = 0, cb_next = 0, cb_trigger = None\<rparr>"

definition cbf_left :: "('b, 'cnt, 's) cbf_env \<Rightarrow> ('b, 'cnt, 's, 'f) CbfPacketBuffer \<Rightarrow> (Timer \<times> CbfPacketIdentifier \<times> nat) list" where
  "cbf_left env s = bm_left (env_timers env) (cb_timers s)"

text \<open>\<open>schedule_timer\<close> asserts that there is a timer.\<close>

definition schedule_timer :: "('b, 'cnt, 's) cbf_env \<Rightarrow> ('b, 'cnt, 's, 'f) CbfPacketBuffer \<Rightarrow> ('b, 'cnt, 's, 'f) CbfPacketBuffer" where
  "schedule_timer env s = (case cbf_left env s of [] \<Rightarrow> s | (t, x, n) # _ \<Rightarrow> s\<lparr>cb_trigger := Some (expiry t)\<rparr>)"

definition cbf_deref :: "nat \<Rightarrow> ('b, 'cnt, 's, 'f) CbfPacketBuffer \<Rightarrow> ('s, 'f) CbfPacket" where
  "cbf_deref n s = the (map_of (cb_packets s) n)"

definition first_is :: "CbfPacketIdentifier \<Rightarrow> (Timer \<times> CbfPacketIdentifier \<times> nat) list \<Rightarrow> bool" where
  "first_is x left = (case left of [] \<Rightarrow> False | (t, k, n) # _ \<Rightarrow> k = x)"

definition remove_timer ::
  "('b, 'cnt, 's) cbf_env \<Rightarrow> CbfPacketIdentifier \<Rightarrow> ('b, 'cnt, 's, 'f) CbfPacketBuffer \<Rightarrow> ('b, 'cnt, 's, 'f) CbfPacketBuffer" where
  "remove_timer env x s =
     (let s' = s\<lparr>cb_timers := bm_erase (env_timers env) x (cb_timers s)\<rparr>
      in if first_is x (cbf_left env s) \<and> cbf_left env s' \<noteq> [] then schedule_timer env s' else s')"

text \<open>What \<open>remove\<close>, \<open>fetch\<close> and \<open>flush\<close> have in common, the timer apart.\<close>

definition erase_packet ::
  "('b, 'cnt, 's) cbf_env \<Rightarrow> time_point \<Rightarrow> CbfPacketIdentifier \<Rightarrow> nat \<Rightarrow> ('b, 'cnt, 's, 'f) CbfPacketBuffer \<Rightarrow> ('b, 'cnt, 's, 'f) CbfPacketBuffer" where
  "erase_packet env now x n s =
     s\<lparr>cb_stored := cb_stored s - cbf_length (env_size env) (cbf_deref n s),
       cb_counter := cnt_remove (env_counter env) now x (cb_counter s),
       cb_packets := filter (\<lambda>(m, p). m \<noteq> n) (cb_packets s)\<rparr>"

definition cbf_remove ::
  "('b, 'cnt, 's) cbf_env \<Rightarrow> time_point \<Rightarrow> CbfPacketIdentifier \<Rightarrow> ('b, 'cnt, 's, 'f) CbfPacketBuffer \<Rightarrow> bool \<times> ('b, 'cnt, 's, 'f) CbfPacketBuffer" where
  "cbf_remove env now x s =
     (case bm_find (env_timers env) x (cb_timers s) of
        Some (t, k, n) \<Rightarrow> (True, remove_timer env x (erase_packet env now x n s))
      | None \<Rightarrow> (False, s))"

fun head_drop ::
  "('b, 'cnt, 's) cbf_env \<Rightarrow> time_point \<Rightarrow> (nat \<times> ('s, 'f) CbfPacket) list \<Rightarrow> ('b, 'cnt, 's, 'f) CbfPacketBuffer \<Rightarrow> ('b, 'cnt, 's, 'f) CbfPacketBuffer option" where
  "head_drop env now [] s = Some s"
| "head_drop env now ((n, p) # ps) s =
     (if cb_stored s > cb_capacity s then do {
        x \<leftarrow> cbf_identifier p;
        head_drop env now ps
          (s\<lparr>cb_stored := cb_stored s - cbf_length (env_size env) p, cb_timers := bm_erase (env_timers env) x (cb_timers s),
             cb_counter := cnt_remove (env_counter env) now x (cb_counter s), cb_packets := ps\<rparr>) }
      else Some s)"

text \<open>
  \<open>begin() != first_timer\<close>. When the relation that was first has been erased, the
  iterator is invalid: its comparison with that of a new relation at the front depends on
  whether the allocator gave the new relation the same memory (\<open>reused\<close>).
\<close>

definition first_changed ::
  "bool \<Rightarrow> CbfPacketIdentifier \<Rightarrow> (Timer \<times> CbfPacketIdentifier \<times> nat) list \<Rightarrow> (Timer \<times> CbfPacketIdentifier \<times> nat) list \<Rightarrow>
   (Timer \<times> CbfPacketIdentifier \<times> nat) list \<Rightarrow> bool" where
  "first_changed reused x before dropped after =
     (case before of [] \<Rightarrow> after \<noteq> []
      | (t, k, n) # _ \<Rightarrow> if k \<in> set (map (fst \<circ> snd) dropped) then \<not> first_is k after else \<not> (reused \<and> first_is x after))"

definition cbf_add ::
  "('b, 'cnt, 's) cbf_env \<Rightarrow> bool \<Rightarrow> time_point \<Rightarrow> ('s, 'f) CbfPacket \<Rightarrow> duration \<Rightarrow> ('b, 'cnt, 's, 'f) CbfPacketBuffer \<Rightarrow>
   ('b, 'cnt, 's, 'f) CbfPacketBuffer option" where
  "cbf_add env reused now p timeout s =
     (if timeout \<le> 0 then Some s
      else do {
        s1 \<leftarrow> head_drop env now (cb_packets s) (s\<lparr>cb_stored := cb_stored s + cbf_length (env_size env) p\<rparr>);
        x \<leftarrow> cbf_identifier p;
        Some (let n = cb_next s1;
                  s2 = s1\<lparr>cb_packets := cb_packets s1 @ [(n, p)], cb_next := Suc n\<rparr>;
                  s3 = (case bm_insert (env_timers env) (new_timer now timeout) x n (cb_timers s2) of (inserted, b) \<Rightarrow>
                          if \<not> inserted then
                            s2\<lparr>cb_timers := b, cb_stored := cb_stored s2 - cbf_length (env_size env) p, cb_packets := butlast (cb_packets s2)\<rparr>
                          else s2\<lparr>cb_timers := b, cb_counter := cnt_add (env_counter env) now x (cb_counter s2)\<rparr>)
              in if first_changed reused x (cbf_left env s) (cbf_left env s1) (cbf_left env s3) then schedule_timer env s3 else s3) })"

definition cbf_update ::
  "('b, 'cnt, 's) cbf_env \<Rightarrow> time_point \<Rightarrow> CbfPacketIdentifier \<Rightarrow> duration \<Rightarrow> ('b, 'cnt, 's, 'f) CbfPacketBuffer \<Rightarrow> ('b, 'cnt, 's, 'f) CbfPacketBuffer" where
  "cbf_update env now x timeout s =
     (case bm_find (env_timers env) x (cb_timers s) of
        Some (t, k, n) \<Rightarrow>
          s\<lparr>cb_packets := map (\<lambda>(m, p). (m, if m = n then snd (cbf_reduce_lifetime now t p) else p)) (cb_packets s),
            cb_timers := bm_replace (env_timers env) x (new_timer now timeout) (cb_timers s),
            cb_counter := cnt_increment (env_counter env) now x (cb_counter s)\<rparr>
      | None \<Rightarrow> s)"

definition cbf_fetch ::
  "('b, 'cnt, 's) cbf_env \<Rightarrow> time_point \<Rightarrow> CbfPacketIdentifier \<Rightarrow> ('b, 'cnt, 's, 'f) CbfPacketBuffer \<Rightarrow>
   ('s, 'f) CbfPacket option \<times> ('b, 'cnt, 's, 'f) CbfPacketBuffer" where
  "cbf_fetch env now x s =
     (case bm_find (env_timers env) x (cb_timers s) of
        Some (t, k, n) \<Rightarrow>
          (case cbf_reduce_lifetime now t (cbf_deref n s) of (valid, p) \<Rightarrow>
             (if valid then Some p else None, remove_timer env x (erase_packet env now x n s)))
      | None \<Rightarrow> (None, s))"

definition cbf_find :: "('b, 'cnt, 's) cbf_env \<Rightarrow> CbfPacketIdentifier \<Rightarrow> ('b, 'cnt, 's, 'f) CbfPacketBuffer \<Rightarrow> ('s, 'f) CbfPacket option" where
  "cbf_find env x s = (case bm_find (env_timers env) x (cb_timers s) of Some (t, k, n) \<Rightarrow> Some (cbf_deref n s) | None \<Rightarrow> None)"

definition cbf_counter_of :: "('b, 'cnt, 's) cbf_env \<Rightarrow> time_point \<Rightarrow> CbfPacketIdentifier \<Rightarrow> ('b, 'cnt, 's, 'f) CbfPacketBuffer \<Rightarrow> nat" where
  "cbf_counter_of env now x s = cnt_counter (env_counter env) now x (cb_counter s)"

text \<open>The packets handed to the callback are returned in order; the callback does not use the buffer.\<close>

fun flush_loop ::
  "('b, 'cnt, 's) cbf_env \<Rightarrow> time_point \<Rightarrow> (Timer \<times> CbfPacketIdentifier \<times> nat) list \<Rightarrow> ('b, 'cnt, 's, 'f) CbfPacketBuffer \<Rightarrow>
   (GbcGacHeader, 's, 'f) PendingPacket list \<times> ('b, 'cnt, 's, 'f) CbfPacketBuffer" where
  "flush_loop env now [] s = ([], s)"
| "flush_loop env now ((t, x, n) # es) s =
     (case cbf_reduce_lifetime now t (cbf_deref n s) of (valid, p) \<Rightarrow>
        (case flush_loop env now es
            ((erase_packet env now x n s)\<lparr>cb_timers := bm_erase (env_timers env) x (cb_timers s)\<rparr>) of (sent, s') \<Rightarrow>
           (if valid then cp_packet p # sent else sent, s')))"

definition cbf_flush ::
  "('b, 'cnt, 's) cbf_env \<Rightarrow> time_point \<Rightarrow> ('b, 'cnt, 's, 'f) CbfPacketBuffer \<Rightarrow>
   (GbcGacHeader, 's, 'f) PendingPacket list \<times> ('b, 'cnt, 's, 'f) CbfPacketBuffer" where
  "cbf_flush env now s =
     (case flush_loop env now (takeWhile (\<lambda>(t, x, n). expiry t \<le> now) (cbf_left env s)) s of (sent, s') \<Rightarrow>
        (sent, if cbf_left env s' \<noteq> [] then schedule_timer env s' else s'))"

text \<open>The runtime invokes the pending trigger, which is then no longer pending.\<close>

definition cbf_fire ::
  "('b, 'cnt, 's) cbf_env \<Rightarrow> ('b, 'cnt, 's, 'f) CbfPacketBuffer \<Rightarrow>
   (GbcGacHeader, 's, 'f) PendingPacket list \<times> ('b, 'cnt, 's, 'f) CbfPacketBuffer" where
  "cbf_fire env s = (case cb_trigger s of None \<Rightarrow> ([], s) | Some tp \<Rightarrow> cbf_flush env tp (s\<lparr>cb_trigger := None\<rparr>))"

section \<open>Consistency\<close>

text \<open>
  The relations of the bidirectional map and the nodes of the list stand in a one-to-one
  correspondence, which is what the assertions of the code rely on, and the counter of
  octets is the sum of the lengths.
\<close>

definition left_pairs :: "(Timer \<times> CbfPacketIdentifier \<times> nat) list \<Rightarrow> (nat \<times> CbfPacketIdentifier option) list" where
  "left_pairs left = map (\<lambda>(t, k, n). (n, Some k)) left"

definition packet_pairs :: "(nat \<times> ('s, 'f) CbfPacket) list \<Rightarrow> (nat \<times> CbfPacketIdentifier option) list" where
  "packet_pairs ps = map (\<lambda>(n, p). (n, cbf_identifier p)) ps"

definition stored_size :: "('s \<Rightarrow> nat) \<Rightarrow> (nat \<times> ('s, 'f) CbfPacket) list \<Rightarrow> nat" where
  "stored_size sz ps = sum_list (map (\<lambda>(n, p). unat (cbf_length sz p)) ps)"

definition cbf_inv :: "('b, 'cnt, 's) cbf_env \<Rightarrow> ('b, 'cnt, 's, 'f) CbfPacketBuffer \<Rightarrow> bool" where
  "cbf_inv env s \<longleftrightarrow>
     mset (left_pairs (cbf_left env s)) = mset (packet_pairs (cb_packets s)) \<and>
     distinct (map fst (cb_packets s)) \<and> (\<forall>n\<in>fst ` set (cb_packets s). n < cb_next s) \<and>
     cb_stored s = of_nat (stored_size (env_size env) (cb_packets s))"

text \<open>The pending trigger is the expiry of the first timer.\<close>

definition cbf_triggered :: "('b, 'cnt, 's) cbf_env \<Rightarrow> ('b, 'cnt, 's, 'f) CbfPacketBuffer \<Rightarrow> bool" where
  "cbf_triggered env s \<longleftrightarrow> (case cbf_left env s of [] \<Rightarrow> True | (t, x, n) # _ \<Rightarrow> cb_trigger s = Some (expiry t))"

lemma stored_size_simps [simp]:
  "stored_size sz [] = 0" "stored_size sz ((n, p) # ps) = unat (cbf_length sz p) + stored_size sz ps"
  "stored_size sz (ps @ qs) = stored_size sz ps + stored_size sz qs"
  by (simp_all add: stored_size_def)

lemma stored_size_erase:
  "distinct (map fst ps) \<Longrightarrow> map_of ps n = Some p \<Longrightarrow>
   stored_size sz ps = unat (cbf_length sz p) + stored_size sz (filter (\<lambda>(m, q). m \<noteq> n) ps)"
proof (induction ps)
  case (Cons a ps)
  show ?case
  proof (cases "fst a = n")
    case True
    then have "filter (\<lambda>(m, q). m \<noteq> n) ps = ps" using Cons.prems(1) by (auto simp: filter_id_conv rev_image_eqI)
    then show ?thesis using True Cons.prems(2) by (cases a) simp
  next
    case False
    then show ?thesis using Cons by (cases a) auto
  qed
qed simp

text \<open>In a one-to-one correspondence, removing a pair by either component is the same.\<close>

lemma erase_pair:
  assumes "mset xs = mset ys" "distinct (map fst ys)" "distinct (map snd xs)" "(n, k) \<in> set xs"
  shows "mset (filter (\<lambda>p. snd p \<noteq> k) xs) = mset (filter (\<lambda>p. fst p \<noteq> n) ys)"
proof -
  have "distinct (map fst xs)" using assms(1,2) by (metis mset_eq_imp_distinct_iff mset_map)
  then have "snd p \<noteq> k \<longleftrightarrow> fst p \<noteq> n" if "p \<in> set xs" for p
    using that assms(3,4) unfolding distinct_map inj_on_def by (metis prod.sel)
  then have "filter (\<lambda>p. snd p \<noteq> k) xs = filter (\<lambda>p. fst p \<noteq> n) xs" by (rule filter_cong [OF refl])
  then show ?thesis using assms(1) by (simp add: mset_filter)
qed

lemma filter_left_pairs: "left_pairs (filter (\<lambda>(t, k, n). k \<noteq> x) left) = filter (\<lambda>p. snd p \<noteq> Some x) (left_pairs left)"
  by (induction left) (auto simp: left_pairs_def)

lemma filter_packet_pairs: "packet_pairs (filter (\<lambda>(m, p). m \<noteq> n) ps) = filter (\<lambda>p. fst p \<noteq> n) (packet_pairs ps)"
  by (induction ps) (auto simp: packet_pairs_def)

lemma fst_packet_pairs: "map fst (packet_pairs ps) = map fst ps"
  by (simp add: packet_pairs_def split_beta comp_def)

locale cbf_environment = timer_bimap "env_timers env" for env :: "('b, 'cnt, 's) cbf_env"
begin

lemma left_ids_distinct: "distinct (map snd (left_pairs (cbf_left env s)))"
  using left_distinct [of "cb_timers s"]
  by (simp add: left_pairs_def cbf_left_def bm_ids_def split_beta comp_def distinct_map inj_on_def)

lemma related_packet:
  assumes "cbf_inv env s" "(t, x, n) \<in> set (cbf_left env s)"
  shows "\<exists>p. map_of (cb_packets s) n = Some p \<and> cbf_identifier p = Some x"
proof -
  have "(n, Some x) \<in> set (left_pairs (cbf_left env s))" using assms(2) by (force simp: left_pairs_def)
  then have "(n, Some x) \<in> set (packet_pairs (cb_packets s))" using assms(1) unfolding cbf_inv_def by (metis mset_eq_setD)
  then obtain p where "(n, p) \<in> set (cb_packets s)" "cbf_identifier p = Some x" by (auto simp: packet_pairs_def)
  then show ?thesis using assms(1) unfolding cbf_inv_def by (metis map_of_is_SomeI)
qed

lemma erase_related:
  fixes now
  assumes "cbf_inv env s" "(t, x, n) \<in> set (cbf_left env s)"
  defines "s' \<equiv> (erase_packet env now x n s)\<lparr>cb_timers := bm_erase (env_timers env) x (cb_timers s)\<rparr>"
  shows "cbf_inv env s'" "cbf_left env s' = filter (\<lambda>(t, k, n). k \<noteq> x) (cbf_left env s)"
    "cb_packets s' = filter (\<lambda>(m, p). m \<noteq> n) (cb_packets s)"
proof -
  show left: "cbf_left env s' = filter (\<lambda>(t, k, n). k \<noteq> x) (cbf_left env s)"
    and packets: "cb_packets s' = filter (\<lambda>(m, p). m \<noteq> n) (cb_packets s)"
    by (simp_all add: s'_def erase_packet_def cbf_left_def erase_left)
  obtain p where p: "map_of (cb_packets s) n = Some p" using related_packet [OF assms(1,2)] by blast
  have "mset (left_pairs (cbf_left env s')) = mset (packet_pairs (cb_packets s'))"
    unfolding left packets filter_left_pairs filter_packet_pairs
    using assms(1,2) left_ids_distinct by (intro erase_pair) (force simp: cbf_inv_def fst_packet_pairs left_pairs_def)+
  moreover have "cb_stored s' = of_nat (stored_size (env_size env) (cb_packets s'))"
    using stored_size_erase [OF _ p, of "env_size env"] assms(1) p
    by (simp add: s'_def erase_packet_def cbf_deref_def cbf_inv_def)
  moreover have "distinct (map fst (cb_packets s'))" "\<forall>n\<in>fst ` set (cb_packets s'). n < cb_next s'"
    using assms(1) unfolding packets by (auto simp: cbf_inv_def distinct_map_filter s'_def erase_packet_def)
  ultimately show "cbf_inv env s'" by (simp add: cbf_inv_def)
qed

end

lemma schedule_timer_simps [simp]:
  "cb_packets (schedule_timer env s) = cb_packets s" "cbf_left env (schedule_timer env s) = cbf_left env s"
  "cb_stored (schedule_timer env s) = cb_stored s" "cb_next (schedule_timer env s) = cb_next s" "cb_capacity (schedule_timer env s) = cb_capacity s"
  by (auto simp: schedule_timer_def cbf_left_def split: list.split prod.split)

lemma schedule_timer_triggered: "cbf_triggered env (schedule_timer env s)"
  by (auto simp: cbf_triggered_def schedule_timer_def cbf_left_def split: list.split)

lemma schedule_timer_inv [simp]: "cbf_inv env (schedule_timer env s) = cbf_inv env s"
  by (simp add: cbf_inv_def)

lemma bm_find_Some: "bm_find bm x b = Some (t, k, n) \<Longrightarrow> k = x \<and> (t, x, n) \<in> set (bm_left bm b)"
  by (auto simp: bm_find_def find_Some_iff in_set_conv_nth)

lemma erase_packet_simps [simp]:
  "cbf_left env (erase_packet env now x n s) = cbf_left env s" "cb_timers (erase_packet env now x n s) = cb_timers s"
  "cb_trigger (erase_packet env now x n s) = cb_trigger s" "cb_capacity (erase_packet env now x n s) = cb_capacity s"
  "cb_next (erase_packet env now x n s) = cb_next s"
  by (simp_all add: erase_packet_def cbf_left_def)

lemma stored_size_filter_le: "stored_size sz (filter P ps) \<le> stored_size sz ps"
  by (induction ps) (auto simp: split_paired_all)

context cbf_environment
begin

lemma remove_timer_spec:
  fixes now
  assumes "cbf_inv env s" "(t, x, n) \<in> set (cbf_left env s)"
  defines "s' \<equiv> remove_timer env x (erase_packet env now x n s)"
  shows "cbf_inv env s'" "cbf_left env s' = filter (\<lambda>(t, k, n). k \<noteq> x) (cbf_left env s)"
    "cb_packets s' = filter (\<lambda>(m, p). m \<noteq> n) (cb_packets s)" "cb_capacity s' = cb_capacity s"
    "cbf_triggered env s \<Longrightarrow> cbf_triggered env s'"
proof -
  let ?e = "(erase_packet env now x n s)\<lparr>cb_timers := bm_erase (env_timers env) x (cb_timers s)\<rparr>"
  note e = erase_related [OF assms(1,2), of now]
  have s': "s' = (if first_is x (cbf_left env s) \<and> cbf_left env ?e \<noteq> [] then schedule_timer env ?e else ?e)"
    by (simp add: s'_def remove_timer_def Let_def)
  show "cbf_inv env s'" using e(1) by (simp add: s')
  show left: "cbf_left env s' = filter (\<lambda>(t, k, n). k \<noteq> x) (cbf_left env s)" using e(2) by (auto simp: s')
  show "cb_packets s' = filter (\<lambda>(m, p). m \<noteq> n) (cb_packets s)" "cb_capacity s' = cb_capacity s" using e(3) by (auto simp: s')
  show "cbf_triggered env s'" if "cbf_triggered env s"
  proof (cases "first_is x (cbf_left env s) \<and> cbf_left env ?e \<noteq> []")
    case True
    then show ?thesis by (simp add: s' schedule_timer_triggered)
  next
    case False
    then have "cb_trigger s' = cb_trigger s" by (auto simp: s')
    then show ?thesis using that False left e(2)
      by (cases "cbf_left env s") (auto simp: cbf_triggered_def first_is_def s')
  qed
qed

lemma cbf_remove_spec:
  assumes "cbf_inv env s"
  shows "cbf_inv env (snd (cbf_remove env now x s))" "cbf_triggered env s \<Longrightarrow> cbf_triggered env (snd (cbf_remove env now x s))"
    "cb_capacity (snd (cbf_remove env now x s)) = cb_capacity s" "\<exists>P. cb_packets (snd (cbf_remove env now x s)) = filter P (cb_packets s)"
proof -
  have "cbf_inv env (snd (cbf_remove env now x s)) \<and> (cbf_triggered env s \<longrightarrow> cbf_triggered env (snd (cbf_remove env now x s))) \<and>
      cb_capacity (snd (cbf_remove env now x s)) = cb_capacity s \<and> (\<exists>P. cb_packets (snd (cbf_remove env now x s)) = filter P (cb_packets s))"
  proof (cases "bm_find (env_timers env) x (cb_timers s)")
    case None
    have "\<exists>P. cb_packets s = filter P (cb_packets s)" by (rule exI [of _ "\<lambda>_. True"]) simp
    then show ?thesis using None assms by (auto simp: cbf_remove_def)
  next
    case (Some e)
    then obtain t k n where f: "bm_find (env_timers env) x (cb_timers s) = Some (t, k, n)" by (cases e) auto
    then have "(t, x, n) \<in> set (cbf_left env s)" using bm_find_Some [OF f] by (simp add: cbf_left_def)
    from remove_timer_spec [OF assms this, of now] show ?thesis using f by (auto simp: cbf_remove_def)
  qed
  then show "cbf_inv env (snd (cbf_remove env now x s))" "cbf_triggered env s \<Longrightarrow> cbf_triggered env (snd (cbf_remove env now x s))"
    "cb_capacity (snd (cbf_remove env now x s)) = cb_capacity s" "\<exists>P. cb_packets (snd (cbf_remove env now x s)) = filter P (cb_packets s)"
    by auto
qed

text \<open>Fetching a packet leaves the buffer as removing it does.\<close>

lemma cbf_fetch_remove: "snd (cbf_fetch env now x s) = snd (cbf_remove env now x s)"
  by (auto simp: cbf_fetch_def cbf_remove_def split: option.split prod.split)

lemma update_pairs:
  assumes "cbf_inv env s"
  shows "cbf_inv env (cbf_update env now x timeout s)" "cb_capacity (cbf_update env now x timeout s) = cb_capacity s"
    "map (\<lambda>(n, p). (n, cbf_length sz p)) (cb_packets (cbf_update env now x timeout s)) = map (\<lambda>(n, p). (n, cbf_length sz p)) (cb_packets s)"
proof -
  show "cb_capacity (cbf_update env now x timeout s) = cb_capacity s" by (auto simp: cbf_update_def split: option.split)
  have lens: "map (\<lambda>(n, p). (n, cbf_length sz p)) (cb_packets (cbf_update env now x timeout s)) = map (\<lambda>(n, p). (n, cbf_length sz p)) (cb_packets s)" for sz
    by (auto simp: cbf_update_def split: option.split)
  then show "map (\<lambda>(n, p). (n, cbf_length sz p)) (cb_packets (cbf_update env now x timeout s)) = map (\<lambda>(n, p). (n, cbf_length sz p)) (cb_packets s)" .
  have left: "mset (left_pairs (cbf_left env (cbf_update env now x timeout s))) = mset (left_pairs (cbf_left env s))"
    using arg_cong [OF replace_left [of x "new_timer now timeout" "cb_timers s"], of "image_mset (\<lambda>(t, k, n). (n, Some k))"]
    by (auto simp: cbf_update_def left_pairs_def cbf_left_def image_mset.compositionality comp_def case_prod_unfold split: option.split)
  have ids: "packet_pairs (cb_packets (cbf_update env now x timeout s)) = packet_pairs (cb_packets s)"
    by (auto simp: cbf_update_def packet_pairs_def split: option.split)
  have fsts: "map fst (cb_packets (cbf_update env now x timeout s)) = map fst (cb_packets s)"
    using arg_cong [OF ids, of "map fst"] by (simp add: fst_packet_pairs)
  have "stored_size (env_size env) (cb_packets (cbf_update env now x timeout s)) = stored_size (env_size env) (cb_packets s)"
    using arg_cong [OF lens [of "env_size env"], of "\<lambda>xs. sum_list (map (unat \<circ> snd) xs)"] by (simp add: stored_size_def comp_def case_prod_unfold)
  moreover have "cb_next (cbf_update env now x timeout s) = cb_next s" "cb_stored (cbf_update env now x timeout s) = cb_stored s"
    by (auto simp: cbf_update_def split: option.split)
  moreover have "fst ` set (cb_packets (cbf_update env now x timeout s)) = fst ` set (cb_packets s)" using arg_cong [OF fsts, of set] by simp
  ultimately show "cbf_inv env (cbf_update env now x timeout s)"
    using assms left ids fsts unfolding cbf_inv_def by simp
qed

end

text \<open>What the timer callback receives for a relation at a moment.\<close>

definition handed_over :: "('b, 'cnt, 's, 'f) CbfPacketBuffer \<Rightarrow> time_point \<Rightarrow> Timer \<times> CbfPacketIdentifier \<times> nat \<Rightarrow> (GbcGacHeader, 's, 'f) PendingPacket list" where
  "handed_over s now e =
     (case cbf_reduce_lifetime now (fst e) (cbf_deref (snd (snd e)) s) of (valid, p) \<Rightarrow> if valid then [cp_packet p] else [])"

lemma deref_erased:
  fixes s :: "('a, 'b, 'c, 'd) CbfPacketBuffer"
  shows "m \<noteq> n \<Longrightarrow> cb_packets s' = filter (\<lambda>(k, p). k \<noteq> n) (cb_packets s) \<Longrightarrow> cbf_deref m s' = cbf_deref m s"
proof -
  have "m \<noteq> n \<Longrightarrow> map_of (filter (\<lambda>(k, p). k \<noteq> n) ps) m = map_of ps m" for ps :: "(nat \<times> ('c, 'd) CbfPacket) list"
    by (induction ps) auto
  then show "m \<noteq> n \<Longrightarrow> cb_packets s' = filter (\<lambda>(k, p). k \<noteq> n) (cb_packets s) \<Longrightarrow> cbf_deref m s' = cbf_deref m s"
    by (simp add: cbf_deref_def)
qed

context cbf_environment
begin

lemma left_nodes_distinct: "cbf_inv env s \<Longrightarrow> distinct (map (snd \<circ> snd) (cbf_left env s))"
proof -
  assume s: "cbf_inv env s"
  then have "mset (map fst (left_pairs (cbf_left env s))) = mset (map fst (cb_packets s))"
    unfolding cbf_inv_def by (metis mset_map fst_packet_pairs)
  then have "distinct (map fst (left_pairs (cbf_left env s)))" using s unfolding cbf_inv_def by (metis mset_eq_imp_distinct_iff)
  then show ?thesis by (simp add: left_pairs_def comp_def case_prod_unfold)
qed

lemma flush_loop_spec:
  assumes "cbf_inv env s" "cbf_left env s = es @ rest"
  shows "fst (flush_loop env now es s) = concat (map (handed_over s now) es)" "cbf_inv env (snd (flush_loop env now es s))"
    "cbf_left env (snd (flush_loop env now es s)) = rest" "cb_trigger (snd (flush_loop env now es s)) = cb_trigger s"
    "\<forall>n\<in>snd ` snd ` set rest. cbf_deref n (snd (flush_loop env now es s)) = cbf_deref n s"
    "cb_capacity (snd (flush_loop env now es s)) = cb_capacity s" "\<exists>P. cb_packets (snd (flush_loop env now es s)) = filter P (cb_packets s)"
proof -
  have "fst (flush_loop env now es s) = concat (map (handed_over s now) es) \<and> cbf_inv env (snd (flush_loop env now es s)) \<and>
    cbf_left env (snd (flush_loop env now es s)) = rest \<and> cb_trigger (snd (flush_loop env now es s)) = cb_trigger s \<and>
    (\<forall>n\<in>snd ` snd ` set rest. cbf_deref n (snd (flush_loop env now es s)) = cbf_deref n s) \<and>
    cb_capacity (snd (flush_loop env now es s)) = cb_capacity s \<and> (\<exists>P. cb_packets (snd (flush_loop env now es s)) = filter P (cb_packets s))"
    using assms
  proof (induction es arbitrary: s)
    case Nil
    have "\<exists>P. cb_packets s = filter P (cb_packets s)" by (rule exI [of _ "\<lambda>_. True"]) simp
    then show ?case using Nil by simp
  next
    case (Cons e es)
    obtain t x n where e: "e = (t, x, n)" by (cases e) auto
    define s1 where "s1 = (erase_packet env now x n s)\<lparr>cb_timers := bm_erase (env_timers env) x (cb_timers s)\<rparr>"
    have mem: "(t, x, n) \<in> set (cbf_left env s)" using Cons.prems(2) e by simp
    note r = erase_related [OF Cons.prems(1) mem, of now, folded s1_def]
    have "distinct (map (fst \<circ> snd) (cbf_left env s))" using left_distinct [of "cb_timers s"] by (simp add: bm_ids_def cbf_left_def)
    then have "filter (\<lambda>(t, k, n). k \<noteq> x) (es @ rest) = es @ rest"
      using Cons.prems(2) e by (intro filter_True) force
    then have left1: "cbf_left env s1 = es @ rest" using r(2) Cons.prems(2) e by simp
    have other: "cbf_deref m s1 = cbf_deref m s" if "m \<in> snd ` snd ` set (es @ rest)" for m
      using left_nodes_distinct [OF Cons.prems(1)] that Cons.prems(2) e by (intro deref_erased [OF _ r(3)]) (auto simp: image_image comp_def)
    have hand: "map (handed_over s1 now) es = map (handed_over s now) es"
      using other by (intro map_cong refl) (force simp: handed_over_def)
    note IH = Cons.IH [OF r(1) left1]
    have loop: "flush_loop env now (e # es) s = (handed_over s now e @ fst (flush_loop env now es s1), snd (flush_loop env now es s1))"
      by (auto simp: e handed_over_def s1_def split: prod.split)
    have "\<exists>P. cb_packets (snd (flush_loop env now es s1)) = filter P (cb_packets s)" using IH unfolding r(3) by (auto simp: filter_filter)
    moreover have "cb_trigger s1 = cb_trigger s" "cb_capacity s1 = cb_capacity s" by (simp_all add: s1_def)
    ultimately show ?case using IH other hand by (simp add: loop)
  qed
  then show "fst (flush_loop env now es s) = concat (map (handed_over s now) es)" "cbf_inv env (snd (flush_loop env now es s))"
    "cbf_left env (snd (flush_loop env now es s)) = rest" "cb_trigger (snd (flush_loop env now es s)) = cb_trigger s"
    "\<forall>n\<in>snd ` snd ` set rest. cbf_deref n (snd (flush_loop env now es s)) = cbf_deref n s"
    "cb_capacity (snd (flush_loop env now es s)) = cb_capacity s" "\<exists>P. cb_packets (snd (flush_loop env now es s)) = filter P (cb_packets s)"
    by blast+
qed

text \<open>A head drop keeps the newest packets, at the least as many as the capacity allows.\<close>

lemma head_drop_spec:
  assumes "cbf_inv env (s\<lparr>cb_stored := cb_stored s - L\<rparr>)"
  shows "\<exists>s' k P. head_drop env now (cb_packets s) s = Some s' \<and> cbf_inv env (s'\<lparr>cb_stored := cb_stored s' - L\<rparr>) \<and>
    cb_packets s' = drop k (cb_packets s) \<and> cbf_left env s' = filter P (cbf_left env s) \<and> cb_trigger s' = cb_trigger s \<and>
    cb_capacity s' = cb_capacity s \<and> (cb_stored s' \<le> cb_capacity s' \<or> cb_packets s' = [])"
  using assms
proof (induction "cb_packets s" arbitrary: s)
  case Nil
  then show ?case by (intro exI [of _ s] exI [of _ 0] exI [of _ "\<lambda>_. True"]) (simp flip: Nil.hyps)
next
  case (Cons a ps)
  obtain n p where a: "a = (n, p)" by (cases a)
  let ?s = "s\<lparr>cb_stored := cb_stored s - L\<rparr>"
  have packets: "cb_packets s = (n, p) # ps" using Cons.hyps(2) a by simp
  show ?case
  proof (cases "cb_stored s > cb_capacity s")
    case False
    then have "head_drop env now (cb_packets s) s = Some s" by (simp add: packets)
    then show ?thesis using Cons.prems False by (intro exI [of _ s] exI [of _ 0] exI [of _ "\<lambda>_. True"]) (simp add: not_less)
  next
    case True
    have "(n, cbf_identifier p) \<in> set (left_pairs (cbf_left env ?s))"
      using Cons.prems packets unfolding cbf_inv_def by (metis (no_types, lifting) case_prod_conv list.set_intros(1) list.simps(9) mset_eq_setD packet_pairs_def
          CbfPacketBuffer.select_convs(1) CbfPacketBuffer.update_convs(5) CbfPacketBuffer.surjective)
    then obtain t x where x: "cbf_identifier p = Some x" "(t, x, n) \<in> set (cbf_left env ?s)" by (auto simp: left_pairs_def)
    define s1 where "s1 = s\<lparr>cb_stored := cb_stored s - cbf_length (env_size env) p, cb_timers := bm_erase (env_timers env) x (cb_timers s),
      cb_counter := cnt_remove (env_counter env) now x (cb_counter s), cb_packets := ps\<rparr>"
    note r = erase_related [OF Cons.prems x(2), of now]
    have "filter (\<lambda>(m, p). m \<noteq> n) ps = ps"
      using Cons.prems packets by (intro filter_True) (force simp: cbf_inv_def)
    then have s1: "(erase_packet env now x n ?s)\<lparr>cb_timers := bm_erase (env_timers env) x (cb_timers ?s)\<rparr> = s1\<lparr>cb_stored := cb_stored s1 - L\<rparr>"
      by (simp add: s1_def erase_packet_def cbf_deref_def packets algebra_simps)
    have drop: "head_drop env now (cb_packets s) s = head_drop env now (cb_packets s1) s1" using True x(1) by (simp add: packets s1_def)
    obtain s' k P where IH: "head_drop env now (cb_packets s1) s1 = Some s'" "cbf_inv env (s'\<lparr>cb_stored := cb_stored s' - L\<rparr>)"
      "cb_packets s' = drop k (cb_packets s1)" "cbf_left env s' = filter P (cbf_left env s1)" "cb_trigger s' = cb_trigger s1"
      "cb_capacity s' = cb_capacity s1" "cb_stored s' \<le> cb_capacity s' \<or> cb_packets s' = []"
      using Cons.hyps(1) [of s1] r(1) unfolding s1 by (auto simp: s1_def)
    have "cbf_left env s1 = filter (\<lambda>(t, k, n). k \<noteq> x) (cbf_left env s)" using r(2) unfolding s1 by (simp add: cbf_left_def)
    then have "cbf_left env s' = filter (\<lambda>e. (case e of (t, k, n) \<Rightarrow> k \<noteq> x) \<and> P e) (cbf_left env s)" using IH(4) by (simp add: filter_filter)
    moreover have "cb_packets s' = drop (Suc k) (cb_packets s)" using IH(3) by (simp add: packets s1_def)
    moreover have "cb_trigger s1 = cb_trigger s" "cb_capacity s1 = cb_capacity s" by (simp_all add: s1_def)
    ultimately show ?thesis using drop IH
      by (intro exI [of _ s'] exI [of _ "Suc k"] exI [of _ "\<lambda>e. (case e of (t, k, n) \<Rightarrow> k \<noteq> x) \<and> P e"]) (simp only: drop IH simp_thms)
  qed
qed

end

context cbf_environment
begin

lemma insert_related:
  fixes c
  assumes "cbf_inv env s" "cbf_identifier p = Some x" "x \<notin> set (bm_ids (env_timers env) (cb_timers s))"
    "bm_insert (env_timers env) t x (cb_next s) (cb_timers s) = (ok, b)"
  defines "s' \<equiv> s\<lparr>cb_packets := cb_packets s @ [(cb_next s, p)], cb_next := Suc (cb_next s), cb_timers := b, cb_counter := c,
    cb_stored := cb_stored s + cbf_length (env_size env) p\<rparr>"
  shows "ok" "cbf_inv env s'" "mset (cbf_left env s') = add_mset (t, x, cb_next s) (mset (cbf_left env s))"
proof -
  note new = insert_new [OF assms(3,4)]
  show ok: ok using new by blast
  show left: "mset (cbf_left env s') = add_mset (t, x, cb_next s) (mset (cbf_left env s))"
    using new by (simp add: s'_def cbf_left_def)
  have "mset (left_pairs (cbf_left env s')) = add_mset (cb_next s, Some x) (mset (left_pairs (cbf_left env s)))"
    by (simp add: left_pairs_def left)
  then show "cbf_inv env s'"
    using assms(1,2) by (auto simp: cbf_inv_def s'_def packet_pairs_def less_Suc_eq)
qed

lemma same_timer:
  assumes "(t, x, n) \<in> set (cbf_left env s)" "(t', x, n') \<in> set (cbf_left env s)"
  shows "t' = t"
proof -
  have "distinct (map (fst \<circ> snd) (cbf_left env s))" using left_distinct [of "cb_timers s"] by (simp add: bm_ids_def cbf_left_def)
  then have "(t', x, n') = (t, x, n)" using assms unfolding distinct_map inj_on_def by (metis comp_apply fst_conv snd_conv)
  then show ?thesis by simp
qed

text \<open>
  A timer that was first and still is keeps its expiry, so the trigger need not change; in
  every other case it is scheduled anew, unless the memory of the first relation was reused.
\<close>

lemma add_triggered:
  assumes "cbf_triggered env s" "\<not> reused" "set (cbf_left env s1) \<subseteq> set (cbf_left env s)" "cb_trigger s3 = cb_trigger s"
    "\<And>e. e \<in> set (cbf_left env s3) \<Longrightarrow> e \<in> set (cbf_left env s1) \<or> fst (snd e) = x \<and> x \<notin> set (map (fst \<circ> snd) (cbf_left env s1))"
  shows "cbf_triggered env (if first_changed reused x (cbf_left env s) (cbf_left env s1) (cbf_left env s3) then schedule_timer env s3 else s3)"
proof (cases "first_changed reused x (cbf_left env s) (cbf_left env s1) (cbf_left env s3)")
  case True
  then show ?thesis by (simp add: schedule_timer_triggered)
next
  case False
  show ?thesis
  proof (cases "cbf_left env s3")
    case Nil
    then show ?thesis using False by (simp add: cbf_triggered_def)
  next
    case (Cons e es)
    obtain t' k' n' where e: "e = (t', k', n')" by (cases e) auto
    obtain t k n rest where before: "cbf_left env s = (t, k, n) # rest"
      using False Cons by (cases "cbf_left env s") (auto simp: first_changed_def)
    then have k: "k \<in> set (map (fst \<circ> snd) (cbf_left env s1))" "k' = k"
      using False assms(2) Cons e by (auto simp: first_changed_def first_is_def split: if_splits)
    have "(t', k, n') \<in> set (cbf_left env s1)" using assms(5) [of e] Cons e k by auto
    then have "t' = t" using same_timer [of t k n s t' n'] assms(3) before by auto
    then show ?thesis using False assms(1,4) before Cons e by (simp add: cbf_triggered_def)
  qed
qed

lemma cbf_add_spec:
  assumes "cbf_inv env s" "cbf_identifier p = Some x"
  shows "\<exists>s'. cbf_add env reused now p timeout s = Some s' \<and> cbf_inv env s' \<and> cb_capacity s' = cb_capacity s \<and>
    (cbf_triggered env s \<and> \<not> reused \<longrightarrow> cbf_triggered env s') \<and>
    (cb_packets s' = cb_packets s \<or> (\<exists>k ps. cb_packets s' = drop k (cb_packets s) @ ps \<and> (ps = [] \<or> (\<exists>n. ps = [(n, p)])) \<and>
      (of_nat (stored_size (env_size env) (drop k (cb_packets s)) + unat (cbf_length (env_size env) p)) \<le> cb_capacity s \<or> drop k (cb_packets s) = [])))"
proof (cases "timeout \<le> 0")
  case True
  then show ?thesis using assms(1) by (simp add: cbf_add_def)
next
  case False
  let ?L = "cbf_length (env_size env) p"
  have "cbf_inv env ((s\<lparr>cb_stored := cb_stored s + ?L\<rparr>)\<lparr>cb_stored := cb_stored (s\<lparr>cb_stored := cb_stored s + ?L\<rparr>) - ?L\<rparr>)"
    using assms(1) by simp
  from head_drop_spec [OF this, of now] obtain s1 k P
    where drop: "head_drop env now (cb_packets s) (s\<lparr>cb_stored := cb_stored s + ?L\<rparr>) = Some s1"
      and inv1: "cbf_inv env (s1\<lparr>cb_stored := cb_stored s1 - ?L\<rparr>)" and packets1: "cb_packets s1 = drop k (cb_packets s)"
      and left1: "cbf_left env s1 = filter P (cbf_left env s)" and s1: "cb_trigger s1 = cb_trigger s" "cb_capacity s1 = cb_capacity s"
      and fits: "cb_stored s1 \<le> cb_capacity s1 \<or> cb_packets s1 = []"
    by (auto simp: cbf_left_def)
  let ?s1 = "s1\<lparr>cb_stored := cb_stored s1 - ?L\<rparr>"
  obtain ok b where ins: "bm_insert (env_timers env) (new_timer now timeout) x (cb_next s1) (cb_timers s1) = (ok, b)" by fastforce
  define s3 where "s3 = (if ok then s1\<lparr>cb_packets := cb_packets s1 @ [(cb_next s1, p)], cb_next := Suc (cb_next s1), cb_timers := b,
      cb_counter := cnt_add (env_counter env) now x (cb_counter s1)\<rparr>
    else s1\<lparr>cb_next := Suc (cb_next s1), cb_timers := b, cb_stored := cb_stored s1 - ?L\<rparr>)"
  have add: "cbf_add env reused now p timeout s =
      Some (if first_changed reused x (cbf_left env s) (cbf_left env s1) (cbf_left env s3) then schedule_timer env s3 else s3)"
    using False drop ins assms(2) by (simp add: cbf_add_def s3_def Let_def)
  have s3: "cbf_inv env s3 \<and> (\<forall>e\<in>set (cbf_left env s3). e \<in> set (cbf_left env s1) \<or> fst (snd e) = x \<and> x \<notin> set (map (fst \<circ> snd) (cbf_left env s1)))"
  proof (cases "x \<in> set (bm_ids (env_timers env) (cb_timers s1))")
    case True
    then have "ok = False" "b = cb_timers s1" using insert_old [OF True] ins by auto
    then show ?thesis using inv1 by (auto simp: s3_def cbf_inv_def cbf_left_def less_SucI)
  next
    case new: False
    have ok using insert_related(1) [OF inv1 assms(2), of "new_timer now timeout" ok b] new ins by simp
    note r = insert_related(2,3) [OF inv1 assms(2), of "new_timer now timeout" ok b "cnt_add (env_counter env) now x (cb_counter s1)"]
    have s3': "s3 = ?s1\<lparr>cb_packets := cb_packets ?s1 @ [(cb_next ?s1, p)], cb_next := Suc (cb_next ?s1), cb_timers := b,
        cb_counter := cnt_add (env_counter env) now x (cb_counter s1), cb_stored := cb_stored ?s1 + ?L\<rparr>"
      using \<open>ok\<close> by (simp add: s3_def)
    have "set (cbf_left env s3) = insert (new_timer now timeout, x, cb_next s1) (set (cbf_left env s1))"
      using arg_cong [OF r(2), of set_mset] new ins unfolding s3' by (simp add: cbf_left_def)
    then show ?thesis using r(1) new ins unfolding s3' [symmetric] by (auto simp: s3' bm_ids_def cbf_left_def)
  qed
  define r where "r = (if first_changed reused x (cbf_left env s) (cbf_left env s1) (cbf_left env s3) then schedule_timer env s3 else s3)"
  have "cb_trigger s3 = cb_trigger s" using s1 by (simp add: s3_def)
  then have trig: "cbf_triggered env s \<and> \<not> reused \<longrightarrow> cbf_triggered env r"
    unfolding r_def using left1 s3 by (intro impI add_triggered) auto
  define ps where "ps = (if ok then [(cb_next s1, p)] else [])"
  have "cb_stored s1 = of_nat (stored_size (env_size env) (cb_packets s1) + unat ?L)"
    using inv1 by (simp add: cbf_inv_def algebra_simps)
  then have room: "of_nat (stored_size (env_size env) (drop k (cb_packets s)) + unat ?L) \<le> cb_capacity s \<or> drop k (cb_packets s) = []"
    using fits s1(2) packets1 by metis
  have "cb_packets r = drop k (cb_packets s) @ ps" "cb_capacity r = cb_capacity s" "cbf_inv env r"
    using packets1 s1 s3 by (auto simp: r_def s3_def ps_def)
  moreover have "ps = [] \<or> (\<exists>n. ps = [(n, p)])" by (simp add: ps_def)
  ultimately show ?thesis using add trig room unfolding r_def [symmetric] by blast
qed

end

section \<open>Reachable states\<close>

text \<open>
  The states a buffer can reach by its operations and the invocations of its trigger, at any
  moments. Packets have a PDU and are shorter than 4 GiB. A run is calm when no timer is
  updated and no memory of a first relation is reused.
\<close>

inductive cbf_reachable :: "('b, 'cnt, 's) cbf_env \<Rightarrow> bool \<Rightarrow> ('b, 'cnt, 's, 'f) CbfPacketBuffer \<Rightarrow> bool" for env calm where
  start: "bm_left (env_timers env) b = [] \<Longrightarrow> cbf_reachable env calm (new_cbf b c capacity)"
| add: "cbf_reachable env calm s \<Longrightarrow> cbf_identifier p = Some x \<Longrightarrow> unat (cbf_length (env_size env) p) < 2 ^ 32 \<Longrightarrow> (calm \<longrightarrow> \<not> reused) \<Longrightarrow>
    cbf_add env reused now p timeout s = Some s' \<Longrightarrow> cbf_reachable env calm s'"
| remove: "cbf_reachable env calm s \<Longrightarrow> cbf_reachable env calm (snd (cbf_remove env now x s))"
| fetch: "cbf_reachable env calm s \<Longrightarrow> cbf_reachable env calm (snd (cbf_fetch env now x s))"
| update: "cbf_reachable env calm s \<Longrightarrow> \<not> calm \<Longrightarrow> cbf_reachable env calm (cbf_update env now x timeout s)"
| fire: "cbf_reachable env calm s \<Longrightarrow> cbf_reachable env calm (snd (cbf_fire env s))"

text \<open>Only a single packet may be larger than the buffer.\<close>

definition cbf_bounded :: "('b, 'cnt, 's) cbf_env \<Rightarrow> ('b, 'cnt, 's, 'f) CbfPacketBuffer \<Rightarrow> bool" where
  "cbf_bounded env s \<longleftrightarrow> (\<forall>p\<in>snd ` set (cb_packets s). unat (cbf_length (env_size env) p) < 2 ^ 32) \<and>
     (stored_size (env_size env) (cb_packets s) \<le> unat (cb_capacity s) \<or> length (cb_packets s) = 1)"

lemma stored_size_drop_le: "stored_size sz (drop k ps) \<le> stored_size sz ps"
  by (metis append_take_drop_id le_add2 stored_size_simps(3))

lemma length_one_cases: "length ps = Suc 0 \<Longrightarrow> \<exists>n p. ps = [(n, p)]"
  by (cases ps) auto

lemma bounded_size: "cbf_bounded env s \<Longrightarrow> stored_size (env_size env) (cb_packets s) \<le> max (unat (cb_capacity s)) (2 ^ 32)"
  by (auto simp: cbf_bounded_def dest: length_one_cases)

lemma bounded_filter:
  assumes "cbf_bounded env s" "cb_packets s' = filter P (cb_packets s)" "cb_capacity s' = cb_capacity s"
  shows "cbf_bounded env s'"
  using assms stored_size_filter_le [of "env_size env" P "cb_packets s"] by (auto simp: cbf_bounded_def dest!: length_one_cases)

lemma bounded_add:
  assumes "cbf_bounded env s" "unat (cb_capacity s) < 2 ^ 63" "unat (cbf_length (env_size env) p) < 2 ^ 32" "cb_capacity s' = cb_capacity s"
    "cb_packets s' = drop k (cb_packets s) @ ps" "ps = [] \<or> ps = [(n, p)]"
    "of_nat (stored_size (env_size env) (drop k (cb_packets s)) + unat (cbf_length (env_size env) p)) \<le> cb_capacity s \<or> drop k (cb_packets s) = []"
  shows "cbf_bounded env s'"
proof -
  let ?n = "stored_size (env_size env) (drop k (cb_packets s)) + unat (cbf_length (env_size env) p)"
  have "?n < 2 ^ LENGTH(64)"
    using bounded_size [OF assms(1)] assms(2,3) stored_size_drop_le [of "env_size env" k "cb_packets s"] by simp
  then have "unat (of_nat ?n :: size_t) = ?n" by (simp add: unat_of_nat del: of_nat_add)
  then have "?n \<le> unat (cb_capacity s) \<or> drop k (cb_packets s) = []" using assms(7) by (metis word_le_nat_alt)
  then show ?thesis using assms(1,3-6) by (auto simp: cbf_bounded_def dest: in_set_dropD)
qed

context cbf_environment
begin

lemma cbf_fire_spec:
  assumes "cbf_inv env s"
  shows "cbf_inv env (snd (cbf_fire env s))" "cbf_triggered env s \<Longrightarrow> cbf_triggered env (snd (cbf_fire env s))"
    "cb_capacity (snd (cbf_fire env s)) = cb_capacity s" "\<exists>P. cb_packets (snd (cbf_fire env s)) = filter P (cb_packets s)"
proof -
  have "cbf_inv env (snd (cbf_fire env s)) \<and> (cbf_triggered env s \<longrightarrow> cbf_triggered env (snd (cbf_fire env s))) \<and>
    cb_capacity (snd (cbf_fire env s)) = cb_capacity s \<and> (\<exists>P. cb_packets (snd (cbf_fire env s)) = filter P (cb_packets s))"
  proof (cases "cb_trigger s")
    case None
    have "\<exists>P. cb_packets s = filter P (cb_packets s)" by (rule exI [of _ "\<lambda>_. True"]) simp
    then show ?thesis using None assms by (simp add: cbf_fire_def)
  next
    case (Some now)
    let ?s = "s\<lparr>cb_trigger := None\<rparr>"
    have inv: "cbf_inv env ?s" using assms by (simp add: cbf_inv_def cbf_left_def)
    note r = flush_loop_spec [OF inv takeWhile_dropWhile_id [of "\<lambda>(t, x, n). expiry t \<le> now", symmetric], where now = now]
    show ?thesis using r(2,6,7)
      by (auto simp: cbf_fire_def Some cbf_flush_def schedule_timer_triggered split_beta) (auto simp: cbf_triggered_def)
  qed
  then show "cbf_inv env (snd (cbf_fire env s))" "cbf_triggered env s \<Longrightarrow> cbf_triggered env (snd (cbf_fire env s))"
    "cb_capacity (snd (cbf_fire env s)) = cb_capacity s" "\<exists>P. cb_packets (snd (cbf_fire env s)) = filter P (cb_packets s)"
    by auto
qed

lemma reachable_inv:
  "cbf_reachable env calm s \<Longrightarrow> cbf_inv env s \<and> (unat (cb_capacity s) < 2 ^ 63 \<longrightarrow> cbf_bounded env s) \<and> (calm \<longrightarrow> cbf_triggered env s)"
proof (induction rule: cbf_reachable.induct)
  case (start b c capacity)
  then show ?case by (simp add: new_cbf_def cbf_inv_def cbf_left_def left_pairs_def packet_pairs_def cbf_bounded_def cbf_triggered_def)
next
  case (add s p x reused now timeout s')
  then have "cbf_inv env s" by blast
  note spec = cbf_add_spec [OF this add.hyps(2), of reused now timeout, unfolded add.hyps(5)]
  have "cbf_bounded env s'" if cap: "unat (cb_capacity s') < 2 ^ 63"
  proof -
    have b: "cbf_bounded env s" "unat (cb_capacity s) < 2 ^ 63" using cap spec add.IH by auto
    show ?thesis
    proof (cases "cb_packets s' = cb_packets s")
      case True
      then show ?thesis using b(1) spec by (auto simp: cbf_bounded_def)
    next
      case False
      then show ?thesis using bounded_add [OF b add.hyps(3)] spec by auto
    qed
  qed
  then show ?case using spec add.IH add.hyps(4) by auto
next
  case (remove s now x)
  then have "cbf_inv env s" by blast
  from cbf_remove_spec [OF this, of now x] show ?case using remove.IH bounded_filter by metis
next
  case (fetch s now x)
  then have "cbf_inv env s" by blast
  from cbf_remove_spec [OF this, of now x] show ?case using fetch.IH bounded_filter unfolding cbf_fetch_remove by metis
next
  case (update s now x timeout)
  then have s: "cbf_inv env s" by blast
  have "map snd (map (\<lambda>(n, p). (n, cbf_length (env_size env) p)) (cb_packets (cbf_update env now x timeout s))) =
      map snd (map (\<lambda>(n, p). (n, cbf_length (env_size env) p)) (cb_packets s))"
    using update_pairs(3) [OF s, of "env_size env" now x timeout] by simp
  then have lens: "map (cbf_length (env_size env) \<circ> snd) (cb_packets (cbf_update env now x timeout s)) = map (cbf_length (env_size env) \<circ> snd) (cb_packets s)"
    by (simp add: comp_def case_prod_unfold)
  have "cbf_bounded env (cbf_update env now x timeout s) = cbf_bounded env s"
    using arg_cong [OF lens, of length] arg_cong [OF lens, of "\<lambda>xs. sum_list (map unat xs)"] arg_cong [OF lens, of "\<lambda>xs. \<forall>n\<in>set xs. unat n < 2 ^ 32"]
      update_pairs(2) [OF s, of now x timeout]
    by (simp add: cbf_bounded_def stored_size_def comp_def case_prod_unfold)
  then show ?case using update.IH update.hyps update_pairs(1,2) [OF s, of now x timeout] by metis
next
  case (fire s)
  then have "cbf_inv env s" by blast
  from cbf_fire_spec [OF this] show ?case using fire.IH bounded_filter by metis
qed

end

lemma cbf_find_identifier:
  "cbf_environment env \<Longrightarrow> cbf_inv env s \<Longrightarrow> cbf_find env x s = Some p \<Longrightarrow> cbf_identifier p = Some x"
  by (auto simp: cbf_find_def cbf_left_def cbf_deref_def split: option.splits
      dest!: bm_find_Some cbf_environment.related_packet [unfolded cbf_left_def, rotated 2])

text \<open>
  C25: the contention buffer stays consistent. In every state it reaches there is one timer
  per packet, as its assertions demand, looking a packet up by identifier gives the packet
  with that identifier, the counter of octets is exact, and the buffer holds more octets than
  its capacity only when it holds a single packet.
\<close>

theorem cbf_buffer_consistent:
  assumes "timer_bimap (env_timers env)" "cbf_reachable env calm s" "unat (cb_capacity s) < 2 ^ 63"
  shows "length (cb_packets s) = length (cbf_left env s) \<and> (\<forall>x p. cbf_find env x s = Some p \<longrightarrow> cbf_identifier p = Some x) \<and>
    unat (cb_stored s) = stored_size (env_size env) (cb_packets s) \<and> (unat (cb_stored s) \<le> unat (cb_capacity s) \<or> length (cb_packets s) = 1)"
proof -
  have env: "cbf_environment env" using assms(1) by (rule cbf_environment.intro)
  then have inv: "cbf_inv env s" and b: "cbf_bounded env s" using cbf_environment.reachable_inv [OF env assms(2)] assms(3) by auto
  have "stored_size (env_size env) (cb_packets s) < 2 ^ LENGTH(64)" using bounded_size [OF b] assms(3) by simp
  then have stored: "unat (cb_stored s) = stored_size (env_size env) (cb_packets s)" using inv by (simp add: cbf_inv_def unat_of_nat)
  have "length (left_pairs (cbf_left env s)) = length (packet_pairs (cb_packets s))" using inv unfolding cbf_inv_def by (metis size_mset)
  then show ?thesis using stored b cbf_find_identifier [OF env inv] by (simp add: cbf_bounded_def left_pairs_def packet_pairs_def)
qed

text \<open>The trigger is invoked a number of times, each time at its moment.\<close>

fun cbf_fires :: "('b, 'cnt, 's) cbf_env \<Rightarrow> nat \<Rightarrow> ('b, 'cnt, 's, 'f) CbfPacketBuffer \<Rightarrow>
   (GbcGacHeader, 's, 'f) PendingPacket list \<times> ('b, 'cnt, 's, 'f) CbfPacketBuffer" where
  "cbf_fires env 0 s = ([], s)"
| "cbf_fires env (Suc k) s = (case cbf_fire env s of (sent, s1) \<Rightarrow> case cbf_fires env k s1 of (sent', s2) \<Rightarrow> (sent @ sent', s2))"

context cbf_environment
begin

lemma fire_first:
  assumes "cbf_inv env s" "cbf_triggered env s" "cbf_left env s = (t, x, n) # rest"
  shows "\<exists>es rest'. cbf_left env s = es @ rest' \<and> length rest' < length (cbf_left env s) \<and> (\<forall>e\<in>set es. expiry (fst e) = expiry t) \<and>
    fst (cbf_fire env s) = concat (map (handed_over s (expiry t)) es) \<and> cbf_left env (snd (cbf_fire env s)) = rest' \<and>
    (\<forall>n\<in>snd ` snd ` set rest'. cbf_deref n (snd (cbf_fire env s)) = cbf_deref n s)"
proof -
  let ?P = "\<lambda>(t', x :: CbfPacketIdentifier, n :: nat). expiry t' \<le> expiry t"
  let ?s = "s\<lparr>cb_trigger := None\<rparr>"
  have inv: "cbf_inv env ?s" using assms(1) by (simp add: cbf_inv_def cbf_left_def)
  note r = flush_loop_spec [OF inv takeWhile_dropWhile_id [of ?P, symmetric], where now = "expiry t"]
  have trig: "cb_trigger s = Some (expiry t)" using assms(2,3) by (simp add: cbf_triggered_def)
  have left: "cbf_left env ?s = cbf_left env s" by (simp add: cbf_left_def)
  have hand: "handed_over ?s = handed_over s" by (intro ext) (simp add: handed_over_def cbf_deref_def)
  define fl where "fl = flush_loop env (expiry t) (takeWhile ?P (cbf_left env s)) ?s"
  have eq: "cbf_fire env s = (fst fl, if cbf_left env (snd fl) \<noteq> [] then schedule_timer env (snd fl) else snd fl)"
    by (simp add: cbf_fire_def trig cbf_flush_def left fl_def split_beta)
  have deref: "cbf_deref m (snd (cbf_fire env s)) = cbf_deref m (snd fl)" for m by (simp add: eq cbf_deref_def)
  have fire: "fst (cbf_fire env s) = concat (map (handed_over s (expiry t)) (takeWhile ?P (cbf_left env s)))"
    "cbf_left env (snd (cbf_fire env s)) = dropWhile ?P (cbf_left env s)"
    using r(1,3) unfolding left hand fl_def [symmetric] by (simp_all add: eq)
  have fire3: "\<forall>n\<in>snd ` snd ` set (dropWhile ?P (cbf_left env s)). cbf_deref n (snd (cbf_fire env s)) = cbf_deref n s"
    using r(5) unfolding left hand fl_def [symmetric] deref by (simp add: cbf_deref_def)
  have "expiry t \<le> expiry t'" if "(t', x', n') \<in> set (cbf_left env s)" for t' x' n'
    using left_sorted [of "cb_timers s"] assms(3) that by (auto simp: cbf_left_def)
  then have "expiry (fst e) = expiry t" if "e \<in> set (takeWhile ?P (cbf_left env s))" for e
    using set_takeWhileD [OF that] by (cases e) (auto intro: order_antisym)
  moreover have "length (dropWhile ?P (cbf_left env s)) < length (cbf_left env s)"
    using assms(3) by (simp add: le_imp_less_Suc length_dropWhile_le)
  moreover have "cbf_left env s = takeWhile ?P (cbf_left env s) @ dropWhile ?P (cbf_left env s)" by simp
  ultimately show ?thesis using fire fire3 by blast
qed

lemma fires_idle: "cbf_left env s = [] \<Longrightarrow> cbf_inv env s \<Longrightarrow> fst (cbf_fires env k s) = [] \<and> cbf_left env (snd (cbf_fires env k s)) = [] \<and> cbf_inv env (snd (cbf_fires env k s))"
proof (induction k arbitrary: s)
  case (Suc k)
  have "fst (cbf_fire env s) = []" "cbf_left env (snd (cbf_fire env s)) = []"
    using Suc.prems(1) by (auto simp: cbf_fire_def cbf_flush_def cbf_left_def split: option.split)
  then show ?case using Suc.IH [of "snd (cbf_fire env s)"] cbf_fire_spec(1) [OF Suc.prems(2)] by (simp add: split_beta)
qed simp

lemma fires_deliver:
  assumes "cbf_inv env s" "cbf_triggered env s" "length (cbf_left env s) \<le> k"
  shows "fst (cbf_fires env k s) = concat (map (\<lambda>e. handed_over s (expiry (fst e)) e) (cbf_left env s)) \<and>
    cbf_left env (snd (cbf_fires env k s)) = [] \<and> cbf_inv env (snd (cbf_fires env k s))"
  using assms
proof (induction k arbitrary: s)
  case 0
  then show ?case by simp
next
  case (Suc k)
  show ?case
  proof (cases "cbf_left env s")
    case Nil
    then show ?thesis using fires_idle [OF Nil Suc.prems(1), of "Suc k"] by simp
  next
    case (Cons e rest)
    obtain t x n where "e = (t, x, n)" by (cases e) auto
    with Cons have left: "cbf_left env s = (t, x, n) # rest" by simp
    obtain es rest' where f: "cbf_left env s = es @ rest'" "length rest' < length (cbf_left env s)" "\<forall>e\<in>set es. expiry (fst e) = expiry t"
      "fst (cbf_fire env s) = concat (map (handed_over s (expiry t)) es)" "cbf_left env (snd (cbf_fire env s)) = rest'"
      "\<forall>n\<in>snd ` snd ` set rest'. cbf_deref n (snd (cbf_fire env s)) = cbf_deref n s"
      using fire_first [OF Suc.prems(1,2) left] by blast
    have m1: "map (handed_over s (expiry t)) es = map (\<lambda>e. handed_over s (expiry (fst e)) e) es" using f(3) by simp
    have m2: "map (\<lambda>e. handed_over (snd (cbf_fire env s)) (expiry (fst e)) e) rest' = map (\<lambda>e. handed_over s (expiry (fst e)) e) rest'"
      using f(6) by (intro map_cong refl) (auto simp: handed_over_def)
    note IH = Suc.IH [OF cbf_fire_spec(1) [OF Suc.prems(1)] cbf_fire_spec(2) [OF Suc.prems(1,2)]]
    show ?thesis using IH f(1,2,4,5) Suc.prems(3) by (simp add: split_beta m1 m2)
  qed
qed

end

text \<open>
  C24: no packet is stuck in the contention buffer. Take any state reached without updates of
  timers and without a new relation that gets the memory of an erased first one. From there
  the pending triggers hand over, in the order of the timers and each at the expiry of its own
  timer, every packet whose lifetime has not ended by then, with the lifetime reduced by the
  time it was queued; packets whose lifetime has ended are discarded. As many invocations as
  there are packets leave the buffer empty.
\<close>

theorem cbf_buffer_delivers:
  assumes "timer_bimap (env_timers env)" "cbf_reachable env True s"
  shows "fst (cbf_fires env (length (cb_packets s)) s) = concat (map (\<lambda>e. handed_over s (expiry (fst e)) e) (cbf_left env s)) \<and>
    cb_packets (snd (cbf_fires env (length (cb_packets s)) s)) = []"
proof -
  have env: "cbf_environment env" using assms(1) by (rule cbf_environment.intro)
  then have inv: "cbf_inv env s" and trig: "cbf_triggered env s" using cbf_environment.reachable_inv [OF env assms(2)] by auto
  have len: "length (cbf_left env s') = length (cb_packets s')" if "cbf_inv env s'" for s' :: "('a, 'b, 'c, 'd) CbfPacketBuffer"
    using that unfolding cbf_inv_def by (metis (no_types) length_map left_pairs_def packet_pairs_def size_mset)
  note d = cbf_environment.fires_deliver [OF env inv trig, of "length (cb_packets s)"]
  have "cbf_inv env (snd (cbf_fires env (length (cb_packets s)) s))" using d len [OF inv] by simp
  from len [OF this] show ?thesis using d len [OF inv] by simp
qed

text \<open>A buffer over association lists, and packets of one source to run it on.\<close>

definition list_env :: "((CbfPacketIdentifier \<times> Timer \<times> nat) list, CbfPacketIdentifier \<rightharpoonup> nat, unit) cbf_env" where
  "list_env = \<lparr>env_timers = list_bimap, env_counter = CbfCounterContending, env_size = (\<lambda>_. 0)\<rparr>"

interpretation list_env: cbf_environment list_env
  by (rule cbf_environment.intro) (simp add: list_env_def list_bimap.timer_bimap_axioms)

definition example_packet :: "SequenceNumber \<Rightarrow> (unit, unit) CbfPacket" where
  "example_packet sn = \<lparr>cp_packet = \<lparr>pp_pdu = Some
       \<lparr>pdu_basic = \<lparr>version = 1, basic_next_header = Basic_Common, basic_reserved = 0, lifetime = 0x1a, hop_limit = 3\<rparr>,
        pdu_common = \<lparr>common_next_header = 0, reserved1 = 0, header_type = HT_GeoBroadcast_Circle, traffic_class = 0, flags = 0, payload = 2,
          maximum_hop_limit = 3, reserved2 = 0\<rparr>,
        pdu_extended = \<lparr>sequence_number = sn, gbc_reserved1 = 0, source_position = example_lpv, geo_area_pos_latitude = 0, geo_area_pos_longitude = 0,
          distance_a = 100, distance_b = 0, angle = 0, gbc_reserved2 = 0\<rparr>, pdu_secured = None\<rparr>,
       pp_payload = Some [0, 1], pp_function = ()\<rparr>, cp_sender = MacAddress 2 0 0 0 0 1\<rparr>"

definition example_cbf :: "((CbfPacketIdentifier \<times> Timer \<times> nat) list, CbfPacketIdentifier \<rightharpoonup> nat, unit, unit) CbfPacketBuffer" where
  "example_cbf = the (cbf_add list_env False 1000 (example_packet 8) 3000 (the (cbf_add list_env False 0 (example_packet 7) 5000 (new_cbf [] Map.empty 200))))"

lemma example_reachable_add:
  assumes "cbf_reachable list_env calm s"
  shows "cbf_reachable list_env calm (the (cbf_add list_env False now (example_packet sn) d s))"
proof -
  have x: "cbf_identifier (example_packet sn) = Some (gn_addr example_lpv, sn)" by (simp add: cbf_identifier_def example_packet_def)
  have "cbf_length (env_size list_env) (example_packet sn) = 58"
    by (simp add: cbf_length_def pending_length_def example_packet_def as_pdu_def pdu_length_def)
  then have len: "unat (cbf_length (env_size list_env) (example_packet sn)) < 2 ^ 32" by simp
  have "cbf_inv list_env s" using list_env.reachable_inv [OF assms] by blast
  from list_env.cbf_add_spec [OF this x, of False now d] obtain s' where "cbf_add list_env False now (example_packet sn) d s = Some s'" by blast
  then show ?thesis using cbf_reachable.add [OF assms x len, of False] by simp
qed

lemma example_reachable: "cbf_reachable list_env calm example_cbf"
  unfolding example_cbf_def
  by (intro example_reachable_add cbf_reachable.start) (simp add: list_env_def list_bimap_def list_bimap_left_def)

lemma example_bimap: "timer_bimap (env_timers list_env)"
  by (rule list_env.timer_bimap_axioms)

theorem cbf_buffer_consistent_witness:
  "length (cb_packets example_cbf) = 2 \<and> length (cbf_left list_env example_cbf) = 2 \<and> unat (cb_stored example_cbf) = 116"
proof -
  have "cb_capacity example_cbf = 200" by code_simp
  then have "unat (cb_capacity example_cbf) < 2 ^ 63" by simp
  moreover have "length (cb_packets example_cbf) = 2" "cb_stored example_cbf = 116" by code_simp+
  ultimately show ?thesis using cbf_buffer_consistent [OF example_bimap example_reachable] by simp
qed

theorem cbf_buffer_delivers_witness:
  "length (fst (cbf_fires list_env 2 example_cbf)) = 2 \<and> cb_packets (snd (cbf_fires list_env 2 example_cbf)) = []"
proof -
  have "length (cb_packets example_cbf) = 2" by code_simp
  moreover have "length (concat (map (\<lambda>e. handed_over example_cbf (expiry (fst e)) e) (cbf_left list_env example_cbf))) = 2" by code_simp
  ultimately show ?thesis using cbf_buffer_delivers [OF example_bimap example_reachable] by simp
qed

lemma sorted_takeWhile: "sorted (map f xs) \<Longrightarrow> x \<in> set xs \<Longrightarrow> f x \<le> c \<Longrightarrow> x \<in> set (takeWhile (\<lambda>x. f x \<le> c) xs)"
  by (induction xs) auto

text \<open>
  C39: an update does not schedule the trigger anew. When the timer of a stored packet is replaced
  by one that ends before the pending trigger, in any reachable state, the trigger stays where it
  is. The first timer has then ended before it, but the packet is handed over, and leaves the
  buffer, only at the old trigger; its lifetime is reduced by the whole time up to this moment.
\<close>

theorem cbf_trigger_late:
  fixes s :: "('b, 'cnt, 's, 'f) CbfPacketBuffer"
  assumes "timer_bimap (env_timers env)" "cbf_reachable env calm s" "bm_find (env_timers env) x (cb_timers s) = Some (t, k, n)"
    "cb_trigger s = Some tp" "now + timeout < tp"
  shows "let s' = cbf_update env now x timeout s
    in cb_trigger s' = Some tp \<and> (\<exists>e es. cbf_left env s' = e # es \<and> expiry (fst e) \<le> now + timeout) \<and>
       set (handed_over s' tp (new_timer now timeout, x, n)) \<subseteq> set (fst (cbf_fire env s')) \<and> cbf_find env x (snd (cbf_fire env s')) = None"
proof -
  have env: "cbf_environment env" using assms(1) by (rule cbf_environment.intro)
  let ?s' = "cbf_update env now x timeout s" and ?e = "(new_timer now timeout, x, n)"
  let ?P = "\<lambda>(t', x :: CbfPacketIdentifier, n :: nat). expiry t' \<le> tp" and ?s = "?s'\<lparr>cb_trigger := None\<rparr>"
  have inv: "cbf_inv env ?s'" using cbf_environment.update_pairs(1) [OF env] cbf_environment.reachable_inv [OF env assms(2)] by blast
  have trig: "cb_trigger ?s' = Some tp" using assms(3,4) by (simp add: cbf_update_def)
  have x: "(t, x, n) \<in> set (cbf_left env s)" using bm_find_Some [OF assms(3)] by (simp add: cbf_left_def)
  have "mset (cbf_left env ?s') = mset (map (\<lambda>(t', k, i). (if k = x then new_timer now timeout else t', k, i)) (cbf_left env s))"
    using timer_bimap.replace_left [OF assms(1)] assms(3) by (simp add: cbf_update_def cbf_left_def)
  from mset_eq_setD [OF this] have e: "?e \<in> set (cbf_left env ?s')" using x by (auto intro: rev_image_eqI)
  have sorted: "sorted (map (expiry \<circ> fst) (cbf_left env ?s'))" using timer_bimap.left_sorted [OF assms(1)] by (simp add: cbf_left_def)
  then have first: "\<exists>e es. cbf_left env ?s' = e # es \<and> expiry (fst e) \<le> now + timeout"
    using e by (cases "cbf_left env ?s'") (auto simp: new_timer_def)
  have inv0: "cbf_inv env ?s" using inv by (simp add: cbf_inv_def cbf_left_def)
  note r = cbf_environment.flush_loop_spec [OF env inv0 takeWhile_dropWhile_id [of ?P, symmetric], where now = tp]
  have left: "cbf_left env ?s = cbf_left env ?s'" by (simp add: cbf_left_def)
  have hand: "handed_over ?s = handed_over ?s'" by (intro ext) (simp add: handed_over_def cbf_deref_def)
  have fire: "fst (cbf_fire env ?s') = concat (map (handed_over ?s' tp) (takeWhile ?P (cbf_left env ?s')))"
    "cbf_left env (snd (cbf_fire env ?s')) = dropWhile ?P (cbf_left env ?s')"
    using r(1,3) unfolding left hand by (simp_all add: cbf_fire_def trig cbf_flush_def left split_beta)
  have in_take: "?e \<in> set (takeWhile ?P (cbf_left env ?s'))"
    using sorted_takeWhile [OF sorted e, of tp] assms(5) by (simp add: new_timer_def comp_def case_prod_unfold)
  then have "set (handed_over ?s' tp ?e) \<subseteq> set (fst (cbf_fire env ?s'))" unfolding fire(1) by auto
  moreover have "x \<notin> fst ` snd ` set (dropWhile ?P (cbf_left env ?s'))"
  proof -
    have "distinct (map (fst \<circ> snd) (takeWhile ?P (cbf_left env ?s') @ dropWhile ?P (cbf_left env ?s')))"
      using timer_bimap.left_distinct [OF assms(1)] by (simp add: bm_ids_def cbf_left_def del: map_append)
    then have "fst (snd ?e) \<notin> set (map (fst \<circ> snd) (dropWhile ?P (cbf_left env ?s')))" using in_take by (force simp del: takeWhile_dropWhile_id)
    then show ?thesis by (simp add: image_comp)
  qed
  then have "find (\<lambda>(t, k, i). k = x) (dropWhile ?P (cbf_left env ?s')) = None" by (force simp: find_None_iff)
  then have "bm_find (env_timers env) x (cb_timers (snd (cbf_fire env ?s'))) = None" using fire(2) by (simp only: bm_find_def cbf_left_def)
  then have "cbf_find env x (snd (cbf_fire env ?s')) = None" by (simp add: cbf_find_def)
  ultimately show ?thesis using trig first by (simp add: Let_def)
qed
theorem cbf_trigger_late_witness:
  "let s' = cbf_update list_env 2000 (gn_addr example_lpv, 7) 500 example_cbf
   in cb_trigger s' = Some 4000 \<and> (\<exists>e es. cbf_left list_env s' = e # es \<and> expiry (fst e) \<le> 2500) \<and> cbf_find list_env (gn_addr example_lpv, 7) (snd (cbf_fire list_env s')) = None"
proof -
  have "bm_find (env_timers list_env) (gn_addr example_lpv, 7) (cb_timers example_cbf) = Some (\<lparr>expiry = 5000, start = 0\<rparr>, (gn_addr example_lpv, 7), 0)"
    "cb_trigger example_cbf = Some 4000"
    by code_simp+
  from cbf_trigger_late [OF example_bimap example_reachable this, of 2000 500] show ?thesis by (simp add: Let_def)
qed

end
