(* ===== verification/Gn_Forwarding.thy ===== *)
theory Gn_Forwarding
  imports Gn_Areas Gn_Location Gn_Cbf
begin

unbundle bit_operations_syntax

text \<open>
  The router's state and the forwarding of GeoBroadcast packets: \<open>mib.hpp\<close>,
  \<open>traffic_class.cpp\<close>, \<open>next_hop.cpp\<close>, and from \<open>router.cpp\<close> the hand-over to the link layer,
  greedy, simple, contention based and advanced forwarding and the processing of buffered
  packets. The functions the router stores in pending packets are values of a datatype. Calls
  of other layers are recorded in the order they are made. Distances and the arc cosine come
  from libraries for geodesy and floating point numbers and are parameters; a distance is
  absent when the library returns not-a-number.
\<close>

section \<open>Configuration\<close>

datatype UnicastForwarding = UF_Unspecified | UF_Greedy | UF_CBF
datatype BroadcastForwarding = BF_Unspecified | BF_SIMPLE | BF_CBF | BF_Advanced
datatype AddrConfMethod = Auto | Managed | Anonymous
datatype InterfaceType = IT_Unspecified | IT_ITS_G5
datatype SecurityDecapHandling = Strict | Non_Strict

record MIB =
  itsGnLocalAddrConfMethod :: AddrConfMethod
  itsGnProtocolVersion :: "32 word"
  itsGnIsMobile :: bool
  itsGnIfType :: InterfaceType
  itsGnPaiInterval :: rat
  itsGnMaxSduSize :: "32 word"
  itsGnLifetimeLocTE :: rat
  itsGnSecurity :: bool
  itsGnSnDecapResultHandling :: SecurityDecapHandling
  itsGnBeaconServiceRetransmitTimer :: rat
  itsGnBeaconServiceMaxJitter :: rat
  itsGnDefaultHopLimit :: "32 word"
  itsGnDPLLength :: "32 word"
  itsGnMaxPacketLifetime :: "8 word"
  itsGnDefaultPacketLifetime :: "8 word"
  itsGnMaxPacketDataRate :: "32 word"
  itsGnMaxPacketDataRateEmaBeta :: rat
  itsGnMaxGeoAreaSize :: rat
  itsGnMinPacketRepetitionInterval :: rat
  itsGnNonAreaForwardingAlgorithm :: UnicastForwarding
  itsGnAreaForwardingAlgorithm :: BroadcastForwarding
  itsGnCbfMinTime :: rat
  itsGnCbfMaxTime :: rat
  itsGnDefaultMaxCommunicationRange :: rat
  itsGnBroadcastCBFDefSectorAngle :: rat
  itsGnUcForwardingPacketBufferSize :: "32 word"
  itsGnBcForwardingPacketBufferSize :: "32 word"
  itsGnCbfPacketBufferSize :: "32 word"
  itsGnDefaultTrafficClass :: "8 word"
  vanetzaCbfMaxCounter :: nat
  vanetzaDeferInitialBeacon :: bool
  vanetzaDisableBeaconing :: bool
  vanetzaMultiHopDuplicateAddressDetection :: bool
  vanetzaNeighbourFlagExpiry :: duration
  vanetzaGbcMemoryCapacity :: nat

text \<open>Lifetimes hold a multiplier above two bits for the unit, 2 for ten and 3 for hundred seconds.\<close>

definition default_mib :: MIB where
  "default_mib = \<lparr>itsGnLocalAddrConfMethod = Managed, itsGnProtocolVersion = 1, itsGnIsMobile = True, itsGnIfType = IT_ITS_G5,
     itsGnPaiInterval = 80, itsGnMaxSduSize = 1398, itsGnLifetimeLocTE = 20, itsGnSecurity = False, itsGnSnDecapResultHandling = Strict,
     itsGnBeaconServiceRetransmitTimer = 3, itsGnBeaconServiceMaxJitter = 3 / 4, itsGnDefaultHopLimit = 10, itsGnDPLLength = 8,
     itsGnMaxPacketLifetime = Lifetime_set 3 6, itsGnDefaultPacketLifetime = Lifetime_set 2 6, itsGnMaxPacketDataRate = 100,
     itsGnMaxPacketDataRateEmaBeta = 9 / 10, itsGnMaxGeoAreaSize = 10000000, itsGnMinPacketRepetitionInterval = 1 / 10, itsGnNonAreaForwardingAlgorithm = UF_Greedy,
     itsGnAreaForwardingAlgorithm = BF_CBF, itsGnCbfMinTime = 1 / 1000, itsGnCbfMaxTime = 1 / 10, itsGnDefaultMaxCommunicationRange = 1000,
     itsGnBroadcastCBFDefSectorAngle = 30, itsGnUcForwardingPacketBufferSize = 256, itsGnBcForwardingPacketBufferSize = 1024,
     itsGnCbfPacketBufferSize = 256, itsGnDefaultTrafficClass = 0, vanetzaCbfMaxCounter = 1, vanetzaDeferInitialBeacon = False,
     vanetzaDisableBeaconing = False, vanetzaMultiHopDuplicateAddressDetection = False, vanetzaNeighbourFlagExpiry = 0, vanetzaGbcMemoryCapacity = 0\<rparr>"

definition store_carry_forward :: "8 word \<Rightarrow> bool" where
  "store_carry_forward m_tc \<longleftrightarrow> m_tc AND 0x80 \<noteq> 0"

definition tc_id :: "8 word \<Rightarrow> 6 word" where
  "tc_id m_tc = ucast (m_tc AND 0x3f)"

datatype Profile = DP0 | DP1 | DP2 | DP3

definition map_tc_onto_profile :: "8 word \<Rightarrow> Profile" where
  "map_tc_onto_profile tc = (if tc_id tc = 0 then DP0 else if tc_id tc = 1 then DP1 else if tc_id tc = 2 then DP2 else DP3)"

section \<open>Calls of other layers\<close>

record DccRequest =
  dcc_destination :: MacAddress
  dcc_source :: MacAddress
  dcc_profile :: Profile
  dcc_ether_type :: "16 word"
  dcc_lifetime :: duration

datatype UpperProtocol = Unknown | BTP_A | BTP_B | IPv6
datatype TransportType = GUC | GAC | GBC | TSB | SHB
datatype DecapReport = Success | False_Signature | Invalid_Certificate | Revoked_Certificate | Inconsistant_Chain | Invalid_Timestamp |
  Duplicate_Message | Invalid_Mobility_Data | Unsigned_Message | Signer_Certificate_Not_Found | Unsupported_Signer_Identifier_Type |
  Incompatible_Protocol | Unencrypted_Message | Decryption_Error

record ShortPositionVector =
  short_gn_addr :: Address
  short_timestamp :: Timestamp
  short_latitude :: "32 word"
  short_longitude :: "32 word"

definition ShortPositionVector_of :: "LongPositionVector \<Rightarrow> ShortPositionVector" where
  "ShortPositionVector_of lpv =
     \<lparr>short_gn_addr = gn_addr lpv, short_timestamp = timestamp lpv, short_latitude = latitude lpv, short_longitude = longitude lpv\<rparr>"

datatype DestinationVariant = To_Address Address | To_Area Area | To_Null

record DataIndication =
  upper_protocol :: UpperProtocol
  transport_type :: TransportType
  ind_destination :: DestinationVariant
  ind_source_position :: ShortPositionVector
  security_report :: DecapReport
  its_aid :: "32 word option"
  permissions :: "byte list option"
  ind_traffic_class :: "8 word"
  remaining_packet_lifetime :: "8 word option"
  remaining_hop_limit :: "8 word option"

datatype PacketDropReason = Parse_Basic_Header | Parse_Common_Header | Parse_Secured_Header | Parse_Extended_Header | ITS_Protocol_Version |
  Decap_Unsuccessful_Non_Strict | Decap_Unsuccessful_Strict | Drop_Hop_Limit | Payload_Size | Security_Entity_Missing

datatype ForwardingStopReason = Stop_Hop_Limit | Source_PDR | Sender_PDR | Outside_Destination_Area

text \<open>An \<open>Exception\<close> is a thrown \<open>std::runtime_error\<close>.\<close>

datatype 's router_event = Request_Down DccRequest "'s Pdu" "byte list" | Indicate_Up DataIndication "byte list" |
  Packet_Dropped PacketDropReason | Forwarding_Stopped ForwardingStopReason | Exception string

section \<open>Requests\<close>

record Repetition =
  repetition_interval :: rat
  repetition_maximum :: rat

record DataRequest =
  req_upper_protocol :: UpperProtocol
  req_communication_profile :: InterfaceType
  req_its_aid :: "32 word"
  req_maximum_lifetime :: "8 word"
  req_repetition :: "Repetition option"
  req_max_hop_limit :: "32 word"
  req_traffic_class :: "8 word"

definition new_request :: "MIB \<Rightarrow> 32 word \<Rightarrow> DataRequest" where
  "new_request mib aid = \<lparr>req_upper_protocol = BTP_A, req_communication_profile = IT_Unspecified, req_its_aid = aid,
     req_maximum_lifetime = itsGnDefaultPacketLifetime mib, req_repetition = None, req_max_hop_limit = itsGnDefaultHopLimit mib,
     req_traffic_class = itsGnDefaultTrafficClass mib\<rparr>"

datatype DataRequestVariant = Guc_Request DataRequest Address | Gbc_Request DataRequest Area | Gac_Request DataRequest Area |
  Shb_Request DataRequest | Tsb_Request DataRequest

section \<open>Pending functions\<close>

record LinkLayer =
  ll_sender :: MacAddress
  ll_destination :: MacAddress

record ControlInfo =
  communication_profile :: InterfaceType
  ctrl_its_aid :: "32 word"

text \<open>
  The functions of pending packets: how a packet is transmitted to an address, as forwarder, as
  source or not at all, and what is done with a packet first.
\<close>

datatype transmit_fn = Forwarder_Transmit | Source_Transmit ControlInfo | No_Transmit

datatype gbc_action = Forward_Selection "LinkLayer option" transmit_fn | Greedy_Forwarding transmit_fn | Transmit_To transmit_fn MacAddress

datatype 's buffered = Buffered_Shb "(ShbHeader, 's, ControlInfo) PendingPacket" | Buffered_Gbc "(GbcGacHeader, 's, gbc_action) PendingPacket"

fun buffered_length :: "('s \<Rightarrow> nat) \<Rightarrow> 's buffered \<Rightarrow> size_t" where
  "buffered_length get_size (Buffered_Shb p) = pending_length get_size Shb_Header p"
| "buffered_length get_size (Buffered_Gbc p) = pending_length get_size Gbc_Header p"

fun buffered_reduce_lifetime :: "duration \<Rightarrow> 's buffered \<Rightarrow> duration \<times> 's buffered" where
  "buffered_reduce_lifetime q (Buffered_Shb p) = (case pending_reduce_lifetime q p of (lt, p') \<Rightarrow> (lt, Buffered_Shb p'))"
| "buffered_reduce_lifetime q (Buffered_Gbc p) = (case pending_reduce_lifetime q p of (lt, p') \<Rightarrow> (lt, Buffered_Gbc p'))"

definition buffered_ops :: "('s \<Rightarrow> nat) \<Rightarrow> 's buffered data_ops" where
  "buffered_ops get_size = \<lparr>data_length = buffered_length get_size, reduce_lifetime = buffered_reduce_lifetime\<rparr>"

interpretation buffered: buffer_data "buffered_ops get_size" for get_size
proof
  fix q and d :: "'a buffered"
  show "data_length (buffered_ops get_size) (snd (reduce_lifetime (buffered_ops get_size) q d)) = data_length (buffered_ops get_size) d"
    by (cases d) (auto simp: buffered_ops_def pending_reduce_keeps(1) split: prod.split)
qed

section \<open>State\<close>

text \<open>
  What the router is given: configuration, containers, geodesy, random numbers, the security
  entity and the generator of DCC fields. \<open>env_reused\<close> tells whether the allocator reuses
  memory in the contention buffer.
\<close>

record DecapConfirm =
  decap_report :: DecapReport
  decap_its_aid :: "32 word"
  decap_permissions :: "byte list"
  plaintext_payload :: "byte list"

record ('h, 'hd, 'b, 'cnt, 'c, 's) router_env =
  env_mib :: MIB
  env_heap :: "('h, 'hd, MacAddress) heap_ops"
  env_keys :: "('h, 'hd) LocationTable \<Rightarrow> MacAddress list"
  env_index :: "(Address \<times> SequenceNumber, 'c) index_ops"
  env_push_back :: "nat \<Rightarrow> ListElement \<Rightarrow> ListElement list \<Rightarrow> ListElement list"
  env_cbf :: "('b, 'cnt, 's) cbf_env"
  env_reused :: "('b, 'cnt, 's, gbc_action) CbfPacketBuffer \<Rightarrow> bool"
  env_geo :: geodesy
  env_acos :: "rat \<Rightarrow> rat option"
  env_random_mac :: "nat \<Rightarrow> MacAddress"
  env_jitter :: "nat \<Rightarrow> rat"
  env_security_entity :: bool
  env_parse_secured :: "byte list \<Rightarrow> ('s \<times> nat) option"
  env_decap :: "'s \<Rightarrow> DecapConfirm"
  env_encap :: "32 word \<Rightarrow> byte list \<Rightarrow> 's"
  env_dcc_field :: "time_point \<Rightarrow> DccField"

record ('h, 'hd, 'b, 'cnt, 'c, 's) Router =
  r_location_table :: "('h, 'hd) LocationTable"
  r_bc_forward_buffer :: "'s buffered PacketBuffer"
  r_uc_forward_buffer :: "'s buffered PacketBuffer"
  r_cbf_buffer :: "('b, 'cnt, 's, gbc_action) CbfPacketBuffer"
  r_local_position_vector :: LongPositionVector
  r_local_sequence_number :: SequenceNumber
  r_gbc_memory :: "'c GbcMemory"
  r_transport_ifcs :: "UpperProtocol \<Rightarrow> bool"
  r_random_gen :: nat
  r_beacon_timer :: "time_point option"
  r_repetitions :: "(DataRequestVariant \<times> byte list \<times> time_point) list"
  r_calls :: "'s router_event list"

definition emit :: "'s router_event \<Rightarrow> ('h, 'hd, 'b, 'cnt, 'c, 's) Router \<Rightarrow> ('h, 'hd, 'b, 'cnt, 'c, 's) Router" where
  "emit ev r = r\<lparr>r_calls := r_calls r @ [ev]\<rparr>"

text \<open>Comparisons with not-a-number are false.\<close>

fun num_less :: "rat option \<Rightarrow> rat option \<Rightarrow> bool" where
  "num_less (Some x) (Some y) \<longleftrightarrow> x < y"
| "num_less _ _ \<longleftrightarrow> False"

type_synonym ('h, 'hd, 'b, 'cnt, 'c, 's) step = "('h, 'hd, 'b, 'cnt, 'c, 's) Router \<Rightarrow> ('h, 'hd, 'b, 'cnt, 'c, 's) Router"

section \<open>Passing packets down\<close>

definition ether_type :: "16 word" where "ether_type = 0x8947"

definition pass_down_request :: "DccRequest \<Rightarrow> 's Pdu \<Rightarrow> byte list \<Rightarrow> ('h, 'hd, 'b, 'cnt, 'c, 's) step" where
  "pass_down_request request pdu pl r =
     (if secured pdu \<noteq> None then
        if basic_next_header (basic pdu) \<noteq> Basic_Secured then emit (Exception ''PDU with secured message but Secured not set in basic header'') r
        else if length pl > 0 then emit (Exception ''PDU with secured message and illegal upper layer payload'') r
        else emit (Request_Down request pdu pl) r
      else if basic_next_header (basic pdu) = Basic_Secured then emit (Exception ''PDU without secured message but Secured set in basic header'') r
      else emit (Request_Down request pdu pl) r)"

definition pass_down :: "MacAddress \<Rightarrow> 's Pdu \<Rightarrow> byte list \<Rightarrow> ('h, 'hd, 'b, 'cnt, 'c, 's) step" where
  "pass_down addr pdu pl r =
     pass_down_request
       \<lparr>dcc_destination = addr, dcc_source = m_mid (gn_addr (r_local_position_vector r)), dcc_profile = map_tc_onto_profile (traffic_class (common pdu)),
        dcc_ether_type = ether_type, dcc_lifetime = clock_of_seconds (Lifetime_decode (lifetime (basic pdu)))\<rparr> pdu pl r"

text \<open>\<open>None\<close> when there is no security entity, which throws.\<close>

definition encap_packet ::
  "('h, 'hd, 'b, 'cnt, 'c, 's) router_env \<Rightarrow> 32 word \<Rightarrow> ('e \<Rightarrow> HeaderVariant) \<Rightarrow> ('e, 's) ExtendedPdu \<Rightarrow> byte list \<Rightarrow> (('e, 's) ExtendedPdu \<times> byte list) option" where
  "encap_packet env aid wrap pdu pl =
     (if env_security_entity env then Some (pdu\<lparr>pdu_secured := Some (env_encap env aid (convert_for_signing wrap pdu @ pl))\<rparr>, []) else None)"

definition transmit_gbc ::
  "('h, 'hd, 'b, 'cnt, 'c, 's) router_env \<Rightarrow> transmit_fn \<Rightarrow> MacAddress \<Rightarrow> (GbcGacHeader, 's) ExtendedPdu \<Rightarrow> byte list \<Rightarrow> ('h, 'hd, 'b, 'cnt, 'c, 's) step" where
  "transmit_gbc env fn mac pdu pl r =
     (case fn of
        Forwarder_Transmit \<Rightarrow>
          pass_down_request
            \<lparr>dcc_destination = mac, dcc_source = m_mid (gn_addr (r_local_position_vector r)), dcc_profile = DP3, dcc_ether_type = ether_type,
             dcc_lifetime = clock_of_seconds (Lifetime_decode (lifetime (pdu_basic pdu)))\<rparr> (as_pdu Gbc_Header pdu) pl r
      | Source_Transmit ctrl \<Rightarrow>
          let pdu' = pdu\<lparr>pdu_extended := (pdu_extended pdu)\<lparr>source_position := r_local_position_vector r\<rparr>\<rparr> in
          if itsGnSecurity (env_mib env) then
            case encap_packet env (ctrl_its_aid ctrl) Gbc_Header pdu' pl of
              Some (pdu'', pl') \<Rightarrow> pass_down mac (as_pdu Gbc_Header pdu'') pl' r
            | None \<Rightarrow> emit (Exception ''security entity unavailable'') r
          else pass_down mac (as_pdu Gbc_Header pdu') pl r
      | No_Transmit \<Rightarrow> r)"

section \<open>Forwarding algorithms\<close>

text \<open>\<open>next_hop.cpp\<close>: a packet to forward is its PDU, its payload and how it is transmitted.\<close>

datatype 's NextHop = Discarded | Buffered | Valid "(GbcGacHeader, 's) ExtendedPdu" "byte list" transmit_fn MacAddress

definition nh_process :: "('h, 'hd, 'b, 'cnt, 'c, 's) router_env \<Rightarrow> 's NextHop \<Rightarrow> ('h, 'hd, 'b, 'cnt, 'c, 's) step" where
  "nh_process env nh r = (case nh of Valid pdu pl fn mac \<Rightarrow> transmit_gbc env fn mac pdu pl r | _ \<Rightarrow> r)"

definition push_bc_buffer :: "('h, 'hd, 'b, 'cnt, 'c, 's) router_env \<Rightarrow> time_point \<Rightarrow> 's buffered \<Rightarrow> ('h, 'hd, 'b, 'cnt, 'c, 's) step" where
  "push_bc_buffer env now d r =
     r\<lparr>r_bc_forward_buffer := snd (buffer_push (buffered_ops (env_size (env_cbf env))) d now (r_bc_forward_buffer r))\<rparr>"

text \<open>The neighbour closest to the destination, if it is closer than what was found so far.\<close>

definition mfr_step :: "('h, 'hd, 'b, 'cnt, 'c, 's) router_env \<Rightarrow> GeodeticPosition \<Rightarrow> LocationTableEntry \<Rightarrow> MacAddress \<times> rat option \<Rightarrow> MacAddress \<times> rat option" where
  "mfr_step env dest neighbour mfr =
     (if lte_has_position_vector neighbour then
        let dist = geo_distance (env_geo env) dest (lpv_position (env_geo env) (lte_position_vector neighbour))
        in if num_less dist (snd mfr) then (link_layer_address neighbour, dist) else mfr
      else mfr)"

definition greedy_forwarding ::
  "('h, 'hd, 'b, 'cnt, 'c, 's) router_env \<Rightarrow> time_point \<Rightarrow> (GbcGacHeader, 's) ExtendedPdu \<Rightarrow> byte list \<Rightarrow> transmit_fn \<Rightarrow>
   ('h, 'hd, 'b, 'cnt, 'c, 's) Router \<Rightarrow> 's NextHop \<times> ('h, 'hd, 'b, 'cnt, 'c, 's) Router" where
  "greedy_forwarding env now pdu pl fn r =
     (let dest = gbc_position (env_geo env) (pdu_extended pdu);
          own = geo_distance (env_geo env) dest (lpv_position (env_geo env) (r_local_position_vector r));
          (mfr_addr, mfr_dist) = fold (mfr_step env dest) (loc_neighbours (env_keys env) (env_heap env) now (r_location_table r)) (MacAddress 0 0 0 0 0 0, own)
      in if num_less mfr_dist own then (Valid pdu pl fn mfr_addr, r)
         else if store_carry_forward (traffic_class (pdu_common pdu)) then
           (Buffered, push_bc_buffer env now (Buffered_Gbc \<lparr>pp_pdu = Some pdu, pp_payload = Some pl, pp_function = Greedy_Forwarding fn\<rparr>) r)
         else (Valid pdu pl fn cBroadcastMacAddress, r))"

definition gbc_identifier :: "(GbcGacHeader, 's) ExtendedPdu \<Rightarrow> CbfPacketIdentifier" where
  "gbc_identifier pdu = (gn_addr (source_position (pdu_extended pdu)), sequence_number (pdu_extended pdu))"

definition cbf_buffer_remove ::
  "('h, 'hd, 'b, 'cnt, 'c, 's) router_env \<Rightarrow> time_point \<Rightarrow> CbfPacketIdentifier \<Rightarrow> ('h, 'hd, 'b, 'cnt, 'c, 's) Router \<Rightarrow> bool \<times> ('h, 'hd, 'b, 'cnt, 'c, 's) Router" where
  "cbf_buffer_remove env now x r = (case cbf_remove (env_cbf env) now x (r_cbf_buffer r) of (removed, b) \<Rightarrow> (removed, r\<lparr>r_cbf_buffer := b\<rparr>))"

text \<open>A packet in the contention buffer is broadcast when its timer expires.\<close>

definition cbf_buffer_add ::
  "('h, 'hd, 'b, 'cnt, 'c, 's) router_env \<Rightarrow> time_point \<Rightarrow> (GbcGacHeader, 's) ExtendedPdu \<Rightarrow> byte list \<Rightarrow> transmit_fn \<Rightarrow> MacAddress \<Rightarrow> duration \<Rightarrow>
   ('h, 'hd, 'b, 'cnt, 'c, 's) step" where
  "cbf_buffer_add env now pdu pl fn sender timeout r =
     (let p = \<lparr>cp_packet = \<lparr>pp_pdu = Some pdu, pp_payload = Some pl, pp_function = Transmit_To fn cBroadcastMacAddress\<rparr>, cp_sender = sender\<rparr>
      in r\<lparr>r_cbf_buffer := the (cbf_add (env_cbf env) (env_reused env (r_cbf_buffer r)) now p timeout (r_cbf_buffer r))\<rparr>)"

definition timeout_cbf :: "MIB \<Rightarrow> rat option \<Rightarrow> rat" where
  "timeout_cbf mib prog =
     (if num_less (Some (itsGnDefaultMaxCommunicationRange mib)) prog then itsGnCbfMinTime mib
      else if num_less (Some 0) prog then
        itsGnCbfMaxTime mib + (itsGnCbfMinTime mib - itsGnCbfMaxTime mib) / itsGnDefaultMaxCommunicationRange mib * the prog
      else itsGnCbfMaxTime mib)"

definition timeout_cbf_sender :: "('h, 'hd, 'b, 'cnt, 'c, 's) router_env \<Rightarrow> time_point \<Rightarrow> MacAddress \<Rightarrow> ('h, 'hd, 'b, 'cnt, 'c, 's) Router \<Rightarrow> rat" where
  "timeout_cbf_sender env now sender r =
     (case loc_get_position (env_heap env) now sender (r_location_table r) of
        Some pv_se \<Rightarrow>
          if position_accuracy_indicator pv_se then
            timeout_cbf (env_mib env) (geo_distance (env_geo env) (lpv_position (env_geo env) pv_se) (lpv_position (env_geo env) (r_local_position_vector r)))
          else itsGnCbfMaxTime (env_mib env)
      | None \<Rightarrow> itsGnCbfMaxTime (env_mib env))"

definition num_diff :: "rat option \<Rightarrow> rat option \<Rightarrow> rat option" where
  "num_diff x y = (case (x, y) of (Some a, Some b) \<Rightarrow> Some (a - b) | _ \<Rightarrow> None)"

definition non_area_contention_based_forwarding ::
  "('h, 'hd, 'b, 'cnt, 'c, 's) router_env \<Rightarrow> time_point \<Rightarrow> (GbcGacHeader, 's) ExtendedPdu \<Rightarrow> byte list \<Rightarrow> transmit_fn \<Rightarrow> MacAddress option \<Rightarrow>
   ('h, 'hd, 'b, 'cnt, 'c, 's) Router \<Rightarrow> 's NextHop \<times> ('h, 'hd, 'b, 'cnt, 'c, 's) Router" where
  "non_area_contention_based_forwarding env now pdu pl fn sender r =
     (case sender of
        None \<Rightarrow> (Valid pdu pl fn cBroadcastMacAddress, r)
      | Some se \<Rightarrow>
          (case cbf_buffer_remove env now (gbc_identifier pdu) r of (removed, r1) \<Rightarrow>
             if removed then (Discarded, r1)
             else
               let add = (\<lambda>timeout. (Buffered, cbf_buffer_add env now pdu pl fn se (clock_of_seconds timeout) r1)) in
               case loc_get_position (env_heap env) now se (r_location_table r1) of
                 Some pv_se \<Rightarrow>
                   if position_accuracy_indicator pv_se then
                     let pv_p = gbc_position (env_geo env) (pdu_extended pdu);
                         dist_sender = geo_distance (env_geo env) pv_p (lpv_position (env_geo env) pv_se);
                         dist_local = geo_distance (env_geo env) pv_p (lpv_position (env_geo env) (r_local_position_vector r1))
                     in if num_less dist_local dist_sender then add (timeout_cbf (env_mib env) (num_diff dist_sender dist_local))
                        else (Discarded, r1)
                   else add (itsGnCbfMaxTime (env_mib env))
               | None \<Rightarrow> add (itsGnCbfMaxTime (env_mib env))))"

definition area_contention_based_forwarding ::
  "('h, 'hd, 'b, 'cnt, 'c, 's) router_env \<Rightarrow> time_point \<Rightarrow> (GbcGacHeader, 's) ExtendedPdu \<Rightarrow> byte list \<Rightarrow> transmit_fn \<Rightarrow> MacAddress option \<Rightarrow>
   ('h, 'hd, 'b, 'cnt, 'c, 's) Router \<Rightarrow> 's NextHop \<times> ('h, 'hd, 'b, 'cnt, 'c, 's) Router" where
  "area_contention_based_forwarding env now pdu pl fn sender r =
     (case sender of
        None \<Rightarrow> (Valid pdu pl fn cBroadcastMacAddress, r)
      | Some se \<Rightarrow>
          (case cbf_buffer_remove env now (gbc_identifier pdu) r of (removed, r1) \<Rightarrow>
             if removed \<or> cbf_counter_of (env_cbf env) now (gbc_identifier pdu) (r_cbf_buffer r1) \<ge> vanetzaCbfMaxCounter (env_mib env) then (Discarded, r1)
             else (Buffered, cbf_buffer_add env now pdu pl fn se (clock_of_seconds (timeout_cbf_sender env now se r1)) r1)))"

definition outside_sectorial_contention_area ::
  "('h, 'hd, 'b, 'cnt, 'c, 's) router_env \<Rightarrow> time_point \<Rightarrow> MacAddress \<Rightarrow> MacAddress \<Rightarrow> ('h, 'hd, 'b, 'cnt, 'c, 's) Router \<Rightarrow> bool" where
  "outside_sectorial_contention_area env now sender forwarder r =
     (case (loc_get_position (env_heap env) now sender (r_location_table r), loc_get_position (env_heap env) now forwarder (r_location_table r)) of
        (Some position_sender, Some position_forwarder) \<Rightarrow>
          let here = lpv_position (env_geo env) (r_local_position_vector r);
              dist_r = geo_distance (env_geo env) (lpv_position (env_geo env) position_sender) here;
              dist_f = geo_distance (env_geo env) (lpv_position (env_geo env) position_forwarder) (lpv_position (env_geo env) position_sender);
              dist_rf = geo_distance (env_geo env) (lpv_position (env_geo env) position_forwarder) here;
              angle_fsr =
                (if num_less (Some 0) dist_r \<and> num_less (Some 0) dist_f then
                   case (dist_r, dist_f, dist_rf) of
                     (Some dr, Some df, Some drf) \<Rightarrow> env_acos env ((drf * drf - dr * dr - df * df) / (- 2 * dr * df))
                   | _ \<Rightarrow> None
                 else Some 0)
          in \<not> (num_less dist_r dist_f \<and> num_less dist_f (Some (itsGnDefaultMaxCommunicationRange (env_mib env))) \<and>
                num_less angle_fsr (Some (itsGnBroadcastCBFDefSectorAngle (env_mib env))))
      | _ \<Rightarrow> True)"

text \<open>The duplicate of a secured packet carries no payload beside the secured message.\<close>

definition area_advanced_forwarding ::
  "('h, 'hd, 'b, 'cnt, 'c, 's) router_env \<Rightarrow> time_point \<Rightarrow> (GbcGacHeader, 's) ExtendedPdu \<Rightarrow> byte list \<Rightarrow> transmit_fn \<Rightarrow> LinkLayer option \<Rightarrow>
   ('h, 'hd, 'b, 'cnt, 'c, 's) Router \<Rightarrow> 's NextHop \<times> ('h, 'hd, 'b, 'cnt, 'c, 's) Router" where
  "area_advanced_forwarding env now pdu pl fn ll r =
     (case ll of
        None \<Rightarrow> (Valid pdu pl fn cBroadcastMacAddress, r)
      | Some link \<Rightarrow>
          let x = gbc_identifier pdu in
          (case cbf_find (env_cbf env) x (r_cbf_buffer r) of
             Some cbf_packet \<Rightarrow>
               if cbf_counter_of (env_cbf env) now x (r_cbf_buffer r) \<ge> vanetzaCbfMaxCounter (env_mib env)
               then (Discarded, snd (cbf_buffer_remove env now x r))
               else if \<not> outside_sectorial_contention_area env now (cp_sender cbf_packet) (ll_sender link) r
               then (Discarded, snd (cbf_buffer_remove env now x r))
               else (Buffered, r\<lparr>r_cbf_buffer := cbf_update (env_cbf env) now x (clock_of_seconds (timeout_cbf_sender env now (ll_sender link) r)) (r_cbf_buffer r)\<rparr>)
           | None \<Rightarrow>
               if ll_destination link = m_mid (gn_addr (r_local_position_vector r)) then
                 (case greedy_forwarding env now pdu (if pdu_secured pdu \<noteq> None then [] else pl) fn r of (nh, r1) \<Rightarrow>
                    let fn' = (case nh of Valid _ _ _ mac \<Rightarrow> if mac = cBroadcastMacAddress then No_Transmit else fn | _ \<Rightarrow> fn)
                    in (nh, cbf_buffer_add env now pdu pl fn' (ll_sender link) (clock_of_seconds (itsGnCbfMaxTime (env_mib env))) r1))
               else (Buffered, cbf_buffer_add env now pdu pl fn (ll_sender link) (clock_of_seconds (timeout_cbf_sender env now (ll_sender link) r)) r)))"

definition forwarding_algorithm_selection ::
  "('h, 'hd, 'b, 'cnt, 'c, 's) router_env \<Rightarrow> time_point \<Rightarrow> (GbcGacHeader, 's) ExtendedPdu \<Rightarrow> byte list \<Rightarrow> transmit_fn \<Rightarrow> LinkLayer option \<Rightarrow>
   ('h, 'hd, 'b, 'cnt, 'c, 's) Router \<Rightarrow> 's NextHop \<times> ('h, 'hd, 'b, 'cnt, 'c, 's) Router" where
  "forwarding_algorithm_selection env now pdu pl fn ll r =
     (case gbc_destination (env_geo env) (header_type (pdu_common pdu)) (pdu_extended pdu) of
        None \<Rightarrow> (Discarded, emit (Exception ''Invalid GBC header type'') r)
      | Some destination \<Rightarrow>
          if inside_or_at_border (env_geo env) destination (lpv_position (env_geo env) (r_local_position_vector r)) then
            (case itsGnAreaForwardingAlgorithm (env_mib env) of
               BF_CBF \<Rightarrow> area_contention_based_forwarding env now pdu pl fn (map_option ll_sender ll) r
             | BF_Advanced \<Rightarrow> area_advanced_forwarding env now pdu pl fn ll r
             | _ \<Rightarrow> (Valid pdu pl fn cBroadcastMacAddress, r))
          else if (case Option.bind ll (\<lambda>link. loc_get_position (env_heap env) now (ll_sender link) (r_location_table r)) of
                     None \<Rightarrow> False
                   | Some pv_se \<Rightarrow> position_accuracy_indicator pv_se \<and> inside_or_at_border (env_geo env) destination (lpv_position (env_geo env) pv_se))
          then (Discarded, emit (Forwarding_Stopped Outside_Destination_Area) r)
          else (case itsGnNonAreaForwardingAlgorithm (env_mib env) of
                  UF_CBF \<Rightarrow> non_area_contention_based_forwarding env now pdu pl fn (map_option ll_sender ll) r
                | _ \<Rightarrow> greedy_forwarding env now pdu pl fn r))"

section \<open>Processing pending packets\<close>

definition process_gbc_action ::
  "('h, 'hd, 'b, 'cnt, 'c, 's) router_env \<Rightarrow> time_point \<Rightarrow> (GbcGacHeader, 's) ExtendedPdu \<Rightarrow> byte list \<Rightarrow> gbc_action \<Rightarrow> ('h, 'hd, 'b, 'cnt, 'c, 's) step" where
  "process_gbc_action env now pdu pl action r =
     (case action of
        Forward_Selection ll fn \<Rightarrow> (case forwarding_algorithm_selection env now pdu pl fn ll r of (nh, r1) \<Rightarrow> nh_process env nh r1)
      | Greedy_Forwarding fn \<Rightarrow> (case greedy_forwarding env now pdu pl fn r of (nh, r1) \<Rightarrow> nh_process env nh r1)
      | Transmit_To fn mac \<Rightarrow> transmit_gbc env fn mac pdu pl r)"

definition reset_beacon_timer_at :: "time_point \<Rightarrow> duration \<Rightarrow> ('h, 'hd, 'b, 'cnt, 'c, 's) step" where
  "reset_beacon_timer_at now next_beacon r = r\<lparr>r_beacon_timer := Some (now + next_beacon)\<rparr>"

definition reset_beacon_timer :: "('h, 'hd, 'b, 'cnt, 'c, 's) router_env \<Rightarrow> time_point \<Rightarrow> ('h, 'hd, 'b, 'cnt, 'c, 's) step" where
  "reset_beacon_timer env now r =
     reset_beacon_timer_at now
       (clock_of_seconds (itsGnBeaconServiceRetransmitTimer (env_mib env) + env_jitter env (r_random_gen r) * itsGnBeaconServiceMaxJitter (env_mib env)))
       (r\<lparr>r_random_gen := Suc (r_random_gen r)\<rparr>)"

definition transmit_shb :: "('h, 'hd, 'b, 'cnt, 'c, 's) router_env \<Rightarrow> time_point \<Rightarrow> (ShbHeader, 's) ExtendedPdu \<Rightarrow> byte list \<Rightarrow> ControlInfo \<Rightarrow> ('h, 'hd, 'b, 'cnt, 'c, 's) step" where
  "transmit_shb env now pdu pl ctrl r =
     (let pdu' = pdu\<lparr>pdu_extended := (pdu_extended pdu)\<lparr>shb_source_position := r_local_position_vector r\<rparr>\<rparr> in
      if itsGnSecurity (env_mib env) then
        case encap_packet env (ctrl_its_aid ctrl) Shb_Header pdu' pl of
          Some (pdu'', pl') \<Rightarrow> reset_beacon_timer env now (pass_down cBroadcastMacAddress (as_pdu Shb_Header pdu'') pl' r)
        | None \<Rightarrow> emit (Exception ''security entity unavailable'') r
      else reset_beacon_timer env now (pass_down cBroadcastMacAddress (as_pdu Shb_Header pdu') pl r))"

definition or_else :: "'a option \<Rightarrow> 'a \<Rightarrow> 'a" where
  "or_else x d = (case x of Some y \<Rightarrow> y | None \<Rightarrow> d)"

definition process_gbc :: "('h, 'hd, 'b, 'cnt, 'c, 's) router_env \<Rightarrow> time_point \<Rightarrow> (GbcGacHeader, 's, gbc_action) PendingPacket \<Rightarrow> ('h, 'hd, 'b, 'cnt, 'c, 's) step" where
  "process_gbc env now p r = or_else (pending_process (\<lambda>pdu pl action. process_gbc_action env now pdu pl action r) p) r"

definition process_shb :: "('h, 'hd, 'b, 'cnt, 'c, 's) router_env \<Rightarrow> time_point \<Rightarrow> (ShbHeader, 's, ControlInfo) PendingPacket \<Rightarrow> ('h, 'hd, 'b, 'cnt, 'c, 's) step" where
  "process_shb env now p r = or_else (pending_process (\<lambda>pdu pl ctrl. transmit_shb env now pdu pl ctrl r) p) r"

fun process_buffered :: "('h, 'hd, 'b, 'cnt, 'c, 's) router_env \<Rightarrow> time_point \<Rightarrow> 's buffered \<Rightarrow> ('h, 'hd, 'b, 'cnt, 'c, 's) step" where
  "process_buffered env now (Buffered_Shb p) = process_shb env now p"
| "process_buffered env now (Buffered_Gbc p) = process_gbc env now p"

text \<open>
  The buffer is empty before its packets are processed, so that packets which have to wait
  again are appended to it.
\<close>

definition flush_broadcast_forwarding_buffer :: "('h, 'hd, 'b, 'cnt, 'c, 's) router_env \<Rightarrow> time_point \<Rightarrow> ('h, 'hd, 'b, 'cnt, 'c, 's) step" where
  "flush_broadcast_forwarding_buffer env now r =
     (case buffer_flush (buffered_ops (env_size (env_cbf env))) now (r_bc_forward_buffer r) of (ds, b) \<Rightarrow>
        fold (process_buffered env now) ds (r\<lparr>r_bc_forward_buffer := b\<rparr>))"

definition flush_unicast_forwarding_buffer :: "('h, 'hd, 'b, 'cnt, 'c, 's) router_env \<Rightarrow> time_point \<Rightarrow> ('h, 'hd, 'b, 'cnt, 'c, 's) step" where
  "flush_unicast_forwarding_buffer env now r =
     (case buffer_flush (buffered_ops (env_size (env_cbf env))) now (r_uc_forward_buffer r) of (ds, b) \<Rightarrow>
        fold (process_buffered env now) ds (r\<lparr>r_uc_forward_buffer := b\<rparr>))"

text \<open>The trigger of the contention buffer: the callback processes each packet.\<close>

definition cbf_timer_expired :: "('h, 'hd, 'b, 'cnt, 'c, 's) router_env \<Rightarrow> time_point \<Rightarrow> ('h, 'hd, 'b, 'cnt, 'c, 's) step" where
  "cbf_timer_expired env now r =
     (case cbf_flush (env_cbf env) now (r_cbf_buffer r\<lparr>cb_trigger := None\<rparr>) of (ps, b) \<Rightarrow> fold (process_gbc env now) ps (r\<lparr>r_cbf_buffer := b\<rparr>))"

end
