(* ===== verification/Gn_Router.thy ===== *)
theory Gn_Router
  imports Gn_Forwarding
begin

unbundle bit_operations_syntax

text \<open>
  The router of \<open>router.cpp\<close>: reception of packets down to the processing of the extended
  headers, requests of the upper layer, beacons and the timers. A received packet is the
  octets from the network layer on, as the contexts of \<open>indication_context.cpp\<close> that deserialise
  it have them; the contexts that cast packets of a simulation are left out. The security
  entity is a parameter.
\<close>

section \<open>Receiving a packet\<close>

definition pass_up :: "DataIndication \<Rightarrow> byte list \<Rightarrow> ('h, 'hd, 'b, 'cnt, 'c, 's) step" where
  "pass_up ind pl r = (if r_transport_ifcs r (upper_protocol ind) then emit (Indicate_Up ind pl) r else r)"

definition detect_duplicate_address :: "('h, 'hd, 'b, 'cnt, 'c, 's) router_env \<Rightarrow> Address \<Rightarrow> MacAddress \<Rightarrow> ('h, 'hd, 'b, 'cnt, 'c, 's) step" where
  "detect_duplicate_address env source sender r =
     (if itsGnLocalAddrConfMethod (env_mib env) = Auto then
        let local = gn_addr (r_local_position_vector r) in
        if source = local \<or> sender = m_mid local then
          r\<lparr>r_local_position_vector := (r_local_position_vector r)\<lparr>gn_addr := local\<lparr>m_mid := env_random_mac env (r_random_gen r)\<rparr>\<rparr>,
            r_random_gen := Suc (r_random_gen r)\<rparr>
        else r
      else r)"

definition entry_check_duplicate ::
  "(nat \<Rightarrow> ListElement \<Rightarrow> ListElement list \<Rightarrow> ListElement list) \<Rightarrow> nat \<Rightarrow> SequenceNumber \<Rightarrow> LocationTableEntry \<Rightarrow> bool \<times> LocationTableEntry" where
  "entry_check_duplicate push_back len sn e =
     (case dpl_check push_back sn (case lte_dpl e of Some dpl \<Rightarrow> dpl | None \<Rightarrow> new_dpl len) of (dup, dpl') \<Rightarrow> (dup, e\<lparr>lte_dpl := Some dpl'\<rparr>))"

definition detect_duplicate_packet ::
  "('h, 'hd, 'b, 'cnt, 'c, 's) router_env \<Rightarrow> time_point \<Rightarrow> Address \<Rightarrow> SequenceNumber \<Rightarrow> ('h, 'hd, 'b, 'cnt, 'c, 's) Router \<Rightarrow> bool \<times> ('h, 'hd, 'b, 'cnt, 'c, 's) Router" where
  "detect_duplicate_packet env now addr_so sn r =
     (let check = entry_check_duplicate (env_push_back env) (unat (itsGnDPLLength (env_mib env))) sn;
          t = loc_get_or_create_entry (env_heap env) now (m_mid addr_so) (r_location_table r);
          e = (case ss_map t (m_mid addr_so) of Some (hnd, e) \<Rightarrow> e | None \<Rightarrow> new_entry now)
      in (fst (check e), r\<lparr>r_location_table := ss_modify (m_mid addr_so) (snd \<circ> check) t\<rparr>))"

text \<open>The location table after a packet from a source: position, data rate and what else is done with the entry.\<close>

definition update_source ::
  "('h, 'hd, 'b, 'cnt, 'c, 's) router_env \<Rightarrow> time_point \<Rightarrow> LongPositionVector \<Rightarrow> nat \<Rightarrow> (LocationTableEntry \<Rightarrow> LocationTableEntry) \<Rightarrow> ('h, 'hd, 'b, 'cnt, 'c, 's) step" where
  "update_source env now lpv packet_size f r =
     r\<lparr>r_location_table := ss_modify (m_mid (gn_addr lpv)) (f \<circ> update_pdr now packet_size (itsGnMaxPacketDataRateEmaBeta (env_mib env)))
         (loc_update (env_heap env) now lpv (r_location_table r))\<rparr>"

definition update_loctex :: "('h, 'hd, 'b, 'cnt, 'c, 's) router_env \<Rightarrow> time_point \<Rightarrow> ShbHeader \<Rightarrow> LocationTableEntry \<Rightarrow> LocationTableEntry" where
  "update_loctex env now shb e =
     (if itsGnIfType (env_mib env) = IT_ITS_G5 then
        case get_dcc_mco (dcc shb) of
          Some dcc_mco \<Rightarrow> e\<lparr>lte_loctex := Some \<lparr>local_update = timestamp_of now, source_update = timestamp (shb_source_position shb), loctex_dcc_mco = dcc_mco\<rparr>\<rparr>
        | None \<Rightarrow> e
      else e)"

definition process_shb_header ::
  "('h, 'hd, 'b, 'cnt, 'c, 's) router_env \<Rightarrow> time_point \<Rightarrow> ShbHeader \<Rightarrow> nat \<Rightarrow> LinkLayer \<Rightarrow> ('h, 'hd, 'b, 'cnt, 'c, 's) Router \<Rightarrow> bool \<times> ('h, 'hd, 'b, 'cnt, 'c, 's) Router" where
  "process_shb_header env now shb packet_size ll r =
     (let r1 = detect_duplicate_address env (gn_addr (shb_source_position shb)) (ll_sender ll) r
      in (True, update_source env now (shb_source_position shb) packet_size
                  (update_loctex env now shb \<circ> set_neighbour_expiry now True (vanetzaNeighbourFlagExpiry (env_mib env))) r1))"

definition process_beacon_header ::
  "('h, 'hd, 'b, 'cnt, 'c, 's) router_env \<Rightarrow> time_point \<Rightarrow> BeaconHeader \<Rightarrow> nat \<Rightarrow> LinkLayer \<Rightarrow> ('h, 'hd, 'b, 'cnt, 'c, 's) Router \<Rightarrow> bool \<times> ('h, 'hd, 'b, 'cnt, 'c, 's) Router" where
  "process_beacon_header env now beacon packet_size ll r =
     (let r1 = detect_duplicate_address env (gn_addr (beacon_source_position beacon)) (ll_sender ll) r
      in (False, update_source env now (beacon_source_position beacon) packet_size
                   (set_neighbour_expiry now True (vanetzaNeighbourFlagExpiry (env_mib env))) r1))"

definition decide_pass_up ::
  "('h, 'hd, 'b, 'cnt, 'c, 's) router_env \<Rightarrow> bool \<Rightarrow> GbcGacHeader \<Rightarrow> ('h, 'hd, 'b, 'cnt, 'c, 's) Router \<Rightarrow> bool \<times> ('h, 'hd, 'b, 'cnt, 'c, 's) Router" where
  "decide_pass_up env within_destination gbc r =
     (if vanetzaGbcMemoryCapacity (env_mib env) = 0 then (within_destination, r)
      else if within_destination then
        case the (gbc_remember (env_index env) (gn_addr (source_position gbc), sequence_number gbc) (r_gbc_memory r)) of
          (known, m) \<Rightarrow> (\<not> known, r\<lparr>r_gbc_memory := m\<rparr>)
      else (False, r))"

text \<open>The data rate of an entry exceeds the limit, which is in kilobytes per second; not-a-number does not.\<close>

definition exceeds_pdr :: "MIB \<Rightarrow> LocationTableEntry option \<Rightarrow> bool" where
  "exceeds_pdr mib e = (case e of None \<Rightarrow> False | Some e \<Rightarrow> num_less (Some (of_nat (unat (itsGnMaxPacketDataRate mib)) * 1000)) (lte_pdr e))"

text \<open>Steps 9b to 14: the packet with its hop limit reduced, and where it goes.\<close>

definition forward_gbc ::
  "('h, 'hd, 'b, 'cnt, 'c, 's) router_env \<Rightarrow> time_point \<Rightarrow> (GbcGacHeader, 's) ExtendedPdu \<Rightarrow> byte list \<Rightarrow> LinkLayer \<Rightarrow> ('h, 'hd, 'b, 'cnt, 'c, 's) step" where
  "forward_gbc env now pdu pl ll r =
     (let fwd_pdu = pdu\<lparr>pdu_basic := (pdu_basic pdu)\<lparr>hop_limit := hop_limit (pdu_basic pdu) - 1\<rparr>\<rparr>;
          fwd_packet = \<lparr>pp_pdu = Some fwd_pdu, pp_payload = Some (if pdu_secured pdu \<noteq> None then [] else pl),
            pp_function = Forward_Selection (Some ll) Forwarder_Transmit\<rparr>
      in if store_carry_forward (traffic_class (pdu_common pdu)) \<and> \<not> loc_has_neighbours (env_keys env) (env_heap env) now (r_location_table r)
         then push_bc_buffer env now (Buffered_Gbc fwd_packet) r
         else process_gbc env now fwd_packet r)"

definition process_gbc_header ::
  "('h, 'hd, 'b, 'cnt, 'c, 's) router_env \<Rightarrow> time_point \<Rightarrow> (GbcGacHeader, 's) ExtendedPdu \<Rightarrow> byte list \<Rightarrow> nat \<Rightarrow> LinkLayer \<Rightarrow>
   ('h, 'hd, 'b, 'cnt, 'c, 's) Router \<Rightarrow> bool \<times> ('h, 'hd, 'b, 'cnt, 'c, 's) Router" where
  "process_gbc_header env now pdu pl packet_size ll r =
     (let mib = env_mib env;
          gbc = pdu_extended pdu;
          source_addr = gn_addr (source_position gbc);
          dest_area = the (gbc_destination (env_geo env) (header_type (pdu_common pdu)) gbc);
          locte_exists = loc_has_entry (env_heap env) now source_addr (r_location_table r);
          within_destination = inside_or_at_border (env_geo env) dest_area (lpv_position (env_geo env) (r_local_position_vector r));
          check = (if \<not> within_destination
                   then itsGnNonAreaForwardingAlgorithm mib = UF_Unspecified \<or> itsGnNonAreaForwardingAlgorithm mib = UF_Greedy
                   else itsGnAreaForwardingAlgorithm mib = BF_Unspecified \<or> itsGnAreaForwardingAlgorithm mib = BF_SIMPLE);
          (duplicate_packet, r1) = (if check then detect_duplicate_packet env now source_addr (sequence_number gbc) r else (False, r))
      in if duplicate_packet then (False, r1)
         else
           let r2 = (if vanetzaMultiHopDuplicateAddressDetection mib then detect_duplicate_address env source_addr (ll_sender ll) r1 else r1);
               r3 = update_source env now (source_position gbc) packet_size (if locte_exists then id else set_neighbour False) r2;
               r4 = flush_unicast_forwarding_buffer env now r3;
               pdr_limited = itsGnMaxPacketDataRate mib < - 1
           in if hop_limit (pdu_basic pdu) \<le> 1 then decide_pass_up env within_destination gbc (emit (Forwarding_Stopped Stop_Hop_Limit) r4)
              else if pdr_limited \<and> exceeds_pdr mib (loc_get_entry (env_heap env) now (m_mid source_addr) (r_location_table r4)) then
                decide_pass_up env within_destination gbc (emit (Forwarding_Stopped Source_PDR) r4)
              else if pdr_limited \<and> exceeds_pdr mib (loc_get_entry (env_heap env) now (ll_sender ll) (r_location_table r4)) then
                decide_pass_up env within_destination gbc (emit (Forwarding_Stopped Sender_PDR) r4)
              else decide_pass_up env within_destination gbc (forward_gbc env now pdu pl ll r4))"

text \<open>
  What the indication context holds: the headers read so far, the secured message, the parser,
  whether the payload is cut to the announced length, the link layer and the indication.
\<close>

record 's indication_context =
  ctx_basic :: BasicHeader
  ctx_secured :: "'s option"
  ctx_parser :: Parser
  ctx_trims :: bool
  ctx_link_layer :: LinkLayer
  ctx_indication :: DataIndication

definition new_indication :: DataIndication where
  "new_indication = \<lparr>upper_protocol = Unknown, transport_type = GUC, ind_destination = To_Address zero_address, ind_source_position = ShortPositionVector_of zero_lpv,
     security_report = Success, its_aid = None, permissions = None, ind_traffic_class = 0, remaining_packet_lifetime = None, remaining_hop_limit = None\<rparr>"

definition ctx_pdu :: "'s indication_context \<Rightarrow> CommonHeader \<Rightarrow> 'e \<Rightarrow> ('e, 's) ExtendedPdu" where
  "ctx_pdu ctx c e = \<lparr>pdu_basic = ctx_basic ctx, pdu_common = c, pdu_extended = e, pdu_secured = ctx_secured ctx\<rparr>"

definition ctx_finish :: "'s indication_context \<Rightarrow> CommonHeader \<Rightarrow> Parser \<Rightarrow> byte list" where
  "ctx_finish ctx c p = (if ctx_trims ctx then take (unat (payload c)) (m_archive p) else m_archive p)"

definition indicate_extended ::
  "('h, 'hd, 'b, 'cnt, 'c, 's) router_env \<Rightarrow> time_point \<Rightarrow> 's indication_context \<Rightarrow> CommonHeader \<Rightarrow> ('h, 'hd, 'b, 'cnt, 'c, 's) step" where
  "indicate_extended env now ctx c r =
     (case parse_extended (header_type c) (ctx_parser ctx) of
        (None, p) \<Rightarrow> emit (Packet_Dropped Parse_Extended_Header) r
      | (Some h, p) \<Rightarrow>
          let pl = ctx_finish ctx c p; packet_size = m_read_bytes p + length pl; ind = ctx_indication ctx; ll = ctx_link_layer ctx in
          if unat (payload c) \<noteq> length pl then emit (Packet_Dropped Payload_Size) r
          else
            case (case h of
                    Shb_Header shb \<Rightarrow>
                      (ind\<lparr>transport_type := SHB, ind_source_position := ShortPositionVector_of (shb_source_position shb)\<rparr>,
                       process_shb_header env now shb packet_size ll r)
                  | Gbc_Header gbc \<Rightarrow>
                      (case gbc_destination (env_geo env) (header_type c) gbc of
                         None \<Rightarrow> (ind, False, emit (Exception ''Invalid GBC header type'') r)
                       | Some area \<Rightarrow>
                           (ind\<lparr>transport_type := GBC, ind_source_position := ShortPositionVector_of (source_position gbc), ind_destination := To_Area area\<rparr>,
                            process_gbc_header env now (ctx_pdu ctx c gbc) pl packet_size ll r))
                  | Beacon_Header beacon \<Rightarrow> (ind, process_beacon_header env now beacon packet_size ll r)) of
              (ind', up, r') \<Rightarrow> if up then pass_up ind' pl r' else r')"

definition indicated_protocol :: "4 word \<Rightarrow> UpperProtocol" where
  "indicated_protocol nh = (if nh = 1 then BTP_A else if nh = 2 then BTP_B else if nh = 3 then IPv6 else Unknown)"

definition indicate_common ::
  "('h, 'hd, 'b, 'cnt, 'c, 's) router_env \<Rightarrow> time_point \<Rightarrow> 's indication_context \<Rightarrow> ('h, 'hd, 'b, 'cnt, 'c, 's) step" where
  "indicate_common env now ctx r =
     (case parse_common (ctx_parser ctx) of
        (None, p) \<Rightarrow> emit (Packet_Dropped Parse_Common_Header) r
      | (Some c, p) \<Rightarrow>
          if maximum_hop_limit c < hop_limit (ctx_basic ctx) then emit (Packet_Dropped Drop_Hop_Limit) r
          else
            let ind = (ctx_indication ctx)\<lparr>ind_traffic_class := traffic_class c, upper_protocol := indicated_protocol (ucast (common_next_header c))\<rparr>;
                r1 = r\<lparr>r_location_table := the (ss_drop_expired (env_heap env) now (r_location_table r))\<rparr>;
                r2 = flush_broadcast_forwarding_buffer env now r1
            in indicate_extended env now (ctx\<lparr>ctx_parser := p, ctx_indication := ind\<rparr>) c r2)"

text \<open>The reports after which a packet is processed although it is not verified.\<close>

definition acceptable_report :: "DecapReport \<Rightarrow> bool" where
  "acceptable_report report \<longleftrightarrow> report \<in> {False_Signature, Invalid_Certificate, Revoked_Certificate, Inconsistant_Chain, Invalid_Timestamp,
     Invalid_Mobility_Data, Unsigned_Message, Signer_Certificate_Not_Found, Unsupported_Signer_Identifier_Type, Unencrypted_Message}"

definition indicate_secured ::
  "('h, 'hd, 'b, 'cnt, 'c, 's) router_env \<Rightarrow> time_point \<Rightarrow> 's indication_context \<Rightarrow> ('h, 'hd, 'b, 'cnt, 'c, 's) step" where
  "indicate_secured env now ctx r =
     (case env_parse_secured env (m_archive (ctx_parser ctx)) of
        None \<Rightarrow> emit (Packet_Dropped Parse_Secured_Header) r
      | Some (smsg, n) \<Rightarrow>
          if env_security_entity env then
            let confirm = env_decap env smsg;
                ind = (ctx_indication ctx)\<lparr>security_report := decap_report confirm, its_aid := Some (decap_its_aid confirm), permissions := Some (decap_permissions confirm)\<rparr>;
                ctx' = ctx\<lparr>ctx_secured := Some smsg, ctx_parser := new_parser (plaintext_payload confirm), ctx_trims := False, ctx_indication := ind\<rparr>
            in if decap_report confirm = Success then indicate_common env now ctx' r
               else if itsGnSnDecapResultHandling (env_mib env) = Non_Strict then
                 if acceptable_report (decap_report confirm) then indicate_common env now ctx' r
                 else emit (Packet_Dropped Decap_Unsuccessful_Non_Strict) r
               else emit (Packet_Dropped Decap_Unsuccessful_Strict) r
          else emit (Packet_Dropped Security_Entity_Missing) r)"

definition indicate ::
  "('h, 'hd, 'b, 'cnt, 'c, 's) router_env \<Rightarrow> time_point \<Rightarrow> byte list \<Rightarrow> MacAddress \<Rightarrow> MacAddress \<Rightarrow> ('h, 'hd, 'b, 'cnt, 'c, 's) step" where
  "indicate env now packet sender destination r =
     (case parse_basic (new_parser packet) of
        (None, p) \<Rightarrow> emit (Packet_Dropped Parse_Basic_Header) r
      | (Some b, p) \<Rightarrow>
          if ucast (version b) \<noteq> itsGnProtocolVersion (env_mib env) then emit (Packet_Dropped ITS_Protocol_Version) r
          else
            let ind = new_indication\<lparr>remaining_packet_lifetime := Some (lifetime b), remaining_hop_limit := Some (hop_limit b)\<rparr>;
                ctx = \<lparr>ctx_basic = b, ctx_secured = None, ctx_parser = p, ctx_trims = True,
                  ctx_link_layer = \<lparr>ll_sender = sender, ll_destination = destination\<rparr>, ctx_indication = ind\<rparr>
            in if basic_next_header b = Basic_Secured then
                 indicate_secured env now (ctx\<lparr>ctx_indication := ind\<lparr>security_report := Incompatible_Protocol\<rparr>\<rparr>) r
               else if basic_next_header b = Basic_Common then
                 if \<not> itsGnSecurity (env_mib env) \<or> itsGnSnDecapResultHandling (env_mib env) = Non_Strict then
                   indicate_common env now (ctx\<lparr>ctx_indication := ind\<lparr>security_report := Unsigned_Message\<rparr>\<rparr>) r
                 else emit (Packet_Dropped Decap_Unsuccessful_Strict) r
               else r)"

section \<open>Requests of the upper layer\<close>

datatype ResultCode = Accepted | Rejected_Max_SDU_Size | Rejected_Max_Lifetime | Rejected_Min_Repetition_Interval |
  Rejected_Unsupported_Traffic_Class | Rejected_Max_Geo_Area_Size | Rejected_Unspecified

definition confirm_xor :: "ResultCode \<Rightarrow> ResultCode \<Rightarrow> ResultCode" where
  "confirm_xor lhs rhs = (if rhs \<noteq> Accepted then rhs else lhs)"

definition validate_data_request :: "MIB \<Rightarrow> DataRequest \<Rightarrow> ResultCode" where
  "validate_data_request mib req =
     (if Lifetime_decode (req_maximum_lifetime req) > Lifetime_decode (itsGnMaxPacketLifetime mib) then Rejected_Max_Lifetime
      else if (case req_repetition req of Some rep \<Rightarrow> repetition_interval rep < itsGnMinPacketRepetitionInterval mib | None \<Rightarrow> False)
      then Rejected_Min_Repetition_Interval
      else Accepted)"

definition validate_payload :: "MIB \<Rightarrow> byte list option \<Rightarrow> ResultCode" where
  "validate_payload mib pl =
     (case pl of None \<Rightarrow> Rejected_Unspecified | Some xs \<Rightarrow> if length xs > unat (itsGnMaxSduSize mib) then Rejected_Max_SDU_Size else Accepted)"

definition validate_area_request :: "geodesy \<Rightarrow> MIB \<Rightarrow> DataRequest \<Rightarrow> Area \<Rightarrow> ResultCode" where
  "validate_area_request geo mib req destination =
     (if area_size geo destination > itsGnMaxGeoAreaSize mib then Rejected_Max_Geo_Area_Size else validate_data_request mib req)"

definition BasicHeader_of_mib :: "MIB \<Rightarrow> BasicHeader" where
  "BasicHeader_of_mib mib = \<lparr>version = ucast (itsGnProtocolVersion mib), basic_next_header = Basic_Any, basic_reserved = 0,
     lifetime = itsGnDefaultPacketLifetime mib, hop_limit = ucast (itsGnDefaultHopLimit mib)\<rparr>"

definition BasicHeader_of_request :: "DataRequest \<Rightarrow> MIB \<Rightarrow> BasicHeader" where
  "BasicHeader_of_request req mib =
     (BasicHeader_of_mib mib)\<lparr>basic_next_header := (if itsGnSecurity mib then Basic_Secured else Basic_Common),
       lifetime := req_maximum_lifetime req, hop_limit := ucast (req_max_hop_limit req)\<rparr>"

definition CommonHeader_of_mib :: "MIB \<Rightarrow> CommonHeader" where
  "CommonHeader_of_mib mib = \<lparr>common_next_header = 0, reserved1 = 0, header_type = HT_Any, traffic_class = itsGnDefaultTrafficClass mib,
     flags = (if itsGnIsMobile mib then 0x80 else 0x00), payload = 0, maximum_hop_limit = ucast (itsGnDefaultHopLimit mib), reserved2 = 0\<rparr>"

text \<open>\<open>None\<close> is the error that the upper protocol is not handled.\<close>

definition CommonHeader_of_request :: "DataRequest \<Rightarrow> MIB \<Rightarrow> CommonHeader option" where
  "CommonHeader_of_request req mib =
     map_option (\<lambda>nh. (CommonHeader_of_mib mib)\<lparr>common_next_header := nh, traffic_class := req_traffic_class req, maximum_hop_limit := ucast (req_max_hop_limit req)\<rparr>)
       (case req_upper_protocol req of BTP_A \<Rightarrow> Some 1 | BTP_B \<Rightarrow> Some 2 | IPv6 \<Rightarrow> Some 3 | Unknown \<Rightarrow> None)"

definition create_shb_pdu ::
  "('h, 'hd, 'b, 'cnt, 'c, 's) router_env \<Rightarrow> time_point \<Rightarrow> DataRequest \<Rightarrow> ('h, 'hd, 'b, 'cnt, 'c, 's) Router \<Rightarrow> (ShbHeader, 's) ExtendedPdu option" where
  "create_shb_pdu env now req r =
     map_option (\<lambda>c. \<lparr>pdu_basic = (BasicHeader_of_request req (env_mib env))\<lparr>hop_limit := 1\<rparr>,
         pdu_common = c\<lparr>header_type := HT_TSB_Single_Hop, maximum_hop_limit := 1\<rparr>,
         pdu_extended = \<lparr>shb_source_position = r_local_position_vector r, dcc = env_dcc_field env now\<rparr>, pdu_secured = None\<rparr>)
       (CommonHeader_of_request req (env_mib env))"

definition create_beacon_pdu ::
  "('h, 'hd, 'b, 'cnt, 'c, 's) router_env \<Rightarrow> ('h, 'hd, 'b, 'cnt, 'c, 's) Router \<Rightarrow> (BeaconHeader, 's) ExtendedPdu" where
  "create_beacon_pdu env r =
     \<lparr>pdu_basic = (BasicHeader_of_mib (env_mib env))\<lparr>hop_limit := 1\<rparr>,
      pdu_common = (CommonHeader_of_mib (env_mib env))\<lparr>common_next_header := 0, header_type := HT_Beacon, maximum_hop_limit := 1\<rparr>,
      pdu_extended = \<lparr>beacon_source_position = r_local_position_vector r\<rparr>, pdu_secured = None\<rparr>"

definition create_gbc_pdu ::
  "('h, 'hd, 'b, 'cnt, 'c, 's) router_env \<Rightarrow> DataRequest \<Rightarrow> Area \<Rightarrow> ('h, 'hd, 'b, 'cnt, 'c, 's) Router \<Rightarrow>
   ((GbcGacHeader, 's) ExtendedPdu \<times> ('h, 'hd, 'b, 'cnt, 'c, 's) Router) option" where
  "create_gbc_pdu env req destination r =
     map_option (\<lambda>c. case sequence_post_increment (r_local_sequence_number r) of (sn, sn') \<Rightarrow>
         (\<lparr>pdu_basic = BasicHeader_of_request req (env_mib env), pdu_common = c\<lparr>header_type := gbc_header_type destination\<rparr>,
           pdu_extended = gbc_set_destination (env_geo env) destination (zero_gbc\<lparr>sequence_number := sn, source_position := r_local_position_vector r\<rparr>), pdu_secured = None\<rparr>,
          r\<lparr>r_local_sequence_number := sn'\<rparr>))
       (CommonHeader_of_request req (env_mib env))"

definition ControlInfo_of :: "DataRequest \<Rightarrow> ControlInfo" where
  "ControlInfo_of req = \<lparr>communication_profile = req_communication_profile req, ctrl_its_aid = req_its_aid req\<rparr>"

definition set_payload :: "byte list \<Rightarrow> ('e, 's) ExtendedPdu \<Rightarrow> ('e, 's) ExtendedPdu" where
  "set_payload pl pdu = pdu\<lparr>pdu_common := (pdu_common pdu)\<lparr>payload := of_nat (length pl)\<rparr>\<rparr>"

section \<open>Repetitions\<close>

definition decrement_by_one :: "Repetition \<Rightarrow> Repetition" where
  "decrement_by_one rep =
     (if repetition_maximum rep > 0 \<and> repetition_interval rep > 0 \<and> repetition_maximum rep > repetition_interval rep
      then rep\<lparr>repetition_maximum := repetition_maximum rep - repetition_interval rep\<rparr>
      else rep\<lparr>repetition_maximum := 0\<rparr>)"

definition has_further_repetition :: "Repetition \<Rightarrow> bool" where
  "has_further_repetition rep \<longleftrightarrow>
     repetition_maximum rep > 0 \<and> repetition_interval rep > 0 \<and> repetition_maximum rep \<ge> repetition_interval rep"

fun access_request :: "DataRequestVariant \<Rightarrow> DataRequest" where
  "access_request (Guc_Request req _) = req"
| "access_request (Gbc_Request req _) = req"
| "access_request (Gac_Request req _) = req"
| "access_request (Shb_Request req) = req"
| "access_request (Tsb_Request req) = req"

fun update_request :: "(DataRequest \<Rightarrow> DataRequest) \<Rightarrow> DataRequestVariant \<Rightarrow> DataRequestVariant" where
  "update_request f (Guc_Request req a) = Guc_Request (f req) a"
| "update_request f (Gbc_Request req a) = Gbc_Request (f req) a"
| "update_request f (Gac_Request req a) = Gac_Request (f req) a"
| "update_request f (Shb_Request req) = Shb_Request (f req)"
| "update_request f (Tsb_Request req) = Tsb_Request (f req)"

text \<open>A repetition is kept with the time point its trigger is scheduled for.\<close>

definition repeater_add :: "time_point \<Rightarrow> DataRequestVariant \<Rightarrow> byte list \<Rightarrow> ('h, 'hd, 'b, 'cnt, 'c, 's) step" where
  "repeater_add now req pl r =
     (case req_repetition (access_request req) of
        Some rep \<Rightarrow>
          if has_further_repetition rep
          then r\<lparr>r_repetitions := (req, pl, now + clock_of_seconds (repetition_interval rep)) # r_repetitions r\<rparr>
          else r
      | None \<Rightarrow> r)"

section \<open>Source operations\<close>

text \<open>Where an exception is recorded, the caller gets it instead of the result.\<close>

definition request_shb ::
  "('h, 'hd, 'b, 'cnt, 'c, 's) router_env \<Rightarrow> time_point \<Rightarrow> DataRequest \<Rightarrow> byte list option \<Rightarrow> ('h, 'hd, 'b, 'cnt, 'c, 's) Router \<Rightarrow>
   ResultCode \<times> ('h, 'hd, 'b, 'cnt, 'c, 's) Router" where
  "request_shb env now req pl r =
     (let result = confirm_xor (confirm_xor Accepted (validate_data_request (env_mib env) req)) (validate_payload (env_mib env) pl) in
      if result = Accepted then
        let r1 = repeater_add now (Shb_Request req) (the pl) r in
        (result,
         case create_shb_pdu env now req r1 of
           None \<Rightarrow> emit (Exception ''Unhandled upper protocol'') r1
         | Some pdu \<Rightarrow>
             let packet = \<lparr>pp_pdu = Some (set_payload (the pl) pdu), pp_payload = pl, pp_function = ControlInfo_of req\<rparr> in
             if store_carry_forward (req_traffic_class req) \<and> \<not> loc_has_neighbours (env_keys env) (env_heap env) now (r_location_table r1)
             then push_bc_buffer env now (Buffered_Shb packet) r1
             else process_shb env now packet r1)
      else (result, r))"

definition request_gbc ::
  "('h, 'hd, 'b, 'cnt, 'c, 's) router_env \<Rightarrow> time_point \<Rightarrow> DataRequest \<Rightarrow> Area \<Rightarrow> byte list option \<Rightarrow> ('h, 'hd, 'b, 'cnt, 'c, 's) Router \<Rightarrow>
   ResultCode \<times> ('h, 'hd, 'b, 'cnt, 'c, 's) Router" where
  "request_gbc env now req destination pl r =
     (let result = confirm_xor (confirm_xor Accepted (validate_area_request (env_geo env) (env_mib env) req destination)) (validate_payload (env_mib env) pl) in
      if result = Accepted then
        let r1 = repeater_add now (Gbc_Request req destination) (the pl) r in
        (result,
         case create_gbc_pdu env req destination r1 of
           None \<Rightarrow> emit (Exception ''Unhandled upper protocol'') r1
         | Some (pdu, r2) \<Rightarrow>
             let packet = \<lparr>pp_pdu = Some (set_payload (the pl) pdu), pp_payload = pl,
                   pp_function = Forward_Selection None (Source_Transmit (ControlInfo_of req))\<rparr> in
             if store_carry_forward (req_traffic_class req) \<and> \<not> loc_has_neighbours (env_keys env) (env_heap env) now (r_location_table r2)
             then push_bc_buffer env now (Buffered_Gbc packet) r2
             else process_gbc env now packet r2)
      else (result, r))"

text \<open>Requests of the other transport types are not supported.\<close>

fun request ::
  "('h, 'hd, 'b, 'cnt, 'c, 's) router_env \<Rightarrow> time_point \<Rightarrow> DataRequestVariant \<Rightarrow> byte list option \<Rightarrow> ('h, 'hd, 'b, 'cnt, 'c, 's) Router \<Rightarrow>
   ResultCode \<times> ('h, 'hd, 'b, 'cnt, 'c, 's) Router" where
  "request env now (Shb_Request req) pl r = request_shb env now req pl r"
| "request env now (Gbc_Request req destination) pl r = request_gbc env now req destination pl r"
| "request env now (Gac_Request req _) pl r = (Rejected_Unspecified, r)"
| "request env now (Guc_Request req _) pl r = (Rejected_Unspecified, r)"
| "request env now (Tsb_Request req) pl r = (Rejected_Unspecified, r)"

text \<open>The trigger of the \<open>i\<close>-th repetition; its deadline is the time point it was scheduled for.\<close>

definition trigger_repetition :: "Repetition \<Rightarrow> duration \<Rightarrow> Repetition option" where
  "trigger_repetition rep delayed =
     (let rep1 = decrement_by_one rep; rep2 = rep1\<lparr>repetition_maximum := repetition_maximum rep1 - seconds_of_clock delayed\<rparr>
      in if has_further_repetition rep2 then Some rep2 else None)"

definition repeater_trigger :: "('h, 'hd, 'b, 'cnt, 'c, 's) router_env \<Rightarrow> time_point \<Rightarrow> nat \<Rightarrow> ('h, 'hd, 'b, 'cnt, 'c, 's) step" where
  "repeater_trigger env now i r =
     (case r_repetitions r ! i of (req, pl, invocation) \<Rightarrow>
        let req' = update_request (\<lambda>q. q\<lparr>req_repetition := Option.bind (req_repetition q) (\<lambda>rep. trigger_repetition rep (now - invocation))\<rparr>) req
        in snd (request env now req' (Some pl) (r\<lparr>r_repetitions := take i (r_repetitions r) @ drop (Suc i) (r_repetitions r)\<rparr>)))"

section \<open>Beacons\<close>

definition aid_GN_MGMT :: "32 word" where "aid_GN_MGMT = 141"

definition set_next_header :: "8 word \<Rightarrow> ('e, 's) ExtendedPdu \<Rightarrow> ('e, 's) ExtendedPdu" where
  "set_next_header nh pdu = pdu\<lparr>pdu_basic := (pdu_basic pdu)\<lparr>basic_next_header := nh\<rparr>\<rparr>"

definition on_beacon_timer_expired :: "('h, 'hd, 'b, 'cnt, 'c, 's) router_env \<Rightarrow> time_point \<Rightarrow> ('h, 'hd, 'b, 'cnt, 'c, 's) step" where
  "on_beacon_timer_expired env now r =
     (if vanetzaDisableBeaconing (env_mib env) then r
      else
        let pdu = create_beacon_pdu env r in
        if itsGnSecurity (env_mib env) then
          case encap_packet env aid_GN_MGMT Beacon_Header (set_next_header Basic_Secured pdu) [] of
            Some (pdu', pl') \<Rightarrow> reset_beacon_timer env now (pass_down cBroadcastMacAddress (as_pdu Beacon_Header pdu') pl' r)
          | None \<Rightarrow> emit (Exception ''security entity unavailable'') r
        else reset_beacon_timer env now (pass_down cBroadcastMacAddress (as_pdu Beacon_Header (set_next_header Basic_Common pdu)) [] r))"

text \<open>The runtime removes the timer before it calls back.\<close>

definition beacon_timer_expired :: "('h, 'hd, 'b, 'cnt, 'c, 's) router_env \<Rightarrow> time_point \<Rightarrow> ('h, 'hd, 'b, 'cnt, 'c, 's) step" where
  "beacon_timer_expired env now r = on_beacon_timer_expired env now (r\<lparr>r_beacon_timer := None\<rparr>)"

section \<open>Construction and configuration\<close>

record PositionFix =
  fix_latitude :: rat
  fix_longitude :: rat
  fix_semi_major :: rat
  fix_course :: rat
  fix_speed :: rat

definition update_position :: "geodesy \<Rightarrow> MIB \<Rightarrow> time_point \<Rightarrow> PositionFix \<Rightarrow> ('h, 'hd, 'b, 'cnt, 'c, 's) step" where
  "update_position geo mib now pos r =
     r\<lparr>r_local_position_vector := (r_local_position_vector r)
         \<lparr>timestamp := timestamp_of now, latitude := geo_angle_of geo (fix_latitude pos), longitude := geo_angle_of geo (fix_longitude pos),
          speed := (if itsGnIsMobile mib then word_of_int (trunc (speed_to_hundredths geo (fix_speed pos))) else 0),
          heading := (if itsGnIsMobile mib then word_of_int (trunc (degrees_to_tenths geo (fix_course pos))) else 0),
          position_accuracy_indicator := fix_semi_major pos * 2 < itsGnPaiInterval mib\<rparr>\<rparr>"

definition set_transport_handler :: "UpperProtocol \<Rightarrow> bool \<Rightarrow> ('h, 'hd, 'b, 'cnt, 'c, 's) step" where
  "set_transport_handler proto ifc r = r\<lparr>r_transport_ifcs := (r_transport_ifcs r)(proto := ifc)\<rparr>"

definition set_address :: "Address \<Rightarrow> ('h, 'hd, 'b, 'cnt, 'c, 's) step" where
  "set_address addr r = r\<lparr>r_local_position_vector := (r_local_position_vector r)\<lparr>gn_addr := addr\<rparr>\<rparr>"

text \<open>The lifetime of location table entries is cut to whole seconds. The empty containers are given: heap, timers, counters and memory.\<close>

definition new_router ::
  "('h, 'hd, 'b, 'cnt, 'c, 's) router_env \<Rightarrow> time_point \<Rightarrow> 'h \<Rightarrow> 'b \<Rightarrow> 'cnt \<Rightarrow> 'c \<Rightarrow> ('h, 'hd, 'b, 'cnt, 'c, 's) Router" where
  "new_router env now hp timers counter identifiers =
     (let mib = env_mib env;
          r = \<lparr>r_location_table = \<lparr>ss_lifetime = trunc (itsGnLifetimeLocTE mib) * 1000000, ss_heap = hp, ss_map = Map.empty\<rparr>,
            r_bc_forward_buffer = new_buffer (ucast (itsGnBcForwardingPacketBufferSize mib * 1024)),
            r_uc_forward_buffer = new_buffer (ucast (itsGnUcForwardingPacketBufferSize mib * 1024)),
            r_cbf_buffer = new_cbf timers counter (ucast (itsGnCbfPacketBufferSize mib * 1024)),
            r_local_position_vector = zero_lpv, r_local_sequence_number = 0,
            r_gbc_memory = the (gbc_set_capacity (env_index env) (vanetzaGbcMemoryCapacity mib) \<lparr>gbc_capacity = 1, gbc_identifiers = identifiers\<rparr>),
            r_transport_ifcs = (\<lambda>_. False), r_random_gen = 0, r_beacon_timer = None, r_repetitions = [], r_calls = []\<rparr>
      in if vanetzaDisableBeaconing mib then r
         else if \<not> vanetzaDeferInitialBeacon mib then reset_beacon_timer_at now 0 r
         else reset_beacon_timer_at now (clock_of_seconds (env_jitter env 0 * itsGnBeaconServiceRetransmitTimer mib)) (r\<lparr>r_random_gen := 1\<rparr>))"

end
