(* ===== verification/Gn_Router_Laws.thy ===== *)
theory Gn_Router_Laws
  imports Gn_Router
begin

text \<open>
  Safety of the router: an invariant of its state that every operation keeps, from receiving a
  packet to the timers. It covers the location table, both forwarding buffers, the contention
  buffer, the memory of broadcasts, and what the router has handed to the link layer so far.
\<close>

section \<open>Packets a router may send\<close>

text \<open>
  A packet to forward carries a secured message exactly if its basic header says so, then
  without a payload of its own, and has used at least one hop but not all of them. A packet of the router itself is
  not secured yet and has all its hops left.
\<close>

definition forwarder_ok :: "('e, 's) ExtendedPdu \<Rightarrow> byte list \<Rightarrow> bool" where
  "forwarder_ok pdu pl \<longleftrightarrow>
     (pdu_secured pdu \<noteq> None \<longleftrightarrow> basic_next_header (pdu_basic pdu) = Basic_Secured) \<and> (pdu_secured pdu \<noteq> None \<longrightarrow> pl = []) \<and>
     1 \<le> hop_limit (pdu_basic pdu) \<and> hop_limit (pdu_basic pdu) < maximum_hop_limit (pdu_common pdu)"

definition source_ok :: "MIB \<Rightarrow> ('e, 's) ExtendedPdu \<Rightarrow> bool" where
  "source_ok mib pdu \<longleftrightarrow> pdu_secured pdu = None \<and>
     basic_next_header (pdu_basic pdu) = (if itsGnSecurity mib then Basic_Secured else Basic_Common) \<and>
     hop_limit (pdu_basic pdu) = maximum_hop_limit (pdu_common pdu)"

definition gbc_packet_ok :: "MIB \<Rightarrow> (GbcGacHeader, 's) ExtendedPdu \<Rightarrow> byte list \<Rightarrow> transmit_fn \<Rightarrow> bool" where
  "gbc_packet_ok mib pdu pl fn \<longleftrightarrow> gbc_get_distance (header_type (pdu_common pdu)) (pdu_extended pdu) \<noteq> None \<and>
     (case fn of Forwarder_Transmit \<Rightarrow> forwarder_ok pdu pl | Source_Transmit _ \<Rightarrow> source_ok mib pdu | No_Transmit \<Rightarrow> True)"

fun action_fn :: "gbc_action \<Rightarrow> transmit_fn" where
  "action_fn (Forward_Selection _ fn) = fn"
| "action_fn (Greedy_Forwarding fn) = fn"
| "action_fn (Transmit_To fn _) = fn"

definition pending_gbc_ok :: "MIB \<Rightarrow> (GbcGacHeader, 's, gbc_action) PendingPacket \<Rightarrow> bool" where
  "pending_gbc_ok mib p \<longleftrightarrow> (\<forall>pdu pl. pp_pdu p = Some pdu \<longrightarrow> pp_payload p = Some pl \<longrightarrow> gbc_packet_ok mib pdu pl (action_fn (pp_function p)))"

fun buffered_ok :: "MIB \<Rightarrow> 's buffered \<Rightarrow> bool" where
  "buffered_ok mib (Buffered_Shb p) \<longleftrightarrow> (\<forall>pdu. pp_pdu p = Some pdu \<longrightarrow> source_ok mib pdu)"
| "buffered_ok mib (Buffered_Gbc p) \<longleftrightarrow> pending_gbc_ok mib p"

text \<open>
  What may be handed to the link layer and to the upper layers, and that no exception is
  thrown. Where security is strict, only verified packets are passed up.
\<close>

definition down_ok :: "'s Pdu \<Rightarrow> byte list \<Rightarrow> bool" where
  "down_ok pdu pl \<longleftrightarrow> (secured pdu \<noteq> None \<longleftrightarrow> basic_next_header (basic pdu) = Basic_Secured) \<and> (secured pdu \<noteq> None \<longrightarrow> pl = []) \<and>
     hop_limit (basic pdu) \<le> maximum_hop_limit (common pdu) \<and>
     (hop_limit (basic pdu) < maximum_hop_limit (common pdu) \<longrightarrow> 1 \<le> hop_limit (basic pdu))"

definition verified :: "MIB \<Rightarrow> DataIndication \<Rightarrow> bool" where
  "verified mib ind \<longleftrightarrow> (itsGnSecurity mib \<and> itsGnSnDecapResultHandling mib = Strict \<longrightarrow> security_report ind = Success)"

definition up_ok :: "MIB \<Rightarrow> DataIndication \<Rightarrow> byte list \<Rightarrow> bool" where
  "up_ok mib ind pl \<longleftrightarrow> verified mib ind \<and>
     (transport_type ind = SHB \<or> transport_type ind = GBC \<and> (\<exists>area. ind_destination ind = To_Area area)) \<and> length pl < 2 ^ 16"

fun event_ok :: "MIB \<Rightarrow> 's router_event \<Rightarrow> bool" where
  "event_ok mib (Request_Down req pdu pl) \<longleftrightarrow> dcc_ether_type req = 0x8947 \<and> down_ok pdu pl"
| "event_ok mib (Indicate_Up ind pl) \<longleftrightarrow> up_ok mib ind pl"
| "event_ok mib (Exception _) \<longleftrightarrow> False"
| "event_ok mib _ \<longleftrightarrow> True"

section \<open>Invariant\<close>

definition table_ok :: "('h, 'hd, 'b, 'cnt, 'c, 's) router_env \<Rightarrow> ('h, 'hd) LocationTable \<Rightarrow> bool" where
  "table_ok env t \<longleftrightarrow> ss_inv (env_heap env) t \<and> 0 \<le> ss_lifetime t"

definition queue_ok :: "('h, 'hd, 'b, 'cnt, 'c, 's) router_env \<Rightarrow> 's buffered PacketBuffer \<Rightarrow> bool" where
  "queue_ok env b \<longleftrightarrow> buffer_inv (buffered_ops (env_size (env_cbf env))) b \<and> (\<forall>d\<in>snd ` set (m_nodes b). buffered_ok (env_mib env) d)"

definition contention_ok :: "('h, 'hd, 'b, 'cnt, 'c, 's) router_env \<Rightarrow> ('b, 'cnt, 's, gbc_action) CbfPacketBuffer \<Rightarrow> bool" where
  "contention_ok env s \<longleftrightarrow> cbf_inv (env_cbf env) s \<and> (\<forall>p\<in>snd ` set (cb_packets s). pending_gbc_ok (env_mib env) (cp_packet p))"

definition memory_ok :: "('h, 'hd, 'b, 'cnt, 'c, 's) router_env \<Rightarrow> 'c GbcMemory \<Rightarrow> bool" where
  "memory_ok env m \<longleftrightarrow> 0 < gbc_capacity m \<and> (\<exists>history. seq (env_index env) (gbc_identifiers m) = recent (gbc_capacity m) history)"

definition repetitions_ok :: "(DataRequestVariant \<times> byte list \<times> time_point) list \<Rightarrow> bool" where
  "repetitions_ok reps \<longleftrightarrow> (\<forall>(req, pl, tp)\<in>set reps. req_upper_protocol (access_request req) \<noteq> Unknown)"

definition router_inv :: "('h, 'hd, 'b, 'cnt, 'c, 's) router_env \<Rightarrow> ('h, 'hd, 'b, 'cnt, 'c, 's) Router \<Rightarrow> bool" where
  "router_inv env r \<longleftrightarrow> table_ok env (r_location_table r) \<and> queue_ok env (r_bc_forward_buffer r) \<and> queue_ok env (r_uc_forward_buffer r) \<and>
     contention_ok env (r_cbf_buffer r) \<and> memory_ok env (r_gbc_memory r) \<and> repetitions_ok (r_repetitions r) \<and> (\<forall>ev\<in>set (r_calls r). event_ok (env_mib env) ev)"

text \<open>A receiver's environment: the containers behave as documented, and there is a security entity if security is on.\<close>

locale router_environment =
  hp: mutable_heap "env_heap env" + ks: key_order "env_heap env" "env_keys env" + ix: sequenced_index "env_index env" + cb: cbf_environment "env_cbf env"
  for env :: "('h, 'hd, 'b, 'cnt, 'c, 's) router_env" +
  assumes secure: "itsGnSecurity (env_mib env) \<Longrightarrow> env_security_entity env"
begin

lemma inv_emit: "router_inv env r \<Longrightarrow> event_ok (env_mib env) ev \<Longrightarrow> router_inv env (emit ev r)"
  by (auto simp: router_inv_def emit_def)

lemma inv_fields [simp]:
  "router_inv env (r\<lparr>r_local_position_vector := v\<rparr>) = router_inv env r"
  "router_inv env (r\<lparr>r_local_sequence_number := n\<rparr>) = router_inv env r"
  "router_inv env (r\<lparr>r_random_gen := g\<rparr>) = router_inv env r"
  "router_inv env (r\<lparr>r_beacon_timer := tp\<rparr>) = router_inv env r"
  "router_inv env (r\<lparr>r_transport_ifcs := f\<rparr>) = router_inv env r"
  by (simp_all add: router_inv_def)

lemma inv_table: "router_inv env r \<Longrightarrow> table_ok env t \<Longrightarrow> router_inv env (r\<lparr>r_location_table := t\<rparr>)"
  by (simp add: router_inv_def)

lemma inv_cbf: "router_inv env r \<Longrightarrow> contention_ok env b \<Longrightarrow> router_inv env (r\<lparr>r_cbf_buffer := b\<rparr>)"
  by (simp add: router_inv_def)

subsection \<open>Sending\<close>

lemma inv_pass_down_request:
  "router_inv env r \<Longrightarrow> dcc_ether_type req = 0x8947 \<Longrightarrow> down_ok pdu pl \<Longrightarrow> router_inv env (pass_down_request req pdu pl r)"
  by (auto simp: pass_down_request_def down_ok_def intro!: inv_emit)

lemma inv_pass_down: "router_inv env r \<Longrightarrow> down_ok pdu pl \<Longrightarrow> router_inv env (pass_down addr pdu pl r)"
  by (auto simp: pass_down_def ether_type_def intro: inv_pass_down_request)

lemma forwarder_down: "forwarder_ok pdu pl \<Longrightarrow> down_ok (as_pdu wrap pdu) pl"
  by (auto simp: forwarder_ok_def down_ok_def as_pdu_def)

text \<open>A packet of the router itself, secured if security is on.\<close>

lemma source_encap:
  assumes "source_ok (env_mib env) pdu" "itsGnSecurity (env_mib env)"
  shows "\<exists>pdu'. encap_packet env aid wrap pdu pl = Some (pdu', []) \<and> down_ok (as_pdu wrap pdu') []"
  using assms secure by (simp add: encap_packet_def source_ok_def down_ok_def as_pdu_def)

lemma source_plain: "source_ok (env_mib env) pdu \<Longrightarrow> \<not> itsGnSecurity (env_mib env) \<Longrightarrow> down_ok (as_pdu wrap pdu) pl"
  by (simp add: source_ok_def down_ok_def as_pdu_def Basic_Common_def Basic_Secured_def)

lemma source_extended [simp]: "source_ok mib (pdu\<lparr>pdu_extended := e\<rparr>) = source_ok mib pdu"
  by (simp add: source_ok_def)

lemma inv_transmit_gbc: "router_inv env r \<Longrightarrow> gbc_packet_ok (env_mib env) pdu pl fn \<Longrightarrow> router_inv env (transmit_gbc env fn mac pdu pl r)"
proof (cases fn)
  case (Source_Transmit ctrl)
  assume r: "router_inv env r" "gbc_packet_ok (env_mib env) pdu pl fn"
  let ?pdu = "pdu\<lparr>pdu_extended := (pdu_extended pdu)\<lparr>source_position := r_local_position_vector r\<rparr>\<rparr>"
  have ok: "source_ok (env_mib env) ?pdu" using r(2) Source_Transmit by (simp add: gbc_packet_ok_def)
  show ?thesis
  proof (cases "itsGnSecurity (env_mib env)")
    case True
    then show ?thesis using source_encap [OF ok True, of "ctrl_its_aid ctrl" Gbc_Header pl] r(1) Source_Transmit
      by (auto simp: transmit_gbc_def Let_def intro: inv_pass_down)
  next
    case False
    then show ?thesis using source_plain [OF ok False] r(1) Source_Transmit by (auto simp: transmit_gbc_def Let_def intro: inv_pass_down)
  qed
qed (auto simp: transmit_gbc_def gbc_packet_ok_def ether_type_def intro!: inv_pass_down_request forwarder_down)

lemma inv_reset_beacon [simp]: "router_inv env (reset_beacon_timer env now r) = router_inv env r" "router_inv env (reset_beacon_timer_at now d r) = router_inv env r"
  by (simp_all add: reset_beacon_timer_def reset_beacon_timer_at_def)

lemma inv_transmit_shb: "router_inv env r \<Longrightarrow> source_ok (env_mib env) pdu \<Longrightarrow> router_inv env (transmit_shb env now pdu pl ctrl r)"
proof -
  assume r: "router_inv env r" "source_ok (env_mib env) pdu"
  let ?pdu = "pdu\<lparr>pdu_extended := (pdu_extended pdu)\<lparr>shb_source_position := r_local_position_vector r\<rparr>\<rparr>"
  have ok: "source_ok (env_mib env) ?pdu" using r(2) by simp
  show ?thesis
  proof (cases "itsGnSecurity (env_mib env)")
    case True
    then show ?thesis using source_encap [OF ok True, of "ctrl_its_aid ctrl" Shb_Header pl] r(1)
      by (auto simp: transmit_shb_def Let_def intro: inv_pass_down)
  next
    case False
    then show ?thesis using source_plain [OF ok False] r(1) by (auto simp: transmit_shb_def Let_def intro: inv_pass_down)
  qed
qed

subsection \<open>Buffering\<close>

lemma reduced_ok: "buffered_ok mib d \<Longrightarrow> buffered_ok mib (snd (buffered_reduce_lifetime q d))"
  by (cases d) (auto simp: pending_gbc_ok_def gbc_packet_ok_def source_ok_def forwarder_ok_def pending_reduce_lifetime_def set_lifetime_def Let_def
      split: option.splits transmit_fn.splits if_splits prod.splits)

lemma pending_reduced_ok: "pending_gbc_ok mib p \<Longrightarrow> pending_gbc_ok mib (snd (pending_reduce_lifetime q p))"
  using reduced_ok [of mib "Buffered_Gbc p" q] by (auto split: prod.splits)

lemma fitting_subset: "set (fitting ops cap n nodes) \<subseteq> set nodes"
  by (induction nodes) auto

lemma queue_push:
  assumes "queue_ok env b" "buffered_ok (env_mib env) d"
  shows "queue_ok env (snd (buffer_push (buffered_ops (env_size (env_cbf env))) d now b))"
proof -
  let ?ops = "buffered_ops (env_size (env_cbf env))"
  obtain ok b' where push: "buffer_push ?ops d now b = (ok, b')" by fastforce
  note spec = buffered.buffer_push_spec [OF _ push]
  have "buffered_ok (env_mib env) (snd (reduce_lifetime ?ops 0 d))" using reduced_ok [OF assms(2)] by (simp add: buffered_ops_def)
  then show ?thesis using spec(2,4) assms(1) fitting_subset unfolding queue_ok_def push
    by (fastforce simp: split: if_splits)
qed

lemma inv_push_bc: "router_inv env r \<Longrightarrow> buffered_ok (env_mib env) d \<Longrightarrow> router_inv env (push_bc_buffer env now d r)"
  by (simp add: push_bc_buffer_def router_inv_def queue_push)

lemma inv_cbf_remove: "router_inv env r \<Longrightarrow> router_inv env (snd (cbf_buffer_remove env now x r))"
proof -
  assume r: "router_inv env r"
  then have inv: "cbf_inv (env_cbf env) (r_cbf_buffer r)" by (simp add: router_inv_def contention_ok_def)
  obtain P where "cb_packets (snd (cbf_remove (env_cbf env) now x (r_cbf_buffer r))) = filter P (cb_packets (r_cbf_buffer r))"
    using cb.cbf_remove_spec(4) [OF inv] by blast
  then have "contention_ok env (snd (cbf_remove (env_cbf env) now x (r_cbf_buffer r)))"
    using cb.cbf_remove_spec(1) [OF inv] r by (auto simp: contention_ok_def router_inv_def)
  then show ?thesis using inv_cbf [OF r] by (simp add: cbf_buffer_remove_def split: prod.split) (metis snd_conv)
qed

lemma inv_cbf_add: "router_inv env r \<Longrightarrow> gbc_packet_ok (env_mib env) pdu pl fn \<Longrightarrow> router_inv env (cbf_buffer_add env now pdu pl fn sender timeout r)"
proof -
  assume r: "router_inv env r" "gbc_packet_ok (env_mib env) pdu pl fn"
  let ?p = "\<lparr>cp_packet = \<lparr>pp_pdu = Some pdu, pp_payload = Some pl, pp_function = Transmit_To fn cBroadcastMacAddress\<rparr>, cp_sender = sender\<rparr>"
  let ?s = "r_cbf_buffer r"
  have inv: "cbf_inv (env_cbf env) ?s" and ok: "\<forall>p\<in>snd ` set (cb_packets ?s). pending_gbc_ok (env_mib env) (cp_packet p)"
    using r(1) by (simp_all add: router_inv_def contention_ok_def)
  have p: "pending_gbc_ok (env_mib env) (cp_packet ?p)" using r(2) by (simp add: pending_gbc_ok_def)
  obtain x where "cbf_identifier ?p = Some x" by (simp add: cbf_identifier_def)
  from cb.cbf_add_spec [OF inv this, of "env_reused env ?s" now timeout] obtain s' where s': "cbf_add (env_cbf env) (env_reused env ?s) now ?p timeout ?s = Some s'"
    "cbf_inv (env_cbf env) s'" and new: "cb_packets s' = cb_packets ?s \<or> (\<exists>k ps. cb_packets s' = drop k (cb_packets ?s) @ ps \<and> (ps = [] \<or> (\<exists>n. ps = [(n, ?p)])))"
    by blast
  have "\<forall>q\<in>snd ` set (cb_packets s'). pending_gbc_ok (env_mib env) (cp_packet q)"
    using new ok p by (fastforce dest: in_set_dropD)
  then show ?thesis using s' inv_cbf [OF r(1)] by (simp add: cbf_buffer_add_def Let_def contention_ok_def)
qed

lemma inv_cbf_update: "router_inv env r \<Longrightarrow> router_inv env (r\<lparr>r_cbf_buffer := cbf_update (env_cbf env) now x timeout (r_cbf_buffer r)\<rparr>)"
proof -
  assume r: "router_inv env r"
  then have inv: "cbf_inv (env_cbf env) (r_cbf_buffer r)" and ok: "\<forall>p\<in>snd ` set (cb_packets (r_cbf_buffer r)). pending_gbc_ok (env_mib env) (cp_packet p)"
    by (simp_all add: router_inv_def contention_ok_def)
  have "pending_gbc_ok (env_mib env) (cp_packet (snd (cbf_reduce_lifetime now t p)))" if "pending_gbc_ok (env_mib env) (cp_packet p)" for t p
    using pending_reduced_ok [OF that] by (simp add: cbf_reduce_lifetime_def split_beta)
  then have "\<forall>p\<in>snd ` set (cb_packets (cbf_update (env_cbf env) now x timeout (r_cbf_buffer r))). pending_gbc_ok (env_mib env) (cp_packet p)"
    using ok by (fastforce simp: cbf_update_def split: option.splits)
  then show ?thesis using cb.update_pairs(1) [OF inv] inv_cbf [OF r] by (simp add: contention_ok_def)
qed

end

section \<open>Forwarding\<close>

text \<open>A next hop with a state: the packet may be sent, and the invariant holds.\<close>

definition hop_inv :: "('h, 'hd, 'b, 'cnt, 'c, 's) router_env \<Rightarrow> 's NextHop \<times> ('h, 'hd, 'b, 'cnt, 'c, 's) Router \<Rightarrow> bool" where
  "hop_inv env x \<longleftrightarrow> router_inv env (snd x) \<and> (\<forall>pdu pl fn mac. fst x = Valid pdu pl fn mac \<longrightarrow> gbc_packet_ok (env_mib env) pdu pl fn)"

context router_environment
begin

lemma hop_process: "hop_inv env (nh, r) \<Longrightarrow> router_inv env (nh_process env nh r)"
  by (cases nh) (auto simp: hop_inv_def nh_process_def intro: inv_transmit_gbc)

lemma hop_valid: "router_inv env r \<Longrightarrow> gbc_packet_ok (env_mib env) pdu pl fn \<Longrightarrow> hop_inv env (Valid pdu pl fn mac, r)"
  by (simp add: hop_inv_def)

lemma hop_other: "router_inv env r \<Longrightarrow> hop_inv env (Discarded, r)" "router_inv env r \<Longrightarrow> hop_inv env (Buffered, r)"
  by (simp_all add: hop_inv_def)

lemma packet_without_payload: "gbc_packet_ok mib pdu pl fn \<Longrightarrow> gbc_packet_ok mib pdu (if pdu_secured pdu \<noteq> None then [] else pl) fn"
  by (auto simp: gbc_packet_ok_def forwarder_ok_def split: transmit_fn.splits)

lemma hop_greedy:
  assumes "router_inv env r" "gbc_packet_ok (env_mib env) pdu pl fn"
  shows "hop_inv env (greedy_forwarding env now pdu pl fn r)"
  using assms by (auto simp: greedy_forwarding_def Let_def split_beta pending_gbc_ok_def intro!: hop_valid hop_other inv_push_bc)

lemma hop_non_area:
  assumes "router_inv env r" "gbc_packet_ok (env_mib env) pdu pl fn"
  shows "hop_inv env (non_area_contention_based_forwarding env now pdu pl fn sender r)"
proof (cases sender)
  case (Some se)
  have "router_inv env (snd (cbf_buffer_remove env now (gbc_identifier pdu) r))" using assms(1) by (rule inv_cbf_remove)
  then show ?thesis using assms(2) Some
    by (auto simp: non_area_contention_based_forwarding_def Let_def split_beta intro!: hop_other inv_cbf_add split: option.split)
qed (use assms in \<open>simp add: non_area_contention_based_forwarding_def hop_valid\<close>)

lemma hop_area_cbf:
  assumes "router_inv env r" "gbc_packet_ok (env_mib env) pdu pl fn"
  shows "hop_inv env (area_contention_based_forwarding env now pdu pl fn sender r)"
proof (cases sender)
  case (Some se)
  have "router_inv env (snd (cbf_buffer_remove env now (gbc_identifier pdu) r))" using assms(1) by (rule inv_cbf_remove)
  then show ?thesis using assms(2) Some
    by (auto simp: area_contention_based_forwarding_def Let_def split_beta intro!: hop_other inv_cbf_add)
qed (use assms in \<open>simp add: area_contention_based_forwarding_def hop_valid\<close>)

lemma hop_greedy_contend:
  assumes "hop_inv env (nh, r)" "gbc_packet_ok (env_mib env) pdu pl fn'"
  shows "hop_inv env (nh, cbf_buffer_add env now pdu pl fn' sender timeout r)"
  using assms by (auto simp: hop_inv_def intro: inv_cbf_add)

lemma hop_advanced:
  assumes "router_inv env r" "gbc_packet_ok (env_mib env) pdu pl fn"
  shows "hop_inv env (area_advanced_forwarding env now pdu pl fn ll r)"
proof (cases ll)
  case (Some link)
  have silent: "gbc_packet_ok (env_mib env) pdu pl No_Transmit" using assms(2) by (simp add: gbc_packet_ok_def)
  show ?thesis
  proof (cases "cbf_find (env_cbf env) (gbc_identifier pdu) (r_cbf_buffer r)")
    case None
    obtain nh r1 where greedy: "greedy_forwarding env now pdu (if pdu_secured pdu \<noteq> None then [] else pl) fn r = (nh, r1)" by fastforce
    have "hop_inv env (nh, r1)" using hop_greedy [OF assms(1) packet_without_payload [OF assms(2)], of now] unfolding greedy .
    moreover from this have "router_inv env r1" by (simp add: hop_inv_def)
    ultimately show ?thesis using None Some assms silent unfolding area_advanced_forwarding_def greedy
      by (auto simp: Let_def intro!: hop_greedy_contend hop_other inv_cbf_add split: NextHop.split)
  next
    case (Some p)
    then show ?thesis using \<open>ll = Some link\<close> assms(1)
      by (auto simp: area_advanced_forwarding_def Let_def intro!: hop_other inv_cbf_remove inv_cbf_update)
  qed
qed (use assms in \<open>simp add: area_advanced_forwarding_def hop_valid\<close>)

lemma hop_selection:
  assumes "router_inv env r" "gbc_packet_ok (env_mib env) pdu pl fn"
  shows "hop_inv env (forwarding_algorithm_selection env now pdu pl fn ll r)"
proof -
  obtain area where "gbc_destination (env_geo env) (header_type (pdu_common pdu)) (pdu_extended pdu) = Some area"
    using assms(2) by (auto simp: gbc_packet_ok_def gbc_destination_def)
  then show ?thesis
    using assms by (auto simp: forwarding_algorithm_selection_def intro!: hop_valid hop_other hop_greedy hop_non_area hop_area_cbf hop_advanced inv_emit
        split: BroadcastForwarding.split UnicastForwarding.split)
qed

lemma inv_process_action:
  assumes "router_inv env r" "gbc_packet_ok (env_mib env) pdu pl (action_fn act)"
  shows "router_inv env (process_gbc_action env now pdu pl act r)"
proof (cases act)
  case (Forward_Selection ll fn)
  then show ?thesis using hop_selection [OF assms(1), of pdu pl fn now ll] assms(2)
    by (auto simp: process_gbc_action_def split_beta intro: hop_process)
next
  case (Greedy_Forwarding fn)
  then show ?thesis using hop_greedy [OF assms(1), of pdu pl fn now] assms(2)
    by (auto simp: process_gbc_action_def split_beta intro: hop_process)
next
  case (Transmit_To fn mac)
  then show ?thesis using assms by (simp add: process_gbc_action_def inv_transmit_gbc)
qed

lemma inv_process_gbc: "router_inv env r \<Longrightarrow> pending_gbc_ok (env_mib env) p \<Longrightarrow> router_inv env (process_gbc env now p r)"
  by (auto simp: process_gbc_def pending_process_def or_else_def pending_gbc_ok_def intro: inv_process_action split: option.split)

lemma inv_process_shb: "router_inv env r \<Longrightarrow> buffered_ok (env_mib env) (Buffered_Shb p) \<Longrightarrow> router_inv env (process_shb env now p r)"
  by (auto simp: process_shb_def pending_process_def or_else_def intro: inv_transmit_shb split: option.split)

lemma inv_process_buffered: "router_inv env r \<Longrightarrow> buffered_ok (env_mib env) d \<Longrightarrow> router_inv env (process_buffered env now d r)"
  by (cases d) (simp_all add: inv_process_gbc inv_process_shb)

lemma inv_fold: "router_inv env r \<Longrightarrow> (\<And>x r. x \<in> set xs \<Longrightarrow> router_inv env r \<Longrightarrow> router_inv env (f x r)) \<Longrightarrow> router_inv env (fold f xs r)"
  by (induction xs arbitrary: r) auto

lemma flushed_ok:
  assumes "queue_ok env b" "d \<in> set (fst (buffer_flush (buffered_ops (env_size (env_cbf env))) now b))"
  shows "buffered_ok (env_mib env) d"
  using assms reduced_ok by (fastforce simp: buffer_flush_def queue_ok_def buffered_ops_def)

lemma queue_flush: "queue_ok env b \<Longrightarrow> queue_ok env (snd (buffer_flush (buffered_ops (env_size (env_cbf env))) now b))"
  using buffered.buffer_flush_spec [of "env_size (env_cbf env)" b now] by (simp add: queue_ok_def)

lemma inv_flush_broadcast: "router_inv env r \<Longrightarrow> router_inv env (flush_broadcast_forwarding_buffer env now r)"
  unfolding flush_broadcast_forwarding_buffer_def split_beta
  by (rule inv_fold) (auto simp: router_inv_def intro: queue_flush dest: flushed_ok intro!: inv_process_buffered [unfolded router_inv_def])

lemma inv_flush_unicast: "router_inv env r \<Longrightarrow> router_inv env (flush_unicast_forwarding_buffer env now r)"
  unfolding flush_unicast_forwarding_buffer_def split_beta
  by (rule inv_fold) (auto simp: router_inv_def intro: queue_flush dest: flushed_ok intro!: inv_process_buffered [unfolded router_inv_def])

lemma inv_cbf_timer: "router_inv env r \<Longrightarrow> router_inv env (cbf_timer_expired env now r)"
proof -
  assume r: "router_inv env r"
  let ?s = "(r_cbf_buffer r)\<lparr>cb_trigger := None\<rparr>"
  have inv: "cbf_inv (env_cbf env) ?s" and ok: "\<forall>p\<in>snd ` set (cb_packets ?s). pending_gbc_ok (env_mib env) (cp_packet p)"
    using r by (simp_all add: router_inv_def contention_ok_def cbf_inv_def cbf_left_def)
  let ?es = "takeWhile (\<lambda>(t, x, n). expiry t \<le> now) (cbf_left (env_cbf env) ?s)"
  note loop = cb.flush_loop_spec [OF inv takeWhile_dropWhile_id [of "\<lambda>(t, x, n). expiry t \<le> now", symmetric], where now = now]
  obtain P where P: "cb_packets (snd (flush_loop (env_cbf env) now ?es ?s)) = filter P (cb_packets ?s)" using loop(7) by blast
  have "contention_ok env (snd (cbf_flush (env_cbf env) now ?s))"
    using loop(2) ok P by (auto simp: cbf_flush_def split_beta contention_ok_def)
  moreover have "pending_gbc_ok (env_mib env) p" if p: "p \<in> set (fst (cbf_flush (env_cbf env) now ?s))" for p
  proof -
    obtain t x n where e: "(t, x, n) \<in> set (cbf_left (env_cbf env) ?s)" "p \<in> set (handed_over ?s now (t, x, n))"
      using p loop(1) by (fastforce simp: cbf_flush_def split_beta dest: set_takeWhileD)
    have "cbf_deref n ?s \<in> snd ` set (cb_packets ?s)"
      using cb.related_packet [OF inv e(1)] by (force simp: cbf_deref_def dest: map_of_SomeD)
    then have "pending_gbc_ok (env_mib env) (cp_packet (cbf_deref n ?s))" using ok by blast
    from pending_reduced_ok [OF this] show ?thesis using e(2)
      by (auto simp: handed_over_def cbf_reduce_lifetime_def split_beta split: if_splits)
  qed
  ultimately show ?thesis unfolding cbf_timer_expired_def split_beta
    by (intro inv_fold inv_cbf [OF r] inv_process_gbc) auto
qed

end

section \<open>Receiving\<close>

context router_environment
begin

lemma table_modify: "table_ok env t \<Longrightarrow> table_ok env (ss_modify k f t)"
  using hp.modify_abs [of t k f] by (simp add: table_ok_def)

lemma table_update: "table_ok env t \<Longrightarrow> table_ok env (loc_update (env_heap env) now lpv t)"
  using loc_update_spec [OF hp.mutable_heap_axioms, of t now lpv] by (simp add: table_ok_def)

lemma table_get_or_create: "table_ok env t \<Longrightarrow> table_ok env (loc_get_or_create_entry (env_heap env) now mac t)"
  using hp.get_data_abs [of t "new_entry now" now mac] by (simp add: table_ok_def loc_get_or_create_entry_def)

lemma table_drop_expired: "table_ok env t \<Longrightarrow> table_ok env (the (ss_drop_expired (env_heap env) now t))"
  using hp.drop_expired_abs [of t now] by (auto simp: table_ok_def)

lemma inv_update_source: "router_inv env r \<Longrightarrow> router_inv env (update_source env now lpv n f r)"
  unfolding update_source_def by (rule inv_table) (auto simp: router_inv_def intro!: table_modify table_update)

lemma inv_duplicate_address: "router_inv env r \<Longrightarrow> router_inv env (detect_duplicate_address env source sender r)"
  by (simp add: detect_duplicate_address_def Let_def)

lemma inv_duplicate_packet: "router_inv env r \<Longrightarrow> router_inv env (snd (detect_duplicate_packet env now source sn r))"
  by (auto simp: detect_duplicate_packet_def Let_def router_inv_def intro!: table_modify table_get_or_create)

lemma inv_pass_up: "router_inv env r \<Longrightarrow> up_ok (env_mib env) ind pl \<Longrightarrow> router_inv env (pass_up ind pl r)"
  by (simp add: pass_up_def inv_emit)

lemma inv_decide_pass_up: "router_inv env r \<Longrightarrow> router_inv env (snd (decide_pass_up env inside gbc r))"
proof -
  assume r: "router_inv env r"
  then obtain history where m: "0 < gbc_capacity (r_gbc_memory r)"
    "seq (env_index env) (gbc_identifiers (r_gbc_memory r)) = recent (gbc_capacity (r_gbc_memory r)) history"
    by (auto simp: router_inv_def memory_ok_def)
  let ?x = "(gn_addr (source_position gbc), sequence_number gbc)"
  obtain known m' where m': "gbc_remember (env_index env) ?x (r_gbc_memory r) = Some (known, m')" "gbc_capacity m' = gbc_capacity (r_gbc_memory r)"
    "seq (env_index env) (gbc_identifiers m') = recent (gbc_capacity (r_gbc_memory r)) (history @ [?x])"
    using ix.gbc_remember_recent [OF m(2,1), of ?x] by blast
  then have "memory_ok env m'" using m(1) unfolding memory_ok_def by auto
  then show ?thesis using r m'(1) by (simp add: decide_pass_up_def router_inv_def)
qed

lemma forward_packet_ok:
  assumes "pdu_secured pdu \<noteq> None \<longleftrightarrow> basic_next_header (pdu_basic pdu) = Basic_Secured" "gbc_get_distance (header_type (pdu_common pdu)) (pdu_extended pdu) \<noteq> None"
    "\<not> hop_limit (pdu_basic pdu) \<le> 1" "hop_limit (pdu_basic pdu) \<le> maximum_hop_limit (pdu_common pdu)"
  shows "gbc_packet_ok mib (pdu\<lparr>pdu_basic := (pdu_basic pdu)\<lparr>hop_limit := hop_limit (pdu_basic pdu) - 1\<rparr>\<rparr>)
    (if pdu_secured pdu \<noteq> None then [] else pl) Forwarder_Transmit"
proof -
  have "1 \<le> h - 1 \<and> h - 1 < m" if "\<not> h \<le> 1" "h \<le> m" for h m :: "8 word"
  proof -
    have "unat (h - 1) = unat h - 1" using that(1) by (intro unat_minus_one) auto
    then show ?thesis using that unfolding word_le_nat_alt word_less_nat_alt by auto
  qed
  from this [OF assms(3,4)] show ?thesis using assms(1,2) by (auto simp: gbc_packet_ok_def forwarder_ok_def)
qed

lemma inv_forward_gbc:
  assumes "router_inv env r" "pdu_secured pdu \<noteq> None \<longleftrightarrow> basic_next_header (pdu_basic pdu) = Basic_Secured"
    "gbc_get_distance (header_type (pdu_common pdu)) (pdu_extended pdu) \<noteq> None"
    "\<not> hop_limit (pdu_basic pdu) \<le> 1" "hop_limit (pdu_basic pdu) \<le> maximum_hop_limit (pdu_common pdu)"
  shows "router_inv env (forward_gbc env now pdu pl ll r)"
  using forward_packet_ok [OF assms(2-5), of "env_mib env" pl] assms(1)
  by (auto simp: forward_gbc_def Let_def pending_gbc_ok_def intro!: inv_push_bc inv_process_gbc)

lemma inv_if: "(b \<Longrightarrow> router_inv env (snd x)) \<Longrightarrow> (\<not> b \<Longrightarrow> router_inv env (snd y)) \<Longrightarrow> router_inv env (snd (if b then x else y))"
  by simp

lemma inv_process_gbc_header:
  assumes "router_inv env r" "pdu_secured pdu \<noteq> None \<longleftrightarrow> basic_next_header (pdu_basic pdu) = Basic_Secured"
    "gbc_get_distance (header_type (pdu_common pdu)) (pdu_extended pdu) \<noteq> None" "hop_limit (pdu_basic pdu) \<le> maximum_hop_limit (pdu_common pdu)"
  shows "router_inv env (snd (process_gbc_header env now pdu pl n ll r))"
proof -
  let ?gbc = "pdu_extended pdu" and ?so = "gn_addr (source_position (pdu_extended pdu))"
  have r1: "router_inv env (snd (if check then detect_duplicate_packet env now ?so (sequence_number ?gbc) r else (False, r)))" for check
    using assms(1) inv_duplicate_packet by simp
  have r2: "router_inv env (if dad then detect_duplicate_address env ?so (ll_sender ll) r else r)" if "router_inv env r" for dad r
    using that inv_duplicate_address by simp
  have r4: "router_inv env (flush_unicast_forwarding_buffer env now (update_source env now (source_position ?gbc) n f r))" if "router_inv env r" for f r
    using that by (intro inv_flush_unicast inv_update_source)
  have out: "router_inv env (snd (decide_pass_up env inside ?gbc (emit (Forwarding_Stopped reason) r)))" if "router_inv env r" for inside reason r
    using that by (intro inv_decide_pass_up inv_emit) simp_all
  have fwd: "router_inv env (snd (decide_pass_up env inside ?gbc (forward_gbc env now pdu pl ll r)))"
    if "router_inv env r" "\<not> hop_limit (pdu_basic pdu) \<le> 1" for inside r
    using that assms(2-4) by (intro inv_decide_pass_up inv_forward_gbc)
  note base = r4 [OF r2 [OF r1]]
  show ?thesis unfolding process_gbc_header_def Let_def split_beta
    by (rule inv_if, unfold snd_conv, rule r1, rule inv_if, rule out [OF base], rule inv_if, rule out [OF base], rule inv_if, rule out [OF base], erule fwd [OF base])
qed

lemma inv_process_shb_header: "router_inv env r \<Longrightarrow> router_inv env (snd (process_shb_header env now shb n ll r))"
  by (simp add: process_shb_header_def Let_def inv_update_source inv_duplicate_address)

lemma inv_process_beacon_header: "router_inv env r \<Longrightarrow> router_inv env (snd (process_beacon_header env now beacon n ll r))"
  by (simp add: process_beacon_header_def Let_def inv_update_source inv_duplicate_address)

lemma gbc_parsed: "parse_extended ht p = (Some (Gbc_Header gbc), p') \<Longrightarrow> gbc_get_distance ht gbc \<noteq> None"
  by (auto simp: parse_extended_def gbc_destination_def gbc_get_distance_def Let_def split: if_splits prod.splits)

lemma beacon_not_up: "\<not> fst (process_beacon_header env now beacon n ll r)"
  by (simp add: process_beacon_header_def Let_def)

lemma inv_indicate_extended:
  assumes "router_inv env r" "ctx_secured ctx \<noteq> None \<longleftrightarrow> basic_next_header (ctx_basic ctx) = Basic_Secured" "hop_limit (ctx_basic ctx) \<le> maximum_hop_limit c"
    "verified (env_mib env) (ctx_indication ctx)"
  shows "router_inv env (indicate_extended env now ctx c r)"
proof (cases "parse_extended (header_type c) (ctx_parser ctx)")
  case (Pair h p)
  have up: "up_ok (env_mib env) ind pl"
    if "unat (payload c) = length pl" "security_report ind = security_report (ctx_indication ctx)"
      "transport_type ind = SHB \<or> transport_type ind = GBC \<and> (\<exists>area. ind_destination ind = To_Area area)" for ind and pl :: "byte list"
    using that assms(4) unsigned_less [of "payload c", where ?'a = nat] by (simp add: up_ok_def verified_def)
  show ?thesis
  proof (cases h)
    case None
    then show ?thesis using assms(1) Pair by (simp add: indicate_extended_def inv_emit)
  next
    case (Some v)
    show ?thesis
    proof (cases v)
      case (Gbc_Header gbc)
      then have dest: "gbc_get_distance (header_type c) gbc \<noteq> None" using gbc_parsed Pair Some by blast
      have "router_inv env (snd (process_gbc_header env now (ctx_pdu ctx c gbc) pl n ll r))" for pl n ll
        using assms dest by (intro inv_process_gbc_header) (auto simp: ctx_pdu_def)
      moreover obtain area where "gbc_destination (env_geo env) (header_type c) gbc = Some area" using dest by (auto simp: gbc_destination_def)
      ultimately show ?thesis using assms(1) Pair Some Gbc_Header
        by (auto simp: indicate_extended_def Let_def split_beta inv_emit intro!: inv_pass_up up)
    next
      case (Shb_Header shb)
      then show ?thesis using assms(1) inv_process_shb_header Pair Some
        by (auto simp: indicate_extended_def Let_def split_beta inv_emit intro!: inv_pass_up up)
    next
      case (Beacon_Header beacon)
      then show ?thesis using assms(1) inv_process_beacon_header Pair Some
        by (auto simp: indicate_extended_def Let_def split_beta inv_emit beacon_not_up)
    qed
  qed
qed

lemma inv_indicate_common:
  assumes "router_inv env r" "ctx_secured ctx \<noteq> None \<longleftrightarrow> basic_next_header (ctx_basic ctx) = Basic_Secured"
    "verified (env_mib env) (ctx_indication ctx)"
  shows "router_inv env (indicate_common env now ctx r)"
proof -
  have "router_inv env (r\<lparr>r_location_table := the (ss_drop_expired (env_heap env) now (r_location_table r))\<rparr>)"
    using assms(1) by (intro inv_table) (auto simp: router_inv_def intro!: table_drop_expired)
  then have "router_inv env (flush_broadcast_forwarding_buffer env now (r\<lparr>r_location_table := the (ss_drop_expired (env_heap env) now (r_location_table r))\<rparr>))"
    by (rule inv_flush_broadcast)
  then show ?thesis using assms
    by (auto simp: indicate_common_def Let_def not_less verified_def split: prod.split option.split intro!: inv_emit inv_indicate_extended)
qed

lemma inv_indicate: "router_inv env r \<Longrightarrow> router_inv env (indicate env now packet sender destination r)"
  by (auto simp: indicate_def indicate_secured_def Let_def Basic_Common_def Basic_Secured_def verified_def split: prod.split option.split
      intro!: inv_emit inv_indicate_common)

end

section \<open>Requests and timers\<close>

context router_environment
begin

lemma inv_repeater_add:
  "router_inv env r \<Longrightarrow> req_upper_protocol (access_request req) \<noteq> Unknown \<Longrightarrow> router_inv env (repeater_add now req pl r)"
  by (auto simp: repeater_add_def router_inv_def repetitions_ok_def split: option.split)

lemma created_header:
  "req_upper_protocol req \<noteq> Unknown \<Longrightarrow> \<exists>c. CommonHeader_of_request req mib = Some c \<and> maximum_hop_limit c = ucast (req_max_hop_limit req)"
  by (cases "req_upper_protocol req") (simp_all add: CommonHeader_of_request_def)

lemma source_payload [simp]: "source_ok mib (set_payload pl pdu) = source_ok mib pdu"
  by (simp add: source_ok_def set_payload_def)

lemma inv_request_shb:
  assumes "router_inv env r" "req_upper_protocol req \<noteq> Unknown"
  shows "router_inv env (snd (request_shb env now req pl r))"
proof -
  obtain c where c: "CommonHeader_of_request req (env_mib env) = Some c" using created_header [OF assms(2)] by blast
  let ?r1 = "repeater_add now (Shb_Request req) (the pl) r"
  obtain pdu where pdu: "create_shb_pdu env now req ?r1 = Some pdu" "source_ok (env_mib env) pdu"
    using c by (simp add: create_shb_pdu_def source_ok_def BasicHeader_of_request_def)
  have "router_inv env ?r1" using assms by (intro inv_repeater_add) simp_all
  then show ?thesis using pdu assms(1)
    by (auto simp: request_shb_def Let_def intro!: inv_push_bc inv_process_shb)
qed

lemma inv_request_gbc:
  assumes "router_inv env r" "req_upper_protocol req \<noteq> Unknown"
  shows "router_inv env (snd (request_gbc env now req area pl r))"
proof -
  obtain c where c: "CommonHeader_of_request req (env_mib env) = Some c" "maximum_hop_limit c = ucast (req_max_hop_limit req)"
    using created_header [OF assms(2)] by blast
  let ?r1 = "repeater_add now (Gbc_Request req area) (the pl) r"
  obtain pdu sn where pdu: "create_gbc_pdu env req area ?r1 = Some (pdu, ?r1\<lparr>r_local_sequence_number := sn\<rparr>)" "source_ok (env_mib env) pdu"
    "header_type (pdu_common pdu) = gbc_header_type area"
    using c by (auto simp: create_gbc_pdu_def source_ok_def BasicHeader_of_request_def split_beta)
  have "gbc_packet_ok (env_mib env) (set_payload xs pdu) xs (Source_Transmit ctrl)" for xs ctrl
    using pdu(2) gbc_header_types by (simp add: gbc_packet_ok_def) (simp add: set_payload_def pdu(3) gbc_header_types)
  then have ok: "pending_gbc_ok (env_mib env) \<lparr>pp_pdu = Some (set_payload (the pl) pdu), pp_payload = pl, pp_function = Forward_Selection None (Source_Transmit ctrl)\<rparr>" for ctrl
    by (auto simp: pending_gbc_ok_def)
  have "router_inv env ?r1" using assms by (intro inv_repeater_add) simp_all
  then show ?thesis using pdu ok assms(1)
    by (auto simp: request_gbc_def Let_def intro!: inv_push_bc inv_process_gbc)
qed

lemma inv_request: "router_inv env r \<Longrightarrow> req_upper_protocol (access_request req) \<noteq> Unknown \<Longrightarrow> router_inv env (snd (request env now req pl r))"
  by (cases req) (simp_all add: inv_request_shb inv_request_gbc)

lemma access_update: "access_request (update_request f req) = f (access_request req)"
  by (cases req) simp_all

lemma inv_repeater_trigger:
  assumes "router_inv env r" "i < length (r_repetitions r)"
  shows "router_inv env (repeater_trigger env now i r)"
proof -
  obtain req pl tp where rep: "r_repetitions r ! i = (req, pl, tp)" by (cases "r_repetitions r ! i")
  then have "req_upper_protocol (access_request req) \<noteq> Unknown"
    using assms nth_mem [OF assms(2)] by (fastforce simp: router_inv_def repetitions_ok_def)
  moreover have "router_inv env (r\<lparr>r_repetitions := take i (r_repetitions r) @ drop (Suc i) (r_repetitions r)\<rparr>)"
    using assms(1) by (auto simp: router_inv_def repetitions_ok_def dest: in_set_takeD in_set_dropD)
  ultimately show ?thesis by (simp add: repeater_trigger_def rep Let_def access_update inv_request)
qed

lemma inv_beacon_timer: "router_inv env r \<Longrightarrow> router_inv env (beacon_timer_expired env now r)"
proof -
  assume "router_inv env r"
  then have r: "router_inv env (r\<lparr>r_beacon_timer := None\<rparr>)" by simp
  let ?nh = "if itsGnSecurity (env_mib env) then Basic_Secured else Basic_Common"
  have ok: "source_ok (env_mib env) (set_next_header ?nh (create_beacon_pdu env r'))" for r'
    by (simp add: source_ok_def set_next_header_def create_beacon_pdu_def)
  show ?thesis
  proof (cases "itsGnSecurity (env_mib env)")
    case True
    then show ?thesis using source_encap [OF ok [of "r\<lparr>r_beacon_timer := None\<rparr>"] True, where aid = aid_GN_MGMT and wrap = Beacon_Header and pl = "[]"] r
      by (auto simp: beacon_timer_expired_def on_beacon_timer_expired_def Let_def intro!: inv_pass_down)
  next
    case False
    then show ?thesis using source_plain [OF ok False] r
      by (auto simp: beacon_timer_expired_def on_beacon_timer_expired_def Let_def intro!: inv_pass_down)
  qed
qed

lemma inv_new_router:
  assumes "entries (env_heap env) h = Map.empty" "bm_left (env_timers (env_cbf env)) b = []" "seq (env_index env) c = []" "0 \<le> itsGnLifetimeLocTE (env_mib env)"
  shows "router_inv env (new_router env now h b cnt c)"
proof -
  let ?cap = "if vanetzaGbcMemoryCapacity (env_mib env) < 1 then 1 else vanetzaGbcMemoryCapacity (env_mib env)"
  have "while_option (\<lambda>c. size_index (env_index env) c > ?cap) (pop_front_index (env_index env)) c = Some c"
    using assms(3) by (subst while_option_unfold) (simp add: ix.size_index)
  then have "memory_ok env (the (gbc_set_capacity (env_index env) (vanetzaGbcMemoryCapacity (env_mib env)) \<lparr>gbc_capacity = 1, gbc_identifiers = c\<rparr>))"
    using assms(3) by (auto simp: gbc_set_capacity_def Let_def memory_ok_def recent_def lastn_def intro!: exI [of _ "[]"])
  moreover have "0 \<le> trunc (itsGnLifetimeLocTE (env_mib env))" using assms(4) by (simp add: trunc_def)
  moreover have "ss_inv (env_heap env) (\<lparr>ss_lifetime = lt, ss_heap = h, ss_map = Map.empty\<rparr> :: ('h, 'hd) LocationTable)" for lt using assms(1) by (simp add: ss_inv_def)
  moreover have "cbf_inv (env_cbf env) (new_cbf b cnt cap :: ('b, 'cnt, 's, gbc_action) CbfPacketBuffer)" for cap
    using assms(2) by (simp add: cbf_inv_def new_cbf_def cbf_left_def left_pairs_def packet_pairs_def)
  moreover have "cb_packets (new_cbf b cnt cap :: ('b, 'cnt, 's, gbc_action) CbfPacketBuffer) = []" for cap by (simp add: new_cbf_def)
  ultimately show ?thesis
    by (simp add: new_router_def Let_def) (simp add: router_inv_def table_ok_def queue_ok_def contention_ok_def buffer_inv_def new_buffer_def repetitions_ok_def)
qed

end

section \<open>Reachable states\<close>

text \<open>
  The states of a router: a new one, and what is reached by receiving any octets from any
  sender, by requests with a known upper protocol, by expired timers and by configuration, all
  at any moments.
\<close>

inductive router_reachable :: "('h, 'hd, 'b, 'cnt, 'c, 's) router_env \<Rightarrow> ('h, 'hd, 'b, 'cnt, 'c, 's) Router \<Rightarrow> bool" for env where
  start: "entries (env_heap env) h = Map.empty \<Longrightarrow> bm_left (env_timers (env_cbf env)) b = [] \<Longrightarrow> seq (env_index env) c = [] \<Longrightarrow>
    0 \<le> itsGnLifetimeLocTE (env_mib env) \<Longrightarrow> router_reachable env (new_router env now h b cnt c)"
| indicate: "router_reachable env r \<Longrightarrow> router_reachable env (indicate env now packet sender destination r)"
| request: "router_reachable env r \<Longrightarrow> req_upper_protocol (access_request req) \<noteq> Unknown \<Longrightarrow> router_reachable env (snd (request env now req pl r))"
| cbf_timer: "router_reachable env r \<Longrightarrow> router_reachable env (cbf_timer_expired env now r)"
| beacon_timer: "router_reachable env r \<Longrightarrow> router_reachable env (beacon_timer_expired env now r)"
| repetition: "router_reachable env r \<Longrightarrow> i < length (r_repetitions r) \<Longrightarrow> router_reachable env (repeater_trigger env now i r)"
| position: "router_reachable env r \<Longrightarrow> router_reachable env (update_position (env_geo env) (env_mib env) now pos r)"
| handler: "router_reachable env r \<Longrightarrow> router_reachable env (set_transport_handler proto ifc r)"
| address: "router_reachable env r \<Longrightarrow> router_reachable env (set_address addr r)"

lemma reachable_router_inv:
  assumes "router_environment env" "router_reachable env r"
  shows "router_inv env r"
  using assms(2)
proof (induction rule: router_reachable.induct)
  case (start h b c now cnt)
  then show ?case by (rule router_environment.inv_new_router [OF assms(1)])
qed (simp_all add: router_environment.inv_indicate [OF assms(1)] router_environment.inv_request [OF assms(1)] router_environment.inv_cbf_timer [OF assms(1)]
    router_environment.inv_beacon_timer [OF assms(1)] router_environment.inv_repeater_trigger [OF assms(1)] router_environment.inv_fields [OF assms(1)]
    update_position_def set_transport_handler_def set_address_def)

text \<open>
  C6: whatever octets a router receives from whomever, whatever is requested for a known upper
  protocol and whichever timer expires, the router throws no exception, and every packet it
  hands to the link layer is a GeoNetworking frame that carries a secured message exactly if its
  basic header says so, then with no payload beside it; it never has more hops left than its
  source allowed, and one that has fewer is not exhausted: nothing is forwarded at its last hop.
\<close>

theorem router_safe:
  assumes "router_environment env" "router_reachable env r"
  shows "(\<forall>msg. Exception msg \<notin> set (r_calls r)) \<and>
    (\<forall>req pdu pl. Request_Down req pdu pl \<in> set (r_calls r) \<longrightarrow>
      dcc_ether_type req = 0x8947 \<and> (secured pdu \<noteq> None \<longleftrightarrow> basic_next_header (basic pdu) = Basic_Secured) \<and> (secured pdu \<noteq> None \<longrightarrow> pl = []) \<and>
      hop_limit (basic pdu) \<le> maximum_hop_limit (common pdu) \<and>
      (hop_limit (basic pdu) < maximum_hop_limit (common pdu) \<longrightarrow> 1 \<le> hop_limit (basic pdu)))"
proof -
  have ok: "event_ok (env_mib env) ev" if "ev \<in> set (r_calls r)" for ev using that reachable_router_inv [OF assms] by (simp add: router_inv_def)
  have "Exception msg \<notin> set (r_calls r)" for msg using ok [of "Exception msg"] by auto
  moreover have "dcc_ether_type req = 0x8947 \<and> down_ok pdu pl" if "Request_Down req pdu pl \<in> set (r_calls r)" for req pdu pl using ok [OF that] by simp
  ultimately show ?thesis unfolding down_ok_def by blast
qed

text \<open>
  C7: strict security lets nothing unverified through. Everything a router has passed up came
  from a single-hop broadcast or from a GeoBroadcast with its area, never from a beacon, and
  where security is on and strict, each of these packets was verified successfully, whatever
  was received before; the payload has the length its header announced in 16 bits.
\<close>

theorem router_passes_verified:
  assumes "router_environment env" "router_reachable env r" "Indicate_Up ind pl \<in> set (r_calls r)"
  shows "(itsGnSecurity (env_mib env) \<and> itsGnSnDecapResultHandling (env_mib env) = Strict \<longrightarrow> security_report ind = Success) \<and>
    (transport_type ind = SHB \<or> transport_type ind = GBC \<and> (\<exists>area. ind_destination ind = To_Area area)) \<and> length pl < 65536"
proof -
  have "\<forall>ev\<in>set (r_calls r). event_ok (env_mib env) ev" using reachable_router_inv [OF assms(1,2)] by (simp add: router_inv_def)
  from bspec [OF this assms(3)] show ?thesis by (simp add: up_ok_def verified_def)
qed

text \<open>
  C10: the tables of a router stay consistent in every state it reaches. The forwarding buffers
  count their octets exactly and within their capacities, the contention buffer has one timer
  per packet, and the loops over the location table and the memory of broadcasts end.
\<close>

theorem router_consistent:
  assumes "router_environment env" "router_reachable env r"
  shows "buffer_inv (buffered_ops (env_size (env_cbf env))) (r_bc_forward_buffer r) \<and> buffer_inv (buffered_ops (env_size (env_cbf env))) (r_uc_forward_buffer r) \<and>
    length (cb_packets (r_cbf_buffer r)) = length (cbf_left (env_cbf env) (r_cbf_buffer r)) \<and>
    (\<exists>t. ss_drop_expired (env_heap env) now (r_location_table r) = Some t) \<and> (\<exists>m. gbc_remember (env_index env) x (r_gbc_memory r) = Some m)"
proof -
  have inv: "router_inv env r" using assms by (rule reachable_router_inv)
  have "length (left_pairs (cbf_left (env_cbf env) (r_cbf_buffer r))) = length (packet_pairs (cb_packets (r_cbf_buffer r)))"
    using inv unfolding router_inv_def contention_ok_def cbf_inv_def by (metis size_mset)
  moreover have "\<exists>t. ss_drop_expired (env_heap env) now (r_location_table r) = Some t"
    using inv mutable_heap.drop_expired_abs [OF router_environment.axioms(1) [OF assms(1)], of "r_location_table r" now] by (auto simp: router_inv_def table_ok_def)
  moreover have "\<exists>m. gbc_remember (env_index env) x (r_gbc_memory r) = Some m"
    using inv sequenced_index.gbc_remember_recent [OF router_environment.axioms(3) [OF assms(1)], of "r_gbc_memory r" _ x] by (fastforce simp: router_inv_def memory_ok_def)
  ultimately show ?thesis using inv by (simp add: router_inv_def queue_ok_def left_pairs_def packet_pairs_def)
qed

section \<open>An example network\<close>

text \<open>Routers in the flat world, with containers over lists and without security.\<close>

type_synonym list_router = "((nat \<times> time_point \<times> MacAddress) list, nat, (CbfPacketIdentifier \<times> Timer \<times> nat) list, CbfPacketIdentifier \<rightharpoonup> nat,
  (Address \<times> SequenceNumber) list, unit) Router"

type_synonym list_router_env = "((nat \<times> time_point \<times> MacAddress) list, nat, (CbfPacketIdentifier \<times> Timer \<times> nat) list, CbfPacketIdentifier \<rightharpoonup> nat,
  (Address \<times> SequenceNumber) list, unit) router_env"

definition list_router_env :: "MIB \<Rightarrow> list_router_env" where
  "list_router_env mib = \<lparr>env_mib = mib, env_heap = list_heap_ops, env_keys = sorted_keys, env_index = list_index_ops, env_push_back = list_push_back,
     env_cbf = list_env, env_reused = (\<lambda>_. False), env_geo = flat_geodesy, env_acos = (\<lambda>_. None), env_random_mac = (\<lambda>n. MacAddress 2 0 0 0 0 (of_nat n)),
     env_jitter = (\<lambda>_. 1 / 2), env_security_entity = True, env_parse_secured = (\<lambda>_. None),
     env_decap = (\<lambda>_. \<lparr>decap_report = Unsigned_Message, decap_its_aid = 0, decap_permissions = [], plaintext_payload = []\<rparr>),
     env_encap = (\<lambda>_ _. ()), env_dcc_field = (\<lambda>_. Dcc_Raw 0)\<rparr>"

interpretation list_router: router_environment "list_router_env mib" for mib
proof -
  have "mutable_heap (env_heap (list_router_env mib))" unfolding list_router_env_def by simp unfold_locales
  moreover have "key_order (env_heap (list_router_env mib)) (env_keys (list_router_env mib))" unfolding list_router_env_def by simp unfold_locales
  moreover have "sequenced_index (env_index (list_router_env mib))" unfolding list_router_env_def by simp unfold_locales
  moreover have "cbf_environment (env_cbf (list_router_env mib))" unfolding list_router_env_def by simp unfold_locales
  ultimately show "router_environment (list_router_env mib)"
    by (intro router_environment.intro router_environment_axioms.intro) (simp_all add: list_router_env_def)
qed

definition example_mib :: MIB where
  "example_mib = default_mib\<lparr>itsGnAreaForwardingAlgorithm := BF_SIMPLE\<rparr>"

definition example_gbc_packet :: "byte list" where
  "example_gbc_packet = serialize_pdu (\<lambda>_ :: unit. [])
     \<lparr>basic = \<lparr>version = 1, basic_next_header = Basic_Common, basic_reserved = 0, lifetime = 26, hop_limit = 3\<rparr>,
      common = \<lparr>common_next_header = 2, reserved1 = 0, header_type = HT_GeoBroadcast_Circle, traffic_class = 2, flags = 0x80, payload = 2, maximum_hop_limit = 10, reserved2 = 0\<rparr>,
      extended = Gbc_Header (zero_gbc\<lparr>sequence_number := 7, source_position := example_lpv, distance_a := 500\<rparr>), secured = None\<rparr> @ [0xca, 0xfe]"

definition example_router :: "list_router" where
  "example_router = indicate (list_router_env example_mib) 5000000 example_gbc_packet (MacAddress 2 0 0 0 0 9) cBroadcastMacAddress
     (set_transport_handler BTP_B True (new_router (list_router_env example_mib) 0 [] [] Map.empty []))"

lemma example_router_reachable: "router_reachable (list_router_env example_mib) example_router"
  unfolding example_router_def
  by (intro router_reachable.indicate router_reachable.handler router_reachable.start)
    (simp_all add: list_router_env_def list_heap_ops_def list_env_def list_bimap_def list_bimap_left_def list_index_ops_def example_mib_def default_mib_def)

text \<open>The hop limits and payloads of the packets that have been handed to the link layer.\<close>

fun sent_packet :: "'s router_event \<Rightarrow> (8 word \<times> byte list) option" where
  "sent_packet (Request_Down req pdu pl) = Some (hop_limit (basic pdu), pl)"
| "sent_packet _ = None"

lemma sent_packet_Some: "sent_packet ev = Some (h, pl) \<Longrightarrow> \<exists>req pdu. ev = Request_Down req pdu pl \<and> hop_limit (basic pdu) = h"
  by (cases ev) auto

lemma example_sent: "List.map_filter sent_packet (r_calls example_router) = [(2, [0xca, 0xfe])]"
  by code_simp

theorem router_safe_witness:
  "(\<exists>req pdu. Request_Down req pdu [0xca, 0xfe] \<in> set (r_calls example_router) \<and> hop_limit (basic pdu) = 2 \<and> secured pdu = None \<and>
      hop_limit (basic pdu) \<le> maximum_hop_limit (common pdu)) \<and> (\<forall>msg. Exception msg \<notin> set (r_calls example_router))"
proof -
  have "(2, [0xca, 0xfe]) \<in> set (List.map_filter sent_packet (r_calls example_router))" unfolding example_sent by simp
  then obtain ev where "ev \<in> set (r_calls example_router)" "sent_packet ev = Some (2, [0xca, 0xfe])" by (auto simp: List.map_filter_def)
  then obtain req pdu where sent: "Request_Down req pdu [0xca, 0xfe] \<in> set (r_calls example_router)" "hop_limit (basic pdu) = 2" by (blast dest: sent_packet_Some)
  note safe = router_safe [OF list_router.router_environment_axioms example_router_reachable]
  have "secured pdu \<noteq> None \<longrightarrow> [0xca, 0xfe :: byte] = []" "hop_limit (basic pdu) \<le> maximum_hop_limit (common pdu)" using safe sent(1) by blast+
  then have "secured pdu = None \<and> hop_limit (basic pdu) \<le> maximum_hop_limit (common pdu)" by (metis list.distinct(1))
  then show ?thesis using safe sent by blast
qed

text \<open>A router with strict security whose security entity verifies every message; a secured packet is two octets of envelope around the headers.\<close>

definition strict_mib :: MIB where
  "strict_mib = default_mib\<lparr>itsGnSecurity := True\<rparr>"

definition strict_env :: list_router_env where
  "strict_env = (list_router_env strict_mib)\<lparr>env_parse_secured := (\<lambda>ar. Some ((), length ar)),
     env_decap := (\<lambda>_. \<lparr>decap_report = Success, decap_its_aid = 36, decap_permissions = [], plaintext_payload =
       serialize_common \<lparr>common_next_header = 2, reserved1 = 0, header_type = HT_TSB_Single_Hop, traffic_class = 2, flags = 0x80, payload = 2, maximum_hop_limit = 1, reserved2 = 0\<rparr> @
       serialize_shb \<lparr>shb_source_position = example_lpv, dcc = Dcc_Raw 0\<rparr> @ [0xca, 0xfe]\<rparr>)\<rparr>"

definition strict_router :: list_router where
  "strict_router = indicate strict_env 5000000 [0x12, 0, 26, 1, 0xff, 0xff] (MacAddress 2 0 0 0 0 1) cBroadcastMacAddress
     (indicate strict_env 4000000 example_gbc_packet (MacAddress 2 0 0 0 0 9) cBroadcastMacAddress
       (set_transport_handler BTP_B True (new_router strict_env 0 [] [] Map.empty [])))"

lemma strict_environment: "router_environment strict_env"
proof -
  have "router_environment (list_router_env strict_mib)" by (rule list_router.router_environment_axioms)
  then show ?thesis unfolding router_environment_def router_environment_axioms_def by (simp add: strict_env_def)
qed

lemma strict_router_reachable: "router_reachable strict_env strict_router"
  unfolding strict_router_def
  by (intro router_reachable.indicate router_reachable.handler router_reachable.start)
    (simp_all add: strict_env_def list_router_env_def list_heap_ops_def list_env_def list_bimap_def list_bimap_left_def list_index_ops_def strict_mib_def default_mib_def)

fun passed_up :: "'s router_event \<Rightarrow> DataIndication option" where
  "passed_up (Indicate_Up ind pl) = Some ind"
| "passed_up _ = None"

lemma passed_up_Some: "passed_up ev = Some ind \<Longrightarrow> \<exists>pl. ev = Indicate_Up ind pl"
  by (cases ev) auto

lemma strict_passed: "length (List.map_filter passed_up (r_calls strict_router)) = 1"
  by code_simp

theorem router_passes_verified_witness:
  "\<exists>ind pl. Indicate_Up ind pl \<in> set (r_calls strict_router) \<and> security_report ind = Success \<and> length pl < 65536"
proof -
  obtain ind where "ind \<in> set (List.map_filter passed_up (r_calls strict_router))" using strict_passed by (cases "List.map_filter passed_up (r_calls strict_router)") auto
  then obtain ev where "ev \<in> set (r_calls strict_router)" "passed_up ev = Some ind" by (auto simp: List.map_filter_def)
  then obtain pl where up: "Indicate_Up ind pl \<in> set (r_calls strict_router)" by (blast dest: passed_up_Some)
  moreover have "itsGnSecurity (env_mib strict_env)" "itsGnSnDecapResultHandling (env_mib strict_env) = Strict"
    by (simp_all add: strict_env_def list_router_env_def strict_mib_def default_mib_def)
  ultimately show ?thesis using router_passes_verified [OF strict_environment strict_router_reachable up] by blast
qed

theorem router_consistent_witness:
  "length (cb_packets (r_cbf_buffer example_router)) = length (cbf_left list_env (r_cbf_buffer example_router)) \<and>
     (\<exists>t. ss_drop_expired list_heap_ops 9 (r_location_table example_router) = Some t)"
  using router_consistent [OF list_router.router_environment_axioms example_router_reachable, of 9 undefined]
  by (simp add: list_router_env_def)

end
