(* ===== verification/Gn_End_To_End.thy ===== *)
theory Gn_End_To_End
  imports Gn_Router_Laws
begin
unbundle bit_operations_syntax

text \<open>
  Two routers: what the upper layer of one station sends is what the upper layer of another
  receives, from the source operations over the octets on the link to the indication.
\<close>

section \<open>Receiving a packet that is not secured\<close>

definition refreshed :: "('h, 'hd, 'b, 'cnt, 'c, 's) router_env \<Rightarrow> time_point \<Rightarrow> ('h, 'hd, 'b, 'cnt, 'c, 's) step" where
  "refreshed env now r =
     flush_broadcast_forwarding_buffer env now (r\<lparr>r_location_table := the (ss_drop_expired (env_heap env) now (r_location_table r))\<rparr>)"

definition plain_indication :: "BasicHeader \<Rightarrow> CommonHeader \<Rightarrow> DataIndication" where
  "plain_indication b c = new_indication\<lparr>remaining_packet_lifetime := Some (lifetime b), remaining_hop_limit := Some (hop_limit b),
     security_report := Unsigned_Message, ind_traffic_class := traffic_class c, upper_protocol := indicated_protocol (ucast (common_next_header c))\<rparr>"

text \<open>Headers another router accepts in a packet with a payload.\<close>

definition acceptable :: "MIB \<Rightarrow> BasicHeader \<Rightarrow> CommonHeader \<Rightarrow> HeaderVariant \<Rightarrow> byte list \<Rightarrow> bool" where
  "acceptable mib b c e pl \<longleftrightarrow> common_ok c \<and> variant_ok (header_type c) e \<and> basic_next_header b = Basic_Common \<and>
     ucast (version b) = itsGnProtocolVersion mib \<and> (\<not> itsGnSecurity mib \<or> itsGnSnDecapResultHandling mib = Non_Strict) \<and>
     hop_limit b \<le> maximum_hop_limit c \<and> unat (payload c) = length pl"

lemma indicate_accepted:
  assumes "acceptable (env_mib env) b c e pl"
  shows "indicate env now (serialize_basic b @ serialize_common c @ serialize_variant e @ pl) sender destination r =
    indicate_extended env now \<lparr>ctx_basic = b, ctx_secured = None, ctx_parser = \<lparr>m_archive = serialize_variant e @ pl, m_read_bytes = 12\<rparr>, ctx_trims = True,
      ctx_link_layer = \<lparr>ll_sender = sender, ll_destination = destination\<rparr>, ctx_indication = plain_indication b c\<rparr> c (refreshed env now r)"
proof -
  let ?p1 = "\<lparr>m_archive = serialize_common c @ serialize_variant e @ pl, m_read_bytes = 4\<rparr>"
  let ?p2 = "\<lparr>m_archive = serialize_variant e @ pl, m_read_bytes = 12\<rparr>"
  have "parse_basic (new_parser (serialize_basic b @ serialize_common c @ serialize_variant e @ pl)) = (Some b, ?p1)"
    using assms by (simp add: parse_basic_def parse_with_iff [OF basic_wire] new_parser_def basic_ok_def acceptable_def Basic_Common_def)
  moreover have "parse_common ?p1 = (Some c, ?p2)"
    using assms by (simp add: parse_common_def parse_with_iff [OF common_wire] acceptable_def)
  ultimately show ?thesis using assms
    by (auto simp: acceptable_def indicate_def indicate_common_def refreshed_def plain_indication_def Let_def Basic_Common_def Basic_Secured_def)
qed

lemma extended_accepted:
  assumes "acceptable (env_mib env) b c e pl"
  shows "parse_extended (header_type c) \<lparr>m_archive = serialize_variant e @ pl, m_read_bytes = 12\<rparr> =
    (Some e, \<lparr>m_archive = pl, m_read_bytes = 12 + variant_length e\<rparr>)"
  using assms by (simp add: parse_extended_iff acceptable_def)

lemma indicate_shb:
  assumes "acceptable (env_mib env) b c (Shb_Header shb) pl"
  shows "indicate env now (serialize_basic b @ serialize_common c @ serialize_variant (Shb_Header shb) @ pl) sender destination r =
    pass_up ((plain_indication b c)\<lparr>transport_type := SHB, ind_source_position := ShortPositionVector_of (shb_source_position shb)\<rparr>) pl
      (snd (process_shb_header env now shb (40 + length pl) \<lparr>ll_sender = sender, ll_destination = destination\<rparr> (refreshed env now r)))"
proof -
  have "unat (payload c) = length pl" using assms by (simp add: acceptable_def)
  then show ?thesis unfolding indicate_accepted [OF assms] indicate_extended_def
    by (simp add: extended_accepted [OF assms, unfolded serialize_variant.simps] ctx_finish_def Let_def process_shb_header_def)
qed

section \<open>What forwarding leaves alone\<close>

definition fixed_parts :: "('h, 'hd, 'b, 'cnt, 'c, 's) Router \<Rightarrow> (UpperProtocol \<Rightarrow> bool) \<times> LongPositionVector" where
  "fixed_parts r = (r_transport_ifcs r, r_local_position_vector r)"

lemma fixed_update [simp]:
  "fixed_parts (r\<lparr>r_location_table := t\<rparr>) = fixed_parts r" "fixed_parts (r\<lparr>r_bc_forward_buffer := b\<rparr>) = fixed_parts r"
  "fixed_parts (r\<lparr>r_uc_forward_buffer := b\<rparr>) = fixed_parts r" "fixed_parts (r\<lparr>r_cbf_buffer := s\<rparr>) = fixed_parts r"
  "fixed_parts (r\<lparr>r_random_gen := g\<rparr>) = fixed_parts r" "fixed_parts (r\<lparr>r_beacon_timer := tp\<rparr>) = fixed_parts r"
  "fixed_parts (r\<lparr>r_gbc_memory := m\<rparr>) = fixed_parts r" "fixed_parts (r\<lparr>r_calls := evs\<rparr>) = fixed_parts r"
  by (simp_all add: fixed_parts_def)

lemma forwarding_fixed [simp]:
  "fixed_parts (emit ev r) = fixed_parts r"
  "fixed_parts (pass_down_request req pdu' pl r) = fixed_parts r"
  "fixed_parts (pass_down mac pdu' pl r) = fixed_parts r"
  "fixed_parts (transmit_gbc env fn mac pdu pl r) = fixed_parts r"
  "fixed_parts (push_bc_buffer env now d r) = fixed_parts r"
  "fixed_parts (snd (cbf_buffer_remove env now x r)) = fixed_parts r"
  "fixed_parts (cbf_buffer_add env now pdu pl fn mac timeout r) = fixed_parts r"
  "fixed_parts (nh_process env nh r) = fixed_parts r"
  by (auto simp: emit_def pass_down_request_def pass_down_def transmit_gbc_def push_bc_buffer_def cbf_buffer_remove_def cbf_buffer_add_def
      nh_process_def Let_def split: transmit_fn.split option.split NextHop.split prod.split)

lemma greedy_fixed [simp]: "fixed_parts (snd (greedy_forwarding env now pdu pl fn r)) = fixed_parts r"
  by (simp add: greedy_forwarding_def Let_def split_beta)

lemma algorithms_fixed [simp]:
  "fixed_parts (snd (non_area_contention_based_forwarding env now pdu pl fn sender r)) = fixed_parts r"
  "fixed_parts (snd (area_contention_based_forwarding env now pdu pl fn sender r)) = fixed_parts r"
  "fixed_parts (snd (area_advanced_forwarding env now pdu pl fn ll r)) = fixed_parts r"
  by (simp_all add: non_area_contention_based_forwarding_def area_contention_based_forwarding_def area_advanced_forwarding_def Let_def split_beta split: option.split)

lemma selection_fixed [simp]: "fixed_parts (snd (forwarding_algorithm_selection env now pdu pl fn ll r)) = fixed_parts r"
  by (simp add: forwarding_algorithm_selection_def split: option.split BroadcastForwarding.split UnicastForwarding.split)

lemma process_gbc_fixed [simp]: "fixed_parts (process_gbc env now p r) = fixed_parts r"
  by (simp add: process_gbc_def pending_process_def or_else_def process_gbc_action_def split_beta split: option.split gbc_action.split)

lemma process_shb_fixed [simp]: "fixed_parts (process_shb env now p r) = fixed_parts r"
  by (simp add: process_shb_def pending_process_def or_else_def transmit_shb_def reset_beacon_timer_def reset_beacon_timer_at_def Let_def split_beta split: option.split)

lemma flush_fixed [simp]:
  "fixed_parts (flush_broadcast_forwarding_buffer env now r) = fixed_parts r"
  "fixed_parts (flush_unicast_forwarding_buffer env now r) = fixed_parts r"
proof -
  have "fixed_parts (process_buffered env now d r) = fixed_parts r" for d r by (cases d) simp_all
  then have "fixed_parts (fold (process_buffered env now) ds r) = fixed_parts r" for ds r by (induction ds arbitrary: r) simp_all
  then show "fixed_parts (flush_broadcast_forwarding_buffer env now r) = fixed_parts r"
    "fixed_parts (flush_unicast_forwarding_buffer env now r) = fixed_parts r"
    by (simp_all add: flush_broadcast_forwarding_buffer_def flush_unicast_forwarding_buffer_def split_beta)
qed

lemma refreshed_fixed [simp]: "fixed_parts (refreshed env now r) = fixed_parts r"
  by (simp add: refreshed_def)

lemma refreshed_keeps [simp]:
  "r_transport_ifcs (refreshed env now r) = r_transport_ifcs r" "r_local_position_vector (refreshed env now r) = r_local_position_vector r"
  using refreshed_fixed [of env now r] unfolding fixed_parts_def by simp_all

lemma receiving_keeps_handlers [simp]:
  "r_transport_ifcs (detect_duplicate_address env source sender r) = r_transport_ifcs r"
  "r_transport_ifcs (update_source env now lpv n f r) = r_transport_ifcs r"
  "r_transport_ifcs (snd (process_shb_header env now shb n ll r)) = r_transport_ifcs r"
  by (simp_all add: detect_duplicate_address_def update_source_def process_shb_header_def Let_def)

section \<open>A single hop\<close>

context router_environment
begin

lemma inv_refreshed: "router_inv env r \<Longrightarrow> router_inv env (refreshed env now r)"
  unfolding refreshed_def by (intro inv_flush_broadcast inv_table) (auto simp: router_inv_def intro!: table_drop_expired)

lemma updated_entry:
  assumes "table_ok env t"
  shows "\<exists>e. loc_get_entry (env_heap env) now (m_mid (gn_addr lpv)) (ss_modify (m_mid (gn_addr lpv)) f (loc_update (env_heap env) now lpv t)) = Some (f e)"
proof -
  let ?k = "m_mid (gn_addr lpv)" and ?t = "loc_update (env_heap env) now lpv t"
  obtain x e where x: "ss_inv (env_heap env) ?t" "now \<le> x" "ss_abs (env_heap env) ?t ?k = Some (x, e)"
    using loc_update_spec [OF hp.mutable_heap_axioms, of t now lpv] assms by (auto simp: table_ok_def)
  then have "ss_abs (env_heap env) (ss_modify ?k f ?t) ?k = Some (x, f e)" using hp.modify_abs [of ?t ?k f] by simp
  then show ?thesis using x(2) by (auto simp: loc_get_entry_def hp.ss_get_value_ptr_abs visible_def)
qed

text \<open>The receiver of a single-hop packet has its sender in the location table, as a neighbour.\<close>

lemma sender_is_neighbour:
  assumes "router_inv env r" "now < time_point_max"
  shows "\<exists>e. loc_get_entry (env_heap env) now (m_mid (gn_addr (shb_source_position shb))) (r_location_table (snd (process_shb_header env now shb n ll r))) = Some e \<and>
    is_neighbour now e"
proof -
  let ?r = "detect_duplicate_address env (gn_addr (shb_source_position shb)) (ll_sender ll) r"
  let ?f = "update_loctex env now shb \<circ> set_neighbour_expiry now True (vanetzaNeighbourFlagExpiry (env_mib env)) \<circ>
    update_pdr now n (itsGnMaxPacketDataRateEmaBeta (env_mib env))"
  have t: "r_location_table (snd (process_shb_header env now shb n ll r)) =
      ss_modify (m_mid (gn_addr (shb_source_position shb))) ?f (loc_update (env_heap env) now (shb_source_position shb) (r_location_table ?r))"
    by (simp add: process_shb_header_def update_source_def Let_def comp_assoc)
  have "router_inv env ?r" using assms(1) by (rule inv_duplicate_address)
  then have tab: "table_ok env (r_location_table ?r)" by (simp add: router_inv_def)
  obtain e where e: "loc_get_entry (env_heap env) now (m_mid (gn_addr (shb_source_position shb))) (r_location_table (snd (process_shb_header env now shb n ll r))) = Some (?f e)"
    using updated_entry [OF tab] unfolding t by blast
  have "is_neighbour now (?f e)"
    using assms(2) by (auto simp: is_neighbour_def update_loctex_def set_neighbour_expiry_def set_neighbour_def split: option.split)
  then show ?thesis using e by blast
qed

end

lemma request_shb_sends:
  assumes "fst (request_shb env now req (Some pl) r) = Accepted" "CommonHeader_of_request req (env_mib env) = Some c" "\<not> itsGnSecurity (env_mib env)"
    "store_carry_forward (req_traffic_class req) \<longrightarrow> loc_has_neighbours (env_keys env) (env_heap env) now (r_location_table r)"
  shows "\<exists>dreq pdu. r_calls (snd (request_shb env now req (Some pl) r)) = r_calls r @ [Request_Down dreq pdu pl] \<and>
    dcc_destination dreq = cBroadcastMacAddress \<and> dcc_source dreq = m_mid (gn_addr (r_local_position_vector r)) \<and>
    pdu = \<lparr>basic = (BasicHeader_of_request req (env_mib env))\<lparr>hop_limit := 1\<rparr>,
      common = c\<lparr>header_type := HT_TSB_Single_Hop, maximum_hop_limit := 1, payload := of_nat (length pl)\<rparr>,
      extended = Shb_Header \<lparr>shb_source_position = r_local_position_vector r, dcc = env_dcc_field env now\<rparr>, secured = None\<rparr>"
proof -
  let ?r = "repeater_add now (Shb_Request req) pl r"
  have r: "r_location_table ?r = r_location_table r" "r_local_position_vector ?r = r_local_position_vector r" "r_calls ?r = r_calls r"
    by (simp_all add: repeater_add_def split: option.split)
  have "snd (request_shb env now req (Some pl) r) = process_shb env now
      \<lparr>pp_pdu = Some (set_payload pl (the (create_shb_pdu env now req ?r))), pp_payload = Some pl, pp_function = ControlInfo_of req\<rparr> ?r"
    using assms r by (auto simp: request_shb_def Let_def create_shb_pdu_def split: if_splits)
  then show ?thesis using assms(2,3)
    by (simp add: process_shb_def pending_process_def or_else_def create_shb_pdu_def transmit_shb_def pass_down_def pass_down_request_def emit_def
        reset_beacon_timer_def reset_beacon_timer_at_def as_pdu_def set_payload_def BasicHeader_of_request_def Basic_Common_def Basic_Secured_def Let_def r)
qed

text \<open>The DCC field is sent as a number and received as such.\<close>

definition raw_dcc :: "ShbHeader \<Rightarrow> ShbHeader" where
  "raw_dcc shb = shb\<lparr>dcc := Dcc_Raw (dcc_raw (dcc shb))\<rparr>"

lemma serialize_raw_dcc: "serialize_shb (raw_dcc shb) = serialize_shb shb" "lpv_ok (shb_source_position shb) \<Longrightarrow> shb_ok (raw_dcc shb)"
  by (simp_all add: raw_dcc_def serialize_shb_def serialize_dcc_def shb_ok_def dcc_ok_def)

lemma requested_protocol:
  "CommonHeader_of_request req mib = Some c \<Longrightarrow> common_ok c \<and> indicated_protocol (ucast (common_next_header c)) = req_upper_protocol req \<and>
    traffic_class c = req_traffic_class req"
  by (cases "req_upper_protocol req") (auto simp: CommonHeader_of_request_def common_ok_def indicated_protocol_def)

lemma version_roundtrip: "(v :: 32 word) < 16 \<Longrightarrow> ucast (ucast v :: 4 word) = v"
  by (simp add: word_unat_eq_iff unsigned_ucast_eq unsigned_take_bit_eq word_less_nat_alt take_bit_nat_eq_self)

text \<open>
  What one station's upper layer sends over a single hop reaches the other's. When a
  request for single-hop broadcast is accepted by a router without security that need not wait
  for a neighbour, exactly one packet goes down to the link layer, to the broadcast address.
  Any router of the same protocol version that receives its octets, in whatever state it is,
  ends its processing with passing up the same payload to the requested upper protocol, with
  the sender's position and traffic class, and then has the sender as a neighbour.
\<close>

lemma shb_delivery:
  fixes ra :: "('h, 'hd, 'b, 'cnt, 'c, 's) Router" and rb :: "('h1, 'hd1, 'b1, 'cnt1, 'c1, 's1) Router"
  assumes "router_environment env_b" "router_reachable env_b rb" "\<not> itsGnSecurity (env_mib env_a)" "\<not> itsGnSecurity (env_mib env_b)"
    "itsGnProtocolVersion (env_mib env_a) = itsGnProtocolVersion (env_mib env_b)" "itsGnProtocolVersion (env_mib env_b) < 16"
    "lpv_ok (r_local_position_vector ra)" "fst (request_shb env_a now req (Some pl) ra) = Accepted" "length pl < 65536"
    "req_upper_protocol req \<noteq> Unknown" "r_transport_ifcs rb (req_upper_protocol req)"
    "store_carry_forward (req_traffic_class req) \<longrightarrow> loc_has_neighbours (env_keys env_a) (env_heap env_a) now (r_location_table ra)"
    "now' < time_point_max"
  shows "\<exists>dreq pdu. r_calls (snd (request_shb env_a now req (Some pl) ra)) = r_calls ra @ [Request_Down dreq pdu pl] \<and>
    dcc_destination dreq = cBroadcastMacAddress \<and>
    (let rb' = indicate env_b now' (serialize_pdu serialize_secured pdu @ pl) (dcc_source dreq) (dcc_destination dreq) rb
     in (\<exists>ind. last (r_calls rb') = Indicate_Up ind pl \<and> upper_protocol ind = req_upper_protocol req \<and> transport_type ind = SHB \<and>
          ind_source_position ind = ShortPositionVector_of (r_local_position_vector ra) \<and> ind_traffic_class ind = req_traffic_class req) \<and>
        (\<exists>e. loc_get_entry (env_heap env_b) now' (m_mid (gn_addr (r_local_position_vector ra))) (r_location_table rb') = Some e \<and> is_neighbour now' e))"
proof -
  obtain c where c: "CommonHeader_of_request req (env_mib env_a) = Some c"
    using assms(10) by (cases "req_upper_protocol req") (auto simp: CommonHeader_of_request_def)
  let ?b = "(BasicHeader_of_request req (env_mib env_a))\<lparr>hop_limit := 1\<rparr>"
  let ?c = "c\<lparr>header_type := HT_TSB_Single_Hop, maximum_hop_limit := 1, payload := of_nat (length pl)\<rparr>"
  let ?shb = "\<lparr>shb_source_position = r_local_position_vector ra, dcc = env_dcc_field env_a now\<rparr>"
  obtain dreq pdu where sent: "r_calls (snd (request_shb env_a now req (Some pl) ra)) = r_calls ra @ [Request_Down dreq pdu pl]"
    "dcc_destination dreq = cBroadcastMacAddress" and pdu: "pdu = \<lparr>basic = ?b, common = ?c, extended = Shb_Header ?shb, secured = None\<rparr>"
    using request_shb_sends [OF assms(8) c assms(3,12)] by blast
  have octets: "serialize_pdu serialize_secured pdu @ pl = serialize_basic ?b @ serialize_common ?c @ serialize_variant (Shb_Header (raw_dcc ?shb)) @ pl"
    by (simp add: pdu serialize_pdu_def serialize_raw_dcc(1))
  have "unat (of_nat (length pl) :: 16 word) = length pl" using assms(9) by (simp add: unat_of_nat)
  then have ok: "acceptable (env_mib env_b) ?b ?c (Shb_Header (raw_dcc ?shb)) pl"
    using assms(3-7) requested_protocol [OF c] version_roundtrip serialize_raw_dcc(2) [of ?shb]
    by (auto simp: acceptable_def common_ok_def BasicHeader_of_request_def BasicHeader_of_mib_def)
  have inv: "router_inv env_b (refreshed env_b now' rb)"
    using router_environment.inv_refreshed [OF assms(1) reachable_router_inv [OF assms(1,2)]] .
  let ?ll = "\<lparr>ll_sender = dcc_source dreq, ll_destination = dcc_destination dreq\<rparr>"
  let ?rb = "indicate env_b now' (serialize_pdu serialize_secured pdu @ pl) (dcc_source dreq) (dcc_destination dreq) rb"
  let ?ind = "(plain_indication ?b ?c)\<lparr>transport_type := SHB, ind_source_position := ShortPositionVector_of (r_local_position_vector ra)\<rparr>"
  have rb': "?rb = emit (Indicate_Up ?ind pl) (snd (process_shb_header env_b now' (raw_dcc ?shb) (40 + length pl) ?ll (refreshed env_b now' rb)))"
    using assms(11) requested_protocol [OF c] unfolding octets indicate_shb [OF ok] by (simp add: pass_up_def plain_indication_def raw_dcc_def)
  have "\<exists>e. loc_get_entry (env_heap env_b) now' (m_mid (gn_addr (r_local_position_vector ra))) (r_location_table ?rb) = Some e \<and> is_neighbour now' e"
    using router_environment.sender_is_neighbour [OF assms(1) inv assms(13), of "raw_dcc ?shb"] unfolding rb' by (simp add: emit_def raw_dcc_def)
  moreover have "last (r_calls ?rb) = Indicate_Up ?ind pl" unfolding rb' by (simp add: emit_def)
  ultimately show ?thesis using sent requested_protocol [OF c] unfolding Let_def
    by (intro exI [of _ dreq] exI [of _ pdu]) (auto simp: plain_indication_def intro!: exI [of _ ?ind])
qed

lemma example_sender_accepts:
  "fst (request_shb (list_router_env example_mib) 0 (new_request example_mib 36\<lparr>req_upper_protocol := BTP_B\<rparr>) (Some [1, 2, 3])
     (new_router (list_router_env example_mib) 0 [] [] Map.empty [])) = Accepted"
  by code_simp

lemma example_router_handler: "r_transport_ifcs example_router BTP_B"
  by code_simp

section \<open>GeoBroadcast within an area\<close>

text \<open>A source inside the destination area broadcasts at once, whichever algorithm is configured.\<close>

lemma selection_inside_source:
  assumes "gbc_destination (env_geo env) (header_type (pdu_common pdu)) (pdu_extended pdu) = Some area"
    "inside_or_at_border (env_geo env) area (lpv_position (env_geo env) (r_local_position_vector r))"
  shows "forwarding_algorithm_selection env now pdu pl fn None r = (Valid pdu pl fn cBroadcastMacAddress, r)"
  using assms by (simp add: forwarding_algorithm_selection_def area_contention_based_forwarding_def area_advanced_forwarding_def split: BroadcastForwarding.split)

definition source_gbc :: "geodesy \<Rightarrow> Area \<Rightarrow> ('h, 'hd, 'b, 'cnt, 'c, 's) Router \<Rightarrow> GbcGacHeader" where
  "source_gbc geo area r = gbc_set_destination geo area (zero_gbc\<lparr>sequence_number := r_local_sequence_number r, source_position := r_local_position_vector r\<rparr>)"

lemma source_gbc_simps: "source_position (source_gbc geo area r) = r_local_position_vector r" "sequence_number (source_gbc geo area r) = r_local_sequence_number r"
  by (cases "area_shape area"; simp add: source_gbc_def gbc_set_destination_def gbc_set_position_def)+

lemma source_gbc_destination: "gbc_destination geo_b (gbc_header_type area) (source_gbc geo_a area r) = Some (received_area geo_a geo_b area)"
  by (simp add: source_gbc_def destination_received)

lemma request_gbc_sends:
  assumes "fst (request_gbc env now req area (Some pl) r) = Accepted" "CommonHeader_of_request req (env_mib env) = Some c" "\<not> itsGnSecurity (env_mib env)"
    "store_carry_forward (req_traffic_class req) \<longrightarrow> loc_has_neighbours (env_keys env) (env_heap env) now (r_location_table r)"
    "inside_or_at_border (env_geo env) (received_area (env_geo env) (env_geo env) area) (lpv_position (env_geo env) (r_local_position_vector r))"
  shows "\<exists>dreq pdu. r_calls (snd (request_gbc env now req area (Some pl) r)) = r_calls r @ [Request_Down dreq pdu pl] \<and>
    dcc_destination dreq = cBroadcastMacAddress \<and>
    pdu = \<lparr>basic = BasicHeader_of_request req (env_mib env), common = c\<lparr>header_type := gbc_header_type area, payload := of_nat (length pl)\<rparr>,
      extended = Gbc_Header (source_gbc (env_geo env) area r), secured = None\<rparr>"
proof -
  let ?r = "repeater_add now (Gbc_Request req area) pl r"
  have r: "r_location_table ?r = r_location_table r" "r_local_position_vector ?r = r_local_position_vector r" "r_calls ?r = r_calls r"
    "r_local_sequence_number ?r = r_local_sequence_number r"
    by (simp_all add: repeater_add_def split: option.split)
  obtain sn where sn: "sequence_post_increment (r_local_sequence_number r) = (r_local_sequence_number r, sn)" by (simp add: sequence_post_increment_def)
  let ?r2 = "?r\<lparr>r_local_sequence_number := sn\<rparr>"
  let ?pdu = "\<lparr>pdu_basic = BasicHeader_of_request req (env_mib env), pdu_common = c\<lparr>header_type := gbc_header_type area, payload := of_nat (length pl)\<rparr>,
    pdu_extended = source_gbc (env_geo env) area r, pdu_secured = None\<rparr>"
  have "create_gbc_pdu env req area ?r = Some (?pdu\<lparr>pdu_common := c\<lparr>header_type := gbc_header_type area\<rparr>\<rparr>, ?r2)"
    using assms(2) sn by (simp add: create_gbc_pdu_def r source_gbc_def)
  then have eq: "snd (request_gbc env now req area (Some pl) r) = process_gbc env now
      \<lparr>pp_pdu = Some ?pdu, pp_payload = Some pl, pp_function = Forward_Selection None (Source_Transmit (ControlInfo_of req))\<rparr> ?r2"
    using assms(1,4) r by (auto simp: request_gbc_def Let_def set_payload_def split: if_splits)
  have "forwarding_algorithm_selection env now ?pdu pl fn None ?r2 = (Valid ?pdu pl fn cBroadcastMacAddress, ?r2)" for fn
    using assms(5) by (intro selection_inside_source [of _ _ "received_area (env_geo env) (env_geo env) area"]) (simp_all add: r source_gbc_destination)
  then show ?thesis unfolding eq using assms(3)
    by (simp add: process_gbc_def pending_process_def or_else_def process_gbc_action_def nh_process_def transmit_gbc_def pass_down_def pass_down_request_def emit_def
        as_pdu_def BasicHeader_of_request_def Basic_Common_def Basic_Secured_def Let_def r source_gbc_simps)
qed

lemma indicate_gbc:
  assumes "acceptable (env_mib env) b c (Gbc_Header gbc) pl" "gbc_destination (env_geo env) (header_type c) gbc = Some area"
  shows "indicate env now (serialize_basic b @ serialize_common c @ serialize_variant (Gbc_Header gbc) @ pl) sender destination r =
    (case process_gbc_header env now \<lparr>pdu_basic = b, pdu_common = c, pdu_extended = gbc, pdu_secured = None\<rparr> pl (56 + length pl)
        \<lparr>ll_sender = sender, ll_destination = destination\<rparr> (refreshed env now r) of
       (up, r') \<Rightarrow> if up then pass_up ((plain_indication b c)\<lparr>transport_type := GBC, ind_source_position := ShortPositionVector_of (source_position gbc),
         ind_destination := To_Area area\<rparr>) pl r' else r')"
proof -
  have "unat (payload c) = length pl" using assms(1) by (simp add: acceptable_def)
  then show ?thesis using assms(2) unfolding indicate_accepted [OF assms(1)] indicate_extended_def
    by (simp add: extended_accepted [OF assms(1), unfolded serialize_variant.simps] ctx_finish_def ctx_pdu_def Let_def split: prod.split)
qed

lemma forward_fixed [simp]: "r_transport_ifcs (forward_gbc env now pdu pl ll r) = r_transport_ifcs r"
proof -
  have "fixed_parts (forward_gbc env now pdu pl ll r) = fixed_parts r" by (simp add: forward_gbc_def Let_def)
  then show ?thesis by (simp add: fixed_parts_def)
qed

lemma flush_unicast_handlers [simp]: "r_transport_ifcs (flush_unicast_forwarding_buffer env now r) = r_transport_ifcs r"
  using flush_fixed(2) [of env now r] by (simp add: fixed_parts_def)

text \<open>Inside the area, without the duplicate list of simple forwarding and the memory of broadcasts, the packet is passed up.\<close>

lemma process_gbc_delivers:
  assumes "gbc_destination (env_geo env) (header_type (pdu_common pdu)) (pdu_extended pdu) = Some area"
    "inside_or_at_border (env_geo env) area (lpv_position (env_geo env) (r_local_position_vector r))"
    "itsGnAreaForwardingAlgorithm (env_mib env) \<in> {BF_CBF, BF_Advanced}" "vanetzaGbcMemoryCapacity (env_mib env) = 0"
  shows "\<exists>r'. process_gbc_header env now pdu pl n ll r = (True, r') \<and> r_transport_ifcs r' = r_transport_ifcs r"
proof -
  have "\<not> (itsGnAreaForwardingAlgorithm (env_mib env) = BF_Unspecified \<or> itsGnAreaForwardingAlgorithm (env_mib env) = BF_SIMPLE)" using assms(3) by auto
  then show ?thesis using assms(1,2,4)
    by (simp add: process_gbc_header_def decide_pass_up_def Let_def emit_def split: if_split)
qed

text \<open>
  C9: a GeoBroadcast reaches the stations in its area. Two routers without security have the same
  protocol version. One of them accepts a request that need not wait for a neighbour, and is itself
  inside the area that the header of the packet describes. Then exactly one packet goes down, to
  the broadcast address. When the other router, in any state, receives its octets, is inside the
  area it reads from them, forwards within areas by contention or the advanced algorithm, has the
  memory of broadcasts switched off and has a handler for the requested upper protocol, it ends
  its processing with passing up the payload to this protocol, with that area and the source's
  position; whether it then also forwards the packet does not matter. How far the area that is
  read can be from the requested one is the subject of the theorem on destinations in \<open>Gn_Areas\<close>.
\<close>

theorem gbc_end_to_end:
  fixes ra :: "('h, 'hd, 'b, 'cnt, 'c, 's) Router" and rb :: "('h1, 'hd1, 'b1, 'cnt1, 'c1, 's1) Router"
  assumes "\<not> itsGnSecurity (env_mib env_a)" "\<not> itsGnSecurity (env_mib env_b)"
    "itsGnProtocolVersion (env_mib env_a) = itsGnProtocolVersion (env_mib env_b)" "itsGnProtocolVersion (env_mib env_b) < 16"
    "lpv_ok (r_local_position_vector ra)" "fst (request_gbc env_a now req area (Some pl) ra) = Accepted" "length pl < 65536"
    "req_upper_protocol req \<noteq> Unknown" "r_transport_ifcs rb (req_upper_protocol req)"
    "store_carry_forward (req_traffic_class req) \<longrightarrow> loc_has_neighbours (env_keys env_a) (env_heap env_a) now (r_location_table ra)"
    "inside_or_at_border (env_geo env_a) (received_area (env_geo env_a) (env_geo env_a) area) (lpv_position (env_geo env_a) (r_local_position_vector ra))"
    "inside_or_at_border (env_geo env_b) (received_area (env_geo env_a) (env_geo env_b) area) (lpv_position (env_geo env_b) (r_local_position_vector rb))"
    "itsGnAreaForwardingAlgorithm (env_mib env_b) \<in> {BF_CBF, BF_Advanced}" "vanetzaGbcMemoryCapacity (env_mib env_b) = 0"
  shows "\<exists>dreq pdu. r_calls (snd (request_gbc env_a now req area (Some pl) ra)) = r_calls ra @ [Request_Down dreq pdu pl] \<and>
    dcc_destination dreq = cBroadcastMacAddress \<and>
    (\<exists>ind. last (r_calls (indicate env_b now' (serialize_pdu serialize_secured pdu @ pl) (dcc_source dreq) (dcc_destination dreq) rb)) = Indicate_Up ind pl \<and>
       upper_protocol ind = req_upper_protocol req \<and> transport_type ind = GBC \<and> ind_destination ind = To_Area (received_area (env_geo env_a) (env_geo env_b) area) \<and>
       ind_source_position ind = ShortPositionVector_of (r_local_position_vector ra))"
proof -
  obtain c where c: "CommonHeader_of_request req (env_mib env_a) = Some c" "maximum_hop_limit c = ucast (req_max_hop_limit req)"
    using assms(8) by (cases "req_upper_protocol req") (auto simp: CommonHeader_of_request_def)
  let ?b = "BasicHeader_of_request req (env_mib env_a)" and ?c = "c\<lparr>header_type := gbc_header_type area, payload := of_nat (length pl)\<rparr>"
  let ?gbc = "source_gbc (env_geo env_a) area ra"
  obtain dreq pdu where sent: "r_calls (snd (request_gbc env_a now req area (Some pl) ra)) = r_calls ra @ [Request_Down dreq pdu pl]"
    "dcc_destination dreq = cBroadcastMacAddress" and pdu: "pdu = \<lparr>basic = ?b, common = ?c, extended = Gbc_Header ?gbc, secured = None\<rparr>"
    using request_gbc_sends [OF assms(6) c(1) assms(1,10,11)] by blast
  have octets: "serialize_pdu serialize_secured pdu @ pl = serialize_basic ?b @ serialize_common ?c @ serialize_variant (Gbc_Header ?gbc) @ pl"
    by (simp add: pdu serialize_pdu_def)
  let ?area = "received_area (env_geo env_a) (env_geo env_b) area"
  have dest: "gbc_destination (env_geo env_b) (gbc_header_type area) ?gbc = Some ?area" by (rule source_gbc_destination)
  have "unat (of_nat (length pl) :: 16 word) = length pl" using assms(7) by (simp add: unat_of_nat)
  moreover have "variant_ok (gbc_header_type area) (Gbc_Header ?gbc)"
    using assms(5) by (cases "area_shape area") (simp_all add: gbc_header_type_def gbc_ok_def source_gbc_simps)
  ultimately have ok: "acceptable (env_mib env_b) ?b ?c (Gbc_Header ?gbc) pl"
    using assms(1-4) c(2) requested_protocol [OF c(1)] version_roundtrip
    by (auto simp: acceptable_def common_ok_def BasicHeader_of_request_def BasicHeader_of_mib_def)
  let ?ll = "\<lparr>ll_sender = dcc_source dreq, ll_destination = dcc_destination dreq\<rparr>"
  obtain r' where r': "process_gbc_header env_b now' \<lparr>pdu_basic = ?b, pdu_common = ?c, pdu_extended = ?gbc, pdu_secured = None\<rparr> pl (56 + length pl) ?ll
      (refreshed env_b now' rb) = (True, r')" "r_transport_ifcs r' = r_transport_ifcs rb"
    using process_gbc_delivers [of env_b "\<lparr>pdu_basic = ?b, pdu_common = ?c, pdu_extended = ?gbc, pdu_secured = None\<rparr>" ?area "refreshed env_b now' rb" now' pl "56 + length pl" ?ll] dest assms(12-14)
    by auto
  let ?ind = "(plain_indication ?b ?c)\<lparr>transport_type := GBC, ind_source_position := ShortPositionVector_of (r_local_position_vector ra), ind_destination := To_Area ?area\<rparr>"
  have "indicate env_b now' (serialize_pdu serialize_secured pdu @ pl) (dcc_source dreq) (dcc_destination dreq) rb = emit (Indicate_Up ?ind pl) r'"
    using indicate_gbc [OF ok] dest r' assms(9) requested_protocol [OF c(1)] unfolding octets by (simp add: pass_up_def plain_indication_def source_gbc_simps)
  then show ?thesis using sent requested_protocol [OF c(1)]
    by (intro exI [of _ dreq] exI [of _ pdu]) (auto simp: emit_def plain_indication_def intro!: exI [of _ ?ind])
qed

definition example_circle :: Area where
  "example_circle = \<lparr>area_shape = Circle 500, area_position = \<lparr>geo_latitude = 0, geo_longitude = 0\<rparr>, area_angle = 0\<rparr>"

definition example_station :: list_router where
  "example_station = set_transport_handler BTP_B True (new_router (list_router_env default_mib) 0 [] [] Map.empty [])"

lemma example_circle_received:
  "received_area (env_geo (list_router_env default_mib)) (env_geo (list_router_env default_mib)) example_circle = example_circle"
proof -
  have "env_geo (list_router_env default_mib) = flat_geodesy" by (simp add: list_router_env_def)
  moreover have "received_area flat_geodesy flat_geodesy example_circle = example_circle" by code_simp
  ultimately show ?thesis by simp
qed

lemma example_station_facts:
  "inside_or_at_border (env_geo (list_router_env default_mib)) example_circle
     (lpv_position (env_geo (list_router_env default_mib)) (r_local_position_vector example_station))"
  "fst (request_gbc (list_router_env default_mib) 0 (new_request default_mib 37\<lparr>req_upper_protocol := BTP_B\<rparr>) example_circle (Some [1, 2, 3]) example_station) = Accepted"
  "lpv_ok (r_local_position_vector example_station)" "r_transport_ifcs example_station BTP_B"
  by code_simp+

theorem gbc_end_to_end_witness:
  "\<exists>(dreq :: DccRequest) pdu ind. last (r_calls (indicate (list_router_env default_mib) 6000000 (serialize_pdu (\<lambda>_ :: unit. []) pdu @ [1, 2, 3]) (dcc_source dreq)
       cBroadcastMacAddress example_station)) = Indicate_Up ind [1, 2, 3] \<and> upper_protocol ind = BTP_B \<and> ind_destination ind = To_Area example_circle"
proof -
  let ?env = "list_router_env default_mib" and ?req = "new_request default_mib 37\<lparr>req_upper_protocol := BTP_B\<rparr>"
  have mib: "\<not> itsGnSecurity (env_mib ?env)" "itsGnProtocolVersion (env_mib ?env) < 16" "itsGnAreaForwardingAlgorithm (env_mib ?env) \<in> {BF_CBF, BF_Advanced}"
    "vanetzaGbcMemoryCapacity (env_mib ?env) = 0"
    by (simp_all add: list_router_env_def default_mib_def)
  have req: "length [1, 2, 3 :: byte] < 65536" "req_upper_protocol ?req \<noteq> Unknown" "r_transport_ifcs example_station (req_upper_protocol ?req)"
    "store_carry_forward (req_traffic_class ?req) \<longrightarrow> loc_has_neighbours (env_keys ?env) (env_heap ?env) 0 (r_location_table example_station)"
    by (simp_all add: example_station_facts) (simp add: default_mib_def new_request_def store_carry_forward_def)
  have inside: "inside_or_at_border (env_geo ?env) (received_area (env_geo ?env) (env_geo ?env) example_circle)
      (lpv_position (env_geo ?env) (r_local_position_vector example_station))"
    using example_station_facts(1) by (simp only: example_circle_received)
  note gbc_end_to_end [OF mib(1) mib(1) refl mib(2) example_station_facts(3,2) req inside inside mib(3,4),
      of 6000000 "\<lambda>_ :: unit. []", unfolded example_circle_received]
  then obtain dreq :: DccRequest and pdu and ind :: DataIndication where "dcc_destination dreq = cBroadcastMacAddress"
    "last (r_calls (indicate ?env 6000000 (serialize_pdu (\<lambda>_ :: unit. []) pdu @ [1, 2, 3]) (dcc_source dreq) (dcc_destination dreq) example_station)) =
       Indicate_Up ind [1, 2, 3]" "upper_protocol ind = req_upper_protocol ?req" "ind_destination ind = To_Area example_circle"
    by blast
  then show ?thesis by (intro exI [of _ dreq] exI [of _ pdu] exI [of _ ind]) simp
qed

end
