(* ===== verification/Btp.thy ===== *)
theory Btp
  imports Gn_End_To_End
begin
unbundle bit_operations_syntax

text \<open>
  The Basic Transport Protocol (\<open>vanetza/btp\<close>): its headers, the dispatcher that hands received packets
  to the application registered for their port, and the requests of applications
  (\<open>tools/socktap/application.cpp\<close>), which add the header and go to the router.
\<close>

section \<open>Headers\<close>

record HeaderA =
  a_destination_port :: "16 word"
  a_source_port :: "16 word"

record HeaderB =
  b_destination_port :: "16 word"
  b_destination_port_info :: "16 word"

definition serialize_header_a :: "HeaderA \<Rightarrow> byte list" where
  "serialize_header_a hdr = serialize_int (a_destination_port hdr) @ serialize_int (a_source_port hdr)"

definition deserialize_header_a :: "HeaderA reader" where
  "deserialize_header_a ar = do {
     (dest, ar) \<leftarrow> deserialize_int ar;
     (src, ar) \<leftarrow> deserialize_int ar;
     Some (\<lparr>a_destination_port = dest, a_source_port = src\<rparr>, ar) }"

definition serialize_header_b :: "HeaderB \<Rightarrow> byte list" where
  "serialize_header_b hdr = serialize_int (b_destination_port hdr) @ serialize_int (b_destination_port_info hdr)"

definition deserialize_header_b :: "HeaderB reader" where
  "deserialize_header_b ar = do {
     (dest, ar) \<leftarrow> deserialize_int ar;
     (info, ar) \<leftarrow> deserialize_int ar;
     Some (\<lparr>b_destination_port = dest, b_destination_port_info = info\<rparr>, ar) }"

text \<open>Parsing a received packet reads the header and moves the boundary behind it; a packet that is too short raises an exception, here \<open>None\<close>.\<close>

definition parse_btp_a :: "byte list \<Rightarrow> (HeaderA \<times> byte list) option" where
  "parse_btp_a packet = map_option (\<lambda>(hdr, _). (hdr, drop 4 packet)) (deserialize_header_a packet)"

definition parse_btp_b :: "byte list \<Rightarrow> (HeaderB \<times> byte list) option" where
  "parse_btp_b packet = map_option (\<lambda>(hdr, _). (hdr, drop 4 packet)) (deserialize_header_b packet)"

section \<open>The dispatcher\<close>

record BtpIndication =
  btp_source_port :: "16 word option"
  btp_destination_port :: "16 word"
  btp_destination_port_info :: "16 word option"
  btp_destination :: DestinationVariant
  btp_its_aid :: "32 word option"
  btp_permissions :: "byte list option"
  btp_source_position :: ShortPositionVector
  btp_traffic_class :: "8 word"
  btp_remaining_packet_lifetime :: "8 word option"

definition BtpIndication_of_a :: "DataIndication \<Rightarrow> HeaderA \<Rightarrow> BtpIndication" where
  "BtpIndication_of_a ind btp = \<lparr>btp_source_port = Some (a_source_port btp), btp_destination_port = a_destination_port btp, btp_destination_port_info = None,
     btp_destination = ind_destination ind, btp_its_aid = its_aid ind, btp_permissions = permissions ind, btp_source_position = ind_source_position ind,
     btp_traffic_class = ind_traffic_class ind, btp_remaining_packet_lifetime = remaining_packet_lifetime ind\<rparr>"

definition BtpIndication_of_b :: "DataIndication \<Rightarrow> HeaderB \<Rightarrow> BtpIndication" where
  "BtpIndication_of_b ind btp = \<lparr>btp_source_port = None, btp_destination_port = b_destination_port btp, btp_destination_port_info = Some (b_destination_port_info btp),
     btp_destination = ind_destination ind, btp_its_aid = its_aid ind, btp_permissions = permissions ind, btp_source_position = ind_source_position ind,
     btp_traffic_class = ind_traffic_class ind, btp_remaining_packet_lifetime = remaining_packet_lifetime ind\<rparr>"

text \<open>The indication, if the packet is one of BTP, and the packet behind the header; \<open>None\<close> is the exception.\<close>

definition parse_btp_header :: "DataIndication \<Rightarrow> byte list \<Rightarrow> (BtpIndication option \<times> byte list) option" where
  "parse_btp_header gn_ind packet =
     (case upper_protocol gn_ind of
        BTP_A \<Rightarrow> map_option (\<lambda>(hdr, rest). (Some (BtpIndication_of_a gn_ind hdr), rest)) (parse_btp_a packet)
      | BTP_B \<Rightarrow> map_option (\<lambda>(hdr, rest). (Some (BtpIndication_of_b gn_ind hdr), rest)) (parse_btp_b packet)
      | _ \<Rightarrow> Some (None, packet))"

text \<open>Handlers and hooks are objects elsewhere; a handler that is not registered is a null pointer.\<close>

record ('h, 'k) PortDispatcher =
  interactive_handlers :: "16 word \<Rightarrow> 'h option"
  non_interactive_handlers :: "16 word \<Rightarrow> 'h option"
  promiscuous_hooks :: "'k list"

definition new_dispatcher :: "('h, 'k) PortDispatcher" where
  "new_dispatcher = \<lparr>interactive_handlers = (\<lambda>_. None), non_interactive_handlers = (\<lambda>_. None), promiscuous_hooks = []\<rparr>"

datatype ('h, 'k) dispatch = Tap_Packet 'k BtpIndication "byte list" | Handler_Indicate 'h BtpIndication "byte list" |
  Hook_Undispatched DataIndication "BtpIndication option"

definition add_promiscuous_hook :: "'k option \<Rightarrow> ('h, 'k) PortDispatcher \<Rightarrow> ('h, 'k) PortDispatcher" where
  "add_promiscuous_hook hook pd =
     (case hook of
        None \<Rightarrow> pd
      | Some hook \<Rightarrow> if hook \<in> set (promiscuous_hooks pd) then pd else pd\<lparr>promiscuous_hooks := promiscuous_hooks pd @ [hook]\<rparr>)"

definition remove_promiscuous_hook :: "'k \<Rightarrow> ('h, 'k) PortDispatcher \<Rightarrow> ('h, 'k) PortDispatcher" where
  "remove_promiscuous_hook hook pd = pd\<lparr>promiscuous_hooks := filter (\<lambda>k. k \<noteq> hook) (promiscuous_hooks pd)\<rparr>"

definition set_interactive_handler :: "16 word \<Rightarrow> 'h option \<Rightarrow> ('h, 'k) PortDispatcher \<Rightarrow> ('h, 'k) PortDispatcher" where
  "set_interactive_handler port handler pd = pd\<lparr>interactive_handlers := (interactive_handlers pd)(port := handler)\<rparr>"

definition set_non_interactive_handler :: "16 word \<Rightarrow> 'h option \<Rightarrow> ('h, 'k) PortDispatcher \<Rightarrow> ('h, 'k) PortDispatcher" where
  "set_non_interactive_handler port handler pd = pd\<lparr>non_interactive_handlers := (non_interactive_handlers pd)(port := handler)\<rparr>"

definition dispatch_indicate :: "DataIndication \<Rightarrow> byte list \<Rightarrow> ('h, 'k) PortDispatcher \<Rightarrow> ('h, 'k) dispatch list option" where
  "dispatch_indicate gn_ind packet pd =
     (case parse_btp_header gn_ind packet of
        None \<Rightarrow> None
      | Some (None, packet') \<Rightarrow> Some [Hook_Undispatched gn_ind None]
      | Some (Some btp_ind, packet') \<Rightarrow>
          let handler = (if btp_source_port btp_ind \<noteq> None then interactive_handlers pd (btp_destination_port btp_ind)
                         else non_interactive_handlers pd (btp_destination_port btp_ind));
              taps = map (\<lambda>hook. Tap_Packet hook btp_ind packet') (promiscuous_hooks pd)
          in Some (taps @ (case handler of Some h \<Rightarrow> [Handler_Indicate h btp_ind packet'] | None \<Rightarrow> [Hook_Undispatched gn_ind (Some btp_ind)])))"

section \<open>Requests of applications\<close>

record DataRequestGeoNetParams =
  gn_transport_type :: TransportType
  gn_destination :: DestinationVariant
  gn_communication_profile :: InterfaceType
  gn_its_aid :: "32 word"
  gn_maximum_lifetime :: "8 word option"
  gn_maximum_hop_limit :: "32 word option"
  gn_repetition :: "Repetition option"
  gn_traffic_class :: "8 word"

definition initialize_request :: "DataRequestGeoNetParams \<Rightarrow> DataRequest \<Rightarrow> DataRequest" where
  "initialize_request generic geonet =
     geonet\<lparr>req_upper_protocol := BTP_B, req_communication_profile := gn_communication_profile generic, req_its_aid := gn_its_aid generic,
       req_maximum_lifetime := (case gn_maximum_lifetime generic of Some l \<Rightarrow> l | None \<Rightarrow> req_maximum_lifetime geonet),
       req_repetition := gn_repetition generic, req_traffic_class := gn_traffic_class generic\<rparr>"

definition application_shb :: "MIB \<Rightarrow> DataRequestGeoNetParams \<Rightarrow> DataRequest" where
  "application_shb mib generic = initialize_request generic (new_request mib 0)"

text \<open>A GeoBroadcast whose destination is no area raises an exception, here \<open>None\<close>.\<close>

definition application_gbc :: "MIB \<Rightarrow> DataRequestGeoNetParams \<Rightarrow> (DataRequest \<times> Area) option" where
  "application_gbc mib generic =
     (case gn_destination generic of To_Area area \<Rightarrow> Some (initialize_request generic (new_request mib 0), area) | _ \<Rightarrow> None)"

text \<open>The packet is the application's payload below a header of BTP; without router or packet nothing happens.\<close>

definition application_request ::
  "('h, 'hd, 'b, 'cnt, 'c, 's) router_env \<Rightarrow> time_point \<Rightarrow> 16 word \<Rightarrow> DataRequestGeoNetParams \<Rightarrow> byte list \<Rightarrow> ('h, 'hd, 'b, 'cnt, 'c, 's) Router \<Rightarrow>
   (ResultCode \<times> ('h, 'hd, 'b, 'cnt, 'c, 's) Router) option" where
  "application_request env now port generic pl r =
     (let packet = serialize_header_b \<lparr>b_destination_port = port, b_destination_port_info = 0\<rparr> @ pl
      in case gn_transport_type generic of
           SHB \<Rightarrow> Some (request env now (Shb_Request (application_shb (env_mib env) generic)) (Some packet) r)
         | GBC \<Rightarrow> map_option (\<lambda>(req, area). request env now (Gbc_Request req area) (Some packet) r) (application_gbc (env_mib env) generic)
         | _ \<Rightarrow> Some (Rejected_Unspecified, r))"

section \<open>Registration of applications\<close>

definition enable_application :: "16 word \<Rightarrow> 'h \<Rightarrow> 'k option \<Rightarrow> ('h, 'k) PortDispatcher \<Rightarrow> ('h, 'k) PortDispatcher" where
  "enable_application port app hook pd =
     (let pd' = add_promiscuous_hook hook pd in if port \<noteq> 0 then set_non_interactive_handler port (Some app) pd' else pd')"

definition disable_application :: "16 word \<Rightarrow> 'k option \<Rightarrow> ('h, 'k) PortDispatcher \<Rightarrow> ('h, 'k) PortDispatcher" where
  "disable_application port hook pd =
     (let pd' = (if port \<noteq> 0 then set_non_interactive_handler port None pd else pd) in case hook of Some k \<Rightarrow> remove_promiscuous_hook k pd' | None \<Rightarrow> pd')"

section \<open>Laws\<close>

lemma header_a_wire: "wire_format serialize_header_a deserialize_header_a 4 (\<lambda>_. True)"
proof (rule wire_formatI)
  fix x show "length (serialize_header_a x) = 4" by (simp add: serialize_header_a_def wire)
next
  fix ar ar' and x :: HeaderA
  show "deserialize_header_a ar = Some (x, ar') \<longleftrightarrow> True \<and> ar = serialize_header_a x @ ar'"
    by (cases x) (auto simp: deserialize_header_a_def serialize_header_a_def wire Option.bind_eq_Some_conv)
next
  show "takes 4 deserialize_header_a" unfolding deserialize_header_a_def [abs_def] by (intro takes_fields) (simp_all add: takes_none)
qed

lemma header_b_wire: "wire_format serialize_header_b deserialize_header_b 4 (\<lambda>_. True)"
proof (rule wire_formatI)
  fix x show "length (serialize_header_b x) = 4" by (simp add: serialize_header_b_def wire)
next
  fix ar ar' and x :: HeaderB
  show "deserialize_header_b ar = Some (x, ar') \<longleftrightarrow> True \<and> ar = serialize_header_b x @ ar'"
    by (cases x) (auto simp: deserialize_header_b_def serialize_header_b_def wire Option.bind_eq_Some_conv)
next
  show "takes 4 deserialize_header_b" unfolding deserialize_header_b_def [abs_def] by (intro takes_fields) (simp_all add: takes_none)
qed

interpretation header_a: wire_format serialize_header_a deserialize_header_a 4 "\<lambda>_. True" by (rule header_a_wire)
interpretation header_b: wire_format serialize_header_b deserialize_header_b 4 "\<lambda>_. True" by (rule header_b_wire)

lemma parse_serialized [simp]:
  "parse_btp_a (serialize_header_a a @ pl) = Some (a, pl)" "parse_btp_b (serialize_header_b b @ pl) = Some (b, pl)"
  by (simp_all add: parse_btp_a_def parse_btp_b_def header_a.get_put header_b.get_put header_a.length_put header_b.length_put)

lemma dispatch_throws: "dispatch_indicate ind packet pd = None \<longleftrightarrow> upper_protocol ind \<in> {BTP_A, BTP_B} \<and> length packet < 4"
  by (cases "upper_protocol ind")
    (auto simp: dispatch_indicate_def parse_btp_header_def parse_btp_a_def parse_btp_b_def header_a.get_None_iff header_b.get_None_iff header_a.get_short header_b.get_short Let_def split: option.splits)

lemma dispatch_b:
  assumes "upper_protocol ind = BTP_B" "non_interactive_handlers pd port = Some h"
  shows "dispatch_indicate ind (serialize_header_b \<lparr>b_destination_port = port, b_destination_port_info = info\<rparr> @ pl) pd =
    Some (map (\<lambda>k. Tap_Packet k (BtpIndication_of_b ind \<lparr>b_destination_port = port, b_destination_port_info = info\<rparr>) pl) (promiscuous_hooks pd) @
      [Handler_Indicate h (BtpIndication_of_b ind \<lparr>b_destination_port = port, b_destination_port_info = info\<rparr>) pl])"
  using assms by (simp add: dispatch_indicate_def parse_btp_header_def BtpIndication_of_b_def)

lemma application_protocol: "req_upper_protocol (application_shb mib generic) = BTP_B" "req_traffic_class (application_shb mib generic) = gn_traffic_class generic"
  by (simp_all add: application_shb_def initialize_request_def)

text \<open>
  C8: what an application sends to a port over a single hop reaches the application that is
  registered for this port at another station. Both routers run without security and with the same
  protocol version. The request is accepted by the sender's router, has at most 65531 octets and
  need not wait for a neighbour: store-carry-forward is off in its traffic class, or the sender
  knows one. Then exactly one packet goes down to the link layer, to the broadcast address. When
  the other router, in any reachable state with a handler for BTP-B, receives its octets, it ends
  its processing with passing the packet up; its dispatcher hands the very payload to every
  promiscuous hook and to the application of the port, with the sender's position and traffic class.
  After that the receiver's location table has an entry of the sender, marked as a neighbour.
\<close>

theorem btp_end_to_end:
  fixes ra :: "('h, 'hd, 'b, 'cnt, 'c, 's) Router" and rb :: "('h1, 'hd1, 'b1, 'cnt1, 'c1, 's1) Router"
  assumes "router_environment env_b" "router_reachable env_b rb" "\<not> itsGnSecurity (env_mib env_a)" "\<not> itsGnSecurity (env_mib env_b)"
    "itsGnProtocolVersion (env_mib env_a) = itsGnProtocolVersion (env_mib env_b)" "itsGnProtocolVersion (env_mib env_b) < 16"
    "lpv_ok (r_local_position_vector ra)" "gn_transport_type generic = SHB" "application_request env_a now port generic pl ra = Some (Accepted, ra')"
    "length pl + 4 < 65536" "r_transport_ifcs rb BTP_B" "non_interactive_handlers pd port = Some app"
    "store_carry_forward (gn_traffic_class generic) \<longrightarrow> loc_has_neighbours (env_keys env_a) (env_heap env_a) now (r_location_table ra)" "now' < time_point_max"
  shows "\<exists>dreq pdu packet. r_calls ra' = r_calls ra @ [Request_Down dreq pdu packet] \<and> dcc_destination dreq = cBroadcastMacAddress \<and>
    (let rb' = indicate env_b now' (serialize_pdu serialize_secured pdu @ packet) (dcc_source dreq) (dcc_destination dreq) rb
     in (\<exists>ind btp_ind. last (r_calls rb') = Indicate_Up ind packet \<and>
          dispatch_indicate ind packet pd = Some (map (\<lambda>hook. Tap_Packet hook btp_ind pl) (promiscuous_hooks pd) @ [Handler_Indicate app btp_ind pl]) \<and>
          btp_destination_port btp_ind = port \<and> btp_traffic_class btp_ind = gn_traffic_class generic \<and>
          btp_source_position btp_ind = ShortPositionVector_of (r_local_position_vector ra)) \<and>
        (\<exists>e. loc_get_entry (env_heap env_b) now' (m_mid (gn_addr (r_local_position_vector ra))) (r_location_table rb') = Some e \<and> is_neighbour now' e))"
proof -
  let ?hdr = "\<lparr>b_destination_port = port, b_destination_port_info = 0\<rparr>"
  let ?packet = "serialize_header_b ?hdr @ pl" and ?req = "application_shb (env_mib env_a) generic"
  have sent: "request_shb env_a now ?req (Some ?packet) ra = (Accepted, ra')" using assms(8,9) by (simp add: application_request_def)
  have facts: "fst (request_shb env_a now ?req (Some ?packet) ra) = Accepted" "length ?packet < 65536" "req_upper_protocol ?req \<noteq> Unknown"
    "r_transport_ifcs rb (req_upper_protocol ?req)"
    "store_carry_forward (req_traffic_class ?req) \<longrightarrow> loc_has_neighbours (env_keys env_a) (env_heap env_a) now (r_location_table ra)"
    using sent assms(10,11,13) by (simp_all add: header_b.length_put application_protocol)
  obtain dreq pdu ind where down: "r_calls ra' = r_calls ra @ [Request_Down dreq pdu ?packet]" "dcc_destination dreq = cBroadcastMacAddress"
    and up: "last (r_calls (indicate env_b now' (serialize_pdu serialize_secured pdu @ ?packet) (dcc_source dreq) (dcc_destination dreq) rb)) = Indicate_Up ind ?packet"
      "upper_protocol ind = BTP_B" "ind_source_position ind = ShortPositionVector_of (r_local_position_vector ra)" "ind_traffic_class ind = gn_traffic_class generic"
    and near: "\<exists>e. loc_get_entry (env_heap env_b) now' (m_mid (gn_addr (r_local_position_vector ra)))
        (r_location_table (indicate env_b now' (serialize_pdu serialize_secured pdu @ ?packet) (dcc_source dreq) (dcc_destination dreq) rb)) = Some e \<and>
      is_neighbour now' e"
    using shb_delivery [OF assms(1-7) facts assms(14), of serialize_secured] unfolding sent Let_def application_protocol by auto
  note dispatched = dispatch_b [OF up(2) assms(12), of 0 pl]
  show ?thesis unfolding Let_def using down up(1) near dispatched up(3,4)
    by (intro exI [of _ dreq] exI [of _ pdu] exI [of _ ?packet] exI [of _ ind] exI [of _ "BtpIndication_of_b ind ?hdr"] conjI) (simp_all add: BtpIndication_of_b_def)
qed

text \<open>Two stations: one sends a message of three octets to port 2001, at the other an application is registered for it.\<close>

definition example_params :: DataRequestGeoNetParams where
  "example_params = \<lparr>gn_transport_type = SHB, gn_destination = To_Null, gn_communication_profile = IT_Unspecified, gn_its_aid = 36, gn_maximum_lifetime = None,
     gn_maximum_hop_limit = None, gn_repetition = None, gn_traffic_class = 2\<rparr>"

abbreviation example_sender :: list_router where
  "example_sender \<equiv> new_router (list_router_env example_mib) 0 [] [] Map.empty []"

lemma example_sender_lpv: "lpv_ok (r_local_position_vector example_sender)"
  by code_simp

lemma example_application_accepts:
  "fst (request_shb (list_router_env example_mib) 0 (application_shb example_mib example_params) (Some (serialize_header_b \<lparr>b_destination_port = 2001, b_destination_port_info = 0\<rparr> @ [1, 2, 3])) example_sender) = Accepted"
  by code_simp

lemma example_environment:
  "\<not> itsGnSecurity (env_mib (list_router_env example_mib))" "itsGnProtocolVersion (env_mib (list_router_env example_mib)) < 16" "env_mib (list_router_env example_mib) = example_mib"
  by (simp_all add: list_router_env_def example_mib_def default_mib_def)

lemma example_time: "(6000000 :: time_point) < time_point_max"
  by (simp add: time_point_max_def)

lemma example_no_neighbour_needed: "\<not> store_carry_forward (gn_traffic_class example_params)"
  by (simp add: example_params_def store_carry_forward_def)

theorem btp_end_to_end_witness:
  "\<exists>octets sender ind packet btp_ind. last (r_calls (indicate (list_router_env example_mib) 6000000 octets sender cBroadcastMacAddress example_router)) = Indicate_Up ind packet \<and>
     dispatch_indicate ind packet (enable_application 2001 ''cam'' (Some ''log'') new_dispatcher) = Some [Tap_Packet ''log'' btp_ind [1, 2, 3], Handler_Indicate ''cam'' btp_ind [1, 2, 3]]"
proof -
  let ?env = "list_router_env example_mib" and ?pd = "enable_application 2001 ''cam'' (Some ''log'') new_dispatcher :: (string, string) PortDispatcher"
  let ?packet = "serialize_header_b \<lparr>b_destination_port = 2001, b_destination_port_info = 0\<rparr> @ [1, 2, 3]"
  have shb: "gn_transport_type example_params = SHB" and len: "length [1, 2, 3 :: byte] + 4 < 65536" by (simp_all add: example_params_def)
  have "application_request ?env 0 2001 example_params [1, 2, 3] example_sender =
      Some (request_shb ?env 0 (application_shb example_mib example_params) (Some ?packet) example_sender)"
    by (simp add: application_request_def shb example_environment(3))
  then obtain ra' where ra': "application_request ?env 0 2001 example_params [1, 2, 3] example_sender = Some (Accepted, ra')"
    using example_application_accepts by (metis prod.collapse)
  have h: "non_interactive_handlers ?pd 2001 = Some ''cam''" "promiscuous_hooks ?pd = [''log'']"
    by (simp_all add: enable_application_def add_promiscuous_hook_def set_non_interactive_handler_def new_dispatcher_def)
  have scf: "store_carry_forward (gn_traffic_class example_params) \<longrightarrow> loc_has_neighbours (env_keys ?env) (env_heap ?env) 0 (r_location_table example_sender)"
    using example_no_neighbour_needed by simp
  from btp_end_to_end [OF list_router.router_environment_axioms example_router_reachable example_environment(1,1) refl example_environment(2) example_sender_lpv shb ra' len
      example_router_handler h(1) scf example_time, of "\<lambda>_ :: unit. []"]
  show ?thesis unfolding Let_def h(2) by auto blast
qed

text \<open>
  C40: a packet that is shorter than the header of BTP is passed up and makes the dispatcher throw.
  The dispatcher throws exactly for such packets, and a router without security passes them up:
  there are octets whose reception ends with passing up a packet that every dispatcher throws on.
\<close>

theorem btp_short_packet:
  "(dispatch_indicate ind packet pd = None \<longleftrightarrow> upper_protocol ind \<in> {BTP_A, BTP_B} \<and> length packet < 4) \<and>
   (\<exists>octets sender ind. last (r_calls (indicate (list_router_env example_mib) 6000000 octets sender cBroadcastMacAddress example_router)) = Indicate_Up ind [] \<and>
      (\<forall>pd :: (string, string) PortDispatcher. dispatch_indicate ind [] pd = None))"
proof -
  let ?env = "list_router_env example_mib" and ?req = "application_shb example_mib example_params"
  have accepted: "fst (request_shb ?env 0 ?req (Some []) example_sender) = Accepted" by code_simp
  have req: "length ([] :: byte list) < 65536" "req_upper_protocol ?req \<noteq> Unknown" "r_transport_ifcs example_router (req_upper_protocol ?req)"
    "store_carry_forward (req_traffic_class ?req) \<longrightarrow> loc_has_neighbours (env_keys ?env) (env_heap ?env) 0 (r_location_table example_sender)"
    using example_no_neighbour_needed by (simp_all add: application_protocol example_router_handler)
  obtain dreq :: DccRequest and pdu and ind :: DataIndication where "dcc_destination dreq = cBroadcastMacAddress"
    "last (r_calls (indicate ?env 6000000 (serialize_pdu (\<lambda>_ :: unit. []) pdu @ []) (dcc_source dreq) (dcc_destination dreq) example_router)) = Indicate_Up ind []"
    "upper_protocol ind = BTP_B"
    using shb_delivery [OF list_router.router_environment_axioms example_router_reachable example_environment(1,1) refl example_environment(2) example_sender_lpv accepted req example_time,
        of "\<lambda>_ :: unit. []"] unfolding Let_def application_protocol by blast
  then show ?thesis using dispatch_throws [of ind "[]"] by (metis dispatch_throws insertCI list.size(3) zero_less_numeral)
qed

end
