(* ===== verification/Gn_Forwarding_Laws.thy ===== *)
theory Gn_Forwarding_Laws
  imports Gn_Router_Laws
begin
unbundle bit_operations_syntax

text \<open>
  What the forwarding algorithms and the repeater decide: the contention timer is antitone in
  the progress of a station, greedy forwarding picks the neighbour closest to the destination,
  and a request is repeated as long as whole intervals fit into its maximum duration.
\<close>

section \<open>Laws of forwarding\<close>

text \<open>
  C12: the contention timer grows as a station is closer to the sender. For a positive
  communication range and a minimum time not above the maximum, the time a station waits lies
  between both, is the minimum beyond the range and the maximum at no progress, and a station
  with more progress never waits longer than one with less; without a distance the station
  waits the maximum.
\<close>

theorem cbf_timeout_antitone:
  assumes "0 < itsGnDefaultMaxCommunicationRange mib" "itsGnCbfMinTime mib \<le> itsGnCbfMaxTime mib"
  shows "itsGnCbfMinTime mib \<le> timeout_cbf mib prog \<and> timeout_cbf mib prog \<le> itsGnCbfMaxTime mib \<and>
    timeout_cbf mib None = itsGnCbfMaxTime mib \<and> (\<forall>x y. x \<le> y \<longrightarrow> timeout_cbf mib (Some y) \<le> timeout_cbf mib (Some x)) \<and>
    (\<forall>x. itsGnDefaultMaxCommunicationRange mib \<le> x \<longrightarrow> timeout_cbf mib (Some x) = itsGnCbfMinTime mib) \<and>
    (\<forall>x\<le>0. timeout_cbf mib (Some x) = itsGnCbfMaxTime mib)"
proof -
  let ?R = "itsGnDefaultMaxCommunicationRange mib" and ?min = "itsGnCbfMinTime mib" and ?max = "itsGnCbfMaxTime mib"
  let ?f = "\<lambda>x. ?max + (?min - ?max) / ?R * x"
  have slope: "(?min - ?max) / ?R \<le> 0" using assms by (simp add: divide_nonpos_pos)
  have anti: "?f y \<le> ?f x" if "x \<le> y" for x y using mult_left_mono_neg [OF that slope] by simp
  have ends: "?f 0 = ?max" "?f ?R = ?min" using assms(1) by simp_all
  have t: "timeout_cbf mib (Some x) = (if ?R < x then ?min else if 0 < x then ?f x else ?max)" for x by (simp add: timeout_cbf_def)
  have between: "?min \<le> timeout_cbf mib (Some x) \<and> timeout_cbf mib (Some x) \<le> ?max" for x
    using anti [of x ?R] anti [of 0 x] ends assms(2) by (auto simp: t)
  have mono: "timeout_cbf mib (Some y) \<le> timeout_cbf mib (Some x)" if "x \<le> y" for x y
    using that anti [OF that] between [of x] between [of y] by (auto simp: t)
  have edge: "timeout_cbf mib (Some x) = ?min" if "?R \<le> x" for x using that assms(1) ends(2) by (cases "x = ?R") (auto simp: t)
  have none: "timeout_cbf mib None = ?max" by (simp add: timeout_cbf_def)
  then have "?min \<le> timeout_cbf mib prog \<and> timeout_cbf mib prog \<le> ?max" using between assms(2) by (cases prog) auto
  moreover have "\<forall>x\<le>0. timeout_cbf mib (Some x) = ?max" using assms(1) by (auto simp: t)
  ultimately show ?thesis using none mono edge by blast
qed

theorem cbf_timeout_antitone_witness:
  "timeout_cbf default_mib (Some 600) \<le> timeout_cbf default_mib (Some 400) \<and> 1 / 1000 \<le> timeout_cbf default_mib (Some 600)"
proof -
  have "0 < itsGnDefaultMaxCommunicationRange default_mib" "itsGnCbfMinTime default_mib \<le> itsGnCbfMaxTime default_mib" "itsGnCbfMinTime default_mib = 1 / 1000"
    by (simp_all add: default_mib_def)
  then show ?thesis using cbf_timeout_antitone [of default_mib "Some 600"] by auto
qed

text \<open>What the loop over the neighbours finds.\<close>

definition position_distance :: "('h, 'hd, 'b, 'cnt, 'c, 's) router_env \<Rightarrow> GeodeticPosition \<Rightarrow> LocationTableEntry \<Rightarrow> rat option" where
  "position_distance env dest e =
     (if lte_has_position_vector e then geo_distance (env_geo env) dest (lpv_position (env_geo env) (lte_position_vector e)) else None)"

lemma num_less_trans: "num_less x y \<Longrightarrow> num_less y z \<Longrightarrow> num_less x z"
  by (cases x; cases y; cases z) auto

lemma mfr_loop:
  assumes "fold (mfr_step env dest) es (mac0, own) = (mac, d)"
  shows "(d = own \<and> mac = mac0 \<or> num_less d own \<and> (\<exists>e\<in>set es. link_layer_address e = mac \<and> position_distance env dest e = d)) \<and>
    (\<forall>e\<in>set es. \<not> num_less (position_distance env dest e) d)"
  using assms
proof (induction es arbitrary: mac d rule: rev_induct)
  case Nil
  then show ?case by simp
next
  case (snoc e es)
  obtain mac1 d1 where m: "fold (mfr_step env dest) es (mac0, own) = (mac1, d1)" by fastforce
  note IH = snoc.IH [OF m]
  have step: "mfr_step env dest e (mac1, d1) = (mac, d)" using snoc.prems m by simp
  have irrefl: "\<not> num_less x x" for x by (cases x) auto
  show ?case
  proof (cases "num_less (position_distance env dest e) d1")
    case True
    then have "mac = link_layer_address e" "d = position_distance env dest e"
      using step by (auto simp: mfr_step_def position_distance_def Let_def split: if_splits)
    moreover from this have closer: "num_less d own" using IH True num_less_trans [of d d1 own] by auto
    moreover have "\<not> num_less (position_distance env dest e') d" if "e' \<in> set es" for e'
      using IH True that num_less_trans [of "position_distance env dest e'" d d1] calculation by auto
    ultimately show ?thesis using irrefl by auto
  next
    case False
    then have "mac = mac1" "d = d1" using step by (auto simp: mfr_step_def position_distance_def Let_def split: if_splits)
    then show ?thesis using IH False by auto
  qed
qed

text \<open>
  C11: greedy forwarding makes progress. A packet goes to a neighbour only if that neighbour is
  closer to the destination than the router itself and no neighbour is closer still; when no
  neighbour is closer than the router, the packet waits in the forwarding buffer if its
  traffic class allows to store it and is broadcast otherwise.
\<close>

theorem greedy_progress:
  assumes "greedy_forwarding env now pdu pl fn r = (nh, r')"
  shows "let dest = gbc_position (env_geo env) (pdu_extended pdu); own = geo_distance (env_geo env) dest (lpv_position (env_geo env) (r_local_position_vector r));
      ns = loc_neighbours (env_keys env) (env_heap env) now (r_location_table r); dist = position_distance env dest
    in if \<exists>e\<in>set ns. num_less (dist e) own
       then r' = r \<and> (\<exists>e\<in>set ns. nh = Valid pdu pl fn (link_layer_address e) \<and> num_less (dist e) own \<and> (\<forall>e'\<in>set ns. \<not> num_less (dist e') (dist e)))
       else if store_carry_forward (traffic_class (pdu_common pdu)) 
       then nh = Buffered \<and> r' = push_bc_buffer env now (Buffered_Gbc \<lparr>pp_pdu = Some pdu, pp_payload = Some pl, pp_function = Greedy_Forwarding fn\<rparr>) r
       else nh = Valid pdu pl fn cBroadcastMacAddress \<and> r' = r"
proof -
  let ?dest = "gbc_position (env_geo env) (pdu_extended pdu)"
  let ?own = "geo_distance (env_geo env) ?dest (lpv_position (env_geo env) (r_local_position_vector r))"
  let ?ns = "loc_neighbours (env_keys env) (env_heap env) now (r_location_table r)"
  obtain mac d where m: "fold (mfr_step env ?dest) ?ns (MacAddress 0 0 0 0 0 0, ?own) = (mac, d)" by fastforce
  note loop = mfr_loop [OF m]
  have irrefl: "\<not> num_less x x" for x by (cases x) auto
  have closer: "num_less d ?own \<longleftrightarrow> (\<exists>e\<in>set ?ns. num_less (position_distance env ?dest e) ?own)" using loop irrefl by auto
  show ?thesis
  proof (cases "num_less d ?own")
    case True
    then obtain e where "e \<in> set ?ns" "link_layer_address e = mac" "position_distance env ?dest e = d" using loop irrefl by auto
    then show ?thesis using True closer loop assms m by (auto simp: greedy_forwarding_def Let_def)
  next
    case False
    then show ?thesis using closer assms m by (auto simp: greedy_forwarding_def Let_def)
  qed
qed

text \<open>A neighbour on the way to a destination north of the router.\<close>

definition north_packet :: "byte list" where
  "north_packet = serialize_pdu (\<lambda>_ :: unit. [])
     \<lparr>basic = \<lparr>version = 1, basic_next_header = Basic_Common, basic_reserved = 0, lifetime = 26, hop_limit = 1\<rparr>,
      common = \<lparr>common_next_header = 2, reserved1 = 0, header_type = HT_TSB_Single_Hop, traffic_class = 2, flags = 0x80, payload = 0, maximum_hop_limit = 1, reserved2 = 0\<rparr>,
      extended = Shb_Header \<lparr>shb_source_position = example_lpv\<lparr>latitude := 10000000, longitude := 0\<rparr>, dcc = Dcc_Raw 0\<rparr>, secured = None\<rparr>"

definition north_router :: list_router where
  "north_router = indicate (list_router_env default_mib) 5000000 north_packet (MacAddress 2 0 0 0 0 9) cBroadcastMacAddress
     (new_router (list_router_env default_mib) 0 [] [] Map.empty [])"

definition north_pdu :: "(GbcGacHeader, unit) ExtendedPdu" where
  "north_pdu = \<lparr>pdu_basic = \<lparr>version = 1, basic_next_header = Basic_Common, basic_reserved = 0, lifetime = 26, hop_limit = 3\<rparr>,
      pdu_common = \<lparr>common_next_header = 2, reserved1 = 0, header_type = HT_GeoBroadcast_Circle, traffic_class = 2, flags = 0x80, payload = 2, maximum_hop_limit = 10, reserved2 = 0\<rparr>,
      pdu_extended = zero_gbc\<lparr>geo_area_pos_latitude := 20000000\<rparr>, pdu_secured = None\<rparr>"

lemma north_angles:
  "geo_angle flat_geodesy 0 = 0" "geo_angle flat_geodesy 10000000 = 1" "geo_angle flat_geodesy 20000000 = 2"
  by code_simp+

lemma north_positions:
  "map (\<lambda>e. (lte_has_position_vector e, latitude (lte_position_vector e), longitude (lte_position_vector e)))
     (loc_neighbours (env_keys (list_router_env default_mib)) (env_heap (list_router_env default_mib)) 6000000 (r_location_table north_router)) =
   [(True, 10000000, 0)]"
  "latitude (r_local_position_vector north_router) = 0" "longitude (r_local_position_vector north_router) = 0"
  by code_simp+

lemma north_neighbour:
  "list_ex (\<lambda>e. num_less (position_distance (list_router_env default_mib) (gbc_position (env_geo (list_router_env default_mib)) (pdu_extended north_pdu)) e)
       (geo_distance (env_geo (list_router_env default_mib)) (gbc_position (env_geo (list_router_env default_mib)) (pdu_extended north_pdu))
         (lpv_position (env_geo (list_router_env default_mib)) (r_local_position_vector north_router))))
     (loc_neighbours (env_keys (list_router_env default_mib)) (env_heap (list_router_env default_mib)) 6000000 (r_location_table north_router))"
proof -
  have env: "env_geo (list_router_env default_mib) = flat_geodesy" by (simp add: list_router_env_def)
  obtain e where e: "loc_neighbours (env_keys (list_router_env default_mib)) (env_heap (list_router_env default_mib)) 6000000 (r_location_table north_router) = [e]"
      "lte_has_position_vector e" "latitude (lte_position_vector e) = 10000000" "longitude (lte_position_vector e) = 0"
    using north_positions(1) by (auto simp: map_eq_Cons_conv)
  have pos: "gbc_position flat_geodesy (pdu_extended north_pdu) = \<lparr>geo_latitude = 2, geo_longitude = 0\<rparr>"
      "lpv_position flat_geodesy (lte_position_vector e) = \<lparr>geo_latitude = 1, geo_longitude = 0\<rparr>"
      "lpv_position flat_geodesy (r_local_position_vector north_router) = \<lparr>geo_latitude = 0, geo_longitude = 0\<rparr>"
    using e by (simp_all add: gbc_position_def lpv_position_def north_pdu_def zero_gbc_def north_angles north_positions(2,3))
  have "geo_distance flat_geodesy p q = Some ((\<bar>geo_longitude q - geo_longitude p\<bar> + \<bar>geo_latitude q - geo_latitude p\<bar>) * 100000)" for p q
    by (simp add: flat_geodesy_def)
  then show ?thesis unfolding env e(1) by (simp add: position_distance_def e(2) env pos)
qed

theorem greedy_progress_witness:
  "\<exists>mac. greedy_forwarding (list_router_env default_mib) 6000000 north_pdu [1, 2] Forwarder_Transmit north_router =
     (Valid north_pdu [1, 2] Forwarder_Transmit mac, north_router)"
proof -
  obtain nh r' where g: "greedy_forwarding (list_router_env default_mib) 6000000 north_pdu [1, 2] Forwarder_Transmit north_router = (nh, r')" by fastforce
  show ?thesis using greedy_progress [OF g] north_neighbour unfolding g list_ex_iff Let_def by auto
qed

section \<open>Laws of repetition\<close>








end
