(* ===== verification/Dcc_Rate.thy ===== *)
theory Dcc_Rate
  imports Gn_Forwarding "HOL-Library.Signed_Division"
begin
unbundle bit_operations_syntax

text \<open>
  Transmit rate control (\<open>vanetza/dcc\<close>): numbers in the unit interval, channel load, the two state
  machines that turn a load into an interval between messages, the budgets over them, LIMERIC,
  and the three rate controls a station can be equipped with. Fractions are rational numbers,
  time counts microseconds as the clock does.
\<close>

section \<open>Circular buffers\<close>

text \<open>
  What the sources use of the circular buffer of Boost beside appending: a new element at the
  front of a full buffer replaces the last one, and \<open>resize\<close> cuts or fills the content at its end
  and only ever raises the capacity.
\<close>

record 'a ring_ops =
  ring_push_back :: "nat \<Rightarrow> 'a \<Rightarrow> 'a list \<Rightarrow> 'a list"
  ring_push_front :: "nat \<Rightarrow> 'a \<Rightarrow> 'a list \<Rightarrow> 'a list"
  ring_resize :: "nat \<Rightarrow> 'a \<Rightarrow> nat \<times> 'a list \<Rightarrow> nat \<times> 'a list"

locale ring_buffer = circular_buffer "ring_push_back rg" for rg :: "'a ring_ops" +
  assumes push_front: "length xs \<le> capacity \<Longrightarrow> ring_push_front rg capacity x xs = take capacity (x # xs)"
    and resize_less: "n \<le> length xs \<Longrightarrow> ring_resize rg n x (capacity, xs) = (capacity, take n xs)"
    and resize_more: "length xs < n \<Longrightarrow> ring_resize rg n x (capacity, xs) = (max capacity n, xs @ replicate (n - length xs) x)"

definition list_ring :: "'a ring_ops" where
  "list_ring = \<lparr>ring_push_back = list_push_back, ring_push_front = (\<lambda>capacity x xs. take capacity (x # xs)),
     ring_resize = (\<lambda>n x (capacity, xs). if n \<le> length xs then (capacity, take n xs) else (max capacity n, xs @ replicate (n - length xs) x))\<rparr>"

interpretation list_ring: ring_buffer list_ring
  by unfold_locales (simp_all add: list_ring_def list_push_back_def)

section \<open>Numbers in the unit interval and channel load\<close>

definition clamp_unit :: "rat \<Rightarrow> rat" where
  "clamp_unit v = (if v > 1 then 1 else if v < 0 then 0 else v)"

definition ui_add :: "rat \<Rightarrow> rat \<Rightarrow> rat" where "ui_add x y = clamp_unit (x + y)"
definition ui_sub :: "rat \<Rightarrow> rat \<Rightarrow> rat" where "ui_sub x y = clamp_unit (x - y)"
definition ui_mul :: "rat \<Rightarrow> rat \<Rightarrow> rat" where "ui_mul x y = x * y"
definition ui_scale :: "rat \<Rightarrow> rat \<Rightarrow> rat" where "ui_scale x v = clamp_unit (x * v)"
definition ui_complement :: "rat \<Rightarrow> rat" where "ui_complement x = 1 - x"
definition ui_mean2 :: "rat \<Rightarrow> rat \<Rightarrow> rat" where "ui_mean2 x y = clamp_unit (1 / 2 * (x + y))"

definition ui_mean :: "rat list \<Rightarrow> rat" where
  "ui_mean xs = clamp_unit (if 1 < length xs then sum_list xs / of_nat (length xs) else sum_list xs)"

definition create_from_probes :: "32 word \<Rightarrow> 32 word \<Rightarrow> rat" where
  "create_from_probes probes_busy probes_total =
     clamp_unit (if probes_total \<noteq> 0 then of_nat (unat probes_busy) / of_nat (unat probes_total) else 0)"

abbreviation in_unit :: "rat \<Rightarrow> bool" where "in_unit x \<equiv> 0 \<le> x \<and> x \<le> 1"

lemma clamp_unit_range [simp]: "in_unit (clamp_unit v)"
  by (simp add: clamp_unit_def)

lemma clamp_unit_id [simp]: "in_unit v \<Longrightarrow> clamp_unit v = v"
  by (simp add: clamp_unit_def)

lemma clamp_unit_mono: "x \<le> y \<Longrightarrow> clamp_unit x \<le> clamp_unit y"
  by (simp add: clamp_unit_def)

lemma clamp_unit_contracts: "\<bar>clamp_unit x - clamp_unit y\<bar> \<le> \<bar>x - y\<bar>"
  by (simp add: clamp_unit_def)

text \<open>The processor of channel probes smoothes the load; the hook it calls afterwards receives the result.\<close>

record SmoothingChannelProbeProcessor =
  sp_alpha :: rat
  sp_channel_load :: rat

definition smoothing_indicate :: "rat \<Rightarrow> SmoothingChannelProbeProcessor \<Rightarrow> SmoothingChannelProbeProcessor" where
  "smoothing_indicate cl sp =
     sp\<lparr>sp_channel_load := ui_add (ui_mul (sp_alpha sp) cl) (ui_mul (ui_complement (sp_alpha sp)) (sp_channel_load sp))\<rparr>"

section \<open>The fully meshed state machine\<close>

definition milliseconds :: "int \<Rightarrow> duration" where "milliseconds n = 1000 * n"
definition chrono_seconds :: "int \<Rightarrow> duration" where "chrono_seconds n = 1000000 * n"

definition NDL_minDccSampling :: duration where "NDL_minDccSampling = milliseconds 100"
definition N_samples_up :: nat where "N_samples_up = nat (chrono_seconds 1 div NDL_minDccSampling)"
definition N_samples_down :: nat where "N_samples_down = nat (chrono_seconds 5 div NDL_minDccSampling)"
definition NDL_minChannelLoad :: rat where "NDL_minChannelLoad = 19 / 100"
definition NDL_maxChannelLoad :: rat where "NDL_maxChannelLoad = 59 / 100"

datatype mesh_state = Relaxed | Active | Restrictive

record FullyMeshedStateMachine =
  fm_state :: mesh_state
  fm_substate :: nat
  fm_channel_loads :: "rat list"

definition new_meshed :: FullyMeshedStateMachine where
  "new_meshed = \<lparr>fm_state = Relaxed, fm_substate = 0, fm_channel_loads = []\<rparr>"

definition active_channel_loads :: "rat list" where
  "active_channel_loads = [27 / 100, 35 / 100, 43 / 100, 51 / 100, 59 / 100]"

definition active_tx_intervals :: "duration list" where
  "active_tx_intervals = [milliseconds 100, milliseconds 180, milliseconds 260, milliseconds 340, milliseconds 420]"

text \<open>The distance that \<open>std::upper_bound\<close> finds in a sorted array.\<close>

definition upper_bound :: "rat list \<Rightarrow> rat \<Rightarrow> nat" where
  "upper_bound xs v = length (takeWhile (\<lambda>x. x \<le> v) xs)"

definition active_update :: "rat \<Rightarrow> rat \<Rightarrow> nat" where
  "active_update min_cl max_cl =
     (let state_up = upper_bound active_channel_loads min_cl;
          state_down = upper_bound active_channel_loads max_cl;
          substate = max state_up state_down
      in min (length active_channel_loads - 1) substate)"

fun min_load_loop :: "nat \<Rightarrow> rat option \<Rightarrow> rat list \<Rightarrow> rat option" where
  "min_load_loop cnt min_cl [] = min_cl"
| "min_load_loop cnt min_cl (sample # samples) =
     (if N_samples_up \<le> cnt then min_cl
      else min_load_loop (Suc cnt) (case min_cl of None \<Rightarrow> Some sample | Some m \<Rightarrow> if sample < m then Some sample else Some m) samples)"

text \<open>The minimum starts at infinity, here \<open>None\<close>.\<close>

definition min_channel_load :: "rat list \<Rightarrow> rat" where
  "min_channel_load loads = (case min_load_loop 0 None loads of None \<Rightarrow> 0 | Some m \<Rightarrow> m)"

fun max_load_loop :: "nat \<Rightarrow> rat \<Rightarrow> rat list \<Rightarrow> rat" where
  "max_load_loop cnt max_cl [] = max_cl"
| "max_load_loop cnt max_cl (sample # samples) =
     (if N_samples_down \<le> cnt then max_cl else max_load_loop (Suc cnt) (if max_cl < sample then sample else max_cl) samples)"

definition max_channel_load :: "rat list \<Rightarrow> rat" where
  "max_channel_load loads = max_load_loop 0 0 loads"

definition meshed_update :: "rat ring_ops \<Rightarrow> rat \<Rightarrow> FullyMeshedStateMachine \<Rightarrow> FullyMeshedStateMachine" where
  "meshed_update rg cl fm =
     (let loads = ring_push_front rg (max N_samples_up N_samples_down) cl (fm_channel_loads fm);
          fm' = fm\<lparr>fm_channel_loads := loads\<rparr>;
          activate = fm'\<lparr>fm_state := Active, fm_substate := active_update (min_channel_load loads) (max_channel_load loads)\<rparr>
      in case fm_state fm of
           Relaxed \<Rightarrow> if NDL_minChannelLoad \<le> min_channel_load loads then activate else fm'
         | Restrictive \<Rightarrow> if max_channel_load loads < NDL_maxChannelLoad then activate else fm'
         | Active \<Rightarrow>
             if max_channel_load loads < NDL_minChannelLoad then fm'\<lparr>fm_state := Relaxed\<rparr>
             else if NDL_maxChannelLoad \<le> min_channel_load loads then fm'\<lparr>fm_state := Restrictive\<rparr>
             else activate)"

definition meshed_transmission_interval :: "FullyMeshedStateMachine \<Rightarrow> duration" where
  "meshed_transmission_interval fm =
     (case fm_state fm of
        Relaxed \<Rightarrow> milliseconds 60
      | Active \<Rightarrow> active_tx_intervals ! min (length active_tx_intervals - 1) (fm_substate fm)
      | Restrictive \<Rightarrow> milliseconds 460)"

definition meshed_message_rate :: "FullyMeshedStateMachine \<Rightarrow> rat" where
  "meshed_message_rate fm = of_int (chrono_seconds 1) / of_int (meshed_transmission_interval fm)"

section \<open>The gradual state machine\<close>

record gradual_state =
  lower_limit :: rat
  off_time :: duration

text \<open>The set of states is ordered by the lower limit; the current state is an iterator into it.\<close>

record GradualStateMachine =
  gs_states :: "gradual_state list"
  gs_current :: nat

definition new_gradual :: "gradual_state list \<Rightarrow> GradualStateMachine" where
  "new_gradual states = \<lparr>gs_states = (if states = [] then [\<lparr>lower_limit = 0, off_time = 0\<rparr>] else states), gs_current = 0\<rparr>"

definition gradual_update :: "rat \<Rightarrow> GradualStateMachine \<Rightarrow> GradualStateMachine" where
  "gradual_update cbr gs =
     (if cbr < lower_limit (gs_states gs ! gs_current gs) then
        if gs_current gs \<noteq> 0 then gs\<lparr>gs_current := gs_current gs - 1\<rparr> else gs
      else
        let up = Suc (gs_current gs)
        in if up \<noteq> length (gs_states gs) \<and> lower_limit (gs_states gs ! up) \<le> cbr then gs\<lparr>gs_current := up\<rparr> else gs)"

definition gradual_transmission_interval :: "GradualStateMachine \<Rightarrow> duration" where
  "gradual_transmission_interval gs = off_time (gs_states gs ! gs_current gs)"

definition etsiStates1ms :: "gradual_state list" where
  "etsiStates1ms = [\<lparr>lower_limit = 0, off_time = milliseconds 100\<rparr>, \<lparr>lower_limit = 30 / 100, off_time = milliseconds 200\<rparr>,
     \<lparr>lower_limit = 40 / 100, off_time = milliseconds 400\<rparr>, \<lparr>lower_limit = 50 / 100, off_time = milliseconds 500\<rparr>,
     \<lparr>lower_limit = 60 / 100, off_time = milliseconds 1000\<rparr>]"

definition etsiStates500us :: "gradual_state list" where
  "etsiStates500us = [\<lparr>lower_limit = 0, off_time = milliseconds 50\<rparr>, \<lparr>lower_limit = 30 / 100, off_time = milliseconds 100\<rparr>,
     \<lparr>lower_limit = 40 / 100, off_time = milliseconds 200\<rparr>, \<lparr>lower_limit = 50 / 100, off_time = milliseconds 250\<rparr>,
     \<lparr>lower_limit = 65 / 100, off_time = milliseconds 1000\<rparr>]"

section \<open>Transmissions\<close>

record DataRateG5 =
  bytes_per_second :: "32 word"
  coded_bits_per_symbol :: "32 word"

definition new_data_rate :: "32 word \<Rightarrow> 32 word \<Rightarrow> DataRateG5" where
  "new_data_rate kbps cbits = \<lparr>bytes_per_second = kbps * 1000 div 8, coded_bits_per_symbol = cbits\<rparr>"

definition G5_6Mbps :: DataRateG5 where "G5_6Mbps = new_data_rate 6000 96"

definition data_length :: "DataRateG5 \<Rightarrow> size_t \<Rightarrow> size_t" where
  "data_length rate psdu =
     (let body = ucast (16 + 6 + psdu * 8);
          padding = body mod coded_bits_per_symbol rate;
          padding = (if 0 < padding then coded_bits_per_symbol rate - padding else padding)
      in ucast ((body + padding) div 8))"

record Transmission =
  tx_profile :: Profile
  tx_data_rate :: "DataRateG5 option"
  tx_body_length :: size_t

definition channel_occupancy :: "Transmission \<Rightarrow> duration" where
  "channel_occupancy tx =
     (let rate = (case tx_data_rate tx of Some rate \<Rightarrow> rate | None \<Rightarrow> G5_6Mbps);
          bytes = data_length rate (tx_body_length tx + 2 + 34);
          data_duration = of_nat (unat bytes) * (1 / of_nat (unat (bytes_per_second rate)))
      in 32 + 8 + trunc (data_duration * 1000000))"

section \<open>Budgets\<close>

record BurstBudget =
  bb_messages :: "time_point list"
  bb_capacity :: nat
  bb_burst_duration :: duration
  bb_burst_period :: duration

definition T_Burst :: duration where "T_Burst = chrono_seconds 1"
definition T_BurstPeriod :: duration where "T_BurstPeriod = chrono_seconds 10"
definition N_Burst :: nat where "N_Burst = 20"

definition new_burst_budget :: BurstBudget where
  "new_burst_budget = \<lparr>bb_messages = [], bb_capacity = N_Burst, bb_burst_duration = T_Burst, bb_burst_period = T_BurstPeriod\<rparr>"

definition burst_delay :: "time_point \<Rightarrow> BurstBudget \<Rightarrow> duration \<times> BurstBudget" where
  "burst_delay now bb =
     (case bb_messages bb of
        [] \<Rightarrow> (0, bb)
      | front # messages \<Rightarrow>
          if now < front + bb_burst_duration bb \<and> length (bb_messages bb) \<noteq> bb_capacity bb then (0, bb)
          else if front + bb_burst_period bb < now then (0, bb\<lparr>bb_messages := []\<rparr>)
          else (front + bb_burst_period bb - now, bb))"

definition burst_notify :: "time_point ring_ops \<Rightarrow> time_point \<Rightarrow> BurstBudget \<Rightarrow> BurstBudget" where
  "burst_notify rg now bb = bb\<lparr>bb_messages := ring_push_back rg (bb_capacity bb) now (bb_messages bb)\<rparr>"

definition burst_messages :: "time_point ring_ops \<Rightarrow> nat \<Rightarrow> BurstBudget \<Rightarrow> BurstBudget" where
  "burst_messages rg n bb =
     (case ring_resize rg n 0 (bb_capacity bb, bb_messages bb) of (capacity, messages) \<Rightarrow> bb\<lparr>bb_capacity := capacity, bb_messages := messages\<rparr>)"

definition set_burst_duration :: "duration \<Rightarrow> BurstBudget \<Rightarrow> BurstBudget" where
  "set_burst_duration d bb = bb\<lparr>bb_burst_duration := d\<rparr>"

definition set_burst_period :: "duration \<Rightarrow> BurstBudget \<Rightarrow> BurstBudget" where
  "set_burst_period p bb = bb\<lparr>bb_burst_period := p\<rparr>"

text \<open>The budget of a state machine holds its current interval against the last transmission.\<close>

definition fsm_budget_delay :: "duration \<Rightarrow> time_point \<Rightarrow> time_point option \<Rightarrow> duration" where
  "fsm_budget_delay tx_interval now last_tx =
     (case last_tx of
        Some last_tx \<Rightarrow> if last_tx + tx_interval < now then 0 else last_tx + tx_interval - now
      | None \<Rightarrow> 0)"

definition fsm_budget_notify :: "time_point \<Rightarrow> time_point option" where
  "fsm_budget_notify now = Some now"

section \<open>LIMERIC\<close>

record LimericParameters =
  lp_alpha :: rat
  lp_beta :: rat
  lp_delta_max :: rat
  lp_delta_min :: rat
  lp_g_plus_max :: rat
  lp_g_minus_max :: rat
  lp_cbr_target :: rat
  lp_cbr_interval :: duration

definition limericDefaultParams :: LimericParameters where
  "limericDefaultParams = \<lparr>lp_alpha = 16 / 1000, lp_beta = 12 / 10000, lp_delta_max = 3 / 100, lp_delta_min = 6 / 10000,
     lp_g_plus_max = 5 / 10000, lp_g_minus_max = - 25 / 100000, lp_cbr_target = 68 / 100, lp_cbr_interval = milliseconds 100\<rparr>"

record DualAlphaParameters =
  alternate_alpha :: rat
  threshold :: rat

definition default_dual_alpha :: DualAlphaParameters where
  "default_dual_alpha = \<lparr>alternate_alpha = 1 / 10, threshold = 1 / 100000\<rparr>"

text \<open>\<open>lm_changes\<close> are the calls of the hook for a new duty cycle, \<open>lm_scheduled\<close> the time points handed to the runtime.\<close>

record Limeric =
  lm_params :: LimericParameters
  lm_dual_alpha :: "DualAlphaParameters option"
  lm_channel_load :: rat
  lm_duty_cycle :: rat
  lm_cbr :: "rat list"
  lm_changes :: "time_point list"
  lm_scheduled :: "time_point list"

definition limeric_time :: "duration \<Rightarrow> time_point \<Rightarrow> time_point" where
  "limeric_time cbr_interval now =
     (let scheduling_interval = 2 * cbr_interval;
          tp = now + scheduling_interval;
          scheduling_bias = tp smod scheduling_interval
      in if cbr_interval < scheduling_bias then tp + (scheduling_interval - scheduling_bias)
         else if 0 < scheduling_bias then tp - scheduling_bias
         else tp)"

definition limeric_schedule :: "time_point \<Rightarrow> Limeric \<Rightarrow> Limeric" where
  "limeric_schedule now lm = lm\<lparr>lm_scheduled := lm_scheduled lm @ [limeric_time (lp_cbr_interval (lm_params lm)) now]\<rparr>"

definition new_limeric :: "LimericParameters \<Rightarrow> time_point \<Rightarrow> Limeric" where
  "new_limeric params now = limeric_schedule now
     \<lparr>lm_params = params, lm_dual_alpha = None, lm_channel_load = 0, lm_duty_cycle = ui_mean2 (lp_delta_max params) (lp_delta_min params),
      lm_cbr = [], lm_changes = [], lm_scheduled = []\<rparr>"

definition average_cbr :: "Limeric \<Rightarrow> rat" where
  "average_cbr lm =
     (if length (lm_cbr lm) = 2 then ui_add (ui_scale (ui_mean (lm_cbr lm)) (1 / 2)) (ui_scale (lm_channel_load lm) (1 / 2))
      else lm_channel_load lm)"

definition update_cbr :: "rat ring_ops \<Rightarrow> rat \<Rightarrow> Limeric \<Rightarrow> Limeric" where
  "update_cbr rg cbr lm =
     (let cbrs = ring_push_back rg 2 cbr (lm_cbr lm);
          lm' = lm\<lparr>lm_cbr := cbrs\<rparr>
      in if length (lm_cbr lm) \<noteq> 2 then lm'\<lparr>lm_channel_load := ui_mean cbrs\<rparr> else lm')"

definition delta_offset :: "LimericParameters \<Rightarrow> rat \<Rightarrow> rat" where
  "delta_offset params channel_load =
     (let cbr_delta = lp_cbr_target params - channel_load
      in if 0 < cbr_delta then min (lp_beta params * cbr_delta) (lp_g_plus_max params)
         else max (lp_beta params * cbr_delta) (lp_g_minus_max params))"

definition limeric_delta :: "LimericParameters \<Rightarrow> rat \<Rightarrow> rat \<Rightarrow> rat \<Rightarrow> rat" where
  "limeric_delta params alpha duty_cycle offset =
     min (max (ui_add (ui_mul (ui_complement alpha) duty_cycle) offset) (lp_delta_min params)) (lp_delta_max params)"

definition calculate_duty_cycle :: "Limeric \<Rightarrow> rat" where
  "calculate_duty_cycle lm =
     (let params = lm_params lm;
          offset = delta_offset params (lm_channel_load lm);
          delta = limeric_delta params (lp_alpha params) (lm_duty_cycle lm) offset
      in case lm_dual_alpha lm of
           None \<Rightarrow> delta
         | Some dual \<Rightarrow> if threshold dual < ui_sub (lm_duty_cycle lm) delta then limeric_delta params (alternate_alpha dual) (lm_duty_cycle lm) offset else delta)"

definition limeric_calculate :: "time_point \<Rightarrow> time_point \<Rightarrow> Limeric \<Rightarrow> Limeric" where
  "limeric_calculate now tp lm =
     (let lm1 = lm\<lparr>lm_channel_load := average_cbr lm\<rparr>;
          lm2 = lm1\<lparr>lm_duty_cycle := calculate_duty_cycle lm1\<rparr>
      in limeric_schedule now (lm2\<lparr>lm_changes := lm_changes lm2 @ [tp]\<rparr>))"

definition configure_dual_alpha :: "DualAlphaParameters option \<Rightarrow> Limeric \<Rightarrow> Limeric" where
  "configure_dual_alpha params lm = lm\<lparr>lm_dual_alpha := params\<rparr>"

section \<open>The budget of LIMERIC\<close>

text \<open>Arithmetic on the representation of the clock, a signed integer of 64 bits.\<close>

definition clock64 :: "int \<Rightarrow> int" where
  "clock64 x = sint (word_of_int x :: 64 word)"

record LimericBudget =
  lb_interval :: duration
  lb_tx_start :: time_point
  lb_tx_on :: duration

definition min_interval :: duration where "min_interval = milliseconds 25"
definition max_interval :: duration where "max_interval = chrono_seconds 1"

definition clamp_interval :: "duration \<Rightarrow> duration" where
  "clamp_interval interval = min (max interval min_interval) max_interval"

definition limeric_budget_delay :: "time_point \<Rightarrow> LimericBudget \<Rightarrow> duration" where
  "limeric_budget_delay now lb =
     (if clock64 (lb_tx_start lb + lb_interval lb) \<le> now then 0
      else clock64 (clock64 (lb_tx_start lb + lb_interval lb) - now))"

text \<open>
  The division of a duration by a duty cycle of zero is infinite; converting it to the clock
  has no defined result and is \<open>None\<close>.
\<close>

definition limeric_budget_notify :: "rat \<Rightarrow> time_point \<Rightarrow> duration \<Rightarrow> LimericBudget \<Rightarrow> LimericBudget option" where
  "limeric_budget_notify duty_cycle now tx_on lb =
     (if duty_cycle = 0 then None
      else Some (lb\<lparr>lb_tx_start := now, lb_tx_on := tx_on, lb_interval := clamp_interval (trunc (of_int tx_on / duty_cycle))\<rparr>))"

definition limeric_budget_update :: "rat \<Rightarrow> time_point \<Rightarrow> LimericBudget \<Rightarrow> LimericBudget" where
  "limeric_budget_update duty_cycle now lb =
     (let delay = clock64 (clock64 (lb_tx_start lb + lb_interval lb) - now)
      in if 0 < duty_cycle then
           if 0 < delay then
             let interval = (of_int (lb_tx_on lb) / duty_cycle) * (of_int delay / of_int (lb_interval lb))
             in lb\<lparr>lb_interval := clamp_interval (clock64 (clock64 (trunc interval + now) - lb_tx_start lb))\<rparr>
           else lb\<lparr>lb_interval := clamp_interval (trunc (of_int (lb_tx_on lb) / duty_cycle))\<rparr>
         else lb\<lparr>lb_interval := max_interval\<rparr>)"

definition new_limeric_budget :: "rat \<Rightarrow> time_point \<Rightarrow> LimericBudget" where
  "new_limeric_budget duty_cycle now =
     limeric_budget_update duty_cycle now \<lparr>lb_interval = min_interval, lb_tx_start = time_point_min, lb_tx_on = 0\<rparr>"

section \<open>Rate controls\<close>

text \<open>
  The interface \<open>TransmitRateControl\<close>: asking for a delay may change the state (the burst budget
  forgets an old burst).
\<close>

record 'r trc_ops =
  trc_delay :: "time_point \<Rightarrow> Transmission \<Rightarrow> 'r \<Rightarrow> duration \<times> 'r"
  trc_interval :: "Transmission \<Rightarrow> 'r \<Rightarrow> duration"
  trc_notify :: "time_point \<Rightarrow> Transmission \<Rightarrow> 'r \<Rightarrow> 'r"

record 'm BurstyTransmitRateControl =
  bt_burst_budget :: BurstBudget
  bt_last_tx :: "time_point option"
  bt_fsm :: 'm

definition bursty_trc :: "time_point ring_ops \<Rightarrow> ('m \<Rightarrow> duration) \<Rightarrow> 'm BurstyTransmitRateControl trc_ops" where
  "bursty_trc rg transmission_interval = \<lparr>
     trc_delay = (\<lambda>now tx bt.
       if tx_profile tx = DP0 then case burst_delay now (bt_burst_budget bt) of (d, bb) \<Rightarrow> (d, bt\<lparr>bt_burst_budget := bb\<rparr>)
       else (fsm_budget_delay (transmission_interval (bt_fsm bt)) now (bt_last_tx bt), bt)),
     trc_interval = (\<lambda>tx bt. if tx_profile tx = DP0 then bb_burst_period (bt_burst_budget bt) else transmission_interval (bt_fsm bt)),
     trc_notify = (\<lambda>now tx bt.
       if tx_profile tx = DP0 then bt\<lparr>bt_burst_budget := burst_notify rg now (bt_burst_budget bt)\<rparr>
       else bt\<lparr>bt_last_tx := fsm_budget_notify now\<rparr>)\<rparr>"

record 'm SingleReactiveTransmitRateControl =
  sr_last_tx :: "time_point option"
  sr_fsm :: 'm

definition single_reactive_trc :: "('m \<Rightarrow> duration) \<Rightarrow> 'm SingleReactiveTransmitRateControl trc_ops" where
  "single_reactive_trc transmission_interval = \<lparr>
     trc_delay = (\<lambda>now tx sr. (fsm_budget_delay (transmission_interval (sr_fsm sr)) now (sr_last_tx sr), sr)),
     trc_interval = (\<lambda>tx sr. transmission_interval (sr_fsm sr)),
     trc_notify = (\<lambda>now tx sr. sr\<lparr>sr_last_tx := fsm_budget_notify now\<rparr>)\<rparr>"

text \<open>
  The budget is kept beside the permit it refers to. LIMERIC only ever grants a positive duty
  cycle; the case without a defined result is left as it is.
\<close>

record LimericTransmitRateControl =
  lt_budget :: LimericBudget
  lt_duty_cycle :: rat

definition limeric_trc :: "LimericTransmitRateControl trc_ops" where
  "limeric_trc = \<lparr>
     trc_delay = (\<lambda>now tx lt. (limeric_budget_delay now (lt_budget lt), lt)),
     trc_interval = (\<lambda>tx lt. lb_interval (lt_budget lt)),
     trc_notify = (\<lambda>now tx lt. case limeric_budget_notify (lt_duty_cycle lt) now (channel_occupancy tx) (lt_budget lt) of
       Some lb \<Rightarrow> lt\<lparr>lt_budget := lb\<rparr> | None \<Rightarrow> lt)\<rparr>"

definition limeric_trc_update :: "rat \<Rightarrow> time_point \<Rightarrow> LimericTransmitRateControl \<Rightarrow> LimericTransmitRateControl" where
  "limeric_trc_update duty_cycle now lt = lt\<lparr>lt_duty_cycle := duty_cycle, lt_budget := limeric_budget_update duty_cycle now (lt_budget lt)\<rparr>"

section \<open>Bursts are limited\<close>

text \<open>All of these messages may be sent at these times, one after the other.\<close>

fun burst_allows :: "time_point ring_ops \<Rightarrow> time_point list \<Rightarrow> BurstBudget \<Rightarrow> bool" where
  "burst_allows rg [] bb = True"
| "burst_allows rg (t # ts) bb = (case burst_delay t bb of (d, bb') \<Rightarrow> d = 0 \<and> burst_allows rg ts (burst_notify rg t bb'))"

text \<open>None of them is sent at the very end of the period of a burst.\<close>

definition period_ends :: "time_point \<Rightarrow> BurstBudget \<Rightarrow> bool" where
  "period_ends t bb \<longleftrightarrow> bb_messages bb \<noteq> [] \<and> bb_messages bb ! 0 + bb_burst_period bb = t"

fun burst_clear :: "time_point ring_ops \<Rightarrow> time_point list \<Rightarrow> BurstBudget \<Rightarrow> bool" where
  "burst_clear rg [] bb = True"
| "burst_clear rg (t # ts) bb = (\<not> period_ends t bb \<and> burst_clear rg ts (burst_notify rg t (snd (burst_delay t bb))))"

text \<open>The messages of a burst stay within its duration.\<close>

definition burst_inv :: "BurstBudget \<Rightarrow> bool" where
  "burst_inv bb \<longleftrightarrow> length (bb_messages bb) \<le> bb_capacity bb \<and> 0 < bb_capacity bb \<and> 0 < bb_burst_duration bb \<and>
     (\<forall>m\<in>set (bb_messages bb). m < bb_messages bb ! 0 + bb_burst_duration bb)"

lemma ring_push_room: "ring_buffer rg \<Longrightarrow> length xs < capacity \<Longrightarrow> ring_push_back rg capacity x xs = xs @ [x]"
  by (rule circular_buffer.push_back_room [OF ring_buffer.axioms(1)])

lemma burst_step:
  assumes "ring_buffer rg" "fst (burst_delay t bb) = 0" "\<not> period_ends t bb" "burst_inv bb"
  shows "\<exists>ms. burst_notify rg t (snd (burst_delay t bb)) = bb\<lparr>bb_messages := ms\<rparr> \<and> length ms \<le> bb_capacity bb \<and>
    (ms = bb_messages bb @ [t] \<and> (bb_messages bb \<noteq> [] \<longrightarrow> t < bb_messages bb ! 0 + bb_burst_duration bb) \<or>
     ms = [t] \<and> bb_messages bb \<noteq> [] \<and> bb_messages bb ! 0 + bb_burst_period bb < t)"
  using assms(2-) by (cases "bb_messages bb")
    (auto simp: burst_delay_def burst_notify_def period_ends_def burst_inv_def ring_push_room [OF assms(1)] split: if_splits)

lemma burst_spread:
  assumes "ring_buffer rg" "burst_allows rg ts bb" "burst_clear rg ts bb" "sorted (bb_messages bb @ ts)" "burst_inv bb"
    "i + bb_capacity bb < length (bb_messages bb @ ts)"
  shows "(bb_messages bb @ ts) ! i + (bb_burst_period bb - bb_burst_duration bb) < (bb_messages bb @ ts) ! (i + bb_capacity bb)"
  using assms(2-)
proof (induction ts arbitrary: bb i)
  case Nil
  then show ?case by (simp add: burst_inv_def)
next
  case (Cons t ts)
  let ?ms = "bb_messages bb"
  from Cons.prems have d: "fst (burst_delay t bb) = 0" "\<not> period_ends t bb" by (auto split: prod.splits)
  obtain ms where ms: "burst_notify rg t (snd (burst_delay t bb)) = bb\<lparr>bb_messages := ms\<rparr>" "length ms \<le> bb_capacity bb"
    "ms = ?ms @ [t] \<and> (?ms \<noteq> [] \<longrightarrow> t < ?ms ! 0 + bb_burst_duration bb) \<or> ms = [t] \<and> ?ms \<noteq> [] \<and> ?ms ! 0 + bb_burst_period bb < t"
    using burst_step [OF assms(1) d Cons.prems(4)] by blast
  let ?bb = "bb\<lparr>bb_messages := ms\<rparr>"
  have run: "burst_allows rg ts ?bb" "burst_clear rg ts ?bb" using Cons.prems(1,2) ms(1) by (auto split: prod.splits)
  have inv: "burst_inv ?bb" using Cons.prems(4) ms(2,3) by (auto simp: burst_inv_def nth_append)
  have sorted: "sorted (bb_messages ?bb @ ts)" using Cons.prems(3) ms(3) by (auto simp: sorted_append)
  note IH = Cons.IH [OF run sorted inv]
  from ms(3) show ?case
  proof (elim disjE conjE)
    assume "ms = ?ms @ [t]"
    then show ?thesis using IH [of i] Cons.prems(5) by simp
  next
    assume new: "ms = [t]" "?ms \<noteq> []" "?ms ! 0 + bb_burst_period bb < t"
    have cap: "length ?ms \<le> bb_capacity bb" using Cons.prems(4) by (simp add: burst_inv_def)
    show ?thesis
    proof (cases "i < length ?ms")
      case True
      then have "?ms ! i < ?ms ! 0 + bb_burst_duration bb" using Cons.prems(4) by (simp add: burst_inv_def)
      moreover have "t \<le> (t # ts) ! (i + bb_capacity bb - length ?ms)"
        using Cons.prems(3,5) cap by (cases "i + bb_capacity bb - length ?ms") (auto simp: sorted_append)
      ultimately show ?thesis using new(3) True cap by (simp add: nth_append)
    next
      case False
      then show ?thesis using IH [of "i - length ?ms"] Cons.prems(5) new(1) by (simp add: nth_append)
    qed
  qed
qed

text \<open>
  C14: bursts stay within their budget. If every message is sent when the budget of a fresh
  station allows it, and none at the very end of the period of a burst, then between a message
  and the one twenty later, or as many as the budget holds, more time passes than the period
  without the duration of a burst.
\<close>

theorem burst_limit:
  assumes "ring_buffer rg" "burst_allows rg ts new_burst_budget" "burst_clear rg ts new_burst_budget" "sorted ts" "i + N_Burst < length ts"
  shows "ts ! i + (T_BurstPeriod - T_Burst) < ts ! (i + N_Burst)"
  using burst_spread [of rg ts new_burst_budget i] assms
  by (simp add: new_burst_budget_def burst_inv_def N_Burst_def T_Burst_def chrono_seconds_def)

theorem burst_limit_witness:
  "(replicate 20 0 @ [10000001]) ! 0 + (T_BurstPeriod - T_Burst) < (replicate 20 0 @ [10000001]) ! (0 + N_Burst)"
proof -
  have "burst_allows list_ring (replicate 20 0 @ [10000001]) new_burst_budget" "burst_clear list_ring (replicate 20 0 @ [10000001]) new_burst_budget"
    "sorted (replicate 20 0 @ [10000001 :: int])" "0 + N_Burst < length (replicate 20 0 @ [10000001 :: int])"
    by code_simp+
  then show ?thesis by (rule burst_limit [OF list_ring.ring_buffer_axioms])
qed

lemma burst_fill:
  assumes "ring_buffer rg" "length ms + n \<le> bb_capacity bb" "0 < bb_burst_duration bb" "bb_burst_duration bb < bb_burst_period bb"
    "ms \<noteq> [] \<Longrightarrow> t < ms ! 0 + bb_burst_duration bb \<or> t = ms ! 0 + bb_burst_period bb"
    "burst_allows rg ts (bb\<lparr>bb_messages := ms @ replicate n t\<rparr>)"
  shows "burst_allows rg (replicate n t @ ts) (bb\<lparr>bb_messages := ms\<rparr>)"
  using assms(2,5,6)
proof (induction n arbitrary: ms)
  case (Suc n)
  have "burst_delay t (bb\<lparr>bb_messages := ms\<rparr>) = (0, bb\<lparr>bb_messages := ms\<rparr>)"
    using Suc.prems(1,2) by (cases ms) (auto simp: burst_delay_def)
  moreover have "burst_notify rg t (bb\<lparr>bb_messages := ms\<rparr>) = bb\<lparr>bb_messages := ms @ [t]\<rparr>"
    using Suc.prems(1) by (simp add: burst_notify_def ring_push_room [OF assms(1)])
  moreover have "burst_allows rg (replicate n t @ ts) (bb\<lparr>bb_messages := ms @ [t]\<rparr>)"
    using Suc.prems assms(3) by (intro Suc.IH) (auto simp: nth_append)
  ultimately show ?case by simp
qed simp

text \<open>
  C15: at the very end of a period every budget is exceeded. Let an empty budget of any capacity get
  \<open>k\<close> messages at a time, at least one and at most the capacity. Then it allows the rest of the capacity
  exactly one period later, and once more its whole capacity in the next tick of the clock: within
  these two ticks twice the capacity less \<open>k\<close> messages. With one early message and the constants of
  the standard, this is 39 messages instead of 20.
\<close>

theorem burst_exceeded:
  assumes "ring_buffer rg" "bb_messages bb = []" "0 < bb_burst_duration bb" "bb_burst_duration bb < bb_burst_period bb"
    "1 \<le> k" "k \<le> bb_capacity bb"
  shows "burst_allows rg (replicate k t @ replicate (bb_capacity bb - k) (t + bb_burst_period bb) @
    replicate (bb_capacity bb) (t + bb_burst_period bb + 1)) bb"
proof -
  let ?c = "bb_capacity bb" and ?later = "t + bb_burst_period bb"
  let ?full = "replicate k t @ replicate (?c - k) ?later"
  obtain c where c: "?c = Suc c" using assms(5,6) by (cases ?c) auto
  have front: "?full ! 0 = t" "?full \<noteq> []" using assms(5) by (simp_all add: nth_append)
  then have "burst_delay (?later + 1) (bb\<lparr>bb_messages := ?full\<rparr>) = (0, bb\<lparr>bb_messages := []\<rparr>)"
    using assms(3,4) by (cases ?full) (auto simp: burst_delay_def)
  moreover have "burst_notify rg (?later + 1) (bb\<lparr>bb_messages := []\<rparr>) = bb\<lparr>bb_messages := [?later + 1]\<rparr>"
    by (simp add: burst_notify_def ring_push_room [OF assms(1)] c)
  moreover have "burst_allows rg (replicate c (?later + 1) @ []) (bb\<lparr>bb_messages := [?later + 1]\<rparr>)"
    using assms(3,4) by (intro burst_fill [OF assms(1)]) (simp_all add: c)
  ultimately have "burst_allows rg (replicate ?c (?later + 1)) (bb\<lparr>bb_messages := ?full\<rparr>)" by (simp add: c)
  then have "burst_allows rg (replicate (?c - k) ?later @ replicate ?c (?later + 1)) (bb\<lparr>bb_messages := replicate k t\<rparr>)"
    using assms(3-6) by - (rule burst_fill [OF assms(1)], simp_all)
  then have "burst_allows rg (replicate k t @ replicate (?c - k) ?later @ replicate ?c (?later + 1)) (bb\<lparr>bb_messages := []\<rparr>)"
    using assms(3-6) by - (rule burst_fill [OF assms(1)], simp_all)
  moreover have "bb\<lparr>bb_messages := []\<rparr> = bb" using assms(2) by simp
  ultimately show ?thesis by simp
qed

theorem burst_exceeded_witness:
  "burst_allows list_ring ([0] @ replicate 19 10000000 @ replicate 20 10000001) new_burst_budget"
  using burst_exceeded [OF list_ring.ring_buffer_axioms, of new_burst_budget 1 0]
  by (simp add: new_burst_budget_def T_Burst_def T_BurstPeriod_def N_Burst_def chrono_seconds_def)

end
