(* ===== verification/Dcc_Laws.thy ===== *)
theory Dcc_Laws
  imports Dcc_Rate
begin

text \<open>
  Laws of rate control: the fully meshed state machine against a specification over the history
  of loads, the gradual state machine under constant load, and LIMERIC, whose permits of
  stations on one channel converge and stay within their bounds.
\<close>

section \<open>The state machines\<close>

lemma sample_counts [simp]: "N_samples_up = 10" "N_samples_down = 50"
  by (simp_all add: N_samples_up_def N_samples_down_def NDL_minDccSampling_def chrono_seconds_def milliseconds_def)

lemma min_load_loop_bound:
  "\<exists>m'. min_load_loop cnt (Some m) loads = Some m' \<and> (c \<le> m' \<longleftrightarrow> c \<le> m \<and> (\<forall>x\<in>set (take (10 - cnt) loads). c \<le> x))"
proof (induction loads arbitrary: cnt m)
  case (Cons x loads)
  show ?case
  proof (cases "10 \<le> cnt")
    case False
    then have "10 - cnt = Suc (10 - Suc cnt)" by simp
    then show ?thesis using False Cons.IH [of "Suc cnt" x] Cons.IH [of "Suc cnt" m] by auto
  qed simp
qed simp

lemma min_channel_load_bound: "loads \<noteq> [] \<Longrightarrow> c \<le> min_channel_load loads \<longleftrightarrow> (\<forall>x\<in>set (take 10 loads). c \<le> x)"
  using min_load_loop_bound [of "Suc 0" "List.hd loads" "tl loads" c]
  by (cases loads) (auto simp: min_channel_load_def take_Cons' split: option.splits)

lemma max_load_loop_bound: "max_load_loop cnt m loads < c \<longleftrightarrow> m < c \<and> (\<forall>x\<in>set (take (50 - cnt) loads). x < c)"
proof (induction loads arbitrary: cnt m)
  case (Cons x loads)
  show ?case
  proof (cases "50 \<le> cnt")
    case False
    then have "50 - cnt = Suc (50 - Suc cnt)" by simp
    then show ?thesis using False Cons.IH [of "Suc cnt"] by auto
  qed simp
qed simp

lemma max_channel_load_bound: "max_channel_load loads < c \<longleftrightarrow> 0 < c \<and> (\<forall>x\<in>set (take 50 loads). x < c)"
  by (simp add: max_channel_load_def max_load_loop_bound)

text \<open>
  The specification: the state follows from the whole history of measured loads, newest first.
  Loads have to be high for a second before the state gets more restrictive and low for five
  seconds before it relaxes.
\<close>

fun mesh_spec :: "rat list \<Rightarrow> mesh_state" where
  "mesh_spec [] = Relaxed"
| "mesh_spec (cl # history) =
     (let busy = (\<lambda>c. \<forall>x\<in>set (take 10 (cl # history)). c \<le> x); calm = (\<lambda>c. \<forall>x\<in>set (take 50 (cl # history)). x < c)
      in case mesh_spec history of
           Relaxed \<Rightarrow> if busy (19 / 100) then Active else Relaxed
         | Restrictive \<Rightarrow> if calm (59 / 100) then Active else Restrictive
         | Active \<Rightarrow> if calm (19 / 100) then Relaxed else if busy (59 / 100) then Restrictive else Active)"

text \<open>The substate counts the thresholds that the peak of the last five seconds has reached.\<close>

definition peak_substate :: "rat list \<Rightarrow> nat" where
  "peak_substate history = length (filter (\<lambda>c. \<exists>x\<in>set (take 50 history). c \<le> x) [27 / 100, 35 / 100, 43 / 100, 51 / 100])"

definition mesh_interval_spec :: "rat list \<Rightarrow> duration" where
  "mesh_interval_spec history =
     (case mesh_spec history of Relaxed \<Rightarrow> milliseconds 60 | Active \<Rightarrow> milliseconds (100 + 80 * int (peak_substate history)) | Restrictive \<Rightarrow> milliseconds 460)"

fun meshed_run :: "rat ring_ops \<Rightarrow> rat list \<Rightarrow> FullyMeshedStateMachine" where
  "meshed_run rg [] = new_meshed"
| "meshed_run rg (cl # history) = meshed_update rg cl (meshed_run rg history)"

lemma upper_bound_mono: "v \<le> w \<Longrightarrow> upper_bound xs v \<le> upper_bound xs w"
  by (induction xs) (auto simp: upper_bound_def)

lemma thresholds_reached:
  "min (length active_channel_loads - 1) (upper_bound active_channel_loads v) = length (filter (\<lambda>c. c \<le> v) [27 / 100, 35 / 100, 43 / 100, 51 / 100])"
  by (simp add: upper_bound_def active_channel_loads_def)

lemma active_update_peak:
  assumes "loads \<noteq> []" "\<forall>x\<in>set loads. 0 \<le> x"
  shows "active_update (min_channel_load loads) (max_channel_load loads) = peak_substate loads"
proof -
  let ?min = "min_channel_load loads" and ?max = "max_channel_load loads"
  have reached: "c \<le> ?max \<longleftrightarrow> (\<exists>x\<in>set (take 50 loads). c \<le> x)" if "0 < c" for c
    using max_channel_load_bound [of loads c] that by (auto simp: not_less [symmetric])
  obtain x where x: "x \<in> set (take 10 loads)" "x \<in> set (take 50 loads)" using assms(1) by (cases loads) auto
  have "?min \<le> x" using min_channel_load_bound [OF assms(1), of ?min] x(1) by blast
  moreover have "x \<le> ?max" using max_channel_load_bound [of loads x] max_channel_load_bound [of loads ?max] x(2) by force
  ultimately have "?min \<le> ?max" by simp
  then have "active_update ?min ?max = length (filter (\<lambda>c. c \<le> ?max) [27 / 100, 35 / 100, 43 / 100, 51 / 100])"
    unfolding thresholds_reached [symmetric] active_update_def Let_def using upper_bound_mono by (simp add: max_absorb2)
  also have "\<dots> = peak_substate loads" unfolding peak_substate_def by (intro arg_cong [of _ _ length] filter_cong) (auto simp: reached)
  finally show ?thesis .
qed

lemma peak_substate_take [simp]: "peak_substate (take 50 history) = peak_substate history"
  by (simp add: peak_substate_def)

lemma peak_substate_le: "peak_substate history \<le> 4"
  unfolding peak_substate_def by (rule order_trans [OF length_filter_le]) simp

lemma meshed_run_invariant:
  assumes "ring_buffer rg" "\<forall>x\<in>set history. 0 \<le> x"
  shows "fm_channel_loads (meshed_run rg history) = take 50 history \<and> fm_state (meshed_run rg history) = mesh_spec history \<and>
    (mesh_spec history = Active \<longrightarrow> fm_substate (meshed_run rg history) = peak_substate history)"
  using assms(2)
proof (induction history)
  case Nil
  then show ?case by (simp add: new_meshed_def)
next
  case (Cons cl history)
  let ?loads = "take 50 (cl # history)"
  have push: "ring_push_front rg 50 cl (take 50 history) = ?loads" using ring_buffer.push_front [OF assms(1), of "take 50 history" 50 cl] by (simp add: min_def)
  have pos: "\<forall>x\<in>set ?loads. 0 \<le> x" "?loads \<noteq> []" using Cons.prems set_take_subset [of 50 "cl # history"] by auto
  have bounds: "c \<le> min_channel_load ?loads \<longleftrightarrow> (\<forall>x\<in>set (take 10 (cl # history)). c \<le> x)"
    "0 < c \<Longrightarrow> max_channel_load ?loads < c \<longleftrightarrow> (\<forall>x\<in>set (take 50 (cl # history)). x < c)" for c
    using min_channel_load_bound [OF pos(2)] max_channel_load_bound [of ?loads] by (simp_all add: min_def)
  have busy: "NDL_minChannelLoad \<le> min_channel_load ?loads \<longleftrightarrow> (\<forall>x\<in>set (take 10 (cl # history)). 19 / 100 \<le> x)"
    "NDL_maxChannelLoad \<le> min_channel_load ?loads \<longleftrightarrow> (\<forall>x\<in>set (take 10 (cl # history)). 59 / 100 \<le> x)"
    and calm: "max_channel_load ?loads < NDL_minChannelLoad \<longleftrightarrow> (\<forall>x\<in>set (take 50 (cl # history)). x < 19 / 100)"
    "max_channel_load ?loads < NDL_maxChannelLoad \<longleftrightarrow> (\<forall>x\<in>set (take 50 (cl # history)). x < 59 / 100)"
    unfolding NDL_minChannelLoad_def NDL_maxChannelLoad_def by (rule bounds | simp)+
  have "active_update (min_channel_load ?loads) (max_channel_load ?loads) = peak_substate (cl # history)"
    using active_update_peak [OF pos(2,1)] by (simp only: peak_substate_take)
  then show ?case using Cons push busy calm by (cases "mesh_spec history") (simp_all add: meshed_update_def Let_def)
qed

text \<open>
  C20: the fully meshed state machine behaves as its specification over the whole history of
  loads. It becomes active, or restrictive, when all loads of the last second have reached 19,
  or 59, percent, and relaxes again when all loads of the last five seconds are below. While it
  is active the interval between messages follows the peak of the last five seconds alone.
\<close>

theorem meshed_refines:
  assumes "ring_buffer rg" "\<forall>x\<in>set history. 0 \<le> x"
  shows "fm_state (meshed_run rg history) = mesh_spec history \<and> meshed_transmission_interval (meshed_run rg history) = mesh_interval_spec history"
proof -
  have "active_tx_intervals ! n = milliseconds (100 + 80 * int n)" if "n \<le> 4" for n
    using that by (auto simp: active_tx_intervals_def numeral_eq_Suc le_Suc_eq milliseconds_def)
  moreover have "min (length active_tx_intervals - 1) (peak_substate history) = peak_substate history"
    using peak_substate_le [of history] by (simp add: active_tx_intervals_def)
  ultimately show ?thesis using meshed_run_invariant [OF assms] peak_substate_le [of history]
    by (auto simp: meshed_transmission_interval_def mesh_interval_spec_def split: mesh_state.splits)
qed

theorem meshed_refines_witness:
  "meshed_transmission_interval (meshed_run list_ring [1, 20 / 100]) = milliseconds 420"
proof -
  have "meshed_transmission_interval (meshed_run list_ring [1, 20 / 100]) = mesh_interval_spec [1, 20 / 100]"
    using meshed_refines [OF list_ring.ring_buffer_axioms, of "[1, 20 / 100]"] by simp
  also have "\<dots> = milliseconds 420" by code_simp
  finally show ?thesis .
qed

text \<open>The state in which a constant load belongs: the last one whose limit it reaches.\<close>

definition gradual_target :: "rat \<Rightarrow> gradual_state list \<Rightarrow> nat" where
  "gradual_target cbr states = length (filter (\<lambda>s. lower_limit s \<le> cbr) states) - 1"

lemma sorted_limits_reached:
  assumes "sorted_wrt (\<lambda>s t. lower_limit s < lower_limit t) states" "k < length states"
  shows "lower_limit (states ! k) \<le> cbr \<longleftrightarrow> k < length (filter (\<lambda>s. lower_limit s \<le> cbr) states)"
  using assms
proof (induction states arbitrary: k)
  case (Cons s states)
  show ?case
  proof (cases "lower_limit s \<le> cbr")
    case True
    then show ?thesis using Cons by (cases k) auto
  next
    case False
    then have "filter (\<lambda>s. lower_limit s \<le> cbr) states = []" using Cons.prems(1) by (force simp: filter_empty_conv)
    moreover have "lower_limit s \<le> lower_limit ((s # states) ! k)" using Cons.prems by (cases k) (auto simp: less_imp_le)
    ultimately show ?thesis using False by simp
  qed
qed simp

lemma gradual_step:
  assumes "sorted_wrt (\<lambda>s t. lower_limit s < lower_limit t) (gs_states gs)" "gs_current gs < length (gs_states gs)"
  shows "gs_states (gradual_update cbr gs) = gs_states gs \<and>
    gs_current (gradual_update cbr gs) = (let t = gradual_target cbr (gs_states gs); k = gs_current gs in if k < t then Suc k else if t < k then k - 1 else k)"
proof -
  let ?n = "length (filter (\<lambda>s. lower_limit s \<le> cbr) (gs_states gs))"
  have here: "cbr < lower_limit (gs_states gs ! gs_current gs) \<longleftrightarrow> ?n \<le> gs_current gs"
    using sorted_limits_reached [OF assms, of cbr] by (simp add: not_le [symmetric])
  have up: "Suc (gs_current gs) \<noteq> length (gs_states gs) \<and> lower_limit (gs_states gs ! Suc (gs_current gs)) \<le> cbr \<longleftrightarrow> Suc (gs_current gs) < ?n"
    using sorted_limits_reached [OF assms(1), of "Suc (gs_current gs)" cbr] assms(2) length_filter_le [of "\<lambda>s. lower_limit s \<le> cbr" "gs_states gs"]
    by (cases "Suc (gs_current gs) = length (gs_states gs)") (auto simp flip: not_le)
  show ?thesis unfolding gradual_update_def here Let_def up gradual_target_def by auto
qed

lemma gradual_target_less: "states \<noteq> [] \<Longrightarrow> gradual_target cbr states < length states"
  using length_filter_le [of "\<lambda>s. lower_limit s \<le> cbr" states] by (cases states) (auto simp: gradual_target_def)

lemma gradual_steps:
  assumes "sorted_wrt (\<lambda>s t. lower_limit s < lower_limit t) (gs_states gs)" "gs_current gs < length (gs_states gs)"
  shows "gs_states ((gradual_update cbr ^^ n) gs) = gs_states gs \<and> gs_current ((gradual_update cbr ^^ n) gs) < length (gs_states gs) \<and>
    (let t = int (gradual_target cbr (gs_states gs)) in \<bar>t - int (gs_current ((gradual_update cbr ^^ n) gs))\<bar> = max 0 (\<bar>t - int (gs_current gs)\<bar> - int n))"
proof (induction n)
  case 0
  then show ?case using assms by (simp add: Let_def)
next
  case (Suc n)
  let ?gs = "(gradual_update cbr ^^ n) gs"
  have t: "gradual_target cbr (gs_states gs) < length (gs_states gs)" using assms(2) by (intro gradual_target_less) auto
  have "sorted_wrt (\<lambda>s t. lower_limit s < lower_limit t) (gs_states ?gs)" "gs_current ?gs < length (gs_states ?gs)" using Suc assms(1) by simp_all
  from gradual_step [OF this, of cbr] show ?case using Suc t by (auto simp: Let_def)
qed

text \<open>
  C23: the gradual state machine moves to a neighbouring state at most and settles. Under a
  constant load it reaches the state in which the load belongs, the last one whose lower limit
  is reached, after at most as many updates as there are states, and stays there.
\<close>

theorem gradual_settles:
  assumes "sorted_wrt (\<lambda>s t. lower_limit s < lower_limit t) (gs_states gs)" "gs_current gs < length (gs_states gs)"
  shows "gs_current (gradual_update cbr gs) \<le> Suc (gs_current gs) \<and> gs_current gs \<le> Suc (gs_current (gradual_update cbr gs)) \<and>
    (\<forall>n\<ge>length (gs_states gs) - 1. gradual_transmission_interval ((gradual_update cbr ^^ n) gs) = off_time (gs_states gs ! gradual_target cbr (gs_states gs)))"
proof (intro conjI allI impI)
  show "gs_current (gradual_update cbr gs) \<le> Suc (gs_current gs)" "gs_current gs \<le> Suc (gs_current (gradual_update cbr gs))"
    using gradual_step [OF assms, of cbr] by (auto simp: Let_def)
next
  fix n assume n: "length (gs_states gs) - 1 \<le> n"
  have "gradual_target cbr (gs_states gs) < length (gs_states gs)" using assms(2) by (intro gradual_target_less) auto
  then have "gs_current ((gradual_update cbr ^^ n) gs) = gradual_target cbr (gs_states gs)"
    using gradual_steps [OF assms, where cbr = cbr and n = n] n assms(2) by (auto simp: Let_def)
  then show "gradual_transmission_interval ((gradual_update cbr ^^ n) gs) = off_time (gs_states gs ! gradual_target cbr (gs_states gs))"
    using gradual_steps [OF assms, where cbr = cbr and n = n] by (simp add: gradual_transmission_interval_def)
qed

theorem gradual_settles_witness:
  "gradual_transmission_interval ((gradual_update (45 / 100) ^^ 4) (new_gradual etsiStates1ms)) = milliseconds 400"
proof -
  let ?gs = "new_gradual etsiStates1ms"
  have gs: "gs_states ?gs = etsiStates1ms" by (simp add: new_gradual_def etsiStates1ms_def)
  have "sorted_wrt (\<lambda>s t. lower_limit s < lower_limit t) (gs_states ?gs)" "gs_current ?gs < length (gs_states ?gs)"
    unfolding gs by (simp_all add: etsiStates1ms_def new_gradual_def)
  from gradual_settles [OF this, of "45 / 100"] have "gradual_transmission_interval ((gradual_update (45 / 100) ^^ 4) ?gs) =
      off_time (etsiStates1ms ! gradual_target (45 / 100) etsiStates1ms)" unfolding gs by (simp add: etsiStates1ms_def)
  also have "\<dots> = milliseconds 400" by (simp add: etsiStates1ms_def gradual_target_def)
  finally show ?thesis .
qed

section \<open>Laws of LIMERIC\<close>

lemma limeric_delta_range:
  "lp_delta_min params \<le> lp_delta_max params \<Longrightarrow> lp_delta_min params \<le> limeric_delta params alpha d offset \<and> limeric_delta params alpha d offset \<le> lp_delta_max params"
  by (simp add: limeric_delta_def)

lemma limeric_delta_contracts:
  assumes "in_unit alpha"
  shows "\<bar>limeric_delta params alpha d1 offset - limeric_delta params alpha d2 offset\<bar> \<le> (1 - alpha) * \<bar>d1 - d2\<bar>"
proof -
  let ?f = "\<lambda>d. ui_add (ui_mul (ui_complement alpha) d) offset"
  have "\<bar>limeric_delta params alpha d1 offset - limeric_delta params alpha d2 offset\<bar> \<le> \<bar>?f d1 - ?f d2\<bar>" by (simp add: limeric_delta_def)
  also have "\<dots> \<le> \<bar>(1 - alpha) * d1 + offset - ((1 - alpha) * d2 + offset)\<bar>" unfolding ui_add_def ui_mul_def ui_complement_def by (rule clamp_unit_contracts)
  also have "(1 - alpha) * d1 + offset - ((1 - alpha) * d2 + offset) = (1 - alpha) * (d1 - d2)" by (simp add: algebra_simps)
  also have "\<bar>(1 - alpha) * (d1 - d2)\<bar> = (1 - alpha) * \<bar>d1 - d2\<bar>" using assms by (simp add: abs_mult)
  finally show ?thesis .
qed

text \<open>What happens at a station: measured loads, and the calculations of its timer.\<close>

datatype limeric_event = Measured rat | Calculated time_point time_point

fun limeric_react :: "rat ring_ops \<Rightarrow> limeric_event \<Rightarrow> Limeric \<Rightarrow> Limeric" where
  "limeric_react rg (Measured cbr) lm = update_cbr rg cbr lm"
| "limeric_react rg (Calculated now tp) lm = limeric_calculate now tp lm"

fun calculations :: "limeric_event list \<Rightarrow> nat" where
  "calculations [] = 0"
| "calculations (Measured cbr # es) = calculations es"
| "calculations (Calculated now tp # es) = Suc (calculations es)"

text \<open>Two stations that hear the same channel.\<close>

definition same_channel :: "Limeric \<Rightarrow> Limeric \<Rightarrow> bool" where
  "same_channel a b \<longleftrightarrow> lm_params a = lm_params b \<and> lm_dual_alpha a = None \<and> lm_dual_alpha b = None \<and> lm_channel_load a = lm_channel_load b \<and> lm_cbr a = lm_cbr b"

lemma same_channel_event: "same_channel a b \<Longrightarrow> same_channel (limeric_react rg e a) (limeric_react rg e b) \<and> lm_params (limeric_react rg e a) = lm_params a"
  by (cases e) (auto simp: same_channel_def update_cbr_def limeric_calculate_def limeric_schedule_def average_cbr_def Let_def)

lemma same_channel_closer:
  assumes "same_channel a b" "in_unit (lp_alpha (lm_params a))"
  shows "\<bar>lm_duty_cycle (limeric_react rg e a) - lm_duty_cycle (limeric_react rg e b)\<bar> \<le> (1 - lp_alpha (lm_params a)) ^ calculations [e] * \<bar>lm_duty_cycle a - lm_duty_cycle b\<bar>"
  using assms limeric_delta_contracts [OF assms(2), of "lm_params a" "lm_duty_cycle a" _ "lm_duty_cycle b"]
  by (cases e) (auto simp: same_channel_def update_cbr_def limeric_calculate_def limeric_schedule_def average_cbr_def calculate_duty_cycle_def Let_def)

text \<open>
  C21: LIMERIC without dual alpha is fair. Two stations with the same parameters, both with dual
  alpha disabled, that hear the same channel load and calculate at the same times get ever closer in
  the share of the channel they are permitted, whatever the loads are: with every calculation the
  difference shrinks at least by the factor one minus alpha. With dual alpha two stations on
  either side of its threshold use different alphas; nothing is claimed for them.
\<close>

theorem limeric_fair:
  assumes "same_channel a b" "in_unit (lp_alpha (lm_params a))"
  shows "\<bar>lm_duty_cycle (fold (limeric_react rg) es a) - lm_duty_cycle (fold (limeric_react rg) es b)\<bar> \<le>
    (1 - lp_alpha (lm_params a)) ^ calculations es * \<bar>lm_duty_cycle a - lm_duty_cycle b\<bar>"
  using assms
proof (induction es arbitrary: a b)
  case (Cons e es)
  let ?a = "limeric_react rg e a" and ?b = "limeric_react rg e b" and ?q = "1 - lp_alpha (lm_params a)"
  have s: "same_channel ?a ?b" "lm_params ?a = lm_params a" using same_channel_event [OF Cons.prems(1)] by simp_all
  have "\<bar>lm_duty_cycle (fold (limeric_react rg) es ?a) - lm_duty_cycle (fold (limeric_react rg) es ?b)\<bar> \<le> ?q ^ calculations es * \<bar>lm_duty_cycle ?a - lm_duty_cycle ?b\<bar>"
    using Cons.IH [OF s(1)] s(2) Cons.prems(2) by simp
  also have "\<dots> \<le> ?q ^ calculations es * (?q ^ calculations [e] * \<bar>lm_duty_cycle a - lm_duty_cycle b\<bar>)"
    using same_channel_closer [OF Cons.prems] Cons.prems(2) by (intro mult_left_mono) simp_all
  also have "\<dots> = ?q ^ calculations (e # es) * \<bar>lm_duty_cycle a - lm_duty_cycle b\<bar>" by (cases e) (simp_all add: power_commutes)
  finally show ?case by simp
qed simp

theorem limeric_fair_witness:
  "let a = new_limeric limericDefaultParams 0; b = a\<lparr>lm_duty_cycle := 1 / 100\<rparr>; es = [Measured (1 / 2), Calculated 200000 200000, Calculated 400000 400000]
   in \<bar>lm_duty_cycle (fold (limeric_react list_ring) es a) - lm_duty_cycle (fold (limeric_react list_ring) es b)\<bar> \<le> (984 / 1000) ^ 2 * \<bar>lm_duty_cycle a - 1 / 100\<bar>"
proof -
  let ?a = "new_limeric limericDefaultParams 0" and ?es = "[Measured (1 / 2), Calculated 200000 200000, Calculated 400000 400000]"
  let ?b = "?a\<lparr>lm_duty_cycle := 1 / 100\<rparr>"
  have same: "same_channel ?a ?b" and alpha: "lp_alpha (lm_params ?a) = 16 / 1000"
    by (simp_all add: same_channel_def new_limeric_def limeric_schedule_def limericDefaultParams_def)
  have unit: "in_unit (lp_alpha (lm_params ?a))" unfolding alpha by simp
  have nums: "1 - 16 / 1000 = (984 / 1000 :: rat)" "calculations ?es = 2" "lm_duty_cycle ?b = 1 / 100" by simp_all
  show ?thesis using limeric_fair [OF same unit, of list_ring ?es] unfolding Let_def alpha nums .
qed

lemma smod_nonneg: "0 \<le> a \<Longrightarrow> 0 < b \<Longrightarrow> a smod b = a mod (b :: int)"
  by (simp add: signed_modulo_int_def sgn_if zmod_trivial_iff)

lemma limeric_time_rhythm:
  assumes "0 < cbr_interval" "0 \<le> now"
  shows "limeric_time cbr_interval now mod (2 * cbr_interval) = 0 \<and> now + cbr_interval \<le> limeric_time cbr_interval now \<and> limeric_time cbr_interval now \<le> now + 3 * cbr_interval"
proof -
  let ?tp = "now + 2 * cbr_interval" and ?i = "2 * cbr_interval"
  define m where "m = ?tp mod ?i"
  have bias: "?tp smod ?i = m" "0 \<le> m" "m < ?i" using assms by (simp_all add: smod_nonneg m_def)
  have down: "(?tp - m) mod ?i = 0" by (simp add: m_def mod_diff_right_eq)
  then have up: "(?tp + (?i - m)) mod ?i = 0" by (metis add_diff_eq diff_add_eq mod_add_self2)
  have none: "?tp mod ?i = 0" if "m = 0" using that by (simp only: m_def)
  have m: "m = 0" if "\<not> 0 < m" using that bias(2) by linarith
  show ?thesis unfolding limeric_time_def Let_def bias(1) using down up none m assms bias(2,3) by (simp split: if_split)
qed

text \<open>The states of LIMERIC under measurements, timers and configuration.\<close>

inductive limeric_reachable :: "rat ring_ops \<Rightarrow> LimericParameters \<Rightarrow> Limeric \<Rightarrow> bool" for rg params where
  start: "0 \<le> now \<Longrightarrow> limeric_reachable rg params (new_limeric params now)"
| measured: "limeric_reachable rg params lm \<Longrightarrow> limeric_reachable rg params (update_cbr rg cbr lm)"
| calculated: "limeric_reachable rg params lm \<Longrightarrow> 0 \<le> now \<Longrightarrow> limeric_reachable rg params (limeric_calculate now tp lm)"
| configured: "limeric_reachable rg params lm \<Longrightarrow> limeric_reachable rg params (configure_dual_alpha dual lm)"

lemma limeric_reachable_inv:
  assumes "limeric_reachable rg params lm" "0 \<le> lp_delta_min params" "lp_delta_min params \<le> lp_delta_max params" "lp_delta_max params \<le> 1"
    "0 < lp_cbr_interval params"
  shows "lm_params lm = params \<and> lp_delta_min params \<le> lm_duty_cycle lm \<and> lm_duty_cycle lm \<le> lp_delta_max params \<and>
    (\<forall>tp\<in>set (lm_scheduled lm). tp mod (2 * lp_cbr_interval params) = 0)"
  using assms(1)
proof induction
  case (start now)
  have "ui_mean2 (lp_delta_max params) (lp_delta_min params) = 1 / 2 * (lp_delta_max params + lp_delta_min params)"
    unfolding ui_mean2_def using assms by (intro clamp_unit_id) simp
  then show ?case using assms limeric_time_rhythm [OF assms(5) start] by (simp add: new_limeric_def limeric_schedule_def)
next
  case (calculated lm now tp)
  have "lp_delta_min params \<le> calculate_duty_cycle x \<and> calculate_duty_cycle x \<le> lp_delta_max params" if "lm_params x = params" for x
    using limeric_delta_range [OF assms(3)] that by (simp add: calculate_duty_cycle_def Let_def split: option.split)
  then show ?case using calculated limeric_time_rhythm [OF assms(5) calculated.hyps(2)] by (auto simp: limeric_calculate_def limeric_schedule_def Let_def)
qed (auto simp: update_cbr_def configure_dual_alpha_def Let_def)

text \<open>
  C22: LIMERIC keeps to its limits and its rhythm. After whatever measurements, calculations and
  configurations the permitted share of the channel lies between the configured bounds, and every
  calculation is scheduled at a multiple of twice the measuring interval, at least one and at
  most three intervals ahead.
\<close>

theorem limeric_bounded:
  assumes "limeric_reachable rg params lm" "0 \<le> lp_delta_min params" "lp_delta_min params \<le> lp_delta_max params" "lp_delta_max params \<le> 1"
    "0 < lp_cbr_interval params"
  shows "lp_delta_min params \<le> lm_duty_cycle lm \<and> lm_duty_cycle lm \<le> lp_delta_max params \<and>
    (\<forall>tp\<in>set (lm_scheduled lm). tp mod (2 * lp_cbr_interval params) = 0) \<and>
    (\<forall>now\<ge>0. now + lp_cbr_interval params \<le> limeric_time (lp_cbr_interval params) now \<and> limeric_time (lp_cbr_interval params) now \<le> now + 3 * lp_cbr_interval params)"
  using limeric_reachable_inv [OF assms] limeric_time_rhythm [OF assms(5)] by blast

theorem limeric_bounded_witness:
  "let lm = limeric_calculate 200000 200000 (update_cbr list_ring 1 (new_limeric limericDefaultParams 0)) in 6 / 10000 \<le> lm_duty_cycle lm \<and> lm_duty_cycle lm \<le> 3 / 100"
proof -
  let ?lm = "limeric_calculate 200000 200000 (update_cbr list_ring 1 (new_limeric limericDefaultParams 0))"
  have "limeric_reachable list_ring limericDefaultParams ?lm" by (intro limeric_reachable.intros) simp_all
  then show ?thesis using limeric_bounded [of list_ring limericDefaultParams ?lm] by (simp add: limericDefaultParams_def milliseconds_def Let_def)
qed

end
