(* ===== verification/Dcc_Flow.thy ===== *)
theory Dcc_Flow
  imports Dcc_Rate
begin

text \<open>
  Flow control (\<open>dcc/flow_control.cpp\<close>, \<open>mapping.cpp\<close>): the gatekeeper in front of the access layer. It
  keeps a queue per access category, asks the rate control for delays and is woken by the
  runtime. Calls of hooks and of the access layer are events in \<open>fc_calls\<close>, the time points handed
  to the runtime and not yet reached are \<open>fc_triggers\<close>.
\<close>

section \<open>Access categories\<close>

datatype AccessCategory = BK | BE | VI | VO

fun category_value :: "AccessCategory \<Rightarrow> nat" where
  "category_value BK = 1"
| "category_value BE = 3"
| "category_value VI = 5"
| "category_value VO = 7"

lemma category_value_inject: "category_value a = category_value b \<Longrightarrow> a = b"
  by (cases a; cases b) simp_all

instantiation AccessCategory :: linorder
begin

definition less_eq_AccessCategory :: "AccessCategory \<Rightarrow> AccessCategory \<Rightarrow> bool" where
  "less_eq_AccessCategory a b \<longleftrightarrow> category_value a \<le> category_value b"

definition less_AccessCategory :: "AccessCategory \<Rightarrow> AccessCategory \<Rightarrow> bool" where
  "less_AccessCategory a b \<longleftrightarrow> category_value a < category_value b"

instance
  by standard (auto simp: less_eq_AccessCategory_def less_AccessCategory_def intro: category_value_inject)

end

fun map_profile_onto_ac :: "Profile \<Rightarrow> AccessCategory" where
  "map_profile_onto_ac DP0 = VO"
| "map_profile_onto_ac DP1 = VI"
| "map_profile_onto_ac DP2 = BE"
| "map_profile_onto_ac DP3 = BK"

text \<open>The map of queues is ordered with the highest priority first.\<close>

definition categories :: "AccessCategory list" where
  "categories = [VO, VI, BE, BK]"

section \<open>The state\<close>

record AccessRequest =
  ar_ether_type :: "16 word"
  ar_source_addr :: MacAddress
  ar_destination_addr :: MacAddress
  ar_access_category :: AccessCategory

record 'p PendingTransmission =
  pt_expiry :: time_point
  pt_request :: DccRequest
  pt_packet :: 'p

datatype 'p flow_event = Packet_Drop AccessCategory 'p | Packet_Transmit AccessCategory 'p | Access_Request AccessRequest 'p

record ('r, 'p) FlowControl =
  fc_queues :: "AccessCategory \<Rightarrow> 'p PendingTransmission list"
  fc_queue_length :: nat
  fc_trc :: 'r
  fc_triggers :: "time_point list"
  fc_calls :: "'p flow_event list"

text \<open>The rate control and the size of a packet are what flow control calls.\<close>

record ('r, 'p) flow_env =
  flow_trc :: "'r trc_ops"
  flow_size :: "'p \<Rightarrow> size_t"

definition new_flow_control :: "'r \<Rightarrow> ('r, 'p) FlowControl" where
  "new_flow_control trc = \<lparr>fc_queues = (\<lambda>_. []), fc_queue_length = 0, fc_trc = trc, fc_triggers = [], fc_calls = []\<rparr>"

definition pending_transmission :: "('r, 'p) flow_env \<Rightarrow> 'p PendingTransmission \<Rightarrow> Transmission" where
  "pending_transmission env pt = \<lparr>tx_profile = dcc_profile (pt_request pt), tx_data_rate = Some G5_6Mbps, tx_body_length = flow_size env (pt_packet pt)\<rparr>"

definition duration_max :: duration where "duration_max = 2 ^ 63 - 1"

definition flow_delay :: "('r, 'p) flow_env \<Rightarrow> time_point \<Rightarrow> Transmission \<Rightarrow> ('r, 'p) FlowControl \<Rightarrow> duration \<times> ('r, 'p) FlowControl" where
  "flow_delay env now tx fc = (case trc_delay (flow_trc env) now tx (fc_trc fc) of (d, trc) \<Rightarrow> (d, fc\<lparr>fc_trc := trc\<rparr>))"

definition flow_notify :: "('r, 'p) flow_env \<Rightarrow> time_point \<Rightarrow> Transmission \<Rightarrow> ('r, 'p) FlowControl \<Rightarrow> ('r, 'p) FlowControl" where
  "flow_notify env now tx fc = fc\<lparr>fc_trc := trc_notify (flow_trc env) now tx (fc_trc fc)\<rparr>"

section \<open>Operations\<close>

definition flow_empty :: "('r, 'p) FlowControl \<Rightarrow> bool" where
  "flow_empty fc = list_all (\<lambda>ac. fc_queues fc ac = []) categories"

definition drop_category :: "time_point \<Rightarrow> AccessCategory \<Rightarrow> ('r, 'p) FlowControl \<Rightarrow> ('r, 'p) FlowControl" where
  "drop_category now ac fc =
     fc\<lparr>fc_queues := (fc_queues fc)(ac := filter (\<lambda>pt. \<not> pt_expiry pt < now) (fc_queues fc ac)),
        fc_calls := fc_calls fc @ map (\<lambda>pt. Packet_Drop ac (pt_packet pt)) (filter (\<lambda>pt. pt_expiry pt < now) (fc_queues fc ac))\<rparr>"

definition flow_drop_expired :: "time_point \<Rightarrow> ('r, 'p) FlowControl \<Rightarrow> ('r, 'p) FlowControl" where
  "flow_drop_expired now fc = fold (drop_category now) categories fc"

definition contention :: "AccessCategory \<Rightarrow> ('r, 'p) FlowControl \<Rightarrow> bool" where
  "contention ac fc = list_ex (\<lambda>ac'. ac \<le> ac' \<and> fc_queues fc ac' \<noteq> []) categories"

definition transmit_immediately :: "('r, 'p) flow_env \<Rightarrow> time_point \<Rightarrow> Transmission \<Rightarrow> ('r, 'p) FlowControl \<Rightarrow> bool \<times> ('r, 'p) FlowControl" where
  "transmit_immediately env now tx fc =
     (if contention (map_profile_onto_ac (tx_profile tx)) fc then (False, fc)
      else case flow_delay env now tx fc of (d, fc') \<Rightarrow> (d = 0, fc'))"

definition flow_transmit :: "DccRequest \<Rightarrow> 'p \<Rightarrow> ('r, 'p) FlowControl \<Rightarrow> ('r, 'p) FlowControl" where
  "flow_transmit req p fc =
     (let access_request = \<lparr>ar_ether_type = dcc_ether_type req, ar_source_addr = dcc_source req, ar_destination_addr = dcc_destination req,
            ar_access_category = map_profile_onto_ac (dcc_profile req)\<rparr>
      in fc\<lparr>fc_calls := fc_calls fc @ [Packet_Transmit (ar_access_category access_request) p, Access_Request access_request p]\<rparr>)"

definition schedule_trigger :: "('r, 'p) flow_env \<Rightarrow> time_point \<Rightarrow> 'p PendingTransmission \<Rightarrow> ('r, 'p) FlowControl \<Rightarrow> ('r, 'p) FlowControl" where
  "schedule_trigger env now pt fc =
     (case flow_delay env now (pending_transmission env pt) fc of (callback_delay, fc') \<Rightarrow> fc'\<lparr>fc_triggers := fc_triggers fc' @ [now + callback_delay]\<rparr>)"

text \<open>The loop that makes room in a queue of limited length: how often it drops, and what is left.\<close>

fun pop_loop :: "nat \<Rightarrow> 'a list \<Rightarrow> nat \<times> 'a list" where
  "pop_loop limit [] = (0, [])"
| "pop_loop limit (x # xs) =
     (if 0 < limit \<and> limit \<le> length (x # xs) then case pop_loop limit xs of (n, ys) \<Rightarrow> (Suc n, ys) else (0, x # xs))"

text \<open>The hook for dropped packets gets the new packet, as in the code.\<close>

definition enqueue :: "('r, 'p) flow_env \<Rightarrow> time_point \<Rightarrow> DccRequest \<Rightarrow> 'p \<Rightarrow> ('r, 'p) FlowControl \<Rightarrow> ('r, 'p) FlowControl" where
  "enqueue env now req p fc =
     (let first_packet = flow_empty fc;
          ac = map_profile_onto_ac (dcc_profile req);
          pt = \<lparr>pt_expiry = now + dcc_lifetime req, pt_request = req, pt_packet = p\<rparr>;
          (n, queue) = pop_loop (fc_queue_length fc) (fc_queues fc ac);
          fc' = fc\<lparr>fc_queues := (fc_queues fc)(ac := queue @ [pt]), fc_calls := fc_calls fc @ replicate n (Packet_Drop ac p)\<rparr>
      in if first_packet then schedule_trigger env now pt fc' else fc')"

definition next_queue_step ::
  "('r, 'p) flow_env \<Rightarrow> time_point \<Rightarrow> AccessCategory \<Rightarrow> AccessCategory option \<times> duration \<times> ('r, 'p) FlowControl \<Rightarrow> AccessCategory option \<times> duration \<times> ('r, 'p) FlowControl" where
  "next_queue_step env now ac st =
     (case st of (nxt, min_delay, fc) \<Rightarrow>
        case fc_queues fc ac of
          [] \<Rightarrow> st
        | front # queue \<Rightarrow>
            (case flow_delay env now (pending_transmission env front) fc of (d, fc') \<Rightarrow>
               if d < min_delay then (Some ac, d, fc') else (nxt, min_delay, fc')))"

definition next_queue :: "('r, 'p) flow_env \<Rightarrow> time_point \<Rightarrow> ('r, 'p) FlowControl \<Rightarrow> AccessCategory option \<times> ('r, 'p) FlowControl" where
  "next_queue env now fc = (case fold (next_queue_step env now) categories (None, duration_max, fc) of (nxt, min_delay, fc') \<Rightarrow> (nxt, fc'))"

definition dequeue :: "('r, 'p) flow_env \<Rightarrow> time_point \<Rightarrow> ('r, 'p) FlowControl \<Rightarrow> 'p PendingTransmission option \<times> ('r, 'p) FlowControl" where
  "dequeue env now fc =
     (case next_queue env now fc of
        (None, fc') \<Rightarrow> (None, fc')
      | (Some ac, fc') \<Rightarrow>
          (case fc_queues fc' ac of [] \<Rightarrow> (None, fc') | front # queue \<Rightarrow> (Some front, fc'\<lparr>fc_queues := (fc_queues fc')(ac := queue)\<rparr>)))"

definition next_transmission :: "('r, 'p) flow_env \<Rightarrow> time_point \<Rightarrow> ('r, 'p) FlowControl \<Rightarrow> 'p PendingTransmission option \<times> ('r, 'p) FlowControl" where
  "next_transmission env now fc =
     (case next_queue env now fc of
        (None, fc') \<Rightarrow> (None, fc')
      | (Some ac, fc') \<Rightarrow> (case fc_queues fc' ac of [] \<Rightarrow> (None, fc') | front # queue \<Rightarrow> (Some front, fc')))"

definition flow_request :: "('r, 'p) flow_env \<Rightarrow> time_point \<Rightarrow> DccRequest \<Rightarrow> 'p \<Rightarrow> ('r, 'p) FlowControl \<Rightarrow> ('r, 'p) FlowControl" where
  "flow_request env now req p fc =
     (let tx = \<lparr>tx_profile = dcc_profile req, tx_data_rate = None, tx_body_length = flow_size env p\<rparr>
      in case transmit_immediately env now tx (flow_drop_expired now fc) of
           (True, fc') \<Rightarrow> flow_transmit req p (flow_notify env now tx fc')
         | (False, fc') \<Rightarrow> enqueue env now req p fc')"

definition schedule_next :: "('r, 'p) flow_env \<Rightarrow> time_point \<Rightarrow> ('r, 'p) FlowControl \<Rightarrow> ('r, 'p) FlowControl" where
  "schedule_next env now fc = (case next_transmission env now fc of (None, fc') \<Rightarrow> fc' | (Some pt, fc') \<Rightarrow> schedule_trigger env now pt fc')"

definition flow_trigger :: "('r, 'p) flow_env \<Rightarrow> time_point \<Rightarrow> ('r, 'p) FlowControl \<Rightarrow> ('r, 'p) FlowControl" where
  "flow_trigger env now fc =
     (case dequeue env now (flow_drop_expired now fc) of
        (None, fc') \<Rightarrow> schedule_next env now fc'
      | (Some pt, fc') \<Rightarrow> schedule_next env now (flow_transmit (pt_request pt) (pt_packet pt) (flow_notify env now (pending_transmission env pt) fc')))"

definition set_queue_length :: "nat \<Rightarrow> ('r, 'p) FlowControl \<Rightarrow> ('r, 'p) FlowControl" where
  "set_queue_length n fc = fc\<lparr>fc_queue_length := n\<rparr>"

definition reschedule :: "('r, 'p) flow_env \<Rightarrow> time_point \<Rightarrow> ('r, 'p) FlowControl \<Rightarrow> ('r, 'p) FlowControl" where
  "reschedule env now fc =
     (case next_transmission env now fc of (None, fc') \<Rightarrow> fc' | (Some pt, fc') \<Rightarrow> schedule_trigger env now pt (fc'\<lparr>fc_triggers := []\<rparr>))"

text \<open>The runtime removes a trigger that is due and calls it.\<close>

definition fire_trigger :: "('r, 'p) flow_env \<Rightarrow> time_point \<Rightarrow> nat \<Rightarrow> ('r, 'p) FlowControl \<Rightarrow> ('r, 'p) FlowControl" where
  "fire_trigger env now i fc = flow_trigger env now (fc\<lparr>fc_triggers := take i (fc_triggers fc) @ drop (Suc i) (fc_triggers fc)\<rparr>)"

end
