(* ===== verification/Dcc_Flow_Laws.thy ===== *)
theory Dcc_Flow_Laws
  imports Dcc_Flow "HOL-Library.Sublist"
begin

text \<open>
  Laws of flow control. Locale \<open>rate_control\<close> is the contract of a rate control, interpreted on all
  three of them; locale \<open>flow_control\<close> is flow control over any that keeps it. The runs of flow
  control are an inductive predicate that carries the clock and the history of requests.
\<close>

section \<open>The contract of a rate control\<close>

text \<open>
  What flow control relies on: a delay is never negative and never infinite. The invariant of a
  rate control is kept while time goes on, up to the range of the clock.
\<close>

definition clock_end :: time_point where "clock_end = 2 ^ 62"

locale rate_control =
  fixes ops :: "'r trc_ops" and inv :: "time_point \<Rightarrow> 'r \<Rightarrow> bool"
  assumes delay_range: "inv now r \<Longrightarrow> 0 \<le> fst (trc_delay ops now tx r) \<and> fst (trc_delay ops now tx r) < duration_max"
    and delay_inv: "inv now r \<Longrightarrow> inv now (snd (trc_delay ops now tx r))"
    and notify_inv: "inv now r \<Longrightarrow> inv now (trc_notify ops now tx r)"
    and later_inv: "inv now r \<Longrightarrow> now \<le> now' \<Longrightarrow> now' < clock_end \<Longrightarrow> inv now' r"

definition interval_ok :: "duration \<Rightarrow> bool" where
  "interval_ok d \<longleftrightarrow> 0 \<le> d \<and> d < duration_max"

definition last_tx_ok :: "time_point \<Rightarrow> time_point option \<Rightarrow> bool" where
  "last_tx_ok now last_tx \<longleftrightarrow> (\<forall>t. last_tx = Some t \<longrightarrow> t \<le> now)"

lemma fsm_budget_delay_range: "interval_ok d \<Longrightarrow> last_tx_ok now last_tx \<Longrightarrow> 0 \<le> fsm_budget_delay d now last_tx \<and> fsm_budget_delay d now last_tx < duration_max"
  by (auto simp: fsm_budget_delay_def interval_ok_def last_tx_ok_def split: option.split)

lemma duration_max_pos [simp]: "0 < duration_max"
  by (simp add: duration_max_def)

definition single_reactive_inv :: "('m \<Rightarrow> duration) \<Rightarrow> time_point \<Rightarrow> 'm SingleReactiveTransmitRateControl \<Rightarrow> bool" where
  "single_reactive_inv transmission_interval now sr \<longleftrightarrow> interval_ok (transmission_interval (sr_fsm sr)) \<and> last_tx_ok now (sr_last_tx sr)"

interpretation single_reactive: rate_control "single_reactive_trc transmission_interval" "single_reactive_inv transmission_interval" for transmission_interval
  by unfold_locales
    (auto simp: single_reactive_trc_def single_reactive_inv_def fsm_budget_delay_range fsm_budget_notify_def last_tx_ok_def)

definition burst_budget_inv :: "time_point \<Rightarrow> BurstBudget \<Rightarrow> bool" where
  "burst_budget_inv now bb \<longleftrightarrow> interval_ok (bb_burst_period bb) \<and> length (bb_messages bb) \<le> bb_capacity bb \<and> (\<forall>t\<in>set (bb_messages bb). t \<le> now)"

lemma burst_delay_range: "burst_budget_inv now bb \<Longrightarrow> 0 \<le> fst (burst_delay now bb) \<and> fst (burst_delay now bb) < duration_max \<and> burst_budget_inv now (snd (burst_delay now bb))"
  by (cases "bb_messages bb") (auto simp: burst_delay_def burst_budget_inv_def interval_ok_def)

lemma ring_push_set:
  assumes "ring_buffer rg" "length xs \<le> capacity"
  shows "length (ring_push_back rg capacity x xs) \<le> capacity \<and> set (ring_push_back rg capacity x xs) \<subseteq> insert x (set xs)"
proof -
  note b = ring_buffer.axioms(1) [OF assms(1)]
  consider "length xs < capacity" | "length xs = capacity" "0 < capacity" | "capacity = 0" "xs = []" using assms(2) by fastforce
  then show ?thesis
    by cases (auto simp: circular_buffer.push_back_room [OF b] circular_buffer.push_back_full [OF b] circular_buffer.push_back_none [OF b] dest: list.set_sel(2) [rotated])
qed

definition bursty_inv :: "('m \<Rightarrow> duration) \<Rightarrow> time_point \<Rightarrow> 'm BurstyTransmitRateControl \<Rightarrow> bool" where
  "bursty_inv transmission_interval now bt \<longleftrightarrow>
     interval_ok (transmission_interval (bt_fsm bt)) \<and> last_tx_ok now (bt_last_tx bt) \<and> burst_budget_inv now (bt_burst_budget bt)"

lemma bursty_rate_control:
  fixes transmission_interval :: "'m \<Rightarrow> duration"
  assumes "ring_buffer rg"
  shows "rate_control (bursty_trc rg transmission_interval) (bursty_inv transmission_interval)"
proof
  fix now tx and bt :: "'m BurstyTransmitRateControl"
  assume inv: "bursty_inv transmission_interval now bt"
  then show "0 \<le> fst (trc_delay (bursty_trc rg transmission_interval) now tx bt) \<and> fst (trc_delay (bursty_trc rg transmission_interval) now tx bt) < duration_max"
    and "bursty_inv transmission_interval now (snd (trc_delay (bursty_trc rg transmission_interval) now tx bt))"
    using burst_delay_range [of now "bt_burst_budget bt"] by (auto simp: bursty_trc_def bursty_inv_def fsm_budget_delay_range split: prod.split)
  show "bursty_inv transmission_interval now (trc_notify (bursty_trc rg transmission_interval) now tx bt)"
    using inv ring_push_set [OF assms, of "bb_messages (bt_burst_budget bt)" "bb_capacity (bt_burst_budget bt)" now]
    by (auto simp: bursty_trc_def bursty_inv_def burst_budget_inv_def burst_notify_def fsm_budget_notify_def last_tx_ok_def)
qed (auto simp: bursty_inv_def burst_budget_inv_def last_tx_ok_def)

interpretation bursty: rate_control "bursty_trc list_ring transmission_interval" "bursty_inv transmission_interval" for transmission_interval
  by (rule bursty_rate_control) (rule list_ring.ring_buffer_axioms)

definition limeric_budget_inv :: "time_point \<Rightarrow> LimericBudget \<Rightarrow> bool" where
  "limeric_budget_inv now lb \<longleftrightarrow> min_interval \<le> lb_interval lb \<and> lb_interval lb \<le> max_interval \<and> time_point_min \<le> lb_tx_start lb \<and> lb_tx_start lb \<le> now \<and> now < clock_end"

lemma clock64_id: "- (2 ^ 63) \<le> x \<Longrightarrow> x < 2 ^ 63 \<Longrightarrow> clock64 x = x"
  by (simp add: clock64_def signed_take_bit_int_eq_self sint_sbintrunc')

lemma clamp_interval_range: "min_interval \<le> clamp_interval d \<and> clamp_interval d \<le> max_interval"
  by (simp add: clamp_interval_def min_interval_def max_interval_def milliseconds_def chrono_seconds_def)

lemma limeric_budget_delay_range:
  assumes "limeric_budget_inv now lb"
  shows "0 \<le> limeric_budget_delay now lb \<and> limeric_budget_delay now lb \<le> max_interval"
proof -
  have b: "25000 \<le> lb_interval lb" "lb_interval lb \<le> 1000000" "- (2 ^ 63) \<le> lb_tx_start lb" "lb_tx_start lb \<le> now" "now < 2 ^ 62"
    using assms by (simp_all add: limeric_budget_inv_def min_interval_def max_interval_def milliseconds_def chrono_seconds_def time_point_min_def clock_end_def)
  then have s: "clock64 (lb_tx_start lb + lb_interval lb) = lb_tx_start lb + lb_interval lb" by (intro clock64_id) simp_all
  have "clock64 (lb_tx_start lb + lb_interval lb - now) = lb_tx_start lb + lb_interval lb - now" if "now < lb_tx_start lb + lb_interval lb"
    using that b by (intro clock64_id) simp_all
  then show ?thesis using b by (auto simp: limeric_budget_delay_def s max_interval_def chrono_seconds_def)
qed

definition limeric_inv :: "time_point \<Rightarrow> LimericTransmitRateControl \<Rightarrow> bool" where
  "limeric_inv now lt \<longleftrightarrow> limeric_budget_inv now (lt_budget lt) \<and> - (2 ^ 63) \<le> now"

interpretation limeric: rate_control limeric_trc limeric_inv
proof
  fix now tx and lt :: LimericTransmitRateControl
  assume inv: "limeric_inv now lt"
  then show "0 \<le> fst (trc_delay limeric_trc now tx lt) \<and> fst (trc_delay limeric_trc now tx lt) < duration_max"
    using limeric_budget_delay_range [of now "lt_budget lt"]
    by (auto simp: limeric_trc_def limeric_inv_def max_interval_def chrono_seconds_def duration_max_def)
  show "limeric_inv now (snd (trc_delay limeric_trc now tx lt))" using inv by (simp add: limeric_trc_def)
  show "limeric_inv now (trc_notify limeric_trc now tx lt)"
    using inv clamp_interval_range
    by (auto simp: limeric_trc_def limeric_inv_def limeric_budget_inv_def limeric_budget_notify_def time_point_min_def split: if_splits)
qed (auto simp: limeric_inv_def limeric_budget_inv_def)

text \<open>Asking for a delay does not change what the rate control answers to the next question.\<close>

locale steady_rate_control = rate_control +
  assumes delay_again: "fst (trc_delay ops now tx (snd (trc_delay ops now tx' r))) = fst (trc_delay ops now tx r)"

interpretation single_reactive: steady_rate_control "single_reactive_trc transmission_interval" "single_reactive_inv transmission_interval" for transmission_interval
  by unfold_locales (simp add: single_reactive_trc_def)

lemma burst_delay_again: "fst (burst_delay now (snd (burst_delay now bb))) = fst (burst_delay now bb)"
  by (cases "bb_messages bb") (auto simp: burst_delay_def)

interpretation bursty: steady_rate_control "bursty_trc list_ring transmission_interval" "bursty_inv transmission_interval" for transmission_interval
  by unfold_locales (auto simp: bursty_trc_def split: prod.split, metis burst_delay_again fst_conv snd_conv)

interpretation limeric: steady_rate_control limeric_trc limeric_inv
  by unfold_locales (simp add: limeric_trc_def)

section \<open>What flow control does with packets\<close>

text \<open>The packets that went to the access layer in a category, and how many packets are settled or wait.\<close>

fun sent_as :: "AccessCategory \<Rightarrow> 'p flow_event \<Rightarrow> 'p list" where
  "sent_as ac (Access_Request r p) = (if ar_access_category r = ac then [p] else [])"
| "sent_as ac _ = []"

fun settles :: "'p flow_event \<Rightarrow> nat" where
  "settles (Packet_Transmit ac p) = 0"
| "settles _ = 1"

definition sent :: "AccessCategory \<Rightarrow> ('r, 'p) FlowControl \<Rightarrow> 'p list" where
  "sent ac fc = concat (map (sent_as ac) (fc_calls fc))"

definition settled :: "('r, 'p) FlowControl \<Rightarrow> nat" where
  "settled fc = sum_list (map settles (fc_calls fc))"

definition queued :: "('r, 'p) FlowControl \<Rightarrow> nat" where
  "queued fc = (\<Sum>ac\<leftarrow>categories. length (fc_queues fc ac))"

text \<open>A request is a profile's category and a packet.\<close>

definition requested :: "AccessCategory \<Rightarrow> (AccessCategory \<times> 'p) list \<Rightarrow> 'p list" where
  "requested ac ps = map snd (filter (\<lambda>x. fst x = ac) ps)"

text \<open>Flow control with the clock of its runtime and everything that was requested so far.\<close>

inductive flow_run :: "('r, 'p) flow_env \<Rightarrow> (time_point \<Rightarrow> 'r \<Rightarrow> bool) \<Rightarrow> time_point \<Rightarrow> (AccessCategory \<times> 'p) list \<Rightarrow> ('r, 'p) FlowControl \<Rightarrow> bool"
  for env inv where
  start: "inv now trc \<Longrightarrow> flow_run env inv now [] (new_flow_control trc)"
| request: "flow_run env inv now ps fc \<Longrightarrow> now \<le> now' \<Longrightarrow> now' < clock_end \<Longrightarrow>
    flow_run env inv now' (ps @ [(map_profile_onto_ac (dcc_profile req), p)]) (flow_request env now' req p fc)"
| fire: "flow_run env inv now ps fc \<Longrightarrow> now \<le> now' \<Longrightarrow> now' < clock_end \<Longrightarrow> i < length (fc_triggers fc) \<Longrightarrow> fc_triggers fc ! i \<le> now' \<Longrightarrow>
    flow_run env inv now' ps (fire_trigger env now' i fc)"
| reschedule: "flow_run env inv now ps fc \<Longrightarrow> now \<le> now' \<Longrightarrow> now' < clock_end \<Longrightarrow> flow_run env inv now' ps (reschedule env now' fc)"
| limit: "flow_run env inv now ps fc \<Longrightarrow> flow_run env inv now ps (set_queue_length n fc)"
| rate: "flow_run env inv now ps fc \<Longrightarrow> inv now trc \<Longrightarrow> flow_run env inv now ps (fc\<lparr>fc_trc := trc\<rparr>)"

definition accounted :: "(AccessCategory \<times> 'p) list \<Rightarrow> ('r, 'p) FlowControl \<Rightarrow> bool" where
  "accounted ps fc \<longleftrightarrow> (\<forall>ac. subseq (sent ac fc @ map pt_packet (fc_queues fc ac)) (requested ac ps)) \<and> settled fc + queued fc = length ps \<and>
     (\<forall>ac. \<forall>pt\<in>set (fc_queues fc ac). map_profile_onto_ac (dcc_profile (pt_request pt)) = ac)"

lemma all_categories [simp]: "ac \<in> set categories"
  by (cases ac) (simp_all add: categories_def)

lemma flow_empty_iff: "flow_empty fc \<longleftrightarrow> (\<forall>ac. fc_queues fc ac = [])"
  by (auto simp: flow_empty_def list_all_iff)

lemma queued_empty: "queued fc = 0 \<longleftrightarrow> flow_empty fc"
  by (auto simp: queued_def flow_empty_iff)

lemma queued_update: "queued (fc\<lparr>fc_queues := (fc_queues fc)(ac := q)\<rparr>) + length (fc_queues fc ac) = queued fc + length q"
  by (cases ac) (simp_all add: queued_def categories_def)

lemma flow_simps [simp]:
  "sent ac (fc\<lparr>fc_queues := q\<rparr>) = sent ac fc" "settled (fc\<lparr>fc_queues := q\<rparr>) = settled fc"
  "sent ac (fc\<lparr>fc_trc := t\<rparr>) = sent ac fc" "settled (fc\<lparr>fc_trc := t\<rparr>) = settled fc" "queued (fc\<lparr>fc_trc := t\<rparr>) = queued fc"
  "sent ac (fc\<lparr>fc_triggers := ts\<rparr>) = sent ac fc" "settled (fc\<lparr>fc_triggers := ts\<rparr>) = settled fc" "queued (fc\<lparr>fc_triggers := ts\<rparr>) = queued fc"
  "sent ac (fc\<lparr>fc_calls := cs @ cs'\<rparr>) = sent ac (fc\<lparr>fc_calls := cs\<rparr>) @ concat (map (sent_as ac) cs')"
  "settled (fc\<lparr>fc_calls := cs @ cs'\<rparr>) = settled (fc\<lparr>fc_calls := cs\<rparr>) + sum_list (map settles cs')" "queued (fc\<lparr>fc_calls := cs\<rparr>) = queued fc"
  "sent ac (fc\<lparr>fc_calls := fc_calls fc\<rparr>) = sent ac fc" "settled (fc\<lparr>fc_calls := fc_calls fc\<rparr>) = settled fc"
  by (simp_all add: sent_def settled_def queued_def)

lemma accounted_simps [simp]:
  "accounted ps (fc\<lparr>fc_trc := t\<rparr>) = accounted ps fc" "accounted ps (fc\<lparr>fc_triggers := ts\<rparr>) = accounted ps fc" "accounted ps (fc\<lparr>fc_queue_length := n\<rparr>) = accounted ps fc"
  by (simp_all add: accounted_def sent_def settled_def queued_def)

lemma accounted_subseq:
  assumes "accounted ps fc" "subseq q (fc_queues fc ac)" "n + length q = length (fc_queues fc ac)"
    "\<And>ac'. concat (map (sent_as ac') cs) = []" "sum_list (map settles cs) = n"
  shows "accounted ps (fc\<lparr>fc_queues := (fc_queues fc)(ac := q), fc_calls := fc_calls fc @ cs\<rparr>)"
proof -
  let ?fc = "fc\<lparr>fc_queues := (fc_queues fc)(ac := q), fc_calls := fc_calls fc @ cs\<rparr>"
  have s: "sent ac' ?fc = sent ac' fc" for ac' using assms(4) by (simp add: sent_def)
  have "settled ?fc + queued ?fc = settled fc + queued fc"
    using assms(3,5) queued_update [of fc ac q] by (simp add: settled_def queued_def)
  moreover have "subseq (sent ac' ?fc @ map pt_packet (fc_queues ?fc ac')) (requested ac' ps)" for ac'
  proof (cases "ac' = ac")
    case True
    have "subseq (sent ac fc @ map pt_packet q) (sent ac fc @ map pt_packet (fc_queues fc ac))" using assms(2) by (simp add: subseq_append' subseq_map)
    then show ?thesis using assms(1) True unfolding s accounted_def by (auto intro: subseq_order.trans)
  next
    case False
    then show ?thesis using assms(1) unfolding s accounted_def by simp
  qed
  moreover have "set q \<subseteq> set (fc_queues fc ac)" using list_emb_set [OF assms(2)] by auto
  ultimately show ?thesis using assms(1) unfolding accounted_def by (auto split: if_splits)
qed

lemma drop_category_accounted: "accounted ps fc \<Longrightarrow> accounted ps (drop_category now ac fc)"
  unfolding drop_category_def
  by (rule accounted_subseq) (simp_all add: o_def map_replicate_const sum_list_replicate sum_length_filter_compl)

lemma drop_category_frame [simp]:
  "fc_triggers (drop_category now ac fc) = fc_triggers fc" "fc_trc (drop_category now ac fc) = fc_trc fc" "fc_queue_length (drop_category now ac fc) = fc_queue_length fc"
  "fc_queues (drop_category now ac fc) = (fc_queues fc)(ac := filter (\<lambda>pt. \<not> pt_expiry pt < now) (fc_queues fc ac))" "sent ac' (drop_category now ac fc) = sent ac' fc"
  by (simp_all add: drop_category_def sent_def o_def map_replicate_const)

lemma drop_expired_frame [simp]:
  "fc_triggers (flow_drop_expired now fc) = fc_triggers fc" "fc_trc (flow_drop_expired now fc) = fc_trc fc" "fc_queue_length (flow_drop_expired now fc) = fc_queue_length fc"
  "fc_queues (flow_drop_expired now fc) ac = filter (\<lambda>pt. \<not> pt_expiry pt < now) (fc_queues fc ac)" "sent ac' (flow_drop_expired now fc) = sent ac' fc"
  using AccessCategory.exhaust [of ac] by (auto simp: flow_drop_expired_def categories_def)

lemma drop_expired_accounted: "accounted ps fc \<Longrightarrow> accounted ps (flow_drop_expired now fc)"
  by (simp add: flow_drop_expired_def categories_def drop_category_accounted)

lemma drop_expired_queued: "queued (flow_drop_expired now fc) \<le> queued fc"
  by (simp add: queued_def categories_def add_mono)

lemma pop_loop_result: "pop_loop limit q = (n, ys) \<Longrightarrow> subseq ys q \<and> n + length ys = length q \<and> ys = drop n q \<and> n = (if 0 < limit then length q + 1 - limit else 0)"
proof (induction q arbitrary: n)
  case (Cons x q)
  then show ?case by (cases "pop_loop limit q") (auto split: if_splits)
qed auto

lemma accounted_append:
  assumes "accounted ps fc" "map_profile_onto_ac (dcc_profile (pt_request pt)) = ac"
  shows "accounted (ps @ [(ac, pt_packet pt)]) (fc\<lparr>fc_queues := (fc_queues fc)(ac := fc_queues fc ac @ [pt])\<rparr>)"
proof -
  have "subseq (sent ac fc @ map pt_packet (fc_queues fc ac) @ [pt_packet pt]) (requested ac ps @ [pt_packet pt])"
    using assms(1) by (simp add: accounted_def flip: append_assoc)
  then show ?thesis using assms queued_update [of fc ac "fc_queues fc ac @ [pt]"] by (auto simp: accounted_def requested_def)
qed

lemma transmit_effect:
  "sent ac (flow_transmit req p fc) = sent ac fc @ (if map_profile_onto_ac (dcc_profile req) = ac then [p] else [])" "settled (flow_transmit req p fc) = Suc (settled fc)"
  "queued (flow_transmit req p fc) = queued fc" "fc_queues (flow_transmit req p fc) = fc_queues fc" "fc_triggers (flow_transmit req p fc) = fc_triggers fc" "fc_trc (flow_transmit req p fc) = fc_trc fc"
  by (simp_all add: flow_transmit_def Let_def)

lemma accounted_transmit:
  assumes "accounted ps fc" "fc_queues fc (map_profile_onto_ac (dcc_profile req)) = []"
  shows "accounted (ps @ [(map_profile_onto_ac (dcc_profile req), p)]) (flow_transmit req p fc)"
  using assms by (auto simp: accounted_def transmit_effect requested_def) (metis append_Nil2 list.map_disc_iff subseq_append_iff subseq_order.refl)

lemma accounted_dequeue:
  assumes "accounted ps fc" "fc_queues fc ac = pt # queue"
  shows "accounted ps (flow_transmit (pt_request pt) (pt_packet pt) (fc\<lparr>fc_queues := (fc_queues fc)(ac := queue)\<rparr>))"
proof -
  have ac: "map_profile_onto_ac (dcc_profile (pt_request pt)) = ac" using assms by (auto simp: accounted_def)
  have "subseq (sent ac fc @ pt_packet pt # map pt_packet queue) (requested ac ps)" using assms by (metis accounted_def list.simps(9))
  then show ?thesis using assms queued_update [of fc ac queue] by (auto simp: accounted_def transmit_effect ac)
qed

locale flow_control = rate_control "flow_trc env" inv for env :: "('r, 'p) flow_env" and inv
begin

lemma flow_delay_frame:
  assumes "inv now (fc_trc fc)"
  obtains d r where "flow_delay env now tx fc = (d, fc\<lparr>fc_trc := r\<rparr>)" "inv now r" "0 \<le> d" "d < duration_max"
  using that [of "fst (trc_delay (flow_trc env) now tx (fc_trc fc))" "snd (trc_delay (flow_trc env) now tx (fc_trc fc))"]
    delay_range [OF assms, of tx] delay_inv [OF assms, of tx] by (simp add: flow_delay_def split_beta)

lemma next_queue_steps:
  assumes "inv now (fc_trc fc)"
  shows "\<exists>nxt' md' r. fold (next_queue_step env now) cs (nxt, md, fc) = (nxt', md', fc\<lparr>fc_trc := r\<rparr>) \<and> inv now r \<and>
    (nxt' = nxt \<and> (md = duration_max \<longrightarrow> (\<forall>ac\<in>set cs. fc_queues fc ac = [])) \<or> (\<exists>ac. nxt' = Some ac \<and> fc_queues fc ac \<noteq> []))"
  using assms
proof (induction cs arbitrary: nxt md fc)
  case Nil
  then show ?case by (intro exI [of _ nxt] exI [of _ md] exI [of _ "fc_trc fc"]) simp
next
  case (Cons ac cs)
  show ?case
  proof (cases "fc_queues fc ac")
    case Nil
    then show ?thesis using Cons.IH [OF Cons.prems, of nxt md] by (auto simp: next_queue_step_def)
  next
    case (Cons front queue)
    obtain d r where d: "flow_delay env now (pending_transmission env front) fc = (d, fc\<lparr>fc_trc := r\<rparr>)" "inv now r" "d < duration_max"
      using flow_delay_frame [OF Cons.prems] by blast
    have r: "inv now (fc_trc (fc\<lparr>fc_trc := r\<rparr>))" using d(2) by simp
    show ?thesis using Cons.IH [OF r, of "Some ac" d] Cons.IH [OF r, of nxt md] d \<open>fc_queues fc ac = front # queue\<close>
      by (cases "d < md") (auto simp: next_queue_step_def)
  qed
qed

lemma next_queue_spec:
  assumes "inv now (fc_trc fc)"
  obtains nxt r where "next_queue env now fc = (nxt, fc\<lparr>fc_trc := r\<rparr>)" "inv now r"
    "case nxt of None \<Rightarrow> flow_empty fc | Some ac \<Rightarrow> fc_queues fc ac \<noteq> []"
  using next_queue_steps [OF assms, of categories None duration_max] by (fastforce simp: next_queue_def flow_empty_iff split: option.splits)

lemma next_transmission_spec:
  assumes "inv now (fc_trc fc)"
  obtains pt r where "next_transmission env now fc = (pt, fc\<lparr>fc_trc := r\<rparr>)" "inv now r" "pt = None \<longleftrightarrow> flow_empty fc"
proof -
  obtain nxt r where n: "next_queue env now fc = (nxt, fc\<lparr>fc_trc := r\<rparr>)" "inv now r" "case nxt of None \<Rightarrow> flow_empty fc | Some ac \<Rightarrow> fc_queues fc ac \<noteq> []"
    using next_queue_spec [OF assms] .
  have "\<exists>pt. next_transmission env now fc = (pt, fc\<lparr>fc_trc := r\<rparr>) \<and> (pt = None \<longleftrightarrow> flow_empty fc)"
    using n by (auto simp: next_transmission_def flow_empty_iff split: option.splits list.splits)
  then show thesis using that n(2) by blast
qed

lemma schedule_trigger_spec:
  assumes "inv now (fc_trc fc)"
  obtains d r where "schedule_trigger env now pt fc = fc\<lparr>fc_trc := r, fc_triggers := fc_triggers fc @ [now + d]\<rparr>" "inv now r" "0 \<le> d"
proof -
  obtain d r where "flow_delay env now (pending_transmission env pt) fc = (d, fc\<lparr>fc_trc := r\<rparr>)" "inv now r" "0 \<le> d" using flow_delay_frame [OF assms] .
  then show thesis using that by (auto simp: schedule_trigger_def)
qed

definition flow_inv :: "time_point \<Rightarrow> (AccessCategory \<times> 'p) list \<Rightarrow> ('r, 'p) FlowControl \<Rightarrow> bool" where
  "flow_inv now ps fc \<longleftrightarrow> accounted ps fc \<and> inv now (fc_trc fc) \<and> (flow_empty fc \<or> fc_triggers fc \<noteq> [])"

lemma flow_empty_frame [simp]:
  "flow_empty (fc\<lparr>fc_trc := r\<rparr>) = flow_empty fc" "flow_empty (fc\<lparr>fc_triggers := ts\<rparr>) = flow_empty fc" "flow_empty (fc\<lparr>fc_calls := cs\<rparr>) = flow_empty fc" "flow_empty (fc\<lparr>fc_queue_length := n\<rparr>) = flow_empty fc"
  by (simp_all add: flow_empty_def)

lemma schedule_next_inv:
  assumes "accounted ps fc" "inv now (fc_trc fc)"
  shows "flow_inv now ps (schedule_next env now fc) \<and> queued (schedule_next env now fc) = queued fc"
proof -
  obtain pt r where n: "next_transmission env now fc = (pt, fc\<lparr>fc_trc := r\<rparr>)" "inv now r" "pt = None \<longleftrightarrow> flow_empty fc" using next_transmission_spec [OF assms(2)] .
  show ?thesis
  proof (cases pt)
    case None
    then show ?thesis using n assms by (simp add: schedule_next_def flow_inv_def)
  next
    case (Some pt')
    obtain d r' where "schedule_trigger env now pt' (fc\<lparr>fc_trc := r\<rparr>) = fc\<lparr>fc_trc := r', fc_triggers := fc_triggers fc @ [now + d]\<rparr>" "inv now r'"
      by (rule schedule_trigger_spec [of now "fc\<lparr>fc_trc := r\<rparr>" pt']) (simp_all add: n(2))
    then show ?thesis using n Some assms by (simp add: schedule_next_def flow_inv_def)
  qed
qed

lemma trigger_inv:
  assumes "accounted ps fc" "inv now (fc_trc fc)"
  shows "flow_inv now ps (flow_trigger env now fc) \<and> (queued fc = 0 \<or> queued (flow_trigger env now fc) < queued fc)"
proof -
  let ?fc = "flow_drop_expired now fc"
  have a: "accounted ps ?fc" "inv now (fc_trc ?fc)" using assms by (simp_all add: drop_expired_accounted)
  obtain nxt r where n: "next_queue env now ?fc = (nxt, ?fc\<lparr>fc_trc := r\<rparr>)" "inv now r" "case nxt of None \<Rightarrow> flow_empty ?fc | Some ac \<Rightarrow> fc_queues ?fc ac \<noteq> []"
    using next_queue_spec [OF a(2)] .
  show ?thesis
  proof (cases nxt)
    case None
    have "flow_trigger env now fc = schedule_next env now (?fc\<lparr>fc_trc := r\<rparr>)" using n(1) None by (simp add: flow_trigger_def dequeue_def)
    moreover have "queued ?fc = 0" using n(3) None by (simp add: queued_empty)
    ultimately show ?thesis using schedule_next_inv [of ps "?fc\<lparr>fc_trc := r\<rparr>" now] a(1) n(2) by auto
  next
    case (Some ac)
    obtain pt queue where q: "fc_queues ?fc ac = pt # queue" using n(3) Some by (auto simp del: drop_expired_frame simp: neq_Nil_conv)
    let ?tx = "pending_transmission env pt"
    let ?sent = "flow_transmit (pt_request pt) (pt_packet pt) (flow_notify env now ?tx (?fc\<lparr>fc_trc := r, fc_queues := (fc_queues ?fc)(ac := queue)\<rparr>))"
    have t: "flow_trigger env now fc = schedule_next env now ?sent" using n(1) Some q by (simp add: flow_trigger_def dequeue_def del: drop_expired_frame)
    have eq: "?sent = flow_transmit (pt_request pt) (pt_packet pt) (?fc\<lparr>fc_queues := (fc_queues ?fc)(ac := queue)\<rparr>)\<lparr>fc_trc := trc_notify (flow_trc env) now ?tx r\<rparr>"
      by (simp add: flow_notify_def flow_transmit_def Let_def)
    have "accounted ps ?sent" unfolding eq using accounted_dequeue [OF a(1) q] by simp
    moreover have "inv now (fc_trc ?sent)" unfolding eq using notify_inv [OF n(2)] by simp
    moreover have "Suc (queued ?sent) = queued ?fc" unfolding eq using queued_update [of ?fc ac queue] q by (simp add: transmit_effect del: drop_expired_frame)
    ultimately show ?thesis unfolding t using schedule_next_inv [of ps ?sent now] drop_expired_queued [of now fc] by auto
  qed
qed

end

context flow_control
begin

lemma enqueue_inv:
  assumes "flow_inv now ps fc"
  shows "flow_inv now (ps @ [(map_profile_onto_ac (dcc_profile req), p)]) (enqueue env now req p fc)"
proof -
  let ?ac = "map_profile_onto_ac (dcc_profile req)"
  let ?pt = "\<lparr>pt_expiry = now + dcc_lifetime req, pt_request = req, pt_packet = p\<rparr>"
  obtain n queue where pop: "pop_loop (fc_queue_length fc) (fc_queues fc ?ac) = (n, queue)" by fastforce
  let ?room = "fc\<lparr>fc_queues := (fc_queues fc)(?ac := queue), fc_calls := fc_calls fc @ replicate n (Packet_Drop ?ac p)\<rparr>"
  let ?fc = "fc\<lparr>fc_queues := (fc_queues fc)(?ac := queue @ [?pt]), fc_calls := fc_calls fc @ replicate n (Packet_Drop ?ac p)\<rparr>"
  have "subseq queue (fc_queues fc ?ac)" "n + length queue = length (fc_queues fc ?ac)" using pop_loop_result [OF pop] by blast+
  then have "accounted ps ?room" using assms unfolding flow_inv_def by (intro accounted_subseq) (simp_all add: sum_list_replicate)
  from accounted_append [OF this, of ?pt] have "accounted (ps @ [(?ac, p)]) (?room\<lparr>fc_queues := (fc_queues fc)(?ac := queue @ [?pt])\<rparr>)" by simp
  moreover have "?room\<lparr>fc_queues := (fc_queues fc)(?ac := queue @ [?pt])\<rparr> = ?fc" by (cases fc) simp
  ultimately have a: "accounted (ps @ [(?ac, p)]) ?fc" by (simp only:)
  have r: "inv now (fc_trc ?fc)" using assms by (simp add: flow_inv_def)
  have e: "enqueue env now req p fc = (if flow_empty fc then schedule_trigger env now ?pt ?fc else ?fc)" by (simp add: enqueue_def pop Let_def)
  show ?thesis
  proof (cases "flow_empty fc")
    case True
    obtain d r' where "schedule_trigger env now ?pt ?fc = ?fc\<lparr>fc_trc := r', fc_triggers := fc_triggers ?fc @ [now + d]\<rparr>" "inv now r'" by (rule schedule_trigger_spec [OF r])
    then show ?thesis using True a by (simp add: e flow_inv_def)
  next
    case False
    then show ?thesis using assms a r by (simp add: e flow_inv_def)
  qed
qed

lemma request_inv:
  assumes "flow_inv now ps fc"
  shows "flow_inv now (ps @ [(map_profile_onto_ac (dcc_profile req), p)]) (flow_request env now req p fc)"
proof -
  let ?fc = "flow_drop_expired now fc" and ?ac = "map_profile_onto_ac (dcc_profile req)"
  let ?tx = "\<lparr>tx_profile = dcc_profile req, tx_data_rate = None, tx_body_length = flow_size env p\<rparr>"
  have i: "flow_inv now ps ?fc" using assms by (auto simp: flow_inv_def drop_expired_accounted flow_empty_iff)
  obtain d r where d: "flow_delay env now ?tx ?fc = (d, ?fc\<lparr>fc_trc := r\<rparr>)" "inv now r" using flow_delay_frame [of now ?fc ?tx] i unfolding flow_inv_def by blast
  have i': "flow_inv now ps (?fc\<lparr>fc_trc := r\<rparr>)" using i d(2) by (simp add: flow_inv_def)
  consider "contention ?ac ?fc" | "\<not> contention ?ac ?fc" "d \<noteq> 0" | "\<not> contention ?ac ?fc" "d = 0" by blast
  then show ?thesis
  proof cases
    case 1
    then have "flow_request env now req p fc = enqueue env now req p ?fc" by (simp add: flow_request_def transmit_immediately_def)
    then show ?thesis using enqueue_inv [OF i] by simp
  next
    case 2
    then have "flow_request env now req p fc = enqueue env now req p (?fc\<lparr>fc_trc := r\<rparr>)" using d(1) by (simp add: flow_request_def transmit_immediately_def)
    then show ?thesis using enqueue_inv [OF i'] by simp
  next
    case 3
    let ?sent = "flow_transmit req p (?fc\<lparr>fc_trc := trc_notify (flow_trc env) now ?tx r\<rparr>)"
    have "flow_request env now req p fc = ?sent" using 3 d(1) by (simp add: flow_request_def transmit_immediately_def flow_notify_def)
    moreover have "fc_queues ?fc ?ac = []" using 3(1) by (auto simp: contention_def list_ex_iff simp del: drop_expired_frame)
    then have "accounted (ps @ [(?ac, p)]) ?sent" using i by (intro accounted_transmit) (simp_all add: flow_inv_def del: drop_expired_frame)
    ultimately show ?thesis using i notify_inv [OF d(2)] by (auto simp: flow_inv_def transmit_effect flow_empty_iff)
  qed
qed

lemma reschedule_inv:
  assumes "flow_inv now ps fc"
  shows "flow_inv now ps (reschedule env now fc)"
proof -
  have r: "inv now (fc_trc fc)" using assms by (simp add: flow_inv_def)
  obtain pt r where n: "next_transmission env now fc = (pt, fc\<lparr>fc_trc := r\<rparr>)" "inv now r" "pt = None \<longleftrightarrow> flow_empty fc" using next_transmission_spec [OF r] .
  show ?thesis
  proof (cases pt)
    case None
    then show ?thesis using n assms by (simp add: reschedule_def flow_inv_def)
  next
    case (Some pt')
    let ?fc = "fc\<lparr>fc_trc := r, fc_triggers := []\<rparr>"
    obtain d r' where "schedule_trigger env now pt' ?fc = ?fc\<lparr>fc_trc := r', fc_triggers := fc_triggers ?fc @ [now + d]\<rparr>" "inv now r'"
      by (rule schedule_trigger_spec [of now ?fc pt']) (simp_all add: n(2))
    then show ?thesis using n Some assms by (simp add: reschedule_def flow_inv_def)
  qed
qed

lemma later_flow_inv: "flow_inv now ps fc \<Longrightarrow> now \<le> now' \<Longrightarrow> now' < clock_end \<Longrightarrow> flow_inv now' ps fc"
  by (auto simp: flow_inv_def later_inv)

lemma fire_inv:
  assumes "flow_inv now ps fc"
  shows "flow_inv now ps (fire_trigger env now i fc) \<and> (queued fc = 0 \<or> queued (fire_trigger env now i fc) < queued fc)"
  using trigger_inv [of ps "fc\<lparr>fc_triggers := take i (fc_triggers fc) @ drop (Suc i) (fc_triggers fc)\<rparr>" now] assms
  by (simp add: fire_trigger_def flow_inv_def)

lemma flow_run_inv: "flow_run env inv now ps fc \<Longrightarrow> flow_inv now ps fc"
proof (induction rule: flow_run.induct)
  case (start now trc)
  then show ?case by (simp add: flow_inv_def new_flow_control_def accounted_def sent_def settled_def queued_def requested_def flow_empty_iff categories_def)
next
  case (request now ps fc now' req p)
  then show ?case using request_inv [OF later_flow_inv] by blast
next
  case (fire now ps fc now' i)
  then show ?case using fire_inv [OF later_flow_inv] by blast
next
  case (reschedule now ps fc now')
  then show ?case using reschedule_inv [OF later_flow_inv] by blast
qed (simp_all add: flow_inv_def set_queue_length_def)

end

text \<open>The packet a trigger picks: the head of a queue with the least delay, of the highest such category.\<close>

locale steady_flow_control = flow_control env inv + steady_rate_control "flow_trc env" inv for env :: "('r, 'p) flow_env" and inv
begin

definition head_delay :: "time_point \<Rightarrow> 'r \<Rightarrow> 'p PendingTransmission \<Rightarrow> duration" where
  "head_delay now r pt = fst (trc_delay (flow_trc env) now (pending_transmission env pt) r)"

definition least_head :: "time_point \<Rightarrow> ('r, 'p) FlowControl \<Rightarrow> AccessCategory set \<Rightarrow> AccessCategory \<Rightarrow> 'p PendingTransmission \<Rightarrow> bool" where
  "least_head now fc C ac pt \<longleftrightarrow> ac \<in> C \<and> (\<exists>q. fc_queues fc ac = pt # q) \<and>
     (\<forall>c\<in>C. \<forall>pt' q. fc_queues fc c = pt' # q \<longrightarrow> head_delay now (fc_trc fc) pt \<le> head_delay now (fc_trc fc) pt' \<and>
        (head_delay now (fc_trc fc) pt = head_delay now (fc_trc fc) pt' \<longrightarrow> c \<le> ac))"

text \<open>What the search over some categories has found, against what was known before.\<close>

definition found :: "time_point \<Rightarrow> ('r, 'p) FlowControl \<Rightarrow> AccessCategory set \<Rightarrow> AccessCategory option \<times> duration \<Rightarrow> AccessCategory option \<times> duration \<Rightarrow> bool" where
  "found now fc C old new \<longleftrightarrow>
     new = old \<and> (\<forall>c\<in>C. \<forall>pt q. fc_queues fc c = pt # q \<longrightarrow> snd old \<le> head_delay now (fc_trc fc) pt) \<or>
     (\<exists>ac pt. new = (Some ac, head_delay now (fc_trc fc) pt) \<and> least_head now fc C ac pt \<and> head_delay now (fc_trc fc) pt < snd old)"

lemma found_skip: "fc_queues fc a = [] \<Longrightarrow> found now fc C old new \<Longrightarrow> found now fc (insert a C) old new"
  by (auto simp: found_def least_head_def)

lemma found_head:
  assumes "fc_queues fc a = pt # q" "\<forall>c\<in>C. c \<le> a"
    "found now fc C (if head_delay now (fc_trc fc) pt < md then (Some a, head_delay now (fc_trc fc) pt) else (nxt, md)) new"
  shows "found now fc (insert a C) (nxt, md) new"
  using assms by (cases "head_delay now (fc_trc fc) pt < md") (force simp: found_def least_head_def)+

lemma next_queue_least:
  assumes "inv now r" "\<And>pt. head_delay now r pt = head_delay now (fc_trc fc) pt" "sorted_wrt (\<lambda>a b. b \<le> a) cs"
  shows "\<exists>nxt' md' r'. fold (next_queue_step env now) cs (nxt, md, fc\<lparr>fc_trc := r\<rparr>) = (nxt', md', fc\<lparr>fc_trc := r'\<rparr>) \<and> inv now r' \<and>
    found now fc (set cs) (nxt, md) (nxt', md')"
  using assms
proof (induction cs arbitrary: nxt md r)
  case Nil
  then show ?case by (intro exI [of _ nxt] exI [of _ md] exI [of _ r]) (simp add: found_def)
next
  case (Cons a cs)
  have cs: "\<forall>c\<in>set cs. c \<le> a" "sorted_wrt (\<lambda>a b. b \<le> a) cs" using Cons.prems(3) by auto
  show ?case
  proof (cases "fc_queues fc a")
    case Nil
    then have "next_queue_step env now a (nxt, md, fc\<lparr>fc_trc := r\<rparr>) = (nxt, md, fc\<lparr>fc_trc := r\<rparr>)" by (simp add: next_queue_step_def)
    then show ?thesis using Cons.IH [OF Cons.prems(1,2) cs(2), of nxt md] found_skip [OF Nil] unfolding fold_simps list.set by metis
  next
    case (Cons pt q)
    let ?r = "snd (trc_delay (flow_trc env) now (pending_transmission env pt) r)" and ?d = "head_delay now (fc_trc fc) pt"
    let ?st = "if ?d < md then (Some a, ?d) else (nxt, md)"
    have "flow_delay env now (pending_transmission env pt) (fc\<lparr>fc_trc := r\<rparr>) = (?d, fc\<lparr>fc_trc := ?r\<rparr>)"
      using Cons.prems(2) [of pt] by (simp add: flow_delay_def head_delay_def split_beta)
    then have step: "next_queue_step env now a (nxt, md, fc\<lparr>fc_trc := r\<rparr>) = (fst ?st, snd ?st, fc\<lparr>fc_trc := ?r\<rparr>)"
      using Cons by (simp add: next_queue_step_def)
    have r: "inv now ?r" "\<And>pt. head_delay now ?r pt = head_delay now (fc_trc fc) pt"
      using Cons.prems(1,2) by (simp_all add: delay_inv head_delay_def delay_again)
    obtain nxt' md' r' where n: "fold (next_queue_step env now) cs (fst ?st, snd ?st, fc\<lparr>fc_trc := ?r\<rparr>) = (nxt', md', fc\<lparr>fc_trc := r'\<rparr>)" "inv now r'"
        "found now fc (set cs) (fst ?st, snd ?st) (nxt', md')"
      using Cons.IH [OF r cs(2), of "fst ?st" "snd ?st"] by blast
    have "found now fc (set (a # cs)) (nxt, md) (nxt', md')"
      unfolding list.set using found_head [OF Cons cs(1), of now md nxt "(nxt', md')"] n(3) by (simp only: prod.collapse)
    then show ?thesis using n(1,2) unfolding fold_simps step by blast
  qed
qed

lemma next_queue_picks:
  assumes "inv now (fc_trc fc)" "\<not> flow_empty fc"
  obtains ac pt r where "next_queue env now fc = (Some ac, fc\<lparr>fc_trc := r\<rparr>)" "inv now r" "least_head now fc UNIV ac pt"
proof -
  have cs: "sorted_wrt (\<lambda>a b. b \<le> a) categories" "set categories = UNIV"
    by (auto simp: categories_def less_eq_AccessCategory_def intro: AccessCategory.exhaust)
  have short: "head_delay now (fc_trc fc) pt < duration_max" for pt unfolding head_delay_def using delay_range [OF assms(1)] by blast
  show thesis using next_queue_least [OF assms(1) refl cs(1), of None duration_max] short assms(2) that
    unfolding cs(2) by (fastforce simp: next_queue_def found_def flow_empty_iff neq_Nil_conv not_less [symmetric])
qed

lemma schedule_next_keeps:
  assumes "inv now (fc_trc fc)"
  shows "fc_queues (schedule_next env now fc) = fc_queues fc \<and> sent c (schedule_next env now fc) = sent c fc"
proof -
  obtain pt r where n: "next_transmission env now fc = (pt, fc\<lparr>fc_trc := r\<rparr>)" "inv now r" using next_transmission_spec [OF assms] by blast
  show ?thesis using n by (cases pt) (simp_all add: schedule_next_def schedule_trigger_def flow_delay_def split_beta)
qed

lemma trigger_picks:
  assumes "inv now (fc_trc fc)" "\<not> flow_empty (flow_drop_expired now fc)"
    "\<forall>ac. \<forall>pt\<in>set (fc_queues fc ac). map_profile_onto_ac (dcc_profile (pt_request pt)) = ac"
  shows "\<exists>ac pt q. least_head now (flow_drop_expired now fc) UNIV ac pt \<and> fc_queues (flow_drop_expired now fc) ac = pt # q \<and>
    fc_queues (flow_trigger env now fc) = (fc_queues (flow_drop_expired now fc))(ac := q) \<and>
    (\<forall>c. sent c (flow_trigger env now fc) = sent c fc @ (if c = ac then [pt_packet pt] else []))"
proof -
  let ?fc = "flow_drop_expired now fc"
  obtain ac pt r where n: "next_queue env now ?fc = (Some ac, ?fc\<lparr>fc_trc := r\<rparr>)" "inv now r" "least_head now ?fc UNIV ac pt"
    using assms(1) by (auto intro: next_queue_picks [OF _ assms(2)])
  then obtain q where q: "fc_queues ?fc ac = pt # q" by (auto simp: least_head_def simp del: drop_expired_frame)
  let ?sent = "flow_transmit (pt_request pt) (pt_packet pt) (flow_notify env now (pending_transmission env pt) (?fc\<lparr>fc_trc := r, fc_queues := (fc_queues ?fc)(ac := q)\<rparr>))"
  have t: "flow_trigger env now fc = schedule_next env now ?sent" using n(1) q by (simp add: flow_trigger_def dequeue_def del: drop_expired_frame)
  have "pt \<in> set (fc_queues ?fc ac)" using q by simp
  then have ac: "map_profile_onto_ac (dcc_profile (pt_request pt)) = ac" using assms(3) by simp
  have "inv now (fc_trc ?sent)" using notify_inv [OF n(2)] by (simp add: transmit_effect flow_notify_def)
  from schedule_next_keeps [OF this] show ?thesis unfolding t using n(3) q
    by (intro exI [of _ ac] exI [of _ pt] exI [of _ q]) (simp add: transmit_effect flow_notify_def ac del: drop_expired_frame(4))
qed

end

text \<open>
  C16: flow control invents, duplicates and reorders nothing. For every access category the packets
  handed to the access layer, followed by those that wait, are a subsequence of the packets
  requested in that category, in their order. The number of calls of the access layer and of the
  hook for dropped packets, together with the number of waiting packets, is the number of
  requests. This is a count, not a matching: when a queue is full, the hook is called with the new
  packet, although it is the old one that goes.
\<close>

theorem flow_accounts:
  assumes "rate_control (flow_trc env) rate_inv" "flow_run env rate_inv now ps fc"
  shows "subseq (sent ac fc @ map pt_packet (fc_queues fc ac)) (requested ac ps) \<and> settled fc + queued fc = length ps"
  using flow_control.flow_run_inv [OF flow_control.intro [OF assms(1)] assms(2)]
  by (simp add: flow_control.flow_inv_def [OF flow_control.intro [OF assms(1)]] accounted_def)

text \<open>
  C17: flow control never gets stuck. While packets wait, a trigger is pending, and every trigger
  that becomes due settles at least one of the waiting packets.
\<close>

theorem flow_progress:
  assumes "rate_control (flow_trc env) rate_inv" "flow_run env rate_inv now ps fc" "0 < queued fc"
  shows "fc_triggers fc \<noteq> [] \<and> (\<forall>now' i. now \<le> now' \<longrightarrow> now' < clock_end \<longrightarrow> queued (fire_trigger env now' i fc) < queued fc)"
proof -
  note f = flow_control.intro [OF assms(1)]
  have i: "flow_control.flow_inv rate_inv now ps fc" by (rule flow_control.flow_run_inv [OF f assms(2)])
  have "queued (fire_trigger env now' i fc) < queued fc" if "now \<le> now'" "now' < clock_end" for now' i
    using flow_control.fire_inv [OF f flow_control.later_flow_inv [OF f i that], of i] assms(3) by simp
  moreover have "fc_triggers fc \<noteq> []" using i assms(3) queued_empty [of fc] by (auto simp: flow_control.flow_inv_def [OF f])
  ultimately show ?thesis by blast
qed

text \<open>
  C18: a request is decided by the queues and the rate control alone. After the expired packets
  are gone, the packet goes to the access layer at once if no packet of its category or of a
  higher one waits and the rate control asks for no delay. Otherwise it is appended to the queue
  of its category, from whose head as many packets are dropped as a limited length requires. No
  other queue changes.
\<close>

theorem flow_request_decides:
  fixes fc :: "('r, 'p) FlowControl"
  shows "let ac = map_profile_onto_ac (dcc_profile req);
       waiting = (\<lambda>c. filter (\<lambda>pt. \<not> pt_expiry pt < now) (fc_queues fc c));
       tx = \<lparr>tx_profile = dcc_profile req, tx_data_rate = None, tx_body_length = flow_size env p\<rparr>;
       pt = \<lparr>pt_expiry = now + dcc_lifetime req, pt_request = req, pt_packet = p\<rparr>;
       surplus = (if fc_queue_length fc = 0 then 0 else length (waiting ac) + 1 - fc_queue_length fc);
       fc' = flow_request env now req p fc
   in if (\<forall>c\<ge>ac. waiting c = []) \<and> fst (trc_delay (flow_trc env) now tx (fc_trc fc)) = 0
      then fc_queues fc' = waiting \<and> (\<forall>c. sent c fc' = sent c fc @ (if c = ac then [p] else []))
      else fc_queues fc' = waiting(ac := drop surplus (waiting ac) @ [pt]) \<and> (\<forall>c. sent c fc' = sent c fc)"
proof -
  let ?fc = "flow_drop_expired now fc" and ?ac = "map_profile_onto_ac (dcc_profile req)"
  let ?tx = "\<lparr>tx_profile = dcc_profile req, tx_data_rate = None, tx_body_length = flow_size env p\<rparr>"
  let ?pt = "\<lparr>pt_expiry = now + dcc_lifetime req, pt_request = req, pt_packet = p\<rparr>"
  have waiting: "fc_queues ?fc = (\<lambda>c. filter (\<lambda>pt. \<not> pt_expiry pt < now) (fc_queues fc c))" by (rule ext) simp
  have free: "\<not> contention ?ac ?fc \<longleftrightarrow> (\<forall>c\<ge>?ac. fc_queues ?fc c = [])" by (auto simp: contention_def list_ex_iff simp del: drop_expired_frame)
  have delay: "flow_delay env now ?tx ?fc = (fst (trc_delay (flow_trc env) now ?tx (fc_trc fc)), ?fc\<lparr>fc_trc := snd (trc_delay (flow_trc env) now ?tx (fc_trc fc))\<rparr>)"
    by (simp add: flow_delay_def split_beta)
  have sched: "fc_queues (schedule_trigger env now x f) = fc_queues f" "sent c (schedule_trigger env now x f) = sent c f" for c x and f :: "('r, 'p) FlowControl"
    by (simp_all add: schedule_trigger_def flow_delay_def split_beta)
  have enq: "fc_queues (enqueue env now req p f) = (fc_queues f)(?ac := drop (if fc_queue_length f = 0 then 0 else length (fc_queues f ?ac) + 1 - fc_queue_length f) (fc_queues f ?ac) @ [?pt])"
    "sent c (enqueue env now req p f) = sent c f" for c and f :: "('r, 'p) FlowControl"
    using pop_loop_result [of "fc_queue_length f" "fc_queues f ?ac"] by (cases "pop_loop (fc_queue_length f) (fc_queues f ?ac)"; simp add: enqueue_def Let_def sched; simp add: sent_def)+
  show ?thesis unfolding Let_def waiting [symmetric] free [symmetric]
    by (simp add: flow_request_def transmit_immediately_def delay enq transmit_effect flow_notify_def Let_def del: drop_expired_frame(4))
qed

text \<open>
  C19: what a trigger does when it becomes due, in every reachable state in which a packet waits
  that has not expired. Expired packets go, and exactly one packet is handed to the access layer: the
  head of a queue for which the rate control asks for the least delay, of the highest category
  among these. The order of all other packets stays. Whether this least delay is zero plays no
  role: a trigger left over from a packet that expired sends the next packet too early. The rate control is
  any that keeps the contract and answers the same when it is asked twice, as all three do.
\<close>

theorem flow_trigger_sends:
  fixes fc :: "('r, 'p) FlowControl"
  assumes "steady_rate_control (flow_trc env) rate_inv" "flow_run env rate_inv now ps fc" "now \<le> now'" "now' < clock_end"
    "pt0 \<in> set (fc_queues fc ac0)" "now' \<le> pt_expiry pt0"
  shows "let waiting = (\<lambda>c. filter (\<lambda>pt. \<not> pt_expiry pt < now') (fc_queues fc c));
       delay = (\<lambda>pt. fst (trc_delay (flow_trc env) now' (pending_transmission env pt) (fc_trc fc)));
       fc' = fire_trigger env now' i fc
   in \<exists>ac pt q. waiting ac = pt # q \<and>
        (\<forall>c pt' q'. waiting c = pt' # q' \<longrightarrow> delay pt \<le> delay pt' \<and> (delay pt = delay pt' \<longrightarrow> c \<le> ac)) \<and>
        fc_queues fc' = waiting(ac := q) \<and> (\<forall>c. sent c fc' = sent c fc @ (if c = ac then [pt_packet pt] else []))"
proof -
  note s = steady_flow_control.intro [OF flow_control.intro [OF steady_rate_control.axioms(1) [OF assms(1)]] assms(1)]
  note f = steady_flow_control.axioms(1) [OF s]
  let ?fc = "fc\<lparr>fc_triggers := take i (fc_triggers fc) @ drop (Suc i) (fc_triggers fc)\<rparr>" and ?w = "flow_drop_expired now' fc"
  have "flow_control.flow_inv rate_inv now' ps fc"
    using flow_control.later_flow_inv [OF f flow_control.flow_run_inv [OF f assms(2)] assms(3,4)] .
  then have inv: "rate_inv now' (fc_trc ?fc)" "\<forall>ac. \<forall>pt\<in>set (fc_queues ?fc ac). map_profile_onto_ac (dcc_profile (pt_request pt)) = ac"
    by (simp_all add: flow_control.flow_inv_def [OF f] accounted_def)
  have queues: "fc_queues (flow_drop_expired now' ?fc) = (\<lambda>c. filter (\<lambda>pt. \<not> pt_expiry pt < now') (fc_queues fc c))" by (rule ext) simp
  have "pt0 \<in> set (fc_queues (flow_drop_expired now' ?fc) ac0)" using assms(5,6) by simp
  then have busy: "\<not> flow_empty (flow_drop_expired now' ?fc)" unfolding flow_empty_iff by (metis empty_iff list.set(1))
  obtain ac pt q where p: "steady_flow_control.least_head env now' (flow_drop_expired now' ?fc) UNIV ac pt" "fc_queues (flow_drop_expired now' ?fc) ac = pt # q"
      "fc_queues (flow_trigger env now' ?fc) = (fc_queues (flow_drop_expired now' ?fc))(ac := q)"
      "\<And>c. sent c (flow_trigger env now' ?fc) = sent c ?fc @ (if c = ac then [pt_packet pt] else [])"
    using steady_flow_control.trigger_picks [OF s inv(1) busy inv(2)] by blast
  show ?thesis unfolding Let_def fire_trigger_def using p unfolding queues steady_flow_control.least_head_def [OF s] steady_flow_control.head_delay_def [OF s]
    by (intro exI [of _ ac] exI [of _ pt] exI [of _ q]) (simp add: sent_def)
qed

section \<open>Flow control with each of the rate controls\<close>

interpretation single_reactive_flow: flow_control "\<lparr>flow_trc = single_reactive_trc transmission_interval, flow_size = get_size\<rparr>"
  "single_reactive_inv transmission_interval" for transmission_interval get_size
  by (intro flow_control.intro) (simp add: single_reactive.rate_control_axioms)

interpretation bursty_flow: flow_control "\<lparr>flow_trc = bursty_trc list_ring transmission_interval, flow_size = get_size\<rparr>"
  "bursty_inv transmission_interval" for transmission_interval get_size
  by (intro flow_control.intro) (simp add: bursty.rate_control_axioms)

interpretation limeric_flow: flow_control "\<lparr>flow_trc = limeric_trc, flow_size = get_size\<rparr>" limeric_inv for get_size
  by (intro flow_control.intro) (simp add: limeric.rate_control_axioms)

text \<open>A station in the relaxed state, with at least 60 ms between messages; packets are numbers.\<close>

definition relaxed_env :: "(FullyMeshedStateMachine SingleReactiveTransmitRateControl, nat) flow_env" where
  "relaxed_env = \<lparr>flow_trc = single_reactive_trc meshed_transmission_interval, flow_size = (\<lambda>_. 100)\<rparr>"

abbreviation relaxed_inv :: "time_point \<Rightarrow> FullyMeshedStateMachine SingleReactiveTransmitRateControl \<Rightarrow> bool" where
  "relaxed_inv \<equiv> single_reactive_inv meshed_transmission_interval"

definition relaxed_request :: "duration \<Rightarrow> DccRequest" where
  "relaxed_request d = \<lparr>dcc_destination = cBroadcastMacAddress, dcc_source = MacAddress 2 0 0 0 0 1, dcc_profile = DP1, dcc_ether_type = 0x8947, dcc_lifetime = d\<rparr>"

text \<open>
  Four requests: the first is sent, the second expires in the queue, the third finds the queue
  empty again and the fourth waits behind it.
\<close>

definition four_requests :: "(FullyMeshedStateMachine SingleReactiveTransmitRateControl, nat) FlowControl" where
  "four_requests =
     flow_request relaxed_env 50000 (relaxed_request 1000000) 4 (flow_request relaxed_env 40000 (relaxed_request 1000000) 3
       (flow_request relaxed_env 10000 (relaxed_request 20000) 2 (flow_request relaxed_env 0 (relaxed_request 1000000) 1
         (new_flow_control \<lparr>sr_last_tx = None, sr_fsm = new_meshed\<rparr>))))"

lemma relaxed_rate_control: "rate_control (flow_trc relaxed_env) relaxed_inv"
  by (simp add: relaxed_env_def single_reactive.rate_control_axioms)

lemma four_requests_run: "flow_run relaxed_env relaxed_inv 50000 [(VI, 1), (VI, 2), (VI, 3), (VI, 4)] four_requests"
proof -
  have profile: "map_profile_onto_ac (dcc_profile (relaxed_request d)) = VI" for d by (simp add: relaxed_request_def)
  have "flow_run relaxed_env relaxed_inv 0 [] (new_flow_control \<lparr>sr_last_tx = None, sr_fsm = new_meshed\<rparr>)"
    by (rule flow_run.start) (simp add: single_reactive_inv_def interval_ok_def last_tx_ok_def meshed_transmission_interval_def new_meshed_def milliseconds_def duration_max_def)
  from flow_run.request [OF this, of 0 "relaxed_request 1000000" 1]
  have "flow_run relaxed_env relaxed_inv 0 [(VI, 1)] (flow_request relaxed_env 0 (relaxed_request 1000000) 1 (new_flow_control \<lparr>sr_last_tx = None, sr_fsm = new_meshed\<rparr>))"
    by (simp add: profile clock_end_def)
  from flow_run.request [OF this, of 10000 "relaxed_request 20000" 2]
  have "flow_run relaxed_env relaxed_inv 10000 [(VI, 1), (VI, 2)] (flow_request relaxed_env 10000 (relaxed_request 20000) 2
      (flow_request relaxed_env 0 (relaxed_request 1000000) 1 (new_flow_control \<lparr>sr_last_tx = None, sr_fsm = new_meshed\<rparr>)))"
    by (simp add: profile clock_end_def)
  from flow_run.request [OF flow_run.request [OF this, of 40000 "relaxed_request 1000000" 3], of 50000 "relaxed_request 1000000" 4]
  show ?thesis by (simp add: profile clock_end_def four_requests_def)
qed

theorem flow_accounts_witness:
  "subseq (sent VI four_requests @ map pt_packet (fc_queues four_requests VI)) [1, 2, 3, 4] \<and> settled four_requests + queued four_requests = 4"
  using flow_accounts [OF relaxed_rate_control four_requests_run, of VI] by (simp add: requested_def)

theorem flow_progress_witness: "queued (fire_trigger relaxed_env 60000 0 four_requests) < queued four_requests"
proof -
  have "0 < queued four_requests" by code_simp
  from flow_progress [OF relaxed_rate_control four_requests_run this] show ?thesis by (simp add: clock_end_def)
qed

theorem flow_request_decides_witness:
  "sent VI (flow_request relaxed_env 0 (relaxed_request 1000000) 1 (new_flow_control \<lparr>sr_last_tx = None, sr_fsm = new_meshed\<rparr>)) = [1]"
  using flow_request_decides [of "relaxed_request 1000000" 0 "new_flow_control \<lparr>sr_last_tx = None, sr_fsm = new_meshed\<rparr>" relaxed_env 1]
  by (simp add: new_flow_control_def relaxed_request_def relaxed_env_def single_reactive_trc_def fsm_budget_delay_def sent_def Let_def)

text \<open>
  The third packet finds an empty queue while the trigger of the expired second one is still
  pending: both triggers are due at the same time. The second of them sends the fourth packet while the
  rate control asks for 60 ms.
\<close>

lemma steady_relaxed: "steady_rate_control (flow_trc relaxed_env) relaxed_inv"
  by (simp add: relaxed_env_def single_reactive.steady_rate_control_axioms)

lemma four_requests_state: "fc_triggers four_requests = [60000, 60000]" "sent VI four_requests = [1]"
  by code_simp+

lemma four_requests_queues:
  "filter (\<lambda>pt. \<not> pt_expiry pt < 60000) (fc_queues four_requests ac) =
     (if ac = VI then [\<lparr>pt_expiry = 1040000, pt_request = relaxed_request 1000000, pt_packet = 3\<rparr>,
        \<lparr>pt_expiry = 1050000, pt_request = relaxed_request 1000000, pt_packet = 4\<rparr>] else [])"
  by (cases ac; simp only:; code_simp)

theorem flow_trigger_sends_witness:
  "let fc = fire_trigger relaxed_env 60000 0 four_requests
   in sent VI fc = [1, 3] \<and> fst (trc_delay (flow_trc relaxed_env) 60000 \<lparr>tx_profile = DP1, tx_data_rate = None, tx_body_length = 100\<rparr> (fc_trc fc)) = 60000 \<and>
      sent VI (fire_trigger relaxed_env 60000 0 fc) = [1, 3, 4]"
proof -
  let ?pt = "\<lambda>t n. \<lparr>pt_expiry = t, pt_request = relaxed_request 1000000, pt_packet = n\<rparr> :: nat PendingTransmission"
  let ?fc = "fire_trigger relaxed_env 60000 0 four_requests"
  note queue = four_requests_queues
  have "?pt 1040000 3 \<in> set (fc_queues four_requests VI)" using arg_cong [OF queue [of VI], of set] by auto
  from flow_trigger_sends [OF steady_relaxed four_requests_run _ _ this, of 60000 0]
  have first: "fc_queues ?fc VI = [?pt 1050000 4] \<and> sent VI ?fc = [1, 3]"
    by (auto simp: Let_def clock_end_def queue four_requests_state(2) split: if_splits)
  have run: "flow_run relaxed_env relaxed_inv 60000 [(VI, 1), (VI, 2), (VI, 3), (VI, 4)] ?fc"
    by (rule flow_run.fire [OF four_requests_run]) (simp_all add: clock_end_def four_requests_state(1))
  have empty: "fc_queues ?fc c = []" if "c \<noteq> VI" for c
  proof -
    have "\<forall>c\<in>set categories. c \<noteq> VI \<longrightarrow> fc_queues ?fc c = []" by code_simp
    then show ?thesis using that by simp
  qed
  have "?pt 1050000 4 \<in> set (fc_queues ?fc VI)" using first by simp
  from flow_trigger_sends [OF steady_relaxed run _ _ this, of 60000 0]
  obtain ac pt q where s: "filter (\<lambda>pt. \<not> pt_expiry pt < 60000) (fc_queues ?fc ac) = pt # q"
      "sent VI (fire_trigger relaxed_env 60000 0 ?fc) = sent VI ?fc @ (if VI = ac then [pt_packet pt] else [])"
    by (auto simp: Let_def clock_end_def)
  then have "ac = VI" using empty [of ac] by fastforce
  then have "sent VI (fire_trigger relaxed_env 60000 0 ?fc) = [1, 3, 4]" using s first by auto
  moreover have "fst (trc_delay (flow_trc relaxed_env) 60000 \<lparr>tx_profile = DP1, tx_data_rate = None, tx_body_length = 100\<rparr> (fc_trc ?fc)) = 60000" by code_simp
  ultimately show ?thesis using first by (simp add: Let_def)
qed

end
