(* ===== verification/Spec2Isabelle.thy ===== *)
theory Spec2Isabelle
  imports Asn_Messages Btp Gn_Forwarding_Laws Dcc_Laws Dcc_Flow_Laws
begin

text \<open>
  A verification of the V2X communication stack under \<open>src/vanetza\<close>: the ASN.1 runtime that
  encodes and decodes messages with the unaligned packed encoding rules (UPER), the
  GeoNetworking and transport layers that carry them between stations, and the congestion
  control below them.

  \<^bold>\<open>The program.\<close> A station's facilities build messages as C structures that the asn1c
  compiler generated from ASN.1 modules. The runtime under \<open>vanetza/asn1/support\<close> turns
  them into octets and back, driven by descriptor tables; \<open>asn1c_wrapper.cpp\<close> is its entry.
  The octets travel as payload of GeoNetworking packets: the router in \<open>vanetza/geonet\<close> builds
  and parses headers, keeps a table of the stations it has heard, detects duplicates, chooses
  the next hop of a packet, and buffers packets that have to wait for a neighbour or for the end
  of a contention. What is addressed to the station goes up to the transport protocol,
  which hands it to an application; what goes down passes the flow control of \<open>vanetza/dcc\<close>.

  \<^bold>\<open>The ASN.1 runtime.\<close> Each theory models the files it names; the state of a bit stream is a
  record with the fields of the C structure, every function returns its status code and the
  stream after the call.

  \<^item> \<open>Asn_Prelude\<close>: octets, collections of facts, big-endian numbers, shared lemmas on lists
    and words.
  \<^item> \<open>Byte_Sinks\<close>: the callbacks that receive octets (\<open>per_encoder.c\<close>, \<open>uper_encoder.c\<close>,
    \<open>constr_SET_OF.c\<close>, \<open>asn1c_wrapper.cpp\<close>); the growing buffers always fit.
  \<^item> \<open>Bit_Input\<close>, \<open>Bit_Output\<close>, \<open>Bit_Stream\<close>: \<open>asn_bit_data.c\<close>. Reading returns exactly the next bits
    or fails without a change, writing appends exactly the given bits, and what is written is
    read back.
  \<^item> \<open>Uper_Support\<close>: lengths, small numbers and ranges (\<open>uper_support.c\<close>, \<open>per_support.c\<close>); round trips,
    exact rebasing without wrap-around, and the misread large numbers.
  \<^item> \<open>Asn_Integer\<close>, \<open>Uper_Primitives\<close>: \<open>INTEGER.c\<close> and the codecs of integers, enumerations, booleans
    and NULL.
  \<^item> \<open>Uper_Fragments\<close>, \<open>Fragment_Loops\<close>, \<open>Octet_String\<close>, \<open>Bit_String\<close>: fragmented encodings and strings.
  \<^item> \<open>Uper_Codec\<close>: whole messages and open types; locale \<open>codec\<close> is the contract of an element type
    that the constructed types rely on, interpreted on every primitive.
  \<^item> \<open>Uper_Collections\<close>, \<open>Uper_Constructed\<close>: SET OF and SEQUENCE OF, SEQUENCE, CHOICE and open type
    members.
  \<^item> \<open>Asn_Types\<close>, \<open>Asn_Messages\<close>: descriptors as terms over all kinds. For every descriptor decoding
    stays inside the buffer, its loops end, valid values make the round trip, and versions that
    differ in extension additions understand each other.

  \<^bold>\<open>GeoNetworking.\<close>

  \<^item> \<open>Gn_Wire\<close>, \<open>Gn_Headers\<close>, \<open>Gn_Parser\<close>: archives, addresses, position vectors, headers and the parser
    (\<open>common/archives.cpp\<close>, \<open>net/mac_address.cpp\<close>, \<open>geonet/*_header.cpp\<close>, \<open>pdu.cpp\<close>, \<open>parser.cpp\<close>). The locale
    \<open>wire_format\<close> is the contract of a fixed-size format; it is interpreted on every header, and the
    parser accepts exactly what serialising gives.
  \<^item> \<open>Gn_Values\<close>: time stamps and sequence numbers on a circle, lifetimes.
  \<^item> \<open>Gn_Memory\<close>: the duplicate packet list and the memory of broadcasts, each equal to a window or
    a list of the most recent packets.
  \<^item> \<open>Gn_Packet_Buffer\<close>, \<open>Gn_Pending\<close>: the forwarding buffer, bounded without wrap-around of its counter,
    and the pending packets it holds; locale \<open>buffer_data\<close> is the interface between both.
  \<^item> \<open>Gn_Soft_State\<close>: the map with expiring entries refines a plain map.
  \<^item> \<open>Gn_Cbf\<close>: the contention buffer with its counters (locale \<open>cbf_counter\<close>) and timers. Its reachable
    states are an inductive predicate; they are consistent, and the pending triggers deliver
    every packet at its expiry.
  \<^item> \<open>Gn_Areas\<close>: destination areas (\<open>areas.cpp\<close>, \<open>gbc_gac_header.cpp\<close>) and what of them survives the
    header. Locale \<open>quantity_conversion\<close> is the accuracy asked of floating point conversions; it is
    interpreted on conversions that round to double precision.
  \<^item> \<open>Gn_Location\<close>: the location table (\<open>location_table.cpp\<close>) over the soft-state map; the newest position
    of a station is kept. Locale \<open>key_order\<close> is the iteration over a hash map.
  \<^item> \<open>Gn_Forwarding\<close>: the state of the router, its environment and the forwarding algorithms
    (\<open>mib.hpp\<close>, \<open>next_hop.cpp\<close>, \<open>router.cpp\<close>). Calls to the layers above and below and thrown exceptions
    are events in the list \<open>r_calls\<close>, in the order the code makes them.
  \<^item> \<open>Gn_Router\<close>: reception, requests, repetitions, beacons and configuration (\<open>router.cpp\<close>,
    \<open>indication_context.cpp\<close>, \<open>data_confirm.cpp\<close>, \<open>repeater.cpp\<close>).
  \<^item> \<open>Gn_Router_Laws\<close>: the states a router reaches are an inductive predicate over all its entry points
    and timers. In each no exception has been thrown, hop limits and security are kept and the
    tables are consistent. Locale \<open>router_environment\<close> collects the contracts of the parameters.
  \<^item> \<open>Gn_Forwarding_Laws\<close>, \<open>Gn_End_To_End\<close>: what the algorithms decide, and what a station receives of the
    requests of another.
  \<^item> \<open>Btp\<close>: headers and port dispatcher of the transport protocol (\<open>vanetza/btp\<close>) and the requests of
    applications (\<open>tools/socktap/application.cpp\<close>); a message travels from one application through two
    routers to the application registered for its port, and too short packets raise an exception.

  \<^bold>\<open>Congestion control.\<close> \<open>Dcc_Rate\<close> models how \<open>vanetza/dcc\<close> turns the measured channel load into the time
  between messages: both state machines, the budgets, LIMERIC and the rate controls. Locale
  \<open>ring_buffer\<close> is what they rely on of circular buffers. \<open>Dcc_Laws\<close> shows that the fully
  meshed machine follows the history of loads, that the gradual machine settles, and that the
  permits of LIMERIC converge between stations and keep their bounds. \<open>Dcc_Flow\<close> and \<open>Dcc_Flow_Laws\<close>
  are the queues in front of the access layer (\<open>flow_control.cpp\<close>): over any rate control that keeps the
  contract of locale \<open>rate_control\<close> they reorder nothing, account for every request in number and
  never get stuck. A trigger that is due sends the waiting packet with the least delay
  (locale \<open>steady_rate_control\<close>) even if this delay is not zero, so one that is left over sends too early.

  \<^bold>\<open>Parameters.\<close> The containers of Boost are not part of the sources: a circular buffer, a
  sequenced index, a heap with handles and a bidirectional map are arguments of the operations
  that use them, and the locales \<open>circular_buffer\<close>, \<open>sequenced_index\<close>, \<open>mutable_heap\<close> and \<open>timer_bimap\<close> state
  their documented behaviour. Each has an instance over lists, which the witnesses run. The
  size of a secured message and the octets of its serialisation are arguments, too. The record
  \<open>router_env\<close> adds the other code a router calls: the projection and distance of GeographicLib,
  the trigonometric functions and the conversions of Boost.Units between floating point
  quantities (record \<open>geodesy\<close>), random numbers, the security entity, the generator of the field
  for congestion control and the iteration order of hash maps. The theorems on reachable states
  ask of them only that a router with security has a security entity.

  \<^bold>\<open>Bounds.\<close> Loops are recursive functions with a termination proof or \<open>while_option\<close> with a proof
  that it ends; no fuel is used. C and C++ integers have their width; \<open>size_t\<close> and \<open>intmax_t\<close> are 64 bits
  wide. Memory allocation succeeds. Points in time are integers; durations, positions
  and distances are rational numbers, with \<open>None\<close> for a floating point number that is none. The
  conversions of positions, angles and speeds to and from the integers of the headers are
  parameters, of which the theorem on destinations asks only a relative accuracy of \<open>2\<close> to the power of
  \<open>-50\<close>; they are followed by the truncation that the code makes. The rounding of the other floating point
  arithmetic is not modelled.

  \<^bold>\<open>Not modelled.\<close> The tables that asn1c generated (data, covered by the theorems for all
  descriptors); the encoding rules other than UPER and the printing of values; recursive ASN.1
  types, which are no finite term; the casting of packets that never were octets (a shortcut
  for simulations); what the router answers as unsupported, beyond that answer; the access layer and
  the facilities; the security entity, a layer over a crypto library; the rest of the command
  line tools, the simulator and the web application.
\<close>

end
